(* ===== verification/Uadk_Prelude.thy ===== *)
theory Uadk_Prelude
  imports Main "HOL-Library.Word"
begin

text \<open>
  Shared vocabulary of the development: the error codes of \<^verbatim>\<open>include/wd.h\<close>, the result types of
  the C functions, C integer conversions written out on natural numbers, checked array accesses,
  and the list and arithmetic lemmas that the components share.

  Conventions used by every theory.

  \<^item> A C function that returns \<^verbatim>\<open>0\<close> or a negative error code returns \<^typ>\<open>'e + 'a\<close> here, with
    \<open>Inl\<close> for the error.
  \<^item> A C execution that has no defined outcome (it reads or writes outside an allocated object, or
    it loops for ever) is the value \<open>None\<close> of an \<^typ>\<open>'a option\<close>. A theorem that concludes
    \<open>Some\<close> therefore also says that the code stays inside its arrays.
  \<^item> An unsigned \<open>w\<close>-bit quantity that is counted, compared or used as an index is a \<^typ>\<open>nat\<close>,
    and every operation that can wrap is written with \<open>u8\<close>, \<open>u16\<close>, \<open>u32\<close> or \<open>u64\<close>. Quantities that
    the code takes apart bit by bit are \<open>w word\<close>.
  \<^item> The outcome of each \<^verbatim>\<open>malloc\<close>/\<^verbatim>\<open>calloc\<close> is read from a list of booleans that the caller passes
    in (an exhausted list means success), so that the error paths are branches of the model.
\<close>

subsection \<open>Error codes and results\<close>

datatype wd_error =
    WD_EIO | WD_EAGAIN | WD_ENOMEM | WD_EACCES | WD_EBUSY | WD_EEXIST | WD_ENODEV | WD_EINVAL
  | WD_ETIMEDOUT | WD_ADDR_ERR | WD_HW_EACCESS | WD_SGL_ERR | WD_VERIFY_ERR | WD_OUT_EPARA
  | WD_IN_EPARA | WD_ENOPROC

type_synonym 'a result = "wd_error + 'a"

text \<open>The numbers behind the codes (those taken from \<^verbatim>\<open>errno.h\<close> with their Linux values).\<close>

fun errno_of :: "wd_error \<Rightarrow> int" where
  "errno_of WD_EIO = 5"
| "errno_of WD_EAGAIN = 11"
| "errno_of WD_ENOMEM = 12"
| "errno_of WD_EACCES = 13"
| "errno_of WD_EBUSY = 16"
| "errno_of WD_EEXIST = 17"
| "errno_of WD_ENODEV = 19"
| "errno_of WD_EINVAL = 22"
| "errno_of WD_ETIMEDOUT = 110"
| "errno_of WD_ADDR_ERR = 61"
| "errno_of WD_HW_EACCESS = 62"
| "errno_of WD_SGL_ERR = 63"
| "errno_of WD_VERIFY_ERR = 64"
| "errno_of WD_OUT_EPARA = 66"
| "errno_of WD_IN_EPARA = 67"
| "errno_of WD_ENOPROC = 68"

subsection \<open>C integer conversions\<close>

definition u8 :: "nat \<Rightarrow> nat" where "u8 n = n mod 2 ^ 8"
definition u16 :: "nat \<Rightarrow> nat" where "u16 n = n mod 2 ^ 16"
definition u32 :: "nat \<Rightarrow> nat" where "u32 n = n mod 2 ^ 32"
definition u64 :: "nat \<Rightarrow> nat" where "u64 n = n mod 2 ^ 64"

text \<open>Conversion of an integer value to an unsigned and to a signed 32-bit type.\<close>

definition u32_of_int :: "int \<Rightarrow> nat" where "u32_of_int i = nat (i mod 2 ^ 32)"
definition u64_of_int :: "int \<Rightarrow> nat" where "u64_of_int i = nat (i mod 2 ^ 64)"
definition i32 :: "int \<Rightarrow> int" where "i32 i = (i + 2 ^ 31) mod 2 ^ 32 - 2 ^ 31"

text \<open>Unsigned subtraction wraps.\<close>

definition sub32 :: "nat \<Rightarrow> nat \<Rightarrow> nat" where "sub32 a b = (a + 2 ^ 32 - b) mod 2 ^ 32"
definition sub64 :: "nat \<Rightarrow> nat \<Rightarrow> nat" where "sub64 a b = (a + 2 ^ 64 - b) mod 2 ^ 64"
definition sub16 :: "nat \<Rightarrow> nat \<Rightarrow> nat" where "sub16 a b = (a + 2 ^ 16 - b) mod 2 ^ 16"

named_theorems c_int_simps \<open>conversions that do not change a value in range\<close>

text \<open>
  Equations that let the simplifier run a definition on a concrete input; each theory adds those of
  its own definitions.
\<close>

named_theorems model_eval \<open>equations for running the model on concrete inputs\<close>

declare u8_def [model_eval] u16_def [model_eval] u32_def [model_eval] u64_def [model_eval]
  i32_def [model_eval] sub16_def [model_eval] sub32_def [model_eval] sub64_def [model_eval]
  u32_of_int_def [model_eval] u64_of_int_def [model_eval] upt_rec [model_eval] Let_def [model_eval]

lemma u8_small [c_int_simps]: "n < 2 ^ 8 \<Longrightarrow> u8 n = n"
  by (simp add: u8_def)

lemma u16_small [c_int_simps]: "n < 2 ^ 16 \<Longrightarrow> u16 n = n"
  by (simp add: u16_def)

lemma u32_small [c_int_simps]: "n < 2 ^ 32 \<Longrightarrow> u32 n = n"
  by (simp add: u32_def)

lemma u64_small [c_int_simps]: "n < 2 ^ 64 \<Longrightarrow> u64 n = n"
  by (simp add: u64_def)

lemma u16_less [simp]: "u16 n < 65536"
  by (simp add: u16_def)

lemma u32_less [simp]: "u32 n < 4294967296"
  by (simp add: u32_def)

lemma u64_less [simp]: "u64 n < 18446744073709551616"
  by (simp add: u64_def)

lemma u32_of_int_nat [c_int_simps]: "n < 2 ^ 32 \<Longrightarrow> u32_of_int (int n) = n"
  by (simp add: u32_of_int_def)

lemma u64_of_int_nat [c_int_simps]: "n < 2 ^ 64 \<Longrightarrow> u64_of_int (int n) = n"
  by (simp add: u64_of_int_def)

lemma i32_small [c_int_simps]: "- (2 ^ 31) \<le> i \<Longrightarrow> i < 2 ^ 31 \<Longrightarrow> i32 i = i"
  by (simp add: i32_def)

lemma sub32_small [c_int_simps]: "b \<le> a \<Longrightarrow> a < 2 ^ 32 \<Longrightarrow> sub32 a b = a - b"
proof -
  assume "b \<le> a" "a < 2 ^ 32"
  then have "a + 2 ^ 32 - b = (a - b) + 2 ^ 32" "a - b < 2 ^ 32" by auto
  then show ?thesis by (simp only: sub32_def mod_add_self2 mod_less)
qed

lemma sub16_small [c_int_simps]: "b \<le> a \<Longrightarrow> a < 2 ^ 16 \<Longrightarrow> sub16 a b = a - b"
proof -
  assume "b \<le> a" "a < 2 ^ 16"
  then have "a + 2 ^ 16 - b = (a - b) + 2 ^ 16" "a - b < 2 ^ 16" by auto
  then show ?thesis by (simp only: sub16_def mod_add_self2 mod_less)
qed

lemma sub64_small [c_int_simps]: "b \<le> a \<Longrightarrow> a < 2 ^ 64 \<Longrightarrow> sub64 a b = a - b"
proof -
  assume "b \<le> a" "a < 2 ^ 64"
  then have "a + 2 ^ 64 - b = (a - b) + 2 ^ 64" "a - b < 2 ^ 64" by auto
  then show ?thesis by (simp only: sub64_def mod_add_self2 mod_less)
qed

lemma sub64_less [simp]: "sub64 a b < 18446744073709551616"
  by (simp add: sub64_def)

lemma sub32_less [simp]: "sub32 a b < 4294967296"
  by (simp add: sub32_def)

lemma u64_add_sub64: "a < 2 ^ 64 \<Longrightarrow> b \<le> 2 ^ 64 \<Longrightarrow> u64 (sub64 a b + b) = a"
  by (simp add: u64_def sub64_def mod_add_left_eq)

subsection \<open>Checked array accesses\<close>

definition rd :: "'a list \<Rightarrow> nat \<Rightarrow> 'a option" where
  "rd xs i = (if i < length xs then Some (xs ! i) else None)"

definition wr :: "'a list \<Rightarrow> nat \<Rightarrow> 'a \<Rightarrow> 'a list option" where
  "wr xs i v = (if i < length xs then Some (xs[i := v]) else None)"

declare rd_def [model_eval] wr_def [model_eval]

lemma rd_in [simp]: "i < length xs \<Longrightarrow> rd xs i = Some (xs ! i)"
  by (simp add: rd_def)

lemma rd_out [simp]: "length xs \<le> i \<Longrightarrow> rd xs i = None"
  by (simp add: rd_def)

lemma rd_Some_iff [simp]: "rd xs i = Some x \<longleftrightarrow> i < length xs \<and> x = xs ! i"
  by (auto simp: rd_def)

lemma rd_None_iff [simp]: "rd xs i = None \<longleftrightarrow> length xs \<le> i"
  by (auto simp: rd_def)

lemma wr_in [simp]: "i < length xs \<Longrightarrow> wr xs i v = Some (xs[i := v])"
  by (simp add: wr_def)

lemma wr_out [simp]: "length xs \<le> i \<Longrightarrow> wr xs i v = None"
  by (simp add: wr_def)

lemma wr_Some_iff [simp]: "wr xs i v = Some ys \<longleftrightarrow> i < length xs \<and> ys = xs[i := v]"
  by (auto simp: wr_def)

lemma wr_None_iff [simp]: "wr xs i v = None \<longleftrightarrow> length xs \<le> i"
  by (auto simp: wr_def)

subsection \<open>Outcomes of memory allocation\<close>

definition calloc_ok :: "bool list \<Rightarrow> bool \<times> bool list" where
  "calloc_ok oks = (case oks of [] \<Rightarrow> (True, []) | b # bs \<Rightarrow> (b, bs))"

lemma calloc_ok_simps [simp]:
  "calloc_ok [] = (True, [])"
  "calloc_ok (b # bs) = (b, bs)"
  by (simp_all add: calloc_ok_def)

subsection \<open>Loops over an explicit list of indices\<close>

text \<open>
  A \<^verbatim>\<open>for\<close> loop whose body may have no defined outcome: the body runs for each index in order, and
  the loop has an outcome only if every iteration has one.
\<close>

fun opt_fold :: "('x \<Rightarrow> 's \<Rightarrow> 's option) \<Rightarrow> 'x list \<Rightarrow> 's \<Rightarrow> 's option" where
  "opt_fold f [] s = Some s"
| "opt_fold f (x # xs) s = (case f x s of None \<Rightarrow> None | Some s' \<Rightarrow> opt_fold f xs s')"

lemma opt_fold_append:
  "opt_fold f (xs @ ys) s = (case opt_fold f xs s of None \<Rightarrow> None | Some t \<Rightarrow> opt_fold f ys t)"
  by (induction xs arbitrary: s) (auto split: option.splits)

subsection \<open>Lists and arithmetic\<close>

lemma take_list_update_same: "i < length xs \<Longrightarrow> take (Suc i) (xs[i := x]) = take i xs @ [x]"
  by (simp add: take_Suc_conv_app_nth)

lemma butlast_take_Suc: "i < length xs \<Longrightarrow> butlast (take (Suc i) xs) = take i xs"
  by (simp add: butlast_take)

lemma replicate_numeral [model_eval]: "replicate (numeral k) x = x # replicate (pred_numeral k) x"
  by (simp add: numeral_eq_Suc)

lemma div_mult_le_self: "(a::nat) div b * b \<le> a"
  by simp

lemma less_div_mult: "0 < (b::nat) \<Longrightarrow> k < a div b \<Longrightarrow> (k + 1) * b \<le> a"
proof -
  assume "0 < b" "k < a div b"
  then have "(k + 1) * b \<le> a div b * b" by (intro mult_le_mono1) simp
  then show ?thesis using div_mult_le_self [of a b] by linarith
qed

text \<open>The mode of synchronous contexts, \<^verbatim>\<open>include/wd_alg_common.h\<close>.\<close>

definition CTX_MODE_SYNC :: nat where "CTX_MODE_SYNC = 0"

end
