(* ===== verification/Uadk_Interfaces.thy ===== *)
theory Uadk_Interfaces
  imports Uadk_Prelude "HOL-Library.Multiset"
begin

text \<open>
  The contracts between the components, as locales: what a client may rely on, stated on the
  operations it calls. Each locale is interpreted on the model's own definitions in the theory of
  the component that provides them.

  \<^item> \<open>bit_store\<close>: a set of positions with set and clear; provided by the bitmaps of \<^verbatim>\<open>wd_mempool.c\<close> and \<^verbatim>\<open>wd_bmm.c\<close>.
  \<^item> \<open>free_stack\<close>: an array used as a stack of free objects; provided by the block pool of
    \<^verbatim>\<open>wd_mempool.c\<close> and by the SGL pool of \<^verbatim>\<open>hisi_qm_udrv.c\<close>.
  \<^item> \<open>keyed_table\<close>: a table of objects under their keys; provided by the domain hash table of
    \<^verbatim>\<open>wd_sched.c\<close>.
  \<^item> \<open>buffer_pool\<close>: buffers of any size that a client takes and returns; provided by the block memory manager \<^verbatim>\<open>wd_bmm.c\<close>.
\<close>

subsection \<open>A store of bits\<close>

locale bit_store =
  fixes bget :: "'s \<Rightarrow> nat \<Rightarrow> bool"
    and bset :: "'s \<Rightarrow> nat \<Rightarrow> 's option"
    and bclr :: "'s \<Rightarrow> nat \<Rightarrow> 's option"
    and bcap :: "'s \<Rightarrow> nat"
    and bshape :: "'s \<Rightarrow> 'h"
  assumes bset_None: "bset s i = None \<longleftrightarrow> bcap s \<le> i"
    and bclr_None: "bclr s i = None \<longleftrightarrow> bcap s \<le> i"
    and bset_get: "bset s i = Some t \<Longrightarrow> j < bcap s \<Longrightarrow> bget t j \<longleftrightarrow> j = i \<or> bget s j"
    and bclr_get: "bclr s i = Some t \<Longrightarrow> j < bcap s \<Longrightarrow> bget t j \<longleftrightarrow> j \<noteq> i \<and> bget s j"
    and bset_shape: "bset s i = Some t \<Longrightarrow> bshape t = bshape s"
    and bclr_shape: "bclr s i = Some t \<Longrightarrow> bshape t = bshape s"
    and cap_shape: "bshape s = bshape t \<Longrightarrow> bcap s = bcap t"
    and ext: "bshape s = bshape t \<Longrightarrow> (\<And>j. j < bcap s \<Longrightarrow> bget s j = bget t j) \<Longrightarrow> s = t"
begin

lemma set_all:
  assumes "\<forall>i \<in> set xs. i < bcap s"
  shows "\<exists>t. opt_fold (\<lambda>i s. bset s i) xs s = Some t \<and> bshape t = bshape s \<and>
    (\<forall>j < bcap s. bget t j \<longleftrightarrow> j \<in> set xs \<or> bget s j)"
  using assms
proof (induction xs arbitrary: s)
  case Nil
  then show ?case by simp
next
  case (Cons x xs)
  then obtain u where u: "bset s x = Some u" using bset_None [of s x] by (cases "bset s x") auto
  have sh: "bshape u = bshape s" using bset_shape [OF u] .
  then have cap: "bcap u = bcap s" by (rule cap_shape)
  from Cons.prems cap have "\<forall>i \<in> set xs. i < bcap u" by simp
  from Cons.IH [OF this] obtain t where "opt_fold (\<lambda>i s. bset s i) xs u = Some t" "bshape t = bshape u"
    "\<forall>j < bcap u. bget t j \<longleftrightarrow> j \<in> set xs \<or> bget u j" by blast
  then show ?case using u sh cap bset_get [OF u] by auto
qed

lemma clr_all:
  assumes "\<forall>i \<in> set xs. i < bcap s"
  shows "\<exists>t. opt_fold (\<lambda>i s. bclr s i) xs s = Some t \<and> bshape t = bshape s \<and>
    (\<forall>j < bcap s. bget t j \<longleftrightarrow> j \<notin> set xs \<and> bget s j)"
  using assms
proof (induction xs arbitrary: s)
  case Nil
  then show ?case by simp
next
  case (Cons x xs)
  then obtain u where u: "bclr s x = Some u" using bclr_None [of s x] by (cases "bclr s x") auto
  have sh: "bshape u = bshape s" using bclr_shape [OF u] .
  then have cap: "bcap u = bcap s" by (rule cap_shape)
  from Cons.prems cap have "\<forall>i \<in> set xs. i < bcap u" by simp
  from Cons.IH [OF this] obtain t where "opt_fold (\<lambda>i s. bclr s i) xs u = Some t" "bshape t = bshape u"
    "\<forall>j < bcap u. bget t j \<longleftrightarrow> j \<notin> set xs \<and> bget u j" by blast
  then show ?case using u sh cap bclr_get [OF u] by auto
qed

lemma set_all_Some_in:
  assumes "opt_fold (\<lambda>i s. bset s i) xs s = Some t"
  shows "\<forall>i \<in> set xs. i < bcap s"
  using assms
proof (induction xs arbitrary: s)
  case (Cons x xs)
  from Cons.prems obtain u where u: "bset s x = Some u"
    and t: "opt_fold (\<lambda>i s. bset s i) xs u = Some t" by (auto split: option.splits)
  have "bcap u = bcap s" using bset_shape [OF u] by (rule cap_shape)
  then show ?case using Cons.IH [OF t] bset_None [of s x] u by auto
qed simp

text \<open>Clearing exactly the positions that were set, and that were clear before, restores the store.\<close>

lemma clr_set_all:
  assumes set: "opt_fold (\<lambda>i s. bset s i) xs s = Some t"
    and fresh: "\<forall>i \<in> set xs. \<not> bget s i" and same: "set ys = set xs"
  shows "opt_fold (\<lambda>i s. bclr s i) ys t = Some s"
proof -
  have inx: "\<forall>i \<in> set xs. i < bcap s" by (rule set_all_Some_in [OF set])
  from set_all [OF inx] set have sh: "bshape t = bshape s"
    and get: "\<forall>j < bcap s. bget t j \<longleftrightarrow> j \<in> set xs \<or> bget s j" by auto
  have cap: "bcap t = bcap s" using sh by (rule cap_shape)
  with inx same obtain u where u: "opt_fold (\<lambda>i s. bclr s i) ys t = Some u" "bshape u = bshape t"
    "\<forall>j < bcap t. bget u j \<longleftrightarrow> j \<notin> set ys \<and> bget t j" using clr_all [of ys t] by auto
  have "u = s"
  proof (rule ext)
    show "bshape u = bshape s" using u sh by simp
    then have "bcap u = bcap s" by (rule cap_shape)
    then show "bget u j = bget s j" if "j < bcap u" for j
      using that u(3) get fresh same cap by auto
  qed
  with u show ?thesis by simp
qed

end

subsection \<open>A stack of free objects\<close>

text \<open>
  \<open>pop\<close> and \<open>push\<close> work on an array of \<open>depth\<close> entries whose first \<open>top\<close> entries are the free objects;
  \<open>free_objs\<close> lists them, the last one being the next to be handed out.
\<close>

locale free_stack =
  fixes free_objs :: "'p \<Rightarrow> 'a list"
    and depth :: "'p \<Rightarrow> nat"
    and obj :: "'a \<Rightarrow> bool"
    and pop :: "'p \<Rightarrow> ('a \<times> 'p) option"
    and push :: "'p \<Rightarrow> 'a \<Rightarrow> 'p option"
    and inv :: "'p \<Rightarrow> bool"
  assumes pop_None: "inv p \<Longrightarrow> pop p = None \<longleftrightarrow> free_objs p = []"
    and pop_Some: "inv p \<Longrightarrow> pop p = Some (a, q) \<Longrightarrow>
      inv q \<and> free_objs p = free_objs q @ [a] \<and> depth q = depth p \<and> obj a"
    and push_None: "inv p \<Longrightarrow> obj a \<Longrightarrow> push p a = None \<longleftrightarrow> length (free_objs p) = depth p"
    and push_Some: "inv p \<Longrightarrow> obj a \<Longrightarrow> push p a = Some q \<Longrightarrow>
      inv q \<and> free_objs q = free_objs p @ [a] \<and> depth q = depth p"
    and inv_depth: "inv p \<Longrightarrow> length (free_objs p) \<le> depth p"
begin

lemma pop_push:
  assumes "inv p" and "pop p = Some (a, q)"
  shows "\<exists>r. push q a = Some r \<and> free_objs r = free_objs p"
proof -
  from pop_Some [OF assms] have q: "inv q" "obj a" "free_objs p = free_objs q @ [a]" "depth q = depth p"
    by auto
  moreover from inv_depth [OF assms(1)] q have "length (free_objs q) \<noteq> depth q" by simp
  ultimately obtain r where "push q a = Some r" using push_None [of q a] by (cases "push q a") auto
  with push_Some [OF q(1,2), of r] q show ?thesis by auto
qed

lemma push_pop:
  assumes "inv p" and "obj a" and "push p a = Some q"
  shows "\<exists>r. pop q = Some (a, r) \<and> free_objs r = free_objs p"
proof -
  from push_Some [OF assms] have q: "inv q" "free_objs q = free_objs p @ [a]" by auto
  then obtain b r where r: "pop q = Some (b, r)" using pop_None [of q] by (cases "pop q") auto
  from pop_Some [OF q(1) r] q(2) have "free_objs p @ [a] = free_objs r @ [b]" by simp
  with r show ?thesis by simp
qed

text \<open>
  A history of the stack: objects are taken, and objects that were taken (and not yet given back)
  are given back, in any order. \<open>out\<close> lists the objects in the hands of the clients.
\<close>

inductive history :: "'p \<Rightarrow> 'p \<Rightarrow> 'a list \<Rightarrow> bool" for p0 where
  start: "history p0 p0 []"
| take: "history p0 p out \<Longrightarrow> pop p = Some (a, q) \<Longrightarrow> history p0 q (a # out)"
| give: "history p0 p out \<Longrightarrow> a \<in> set out \<Longrightarrow> push p a = Some q \<Longrightarrow> history p0 q (remove1 a out)"

lemma history_inv:
  assumes "history p0 p out" and "inv p0"
  shows "inv p \<and> depth p = depth p0 \<and> (\<forall>a \<in> set out. obj a) \<and>
    mset (free_objs p) + mset out = mset (free_objs p0)"
  using assms
proof (induction rule: history.induct)
  case (take p out a q)
  with pop_Some [of p a q] show ?case by auto
next
  case (give p out a q)
  then have IH: "inv p" "depth p = depth p0" "\<forall>a \<in> set out. obj a"
    "mset (free_objs p) + mset out = mset (free_objs p0)" by auto
  with give.hyps(2) have "obj a" by blast
  from push_Some [OF IH(1) this give.hyps(3)] have q: "inv q" "free_objs q = free_objs p @ [a]"
    "depth q = depth p" by auto
  have "add_mset a (mset (remove1 a out)) = mset out" using give.hyps(2) by simp
  then have "mset (free_objs q) + mset (remove1 a out) = mset (free_objs p) + mset out"
    using q(2) by simp
  moreover have "set (remove1 a out) \<subseteq> set out" by (rule set_remove1_subset)
  ultimately show ?case using IH q(1,3) by auto
qed simp

text \<open>No object is handed out twice, and an object in the hands of a client can always be given back.\<close>

lemma history_distinct:
  assumes "history p0 p out" and "inv p0" and "distinct (free_objs p0)"
  shows "distinct out \<and> set out \<inter> set (free_objs p) = {}"
proof -
  from history_inv [OF assms(1,2)] have "mset (free_objs p @ out) = mset (free_objs p0)" by simp
  with assms(3) have "distinct (free_objs p @ out)" using mset_eq_imp_distinct_iff by blast
  then show ?thesis by auto
qed

lemma history_can_give:
  assumes "history p0 p out" and "inv p0" and "a \<in> set out"
  shows "\<exists>q. push p a = Some q"
proof -
  note inv = history_inv [OF assms(1,2)]
  from inv have "size (mset (free_objs p) + mset out) = size (mset (free_objs p0))" by simp
  then have "length (free_objs p) + length out = length (free_objs p0)" by simp
  moreover have "length (free_objs p0) \<le> depth p0" using assms(2) by (rule inv_depth)
  moreover have "0 < length out" using assms(3) by (cases out) auto
  moreover have "depth p = depth p0" using inv by blast
  ultimately have "length (free_objs p) \<noteq> depth p" by linarith
  with inv assms(3) show ?thesis using push_None [of p a] by (cases "push p a") auto
qed

end

subsection \<open>A table of keyed objects\<close>

text \<open>
  A table from keys to objects that carry their key. \<open>insert\<close> creates a fresh object for an absent key;
  \<open>store\<close> overwrites the object that has the same key. The client registers items: the object of the
  item's key is created when missing, and then updated with the item.
\<close>

locale keyed_table =
  fixes look :: "'t \<Rightarrow> 'k \<Rightarrow> 'd option"
    and insert :: "'t \<Rightarrow> 'k \<Rightarrow> 't"
    and store :: "'t \<Rightarrow> 'd \<Rightarrow> 't"
    and key :: "'d \<Rightarrow> 'k"
    and fresh :: "'k \<Rightarrow> 'd"
    and inv :: "'t \<Rightarrow> bool"
  assumes key_fresh: "key (fresh k) = k"
    and look_key: "inv t \<Longrightarrow> look t k = Some d \<Longrightarrow> key d = k"
    and inv_insert: "inv t \<Longrightarrow> look t k = None \<Longrightarrow> inv (insert t k)"
    and look_insert: "inv t \<Longrightarrow> look t k = None \<Longrightarrow>
      look (insert t k) k' = (if k' = k then Some (fresh k) else look t k')"
    and inv_store: "inv t \<Longrightarrow> look t (key d) \<noteq> None \<Longrightarrow> inv (store t d)"
    and look_store: "inv t \<Longrightarrow> look t (key d) \<noteq> None \<Longrightarrow>
      look (store t d) k' = (if k' = key d then Some d else look t k')"
begin

definition register :: "('i \<Rightarrow> 'd \<Rightarrow> 'd) \<Rightarrow> 't \<Rightarrow> 'k \<Rightarrow> 'i \<Rightarrow> 't" where
  "register upd t k i =
    (let t' = (if look t k = None then insert t k else t) in
     case look t' k of None \<Rightarrow> t' | Some d \<Rightarrow> store t' (upd i d))"

lemma register_look:
  assumes inv: "inv t" and key: "\<And>i d. key (upd i d) = key d"
  shows "inv (register upd t k i) \<and>
    look (register upd t k i) k' =
      (if k' = k then Some (upd i (case look t k of None \<Rightarrow> fresh k | Some d \<Rightarrow> d)) else look t k')"
proof (cases "look t k")
  case None
  let ?t = "insert t k"
  have t: "inv ?t" "look ?t k = Some (fresh k)"
    using inv_insert [OF inv None] look_insert [OF inv None] by auto
  have "key (upd i (fresh k)) = k" using key key_fresh by simp
  with t inv_store [OF t(1), of "upd i (fresh k)"] look_store [OF t(1), of "upd i (fresh k)"] None
  show ?thesis by (simp add: register_def look_insert [OF inv None])
next
  case (Some d)
  have "key (upd i d) = k" using key look_key [OF inv Some] by simp
  with inv_store [OF inv, of "upd i d"] look_store [OF inv, of "upd i d"] Some
  show ?thesis by (simp add: register_def)
qed

text \<open>After any registrations, the object of a key has absorbed exactly the items of that key, in order.\<close>

definition register_all :: "('i \<Rightarrow> 'd \<Rightarrow> 'd) \<Rightarrow> ('k \<times> 'i) list \<Rightarrow> 't \<Rightarrow> 't" where
  "register_all upd xs t = foldl (\<lambda>t (k, i). register upd t k i) t xs"

lemma register_all_look:
  assumes "inv t" and key: "\<And>i d. key (upd i d) = key d" and "\<And>k. look t k = None"
  shows "inv (register_all upd xs t) \<and>
    look (register_all upd xs t) k =
      (case map snd (filter (\<lambda>(k', i). k' = k) xs) of
         [] \<Rightarrow> None
       | i # is \<Rightarrow> Some (foldl (\<lambda>d i. upd i d) (fresh k) (i # is)))"
proof (induction xs rule: rev_induct)
  case Nil
  then show ?case using assms by (simp add: register_all_def)
next
  case (snoc x xs)
  obtain k' i where x: "x = (k', i)" by (cases x)
  let ?t = "register_all upd xs t"
  have eq: "register_all upd (xs @ [x]) t = register upd ?t k' i" by (simp add: register_all_def x)
  from register_look [of ?t upd k' i k, OF conjunct1 [OF snoc] key] snoc x show ?case
    unfolding eq by (auto split: list.splits)
qed

end

subsection \<open>A pool of buffers\<close>

text \<open>
  A client takes buffers of some size and gives them back in any order. \<open>live\<close> is the set of buffers that are out, with their
  address and their length; a refused request has address 0.
\<close>

datatype buffer_op = Take nat | Give nat

fun client_run ::
  "('s \<Rightarrow> nat \<Rightarrow> (nat \<times> 's) option) \<Rightarrow> ('s \<Rightarrow> nat \<Rightarrow> 's option) \<Rightarrow> buffer_op list \<Rightarrow> 's \<Rightarrow> (nat \<times> nat) list
    \<Rightarrow> ('s \<times> (nat \<times> nat) list) option" where
  "client_run alloc release [] s held = Some (s, held)"
| "client_run alloc release (Take n # ops) s held =
    (case alloc s n of
       None \<Rightarrow> None
     | Some (a, s) \<Rightarrow> client_run alloc release ops s (if a = 0 then held else held @ [(a, n)]))"
| "client_run alloc release (Give k # ops) s held =
    (if k < length held then
       (case release s (fst (held ! k)) of
          None \<Rightarrow> None
        | Some s \<Rightarrow> client_run alloc release ops s (take k held @ drop (Suc k) held))
     else client_run alloc release ops s held)"

locale buffer_pool =
  fixes live :: "'s \<Rightarrow> (nat \<times> nat) set"
    and alloc :: "'s \<Rightarrow> nat \<Rightarrow> (nat \<times> 's) option"
    and release :: "'s \<Rightarrow> nat \<Rightarrow> 's option"
    and inv :: "'s \<Rightarrow> bool"
    and lim :: nat
  assumes live_disjoint: "inv s \<Longrightarrow> (a, l) \<in> live s \<Longrightarrow> (b, m) \<in> live s \<Longrightarrow> (a, l) \<noteq> (b, m) \<Longrightarrow> {a ..< a + l} \<inter> {b ..< b + m} = {}"
    and live_pos: "inv s \<Longrightarrow> (a, l) \<in> live s \<Longrightarrow> 0 < l"
    and alloc_total: "inv s \<Longrightarrow> n < lim \<Longrightarrow> \<exists>a t. alloc s n = Some (a, t) \<and> inv t \<and>
      (if a = 0 then live t = live s else \<exists>l. n \<le> l \<and> (a, l) \<notin> live s \<and> live t = insert (a, l) (live s))"
    and release_live: "inv s \<Longrightarrow> (a, l) \<in> live s \<Longrightarrow> \<exists>t. release s a = Some t \<and> inv t \<and> live t = live s - {(a, l)}"
begin

text \<open>What the client holds are the live buffers, each at least as long as it asked for.\<close>

definition holds :: "(nat \<times> nat) list \<Rightarrow> 's \<Rightarrow> bool" where
  "holds held s \<longleftrightarrow> distinct (map fst held) \<and> fst ` set held = fst ` live s \<and> (\<forall>(a, n) \<in> set held. \<exists>l. n \<le> l \<and> (a, l) \<in> live s)"

lemma live_addr_inj:
  assumes "inv s" and "(a, l) \<in> live s" and "(a, m) \<in> live s"
  shows "l = m"
proof (rule ccontr)
  assume "l \<noteq> m"
  then have "{a ..< a + l} \<inter> {a ..< a + m} = {}" using live_disjoint [OF assms] by simp
  moreover have "a \<in> {a ..< a + l} \<inter> {a ..< a + m}" using live_pos [OF assms(1)] assms(2,3) by simp
  ultimately show False by blast
qed

lemma holdsD: "holds held s \<Longrightarrow> (a, n) \<in> set held \<Longrightarrow> \<exists>l. n \<le> l \<and> (a, l) \<in> live s"
  unfolding holds_def by fast

lemma holds_alloc:
  assumes "inv s" and "holds held s" and "n < lim"
  shows "\<exists>a t. alloc s n = Some (a, t) \<and> inv t \<and> holds (if a = 0 then held else held @ [(a, n)]) t"
proof -
  from alloc_total [OF assms(1,3)] obtain a t where t: "alloc s n = Some (a, t)" "inv t"
    "if a = 0 then live t = live s else \<exists>l. n \<le> l \<and> (a, l) \<notin> live s \<and> live t = insert (a, l) (live s)" by blast
  have "holds (if a = 0 then held else held @ [(a, n)]) t"
  proof (cases "a = 0")
    case True
    then show ?thesis using t assms(2) by (simp add: holds_def)
  next
    case False
    with t obtain l where l: "n \<le> l" "(a, l) \<notin> live s" "live t = insert (a, l) (live s)" by auto
    have "a \<notin> fst ` live s"
    proof
      assume "a \<in> fst ` live s"
      then obtain m where "(a, m) \<in> live s" by force
      then show False using live_addr_inj [OF t(2), of a l m] l by auto
    qed
    then show ?thesis using False assms(2) l by (auto simp: holds_def)
  qed
  with t show ?thesis by blast
qed

lemma holds_release:
  assumes "inv s" and "holds held s" and k: "k < length held"
  shows "\<exists>t. release s (fst (held ! k)) = Some t \<and> inv t \<and> holds (take k held @ drop (Suc k) held) t"
proof -
  obtain a n where h: "held ! k = (a, n)" by (cases "held ! k")
  then have "(a, n) \<in> set held" using k by (metis nth_mem)
  then obtain l where l: "(a, l) \<in> live s" using holdsD [OF assms(2)] by blast
  from release_live [OF assms(1) l] obtain t where t: "release s a = Some t" "inv t" "live t = live s - {(a, l)}" by blast
  have spl: "take k held @ (a, n) # drop (Suc k) held = held" using id_take_nth_drop [OF k] h by simp
  have only: "(a, m) \<in> live s \<Longrightarrow> m = l" for m using live_addr_inj [OF assms(1) _ l] by blast
  let ?r = "take k held @ drop (Suc k) held"
  have d: "distinct (map fst (take k held @ (a, n) # drop (Suc k) held))" "fst ` set held = fst ` live s"
    using assms(2) unfolding spl by (simp_all add: holds_def)
  have s: "set held = insert (a, n) (set ?r)" using arg_cong [OF spl, of set] by auto
  have na: "a \<notin> fst ` set ?r" and dr: "distinct (map fst ?r)" using d(1) by auto
  have "fst ` set ?r = fst ` set held - {a}" unfolding s using na by simp
  also have "\<dots> = fst ` live t" unfolding d(2) t(3) using only by force
  finally have "fst ` set ?r = fst ` live t" .
  moreover have "\<exists>l. m \<le> l \<and> (b, l) \<in> live t" if "(b, m) \<in> set ?r" for b m
  proof -
    have "b \<noteq> a" using na that by force
    moreover have "(b, m) \<in> set held" using s that by blast
    ultimately show ?thesis using holdsD [OF assms(2), of b m] t(3) by auto
  qed
  ultimately have "holds ?r t" using dr by (auto simp: holds_def)
  then show ?thesis using t h by auto
qed

lemma client_run_holds:
  assumes "inv s" and "holds held s" and "list_all (\<lambda>opn. case opn of Take n \<Rightarrow> n < lim | Give k \<Rightarrow> True) ops"
  shows "\<exists>t held'. client_run alloc release ops s held = Some (t, held') \<and> inv t \<and> holds held' t"
  using assms
proof (induction ops arbitrary: s held)
  case (Cons opn ops)
  show ?case
  proof (cases opn)
    case (Take n)
    then have "n < lim" using Cons.prems(3) by simp
    from holds_alloc [OF Cons.prems(1,2) this] show ?thesis using Cons.IH Cons.prems(3) Take by fastforce
  next
    case (Give k)
    show ?thesis
    proof (cases "k < length held")
      case True
      from holds_release [OF Cons.prems(1,2) True] show ?thesis using Cons.IH Cons.prems(3) Give True by fastforce
    qed (use Cons Give in simp)
  qed
qed simp

text \<open>Two buffers in the hands of the client never overlap.\<close>

lemma holds_disjoint:
  assumes "inv s" and "holds held s" and "i < length held" and "j < length held" and "i \<noteq> j"
    and "held ! i = (a, n)" and "held ! j = (b, m)"
  shows "{a ..< a + n} \<inter> {b ..< b + m} = {}"
proof -
  have "(a, n) \<in> set held" "(b, m) \<in> set held" using assms(3,4,6,7) by (metis nth_mem)+
  then obtain l k where l: "n \<le> l" "(a, l) \<in> live s" "m \<le> k" "(b, k) \<in> live s" using holdsD [OF assms(2)] by blast
  have "distinct (map fst held)" using assms(2) by (simp add: holds_def)
  then have "map fst held ! i \<noteq> map fst held ! j" using assms(3-5) by (subst nth_eq_iff_index_eq) simp_all
  then have "a \<noteq> b" using assms(3,4,6,7) by simp
  then have "{a ..< a + l} \<inter> {b ..< b + k} = {}" using live_disjoint [OF assms(1) l(2,4)] by simp
  then show ?thesis using l(1,3) by fastforce
qed

end

end
