(* ===== verification/Mempool_Bitmap.thy ===== *)
theory Mempool_Bitmap
  imports Uadk_Interfaces
begin

unbundle bit_operations_syntax

text \<open>
  The bitmap of the huge-page memory pool (\<^verbatim>\<open>wd_mempool.c\<close>, lines 24--31 and 128--284): find-first-set,
  the search for the next set or clear bit, and the three single-bit operations. The lemmas show
  that \<open>wd_ffs\<close> returns the least set bit, that \<open>find_next_zero_bit\<close> returns the least clear bit at
  or after the start position, exactly when the search leaves the map, and that the single-bit
  operations form a bit store (the locale \<open>bit_store\<close>, which the pools use for their loops).
\<close>

subsection \<open>Find first set\<close>

definition wd_ffs :: "64 word \<Rightarrow> nat" where
  "wd_ffs target_word =
    (let (num, word) = (0, target_word);
         (num, word) = (if word AND 0xffffffff = 0 then (num + 32, drop_bit 32 word) else (num, word));
         (num, word) = (if word AND 0xffff = 0 then (num + 16, drop_bit 16 word) else (num, word));
         (num, word) = (if word AND 0xff = 0 then (num + 8, drop_bit 8 word) else (num, word));
         (num, word) = (if word AND 0xf = 0 then (num + 4, drop_bit 4 word) else (num, word));
         (num, word) = (if word AND 0x3 = 0 then (num + 2, drop_bit 2 word) else (num, word))
     in if word AND 0x1 = 0 then num + 1 else num)"

text \<open>
  One halving step, and its invariant: \<open>word\<close> is the target shifted by \<open>num\<close>, all target bits below
  \<open>num\<close> are clear, and \<open>word\<close> has a set bit among its \<open>k\<close> lowest bits.
\<close>

definition ffs_step :: "nat \<Rightarrow> 64 word \<Rightarrow> nat \<times> 64 word \<Rightarrow> nat \<times> 64 word" where
  "ffs_step k m p = (if snd p AND m = 0 then (fst p + k, drop_bit k (snd p)) else p)"

definition ffs_inv :: "64 word \<Rightarrow> nat \<Rightarrow> nat \<times> 64 word \<Rightarrow> bool" where
  "ffs_inv t k p \<longleftrightarrow> snd p = drop_bit (fst p) t \<and> (\<forall>i < fst p. \<not> bit t i) \<and> (\<exists>i < k. bit (snd p) i)"

lemma take_bit_eq_0_bits: "take_bit k w = 0 \<longleftrightarrow> (\<forall>i < k. \<not> bit w i)"
  for w :: "'a::len word"
  by (auto simp: bit_eq_iff bit_take_bit_iff dest: bit_imp_le_length)

lemma ffs_inv_step:
  assumes inv: "ffs_inv t (2 * k) p" and m: "m = mask k"
  shows "ffs_inv t k (ffs_step k m p)"
proof -
  obtain n w where p: "p = (n, w)" by (cases p)
  from inv p have w: "w = drop_bit n t" and low: "\<forall>i < n. \<not> bit t i" and ex: "\<exists>i < 2 * k. bit w i"
    by (auto simp: ffs_inv_def)
  have tb: "w AND m = take_bit k w" by (simp add: m take_bit_eq_mask)
  show ?thesis
  proof (cases "take_bit k w = 0")
    case True
    then have z: "\<forall>i < k. \<not> bit w i" by (simp add: take_bit_eq_0_bits)
    have a: "\<not> bit t i" if "i < n + k" for i
    proof (cases "i < n")
      case True then show ?thesis using low by simp
    next
      case False
      then have "bit w (i - n) = bit t i" by (simp add: w bit_drop_bit_eq)
      moreover from False that have "i - n < k" by simp
      ultimately show ?thesis using z by blast
    qed
    from ex obtain i where i: "i < 2 * k" "bit w i" by blast
    with z have "k \<le> i" by (meson not_less)
    then have "bit (drop_bit k w) (i - k)" "i - k < k" using i by (auto simp: bit_drop_bit_eq)
    moreover have "drop_bit k w = drop_bit (n + k) t" by (simp add: w add.commute)
    ultimately show ?thesis using True a by (auto simp: p ffs_inv_def ffs_step_def tb)
  next
    case False
    then have "\<exists>i < k. bit w i" by (simp add: take_bit_eq_0_bits)
    then have "ffs_inv t k (n, w)" using w low by (simp add: ffs_inv_def)
    with False show ?thesis by (simp add: p ffs_step_def tb)
  qed
qed

lemma wd_ffs_steps:
  "wd_ffs t = (case ffs_step 2 0x3 (ffs_step 4 0xf (ffs_step 8 0xff (ffs_step 16 0xffff
      (ffs_step 32 0xffffffff (0, t))))) of (num, word) \<Rightarrow> if word AND 0x1 = 0 then num + 1 else num)"
  by (simp add: wd_ffs_def ffs_step_def Let_def split: prod.splits)

lemma wd_ffs_correct:
  assumes "t \<noteq> 0"
  shows "bit t (wd_ffs t) \<and> (\<forall>i < wd_ffs t. \<not> bit t i)"
proof -
  have masks: "mask 32 = (0xffffffff :: 64 word)" "mask 16 = (0xffff :: 64 word)"
    "mask 8 = (0xff :: 64 word)" "mask 4 = (0xf :: 64 word)" "mask 2 = (0x3 :: 64 word)"
    by (simp_all add: mask_eq_exp_minus_1)
  from assms have "\<exists>i < 64. bit t i"
    using bit_imp_le_length [of t] by (auto simp: bit_eq_iff)
  then have "ffs_inv t (2 * 32) (0, t)" by (simp add: ffs_inv_def)
  from ffs_inv_step [OF this, of "0xffffffff"]
  have "ffs_inv t (2 * 16) (ffs_step 32 0xffffffff (0, t))" by (simp add: masks)
  from ffs_inv_step [OF this, of "0xffff"]
  have "ffs_inv t (2 * 8) (ffs_step 16 0xffff (ffs_step 32 0xffffffff (0, t)))"
    by (simp add: masks)
  from ffs_inv_step [OF this, of "0xff"]
  have "ffs_inv t (2 * 4) (ffs_step 8 0xff (ffs_step 16 0xffff (ffs_step 32 0xffffffff (0, t))))"
    by (simp add: masks)
  from ffs_inv_step [OF this, of "0xf"]
  have "ffs_inv t (2 * 2)
      (ffs_step 4 0xf (ffs_step 8 0xff (ffs_step 16 0xffff (ffs_step 32 0xffffffff (0, t)))))"
    by (simp add: masks)
  from ffs_inv_step [OF this, of "0x3"]
  have inv: "ffs_inv t 2 (ffs_step 2 0x3 (ffs_step 4 0xf (ffs_step 8 0xff (ffs_step 16 0xffff
      (ffs_step 32 0xffffffff (0, t))))))"
    by (simp add: masks)
  obtain n w where p: "ffs_step 2 0x3 (ffs_step 4 0xf (ffs_step 8 0xff (ffs_step 16 0xffff
      (ffs_step 32 0xffffffff (0, t))))) = (n, w)" by (metis prod.exhaust)
  with inv have w: "w = drop_bit n t" and low: "\<forall>i < n. \<not> bit t i" and ex: "\<exists>i < 2. bit w i"
    by (auto simp: ffs_inv_def)
  have one: "w AND 0x1 = 0 \<longleftrightarrow> \<not> bit w 0"
    by (auto simp: and_one_eq bit_0 mod_2_eq_odd)
  show ?thesis
  proof (cases "bit w 0")
    case True
    then show ?thesis using low one by (simp add: wd_ffs_steps p w bit_drop_bit_eq)
  next
    case False
    with ex have "bit w 1" by (auto simp: less_2_cases_iff)
    moreover have "\<not> bit t i" if "i < n + 1" for i
      using that low False by (cases "i = n") (auto simp: w bit_drop_bit_eq)
    ultimately show ?thesis using False one by (simp add: wd_ffs_steps p w bit_drop_bit_eq)
  qed
qed


subsection \<open>The bitmap\<close>

record bitmap =
  bm_map :: "64 word list"
  bm_bits :: nat
  bm_map_byte :: nat

text \<open>\<^verbatim>\<open>BITS_TO_LONGS(bits)\<close> is computed in \<^verbatim>\<open>unsigned int\<close>; \<^verbatim>\<open>bm->bits = bits\<close> sign-extends the argument.\<close>

definition BITS_TO_LONGS :: "int \<Rightarrow> nat" where
  "BITS_TO_LONGS bits = u32 (u32_of_int bits + 63) div 64"

definition create_bitmap :: "bool list \<Rightarrow> int \<Rightarrow> bitmap option \<times> bool list" where
  "create_bitmap oks bits =
    (let (ok1, oks) = calloc_ok oks in
     if \<not> ok1 then (None, oks)
     else let (ok2, oks) = calloc_ok oks in
       if \<not> ok2 then (None, oks)
       else (Some \<lparr>bm_map = replicate (BITS_TO_LONGS bits) 0, bm_bits = u64_of_int bits,
                   bm_map_byte = BITS_TO_LONGS bits\<rparr>, oks))"

function find_next_bit_loop :: "64 word list \<Rightarrow> nat \<Rightarrow> 64 word \<Rightarrow> nat \<Rightarrow> 64 word \<Rightarrow> nat option" where
  "find_next_bit_loop m bits invert start tmp =
    (if tmp \<noteq> 0 then Some (min (start + wd_ffs tmp) bits)
     else if start + 64 > bits then Some bits
     else case rd m ((start + 64) div 64) of
         None \<Rightarrow> None
       | Some w \<Rightarrow> find_next_bit_loop m bits invert (start + 64) (w XOR invert))"
  by pat_completeness auto
termination
  by (relation "measure (\<lambda>(m, bits, invert, start, tmp). bits + 64 - start)") auto

declare find_next_bit_loop.simps [simp del]

definition find_next_bit :: "64 word list \<Rightarrow> nat \<Rightarrow> nat \<Rightarrow> 64 word \<Rightarrow> nat option" where
  "find_next_bit m bits begin_position invert =
    (if begin_position \<ge> bits then Some bits
     else case rd m (begin_position div 64) of
         None \<Rightarrow> None
       | Some w \<Rightarrow> find_next_bit_loop m bits invert (begin_position div 64 * 64)
                     ((w XOR invert) AND push_bit (begin_position mod 64) (NOT 0)))"

definition find_next_zero_bit :: "bitmap \<Rightarrow> nat \<Rightarrow> nat option" where
  "find_next_zero_bit bm start = find_next_bit (bm_map bm) (bm_bits bm) start (NOT 0)"

definition BIT_MASK :: "nat \<Rightarrow> 64 word" where
  "BIT_MASK nr = push_bit (nr mod 64) 1"

definition wd_set_bit :: "bitmap \<Rightarrow> nat \<Rightarrow> bitmap option" where
  "wd_set_bit bm pos =
    (case rd (bm_map bm) (pos div 64) of
       None \<Rightarrow> None
     | Some p \<Rightarrow> Some (bm\<lparr>bm_map := (bm_map bm)[pos div 64 := p OR BIT_MASK pos]\<rparr>))"

definition wd_clear_bit :: "bitmap \<Rightarrow> nat \<Rightarrow> bitmap option" where
  "wd_clear_bit bm pos =
    (case rd (bm_map bm) (pos div 64) of
       None \<Rightarrow> None
     | Some p \<Rightarrow> Some (bm\<lparr>bm_map := (bm_map bm)[pos div 64 := p AND NOT (BIT_MASK pos)]\<rparr>))"

text \<open>\<open>wd_test_bit\<close> is true when the bit is clear, as in the source.\<close>

definition wd_test_bit :: "bitmap \<Rightarrow> nat \<Rightarrow> bool option" where
  "wd_test_bit bm nr =
    (case rd (bm_map bm) (nr div 64) of
       None \<Rightarrow> None
     | Some p \<Rightarrow> Some (p AND BIT_MASK nr = 0))"

subsection \<open>The abstract view: which positions are set\<close>

definition bm_cap :: "bitmap \<Rightarrow> nat" where
  "bm_cap bm = 64 * length (bm_map bm)"

definition bm_get :: "bitmap \<Rightarrow> nat \<Rightarrow> bool" where
  "bm_get bm i = bit (bm_map bm ! (i div 64)) (i mod 64)"

lemma less_bm_cap: "i < bm_cap bm \<longleftrightarrow> i div 64 < length (bm_map bm)"
  by (auto simp: bm_cap_def div_less_iff_less_mult mult.commute)

lemma bit_BIT_MASK: "bit (BIT_MASK n) i \<longleftrightarrow> i = n mod 64"
  by (auto simp: BIT_MASK_def bit_simps)

lemma div_mod_64_eq: "i div 64 = j div 64 \<Longrightarrow> i mod 64 = j mod 64 \<Longrightarrow> i = (j::nat)"
  by (metis div_mult_mod_eq)

lemma wd_set_bit_get:
  assumes "wd_set_bit bm i = Some bm'" and "j < bm_cap bm"
  shows "bm_get bm' j \<longleftrightarrow> j = i \<or> bm_get bm j"
proof (cases "i div 64 = j div 64")
  case True
  then have "j = i \<longleftrightarrow> j mod 64 = i mod 64" using div_mod_64_eq [of i j] by auto
  with True assms show ?thesis
    by (auto simp: wd_set_bit_def bm_get_def bit_or_iff bit_BIT_MASK less_bm_cap split: option.splits)
next
  case False
  with assms show ?thesis
    by (auto simp: wd_set_bit_def bm_get_def less_bm_cap split: option.splits)
qed

lemma wd_clear_bit_get:
  assumes "wd_clear_bit bm i = Some bm'" and "j < bm_cap bm"
  shows "bm_get bm' j \<longleftrightarrow> j \<noteq> i \<and> bm_get bm j"
proof (cases "i div 64 = j div 64")
  case True
  then have "j = i \<longleftrightarrow> j mod 64 = i mod 64" using div_mod_64_eq [of i j] by auto
  with True assms show ?thesis
    by (auto simp: wd_clear_bit_def bm_get_def bit_and_iff bit_not_iff bit_BIT_MASK less_bm_cap
        split: option.splits)
next
  case False
  with assms show ?thesis
    by (auto simp: wd_clear_bit_def bm_get_def less_bm_cap split: option.splits)
qed

lemma and_BIT_MASK_eq_0: "w AND BIT_MASK i = 0 \<longleftrightarrow> \<not> bit w (i mod 64)"
proof
  assume z: "w AND BIT_MASK i = 0"
  have "bit (w AND BIT_MASK i) (i mod 64) = bit w (i mod 64)"
    by (simp add: bit_and_iff bit_BIT_MASK)
  with z show "\<not> bit w (i mod 64)" by simp
next
  assume "\<not> bit w (i mod 64)"
  then show "w AND BIT_MASK i = 0"
    by (intro bit_word_eqI) (auto simp: bit_and_iff bit_BIT_MASK)
qed

lemma wd_test_bit_get: "wd_test_bit bm i = (if i < bm_cap bm then Some (\<not> bm_get bm i) else None)"
  by (auto simp: wd_test_bit_def bm_get_def less_bm_cap and_BIT_MASK_eq_0 split: option.splits)

definition bm_shape :: "bitmap \<Rightarrow> nat \<times> nat \<times> nat" where
  "bm_shape bm = (length (bm_map bm), bm_bits bm, bm_map_byte bm)"

lemma bm_ext:
  assumes sh: "bm_shape a = bm_shape b" and get: "\<And>j. j < bm_cap a \<Longrightarrow> bm_get a j = bm_get b j"
  shows "a = b"
proof -
  have len: "length (bm_map a) = length (bm_map b)" using sh by (simp add: bm_shape_def)
  have "bm_map a ! k = bm_map b ! k" if "k < length (bm_map a)" for k
  proof (rule bit_word_eqI)
    fix n assume n: "n < LENGTH(64)"
    with that have "k * 64 + n < bm_cap a" by (simp add: less_bm_cap)
    from get [OF this] n show "bit (bm_map a ! k) n = bit (bm_map b ! k) n"
      by (simp add: bm_get_def)
  qed
  with len have "bm_map a = bm_map b" by (simp add: list_eq_iff_nth_eq)
  with sh show ?thesis by (cases a, cases b) (simp add: bm_shape_def)
qed


subsection \<open>The search\<close>

lemma wd_ffs_less_64: "t \<noteq> 0 \<Longrightarrow> wd_ffs t < 64"
  using wd_ffs_correct [of t] bit_imp_le_length [of t "wd_ffs t"] by simp

text \<open>
  The loop state: \<open>start\<close> is a multiple of 64, and \<open>tmp\<close> holds the bits of the word at \<open>start\<close> that are
  at or after the position \<open>lo\<close>. \<open>b\<close> is the searched-for predicate on positions.
\<close>

definition search_state :: "64 word list \<Rightarrow> 64 word \<Rightarrow> nat \<Rightarrow> nat \<Rightarrow> 64 word \<Rightarrow> bool" where
  "search_state m invert lo start tmp \<longleftrightarrow>
     64 dvd start \<and> start \<le> lo \<and> lo < start + 64 \<and> start div 64 < length m \<and>
     (\<forall>n < 64. bit tmp n \<longleftrightarrow> lo \<le> start + n \<and> bit (m ! (start div 64) XOR invert) n)"

definition hit :: "64 word list \<Rightarrow> 64 word \<Rightarrow> nat \<Rightarrow> bool" where
  "hit m invert i = bit (m ! (i div 64) XOR invert) (i mod 64)"

lemma search_state_bit:
  assumes "search_state m invert lo start tmp" and "n < 64"
  shows "bit tmp n \<longleftrightarrow> lo \<le> start + n \<and> hit m invert (start + n)"
proof -
  from assms obtain k where "start = 64 * k" by (auto simp: search_state_def)
  with assms(2) have "(start + n) div 64 = start div 64" "(start + n) mod 64 = n" by auto
  with assms show ?thesis by (simp add: search_state_def hit_def)
qed

lemma search_state_next:
  assumes "search_state m invert lo start tmp" and "(start + 64) div 64 < length m"
  shows "search_state m invert (start + 64) (start + 64) (m ! ((start + 64) div 64) XOR invert)"
  using assms by (auto simp: search_state_def)

lemma find_next_bit_loop_found:
  assumes "search_state m invert lo start tmp" and "bits \<le> 64 * length m"
    and "lo \<le> i" "i < bits" "hit m invert i" and "\<And>j. lo \<le> j \<Longrightarrow> j < i \<Longrightarrow> \<not> hit m invert j"
  shows "find_next_bit_loop m bits invert start tmp = Some i"
  using assms
proof (induction m bits invert start tmp arbitrary: lo rule: find_next_bit_loop.induct)
  case (1 m bits invert start tmp)
  note st = "1.prems"(1)
  have le: "start \<le> i" using st "1.prems"(3) by (simp add: search_state_def)
  show ?case
  proof (cases "tmp = 0")
    case False
    let ?n = "wd_ffs tmp"
    have n: "?n < 64" using False by (rule wd_ffs_less_64)
    have "bit tmp ?n" using wd_ffs_correct [OF False] by simp
    then have "lo \<le> start + ?n" "hit m invert (start + ?n)"
      using search_state_bit [OF st n] by auto
    with "1.prems"(6) have ge: "i \<le> start + ?n" by (meson not_less)
    have "start + ?n \<le> i"
    proof (rule ccontr)
      assume "\<not> start + ?n \<le> i"
      then have less: "i - start < ?n" using le by simp
      then have "\<not> bit tmp (i - start)" using wd_ffs_correct [OF False] by simp
      then show False
        using search_state_bit [OF st, of "i - start"] less n le "1.prems"(3,5) by simp
    qed
    with ge "1.prems"(4) False show ?thesis
      by (simp add: find_next_bit_loop.simps [of m bits invert start tmp])
  next
    case True
    have far: "start + 64 \<le> i"
    proof (rule ccontr)
      assume "\<not> start + 64 \<le> i"
      then have "i - start < 64" using le by simp
      with True show False using search_state_bit [OF st, of "i - start"] le "1.prems"(3,5) by simp
    qed
    have "i div 64 < length m" using "1.prems"(2,4) by (simp add: div_less_iff_less_mult mult.commute)
    moreover have "(start + 64) div 64 \<le> i div 64" using far by (rule div_le_mono)
    ultimately have idx: "(start + 64) div 64 < length m" by linarith
    have nb: "\<not> start + 64 > bits" using far "1.prems"(4) by simp
    have "find_next_bit_loop m bits invert (start + 64) (m ! ((start + 64) div 64) XOR invert) = Some i"
    proof (rule "1.IH")
      show "search_state m invert (start + 64) (start + 64) (m ! ((start + 64) div 64) XOR invert)"
        using st idx by (rule search_state_next)
      show "\<not> hit m invert j" if "start + 64 \<le> j" "j < i" for j
        using "1.prems"(6) st that by (simp add: search_state_def)
    qed (use True nb idx far "1.prems" in auto)
    with True nb idx show ?thesis
      by (simp add: find_next_bit_loop.simps [of m bits invert start 0])
  qed
qed


lemma find_next_bit_loop_none:
  assumes "search_state m invert lo start tmp" and "bits \<le> 64 * length m"
    and "\<And>j. lo \<le> j \<Longrightarrow> j < bits \<Longrightarrow> \<not> hit m invert j"
  shows "find_next_bit_loop m bits invert start tmp = (if bits = 64 * length m then None else Some bits)"
  using assms
proof (induction m bits invert start tmp arbitrary: lo rule: find_next_bit_loop.induct)
  case (1 m bits invert start tmp)
  note st = "1.prems"(1)
  have inside: "start + 64 \<le> 64 * length m"
    using st by (auto simp: search_state_def elim!: dvdE)
  show ?case
  proof (cases "tmp = 0")
    case False
    let ?n = "wd_ffs tmp"
    have n: "?n < 64" using False by (rule wd_ffs_less_64)
    have "bit tmp ?n" using wd_ffs_correct [OF False] by simp
    then have "lo \<le> start + ?n" "hit m invert (start + ?n)"
      using search_state_bit [OF st n] by auto
    with "1.prems"(3) have "bits \<le> start + ?n" by (meson not_less)
    with False inside n show ?thesis
      by (simp add: find_next_bit_loop.simps [of m bits invert start tmp])
  next
    case True
    show ?thesis
    proof (cases "start + 64 > bits")
      case True
      with \<open>tmp = 0\<close> inside show ?thesis
        by (simp add: find_next_bit_loop.simps [of m bits invert start 0])
    next
      case nb: False
      show ?thesis
      proof (cases "(start + 64) div 64 < length m")
        case idx: True
        have "find_next_bit_loop m bits invert (start + 64) (m ! ((start + 64) div 64) XOR invert)
            = (if bits = 64 * length m then None else Some bits)"
        proof (rule "1.IH")
          show "search_state m invert (start + 64) (start + 64) (m ! ((start + 64) div 64) XOR invert)"
            using st idx by (rule search_state_next)
          show "\<not> hit m invert j" if "start + 64 \<le> j" "j < bits" for j
            using "1.prems"(3) st that by (simp add: search_state_def)
        qed (use True nb idx "1.prems" in auto)
        with True nb idx show ?thesis
          by (simp add: find_next_bit_loop.simps [of m bits invert start 0])
      next
        case False
        then have "64 * length m \<le> start + 64"
          using st by (auto simp: search_state_def elim!: dvdE)
        then have "bits = 64 * length m" using nb "1.prems"(2) by simp
        with True nb False show ?thesis
          by (simp add: find_next_bit_loop.simps [of m "64 * length m" invert start 0])
      qed
    qed
  qed
qed

lemma search_state_init:
  assumes "start div 64 < length m"
  shows "search_state m invert start (start div 64 * 64)
    ((m ! (start div 64) XOR invert) AND push_bit (start mod 64) (NOT 0))"
proof -
  let ?s = "start div 64 * 64" and ?w = "m ! (start div 64) XOR invert"
  have ge: "start \<le> ?s + n \<longleftrightarrow> start mod 64 \<le> n" for n
    using div_mult_mod_eq [of start 64] by linarith
  have "bit (?w AND push_bit (start mod 64) (NOT 0)) n \<longleftrightarrow> start \<le> ?s + n \<and> bit ?w n"
    if "n < 64" for n
    using that by (auto simp: ge bit_simps)
  moreover have "start < ?s + 64" using div_mult_mod_eq [of start 64] by linarith
  ultimately show ?thesis using assms by (simp add: search_state_def del: push_bit_minus_one_eq_not_mask)
qed

definition bm_wf :: "bitmap \<Rightarrow> bool" where
  "bm_wf bm \<longleftrightarrow> bm_bits bm \<le> bm_cap bm"

lemma hit_NOT_0: "hit m (- 1) i \<longleftrightarrow> \<not> bit (m ! (i div 64)) (i mod 64)"
  by (simp add: hit_def bit_simps)

lemma find_next_zero_bit_found:
  assumes "bm_wf bm" and "start \<le> i" "i < bm_bits bm" "\<not> bm_get bm i"
    and "\<And>j. start \<le> j \<Longrightarrow> j < i \<Longrightarrow> bm_get bm j"
  shows "find_next_zero_bit bm start = Some i"
proof -
  have "start < bm_cap bm" using assms by (simp add: bm_wf_def)
  then have idx: "start div 64 < length (bm_map bm)" by (simp add: less_bm_cap)
  have "find_next_bit_loop (bm_map bm) (bm_bits bm) (NOT 0) (start div 64 * 64)
      ((bm_map bm ! (start div 64) XOR NOT 0) AND push_bit (start mod 64) (NOT 0)) = Some i"
    by (rule find_next_bit_loop_found [OF search_state_init [OF idx]])
      (use assms in \<open>auto simp: hit_NOT_0 bm_get_def bm_wf_def bm_cap_def\<close>)
  with idx assms show ?thesis by (simp add: find_next_zero_bit_def find_next_bit_def)
qed

lemma find_next_zero_bit_none:
  assumes "bm_wf bm" and "start < bm_bits bm" and "\<And>j. start \<le> j \<Longrightarrow> j < bm_bits bm \<Longrightarrow> bm_get bm j"
  shows "find_next_zero_bit bm start = (if bm_bits bm = bm_cap bm then None else Some (bm_bits bm))"
proof -
  have "start < bm_cap bm" using assms by (simp add: bm_wf_def)
  then have idx: "start div 64 < length (bm_map bm)" by (simp add: less_bm_cap)
  have "find_next_bit_loop (bm_map bm) (bm_bits bm) (NOT 0) (start div 64 * 64)
      ((bm_map bm ! (start div 64) XOR NOT 0) AND push_bit (start mod 64) (NOT 0))
      = (if bm_bits bm = 64 * length (bm_map bm) then None else Some (bm_bits bm))"
    by (rule find_next_bit_loop_none [OF search_state_init [OF idx]])
      (use assms in \<open>auto simp: hit_NOT_0 bm_get_def bm_wf_def bm_cap_def\<close>)
  with idx assms show ?thesis by (simp add: find_next_zero_bit_def find_next_bit_def bm_cap_def)
qed

lemma find_next_zero_bit_end: "bm_bits bm \<le> start \<Longrightarrow> find_next_zero_bit bm start = Some (bm_bits bm)"
  by (simp add: find_next_zero_bit_def find_next_bit_def)

text \<open>The three outcomes of a search, as one case rule.\<close>

lemma find_next_zero_bit_cases:
  assumes "bm_wf bm"
  obtains (found) i where "find_next_zero_bit bm start = Some i" "start \<le> i" "i < bm_bits bm"
      "\<not> bm_get bm i" "\<And>j. start \<le> j \<Longrightarrow> j < i \<Longrightarrow> bm_get bm j"
  | (full) "find_next_zero_bit bm start = Some (bm_bits bm)"
      "\<And>j. start \<le> j \<Longrightarrow> j < bm_bits bm \<Longrightarrow> bm_get bm j"
  | (overrun) "find_next_zero_bit bm start = None" "bm_bits bm = bm_cap bm" "start < bm_bits bm"
      "\<And>j. start \<le> j \<Longrightarrow> j < bm_bits bm \<Longrightarrow> bm_get bm j"
proof (cases "\<exists>i. start \<le> i \<and> i < bm_bits bm \<and> \<not> bm_get bm i")
  case True
  define i where "i = (LEAST i. start \<le> i \<and> i < bm_bits bm \<and> \<not> bm_get bm i)"
  have i: "start \<le> i \<and> i < bm_bits bm \<and> \<not> bm_get bm i"
    using True unfolding i_def by (rule LeastI_ex)
  moreover have "bm_get bm j" if "start \<le> j" "j < i" for j
    using not_less_Least [of j "\<lambda>i. start \<le> i \<and> i < bm_bits bm \<and> \<not> bm_get bm i"] that i
    by (auto simp: i_def [symmetric])
  ultimately show ?thesis using found find_next_zero_bit_found [OF assms, of start i] by blast
next
  case False
  then have all: "\<And>j. start \<le> j \<Longrightarrow> j < bm_bits bm \<Longrightarrow> bm_get bm j" by blast
  show ?thesis
  proof (cases "start < bm_bits bm")
    case True
    from find_next_zero_bit_none [OF assms True all] show ?thesis
      using full overrun all True by (cases "bm_bits bm = bm_cap bm") auto
  next
    case False
    then show ?thesis using full find_next_zero_bit_end [of bm start] all by simp
  qed
qed


subsection \<open>The bitmap is a bit store\<close>

lemma wd_set_bit_None: "wd_set_bit bm i = None \<longleftrightarrow> bm_cap bm \<le> i"
  using less_bm_cap [of i bm] by (auto simp: wd_set_bit_def not_less split: option.splits)

lemma wd_clear_bit_None: "wd_clear_bit bm i = None \<longleftrightarrow> bm_cap bm \<le> i"
  using less_bm_cap [of i bm] by (auto simp: wd_clear_bit_def not_less split: option.splits)

lemma wd_set_bit_shape: "wd_set_bit bm i = Some bm' \<Longrightarrow> bm_shape bm' = bm_shape bm"
  by (auto simp: wd_set_bit_def bm_shape_def split: option.splits)

lemma wd_clear_bit_shape: "wd_clear_bit bm i = Some bm' \<Longrightarrow> bm_shape bm' = bm_shape bm"
  by (auto simp: wd_clear_bit_def bm_shape_def split: option.splits)

interpretation bits: bit_store bm_get wd_set_bit wd_clear_bit bm_cap bm_shape
  by unfold_locales
    (simp_all add: wd_set_bit_None wd_clear_bit_None wd_set_bit_get wd_clear_bit_get
      wd_set_bit_shape wd_clear_bit_shape bm_ext, simp add: bm_shape_def bm_cap_def)

lemma bm_shape_eqD:
  "bm_shape a = bm_shape b \<Longrightarrow> bm_bits a = bm_bits b \<and> bm_cap a = bm_cap b \<and> bm_wf a = bm_wf b"
  by (simp add: bm_shape_def bm_wf_def bm_cap_def)

text \<open>
  Whatever the map holds, a search that starts before \<open>bm_bits\<close> never goes backwards and never
  passes \<open>bm_bits\<close>.
\<close>

lemma find_next_bit_loop_bounds:
  "search_state m invert lo start tmp \<Longrightarrow> find_next_bit_loop m bits invert start tmp = Some r \<Longrightarrow>
    lo \<le> bits \<Longrightarrow> lo \<le> r \<and> r \<le> bits"
proof (induction m bits invert start tmp arbitrary: lo rule: find_next_bit_loop.induct)
  case (1 m bits invert start tmp)
  show ?case
  proof (cases "tmp = 0")
    case False
    have "lo \<le> start + wd_ffs tmp"
      using search_state_bit [OF "1.prems"(1) wd_ffs_less_64 [OF False]] wd_ffs_correct [OF False] by simp
    with False "1.prems"(2,3) show ?thesis
      by (auto simp: find_next_bit_loop.simps [of m bits invert start tmp])
  next
    case True
    show ?thesis
    proof (cases "start + 64 \<le> bits \<and> (start + 64) div 64 < length m")
      case rec: True
      have "start + 64 \<le> r \<and> r \<le> bits"
      proof (rule "1.IH")
        show "search_state m invert (start + 64) (start + 64) (m ! ((start + 64) div 64) XOR invert)"
          using "1.prems"(1) rec by (intro search_state_next) auto
        show "find_next_bit_loop m bits invert (start + 64) (m ! ((start + 64) div 64) XOR invert) = Some r"
          using "1.prems"(2) True rec by (simp add: find_next_bit_loop.simps [of m bits invert start 0])
      qed (use True rec in auto)
      moreover have "lo < start + 64" using "1.prems"(1) by (simp add: search_state_def)
      ultimately show ?thesis by simp
    next
      case False
      with True "1.prems" show ?thesis
        by (auto simp: find_next_bit_loop.simps [of m bits invert start 0] split: if_splits option.splits)
    qed
  qed
qed

lemma find_next_zero_bit_bounds:
  assumes "find_next_zero_bit bm start = Some r" and "start < bm_bits bm"
  shows "start \<le> r \<and> r \<le> bm_bits bm"
proof -
  from assms have idx: "start div 64 < length (bm_map bm)"
    by (auto simp: find_next_zero_bit_def find_next_bit_def split: option.splits)
  from assms idx have "find_next_bit_loop (bm_map bm) (bm_bits bm) (NOT 0) (start div 64 * 64)
      ((bm_map bm ! (start div 64) XOR NOT 0) AND push_bit (start mod 64) (NOT 0)) = Some r"
    by (simp add: find_next_zero_bit_def find_next_bit_def)
  from find_next_bit_loop_bounds [OF search_state_init [OF idx] this] assms(2) show ?thesis by simp
qed

end
