(* ===== verification/Mempool.thy ===== *)
theory Mempool
  imports Mempool_Bitmap
begin

text \<open>
  The memory pool and its block pools (\<^verbatim>\<open>wd_mempool.c\<close>, lines 39--153 and 286--609): reference
  counters, the memzone list, carving blocks out of the pool's bitmap, block pools as stacks of
  free blocks, and the release paths. The huge-page side is in \<open>Mempool_Hugepage\<close>.

  A handle that may be \<^verbatim>\<open>NULL\<close> is an \<open>option\<close>. The spin locks serialise the operations, so each
  operation is one step on the pool state. \<^verbatim>\<open>mempool.fd\<close> and \<^verbatim>\<open>mempool.mp_ref\<close> are never used by the
  code and have no counterpart.
\<close>

subsection \<open>State\<close>

record memzone =
  mz_addr :: nat
  mz_blk_num :: nat
  mz_begin :: nat
  mz_end :: nat

record blkpool =
  bp_blk_elem :: "nat list"
  bp_depth :: nat
  bp_top :: nat
  bp_blk_size :: nat
  bp_mz_list :: "memzone list"
  bp_free_block_num :: nat
  bp_ref :: nat

record sys_hugepage_config =
  hp_page_size :: nat
  hp_total_num :: nat
  hp_free_num :: nat

datatype wd_page_type = WD_HUGE_PAGE | WD_NORMAL_PAGE

record mempool =
  mp_page_type :: wd_page_type
  mp_page_size :: nat
  mp_page_num :: nat
  mp_blk_size :: nat
  mp_blk_num :: nat
  mp_node :: int
  mp_addr :: nat
  mp_size :: nat
  mp_real_size :: nat
  mp_bitmap :: "bitmap option"
  mp_ref :: nat
  mp_hp_list :: "sys_hugepage_config list"
  mp_free_blk_num :: nat

subsection \<open>Reference counters\<close>

text \<open>The compare-and-exchange loop of \<^verbatim>\<open>wd_atomic_test_add\<close> is one atomic step: (returned value, new counter).\<close>

definition wd_atomic_test_add :: "nat \<Rightarrow> nat \<Rightarrow> nat \<Rightarrow> nat \<times> nat" where
  "wd_atomic_test_add ref a u = (if ref = u then (ref, ref) else (ref, u32 (ref + a)))"

definition wd_atomic_add :: "nat \<Rightarrow> nat \<Rightarrow> nat" where
  "wd_atomic_add ref a = u32 (ref + a)"

definition wd_atomic_sub :: "nat \<Rightarrow> nat \<Rightarrow> nat" where
  "wd_atomic_sub ref a = sub32 ref a"

subsection \<open>Blocks of a block pool\<close>

definition wd_block_alloc :: "blkpool option \<Rightarrow> (nat option \<times> blkpool option) option" where
  "wd_block_alloc blkpool =
    (case blkpool of
       None \<Rightarrow> Some (None, None)
     | Some bp \<Rightarrow>
         (let (c, ref) = wd_atomic_test_add (bp_ref bp) 1 0;
              bp = bp\<lparr>bp_ref := ref\<rparr> in
          if c = 0 then Some (None, Some bp)
          else if bp_top bp > 0 then
            (let bp = bp\<lparr>bp_top := bp_top bp - 1, bp_free_block_num := sub64 (bp_free_block_num bp) 1\<rparr> in
             case rd (bp_blk_elem bp) (bp_top bp) of
               None \<Rightarrow> None
             | Some p \<Rightarrow> Some (Some p, Some bp))
          else Some (None, Some (bp\<lparr>bp_ref := wd_atomic_sub (bp_ref bp) 1\<rparr>))))"

definition wd_block_free :: "blkpool option \<Rightarrow> nat \<Rightarrow> blkpool option option" where
  "wd_block_free blkpool addr =
    (case blkpool of
       None \<Rightarrow> Some None
     | Some bp \<Rightarrow>
         if addr = 0 then Some (Some bp)
         else if bp_top bp < bp_depth bp then
           (case wr (bp_blk_elem bp) (bp_top bp) addr of
              None \<Rightarrow> None
            | Some elem \<Rightarrow>
                Some (Some (bp\<lparr>bp_blk_elem := elem, bp_top := bp_top bp + 1,
                               bp_free_block_num := u64 (bp_free_block_num bp + 1),
                               bp_ref := wd_atomic_sub (bp_ref bp) 1\<rparr>)))
         else Some (Some bp))"

subsection \<open>Carving blocks out of the memory pool\<close>

definition alloc_memzone ::
  "bool list \<Rightarrow> blkpool \<Rightarrow> nat \<Rightarrow> nat \<Rightarrow> nat \<Rightarrow> nat \<Rightarrow> unit result \<times> blkpool \<times> bool list" where
  "alloc_memzone oks bp addr blk_num begin_pos end_pos =
    (let (ok, oks) = calloc_ok oks in
     if \<not> ok then (Inl WD_ENOMEM, bp, oks)
     else (Inr (), bp\<lparr>bp_mz_list := bp_mz_list bp @
            [\<lparr>mz_addr = addr, mz_blk_num = blk_num, mz_begin = begin_pos, mz_end = end_pos\<rparr>]\<rparr>, oks))"

text \<open>The release loop takes the zones from the tail of the list.\<close>

definition free_zone :: "memzone \<Rightarrow> mempool \<Rightarrow> mempool option" where
  "free_zone iter mp =
    (case mp_bitmap mp of
       None \<Rightarrow> None
     | Some bm \<Rightarrow>
         (case opt_fold (\<lambda>i bm. wd_clear_bit bm i) [mz_begin iter ..< Suc (mz_end iter)] bm of
            None \<Rightarrow> None
          | Some bm' \<Rightarrow>
              (let blks = sub64 (mz_end iter) (mz_begin iter) + 1 in
               Some (mp\<lparr>mp_bitmap := Some bm',
                        mp_free_blk_num := u64 (mp_free_blk_num mp + blks),
                        mp_real_size := u64 (mp_real_size mp + blks * mp_blk_size mp)\<rparr>))))"

definition free_mem_to_mempool_nolock :: "mempool \<Rightarrow> blkpool \<Rightarrow> (mempool \<times> blkpool) option" where
  "free_mem_to_mempool_nolock mp bp =
    (case opt_fold free_zone (rev (bp_mz_list bp)) mp of
       None \<Rightarrow> None
     | Some mp' \<Rightarrow> Some (mp', bp\<lparr>bp_mz_list := []\<rparr>))"

definition check_mempool_real_size :: "mempool \<Rightarrow> blkpool \<Rightarrow> unit result" where
  "check_mempool_real_size mp bp =
    (if u64 (bp_blk_size bp * bp_depth bp) > mp_real_size mp then Inl WD_ENOMEM else Inr ())"

text \<open>
  \<open>probe_run bm pos_last k\<close> is the inner \<^verbatim>\<open>for\<close> loop: it steps over at most \<open>k\<close> further clear bits and
  says whether it completed, and where it stopped.
\<close>

fun probe_run :: "bitmap \<Rightarrow> nat \<Rightarrow> nat \<Rightarrow> (bool \<times> nat) option" where
  "probe_run bm pos_last 0 = Some (True, pos_last)"
| "probe_run bm pos_last (Suc k) =
    (case wd_test_bit bm (Suc pos_last) of
       None \<Rightarrow> None
     | Some free \<Rightarrow> if free then probe_run bm (Suc pos_last) k else Some (False, Suc pos_last))"

lemma probe_run_ge: "probe_run bm p k = Some (c, q) \<Longrightarrow> p \<le> q \<and> (\<not> c \<longrightarrow> p < q)"
proof (induction k arbitrary: p)
  case (Suc k)
  then show ?case by (fastforce split: option.splits if_splits)
qed simp

text \<open>
  The \<^verbatim>\<open>do ... while\<close> loop of \<^verbatim>\<open>alloc_block_from_mempool\<close>: first and last position of a run of
  \<open>mem_combined_num\<close> clear bits. When \<open>mem_combined_num\<close> is not positive and a clear bit exists, the
  loop condition never becomes false and the position never moves, so the loop does not end.
\<close>

function find_run :: "bitmap \<Rightarrow> int \<Rightarrow> nat \<Rightarrow> (nat \<times> nat) result option" where
  "find_run bm mem_combined_num pos_last =
    (case find_next_zero_bit bm pos_last of
       None \<Rightarrow> None
     | Some pos_first \<Rightarrow>
         if pos_first = bm_bits bm then Some (Inl WD_ENOMEM)
         else if mem_combined_num < 1 then None
         else (case probe_run bm pos_first (nat (mem_combined_num - 1)) of
                 None \<Rightarrow> None
               | Some (complete, pos_last') \<Rightarrow>
                   if complete then Some (Inr (pos_first, pos_last'))
                   else find_run bm mem_combined_num pos_last'))"
  by pat_completeness auto
termination
proof (relation "measure (\<lambda>(bm, n, pos). bm_bits bm - pos)")
  fix bm n pos first cp c last
  assume *: "find_next_zero_bit bm pos = Some first" "first \<noteq> bm_bits bm" "\<not> n < (1::int)"
    "probe_run bm first (nat (n - 1)) = Some cp" "(c, last) = cp" "\<not> c"
  have "pos < bm_bits bm"
    using *(1,2) find_next_zero_bit_end [of bm pos] by (cases "pos < bm_bits bm") auto
  moreover from find_next_zero_bit_bounds [OF *(1) this] *(2) have "pos \<le> first" by simp
  moreover have "first < last" using * probe_run_ge [of bm first "nat (n - 1)" c last] by simp
  ultimately show "((bm, n, last), bm, n, pos) \<in> measure (\<lambda>(bm, n, pos). bm_bits bm - pos)" by simp
qed simp

declare find_run.simps [simp del]

definition alloc_block_from_mempool ::
  "bool list \<Rightarrow> mempool \<Rightarrow> blkpool \<Rightarrow> nat \<Rightarrow> int \<Rightarrow> nat
    \<Rightarrow> (nat result \<times> mempool \<times> blkpool \<times> bool list) option" where
  "alloc_block_from_mempool oks mp bp pos mem_combined_num mem_splited_num =
    (case mp_bitmap mp of
       None \<Rightarrow> None
     | Some bm \<Rightarrow>
         (case find_run bm mem_combined_num pos of
            None \<Rightarrow> None
          | Some (Inl e) \<Rightarrow> Some (Inl e, mp, bp, oks)
          | Some (Inr (pos_first, pos_last)) \<Rightarrow>
              (case opt_fold (\<lambda>i bm. wd_set_bit bm i) (rev [pos_first ..< Suc pos_last]) bm of
                 None \<Rightarrow> None
               | Some bm' \<Rightarrow>
                   (case alloc_memzone oks bp (u64 (mp_addr mp + pos_first * mp_blk_size mp))
                           mem_splited_num pos_first pos_last of
                      (Inr _, bp', oks') \<Rightarrow> Some (Inr pos_last, mp\<lparr>mp_bitmap := Some bm'\<rparr>, bp', oks')
                    | (Inl _, bp', oks') \<Rightarrow>
                        (case opt_fold (\<lambda>i bm. wd_clear_bit bm i) (rev [pos_first ..< Suc pos_last]) bm' of
                           None \<Rightarrow> None
                         | Some bm'' \<Rightarrow>
                             Some (Inl WD_ENOMEM, mp\<lparr>mp_bitmap := Some bm''\<rparr>, bp', oks'))))))"

text \<open>
  The loop of \<^verbatim>\<open>alloc_mem_multi_in_one\<close>. \<open>mem_splited_num\<close> is at least 1 at its only call
  (\<open>bp_blk_size \<le> mp_blk_size\<close>); the guard makes the recursion well-founded.
\<close>

function multi_in_one_loop ::
  "bool list \<Rightarrow> mempool \<Rightarrow> blkpool \<Rightarrow> int \<Rightarrow> nat \<Rightarrow> int
    \<Rightarrow> (unit result \<times> mempool \<times> blkpool \<times> bool list) option" where
  "multi_in_one_loop oks mp bp blk_num pos mem_splited_num =
    (if blk_num \<le> 0 then Some (Inr (), mp, bp, oks)
     else if mem_splited_num < 1 then None
     else (case alloc_block_from_mempool oks mp bp pos 1 (nat (min blk_num mem_splited_num)) of
             None \<Rightarrow> None
           | Some (Inl e, mp', bp', oks') \<Rightarrow> Some (Inl e, mp', bp', oks')
           | Some (Inr pos', mp', bp', oks') \<Rightarrow>
               multi_in_one_loop oks'
                 (mp'\<lparr>mp_free_blk_num := sub64 (mp_free_blk_num mp') 1,
                      mp_real_size := sub64 (mp_real_size mp') (mp_blk_size mp')\<rparr>)
                 bp' (blk_num - mem_splited_num) pos' mem_splited_num))"
  by pat_completeness auto
termination
  by (relation "measure (\<lambda>(oks, mp, bp, blk_num, pos, k). nat blk_num)") auto

declare multi_in_one_loop.simps [simp del]

definition alloc_mem_multi_in_one ::
  "bool list \<Rightarrow> mempool \<Rightarrow> blkpool \<Rightarrow> (unit result \<times> mempool \<times> blkpool \<times> bool list) option" where
  "alloc_mem_multi_in_one oks mp bp =
    (if bp_blk_size bp = 0 then None
     else case check_mempool_real_size mp bp of
         Inl e \<Rightarrow> Some (Inl WD_ENOMEM, mp, bp, oks)
       | Inr _ \<Rightarrow>
           (case multi_in_one_loop oks mp bp (i32 (int (bp_depth bp))) 0
                   (i32 (int (mp_blk_size mp div bp_blk_size bp))) of
              None \<Rightarrow> None
            | Some (Inr _, mp', bp', oks') \<Rightarrow> Some (Inr (), mp', bp', oks')
            | Some (Inl e, mp', bp', oks') \<Rightarrow>
                (case free_mem_to_mempool_nolock mp' bp' of
                   None \<Rightarrow> None
                 | Some (mp'', bp'') \<Rightarrow> Some (Inl e, mp'', bp'', oks'))))"

function one_need_multi_loop ::
  "bool list \<Rightarrow> mempool \<Rightarrow> blkpool \<Rightarrow> int \<Rightarrow> nat \<Rightarrow> int
    \<Rightarrow> (unit result \<times> mempool \<times> blkpool \<times> bool list) option" where
  "one_need_multi_loop oks mp bp blk_num pos mem_combined_num =
    (if blk_num \<le> 0 then Some (Inr (), mp, bp, oks)
     else (case alloc_block_from_mempool oks mp bp pos mem_combined_num 1 of
             None \<Rightarrow> None
           | Some (Inl e, mp', bp', oks') \<Rightarrow> Some (Inl e, mp', bp', oks')
           | Some (Inr pos', mp', bp', oks') \<Rightarrow>
               one_need_multi_loop oks'
                 (mp'\<lparr>mp_free_blk_num := sub64 (mp_free_blk_num mp') (nat mem_combined_num),
                      mp_real_size := sub64 (mp_real_size mp') (u64 (mp_blk_size mp' * nat mem_combined_num))\<rparr>)
                 bp' (blk_num - 1) pos' mem_combined_num))"
  by pat_completeness auto
termination
  by (relation "measure (\<lambda>(oks, mp, bp, blk_num, pos, k). nat blk_num)") auto

declare one_need_multi_loop.simps [simp del]

definition alloc_mem_one_need_multi ::
  "bool list \<Rightarrow> mempool \<Rightarrow> blkpool \<Rightarrow> (unit result \<times> mempool \<times> blkpool \<times> bool list) option" where
  "alloc_mem_one_need_multi oks mp bp =
    (if mp_blk_size mp = 0 then None
     else case check_mempool_real_size mp bp of
         Inl e \<Rightarrow> Some (Inl WD_ENOMEM, mp, bp, oks)
       | Inr _ \<Rightarrow>
           (case one_need_multi_loop oks mp bp (i32 (int (bp_depth bp))) 0
                   (i32 (int (bp_blk_size bp div mp_blk_size mp +
                     (if bp_blk_size bp mod mp_blk_size mp \<noteq> 0 then 1 else 0)))) of
              None \<Rightarrow> None
            | Some (Inr _, mp', bp', oks') \<Rightarrow> Some (Inr (), mp', bp', oks')
            | Some (Inl e, mp', bp', oks') \<Rightarrow>
                (case free_mem_to_mempool_nolock mp' bp' of
                   None \<Rightarrow> None
                 | Some (mp'', bp'') \<Rightarrow> Some (Inl e, mp'', bp'', oks'))))"

definition alloc_mem_from_mempool ::
  "bool list \<Rightarrow> mempool \<Rightarrow> blkpool \<Rightarrow> (unit result \<times> mempool \<times> blkpool \<times> bool list) option" where
  "alloc_mem_from_mempool oks mp bp =
    (let bp = bp\<lparr>bp_mz_list := []\<rparr> in
     if mp_blk_size mp \<ge> bp_blk_size bp then alloc_mem_multi_in_one oks mp bp
     else alloc_mem_one_need_multi oks mp bp)"

subsection \<open>Block pools\<close>

definition zone_blocks :: "nat \<Rightarrow> memzone \<Rightarrow> nat list" where
  "zone_blocks blk_size iter = map (\<lambda>i. u64 (mz_addr iter + i * blk_size)) [0 ..< mz_blk_num iter]"

fun write_elems :: "nat list \<Rightarrow> nat \<Rightarrow> nat list \<Rightarrow> nat list option" where
  "write_elems elem idx [] = Some elem"
| "write_elems elem idx (a # as) =
    (case wr elem idx a of None \<Rightarrow> None | Some elem' \<Rightarrow> write_elems elem' (idx + 1) as)"

definition init_blkpool_elem :: "bool list \<Rightarrow> blkpool \<Rightarrow> (unit result \<times> blkpool \<times> bool list) option" where
  "init_blkpool_elem oks bp =
    (let (ok, oks) = calloc_ok oks in
     if \<not> ok then Some (Inl WD_ENOMEM, bp, oks)
     else case write_elems (replicate (bp_depth bp) 0) 0
                 (concat (map (zone_blocks (bp_blk_size bp)) (bp_mz_list bp))) of
         None \<Rightarrow> None
       | Some elem \<Rightarrow> Some (Inr (), bp\<lparr>bp_blk_elem := elem\<rparr>, oks))"

text \<open>
  \<open>spin_ret\<close> is what \<^verbatim>\<open>pthread_spin_init\<close> returned. The pool handle is an \<open>option\<close>; the block pool is the
  value of the returned handle.
\<close>

definition wd_blockpool_create ::
  "bool list \<Rightarrow> int \<Rightarrow> mempool option \<Rightarrow> nat \<Rightarrow> nat
    \<Rightarrow> (blkpool result \<times> mempool option \<times> bool list) option" where
  "wd_blockpool_create oks spin_ret mempool block_size block_num =
    (case mempool of
       None \<Rightarrow> Some (Inl WD_EINVAL, None, oks)
     | Some mp \<Rightarrow>
         if block_size = 0 \<or> block_num = 0 then Some (Inl WD_EINVAL, Some mp, oks)
         else
           (let (c, ref) = wd_atomic_test_add (mp_ref mp) 1 0;
                mp = mp\<lparr>mp_ref := ref\<rparr>;
                sub_ref = (\<lambda>mp. mp\<lparr>mp_ref := wd_atomic_sub (mp_ref mp) 1\<rparr>) in
            if c = 0 then Some (Inl WD_EBUSY, Some mp, oks)
            else
              (let (ok, oks) = calloc_ok oks in
               if \<not> ok then Some (Inl WD_ENOMEM, Some (sub_ref mp), oks)
               else if spin_ret < 0 then Some (Inl WD_ENOMEM, Some (sub_ref mp), oks)
               else
                 (case alloc_mem_from_mempool oks mp
                         \<lparr>bp_blk_elem = [], bp_depth = block_num, bp_top = block_num,
                          bp_blk_size = block_size, bp_mz_list = [],
                          bp_free_block_num = block_num, bp_ref = 0\<rparr> of
                    None \<Rightarrow> None
                  | Some (Inl _, mp', bp, oks') \<Rightarrow> Some (Inl WD_ENOMEM, Some (sub_ref mp'), oks')
                  | Some (Inr _, mp', bp, oks') \<Rightarrow>
                      (case init_blkpool_elem oks' bp of
                         None \<Rightarrow> None
                       | Some (Inl _, bp', oks'') \<Rightarrow>
                           (case free_mem_to_mempool_nolock mp' bp' of
                              None \<Rightarrow> None
                            | Some (mp'', _) \<Rightarrow> Some (Inl WD_ENOMEM, Some (sub_ref mp''), oks''))
                       | Some (Inr _, bp', oks'') \<Rightarrow>
                           Some (Inr (bp'\<lparr>bp_ref := wd_atomic_add (bp_ref bp') 1\<rparr>), Some mp', oks''))))))"

text \<open>
  \<^verbatim>\<open>wd_blockpool_destroy\<close> spins until every block has been given back; called with blocks
  outstanding it does not return by itself.
\<close>

definition wd_blockpool_destroy :: "mempool \<Rightarrow> blkpool option \<Rightarrow> mempool option" where
  "wd_blockpool_destroy mp blkpool =
    (case blkpool of
       None \<Rightarrow> Some mp
     | Some bp \<Rightarrow>
         (let bp = bp\<lparr>bp_ref := wd_atomic_sub (bp_ref bp) 1\<rparr> in
          if bp_ref bp \<noteq> 0 then None
          else (case free_mem_to_mempool_nolock mp bp of
                  None \<Rightarrow> None
                | Some (mp', _) \<Rightarrow> Some (mp'\<lparr>mp_ref := wd_atomic_sub (mp_ref mp') 1\<rparr>))))"


subsection \<open>Searching for a run\<close>

lemma probe_run_complete:
  "probe_run bm p k = Some (True, q) \<Longrightarrow>
    q = p + k \<and> (\<forall>i. p < i \<and> i \<le> q \<longrightarrow> i < bm_cap bm \<and> \<not> bm_get bm i)"
proof (induction k arbitrary: p)
  case (Suc k)
  from Suc.prems have free: "wd_test_bit bm (Suc p) = Some True"
    and rest: "probe_run bm (Suc p) k = Some (True, q)" by (auto split: option.splits if_splits)
  from free have "Suc p < bm_cap bm \<and> \<not> bm_get bm (Suc p)"
    by (auto simp: wd_test_bit_get split: if_splits)
  moreover from Suc.IH [OF rest] have q: "q = Suc p + k"
    and more: "\<forall>i. Suc p < i \<and> i \<le> q \<longrightarrow> i < bm_cap bm \<and> \<not> bm_get bm i" by auto
  ultimately have "i < bm_cap bm \<and> \<not> bm_get bm i" if "p < i" "i \<le> q" for i
    using that by (cases "i = Suc p") auto
  with q show ?case by auto
qed auto

lemma find_run_Inr:
  assumes "find_run bm n pos = Some (Inr (f, l))" and wf: "bm_wf bm"
  shows "1 \<le> n \<and> f < bm_bits bm \<and> int l = int f + n - 1 \<and>
    (\<forall>i. f \<le> i \<and> i \<le> l \<longrightarrow> i < bm_cap bm \<and> \<not> bm_get bm i)"
  using assms
proof (induction bm n pos rule: find_run.induct)
  case (1 bm n pos)
  from "1.prems" obtain first where first: "find_next_zero_bit bm pos = Some first"
    "first \<noteq> bm_bits bm" "1 \<le> n"
    by (subst (asm) find_run.simps) (auto split: option.splits if_splits)
  then obtain c q where q: "probe_run bm first (nat (n - 1)) = Some (c, q)"
    using "1.prems"(1) by (subst (asm) find_run.simps) (auto split: option.splits if_splits)
  show ?case
  proof (cases c)
    case False
    with first q "1.prems"(1) have "find_run bm n q = Some (Inr (f, l))"
      by (subst (asm) find_run.simps) simp
    with "1.IH" first q False "1.prems"(2) show ?thesis by auto
  next
    case True
    with first q "1.prems"(1) have fl: "f = first" "l = q"
      by (subst (asm) find_run.simps, simp)+
    from "1.prems"(2) show ?thesis
    proof (cases rule: find_next_zero_bit_cases [where start = pos])
      case (found i)
      with first have i: "first = i" by simp
      have "first < bm_cap bm" using found i "1.prems"(2) by (simp add: bm_wf_def)
      with probe_run_complete [of bm first "nat (n - 1)" q] q True found i fl first(3)
      show ?thesis by (auto simp: le_less)
    qed (use first in auto)
  qed
qed

lemma find_run_Inl: "find_run bm n pos = Some (Inl e) \<Longrightarrow> e = WD_ENOMEM"
proof (induction bm n pos rule: find_run.induct)
  case (1 bm n pos)
  note eq = "1.prems" [unfolded find_run.simps [of bm n pos]]
  from eq show ?case
    by (auto split: option.splits if_splits prod.splits dest: "1.IH" [rotated -1])
qed

subsection \<open>Carving, abstractly\<close>

text \<open>
  \<open>carve mp mp' zs\<close>: starting from \<open>mp\<close>, the zones \<open>zs\<close> were taken one after the other, each a run of
  clear bits that starts before \<open>bm_bits\<close>, and the counters were reduced; the result is \<open>mp'\<close>. Both
  allocation loops refine this relation.
\<close>

definition zone_set :: "memzone \<Rightarrow> nat set" where
  "zone_set z = {mz_begin z .. mz_end z}"

inductive carve :: "mempool \<Rightarrow> mempool \<Rightarrow> memzone list \<Rightarrow> bool" for mp0 where
  carve_nil: "carve mp0 mp0 []"
| carve_snoc: "carve mp0 mp zs \<Longrightarrow> mp_bitmap mp = Some bm \<Longrightarrow> b \<le> e \<Longrightarrow> b < bm_bits bm \<Longrightarrow>
    (\<forall>i \<in> {b..e}. i < bm_cap bm \<and> \<not> bm_get bm i) \<Longrightarrow>
    opt_fold (\<lambda>i bm. wd_set_bit bm i) (rev [b ..< Suc e]) bm = Some bm' \<Longrightarrow>
    carve mp0 (mp\<lparr>mp_bitmap := Some bm',
                 mp_free_blk_num := sub64 (mp_free_blk_num mp) (Suc e - b),
                 mp_real_size := sub64 (mp_real_size mp) (u64 (mp_blk_size mp * (Suc e - b)))\<rparr>)
      (zs @ [\<lparr>mz_addr = u64 (mp_addr mp + b * mp_blk_size mp), mz_blk_num = k, mz_begin = b, mz_end = e\<rparr>])"

definition mp_wf :: "mempool \<Rightarrow> bool" where
  "mp_wf mp \<longleftrightarrow> (\<exists>bm. mp_bitmap mp = Some bm \<and> bm_wf bm \<and> bm_bits bm < 2 ^ 31 \<and> bm_cap bm < 2 ^ 32) \<and>
     mp_free_blk_num mp < 2 ^ 64 \<and> mp_real_size mp < 2 ^ 64 \<and> 0 < mp_blk_size mp \<and> mp_blk_size mp < 2 ^ 64 \<and> mp_ref mp < 2 ^ 32"

lemma u64_sub64_u64: "a < 2 ^ 64 \<Longrightarrow> u64 (sub64 a (u64 b) + b) = a"
proof -
  assume a: "a < 2 ^ 64"
  have "(sub64 a (u64 b) + b) mod 2 ^ 64 = (sub64 a (u64 b) + u64 b) mod 2 ^ 64"
    by (simp add: u64_def mod_add_right_eq)
  also have "\<dots> = a" using u64_add_sub64 [OF a, of "u64 b"] by (simp add: u64_def less_imp_le)
  finally show ?thesis by (simp add: u64_def)
qed

lemma carve_frame:
  "carve mp0 mp zs \<Longrightarrow> mp_addr mp = mp_addr mp0 \<and> mp_blk_size mp = mp_blk_size mp0 \<and>
    mp_size mp = mp_size mp0 \<and> mp_ref mp = mp_ref mp0"
  by (induction rule: carve.induct) auto

lemma set_run_props:
  assumes "opt_fold (\<lambda>i bm. wd_set_bit bm i) (rev [b ..< Suc e]) bm = Some bm'"
  shows "bm_shape bm' = bm_shape bm" and "e < bm_cap bm \<or> e < b"
    and "\<And>j. j < bm_cap bm \<Longrightarrow> bm_get bm' j \<longleftrightarrow> j \<in> {b..e} \<or> bm_get bm j"
proof -
  have inx: "\<forall>i \<in> set (rev [b ..< Suc e]). i < bm_cap bm" by (rule bits.set_all_Some_in [OF assms])
  then show "e < bm_cap bm \<or> e < b" by (cases "e < b") auto
  from bits.set_all [OF inx] assms show "bm_shape bm' = bm_shape bm"
    and "\<And>j. j < bm_cap bm \<Longrightarrow> bm_get bm' j \<longleftrightarrow> j \<in> {b..e} \<or> bm_get bm j" by auto
qed

lemma carve_wf: "carve mp0 mp zs \<Longrightarrow> mp_wf mp0 \<Longrightarrow> mp_wf mp"
proof (induction rule: carve.induct)
  case (carve_snoc mp zs bm b e bm' k)
  then have "bm_shape bm' = bm_shape bm" by (intro set_run_props)
  note sh = bm_shape_eqD [OF this]
  from carve_snoc.IH [OF carve_snoc.prems] carve_snoc.hyps(2) show ?case
    by (simp add: mp_wf_def sh)
qed

text \<open>Giving the zones back, last one first, restores the pool exactly.\<close>

lemma free_zone_undo:
  assumes bm: "mp_bitmap mp = Some bm" and be: "b \<le> e" and e: "e < 2 ^ 32"
    and clear: "\<forall>i \<in> {b..e}. \<not> bm_get bm i"
    and set: "opt_fold (\<lambda>i bm. wd_set_bit bm i) (rev [b ..< Suc e]) bm = Some bm'"
    and z: "mz_begin z = b" "mz_end z = e"
    and lt: "mp_free_blk_num mp < 2 ^ 64" "mp_real_size mp < 2 ^ 64"
  shows "free_zone z (mp\<lparr>mp_bitmap := Some bm',
      mp_free_blk_num := sub64 (mp_free_blk_num mp) (Suc e - b),
      mp_real_size := sub64 (mp_real_size mp) (u64 (mp_blk_size mp * (Suc e - b)))\<rparr>) = Some mp"
proof -
  have "opt_fold (\<lambda>i bm. wd_clear_bit bm i) [b ..< Suc e] bm' = Some bm"
    using clear by (intro bits.clr_set_all [OF set]) auto
  moreover have blks: "sub64 e b + 1 = Suc e - b" using be e by (simp add: c_int_simps)
  moreover have "u64 (sub64 (mp_free_blk_num mp) (Suc e - b) + (Suc e - b)) = mp_free_blk_num mp"
    using lt e by (intro u64_add_sub64) auto
  moreover have "u64 (sub64 (mp_real_size mp) (u64 (mp_blk_size mp * (Suc e - b))) + mp_blk_size mp * (Suc e - b))
      = mp_real_size mp"
    by (rule u64_sub64_u64 [OF lt(2)])
  ultimately show ?thesis using bm z
    by (simp add: free_zone_def Let_def blks mult.commute del: upt_Suc)
qed

lemma carve_undo:
  "carve mp0 mp zs \<Longrightarrow> mp_wf mp0 \<Longrightarrow> opt_fold free_zone (rev zs) mp = Some mp0"
proof (induction rule: carve.induct)
  case (carve_snoc mp zs bm b e bm' k)
  have wf: "mp_wf mp" using carve_snoc.hyps(1) carve_snoc.prems by (rule carve_wf)
  then have lt: "mp_free_blk_num mp < 2 ^ 64" "mp_real_size mp < 2 ^ 64" "bm_cap bm < 2 ^ 32"
    using carve_snoc.hyps(2) by (auto simp: mp_wf_def)
  have "e < bm_cap bm" using carve_snoc.hyps(3,5) by simp
  with lt(3) have e: "e < 2 ^ 32" by simp
  have clear: "\<forall>i \<in> {b..e}. \<not> bm_get bm i" using carve_snoc.hyps(5) by blast
  note undo = free_zone_undo [OF carve_snoc.hyps(2,3) e clear carve_snoc.hyps(6) _ _ lt(1,2)]
  from carve_snoc.IH [OF carve_snoc.prems] show ?case by (simp add: undo del: upt_Suc)
qed simp

text \<open>The zones are pairwise disjoint, were clear before, and exactly their bits were set.\<close>

lemma carve_bits:
  assumes "carve mp0 mp zs" and "mp_bitmap mp0 = Some bm0"
  shows "\<exists>bm. mp_bitmap mp = Some bm \<and> bm_shape bm = bm_shape bm0 \<and>
    (\<forall>j < bm_cap bm0. bm_get bm j \<longleftrightarrow> j \<in> \<Union> (zone_set ` set zs) \<or> bm_get bm0 j) \<and>
    (\<forall>z \<in> set zs. \<forall>i \<in> zone_set z. i < bm_cap bm0 \<and> \<not> bm_get bm0 i) \<and>
    (\<forall>z \<in> set zs. mz_begin z < bm_bits bm0 \<and> mz_begin z \<le> mz_end z \<and>
       mz_addr z = u64 (mp_addr mp0 + mz_begin z * mp_blk_size mp0)) \<and>
    distinct zs \<and> (\<forall>y \<in> set zs. \<forall>z \<in> set zs. y \<noteq> z \<longrightarrow> zone_set y \<inter> zone_set z = {})"
  using assms
proof (induction rule: carve.induct)
  case (carve_snoc mp zs bm b e bm' k)
  let ?z = "\<lparr>mz_addr = u64 (mp_addr mp + b * mp_blk_size mp), mz_blk_num = k, mz_begin = b, mz_end = e\<rparr>"
  note IH = carve_snoc.IH [OF carve_snoc.prems]
  have sh: "bm_shape bm = bm_shape bm0" using IH carve_snoc.hyps(2) by auto
  then have cap: "bm_cap bm = bm_cap bm0" "bm_bits bm = bm_bits bm0"
    by (blast dest: bm_shape_eqD)+
  have get: "bm_get bm j \<longleftrightarrow> j \<in> \<Union> (zone_set ` set zs) \<or> bm_get bm0 j" if "j < bm_cap bm0" for j
    using IH carve_snoc.hyps(2) that by auto
  have new: "i \<notin> \<Union> (zone_set ` set zs) \<and> \<not> bm_get bm0 i \<and> i < bm_cap bm0" if "i \<in> zone_set ?z" for i
  proof -
    from that carve_snoc.hyps(5) cap have "i < bm_cap bm0" "\<not> bm_get bm i"
      by (auto simp: zone_set_def)
    with get [of i] show ?thesis by blast
  qed
  have disj: "zone_set y \<inter> zone_set ?z = {}" if "y \<in> set zs" for y using new that by blast
  have "b \<in> zone_set ?z" using carve_snoc.hyps(3) by (simp add: zone_set_def)
  then have fresh: "?z \<notin> set zs" using disj by blast
  show ?case
  proof (intro exI [of _ bm'] conjI)
    show "bm_shape bm' = bm_shape bm0" using set_run_props(1) [OF carve_snoc.hyps(6)] sh by simp
    show "\<forall>j < bm_cap bm0. bm_get bm' j \<longleftrightarrow> j \<in> \<Union> (zone_set ` set (zs @ [?z])) \<or> bm_get bm0 j"
      using set_run_props(3) [OF carve_snoc.hyps(6)] get cap by (auto simp: zone_set_def)
    show "\<forall>y \<in> set (zs @ [?z]). \<forall>z \<in> set (zs @ [?z]). y \<noteq> z \<longrightarrow> zone_set y \<inter> zone_set z = {}"
    proof (intro ballI impI)
      fix y z assume "y \<in> set (zs @ [?z])" "z \<in> set (zs @ [?z])" "y \<noteq> z"
      then consider "y \<in> set zs" "z \<in> set zs" | "y \<in> set zs" "z = ?z" | "y = ?z" "z \<in> set zs"
        by auto
      then show "zone_set y \<inter> zone_set z = {}"
        using IH \<open>y \<noteq> z\<close> disj by cases (blast, blast, metis Int_commute)
    qed
    show "\<forall>z \<in> set (zs @ [?z]). \<forall>i \<in> zone_set z. i < bm_cap bm0 \<and> \<not> bm_get bm0 i"
      using IH new by auto
    show "\<forall>z \<in> set (zs @ [?z]). mz_begin z < bm_bits bm0 \<and> mz_begin z \<le> mz_end z \<and>
       mz_addr z = u64 (mp_addr mp0 + mz_begin z * mp_blk_size mp0)"
      using IH carve_snoc.hyps(3,4) cap carve_frame [OF carve_snoc.hyps(1)] by auto
  qed (use IH fresh in auto)
qed auto


subsection \<open>The allocation loops refine carving\<close>

lemma alloc_memzone_cases:
  assumes "alloc_memzone oks bp a k b e = (r, bp', oks')"
  obtains (fail) "r = Inl WD_ENOMEM" "bp' = bp"
  | (ok) "r = Inr ()"
      "bp' = bp\<lparr>bp_mz_list := bp_mz_list bp @ [\<lparr>mz_addr = a, mz_blk_num = k, mz_begin = b, mz_end = e\<rparr>]\<rparr>"
  using assms by (auto simp: alloc_memzone_def split: prod.splits if_splits)

lemma alloc_block_cases:
  assumes alloc: "alloc_block_from_mempool oks mp bp pos n k = Some (r, mp', bp', oks')"
    and bm: "mp_bitmap mp = Some bm" and wf: "bm_wf bm"
  obtains (fail) "r = Inl WD_ENOMEM" "mp' = mp" "bp' = bp"
  | (ok) b e bm' where "r = Inr e" "1 \<le> n" "b \<le> e" "Suc e - b = nat n" "b < bm_bits bm"
      "\<forall>i \<in> {b..e}. i < bm_cap bm \<and> \<not> bm_get bm i"
      "opt_fold (\<lambda>i bm. wd_set_bit bm i) (rev [b ..< Suc e]) bm = Some bm'"
      "mp' = mp\<lparr>mp_bitmap := Some bm'\<rparr>"
      "bp' = bp\<lparr>bp_mz_list := bp_mz_list bp @ [\<lparr>mz_addr = u64 (mp_addr mp + b * mp_blk_size mp),
         mz_blk_num = k, mz_begin = b, mz_end = e\<rparr>]\<rparr>"
proof -
  note def = alloc [unfolded alloc_block_from_mempool_def bm option.case]
  show thesis
  proof (cases "find_run bm n pos")
    case None
    with def show ?thesis by simp
  next
    case (Some fr)
    show ?thesis
    proof (cases fr)
      case (Inl err)
      with Some have "err = WD_ENOMEM" by (intro find_run_Inl [of bm n pos]) simp
      with def Some Inl fail show ?thesis by simp
    next
      case (Inr be)
      obtain b e where be: "be = (b, e)" by (cases be)
      from find_run_Inr [of bm n pos b e] Some Inr be wf
      have run: "1 \<le> n" "b < bm_bits bm" "int e = int b + n - 1"
        "\<forall>i \<in> {b..e}. i < bm_cap bm \<and> \<not> bm_get bm i" by auto
      from def Some Inr be obtain bm' where
        set: "opt_fold (\<lambda>i bm. wd_set_bit bm i) (rev [b ..< Suc e]) bm = Some bm'"
        by (auto split: option.splits)
      obtain r0 bp0 oks0 where mz: "alloc_memzone oks bp (u64 (mp_addr mp + b * mp_blk_size mp)) k b e = (r0, bp0, oks0)"
        by (metis prod_cases3)
      from mz show ?thesis
      proof (cases rule: alloc_memzone_cases)
        case 1: fail
        have "opt_fold (\<lambda>i bm. wd_clear_bit bm i) (rev [b ..< Suc e]) bm' = Some bm"
          using run(4) by (intro bits.clr_set_all [OF set]) auto
        then have "r = Inl WD_ENOMEM" "mp' = mp\<lparr>mp_bitmap := Some bm\<rparr>" "bp' = bp0"
          using def Some Inr be set mz 1(1) by (simp_all del: upt_Suc)
        then show ?thesis using 1(2) bm by (intro fail) simp_all
      next
        case 2: ok
        have res: "r = Inr e" "mp' = mp\<lparr>mp_bitmap := Some bm'\<rparr>" "bp' = bp0"
          using def Some Inr be set mz 2(1) by (simp_all del: upt_Suc)
        have num: "b \<le> e" "Suc e - b = nat n" using run(1,3) by linarith+
        show ?thesis by (rule ok [OF res(1) run(1) num run(2,4) set res(2)]) (simp add: res(3) 2(2))
      qed
    qed
  qed
qed


lemma carve_bitmap:
  assumes "carve mp0 mp zs" and "mp_wf mp0"
  obtains bm where "mp_bitmap mp = Some bm" "bm_wf bm"
  using carve_wf [OF assms] by (auto simp: mp_wf_def)

lemma carve_alloc_step:
  assumes carve: "carve mp0 mp (bp_mz_list bp)" and wf: "mp_wf mp0"
    and alloc: "alloc_block_from_mempool oks mp bp pos n k = Some (Inr e, mp', bp', oks')"
  shows "1 \<le> n \<and> (\<exists>z. bp' = bp\<lparr>bp_mz_list := bp_mz_list bp @ [z]\<rparr> \<and> mz_blk_num z = k \<and>
      mz_end z = e \<and> Suc (mz_end z) = mz_begin z + nat n \<and>
      carve mp0 (mp'\<lparr>mp_free_blk_num := sub64 (mp_free_blk_num mp') (nat n),
        mp_real_size := sub64 (mp_real_size mp') (u64 (mp_blk_size mp' * nat n))\<rparr>) (bp_mz_list bp @ [z]))"
proof -
  from carve wf obtain bm where bm: "mp_bitmap mp = Some bm" "bm_wf bm" by (rule carve_bitmap)
  from alloc bm show ?thesis
  proof (cases rule: alloc_block_cases)
    case (ok b e' bm')
    let ?z = "\<lparr>mz_addr = u64 (mp_addr mp + b * mp_blk_size mp), mz_blk_num = k, mz_begin = b, mz_end = e'\<rparr>"
    from carve_snoc [OF carve bm(1) ok(3,5,6,7), of k] ok
    have "carve mp0 (mp'\<lparr>mp_free_blk_num := sub64 (mp_free_blk_num mp') (nat n),
        mp_real_size := sub64 (mp_real_size mp') (u64 (mp_blk_size mp' * nat n))\<rparr>) (bp_mz_list bp @ [?z])"
      by simp
    moreover have "Suc e' = b + nat n" using ok(3,4) by linarith
    ultimately show ?thesis using ok by (intro conjI exI [of _ ?z]) simp_all
  qed simp
qed

lemma carve_alloc_fail:
  assumes "carve mp0 mp zs" and "mp_wf mp0"
    and "alloc_block_from_mempool oks mp bp pos n k = Some (Inl e, mp', bp', oks')"
  shows "e = WD_ENOMEM \<and> mp' = mp \<and> bp' = bp"
proof -
  from assms(1,2) obtain bm where bm: "mp_bitmap mp = Some bm" "bm_wf bm" by (rule carve_bitmap)
  from assms(3) bm show ?thesis
  proof (cases rule: alloc_block_cases)
    case (ok b e' bm')
    then show ?thesis by blast
  qed simp
qed

lemma multi_in_one_loop_carve:
  assumes "multi_in_one_loop oks mp bp n pos s = Some (r, mp', bp', oks')"
    and "carve mp0 mp (bp_mz_list bp)" and "mp_wf mp0"
  shows "\<exists>zs. bp' = bp\<lparr>bp_mz_list := bp_mz_list bp @ zs\<rparr> \<and> carve mp0 mp' (bp_mz_list bp @ zs) \<and>
    (\<forall>z \<in> set zs. mz_begin z = mz_end z \<and> int (mz_blk_num z) \<le> s) \<and>
    (r = Inr () \<and> sum_list (map mz_blk_num zs) = nat n \<or> r = Inl WD_ENOMEM)"
  using assms
proof (induction oks mp bp n pos s rule: multi_in_one_loop.induct)
  case (1 oks mp bp n pos s)
  note eq = "1.prems"(1) [unfolded multi_in_one_loop.simps [of oks mp bp n pos s]]
  show ?case
  proof (cases "n \<le> 0")
    case True
    with eq "1.prems"(2) show ?thesis by (intro exI [of _ "[]"]) simp
  next
    case False
    with eq have s: "\<not> s < 1" by (auto split: if_splits)
    from eq False s obtain r1 mp1 bp1 oks1 where al:
      "alloc_block_from_mempool oks mp bp pos 1 (nat (min n s)) = Some (r1, mp1, bp1, oks1)"
      by (auto split: option.splits)
    show ?thesis
    proof (cases r1)
      case (Inl e)
      with carve_alloc_fail [OF "1.prems"(2,3) al [unfolded Inl]] al eq False s "1.prems"(2)
      show ?thesis by (intro exI [of _ "[]"]) auto
    next
      case (Inr p)
      let ?mp2 = "mp1\<lparr>mp_free_blk_num := sub64 (mp_free_blk_num mp1) 1,
                      mp_real_size := sub64 (mp_real_size mp1) (mp_blk_size mp1)\<rparr>"
      from carve_alloc_step [OF "1.prems"(2,3) al [unfolded Inr]] obtain z where
        z: "bp1 = bp\<lparr>bp_mz_list := bp_mz_list bp @ [z]\<rparr>" "mz_blk_num z = nat (min n s)"
          "mz_begin z = mz_end z"
        and cz: "carve mp0 (mp1\<lparr>mp_free_blk_num := sub64 (mp_free_blk_num mp1) 1,
          mp_real_size := sub64 (mp_real_size mp1) (u64 (mp_blk_size mp1))\<rparr>) (bp_mz_list bp @ [z])"
        by auto
      from carve_wf [OF cz "1.prems"(3)] have "mp_blk_size mp1 < 2 ^ 64" by (simp add: mp_wf_def)
      with cz z have c2: "carve mp0 ?mp2 (bp_mz_list bp1)" by (simp add: c_int_simps)
      have "multi_in_one_loop oks1 ?mp2 bp1 (n - s) p s = Some (r, mp', bp', oks')"
        using eq False s al Inr by simp
      from "1.IH" [OF False s al refl Inr refl refl this c2 "1.prems"(3)] obtain zs where
        "bp' = bp1\<lparr>bp_mz_list := bp_mz_list bp1 @ zs\<rparr>" "carve mp0 mp' (bp_mz_list bp1 @ zs)"
        "\<forall>z \<in> set zs. mz_begin z = mz_end z \<and> int (mz_blk_num z) \<le> s"
        "r = Inr () \<and> sum_list (map mz_blk_num zs) = nat (n - s) \<or> r = Inl WD_ENOMEM" by blast
      moreover have "nat (min n s) + nat (n - s) = nat n" "int (nat (min n s)) \<le> s"
        using False s by linarith+
      ultimately show ?thesis using z by (intro exI [of _ "z # zs"]) (elim disjE; simp)
    qed
  qed
qed

lemma one_need_multi_loop_carve:
  assumes "one_need_multi_loop oks mp bp n pos k = Some (r, mp', bp', oks')"
    and "carve mp0 mp (bp_mz_list bp)" and "mp_wf mp0"
  shows "\<exists>zs. bp' = bp\<lparr>bp_mz_list := bp_mz_list bp @ zs\<rparr> \<and> carve mp0 mp' (bp_mz_list bp @ zs) \<and>
    (\<forall>z \<in> set zs. mz_blk_num z = 1 \<and> Suc (mz_end z) = mz_begin z + nat k) \<and>
    (r = Inr () \<and> length zs = nat n \<or> r = Inl WD_ENOMEM)"
  using assms
proof (induction oks mp bp n pos k rule: one_need_multi_loop.induct)
  case (1 oks mp bp n pos k)
  note eq = "1.prems"(1) [unfolded one_need_multi_loop.simps [of oks mp bp n pos k]]
  show ?case
  proof (cases "n \<le> 0")
    case True
    with eq "1.prems"(2) show ?thesis by (intro exI [of _ "[]"]) simp
  next
    case False
    with eq obtain r1 mp1 bp1 oks1 where al:
      "alloc_block_from_mempool oks mp bp pos k 1 = Some (r1, mp1, bp1, oks1)"
      by (auto split: option.splits)
    show ?thesis
    proof (cases r1)
      case (Inl e)
      with carve_alloc_fail [OF "1.prems"(2,3) al [unfolded Inl]] al eq False "1.prems"(2)
      show ?thesis by (intro exI [of _ "[]"]) auto
    next
      case (Inr p)
      let ?mp2 = "mp1\<lparr>mp_free_blk_num := sub64 (mp_free_blk_num mp1) (nat k),
                      mp_real_size := sub64 (mp_real_size mp1) (u64 (mp_blk_size mp1 * nat k))\<rparr>"
      from carve_alloc_step [OF "1.prems"(2,3) al [unfolded Inr]] obtain z where
        z: "bp1 = bp\<lparr>bp_mz_list := bp_mz_list bp @ [z]\<rparr>" "mz_blk_num z = 1"
          "Suc (mz_end z) = mz_begin z + nat k"
        and cz: "carve mp0 ?mp2 (bp_mz_list bp @ [z])"
        by auto
      then have c2: "carve mp0 ?mp2 (bp_mz_list bp1)" by simp
      have "one_need_multi_loop oks1 ?mp2 bp1 (n - 1) p k = Some (r, mp', bp', oks')"
        using eq False al Inr by simp
      from "1.IH" [OF False al refl Inr refl refl this c2 "1.prems"(3)] obtain zs where
        "bp' = bp1\<lparr>bp_mz_list := bp_mz_list bp1 @ zs\<rparr>" "carve mp0 mp' (bp_mz_list bp1 @ zs)"
        "\<forall>z \<in> set zs. mz_blk_num z = 1 \<and> Suc (mz_end z) = mz_begin z + nat k"
        "r = Inr () \<and> length zs = nat (n - 1) \<or> r = Inl WD_ENOMEM" by blast
      moreover have "Suc (nat (n - 1)) = nat n" using False by linarith
      ultimately show ?thesis using z by (intro exI [of _ "z # zs"]) auto
    qed
  qed
qed


subsection \<open>Taking memory for a block pool\<close>

lemma free_mem_carve:
  assumes "carve mp mp' (bp_mz_list bp)" and "mp_wf mp"
  shows "free_mem_to_mempool_nolock mp' bp = Some (mp, bp\<lparr>bp_mz_list := []\<rparr>)"
  by (simp add: free_mem_to_mempool_nolock_def carve_undo [OF assms])

definition combined_num :: "mempool \<Rightarrow> blkpool \<Rightarrow> int" where
  "combined_num mp bp = i32 (int (bp_blk_size bp div mp_blk_size mp +
     (if bp_blk_size bp mod mp_blk_size mp \<noteq> 0 then 1 else 0)))"

lemma multi_in_one_cases:
  assumes alloc: "alloc_mem_multi_in_one oks mp bp = Some (r, mp', bp', oks')" and wf: "mp_wf mp"
    and nil: "bp_mz_list bp = []"
  shows "r = Inl WD_ENOMEM \<and> mp' = mp \<or>
    r = Inr () \<and> (\<exists>zs. bp' = bp\<lparr>bp_mz_list := zs\<rparr> \<and> carve mp mp' zs \<and>
      sum_list (map mz_blk_num zs) = nat (i32 (int (bp_depth bp))) \<and>
      (\<forall>z \<in> set zs. mz_begin z = mz_end z \<and>
         int (mz_blk_num z) \<le> i32 (int (mp_blk_size mp div bp_blk_size bp))))"
proof (cases "check_mempool_real_size mp bp")
  case (Inl e)
  with alloc show ?thesis by (auto simp: alloc_mem_multi_in_one_def split: if_splits)
next
  case (Inr u)
  let ?d = "i32 (int (bp_depth bp))" and ?s = "i32 (int (mp_blk_size mp div bp_blk_size bp))"
  note def = alloc [unfolded alloc_mem_multi_in_one_def Inr sum.case]
  from def obtain r1 mp1 bp1 oks1 where
    loop: "multi_in_one_loop oks mp bp ?d 0 ?s = Some (r1, mp1, bp1, oks1)"
    by (auto split: if_splits option.splits)
  from multi_in_one_loop_carve [OF loop _ wf, unfolded nil] obtain zs where
    zs: "bp1 = bp\<lparr>bp_mz_list := zs\<rparr>" "carve mp mp1 zs"
      "\<forall>z \<in> set zs. mz_begin z = mz_end z \<and> int (mz_blk_num z) \<le> ?s"
    and r1: "r1 = Inr () \<and> sum_list (map mz_blk_num zs) = nat ?d \<or> r1 = Inl WD_ENOMEM"
    by (auto intro: carve_nil)
  have undo: "free_mem_to_mempool_nolock mp1 bp1 = Some (mp, bp1\<lparr>bp_mz_list := []\<rparr>)"
    using zs by (intro free_mem_carve wf) simp
  from r1 show ?thesis
  proof
    assume "r1 = Inr () \<and> sum_list (map mz_blk_num zs) = nat ?d"
    with def loop zs show ?thesis by (auto split: if_splits)
  next
    assume "r1 = Inl WD_ENOMEM"
    with def loop undo show ?thesis by (auto split: if_splits)
  qed
qed

lemma one_need_multi_cases:
  assumes alloc: "alloc_mem_one_need_multi oks mp bp = Some (r, mp', bp', oks')" and wf: "mp_wf mp"
    and nil: "bp_mz_list bp = []"
  shows "r = Inl WD_ENOMEM \<and> mp' = mp \<or>
    r = Inr () \<and> (\<exists>zs. bp' = bp\<lparr>bp_mz_list := zs\<rparr> \<and> carve mp mp' zs \<and>
      length zs = nat (i32 (int (bp_depth bp))) \<and>
      (\<forall>z \<in> set zs. mz_blk_num z = 1 \<and> Suc (mz_end z) = mz_begin z + nat (combined_num mp bp)))"
proof (cases "check_mempool_real_size mp bp")
  case (Inl e)
  with alloc show ?thesis by (auto simp: alloc_mem_one_need_multi_def split: if_splits)
next
  case (Inr u)
  let ?d = "i32 (int (bp_depth bp))"
  note def = alloc [unfolded alloc_mem_one_need_multi_def Inr sum.case combined_num_def [symmetric]]
  from def obtain r1 mp1 bp1 oks1 where
    loop: "one_need_multi_loop oks mp bp ?d 0 (combined_num mp bp) = Some (r1, mp1, bp1, oks1)"
    by (auto split: if_splits option.splits)
  from one_need_multi_loop_carve [OF loop _ wf, unfolded nil] obtain zs where
    zs: "bp1 = bp\<lparr>bp_mz_list := zs\<rparr>" "carve mp mp1 zs"
      "\<forall>z \<in> set zs. mz_blk_num z = 1 \<and> Suc (mz_end z) = mz_begin z + nat (combined_num mp bp)"
    and r1: "r1 = Inr () \<and> length zs = nat ?d \<or> r1 = Inl WD_ENOMEM"
    by (auto intro: carve_nil)
  have undo: "free_mem_to_mempool_nolock mp1 bp1 = Some (mp, bp1\<lparr>bp_mz_list := []\<rparr>)"
    using zs by (intro free_mem_carve wf) simp
  from r1 show ?thesis
  proof
    assume "r1 = Inr () \<and> length zs = nat ?d"
    with def loop zs show ?thesis by (auto split: if_splits)
  next
    assume "r1 = Inl WD_ENOMEM"
    with def loop undo show ?thesis by (auto split: if_splits)
  qed
qed

lemma alloc_mem_cases:
  assumes alloc: "alloc_mem_from_mempool oks mp bp = Some (r, mp', bp', oks')" and wf: "mp_wf mp"
  shows "r = Inl WD_ENOMEM \<and> mp' = mp \<or>
    r = Inr () \<and> (\<exists>zs. bp' = bp\<lparr>bp_mz_list := zs\<rparr> \<and> carve mp mp' zs \<and>
      sum_list (map mz_blk_num zs) = nat (i32 (int (bp_depth bp))) \<and>
      (bp_blk_size bp \<le> mp_blk_size mp \<longrightarrow>
        (\<forall>z \<in> set zs. mz_begin z = mz_end z \<and>
           int (mz_blk_num z) \<le> i32 (int (mp_blk_size mp div bp_blk_size bp)))))"
proof (cases "bp_blk_size bp \<le> mp_blk_size mp")
  case True
  with multi_in_one_cases [of oks mp "bp\<lparr>bp_mz_list := []\<rparr>" r mp' bp' oks'] alloc wf
  show ?thesis by (simp add: alloc_mem_from_mempool_def Let_def)
next
  case False
  have ones: "\<forall>z \<in> set zs. mz_blk_num z = 1 \<Longrightarrow> sum_list (map mz_blk_num zs) = length zs" for zs
    by (induction zs) auto
  from False one_need_multi_cases [of oks mp "bp\<lparr>bp_mz_list := []\<rparr>" r mp' bp' oks'] alloc wf
  show ?thesis by (auto simp: alloc_mem_from_mempool_def Let_def ones)
qed

lemma write_elems_spec:
  "write_elems elem idx as =
    (if idx + length as \<le> length elem then Some (take idx elem @ as @ drop (idx + length as) elem)
     else if as = [] then Some elem else None)"
proof (induction as arbitrary: elem idx)
  case (Cons a as)
  show ?case
  proof (cases "idx < length elem")
    case True
    then have "take (Suc idx) (elem[idx := a]) = take idx elem @ [a]"
      by (rule take_list_update_same)
    with True Cons.IH [of "elem[idx := a]" "Suc idx"] show ?thesis
      by (cases "as = []") auto
  next
    case False
    then show ?thesis by simp
  qed
qed simp

end
