(* ===== verification/Mempool_Blocks.thy ===== *)
theory Mempool_Blocks
  imports Mempool
begin

text \<open>
  The contracts of the block pools of \<^verbatim>\<open>wd_mempool.c\<close>, on the definitions of \<open>Mempool\<close>: a block pool
  is a stack of free blocks; creating one takes memory from the pool and gives all of it back when
  it fails; destroying one restores the pool.
\<close>

subsection \<open>A block pool is a stack of free blocks\<close>

definition bp_inv :: "blkpool \<Rightarrow> bool" where
  "bp_inv bp \<longleftrightarrow> length (bp_blk_elem bp) = bp_depth bp \<and> bp_top bp \<le> bp_depth bp \<and>
     bp_depth bp + 2 < 2 ^ 32 \<and> bp_free_block_num bp = bp_top bp \<and>
     bp_ref bp = bp_depth bp - bp_top bp + 1 \<and> 0 \<notin> set (take (bp_top bp) (bp_blk_elem bp))"

definition free_blocks :: "blkpool \<Rightarrow> nat list" where
  "free_blocks bp = take (bp_top bp) (bp_blk_elem bp)"

text \<open>One call of \<^verbatim>\<open>wd_block_alloc\<close> and one of \<^verbatim>\<open>wd_block_free\<close> that took effect.\<close>

definition block_pop :: "blkpool \<Rightarrow> (nat \<times> blkpool) option" where
  "block_pop bp = (case wd_block_alloc (Some bp) of Some (Some p, Some bp') \<Rightarrow> Some (p, bp') | _ \<Rightarrow> None)"

definition block_push :: "blkpool \<Rightarrow> nat \<Rightarrow> blkpool option" where
  "block_push bp p = (case wd_block_free (Some bp) p of
     Some (Some bp') \<Rightarrow> if bp_top bp' = bp_top bp then None else Some bp' | _ \<Rightarrow> None)"

lemma wd_block_alloc_inv:
  assumes "bp_inv bp"
  shows "wd_block_alloc (Some bp) =
    (if bp_top bp = 0 then Some (None, Some bp)
     else Some (Some (bp_blk_elem bp ! (bp_top bp - 1)),
       Some (bp\<lparr>bp_top := bp_top bp - 1, bp_free_block_num := bp_top bp - 1, bp_ref := bp_ref bp + 1\<rparr>)))"
  using assms
  by (auto simp: wd_block_alloc_def bp_inv_def wd_atomic_test_add_def wd_atomic_sub_def c_int_simps Let_def)

lemma wd_block_free_inv:
  assumes "bp_inv bp" and "a \<noteq> 0"
  shows "wd_block_free (Some bp) a =
    (if bp_top bp = bp_depth bp then Some (Some bp)
     else Some (Some (bp\<lparr>bp_blk_elem := (bp_blk_elem bp)[bp_top bp := a], bp_top := bp_top bp + 1,
       bp_free_block_num := bp_top bp + 1, bp_ref := bp_ref bp - 1\<rparr>)))"
  using assms
  by (auto simp: wd_block_free_def bp_inv_def wd_atomic_sub_def c_int_simps)

lemma block_pop_inv:
  assumes inv: "bp_inv bp" and pop: "block_pop bp = Some (a, q)"
  shows "bp_inv q \<and> free_blocks bp = free_blocks q @ [a] \<and> bp_depth q = bp_depth bp \<and> a \<noteq> 0"
proof -
  from pop have top: "bp_top bp \<noteq> 0"
    by (auto simp: block_pop_def wd_block_alloc_inv [OF inv] split: if_splits)
  then obtain t where t: "bp_top bp = Suc t" using not0_implies_Suc by blast
  from inv t have len: "t < length (bp_blk_elem bp)" by (simp add: bp_inv_def)
  from pop t have q: "a = bp_blk_elem bp ! t"
    "q = bp\<lparr>bp_top := t, bp_free_block_num := t, bp_ref := bp_ref bp + 1\<rparr>"
    by (auto simp: block_pop_def wd_block_alloc_inv [OF inv])
  have tk: "take (Suc t) (bp_blk_elem bp) = take t (bp_blk_elem bp) @ [a]"
    using len q by (simp add: take_Suc_conv_app_nth)
  show ?thesis using inv t tk unfolding q(2) by (auto simp: bp_inv_def free_blocks_def)
qed

lemma block_push_inv:
  assumes inv: "bp_inv bp" and a: "a \<noteq> 0" and push: "block_push bp a = Some q"
  shows "bp_inv q \<and> free_blocks q = free_blocks bp @ [a] \<and> bp_depth q = bp_depth bp"
proof -
  from push have top: "bp_top bp \<noteq> bp_depth bp"
    by (auto simp: block_push_def wd_block_free_inv [OF inv a] split: if_splits)
  with inv have len: "bp_top bp < length (bp_blk_elem bp)" by (simp add: bp_inv_def)
  from push top have q: "q = bp\<lparr>bp_blk_elem := (bp_blk_elem bp)[bp_top bp := a],
      bp_top := bp_top bp + 1, bp_free_block_num := bp_top bp + 1, bp_ref := bp_ref bp - 1\<rparr>"
    by (simp add: block_push_def wd_block_free_inv [OF inv a])
  from take_list_update_same [OF len] inv a top show ?thesis
    unfolding q by (auto simp: bp_inv_def free_blocks_def)
qed

interpretation blocks: free_stack free_blocks bp_depth "\<lambda>a. a \<noteq> 0" block_pop block_push bp_inv
proof
  fix p :: blkpool assume inv: "bp_inv p"
  show "block_pop p = None \<longleftrightarrow> free_blocks p = []"
    using inv by (auto simp: block_pop_def wd_block_alloc_inv [OF inv] free_blocks_def bp_inv_def)
  show "length (free_blocks p) \<le> bp_depth p" using inv by (simp add: free_blocks_def bp_inv_def)
  show "block_push p a = None \<longleftrightarrow> length (free_blocks p) = bp_depth p" if "a \<noteq> 0" for a
    using inv by (auto simp: block_push_def wd_block_free_inv [OF inv that] free_blocks_def bp_inv_def)
qed (blast dest: block_pop_inv block_push_inv)+

subsection \<open>What creation takes from the pool\<close>

lemma i32_le_nat: "i32 (int n) \<le> int n"
proof (cases "n < 2 ^ 31")
  case True
  then show ?thesis by (simp add: c_int_simps)
next
  case False
  then have "(int n + 2 ^ 31) mod 2 ^ 32 - 2 ^ 31 < 2 ^ 31" by simp
  with False show ?thesis by (simp add: i32_def)
qed

text \<open>The blocks cut from a zone fit into the memory the zone stands for.\<close>

definition zone_fits :: "nat \<Rightarrow> nat \<Rightarrow> memzone \<Rightarrow> bool" where
  "zone_fits S bs z \<longleftrightarrow> mz_blk_num z * bs \<le> (Suc (mz_end z) - mz_begin z) * S \<and>
     (bs \<le> S \<longrightarrow> mz_begin z = mz_end z)"

lemma combined_num_fits:
  assumes "0 < mp_blk_size mp" and "bp_blk_size bp \<le> n * mp_blk_size mp" and "n < 2 ^ 31"
  shows "bp_blk_size bp \<le> nat (combined_num mp bp) * mp_blk_size mp"
proof -
  let ?S = "mp_blk_size mp" and ?b = "bp_blk_size bp"
  let ?c = "?b div ?S + (if ?b mod ?S \<noteq> 0 then 1 else 0)"
  have eq: "?b = ?b div ?S * ?S + ?b mod ?S" by simp
  have less: "?b mod ?S < ?S" using assms(1) by simp
  have fits: "?b \<le> ?c * ?S"
  proof (cases "?b mod ?S = 0")
    case True
    then show ?thesis using eq by simp
  next
    case False
    then have "?c * ?S = ?b div ?S * ?S + ?S" by simp
    then show ?thesis using eq less by linarith
  qed
  have "?c \<le> n"
  proof (cases "?b mod ?S = 0")
    case True
    then have "?b div ?S * ?S \<le> n * ?S" using assms(2) eq by linarith
    then have "?b div ?S \<le> n" using assms(1) by (rule mult_le_cancel2 [THEN iffD1, rule_format])
    with True show ?thesis by simp
  next
    case False
    then have "?b div ?S * ?S < n * ?S" using assms(2) eq by linarith
    then show ?thesis using False by simp
  qed
  with assms(3) have "combined_num mp bp = int ?c" by (simp add: combined_num_def c_int_simps)
  then have "nat (combined_num mp bp) = ?c" by (simp only: nat_int)
  with fits show ?thesis by (simp only:)
qed

lemma alloc_mem_zones:
  assumes alloc: "alloc_mem_from_mempool oks mp bp = Some (Inr u, mp', bp', oks')" and wf: "mp_wf mp"
    and bs: "bp_blk_size bp \<le> n * mp_blk_size mp" and n: "n < 2 ^ 31"
  shows "\<exists>zs. bp' = bp\<lparr>bp_mz_list := zs\<rparr> \<and> carve mp mp' zs \<and>
      sum_list (map mz_blk_num zs) = nat (i32 (int (bp_depth bp))) \<and>
      (\<forall>z \<in> set zs. zone_fits (mp_blk_size mp) (bp_blk_size bp) z)"
proof (cases "bp_blk_size bp \<le> mp_blk_size mp")
  case True
  let ?S = "mp_blk_size mp" and ?b = "bp_blk_size bp"
  from alloc_mem_cases [OF alloc wf] True obtain zs where zs: "bp' = bp\<lparr>bp_mz_list := zs\<rparr>" "carve mp mp' zs"
    "sum_list (map mz_blk_num zs) = nat (i32 (int (bp_depth bp)))"
    and le: "\<forall>z \<in> set zs. mz_begin z = mz_end z \<and> int (mz_blk_num z) \<le> i32 (int (?S div ?b))" by auto
  have "mz_blk_num z * ?b \<le> ?S" if "z \<in> set zs" for z
  proof -
    have "int (mz_blk_num z) \<le> int (?S div ?b)" using le that i32_le_nat order_trans by blast
    then have "mz_blk_num z * ?b \<le> ?S div ?b * ?b" by (intro mult_le_mono1) simp
    then show ?thesis using div_mult_le_self [of ?S ?b] by linarith
  qed
  with zs le show ?thesis by (auto simp: zone_fits_def)
next
  case False
  let ?bp = "bp\<lparr>bp_mz_list := []\<rparr>"
  from False alloc have "alloc_mem_one_need_multi oks mp ?bp = Some (Inr u, mp', bp', oks')"
    by (simp add: alloc_mem_from_mempool_def Let_def)
  from one_need_multi_cases [OF this wf] obtain zs where zs: "bp' = bp\<lparr>bp_mz_list := zs\<rparr>" "carve mp mp' zs"
    "length zs = nat (i32 (int (bp_depth bp)))"
    and z: "\<forall>z \<in> set zs. mz_blk_num z = 1 \<and> Suc (mz_end z) = mz_begin z + nat (combined_num mp ?bp)" by auto
  have "sum_list (map mz_blk_num zs) = length zs" using z by (induction zs) auto
  moreover have "?bp\<lparr>bp_mz_list := zs\<rparr> = bp\<lparr>bp_mz_list := zs\<rparr>" by simp
  moreover have "bp_blk_size bp \<le> nat (combined_num mp ?bp) * mp_blk_size mp"
    using combined_num_fits [of mp ?bp n] wf bs n by (simp add: mp_wf_def)
  ultimately show ?thesis using zs z False by (auto simp: zone_fits_def)
qed

subsection \<open>Creation, case by case\<close>

abbreviation take_ref :: "mempool \<Rightarrow> mempool" where
  "take_ref mp \<equiv> mp\<lparr>mp_ref := u32 (mp_ref mp + 1)\<rparr>"

abbreviation drop_ref :: "mempool \<Rightarrow> mempool" where
  "drop_ref mp \<equiv> mp\<lparr>mp_ref := wd_atomic_sub (mp_ref mp) 1\<rparr>"

abbreviation new_blkpool :: "nat \<Rightarrow> nat \<Rightarrow> blkpool" where
  "new_blkpool bs n \<equiv> \<lparr>bp_blk_elem = [], bp_depth = n, bp_top = n, bp_blk_size = bs, bp_mz_list = [],
     bp_free_block_num = n, bp_ref = 0\<rparr>"

lemma drop_take_ref: "mp_ref mp < 2 ^ 32 \<Longrightarrow> drop_ref (take_ref mp) = mp"
  by (cases "mp_ref mp = 2 ^ 32 - 1")
    (simp_all add: wd_atomic_sub_def c_int_simps, simp add: u32_def sub32_def)

lemma mp_wf_take_ref: "mp_wf mp \<Longrightarrow> mp_wf (take_ref mp)"
  by (simp add: mp_wf_def)

lemma init_blkpool_elem_cases:
  assumes "init_blkpool_elem oks bp = Some (r, bp', oks')"
  obtains (fail) "r = Inl WD_ENOMEM" "bp' = bp"
  | (ok) elem where "r = Inr ()" "bp' = bp\<lparr>bp_blk_elem := elem\<rparr>"
      "write_elems (replicate (bp_depth bp) 0) 0 (concat (map (zone_blocks (bp_blk_size bp)) (bp_mz_list bp))) = Some elem"
  using assms by (auto simp: init_blkpool_elem_def split: prod.splits if_splits option.splits)

lemma create_cases:
  assumes create: "wd_blockpool_create oks spin (Some mp) bs n = Some (r, h, oks')" and wf: "mp_wf mp"
  obtains (fail) e where "r = Inl e" "h = Some mp"
  | (ok) oks1 oks2 zs mp' elem where "alloc_mem_from_mempool oks1 (take_ref mp) (new_blkpool bs n) =
        Some (Inr (), mp', (new_blkpool bs n)\<lparr>bp_mz_list := zs\<rparr>, oks2)"
      "carve (take_ref mp) mp' zs" "h = Some mp'" "0 < bs" "0 < n"
      "sum_list (map mz_blk_num zs) = nat (i32 (int n))"
      "write_elems (replicate n 0) 0 (concat (map (zone_blocks bs) zs)) = Some elem"
      "r = Inr \<lparr>bp_blk_elem = elem, bp_depth = n, bp_top = n, bp_blk_size = bs, bp_mz_list = zs,
         bp_free_block_num = n, bp_ref = 1\<rparr>"
proof (cases "bs = 0 \<or> n = 0 \<or> mp_ref mp = 0 \<or> \<not> fst (calloc_ok oks) \<or> spin < 0")
  case True
  have ref: "mp_ref mp < 2 ^ 32" using wf by (simp add: mp_wf_def)
  obtain ok oks1 where c: "calloc_ok oks = (ok, oks1)" by (cases "calloc_ok oks")
  have "\<exists>e. r = Inl e \<and> h = Some mp"
    using True create drop_take_ref [OF ref] c
    by (auto simp: wd_blockpool_create_def wd_atomic_test_add_def Let_def split: if_splits)
  then show ?thesis using fail by blast
next
  case False
  have ref: "mp_ref mp < 2 ^ 32" using wf by (simp add: mp_wf_def)
  obtain oks1 where c: "calloc_ok oks = (True, oks1)" using False by (cases "calloc_ok oks") auto
  note def = create [unfolded wd_blockpool_create_def]
  from def False c obtain r1 mp1 bp1 oks2 where
    al: "alloc_mem_from_mempool oks1 (take_ref mp) (new_blkpool bs n) = Some (r1, mp1, bp1, oks2)"
    by (auto simp: wd_atomic_test_add_def Let_def split: option.splits)
  note wfr = mp_wf_take_ref [OF wf]
  note step = def [simplified, unfolded wd_atomic_test_add_def, simplified]
  show ?thesis
  proof (cases r1)
    case (Inl e)
    with alloc_mem_cases [OF al wfr] have "mp1 = take_ref mp" by simp
    with step False c al Inl drop_take_ref [OF ref] show ?thesis
      by (intro fail [of WD_ENOMEM]) (auto simp: Let_def)
  next
    case (Inr u)
    with alloc_mem_cases [OF al wfr] obtain zs where zs: "bp1 = (new_blkpool bs n)\<lparr>bp_mz_list := zs\<rparr>"
      "carve (take_ref mp) mp1 zs" "sum_list (map mz_blk_num zs) = nat (i32 (int n))" by auto
    from step False c al Inr obtain r2 bp2 oks3 where
      init: "init_blkpool_elem oks2 bp1 = Some (r2, bp2, oks3)"
      by (auto simp: Let_def split: option.splits)
    from init show ?thesis
    proof (cases rule: init_blkpool_elem_cases)
      case 1: fail
      have "free_mem_to_mempool_nolock mp1 bp1 = Some (take_ref mp, bp1\<lparr>bp_mz_list := []\<rparr>)"
        using zs by (intro free_mem_carve wfr) simp
      with step False c al Inr init 1 drop_take_ref [OF ref] show ?thesis
        by (intro fail [of WD_ENOMEM]) (auto simp: Let_def)
    next
      case 2: (ok elem)
      have "wd_atomic_add 0 1 = 1" by (simp add: wd_atomic_add_def c_int_simps)
      with step False c al Inr init 2 zs
      have "h = Some mp1" "r = Inr \<lparr>bp_blk_elem = elem, bp_depth = n, bp_top = n, bp_blk_size = bs,
         bp_mz_list = zs, bp_free_block_num = n, bp_ref = 1\<rparr>"
        by (auto simp: Let_def)
      with al Inr zs 2 False show ?thesis by (intro ok [of oks1 mp1 zs oks2 elem]) auto
    qed
  qed
qed


subsection \<open>Where the blocks lie\<close>

definition apart :: "nat \<Rightarrow> nat \<Rightarrow> nat \<Rightarrow> bool" where
  "apart bs a c \<longleftrightarrow> a + bs \<le> c \<or> c + bs \<le> a"

lemma zone_blocks_in:
  assumes fits: "zone_fits S bs z" and addr: "mz_addr z = u64 (base + mz_begin z * S)"
    and le: "mz_begin z \<le> mz_end z" and lim: "base + Suc (mz_end z) * S \<le> 2 ^ 64" and bs: "0 < bs"
  shows "zone_blocks bs z = map (\<lambda>i. base + mz_begin z * S + i * bs) [0 ..< mz_blk_num z]"
    and "\<forall>a \<in> set (zone_blocks bs z). base + mz_begin z * S \<le> a \<and> a + bs \<le> base + Suc (mz_end z) * S"
proof -
  have split: "mz_begin z * S + (Suc (mz_end z) - mz_begin z) * S = Suc (mz_end z) * S"
    using le by (simp flip: add_mult_distrib)
  have bound: "mz_begin z * S + i * bs + bs \<le> Suc (mz_end z) * S" if "i < mz_blk_num z" for i
  proof -
    have "Suc i * bs \<le> mz_blk_num z * bs" using that by (intro mult_le_mono1) simp
    then show ?thesis using fits split by (simp add: zone_fits_def)
  qed
  have inr: "base + mz_begin z * S + i * bs < 2 ^ 64" if "i < mz_blk_num z" for i
    using bound [OF that] lim bs by linarith
  have base: "mz_addr z = base + mz_begin z * S" if "i < mz_blk_num z" for i
    using addr inr [OF that] by (simp add: c_int_simps)
  show eq: "zone_blocks bs z = map (\<lambda>i. base + mz_begin z * S + i * bs) [0 ..< mz_blk_num z]"
    using inr base by (auto simp: zone_blocks_def c_int_simps)
  show "\<forall>a \<in> set (zone_blocks bs z). base + mz_begin z * S \<le> a \<and> a + bs \<le> base + Suc (mz_end z) * S"
    using bound by (auto simp: eq add.assoc)
qed

lemma zone_blocks_apart:
  "sorted_wrt (apart bs) (map (\<lambda>i. lo + i * bs) [0 ..< k])"
proof -
  have "lo + i * bs + bs \<le> lo + j * bs" if "i < j" for i j
  proof -
    have "Suc i * bs \<le> j * bs" using that by (intro mult_le_mono1) simp
    then show ?thesis by simp
  qed
  then show ?thesis by (auto simp: sorted_wrt_map sorted_wrt_iff_nth_less apart_def)
qed

lemma concat_apart:
  assumes "\<forall>z \<in> set zs. sorted_wrt (apart bs) (f z) \<and> (\<forall>a \<in> set (f z). lo z \<le> a \<and> a + bs \<le> hi z)"
    and "sorted_wrt (\<lambda>y z. hi y \<le> lo z \<or> hi z \<le> (lo y :: nat)) zs"
  shows "sorted_wrt (apart bs) (concat (map f zs))"
  using assms
proof (induction zs)
  case (Cons z zs)
  have "apart bs a c" if "a \<in> set (f z)" "c \<in> set (f y)" "y \<in> set zs" for a c y
  proof -
    have "lo z \<le> a" "a + bs \<le> hi z" "lo y \<le> c" "c + bs \<le> hi y" using Cons.prems(1) that by auto
    moreover have "hi z \<le> lo y \<or> hi y \<le> lo z" using Cons.prems(2) that by auto
    ultimately show ?thesis by (auto simp: apart_def)
  qed
  with Cons show ?case by (auto simp: sorted_wrt_append)
qed simp

lemma zones_ordered:
  assumes dist: "distinct zs" and le: "\<forall>z \<in> set zs. mz_begin z \<le> mz_end z"
    and disj: "\<forall>y \<in> set zs. \<forall>z \<in> set zs. y \<noteq> z \<longrightarrow> zone_set y \<inter> zone_set z = {}"
  shows "sorted_wrt (\<lambda>y z. base + Suc (mz_end y) * S \<le> base + mz_begin z * S \<or>
      base + Suc (mz_end z) * S \<le> base + mz_begin y * (S::nat)) zs"
  using assms
proof (induction zs)
  case (Cons y zs)
  have "mz_end y < mz_begin z \<or> mz_end z < mz_begin y" if z: "z \<in> set zs" for z
  proof (rule ccontr)
    assume "\<not> ?thesis"
    then have "max (mz_begin y) (mz_begin z) \<in> zone_set y \<inter> zone_set z"
      using Cons.prems(2) z by (auto simp: zone_set_def)
    moreover have "y \<noteq> z" using Cons.prems(1) z by auto
    ultimately show False using Cons.prems(3) z by fastforce
  qed
  then have "Suc (mz_end y) * S \<le> mz_begin z * S \<or> Suc (mz_end z) * S \<le> mz_begin y * S"
    if "z \<in> set zs" for z using that by (meson Suc_leI mult_le_mono1)
  with Cons show ?case by auto
qed simp

lemma length_zone_blocks_concat:
  "length (concat (map (zone_blocks bs) zs)) = sum_list (map mz_blk_num zs)"
  by (induction zs) (auto simp: zone_blocks_def)

definition region_bits :: "bitmap \<Rightarrow> mempool \<Rightarrow> nat \<Rightarrow> nat" where
  "region_bits bm mp bs = (if bs \<le> mp_blk_size mp then bm_bits bm else bm_cap bm)"

lemma create_layout_aux:
  assumes create: "wd_blockpool_create oks spin (Some mp) bs n = Some (Inr bp, Some mp', oks')"
    and wf: "mp_wf mp" and bm: "mp_bitmap mp = Some bm" and n: "n < 2 ^ 31"
    and bs: "bs \<le> bm_bits bm * mp_blk_size mp"
    and lim: "mp_addr mp + bm_cap bm * mp_blk_size mp \<le> 2 ^ 64" and base: "0 < mp_addr mp"
  shows "bp_inv bp \<and> length (free_blocks bp) = n \<and> sorted_wrt (apart bs) (free_blocks bp) \<and>
    (\<forall>a \<in> set (free_blocks bp). mp_addr mp \<le> a \<and>
       a + bs \<le> mp_addr mp + region_bits bm mp bs * mp_blk_size mp)"
  using create wf
proof (cases rule: create_cases)
  case (ok oks1 oks2 zs mp'' elem)
  let ?S = "mp_blk_size mp" and ?A = "mp_addr mp"
  have bits: "bm_bits bm < 2 ^ 31" "bm_bits bm \<le> bm_cap bm" using wf bm by (auto simp: mp_wf_def bm_wf_def)
  from alloc_mem_zones [OF ok(1) mp_wf_take_ref [OF wf], of "bm_bits bm"] bs bits
  have fits: "\<forall>z \<in> set zs. zone_fits ?S bs z" by auto
  have "mp_bitmap (take_ref mp) = Some bm" using bm by simp
  from carve_bits [OF ok(2) this] have zin: "\<forall>z \<in> set zs. \<forall>i \<in> zone_set z. i < bm_cap bm"
    and zb: "\<forall>z \<in> set zs. mz_begin z < bm_bits bm \<and> mz_begin z \<le> mz_end z \<and>
       mz_addr z = u64 (?A + mz_begin z * ?S)"
    and dist: "distinct zs" "\<forall>y \<in> set zs. \<forall>z \<in> set zs. y \<noteq> z \<longrightarrow> zone_set y \<inter> zone_set z = {}"
    by (simp; elim exE conjE; blast)+
  have region: "Suc (mz_end z) \<le> region_bits bm mp bs" if "z \<in> set zs" for z
  proof -
    from zb that have "mz_end z \<in> zone_set z" by (simp add: zone_set_def)
    with zin zb fits that show ?thesis by (auto simp: region_bits_def zone_fits_def Suc_le_eq)
  qed
  have "region_bits bm mp bs \<le> bm_cap bm" using bits by (simp add: region_bits_def)
  then have "region_bits bm mp bs * ?S \<le> bm_cap bm * ?S" by (rule mult_le_mono1)
  with lim have lim': "?A + region_bits bm mp bs * ?S \<le> 2 ^ 64" by linarith
  have zend: "?A + Suc (mz_end z) * ?S \<le> ?A + region_bits bm mp bs * ?S" if "z \<in> set zs" for z
    using region [OF that] by (intro add_left_mono mult_le_mono1)
  note zblk = zone_blocks_in [where base = ?A and S = ?S and bs = bs]
  have blk: "zone_blocks bs z = map (\<lambda>i. ?A + mz_begin z * ?S + i * bs) [0 ..< mz_blk_num z]"
    "\<forall>a \<in> set (zone_blocks bs z). ?A + mz_begin z * ?S \<le> a \<and> a + bs \<le> ?A + Suc (mz_end z) * ?S"
    if z: "z \<in> set zs" for z
    using zblk [of z] fits zb z zend [OF z] lim' ok(4) by auto
  have len: "length (concat (map (zone_blocks bs) zs)) = n"
    unfolding length_zone_blocks_concat ok(6) using n by (simp add: c_int_simps)
  with ok(7) have elem: "elem = concat (map (zone_blocks bs) zs)" by (simp add: write_elems_spec)
  have "sorted_wrt (apart bs) elem" unfolding elem
    using blk zone_blocks_apart zones_ordered [OF dist(1) _ dist(2)] zb
    by (intro concat_apart [where lo = "\<lambda>z. ?A + mz_begin z * ?S" and hi = "\<lambda>z. ?A + Suc (mz_end z) * ?S"]) auto
  moreover have ins: "\<forall>a \<in> set elem. ?A \<le> a \<and> a + bs \<le> ?A + region_bits bm mp bs * ?S"
    unfolding elem using blk(2) zend by (fastforce dest: order_trans)
  moreover have "0 \<notin> set elem" using ins base by auto
  moreover have "bp_inv bp"  using ok(8) len elem n \<open>0 \<notin> set elem\<close> by (simp add: bp_inv_def)
  ultimately show ?thesis using ok(8) len elem by (simp add: free_blocks_def)
qed simp

subsection \<open>Creation succeeds when there is room\<close>

definition clear_from :: "bitmap \<Rightarrow> nat \<Rightarrow> nat set" where
  "clear_from bm pos = {i. pos \<le> i \<and> i < bm_bits bm \<and> \<not> bm_get bm i}"

lemma finite_clear_from [simp]: "finite (clear_from bm pos)"
  by (rule finite_subset [of _ "{..<bm_bits bm}"]) (auto simp: clear_from_def)

lemma find_run_one:
  assumes "bm_wf bm" and "clear_from bm pos \<noteq> {}"
  shows "\<exists>i. find_run bm 1 pos = Some (Inr (i, i)) \<and> i \<in> clear_from bm pos \<and>
    clear_from bm pos \<subseteq> {i..}"
  using assms(1)
proof (cases rule: find_next_zero_bit_cases [where start = pos])
  case (found i)
  then have "find_run bm 1 pos = Some (Inr (i, i))" by (subst find_run.simps) simp
  moreover have "clear_from bm pos \<subseteq> {i..}" using found(5) by (force simp: clear_from_def not_le)
  ultimately show ?thesis using found by (auto simp: clear_from_def)
next
  case full
  then show ?thesis using assms(2) by (auto simp: clear_from_def)
next
  case overrun
  then show ?thesis using assms(2) by (auto simp: clear_from_def)
qed

lemma alloc_block_one:
  assumes bm: "mp_bitmap mp = Some bm" and wf: "bm_wf bm" and room: "clear_from bm pos \<noteq> {}"
  shows "\<exists>i bm' bp'. alloc_block_from_mempool [] mp bp pos 1 k = Some (Inr i, mp\<lparr>mp_bitmap := Some bm'\<rparr>, bp', []) \<and>
    bm_shape bm' = bm_shape bm \<and> card (clear_from bm pos) = Suc (card (clear_from bm' i))"
proof -
  from find_run_one [OF wf room] obtain i where i: "find_run bm 1 pos = Some (Inr (i, i))"
    "i \<in> clear_from bm pos" "clear_from bm pos \<subseteq> {i..}" by blast
  then have cap: "i < bm_cap bm" using wf by (simp add: clear_from_def bm_wf_def)
  then obtain bm' where set: "wd_set_bit bm i = Some bm'"
    using wd_set_bit_None [of bm i] by (cases "wd_set_bit bm i") auto
  have sh: "bm_shape bm' = bm_shape bm" using wd_set_bit_shape [OF set] .
  note same = bm_shape_eqD [OF sh]
  have get: "bm_get bm' j \<longleftrightarrow> j = i \<or> bm_get bm j" if "j < bm_cap bm" for j
    using bits.bset_get [OF set that] .
  have bits: "bm_bits bm \<le> bm_cap bm" using wf by (simp add: bm_wf_def)
  have "j < bm_cap bm" if "j < bm_bits bm" for j using that bits by simp
  then have "clear_from bm pos = insert i (clear_from bm' i)"
    using i get same by (auto simp: clear_from_def)
  moreover have "i \<notin> clear_from bm' i" using get cap by (simp add: clear_from_def)
  ultimately have "card (clear_from bm pos) = Suc (card (clear_from bm' i))" by simp
  moreover have "alloc_block_from_mempool [] mp bp pos 1 k = Some (Inr i, mp\<lparr>mp_bitmap := Some bm'\<rparr>,
     bp\<lparr>bp_mz_list := bp_mz_list bp @ [\<lparr>mz_addr = u64 (mp_addr mp + i * mp_blk_size mp), mz_blk_num = k,
        mz_begin = i, mz_end = i\<rparr>]\<rparr>, [])"
    using bm i set by (simp add: alloc_block_from_mempool_def alloc_memzone_def)
  ultimately show ?thesis using sh by blast
qed

lemma multi_in_one_loop_room:
  assumes "mp_bitmap mp = Some bm" and "bm_wf bm" and "1 \<le> s"
    and "n \<le> int (card (clear_from bm pos)) * s"
  shows "\<exists>mp' bp'. multi_in_one_loop [] mp bp n pos s = Some (Inr (), mp', bp', [])"
  using assms
proof (induction "nat n" arbitrary: mp bm bp n pos rule: less_induct)
  case less
  show ?case
  proof (cases "n \<le> 0")
    case True
    then show ?thesis by (simp add: multi_in_one_loop.simps)
  next
    case False
    then have "clear_from bm pos \<noteq> {}" using less.prems(4) by (cases "clear_from bm pos = {}") auto
    from alloc_block_one [OF less.prems(1,2) this, of bp "nat (min n s)"] obtain i bm' bp' where
      al: "alloc_block_from_mempool [] mp bp pos 1 (nat (min n s)) = Some (Inr i, mp\<lparr>mp_bitmap := Some bm'\<rparr>, bp', [])"
      and sh: "bm_shape bm' = bm_shape bm" and card: "card (clear_from bm pos) = Suc (card (clear_from bm' i))"
      by blast
    let ?mp = "mp\<lparr>mp_bitmap := Some bm', mp_free_blk_num := sub64 (mp_free_blk_num mp) 1,
        mp_real_size := sub64 (mp_real_size mp) (mp_blk_size mp)\<rparr>"
    have "nat (n - s) < nat n" using False less.prems(3) by linarith
    moreover have "mp_bitmap ?mp = Some bm'" by simp
    moreover have "bm_wf bm'" using bm_shape_eqD [OF sh] less.prems(2) by blast
    moreover have "n - s \<le> int (card (clear_from bm' i)) * s"
      using less.prems(4) card by (simp add: algebra_simps)
    ultimately obtain mp'' bp'' where
      "multi_in_one_loop [] ?mp bp' (n - s) i s = Some (Inr (), mp'', bp'', [])"
      using less.hyps less.prems(3) by blast
    with al False less.prems(3) show ?thesis by (subst multi_in_one_loop.simps) simp
  qed
qed

lemma create_room_aux:
  assumes wf: "mp_wf mp" and bm: "mp_bitmap mp = Some bm" and ref: "0 < mp_ref mp" and spin: "0 \<le> spin"
    and n: "0 < n" "n < 2 ^ 31" and bs: "0 < bs" "bs \<le> mp_blk_size mp" and S: "mp_blk_size mp < 2 ^ 31"
    and size: "bs * n \<le> mp_real_size mp"
    and room: "n \<le> card (clear_from bm 0) * (mp_blk_size mp div bs)"
  shows "\<exists>bp mp' . wd_blockpool_create [] spin (Some mp) bs n = Some (Inr bp, Some mp', [])"
proof -
  let ?S = "mp_blk_size mp" and ?bp = "new_blkpool bs n" and ?mp = "take_ref mp"
  have "mp_real_size mp < 2 ^ 64" and bwf: "bm_wf bm" using wf bm by (auto simp: mp_wf_def)
  with size have u: "u64 (bs * n) = bs * n" by (intro u64_small) simp
  have s: "i32 (int (?S div bs)) = int (?S div bs)" "i32 (int n) = int n"
    using S n div_le_dividend [of ?S bs] by (auto intro!: i32_small simp del: div_le_dividend)
  have one: "1 \<le> int (?S div bs)" using bs div_greater_zero_iff [of ?S bs] by simp
  have "int n \<le> int (card (clear_from bm 0) * (?S div bs))" using room by (simp only: of_nat_le_iff)
  then have "int n \<le> int (card (clear_from bm 0)) * int (?S div bs)" by (simp only: of_nat_mult)
  from multi_in_one_loop_room [OF _ bwf one this, of ?mp ?bp] bm obtain mp1 bp1 where
    "multi_in_one_loop [] ?mp ?bp (int n) 0 (int (?S div bs)) = Some (Inr (), mp1, bp1, [])" by auto
  then have al: "alloc_mem_from_mempool [] ?mp ?bp = Some (Inr (), mp1, bp1, [])"
    using bs size s u
    by (simp add: alloc_mem_from_mempool_def alloc_mem_multi_in_one_def check_mempool_real_size_def Let_def)
  from alloc_mem_cases [OF al mp_wf_take_ref [OF wf]] obtain zs where zs: "bp1 = ?bp\<lparr>bp_mz_list := zs\<rparr>"
    "sum_list (map mz_blk_num zs) = n" using s by auto
  have "length (concat (map (zone_blocks bs) zs)) = n"
    by (simp only: length_zone_blocks_concat zs)
  then obtain elem where "write_elems (replicate n 0) 0 (concat (map (zone_blocks bs) zs)) = Some elem"
    by (auto simp: write_elems_spec)
  then show ?thesis using al zs ref spin n bs
    by (simp add: wd_blockpool_create_def wd_atomic_test_add_def Let_def init_blkpool_elem_def)
qed

subsection \<open>Histories of a block pool\<close>

text \<open>
  Any sequence of \<^verbatim>\<open>wd_block_alloc\<close> and \<^verbatim>\<open>wd_block_free\<close> calls in which a client gives back only
  blocks it holds; \<open>out\<close> lists the blocks in the hands of the clients.
\<close>

inductive block_run :: "blkpool \<Rightarrow> blkpool \<Rightarrow> nat list \<Rightarrow> bool" for bp0 where
  start: "block_run bp0 bp0 []"
| alloc: "block_run bp0 bp out \<Longrightarrow> wd_block_alloc (Some bp) = Some (Some a, Some bp') \<Longrightarrow>
    block_run bp0 bp' (a # out)"
| busy: "block_run bp0 bp out \<Longrightarrow> wd_block_alloc (Some bp) = Some (None, Some bp') \<Longrightarrow> block_run bp0 bp' out"
| free: "block_run bp0 bp out \<Longrightarrow> a \<in> set out \<Longrightarrow> wd_block_free (Some bp) a = Some (Some bp') \<Longrightarrow>
    block_run bp0 bp' (remove1 a out)"

lemma block_run_history:
  assumes "block_run bp0 bp out" and "bp_inv bp0"
  shows "blocks.history bp0 bp out"
  using assms
proof (induction rule: block_run.induct)
  case start
  show ?case by (rule blocks.history.start)
next
  case (alloc bp out a bp')
  have "block_pop bp = Some (a, bp')" using alloc.hyps(2) by (simp add: block_pop_def)
  with alloc show ?case by (blast intro: blocks.history.take)
next
  case (busy bp out bp')
  then have "bp_inv bp" using blocks.history_inv by blast
  with busy show ?case by (auto simp: wd_block_alloc_inv split: if_splits)
next
  case (free bp out a bp')
  then have hist: "blocks.history bp0 bp out" by blast
  note inv = blocks.history_inv [OF hist free.prems]
  from inv free.hyps have a: "a \<noteq> 0" by blast
  from blocks.history_can_give [OF hist free.prems free.hyps(2)] obtain q where q: "block_push bp a = Some q"
    by blast
  then have "q = bp'" using free.hyps(3) by (auto simp: block_push_def split: if_splits)
  with q show ?case using hist free.hyps(2) by (auto intro: blocks.history.give)
qed

lemma apart_neq: "0 < bs \<Longrightarrow> apart bs a c \<Longrightarrow> a \<noteq> c"
  by (auto simp: apart_def)

lemma apart_distinct: "0 < bs \<Longrightarrow> sorted_wrt (apart bs) xs \<Longrightarrow> distinct xs"
  by (induction xs) (auto dest: apart_neq)

subsection \<open>Running the model\<close>

lemma find_next_zero_bit_filter:
  assumes "bm_wf bm" and "start < bm_bits bm"
  shows "find_next_zero_bit bm start =
    (case filter (\<lambda>i. \<not> bm_get bm i) [start ..< bm_bits bm] of
       i # _ \<Rightarrow> Some i
     | [] \<Rightarrow> if bm_bits bm = bm_cap bm then None else Some (bm_bits bm))"
  using assms(1)
proof (cases rule: find_next_zero_bit_cases [where start = start])
  case (found i)
  have "[start ..< bm_bits bm] = [start ..< i] @ i # [Suc i ..< bm_bits bm]"
    using found by (metis upt_add_eq_append upt_conv_Cons le_add_diff_inverse less_imp_le)
  moreover have "filter (\<lambda>i. \<not> bm_get bm i) [start ..< i] = []" using found by (simp add: filter_empty_conv)
  ultimately show ?thesis using found by simp
next
  case full
  then have "filter (\<lambda>i. \<not> bm_get bm i) [start ..< bm_bits bm] = []" by (simp add: filter_empty_conv)
  with full find_next_zero_bit_none [OF assms] show ?thesis by auto
next
  case overrun
  then have "filter (\<lambda>i. \<not> bm_get bm i) [start ..< bm_bits bm] = []" by (simp add: filter_empty_conv)
  with overrun show ?thesis by simp
qed


declare wd_blockpool_create_def [model_eval] wd_atomic_test_add_def [model_eval] wd_atomic_sub_def [model_eval]
  wd_atomic_add_def [model_eval] alloc_mem_from_mempool_def [model_eval] alloc_mem_multi_in_one_def [model_eval]
  alloc_mem_one_need_multi_def [model_eval] check_mempool_real_size_def [model_eval]
  multi_in_one_loop.simps [model_eval] one_need_multi_loop.simps [model_eval]
  alloc_block_from_mempool_def [model_eval] find_run.simps [model_eval] find_next_zero_bit_filter [model_eval]
  bm_wf_def [model_eval] bm_cap_def [model_eval] bm_get_def [model_eval]
  wd_set_bit_def [model_eval] wd_clear_bit_def [model_eval] wd_test_bit_def [model_eval] BIT_MASK_def [model_eval]
  alloc_memzone_def [model_eval] init_blkpool_elem_def [model_eval] zone_blocks_def [model_eval]
  free_mem_to_mempool_nolock_def [model_eval] free_zone_def [model_eval]
  wd_block_alloc_def [model_eval] wd_block_free_def [model_eval]

lemma probe_run_numeral [model_eval]:
  "probe_run bm p (numeral k) =
    (case wd_test_bit bm (Suc p) of
       None \<Rightarrow> None
     | Some free \<Rightarrow> if free then probe_run bm (Suc p) (pred_numeral k) else Some (False, Suc p))"
  by (simp add: numeral_eq_Suc)

text \<open>A pool of 16 blocks of 4096 bytes, all free, on which the properties are instantiated.\<close>

definition pool16 :: mempool where
  "pool16 = \<lparr>mp_page_type = WD_HUGE_PAGE, mp_page_size = 2097152, mp_page_num = 1, mp_blk_size = 4096,
     mp_blk_num = 16, mp_node = 0, mp_addr = 65536, mp_size = 65536, mp_real_size = 65536,
     mp_bitmap = Some \<lparr>bm_map = [0], bm_bits = 16, bm_map_byte = 8\<rparr>, mp_ref = 1, mp_hp_list = [],
     mp_free_blk_num = 16\<rparr>"

definition pool16_taken :: mempool where
  "pool16_taken = pool16\<lparr>mp_real_size := 57344, mp_ref := 2, mp_free_blk_num := 14,
     mp_bitmap := Some \<lparr>bm_map = [3], bm_bits = 16, bm_map_byte = 8\<rparr>\<rparr>"

definition blkpool3 :: blkpool where
  "blkpool3 = \<lparr>bp_blk_elem = [65536, 67584, 69632], bp_depth = 3, bp_top = 3, bp_blk_size = 2048,
     bp_mz_list = [\<lparr>mz_addr = 65536, mz_blk_num = 2, mz_begin = 0, mz_end = 0\<rparr>,
                   \<lparr>mz_addr = 69632, mz_blk_num = 1, mz_begin = 1, mz_end = 1\<rparr>],
     bp_free_block_num = 3, bp_ref = 1\<rparr>"

lemma pool16_wf: "mp_wf pool16"
  by (simp add: mp_wf_def pool16_def bm_wf_def bm_cap_def)

lemma pool16_create: "wd_blockpool_create [] 0 (Some pool16) 2048 3 = Some (Inr blkpool3, Some pool16_taken, [])"
  by (simp add: model_eval pool16_def pool16_taken_def blkpool3_def)

lemma pool16_create_fail:
  "wd_blockpool_create [True, True, False] 0 (Some pool16) 2048 3 = Some (Inl WD_ENOMEM, Some pool16, [])"
  by (simp add: model_eval pool16_def)

lemma blkpool3_inv: "bp_inv blkpool3" "free_blocks blkpool3 = [65536, 67584, 69632]"
  by (simp_all add: bp_inv_def blkpool3_def free_blocks_def)

subsection \<open>Properties\<close>

text \<open>
  C15: whatever step of \<^verbatim>\<open>wd_blockpool_create\<close> fails (parameters, a busy pool, any of the memory
  allocations, lack of a run of free blocks half way through), the memory pool is left exactly as it
  was: bitmap, counters and reference count.
\<close>

theorem blockpool_create_fail_restores:
  assumes "mp_wf mp" and "wd_blockpool_create oks spin (Some mp) bs n = Some (Inl e, h, oks')"
  shows "h = Some mp"
  using assms(2,1) by (cases rule: create_cases) auto

theorem blockpool_create_fail_restores_witness:
  "mp_wf pool16 \<and>
   wd_blockpool_create [True, True, False] 0 (Some pool16) 2048 3 = Some (Inl WD_ENOMEM, Some pool16, []) \<and>
   Some pool16 = Some pool16"
  using blockpool_create_fail_restores [OF pool16_wf pool16_create_fail] pool16_wf pool16_create_fail by blast

text \<open>
  Creating a block pool and destroying it when every block has been given back restores the
  memory pool exactly, and the destruction does return.
\<close>

theorem blockpool_create_destroy:
  assumes "mp_wf mp" and "wd_blockpool_create oks spin (Some mp) bs n = Some (Inr bp, Some mp', oks')"
  shows "wd_blockpool_destroy mp' (Some bp) = Some mp"
  using assms(2,1)
proof (cases rule: create_cases)
  case (ok oks1 oks2 zs mp'' elem)
  have ref: "mp_ref mp < 2 ^ 32" using assms(1) by (simp add: mp_wf_def)
  have "free_mem_to_mempool_nolock mp' (bp\<lparr>bp_ref := 0\<rparr>) = Some (take_ref mp, bp\<lparr>bp_ref := 0, bp_mz_list := []\<rparr>)"
    using ok by (subst free_mem_carve [OF _ mp_wf_take_ref [OF assms(1)]]) simp_all
  moreover have "wd_atomic_sub (bp_ref bp) 1 = 0" using ok by (simp add: wd_atomic_sub_def c_int_simps)
  ultimately show ?thesis using drop_take_ref [OF ref]
    by (simp add: wd_blockpool_destroy_def Let_def)
qed simp

theorem blockpool_create_destroy_witness:
  "mp_wf pool16 \<and> wd_blockpool_create [] 0 (Some pool16) 2048 3 = Some (Inr blkpool3, Some pool16_taken, []) \<and>
   wd_blockpool_destroy pool16_taken (Some blkpool3) = Some pool16"
  using blockpool_create_destroy [OF pool16_wf pool16_create] pool16_wf pool16_create by blast

text \<open>
  C14: a successful creation of \<open>n\<close> blocks of \<open>bs\<close> bytes yields a well-formed block pool with \<open>n\<close> free
  blocks whose memory ranges are pairwise disjoint and lie inside the memory of the pool. The blocks are no
  larger than those of the memory pool, or the number of blocks of the memory pool fills the words of its
  map (is a multiple of 64); the blocks of the memory pool fit its size, and its memory the address space.
\<close>

theorem blockpool_create_layout:
  assumes "wd_blockpool_create oks spin (Some mp) bs n = Some (Inr bp, Some mp', oks')"
    and "mp_wf mp" and "mp_bitmap mp = Some bm" and "n < 2 ^ 31"
    and "bs \<le> bm_bits bm * mp_blk_size mp"
    and "mp_addr mp + bm_cap bm * mp_blk_size mp \<le> 2 ^ 64" and "0 < mp_addr mp"
    and "bs \<le> mp_blk_size mp \<or> bm_bits bm = bm_cap bm" and "bm_bits bm * mp_blk_size mp \<le> mp_size mp"
  shows "bp_inv bp \<and> length (free_blocks bp) = n \<and> sorted_wrt (apart bs) (free_blocks bp) \<and>
    list_all (\<lambda>a. mp_addr mp \<le> a \<and> a + bs \<le> mp_addr mp + mp_size mp) (free_blocks bp)"
proof -
  have "region_bits bm mp bs = bm_bits bm" using assms(8) by (auto simp: region_bits_def)
  with create_layout_aux [OF assms(1-7)] assms(9) show ?thesis by (force simp: list_all_iff)
qed

theorem blockpool_create_layout_witness:
  "wd_blockpool_create [] 0 (Some pool16) 2048 3 = Some (Inr blkpool3, Some pool16_taken, []) \<and> mp_wf pool16 \<and>
   sorted_wrt (apart 2048) (free_blocks blkpool3) \<and>
   list_all (\<lambda>a. 65536 \<le> a \<and> a + 2048 \<le> 131072) (free_blocks blkpool3)"
proof -
  have "mp_bitmap pool16 = Some \<lparr>bm_map = [0], bm_bits = 16, bm_map_byte = 8\<rparr>" by (simp add: pool16_def)
  from blockpool_create_layout [OF pool16_create pool16_wf this] show ?thesis
    using pool16_create pool16_wf by (simp add: pool16_def bm_cap_def)
qed

text \<open>
  C5: over any sequence of allocations and releases, no block is ever in the hands of two clients,
  a block in a client's hands is not in the pool, every block is accounted for, and the pool's
  reference count is one more than the number of blocks in use, so that destruction waits for
  exactly the blocks that are still out.
\<close>

theorem block_run_exclusive:
  assumes "block_run bp0 bp out" and "bp_inv bp0" and "distinct (free_blocks bp0)" and "bp_top bp0 = bp_depth bp0"
  shows "distinct out \<and> set out \<inter> set (free_blocks bp) = {} \<and>
    set out \<union> set (free_blocks bp) = set (free_blocks bp0) \<and> bp_ref bp = length out + 1"
proof -
  note hist = block_run_history [OF assms(1,2)]
  note inv = blocks.history_inv [OF hist assms(2)]
  from inv have ms: "mset (free_blocks bp @ out) = mset (free_blocks bp0)" by simp
  then have "set (free_blocks bp) \<union> set out = set (free_blocks bp0)" using mset_eq_setD [OF ms] by simp
  moreover have "length (free_blocks bp) + length out = length (free_blocks bp0)"
    using mset_eq_length [OF ms] by simp
  then have "bp_ref bp = length out + 1"
    using inv assms(2,4) by (auto simp: bp_inv_def free_blocks_def)
  ultimately show ?thesis using blocks.history_distinct [OF hist assms(2,3)] by blast
qed

theorem block_run_exclusive_witness:
  "\<exists>bp out. block_run blkpool3 bp out \<and> length out = 2 \<and> distinct out \<and> bp_ref bp = 3"
proof -
  define b1 where "b1 = blkpool3\<lparr>bp_top := 2, bp_free_block_num := 2, bp_ref := 2\<rparr>"
  define b2 where "b2 = blkpool3\<lparr>bp_top := 1, bp_free_block_num := 1, bp_ref := 3\<rparr>"
  have "wd_block_alloc (Some blkpool3) = Some (Some 69632, Some b1)"
    "wd_block_alloc (Some b1) = Some (Some 67584, Some b2)"
    by (simp_all add: model_eval blkpool3_def b1_def b2_def)
  then have run: "block_run blkpool3 b2 [67584, 69632]"
    by (blast intro: block_run.intros)
  have "distinct (free_blocks blkpool3)" "bp_top blkpool3 = bp_depth blkpool3"
    by (simp add: blkpool3_inv, simp add: blkpool3_def)
  from block_run_exclusive [OF run blkpool3_inv(1) this] run show ?thesis
    by (intro exI [of _ b2] exI [of _ "[67584, 69632]"]) simp
qed

text \<open>
  C37: creating \<open>n\<close> blocks of at most the pool's block size succeeds when there is room: the pool is not
  being destroyed, its accounted size and its clear bits are enough for the blocks, no memory allocation
  fails and the lock can be initialised. In particular the search never leaves the bitmap on the way.
\<close>

theorem blockpool_create_succeeds:
  assumes "mp_wf mp" and "mp_bitmap mp = Some bm" and "0 < mp_ref mp" and "0 \<le> spin"
    and "0 < n" and "n < 2 ^ 31" and "0 < bs" and "bs \<le> mp_blk_size mp" and "mp_blk_size mp < 2 ^ 31"
    and "bs * n \<le> mp_real_size mp"
    and "n \<le> length (filter (\<lambda>i. \<not> bm_get bm i) [0 ..< bm_bits bm]) * (mp_blk_size mp div bs)"
  shows "\<exists>bp mp'. wd_blockpool_create [] spin (Some mp) bs n = Some (Inr bp, Some mp', [])"
proof -
  have "card (clear_from bm 0) = length (filter (\<lambda>i. \<not> bm_get bm i) [0 ..< bm_bits bm])"
    by (subst distinct_card [symmetric]) (auto simp: clear_from_def intro: arg_cong [of _ _ card])
  with assms(11) show ?thesis by (intro create_room_aux [OF assms(1-10)]) simp
qed

theorem blockpool_create_succeeds_witness:
  "\<exists>bp mp'. wd_blockpool_create [] 0 (Some pool16) 2048 32 = Some (Inr bp, Some mp', [])"
proof -
  have "mp_bitmap pool16 = Some \<lparr>bm_map = [0], bm_bits = 16, bm_map_byte = 8\<rparr>" by (simp add: pool16_def)
  from blockpool_create_succeeds [OF pool16_wf this, of 0 32 2048] show ?thesis
    by (simp add: pool16_def bm_get_def)
qed

text \<open>
  The search for a free block returns the first clear bit at or after the start position when
  there is one before \<open>bits\<close>, and \<open>bits\<close> when there is none, except that it leaves the map (no
  defined outcome) when \<open>bits\<close> fills the map's last word and nothing is found.
\<close>

theorem find_next_zero_bit_spec:
  assumes "bm_wf bm" and "start < bm_bits bm"
  shows "find_next_zero_bit bm start =
    (case filter (\<lambda>i. \<not> bm_get bm i) [start ..< bm_bits bm] of
       i # _ \<Rightarrow> Some i
     | [] \<Rightarrow> if bm_bits bm = bm_cap bm then None else Some (bm_bits bm))"
  using assms by (rule find_next_zero_bit_filter)

definition bitmap_full :: bitmap where
  "bitmap_full = \<lparr>bm_map = [- 1], bm_bits = 64, bm_map_byte = 8\<rparr>"

theorem find_next_zero_bit_spec_witness:
  "find_next_zero_bit \<lparr>bm_map = [5], bm_bits = 16, bm_map_byte = 8\<rparr> 2 = Some 3 \<and>
   find_next_zero_bit bitmap_full 3 = None"
proof
  have "bm_get \<lparr>bm_map = [5], bm_bits = 16, bm_map_byte = 8\<rparr> 2"
    "\<not> bm_get \<lparr>bm_map = [5], bm_bits = 16, bm_map_byte = 8\<rparr> 3"
    by (simp_all add: bm_get_def bit_numeral_rec)
  then show "find_next_zero_bit \<lparr>bm_map = [5], bm_bits = 16, bm_map_byte = 8\<rparr> 2 = Some 3"
    by (subst find_next_zero_bit_spec)
      (simp_all add: bm_wf_def bm_cap_def upt_rec [of 2] upt_rec [of 3] upt_rec [of "Suc 2"])
  show "find_next_zero_bit bitmap_full 3 = None"
    by (subst find_next_zero_bit_spec)
      (simp_all add: bitmap_full_def bm_wf_def bm_cap_def bm_get_def filter_empty_conv)
qed

text \<open>\<^verbatim>\<open>wd_ffs\<close> returns the position of the lowest set bit of a non-zero word.\<close>

theorem wd_ffs_least:
  assumes "w \<noteq> 0"
  shows "wd_ffs w < 64 \<and> bit w (wd_ffs w) \<and> (\<forall>i < wd_ffs w. \<not> bit w i)"
  using wd_ffs_correct [OF assms] wd_ffs_less_64 [OF assms] by blast

theorem wd_ffs_least_witness: "wd_ffs 40 < 64 \<and> bit (40 :: 64 word) (wd_ffs 40)"
  using wd_ffs_least [of 40] by simp

text \<open>
  For blocks larger than the pool's block size the search for a run is not bounded by the number of
  blocks of the pool: on a pool of 5 blocks of 4096 bytes, two blocks of 8193 bytes (6 pool blocks) are
  granted, and the run of the second one ends at position 5, one pool block behind the end of the pool.
\<close>

definition pool5 :: mempool where
  "pool5 = pool16\<lparr>mp_blk_num := 5, mp_size := 20480, mp_real_size := 20480, mp_free_blk_num := 5,
     mp_bitmap := Some \<lparr>bm_map = [0], bm_bits = 5, bm_map_byte = 8\<rparr>\<rparr>"

theorem blockpool_run_past_end:
  "case wd_blockpool_create [] 0 (Some pool5) 8193 2 of
      Some (Inr bp, _) \<Rightarrow> map (\<lambda>z. (mz_begin z, mz_end z)) (bp_mz_list bp) = [(0, 2), (3, 5)]
    | _ \<Rightarrow> False"
  by (simp add: model_eval pool16_def pool5_def)

end
