(* ===== verification/Alg_Registry.thy ===== *)
theory Alg_Registry
  imports Uadk_Interfaces
begin

text \<open>
  The driver registry of \<^verbatim>\<open>wd_alg.c\<close>: the list of driver nodes with their algorithm arrays,
  registration and removal, availability, driver selection by type and priority, discovery of the
  drivers of an algorithm class, and the reference counts.

  The node list after the static head is a list in list order; \<^verbatim>\<open>tail\<close> is its last element. A
  pointer to a driver is the field \<open>dr_ptr\<close> of the driver record. What the system offers (the auxiliary
  vector on an aarch64 machine, the entries of \<^verbatim>\<open>/sys/class/uacce\<close>) is the record \<open>sysenv\<close>. The registry
  mutex serialises the operations. Fixed-size name buffers truncate as \<^verbatim>\<open>strncpy\<close> does.
\<close>

subsection \<open>Constants and state\<close>

definition UADK_ALG_HW :: int where "UADK_ALG_HW = 0"
definition UADK_ALG_CE_INSTR :: int where "UADK_ALG_CE_INSTR = 1"
definition UADK_ALG_SVE_INSTR :: int where "UADK_ALG_SVE_INSTR = 2"
definition UADK_ALG_SOFT :: int where "UADK_ALG_SOFT = 3"
definition UADK_ALG_TYPE_MAX :: nat where "UADK_ALG_TYPE_MAX = 6"
definition MAX_DRV_ALG_NUM :: nat where "MAX_DRV_ALG_NUM = 64"
definition ALG_NAME_SIZE :: nat where "ALG_NAME_SIZE = 128"
definition DEV_NAME_LEN :: nat where "DEV_NAME_LEN = 128"

lemmas uadk_alg_consts = UADK_ALG_HW_def UADK_ALG_CE_INSTR_def UADK_ALG_SVE_INSTR_def UADK_ALG_SOFT_def

datatype alg_drv_type = ALG_DRV_HW | ALG_DRV_CE_INS | ALG_DRV_SVE_INS | ALG_DRV_SOFT | ALG_DRV_INS | ALG_DRV_FB

datatype alg_task_type = TASK_MIX | TASK_HW | TASK_INSTR | TASK_MAX_TYPE

record wd_alg_driver =
  dr_ptr :: nat
  dr_drv_name :: string
  dr_alg_name :: string
  dr_priority :: int
  dr_calc_type :: int
  dr_init :: bool
  dr_exit :: bool
  dr_send :: bool
  dr_recv :: bool

record wd_alg_entry =
  ae_alg_name :: string
  ae_available :: bool

record wd_drv_node =
  dn_drv_name :: string
  dn_alg_type :: string
  dn_priority :: int
  dn_calc_type :: int
  dn_refcnt :: nat
  dn_drv :: wd_alg_driver
  dn_algs :: "wd_alg_entry list"

record wd_alg_registry =
  rg_nodes :: "wd_drv_node list"
  rg_drv_type_num :: nat

text \<open>A context as the framework keeps it (\<^verbatim>\<open>wd_internal.h\<close>), with the driver it is bound to.\<close>

record wd_ctx_internal =
  ci_op_type :: nat
  ci_ctx_mode :: nat
  ci_ctx_type :: nat
  ci_ctx_used :: nat
  ci_ctx :: nat
  ci_sqn :: nat
  ci_drv :: "wd_alg_driver option"
  ci_drv_priv :: "nat option"

record sysenv =
  env_hwcap :: nat
  env_uacce_devs :: "string list option"

subsection \<open>Algorithm classes and availability\<close>

definition alg_options :: "(string \<times> string) list" where
  "alg_options = [
    (''zlib'', ''zlib''), (''gzip'', ''gzip''), (''deflate'', ''deflate''),
    (''lz77_zstd'', ''lz77_zstd''), (''lz4'', ''lz4''), (''lz77_only'', ''lz77_only''),
    (''hashagg'', ''hashagg''), (''udma'', ''udma''), (''hashjoin'', ''hashjoin''),
    (''gather'', ''gather''), (''join-gather'', ''hashjoin''), (''rsa'', ''rsa''),
    (''dh'', ''dh''), (''ecdh'', ''ecdh''), (''x25519'', ''x25519''), (''x448'', ''x448''),
    (''ecdsa'', ''ecdsa''), (''sm2'', ''sm2''), (''ecb(aes)'', ''cipher''),
    (''cbc(aes)'', ''cipher''), (''xts(aes)'', ''cipher''), (''ofb(aes)'', ''cipher''),
    (''cfb(aes)'', ''cipher''), (''ctr(aes)'', ''cipher''), (''cbc-cs1(aes)'', ''cipher''),
    (''cbc-cs2(aes)'', ''cipher''), (''cbc-cs3(aes)'', ''cipher''), (''ecb(sm4)'', ''cipher''),
    (''xts(sm4)'', ''cipher''), (''cbc(sm4)'', ''cipher''), (''ofb(sm4)'', ''cipher''),
    (''cfb(sm4)'', ''cipher''), (''ctr(sm4)'', ''cipher''), (''cbc-cs1(sm4)'', ''cipher''),
    (''cbc-cs2(sm4)'', ''cipher''), (''cbc-cs3(sm4)'', ''cipher''), (''ecb(des)'', ''cipher''),
    (''cbc(des)'', ''cipher''), (''ecb(des3_ede)'', ''cipher''), (''cbc(des3_ede)'', ''cipher''),
    (''ccm(aes)'', ''aead''), (''gcm(aes)'', ''aead''), (''ccm(sm4)'', ''aead''),
    (''gcm(sm4)'', ''aead''), (''authenc(generic,cbc(aes))'', ''aead''),
    (''authenc(generic,cbc(sm4))'', ''aead''), (''sm3'', ''digest''), (''md5'', ''digest''),
    (''sha1'', ''digest''), (''sha256'', ''digest''), (''sha224'', ''digest''),
    (''sha384'', ''digest''), (''sha512'', ''digest''), (''sha512-224'', ''digest''),
    (''sha512-256'', ''digest''), (''cmac(aes)'', ''digest''), (''gmac(aes)'', ''digest''),
    (''xcbc-mac-96(aes)'', ''digest''), (''xcbc-prf-128(aes)'', ''digest''), ('''', '''')
  ]"

definition wd_get_alg_type :: "string \<Rightarrow> string result" where
  "wd_get_alg_type alg_name =
    (case map_of alg_options alg_name of None \<Rightarrow> Inl WD_EINVAL | Some ty \<Rightarrow> Inr ty)"

definition str_prefix :: "string \<Rightarrow> string \<Rightarrow> bool" where
  "str_prefix p s \<longleftrightarrow> take (length p) s = p"

definition wd_check_accel_dev :: "sysenv \<Rightarrow> string \<Rightarrow> bool" where
  "wd_check_accel_dev env dev_name =
    (case env_uacce_devs env of
       None \<Rightarrow> False
     | Some ds \<Rightarrow> list_ex (\<lambda>d. \<not> (str_prefix ''.'' d \<or> str_prefix ''..'' d) \<and> str_prefix dev_name d) ds)"

definition HWCAP_CE_SM3 :: nat where "HWCAP_CE_SM3 = 18"
definition HWCAP_CE_SM4 :: nat where "HWCAP_CE_SM4 = 19"
definition HWCAP_SVE :: nat where "HWCAP_SVE = 22"

text \<open>The capability masks are single bits; the constants are their positions.\<close>

definition wd_check_ce_support :: "sysenv \<Rightarrow> string \<Rightarrow> bool" where
  "wd_check_ce_support env alg_name =
    (if alg_name = ''sm3'' \<and> bit (env_hwcap env) HWCAP_CE_SM3 then True
     else if length alg_name \<le> length ''(sm4)'' then False
     else drop (length alg_name - length ''(sm4)'') alg_name = ''(sm4)'' \<and> bit (env_hwcap env) HWCAP_CE_SM4)"

definition wd_check_sve_support :: "sysenv \<Rightarrow> bool" where
  "wd_check_sve_support env = bit (env_hwcap env) HWCAP_SVE"

definition wd_alg_check_available :: "sysenv \<Rightarrow> int \<Rightarrow> string \<Rightarrow> string \<Rightarrow> bool" where
  "wd_alg_check_available env calc_type alg_name dev_name =
    (if calc_type = UADK_ALG_SOFT then False
     else if calc_type = UADK_ALG_CE_INSTR then wd_check_ce_support env alg_name
     else if calc_type = UADK_ALG_SVE_INSTR then wd_check_sve_support env
     else if calc_type = UADK_ALG_HW then wd_check_accel_dev env dev_name
     else False)"

fun wd_alg_drv_type_match :: "alg_task_type \<Rightarrow> int \<Rightarrow> bool" where
  "wd_alg_drv_type_match TASK_HW drv_calc_type = (drv_calc_type = UADK_ALG_HW)"
| "wd_alg_drv_type_match TASK_INSTR drv_calc_type = (drv_calc_type \<noteq> UADK_ALG_HW)"
| "wd_alg_drv_type_match TASK_MIX drv_calc_type = True"
| "wd_alg_drv_type_match TASK_MAX_TYPE drv_calc_type = False"

subsection \<open>Registration\<close>

text \<open>The loops that search the list for a node and change it in place.\<close>

fun update_first :: "('a \<Rightarrow> bool) \<Rightarrow> ('a \<Rightarrow> 'a) \<Rightarrow> 'a list \<Rightarrow> 'a list" where
  "update_first P f [] = []"
| "update_first P f (x # xs) = (if P x then f x # xs else x # update_first P f xs)"

definition same_node :: "string \<Rightarrow> string \<Rightarrow> wd_drv_node \<Rightarrow> bool" where
  "same_node drv_name alg_type node \<longleftrightarrow> dn_drv_name node = drv_name \<and> dn_alg_type node = alg_type"

definition wd_alg_driver_register ::
  "sysenv \<Rightarrow> bool list \<Rightarrow> wd_alg_driver option \<Rightarrow> wd_alg_registry \<Rightarrow> unit result \<times> wd_alg_registry" where
  "wd_alg_driver_register env oks drv rg =
    (case drv of
       None \<Rightarrow> (Inl WD_EINVAL, rg)
     | Some drv \<Rightarrow>
         if \<not> dr_init drv \<or> \<not> dr_exit drv \<or> \<not> dr_send drv \<or> \<not> dr_recv drv then (Inl WD_EINVAL, rg)
         else case wd_get_alg_type (dr_alg_name drv) of
             Inl _ \<Rightarrow> (Inl WD_EINVAL, rg)
           | Inr alg_type \<Rightarrow>
               (case List.find (same_node (dr_drv_name drv) alg_type) (rg_nodes rg) of
                  Some target \<Rightarrow>
                    if dn_alg_type target \<noteq> alg_type \<or> dn_priority target \<noteq> dr_priority drv \<or>
                       dn_calc_type target \<noteq> dr_calc_type drv then (Inl WD_EINVAL, rg)
                    else if list_ex (\<lambda>a. ae_alg_name a = dr_alg_name drv) (dn_algs target) then (Inr (), rg)
                    else if length (dn_algs target) \<ge> MAX_DRV_ALG_NUM then (Inl WD_ENOMEM, rg)
                    else if \<not> wd_alg_check_available env (dr_calc_type drv) (dr_alg_name drv) (dr_drv_name drv)
                    then (Inl WD_ENODEV, rg)
                    else (Inr (), rg\<lparr>rg_nodes := update_first (same_node (dr_drv_name drv) alg_type)
                           (\<lambda>n. n\<lparr>dn_algs := dn_algs n @
                              [\<lparr>ae_alg_name = take (ALG_NAME_SIZE - 1) (dr_alg_name drv), ae_available = True\<rparr>]\<rparr>)
                           (rg_nodes rg)\<rparr>)
                | None \<Rightarrow>
                    (let (ok, oks) = calloc_ok oks in
                     if \<not> ok then (Inl WD_ENOMEM, rg)
                     else if \<not> wd_alg_check_available env (dr_calc_type drv) (dr_alg_name drv) (dr_drv_name drv)
                     then (Inl WD_ENODEV, rg)
                     else
                       (let node = \<lparr>dn_drv_name = take (DEV_NAME_LEN - 1) (dr_drv_name drv),
                              dn_alg_type = take (ALG_NAME_SIZE - 1) alg_type,
                              dn_priority = dr_priority drv, dn_calc_type = dr_calc_type drv,
                              dn_refcnt = 0, dn_drv = drv,
                              dn_algs = [\<lparr>ae_alg_name = take (ALG_NAME_SIZE - 1) (dr_alg_name drv),
                                          ae_available = True\<rparr>]\<rparr> in
                        (Inr (), rg\<lparr>rg_nodes := rg_nodes rg @ [node],
                                    rg_drv_type_num := rg_drv_type_num rg + 1\<rparr>)))))"

text \<open>The removed entry's slot is filled with the last entry.\<close>

fun remove_alg :: "string \<Rightarrow> wd_alg_entry list \<Rightarrow> wd_alg_entry list" where
  "remove_alg alg_name [] = []"
| "remove_alg alg_name (a # as) =
    (if ae_alg_name a = alg_name then (if as = [] then [] else last as # butlast as)
     else a # remove_alg alg_name as)"

fun remove_first :: "('a \<Rightarrow> bool) \<Rightarrow> 'a list \<Rightarrow> 'a list" where
  "remove_first P [] = []"
| "remove_first P (x # xs) = (if P x then xs else x # remove_first P xs)"

definition wd_alg_driver_unregister :: "wd_alg_driver option \<Rightarrow> wd_alg_registry \<Rightarrow> wd_alg_registry" where
  "wd_alg_driver_unregister drv rg =
    (case drv of
       None \<Rightarrow> rg
     | Some drv \<Rightarrow>
         if rg_nodes rg = [] then rg
         else case wd_get_alg_type (dr_alg_name drv) of
             Inl _ \<Rightarrow> rg
           | Inr alg_type \<Rightarrow>
               (let P = same_node (dr_drv_name drv) alg_type in
                case List.find P (rg_nodes rg) of
                  None \<Rightarrow> rg
                | Some node \<Rightarrow>
                    (let algs = remove_alg (dr_alg_name drv) (dn_algs node) in
                     if algs = [] then
                       rg\<lparr>rg_nodes := remove_first P (rg_nodes rg),
                          rg_drv_type_num := (if rg_drv_type_num rg > 0 then rg_drv_type_num rg - 1 else 0)\<rparr>
                     else rg\<lparr>rg_nodes := update_first P (\<lambda>n. n\<lparr>dn_algs := algs\<rparr>) (rg_nodes rg)\<rparr>)))"

subsection \<open>Queries\<close>

definition alg_offered :: "string \<Rightarrow> wd_drv_node \<Rightarrow> bool" where
  "alg_offered alg_name node \<longleftrightarrow> list_ex (\<lambda>a. ae_alg_name a = alg_name \<and> ae_available a) (dn_algs node)"

definition wd_alg_match_drv :: "wd_alg_registry \<Rightarrow> wd_alg_driver option \<Rightarrow> string option \<Rightarrow> bool" where
  "wd_alg_match_drv rg drv alg_name =
    (case (drv, alg_name) of
       (Some drv, Some alg_name) \<Rightarrow>
         (case List.find (\<lambda>n. dr_ptr (dn_drv n) = dr_ptr drv) (rg_nodes rg) of
            None \<Rightarrow> False
          | Some node \<Rightarrow> alg_offered alg_name node)
     | _ \<Rightarrow> False)"

text \<open>\<open>ctx_drvs\<close> lists the drivers of the contexts of the configuration (\<open>None\<close> for \<^verbatim>\<open>NULL\<close>).\<close>

definition wd_drv_alg_support :: "wd_alg_registry \<Rightarrow> string \<Rightarrow> wd_alg_driver option list \<Rightarrow> bool" where
  "wd_drv_alg_support rg alg_name ctx_drvs =
    list_ex (\<lambda>d. case d of None \<Rightarrow> False
      | Some drv \<Rightarrow> list_ex (\<lambda>n. dr_drv_name drv = dn_drv_name n \<and> alg_offered alg_name n) (rg_nodes rg)) ctx_drvs"

definition wd_enable_drv :: "sysenv \<Rightarrow> wd_alg_driver option \<Rightarrow> wd_alg_registry \<Rightarrow> wd_alg_registry" where
  "wd_enable_drv env drv rg =
    (case drv of
       None \<Rightarrow> rg
     | Some drv \<Rightarrow>
         rg\<lparr>rg_nodes := update_first (\<lambda>n. dr_drv_name drv = dn_drv_name n)
             (\<lambda>n. n\<lparr>dn_algs := map (\<lambda>a. a\<lparr>ae_available :=
                wd_alg_check_available env (dn_calc_type n) (ae_alg_name a) (dn_drv_name n)\<rparr>) (dn_algs n)\<rparr>)
             (rg_nodes rg)\<rparr>)"

definition wd_disable_drv :: "wd_alg_driver option \<Rightarrow> wd_alg_registry \<Rightarrow> wd_alg_registry" where
  "wd_disable_drv drv rg =
    (case drv of
       None \<Rightarrow> rg
     | Some drv \<Rightarrow>
         rg\<lparr>rg_nodes := update_first (\<lambda>n. dr_drv_name drv = dn_drv_name n)
             (\<lambda>n. n\<lparr>dn_algs := map (\<lambda>a. a\<lparr>ae_available := False\<rparr>) (dn_algs n)\<rparr>) (rg_nodes rg)\<rparr>)"

definition drv_type_matches :: "alg_drv_type \<Rightarrow> int \<Rightarrow> bool" where
  "drv_type_matches drv_type calc_type =
    (if drv_type = ALG_DRV_HW \<and> calc_type = UADK_ALG_HW then True
     else if drv_type = ALG_DRV_CE_INS \<and> calc_type = UADK_ALG_CE_INSTR then True
     else if drv_type = ALG_DRV_SVE_INS \<and> calc_type = UADK_ALG_SVE_INSTR then True
     else if drv_type = ALG_DRV_INS \<and> (calc_type = UADK_ALG_CE_INSTR \<or> calc_type = UADK_ALG_SVE_INSTR) then True
     else if drv_type = ALG_DRV_SOFT \<and> calc_type \<noteq> UADK_ALG_HW then True
     else if drv_type = ALG_DRV_FB \<and> (calc_type = UADK_ALG_SOFT \<or> calc_type = UADK_ALG_CE_INSTR) then True
     else False)"

fun request_scan ::
  "string \<Rightarrow> alg_drv_type \<Rightarrow> wd_drv_node list \<Rightarrow> wd_alg_driver option \<Rightarrow> int \<Rightarrow> wd_alg_driver option" where
  "request_scan alg_name drv_type [] drv tmp_priority = drv"
| "request_scan alg_name drv_type (node # nodes) drv tmp_priority =
    (if drv_type_matches drv_type (dn_calc_type node) \<and> dr_priority (dn_drv node) > tmp_priority \<and>
        alg_offered alg_name node
     then request_scan alg_name drv_type nodes (Some (dn_drv node)) (dr_priority (dn_drv node))
     else request_scan alg_name drv_type nodes drv tmp_priority)"

definition add_ref :: "wd_alg_driver \<Rightarrow> wd_drv_node list \<Rightarrow> wd_drv_node list" where
  "add_ref drv nodes =
    update_first (\<lambda>n. dr_ptr (dn_drv n) = dr_ptr drv) (\<lambda>n. n\<lparr>dn_refcnt := dn_refcnt n + 1\<rparr>) nodes"

definition wd_request_drv ::
  "wd_alg_registry \<Rightarrow> string option \<Rightarrow> alg_drv_type \<Rightarrow> wd_alg_driver option \<times> wd_alg_registry" where
  "wd_request_drv rg alg_name drv_type =
    (if rg_nodes rg = [] then (None, rg)
     else case alg_name of
         None \<Rightarrow> (None, rg)
       | Some alg_name \<Rightarrow>
           (let drv = request_scan alg_name drv_type (rg_nodes rg) None (- 1) in
            case drv of
              None \<Rightarrow> (None, rg)
            | Some d \<Rightarrow> (Some d, rg\<lparr>rg_nodes := add_ref d (rg_nodes rg)\<rparr>)))"

text \<open>
  The traversal of \<^verbatim>\<open>wd_get_drv_array\<close>: when \<open>drv_name\<close> is given and a node of the right class and type has
  another name, the loop continues without moving to the next node, so it does not end (\<open>None\<close>).
\<close>

fun drv_array_scan ::
  "string \<Rightarrow> alg_task_type \<Rightarrow> string option \<Rightarrow> nat \<Rightarrow> wd_drv_node list \<Rightarrow> wd_alg_driver list
    \<Rightarrow> wd_alg_driver list result option" where
  "drv_array_scan alg_type task_type drv_name max_count [] drivers = Some (Inr drivers)"
| "drv_array_scan alg_type task_type drv_name max_count (node # nodes) drivers =
    (if dn_alg_type node = alg_type \<and> wd_alg_drv_type_match task_type (dn_calc_type node) then
       (if drv_name \<noteq> None \<and> drv_name \<noteq> Some (dn_drv_name node) then None
        else if \<not> list_ex ae_available (dn_algs node)
        then drv_array_scan alg_type task_type drv_name max_count nodes drivers
        else if length drivers \<ge> max_count then Some (Inl WD_EINVAL)
        else drv_array_scan alg_type task_type drv_name max_count nodes (drivers @ [dn_drv node]))
     else drv_array_scan alg_type task_type drv_name max_count nodes drivers)"

definition wd_get_drv_array ::
  "bool list \<Rightarrow> wd_alg_registry \<Rightarrow> string \<Rightarrow> alg_task_type \<Rightarrow> string option
    \<Rightarrow> wd_alg_driver list result option" where
  "wd_get_drv_array oks rg alg_type task_type drv_name =
    (if rg_drv_type_num rg = 0 then Some (Inl WD_EINVAL)
     else if \<not> fst (calloc_ok oks) then Some (Inl WD_ENOMEM)
     else case drv_array_scan alg_type task_type drv_name (rg_drv_type_num rg) (rg_nodes rg) [] of
         None \<Rightarrow> None
       | Some (Inl e) \<Rightarrow> Some (Inl e)
       | Some (Inr drivers) \<Rightarrow> if drivers = [] then Some (Inl WD_EINVAL) else Some (Inr drivers))"

definition wd_alg_drv_ref_inc :: "wd_alg_driver option list \<Rightarrow> wd_alg_registry \<Rightarrow> wd_alg_registry" where
  "wd_alg_drv_ref_inc drv_array rg =
    foldl (\<lambda>rg d. case d of None \<Rightarrow> rg | Some drv \<Rightarrow> rg\<lparr>rg_nodes := add_ref drv (rg_nodes rg)\<rparr>) rg drv_array"

definition drop_ref_node :: "wd_alg_driver \<Rightarrow> wd_drv_node list \<Rightarrow> wd_drv_node list" where
  "drop_ref_node drv nodes =
    update_first (\<lambda>n. dr_ptr (dn_drv n) = dr_ptr drv \<and> dn_refcnt n > 0) (\<lambda>n. n\<lparr>dn_refcnt := dn_refcnt n - 1\<rparr>) nodes"

definition wd_alg_drv_ref_dec :: "wd_alg_driver option list \<Rightarrow> wd_alg_registry \<Rightarrow> wd_alg_registry" where
  "wd_alg_drv_ref_dec drv_array rg =
    foldl (\<lambda>rg d. case d of None \<Rightarrow> rg | Some drv \<Rightarrow> rg\<lparr>rg_nodes := drop_ref_node drv (rg_nodes rg)\<rparr>) rg drv_array"

text \<open>
  \<^verbatim>\<open>wd_alg_get_dev_usage\<close>: \<open>get_usage\<close> gives the driver's callback (\<open>None\<close> when the driver has none).
\<close>

fun str_occurs :: "string \<Rightarrow> string \<Rightarrow> bool" where
  "str_occurs p [] = (p = [])"
| "str_occurs p (c # cs) = (str_prefix p (c # cs) \<or> str_occurs p cs)"

definition wd_alg_get_dev_usage ::
  "(wd_alg_driver \<Rightarrow> (string \<Rightarrow> nat \<Rightarrow> int) option) \<Rightarrow> wd_alg_registry \<Rightarrow> string option \<Rightarrow> string option \<Rightarrow> nat
    \<Rightarrow> int result" where
  "wd_alg_get_dev_usage get_usage rg dev_name alg_type alg_op_type =
    (case (dev_name, alg_type) of
       (Some dev_name, Some alg_type) \<Rightarrow>
         (case List.find (\<lambda>n. str_occurs (dn_drv_name n) dev_name \<and> alg_type = dn_alg_type n) (rg_nodes rg) of
            None \<Rightarrow> Inl WD_EACCES
          | Some node \<Rightarrow>
              (case get_usage (dn_drv node) of
                 None \<Rightarrow> Inl WD_EINVAL
               | Some f \<Rightarrow> Inr (f dev_name alg_op_type)))
     | _ \<Rightarrow> Inl WD_EINVAL)"

subsection \<open>Searching and updating the list\<close>

lemma update_first_map:
  assumes "\<And>x. g (f x) = g x"
  shows "map g (update_first P f xs) = map g xs"
  using assms by (induction xs) auto

lemma update_first_none: "\<not> (\<exists>x \<in> set xs. P x) \<Longrightarrow> update_first P f xs = xs"
  by (induction xs) auto

lemma set_update_first: "set (update_first P f xs) \<subseteq> set xs \<union> f ` {x \<in> set xs. P x}"
  by (induction xs) auto

lemma update_first_id: "(\<And>x. P x \<Longrightarrow> f x = x) \<Longrightarrow> update_first P f xs = xs"
  by (induction xs) auto

lemma update_first_twice:
  assumes "\<And>x. P (f x) = P x"
  shows "update_first P g (update_first P f xs) = update_first P (g \<circ> f) xs"
  using assms by (induction xs) auto

lemma update_first_cong:
  "(\<And>x. List.find P xs = Some x \<Longrightarrow> f x = g x) \<Longrightarrow> update_first P f xs = update_first P g xs"
  by (induction xs) auto

lemma remove_first_append: "\<not> (\<exists>x \<in> set xs. P x) \<Longrightarrow> P y \<Longrightarrow> remove_first P (xs @ [y]) = xs"
  by (induction xs) auto

lemma find_append_none: "\<not> (\<exists>x \<in> set xs. P x) \<Longrightarrow> List.find P (xs @ [y]) = (if P y then Some y else None)"
  by (induction xs) auto

lemma find_update_first:
  "List.find P xs = Some x \<Longrightarrow> P (f x) \<Longrightarrow> List.find P (update_first P f xs) = Some (f x)"
  by (induction xs) (auto split: if_splits)

lemma remove_first_subset: "set (remove_first P xs) \<subseteq> set xs"
  by (induction xs) auto

lemma distinct_remove_first: "distinct (map g xs) \<Longrightarrow> distinct (map g (remove_first P xs))"
proof (induction xs)
  case (Cons x xs)
  have "g ` set (remove_first P xs) \<subseteq> g ` set xs" using remove_first_subset by (rule image_mono)
  with Cons show ?case by auto
qed simp

lemma length_remove_first: "\<exists>x \<in> set xs. P x \<Longrightarrow> length (remove_first P xs) = length xs - 1"
  by (induction xs) (auto, metis length_pos_if_in_set Suc_pred)

lemma remove_alg_append:
  "\<not> (\<exists>a \<in> set as. ae_alg_name a = n) \<Longrightarrow> ae_alg_name b = n \<Longrightarrow> remove_alg n (as @ [b]) = as"
  by (induction as) auto

lemma remove_alg_perm:
  "distinct (map ae_alg_name as) \<Longrightarrow> mset (remove_alg n as) = mset (filter (\<lambda>a. ae_alg_name a \<noteq> n) as)"
proof (induction as)
  case (Cons a as)
  show ?case
  proof (cases "ae_alg_name a = n")
    case True
    have "mset (if as = [] then [] else last as # butlast as) = mset as"
      by (cases as rule: rev_cases) auto
    moreover have "ae_alg_name a \<notin> ae_alg_name ` set as" using Cons.prems by simp
    then have "filter (\<lambda>a. ae_alg_name a \<noteq> n) as = as" using True by (intro filter_True) (metis imageI)
    ultimately show ?thesis using True by simp
  next
    case False
    then show ?thesis using Cons by simp
  qed
qed simp

lemma remove_alg_distinct:
  assumes "distinct (map ae_alg_name as)"
  shows "distinct (map ae_alg_name (remove_alg n as))" and "length (remove_alg n as) \<le> length as"
proof -
  let ?f = "filter (\<lambda>a. ae_alg_name a \<noteq> n) as"
  from remove_alg_perm [OF assms] have "mset (map ae_alg_name (remove_alg n as)) = mset (map ae_alg_name ?f)"
    by simp
  then show "distinct (map ae_alg_name (remove_alg n as))"
    using mset_eq_imp_distinct_iff distinct_map_filter [OF assms] by blast
  show "length (remove_alg n as) \<le> length as"
    using mset_eq_length [OF remove_alg_perm [OF assms]] by simp
qed

subsection \<open>The invariant of the registry\<close>

definition node_key :: "wd_drv_node \<Rightarrow> string \<times> string" where
  "node_key n = (dn_drv_name n, dn_alg_type n)"

definition node_inv :: "wd_drv_node \<Rightarrow> bool" where
  "node_inv n \<longleftrightarrow> dn_algs n \<noteq> [] \<and> length (dn_algs n) \<le> MAX_DRV_ALG_NUM \<and>
     distinct (map ae_alg_name (dn_algs n)) \<and>
     dn_drv_name n = dr_drv_name (dn_drv n) \<and> dn_priority n = dr_priority (dn_drv n) \<and>
     dn_calc_type n = dr_calc_type (dn_drv n) \<and>
     wd_get_alg_type (dr_alg_name (dn_drv n)) = Inr (dn_alg_type n)"

definition rg_inv :: "wd_alg_registry \<Rightarrow> bool" where
  "rg_inv rg \<longleftrightarrow> rg_drv_type_num rg = length (rg_nodes rg) \<and>
     distinct (map node_key (rg_nodes rg)) \<and> (\<forall>n \<in> set (rg_nodes rg). node_inv n)"

lemma same_node_key: "same_node a b n \<longleftrightarrow> node_key n = (a, b)"
  by (simp add: same_node_def node_key_def)

lemma alg_options_short: "list_all (\<lambda>(a, b). length a < 128 \<and> length b < 128) alg_options"
  by (simp add: alg_options_def)

lemma get_alg_type_short:
  assumes "wd_get_alg_type a = Inr ty"
  shows "length a < 128 \<and> length ty < 128"
proof -
  from assms have "map_of alg_options a = Some ty" by (auto simp: wd_get_alg_type_def split: option.splits)
  then have "(a, ty) \<in> set alg_options" by (rule map_of_SomeD)
  with alg_options_short show ?thesis by (auto simp: list_all_iff)
qed

lemma rg_inv_update:
  assumes inv: "rg_inv rg" and key: "\<And>n. node_key (f n) = node_key n"
    and nodes: "\<And>n. n \<in> set (rg_nodes rg) \<Longrightarrow> P n \<Longrightarrow> node_inv n \<Longrightarrow> node_inv (f n)"
  shows "rg_inv (rg\<lparr>rg_nodes := update_first P f (rg_nodes rg)\<rparr>)"
proof -
  have "length (update_first P f xs) = length xs" for xs by (induction xs) auto
  moreover have "node_inv n" if "n \<in> set (update_first P f (rg_nodes rg))" for n
    using that set_update_first [of P f "rg_nodes rg"] inv nodes by (auto simp: rg_inv_def)
  ultimately show ?thesis using inv update_first_map [of node_key f P, OF key] by (simp add: rg_inv_def)
qed

text \<open>The outcomes of a registration.\<close>

abbreviation new_entry :: "wd_alg_driver \<Rightarrow> wd_alg_entry" where
  "new_entry drv \<equiv> \<lparr>ae_alg_name = dr_alg_name drv, ae_available = True\<rparr>"

abbreviation new_node :: "wd_alg_driver \<Rightarrow> string \<Rightarrow> wd_drv_node" where
  "new_node drv ty \<equiv> \<lparr>dn_drv_name = dr_drv_name drv, dn_alg_type = ty, dn_priority = dr_priority drv,
     dn_calc_type = dr_calc_type drv, dn_refcnt = 0, dn_drv = drv, dn_algs = [new_entry drv]\<rparr>"

lemma register_cases:
  assumes reg: "wd_alg_driver_register env oks (Some drv) rg = (r, rg')"
    and len: "length (dr_drv_name drv) < 128"
  obtains (fail) e where "r = Inl e" "rg' = rg"
  | (known) ty n where "r = Inr ()" "rg' = rg" "wd_get_alg_type (dr_alg_name drv) = Inr ty"
      "List.find (same_node (dr_drv_name drv) ty) (rg_nodes rg) = Some n"
      "dr_alg_name drv \<in> ae_alg_name ` set (dn_algs n)"
  | (added) ty n where "r = Inr ()" "wd_get_alg_type (dr_alg_name drv) = Inr ty"
      "List.find (same_node (dr_drv_name drv) ty) (rg_nodes rg) = Some n"
      "dr_alg_name drv \<notin> ae_alg_name ` set (dn_algs n)" "length (dn_algs n) < MAX_DRV_ALG_NUM"
      "rg' = rg\<lparr>rg_nodes := update_first (same_node (dr_drv_name drv) ty)
         (\<lambda>n. n\<lparr>dn_algs := dn_algs n @ [new_entry drv]\<rparr>) (rg_nodes rg)\<rparr>"
  | (new) ty where "r = Inr ()" "wd_get_alg_type (dr_alg_name drv) = Inr ty"
      "List.find (same_node (dr_drv_name drv) ty) (rg_nodes rg) = None"
      "rg' = rg\<lparr>rg_nodes := rg_nodes rg @ [new_node drv ty], rg_drv_type_num := rg_drv_type_num rg + 1\<rparr>"
proof (cases "wd_get_alg_type (dr_alg_name drv)")
  case (Inl e)
  then show ?thesis using reg fail by (auto simp: wd_alg_driver_register_def split: if_splits)
next
  case (Inr ty)
  note short = get_alg_type_short [OF Inr]
  have tk: "take (ALG_NAME_SIZE - 1) (dr_alg_name drv) = dr_alg_name drv"
    "take (ALG_NAME_SIZE - 1) ty = ty" "take (DEV_NAME_LEN - 1) (dr_drv_name drv) = dr_drv_name drv"
    using short len by (simp_all add: ALG_NAME_SIZE_def DEV_NAME_LEN_def)
  note def = reg [unfolded wd_alg_driver_register_def option.case Inr sum.case tk]
  show ?thesis
  proof (cases "List.find (same_node (dr_drv_name drv) ty) (rg_nodes rg)")
    case None
    obtain ok oks1 where ok: "calloc_ok oks = (ok, oks1)" by (cases "calloc_ok oks")
    note def = def [unfolded None option.case ok prod.case Let_def]
    from def have "(\<exists>e. r = Inl e \<and> rg' = rg) \<or> r = Inr () \<and>
        rg' = rg\<lparr>rg_nodes := rg_nodes rg @ [new_node drv ty], rg_drv_type_num := rg_drv_type_num rg + 1\<rparr>"
      by (auto split: if_splits)
    with Inr None fail new show ?thesis by blast
  next
    case (Some n)
    have ex: "list_ex (\<lambda>a. ae_alg_name a = dr_alg_name drv) (dn_algs n) \<longleftrightarrow> dr_alg_name drv \<in> ae_alg_name ` set (dn_algs n)"
      by (auto simp: list_ex_iff image_iff) metis
    from def have "(\<exists>e. r = Inl e \<and> rg' = rg) \<or>
        r = Inr () \<and> rg' = rg \<and> dr_alg_name drv \<in> ae_alg_name ` set (dn_algs n) \<or>
        r = Inr () \<and> dr_alg_name drv \<notin> ae_alg_name ` set (dn_algs n) \<and> length (dn_algs n) < MAX_DRV_ALG_NUM \<and>
        rg' = rg\<lparr>rg_nodes := update_first (same_node (dr_drv_name drv) ty)
         (\<lambda>n. n\<lparr>dn_algs := dn_algs n @ [new_entry drv]\<rparr>) (rg_nodes rg)\<rparr>"
      unfolding Some option.case ex by (auto split: if_splits)
    with Inr Some fail known added show ?thesis by blast
  qed
qed

lemma register_inv:
  assumes inv: "rg_inv rg" and len: "length (dr_drv_name drv) < 128"
  shows "rg_inv (snd (wd_alg_driver_register env oks (Some drv) rg))"
proof -
  obtain r rg' where reg: "wd_alg_driver_register env oks (Some drv) rg = (r, rg')" by fastforce
  from reg len have "rg_inv rg'"
  proof (cases rule: register_cases)
    case (added ty n)
    have uniq: "m = n" if "m \<in> set (rg_nodes rg)" "same_node (dr_drv_name drv) ty m" for m
    proof -
      have "n \<in> set (rg_nodes rg)" "same_node (dr_drv_name drv) ty n" using added(3) by (auto simp: find_Some_iff)
      with that inv show ?thesis by (auto simp: rg_inv_def same_node_key distinct_map inj_on_def)
    qed
    have "node_inv (m\<lparr>dn_algs := dn_algs m @ [new_entry drv]\<rparr>)"
      if "m \<in> set (rg_nodes rg)" "same_node (dr_drv_name drv) ty m" "node_inv m" for m
      using uniq [OF that(1,2)] that(3) added(4,5) by (auto simp: node_inv_def)
    then show ?thesis unfolding added(6) by (intro rg_inv_update inv) (auto simp: node_key_def)
  next
    case (new ty)
    then have "(dr_drv_name drv, ty) \<notin> node_key ` set (rg_nodes rg)"
      by (auto simp: find_None_iff same_node_key)
    moreover have "node_key (new_node drv ty) = (dr_drv_name drv, ty)" by (simp add: node_key_def)
    moreover have "node_inv (new_node drv ty)" using new(2) by (simp add: node_inv_def MAX_DRV_ALG_NUM_def)
    ultimately show ?thesis using inv unfolding new(4) by (simp add: rg_inv_def)
  qed (use inv in auto)
  with reg show ?thesis by simp
qed

lemma unregister_inv:
  assumes inv: "rg_inv rg"
  shows "rg_inv (wd_alg_driver_unregister drv rg)"
proof (cases "\<exists>d ty n. drv = Some d \<and> wd_get_alg_type (dr_alg_name d) = Inr ty \<and>
    List.find (same_node (dr_drv_name d) ty) (rg_nodes rg) = Some n")
  case False
  then have "wd_alg_driver_unregister drv rg = rg"
    by (auto simp: wd_alg_driver_unregister_def Let_def split: option.splits sum.splits)
  with inv show ?thesis by simp
next
  case True
  then obtain d ty n where d: "drv = Some d" "wd_get_alg_type (dr_alg_name d) = Inr ty"
    and n: "List.find (same_node (dr_drv_name d) ty) (rg_nodes rg) = Some n" by blast
  let ?P = "same_node (dr_drv_name d) ty" and ?as = "remove_alg (dr_alg_name d) (dn_algs n)"
  from n have ne: "rg_nodes rg \<noteq> []" and nin: "n \<in> set (rg_nodes rg)" "?P n" by (auto simp: find_Some_iff)
  have eq: "wd_alg_driver_unregister drv rg =
      (if ?as = [] then rg\<lparr>rg_nodes := remove_first ?P (rg_nodes rg), rg_drv_type_num := rg_drv_type_num rg - 1\<rparr>
       else rg\<lparr>rg_nodes := update_first ?P (\<lambda>n. n\<lparr>dn_algs := ?as\<rparr>) (rg_nodes rg)\<rparr>)"
    using d n ne by (simp add: wd_alg_driver_unregister_def Let_def)
  have ninv: "node_inv n" using inv nin by (simp add: rg_inv_def)
  have dist: "distinct (map ae_alg_name ?as)" and len: "length ?as \<le> length (dn_algs n)"
    using ninv by (auto simp: node_inv_def intro: remove_alg_distinct)
  have uniq: "m = n" if "m \<in> set (rg_nodes rg)" "?P m" for m
    using that nin inv by (auto simp: rg_inv_def same_node_key distinct_map inj_on_def)
  show ?thesis
  proof (cases "?as = []")
    case True
    have "length (remove_first ?P (rg_nodes rg)) = length (rg_nodes rg) - 1"
      using nin by (intro length_remove_first) blast
    then show ?thesis unfolding eq using True inv distinct_remove_first remove_first_subset [of ?P "rg_nodes rg"]
      by (auto simp: rg_inv_def)
  next
    case False
    have "node_inv (m\<lparr>dn_algs := ?as\<rparr>)" if "m \<in> set (rg_nodes rg)" "?P m" "node_inv m" for m
      using uniq [OF that(1,2)] ninv len dist False by (auto simp: node_inv_def)
    then show ?thesis unfolding eq using False by (simp, intro rg_inv_update inv) (auto simp: node_key_def)
  qed
qed


lemma enable_inv: "rg_inv rg \<Longrightarrow> rg_inv (wd_enable_drv env drv rg)"
  by (auto simp: wd_enable_drv_def node_key_def node_inv_def comp_def intro!: rg_inv_update split: option.splits)

lemma disable_inv: "rg_inv rg \<Longrightarrow> rg_inv (wd_disable_drv drv rg)"
  by (auto simp: wd_disable_drv_def node_key_def node_inv_def comp_def intro!: rg_inv_update split: option.splits)

lemma add_ref_inv: "rg_inv rg \<Longrightarrow> rg_inv (rg\<lparr>rg_nodes := add_ref d (rg_nodes rg)\<rparr>)"
  unfolding add_ref_def by (intro rg_inv_update) (auto simp: node_key_def node_inv_def)

lemma drop_ref_inv: "rg_inv rg \<Longrightarrow> rg_inv (rg\<lparr>rg_nodes := drop_ref_node d (rg_nodes rg)\<rparr>)"
  unfolding drop_ref_node_def by (intro rg_inv_update) (auto simp: node_key_def node_inv_def)

lemma request_inv: "rg_inv rg \<Longrightarrow> rg_inv (snd (wd_request_drv rg alg ty))"
  by (auto simp: wd_request_drv_def Let_def intro: add_ref_inv split: option.splits)

lemma ref_inc_inv: "rg_inv rg \<Longrightarrow> rg_inv (wd_alg_drv_ref_inc ds rg)"
  unfolding wd_alg_drv_ref_inc_def
  by (induction ds arbitrary: rg) (auto intro: add_ref_inv split: option.splits)

lemma ref_dec_inv: "rg_inv rg \<Longrightarrow> rg_inv (wd_alg_drv_ref_dec ds rg)"
  unfolding wd_alg_drv_ref_dec_def
  by (induction ds arbitrary: rg) (auto intro: drop_ref_inv split: option.splits)

subsection \<open>Selection\<close>

definition candidate :: "string \<Rightarrow> alg_drv_type \<Rightarrow> wd_drv_node \<Rightarrow> bool" where
  "candidate alg ty n \<longleftrightarrow> drv_type_matches ty (dn_calc_type n) \<and> alg_offered alg n"

lemma request_scan_best:
  "request_scan alg ty nodes drv p = r \<Longrightarrow>
    (r = drv \<and> (\<forall>m \<in> set nodes. candidate alg ty m \<longrightarrow> dr_priority (dn_drv m) \<le> p)) \<or>
    (\<exists>n \<in> set nodes. r = Some (dn_drv n) \<and> candidate alg ty n \<and> dr_priority (dn_drv n) > p \<and>
       (\<forall>m \<in> set nodes. candidate alg ty m \<longrightarrow> dr_priority (dn_drv m) \<le> dr_priority (dn_drv n)))"
proof (induction nodes arbitrary: drv p)
  case (Cons x nodes)
  show ?case
  proof (cases "candidate alg ty x \<and> dr_priority (dn_drv x) > p")
    case True
    then have "request_scan alg ty nodes (Some (dn_drv x)) (dr_priority (dn_drv x)) = r"
      using Cons.prems by (simp add: candidate_def)
    from Cons.IH [OF this] show ?thesis
    proof
      assume "r = Some (dn_drv x) \<and>
        (\<forall>m \<in> set nodes. candidate alg ty m \<longrightarrow> dr_priority (dn_drv m) \<le> dr_priority (dn_drv x))"
      with True show ?thesis by (intro disjI2 bexI [of _ x]) auto
    next
      assume "\<exists>n \<in> set nodes. r = Some (dn_drv n) \<and> candidate alg ty n \<and>
        dr_priority (dn_drv n) > dr_priority (dn_drv x) \<and>
        (\<forall>m \<in> set nodes. candidate alg ty m \<longrightarrow> dr_priority (dn_drv m) \<le> dr_priority (dn_drv n))"
      then obtain n where "n \<in> set nodes" "r = Some (dn_drv n)" "candidate alg ty n"
        "dr_priority (dn_drv n) > dr_priority (dn_drv x)"
        "\<forall>m \<in> set nodes. candidate alg ty m \<longrightarrow> dr_priority (dn_drv m) \<le> dr_priority (dn_drv n)" by blast
      with True show ?thesis by (intro disjI2 bexI [of _ n]) auto
    qed
  next
    case False
    then have "request_scan alg ty nodes drv p = r"
      using Cons.prems by (auto simp: candidate_def)
    from Cons.IH [OF this] show ?thesis
    proof
      assume "\<exists>n \<in> set nodes. r = Some (dn_drv n) \<and> candidate alg ty n \<and> dr_priority (dn_drv n) > p \<and>
        (\<forall>m \<in> set nodes. candidate alg ty m \<longrightarrow> dr_priority (dn_drv m) \<le> dr_priority (dn_drv n))"
      then obtain n where "n \<in> set nodes" "r = Some (dn_drv n)" "candidate alg ty n" "dr_priority (dn_drv n) > p"
        "\<forall>m \<in> set nodes. candidate alg ty m \<longrightarrow> dr_priority (dn_drv m) \<le> dr_priority (dn_drv n)" by blast
      with False show ?thesis by (intro disjI2 bexI [of _ n]) auto
    qed (use False in auto)
  qed
qed simp

subsection \<open>Discovery\<close>

definition selected :: "string \<Rightarrow> alg_task_type \<Rightarrow> wd_drv_node \<Rightarrow> bool" where
  "selected alg_type task_type n \<longleftrightarrow> dn_alg_type n = alg_type \<and> wd_alg_drv_type_match task_type (dn_calc_type n)"

definition skipped :: "string \<Rightarrow> alg_task_type \<Rightarrow> string option \<Rightarrow> wd_drv_node \<Rightarrow> bool" where
  "skipped alg_type task_type name n \<longleftrightarrow>
     selected alg_type task_type n \<and> name \<noteq> None \<and> name \<noteq> Some (dn_drv_name n)"

lemma drv_array_scan_spec:
  assumes "length acc + length nodes \<le> mx"
  shows "drv_array_scan alg_type task_type name mx nodes acc =
    (if list_ex (skipped alg_type task_type name) nodes then None
     else Some (Inr (acc @ map dn_drv (filter (\<lambda>n. selected alg_type task_type n \<and> list_ex ae_available (dn_algs n)) nodes))))"
  using assms
proof (induction nodes arbitrary: acc)
  case (Cons n nodes)
  have room: "\<not> mx \<le> length acc" using Cons.prems by simp
  note step = drv_array_scan.simps(2) [of alg_type task_type name mx n nodes acc, folded selected_def]
  have IH: "drv_array_scan alg_type task_type name mx nodes acc' =
    (if list_ex (skipped alg_type task_type name) nodes then None
     else Some (Inr (acc' @ map dn_drv (filter (\<lambda>n. selected alg_type task_type n \<and> list_ex ae_available (dn_algs n)) nodes))))"
    if "length acc' \<le> Suc (length acc)" for acc' using that Cons.prems by (intro Cons.IH) simp
  consider "skipped alg_type task_type name n"
    | "\<not> skipped alg_type task_type name n" "selected alg_type task_type n" | "\<not> selected alg_type task_type n" by blast
  then show ?case
  proof cases
    case 1
    then show ?thesis unfolding step by (simp add: skipped_def)
  next
    case 2
    then have "\<not> (name \<noteq> None \<and> name \<noteq> Some (dn_drv_name n))" by (simp add: skipped_def)
    then have off: "(name \<noteq> None \<and> name \<noteq> Some (dn_drv_name n)) = False" by simp
    show ?thesis unfolding step off using 2 room by (simp add: IH)
  next
    case 3
    then have "\<not> skipped alg_type task_type name n" by (simp add: skipped_def)
    then show ?thesis unfolding step using 3 by (simp add: IH)
  qed
qed simp

subsection \<open>Reference counts\<close>

definition ptrs :: "wd_drv_node list \<Rightarrow> nat list" where
  "ptrs nodes = map (\<lambda>n. dr_ptr (dn_drv n)) nodes"

lemma add_ref_map:
  "distinct (ptrs nodes) \<Longrightarrow> add_ref d nodes =
    map (\<lambda>n. if dr_ptr (dn_drv n) = dr_ptr d then n\<lparr>dn_refcnt := dn_refcnt n + 1\<rparr> else n) nodes"
proof (induction nodes)
  case (Cons n nodes)
  show ?case
  proof (cases "dr_ptr (dn_drv n) = dr_ptr d")
    case True
    then have "\<forall>m \<in> set nodes. dr_ptr (dn_drv m) \<noteq> dr_ptr d" using Cons.prems by (auto simp: ptrs_def image_iff)
    then have "map (\<lambda>n. if dr_ptr (dn_drv n) = dr_ptr d then n\<lparr>dn_refcnt := dn_refcnt n + 1\<rparr> else n) nodes = nodes"
      by (intro map_idI) auto
    then show ?thesis using True by (simp add: add_ref_def)
  next
    case False
    then show ?thesis using Cons by (simp add: add_ref_def ptrs_def)
  qed
qed (simp add: add_ref_def)

lemma drop_ref_map:
  "distinct (ptrs nodes) \<Longrightarrow> drop_ref_node d nodes =
    map (\<lambda>n. if dr_ptr (dn_drv n) = dr_ptr d then n\<lparr>dn_refcnt := dn_refcnt n - 1\<rparr> else n) nodes"
proof (induction nodes)
  case (Cons n nodes)
  show ?case
  proof (cases "dr_ptr (dn_drv n) = dr_ptr d")
    case True
    then have "\<forall>m \<in> set nodes. dr_ptr (dn_drv m) \<noteq> dr_ptr d" using Cons.prems by (auto simp: ptrs_def image_iff)
    then have eq: "map (\<lambda>n. if dr_ptr (dn_drv n) = dr_ptr d then n\<lparr>dn_refcnt := dn_refcnt n - 1\<rparr> else n) nodes = nodes"
      by (intro map_idI) auto
    have none: "drop_ref_node d nodes = nodes" using Cons eq by (simp add: ptrs_def)
    show ?thesis
    proof (cases "dn_refcnt n")
      case 0
      then have "n\<lparr>dn_refcnt := 0\<rparr> = n" by simp
      with 0 show ?thesis using True eq none by (simp add: drop_ref_node_def)
    next
      case (Suc k)
      with True eq show ?thesis by (simp add: drop_ref_node_def)
    qed
  next
    case False
    then show ?thesis using Cons by (simp add: drop_ref_node_def ptrs_def)
  qed
qed (simp add: drop_ref_node_def)

text \<open>The reference counts as a function of the node, after a list of increments or decrements.\<close>

definition ptr_count :: "wd_alg_driver option list \<Rightarrow> nat \<Rightarrow> nat" where
  "ptr_count ds p = length (filter (\<lambda>d. case d of None \<Rightarrow> False | Some drv \<Rightarrow> dr_ptr drv = p) ds)"

lemma ptrs_map_refcnt: "(\<And>n. dn_drv (f n) = dn_drv n) \<Longrightarrow> ptrs (map f nodes) = ptrs nodes"
  by (simp add: ptrs_def)

lemma ref_inc_map:
  "distinct (ptrs (rg_nodes rg)) \<Longrightarrow> wd_alg_drv_ref_inc ds rg =
    rg\<lparr>rg_nodes := map (\<lambda>n. n\<lparr>dn_refcnt := dn_refcnt n + ptr_count ds (dr_ptr (dn_drv n))\<rparr>) (rg_nodes rg)\<rparr>"
proof (induction ds arbitrary: rg)
  case Nil
  then show ?case by (simp add: wd_alg_drv_ref_inc_def ptr_count_def)
next
  case (Cons d ds)
  show ?case
  proof (cases d)
    case None
    then show ?thesis using Cons by (simp add: wd_alg_drv_ref_inc_def ptr_count_def)
  next
    case (Some drv)
    let ?rg = "rg\<lparr>rg_nodes := add_ref drv (rg_nodes rg)\<rparr>"
    have "distinct (ptrs (rg_nodes ?rg))"
      using Cons.prems by (simp add: add_ref_map ptrs_map_refcnt)
    from Cons.IH [OF this] Some Cons.prems show ?thesis
      by (simp add: wd_alg_drv_ref_inc_def add_ref_map ptr_count_def comp_def if_distrib cong: map_cong)
  qed
qed

lemma ref_dec_map:
  "distinct (ptrs (rg_nodes rg)) \<Longrightarrow> wd_alg_drv_ref_dec ds rg =
    rg\<lparr>rg_nodes := map (\<lambda>n. n\<lparr>dn_refcnt := dn_refcnt n - ptr_count ds (dr_ptr (dn_drv n))\<rparr>) (rg_nodes rg)\<rparr>"
proof (induction ds arbitrary: rg)
  case Nil
  then show ?case by (simp add: wd_alg_drv_ref_dec_def ptr_count_def)
next
  case (Cons d ds)
  show ?case
  proof (cases d)
    case None
    then show ?thesis using Cons by (simp add: wd_alg_drv_ref_dec_def ptr_count_def)
  next
    case (Some drv)
    let ?rg = "rg\<lparr>rg_nodes := drop_ref_node drv (rg_nodes rg)\<rparr>"
    have "distinct (ptrs (rg_nodes ?rg))"
      using Cons.prems by (simp add: drop_ref_map ptrs_map_refcnt)
    from Cons.IH [OF this] Some Cons.prems show ?thesis
      by (simp add: wd_alg_drv_ref_dec_def drop_ref_map ptr_count_def comp_def if_distrib cong: map_cong)
  qed
qed

subsection \<open>Properties\<close>

text \<open>Two hardware drivers and one SVE driver, and the registry they make, for the instances below.\<close>

definition drv_sec :: wd_alg_driver where
  "drv_sec = \<lparr>dr_ptr = 1, dr_drv_name = ''hisi_sec2'', dr_alg_name = ''cbc(aes)'', dr_priority = 100,
     dr_calc_type = 0, dr_init = True, dr_exit = True, dr_send = True, dr_recv = True\<rparr>"

definition drv_sve :: wd_alg_driver where
  "drv_sve = \<lparr>dr_ptr = 2, dr_drv_name = ''isa_sve'', dr_alg_name = ''cbc(aes)'', dr_priority = 400,
     dr_calc_type = 2, dr_init = True, dr_exit = True, dr_send = True, dr_recv = True\<rparr>"

definition sys_hw :: sysenv where
  "sys_hw = \<lparr>env_hwcap = 2 ^ 22, env_uacce_devs = Some [''.'', ''..'', ''hisi_sec2-3'']\<rparr>"

definition rg_empty :: wd_alg_registry where
  "rg_empty = \<lparr>rg_nodes = [], rg_drv_type_num = 0\<rparr>"

definition rg_sec :: wd_alg_registry where
  "rg_sec = \<lparr>rg_nodes = [new_node drv_sec ''cipher''], rg_drv_type_num = 1\<rparr>"

definition rg_both :: wd_alg_registry where
  "rg_both = \<lparr>rg_nodes = [new_node drv_sec ''cipher'', new_node drv_sve ''cipher''], rg_drv_type_num = 2\<rparr>"

lemma cbc_aes_type: "wd_get_alg_type ''cbc(aes)'' = Inr ''cipher''"
  by (simp add: wd_get_alg_type_def alg_options_def)

lemma register_sec: "wd_alg_driver_register sys_hw [] (Some drv_sec) rg_empty = (Inr (), rg_sec)"
  by (simp add: wd_alg_driver_register_def rg_empty_def rg_sec_def drv_sec_def cbc_aes_type sys_hw_def
      wd_alg_check_available_def uadk_alg_consts wd_check_accel_dev_def str_prefix_def ALG_NAME_SIZE_def DEV_NAME_LEN_def)

lemma rg_both_inv: "rg_inv rg_both"
  by (simp add: rg_inv_def rg_both_def drv_sec_def drv_sve_def node_key_def node_inv_def MAX_DRV_ALG_NUM_def cbc_aes_type)

lemma rg_empty_inv: "rg_inv rg_empty"
  by (simp add: rg_inv_def rg_empty_def)

text \<open>
  C38: every operation of the registry preserves its invariant: at most one node per driver name and
  algorithm class, \<^verbatim>\<open>drv_type_num\<close> counts the nodes, every node has between 1 and 64 distinct algorithms and
  the attributes of its driver.
\<close>

theorem registry_invariant:
  assumes "rg_inv rg" and "length (dr_drv_name drv) < 128"
  shows "rg_inv (snd (wd_alg_driver_register env oks (Some drv) rg)) \<and>
    rg_inv (wd_alg_driver_unregister (Some drv) rg) \<and> rg_inv (wd_enable_drv env (Some drv) rg) \<and>
    rg_inv (wd_disable_drv (Some drv) rg) \<and> rg_inv (snd (wd_request_drv rg (Some alg) ty)) \<and>
    rg_inv (wd_alg_drv_ref_inc ds rg) \<and> rg_inv (wd_alg_drv_ref_dec ds rg)"
  by (intro conjI register_inv unregister_inv enable_inv disable_inv request_inv ref_inc_inv ref_dec_inv assms)

theorem registry_invariant_witness: "rg_inv (wd_alg_driver_unregister (Some drv_sve) rg_both)"
  using registry_invariant [OF rg_both_inv, of drv_sve] by (simp add: drv_sve_def)

text \<open>
  C12: \<^verbatim>\<open>wd_request_drv\<close> returns a driver of the requested kind that offers the algorithm as
  available and has the highest priority among all such drivers (negative priorities are never
  chosen), and returns \<^verbatim>\<open>NULL\<close> only if there is none.
\<close>

theorem request_drv_highest_priority:
  assumes "wd_request_drv rg (Some alg) ty = (r, rg')"
  shows "case r of
      None \<Rightarrow> \<forall>n \<in> set (rg_nodes rg). candidate alg ty n \<longrightarrow> dr_priority (dn_drv n) < 0
    | Some d \<Rightarrow> 0 \<le> dr_priority d \<and> (\<exists>n \<in> set (rg_nodes rg). dn_drv n = d \<and> candidate alg ty n) \<and>
        (\<forall>n \<in> set (rg_nodes rg). candidate alg ty n \<longrightarrow> dr_priority (dn_drv n) \<le> dr_priority d) \<and>
        rg' = rg\<lparr>rg_nodes := add_ref d (rg_nodes rg)\<rparr>"
proof -
  have r: "r = request_scan alg ty (rg_nodes rg) None (- 1)"
    using assms by (auto simp: wd_request_drv_def Let_def split: if_splits option.splits)
  show ?thesis
  proof (cases r)
    case None
    with request_scan_best [OF r [symmetric]] show ?thesis by force
  next
    case (Some d)
    with request_scan_best [OF r [symmetric]] obtain n where "n \<in> set (rg_nodes rg)" "d = dn_drv n"
      "candidate alg ty n" "dr_priority d > - 1"
      "\<forall>m \<in> set (rg_nodes rg). candidate alg ty m \<longrightarrow> dr_priority (dn_drv m) \<le> dr_priority d" by auto
    moreover have "rg' = rg\<lparr>rg_nodes := add_ref d (rg_nodes rg)\<rparr>"
      using assms Some unfolding wd_request_drv_def Let_def by (auto split: if_splits option.splits)
    ultimately show ?thesis using Some by auto
  qed
qed

theorem request_drv_highest_priority_witness:
  "fst (wd_request_drv rg_both (Some ''cbc(aes)'') ALG_DRV_SOFT) = Some drv_sve \<and> 0 \<le> dr_priority drv_sve"
proof -
  have eq: "fst (wd_request_drv rg_both (Some ''cbc(aes)'') ALG_DRV_SOFT) = Some drv_sve"
    by (simp add: wd_request_drv_def rg_both_def drv_sec_def drv_sve_def drv_type_matches_def uadk_alg_consts alg_offered_def)
  then obtain rg' where "wd_request_drv rg_both (Some ''cbc(aes)'') ALG_DRV_SOFT = (Some drv_sve, rg')"
    by (metis prod.collapse)
  from request_drv_highest_priority [OF this] eq show ?thesis by simp
qed

text \<open>
  Unregistering undoes registering: when a driver registers an algorithm that it did not already
  have, removing it again restores the registry exactly, node list order and counter included.
\<close>

theorem register_unregister:
  assumes inv: "rg_inv rg" and len: "length (dr_drv_name drv) < 128"
    and reg: "wd_alg_driver_register env oks (Some drv) rg = (Inr (), rg')"
    and fresh: "\<not> (\<exists>n \<in> set (rg_nodes rg). dn_drv_name n = dr_drv_name drv \<and>
      wd_get_alg_type (dr_alg_name drv) = Inr (dn_alg_type n) \<and> dr_alg_name drv \<in> ae_alg_name ` set (dn_algs n))"
  shows "wd_alg_driver_unregister (Some drv) rg' = rg"
  using reg len
proof (cases rule: register_cases)
  case (known ty n)
  then have "n \<in> set (rg_nodes rg)" "same_node (dr_drv_name drv) ty n" by (auto simp: find_Some_iff)
  with known fresh show ?thesis by (auto simp: same_node_def)
next
  case (added ty n)
  let ?P = "same_node (dr_drv_name drv) ty" and ?f = "\<lambda>n. n\<lparr>dn_algs := dn_algs n @ [new_entry drv]\<rparr>"
  have P: "?P (?f m) = ?P m" "?P (m\<lparr>dn_algs := as\<rparr>) = ?P m" for m as by (simp_all add: same_node_def)
  have "?P n" using added(3) by (auto simp: find_Some_iff)
  then have find: "List.find ?P (rg_nodes rg') = Some (?f n)"
    unfolding added(6) using find_update_first [OF added(3), of ?f] P by simp
  have "dn_algs n \<noteq> []" using inv added(3) by (auto simp: find_Some_iff rg_inv_def node_inv_def)
  moreover have rem: "remove_alg (dr_alg_name drv) (dn_algs (?f n)) = dn_algs n"
    using added(4) by (simp, intro remove_alg_append) (auto simp: image_iff)
  moreover have "rg_nodes rg' \<noteq> []" using find by auto
  ultimately have "wd_alg_driver_unregister (Some drv) rg' =
      rg'\<lparr>rg_nodes := update_first ?P (\<lambda>m. m\<lparr>dn_algs := dn_algs n\<rparr>) (rg_nodes rg')\<rparr>"
    using added(2) find by (simp add: wd_alg_driver_unregister_def Let_def)
  also have "update_first ?P (\<lambda>m. m\<lparr>dn_algs := dn_algs n\<rparr>) (rg_nodes rg') = rg_nodes rg"
  proof -
    have "update_first ?P (\<lambda>m. m\<lparr>dn_algs := dn_algs n\<rparr>) (rg_nodes rg') =
        update_first ?P ((\<lambda>m. m\<lparr>dn_algs := dn_algs n\<rparr>) \<circ> ?f) (rg_nodes rg)"
      unfolding added(6) by (simp add: update_first_twice P)
    also have "\<dots> = update_first ?P (\<lambda>m. m) (rg_nodes rg)"
      using added(3) by (intro update_first_cong) simp
    finally show ?thesis by (simp add: update_first_id)
  qed
  finally show ?thesis using added(6) by simp
next
  case (new ty)
  let ?P = "same_node (dr_drv_name drv) ty"
  have none: "\<not> (\<exists>n \<in> set (rg_nodes rg). ?P n)" using new(3) by (auto simp: find_None_iff)
  have P: "?P (new_node drv ty)" by (simp add: same_node_def)
  show ?thesis using new(2) find_append_none [OF none] remove_first_append [OF none] P
    unfolding new(4) by (simp add: wd_alg_driver_unregister_def Let_def)
qed simp

theorem register_unregister_witness:
  "wd_alg_driver_register sys_hw [] (Some drv_sec) rg_empty = (Inr (), rg_sec) \<and>
   wd_alg_driver_unregister (Some drv_sec) rg_sec = rg_empty"
proof -
  have "length (dr_drv_name drv_sec) < 128" by (simp add: drv_sec_def)
  from register_unregister [OF rg_empty_inv this register_sec] register_sec show ?thesis
    by (simp add: rg_empty_def)
qed

text \<open>
  \<^verbatim>\<open>wd_get_drv_array\<close> without a driver name returns the drivers of the algorithm class and task
  type that have an available algorithm, in list order, and an error exactly when there is none.
  With a driver name it does not return at all when the list has a node of that class and type with
  a different name.
\<close>

theorem get_drv_array_result:
  assumes "rg_inv rg" and "rg_nodes rg \<noteq> []"
  shows "wd_get_drv_array [] rg alg_type task_type drv_name =
    (if list_ex (\<lambda>n. dn_alg_type n = alg_type \<and> wd_alg_drv_type_match task_type (dn_calc_type n) \<and>
          drv_name \<noteq> None \<and> drv_name \<noteq> Some (dn_drv_name n)) (rg_nodes rg) then None
     else case map dn_drv (filter (\<lambda>n. dn_alg_type n = alg_type \<and>
            wd_alg_drv_type_match task_type (dn_calc_type n) \<and> list_ex ae_available (dn_algs n)) (rg_nodes rg)) of
         [] \<Rightarrow> Some (Inl WD_EINVAL)
       | d # ds \<Rightarrow> Some (Inr (d # ds)))"
proof -
  have sk: "skipped alg_type task_type drv_name = (\<lambda>n. dn_alg_type n = alg_type \<and>
      wd_alg_drv_type_match task_type (dn_calc_type n) \<and> drv_name \<noteq> None \<and> drv_name \<noteq> Some (dn_drv_name n))"
    by (auto simp: skipped_def selected_def)
  have "rg_drv_type_num rg \<noteq> 0" "length (rg_nodes rg) \<le> rg_drv_type_num rg"
    using assms by (auto simp: rg_inv_def)
  then show ?thesis unfolding sk [symmetric]
    by (simp add: wd_get_drv_array_def drv_array_scan_spec selected_def conj_assoc split: list.splits)
qed

theorem get_drv_array_result_witness:
  "wd_get_drv_array [] rg_both ''cipher'' TASK_MIX None = Some (Inr [drv_sec, drv_sve]) \<and>
   wd_get_drv_array [] rg_both ''cipher'' TASK_MIX (Some ''isa_sve'') = None"
proof -
  have "rg_nodes rg_both \<noteq> []" by (simp add: rg_both_def)
  note res = get_drv_array_result [OF rg_both_inv this]
  show ?thesis by (simp add: res) (simp add: rg_both_def drv_sec_def drv_sve_def)
qed

text \<open>
  Dropping the references that were taken for a list of drivers (with repetitions and \<^verbatim>\<open>NULL\<close>
  entries) restores every reference count.
\<close>

theorem ref_inc_dec:
  assumes "distinct (map (\<lambda>n. dr_ptr (dn_drv n)) (rg_nodes rg))"
  shows "wd_alg_drv_ref_dec ds (wd_alg_drv_ref_inc ds rg) = rg"
proof -
  have dist: "distinct (ptrs (rg_nodes rg))" using assms by (simp add: ptrs_def)
  then have "distinct (ptrs (rg_nodes (wd_alg_drv_ref_inc ds rg)))"
    by (simp add: ref_inc_map ptrs_map_refcnt)
  then show ?thesis using dist by (simp add: ref_dec_map ref_inc_map comp_def)
qed

theorem ref_inc_dec_witness:
  "wd_alg_drv_ref_dec [Some drv_sec, None, Some drv_sec]
     (wd_alg_drv_ref_inc [Some drv_sec, None, Some drv_sec] rg_both) = rg_both"
  by (rule ref_inc_dec) (simp add: rg_both_def drv_sec_def drv_sve_def)

end
