(* ===== verification/Wd_Device.thy ===== *)
theory Wd_Device
  imports Alg_Registry
begin

text \<open>
  Devices (\<^verbatim>\<open>wd.c\<close>): reading the attributes of a device from sysfs, finding the devices of an algorithm, choosing one
  by NUMA distance and free contexts, device and driver names, usage values, and the list of capabilities.

  The file system is a parameter: \<open>sf_exists\<close> tells whether \<^verbatim>\<open>access\<close> finds a path, \<open>sf_read\<close> gives the contents of a
  path that \<^verbatim>\<open>realpath\<close> and \<^verbatim>\<open>open\<close> accept, \<open>sf_devs\<close> the entries of the device directory in the order of
  \<^verbatim>\<open>readdir\<close>. File contents hold no NUL. Functions that return a negative code have \<open>Inl\<close> of that code.
\<close>

definition PATH_STR_SIZE :: nat where "PATH_STR_SIZE = 256"
definition MAX_ATTR_STR_SIZE :: nat where "MAX_ATTR_STR_SIZE = 384"
definition WD_NAME_SIZE :: nat where "WD_NAME_SIZE = 64"
definition MAX_DEV_NAME_LEN :: nat where "MAX_DEV_NAME_LEN = 256"
definition WD_DEV_USAGE_SIZE :: nat where "WD_DEV_USAGE_SIZE = 256"
definition SYS_CLASS_DIR :: string where "SYS_CLASS_DIR = ''/sys/class/uacce''"
definition UACCE_DEV_SVA :: nat where "UACCE_DEV_SVA = 1"

lemmas wd_dev_consts = PATH_STR_SIZE_def MAX_ATTR_STR_SIZE_def WD_NAME_SIZE_def MAX_DEV_NAME_LEN_def WD_DEV_USAGE_SIZE_def

record sysfs =
  sf_exists :: "string \<Rightarrow> bool"
  sf_read :: "string \<Rightarrow> string option"
  sf_devs :: "string list option"

record uacce_dev =
  ud_flags :: int
  ud_numa_id :: int
  ud_api :: string
  ud_algs :: string
  ud_dev_root :: string
  ud_char_dev_path :: string
  ud_qfrs_mmio :: nat
  ud_qfrs_dus :: nat

text \<open>The negative value that the C functions return.\<close>

definition neg :: "wd_error \<Rightarrow> int" where
  "neg e = - errno_of e"

subsection \<open>The C library\<close>

text \<open>The index of the first occurrence of a string.\<close>

fun strstr :: "string \<Rightarrow> string \<Rightarrow> nat option" where
  "strstr [] t = (if t = [] then Some 0 else None)"
| "strstr (c # s) t = (if take (length t) (c # s) = t then Some 0 else map_option Suc (strstr s t))"

text \<open>The suffix that starts at the last occurrence of a character.\<close>

fun rindex :: "string \<Rightarrow> char \<Rightarrow> string option" where
  "rindex [] c = None"
| "rindex (x # s) c = (case rindex s c of Some t \<Rightarrow> Some t | None \<Rightarrow> if x = c then Some (x # s) else None)"

definition isdigit :: "char \<Rightarrow> bool" where
  "isdigit c \<longleftrightarrow> of_char c \<ge> (48 :: nat) \<and> of_char c \<le> (57 :: nat)"

definition isspace :: "char \<Rightarrow> bool" where
  "isspace c \<longleftrightarrow> of_char c = (32 :: nat) \<or> of_char c \<ge> (9 :: nat) \<and> of_char c \<le> (13 :: nat)"

definition digits_value :: "string \<Rightarrow> int" where
  "digits_value s = fold (\<lambda>c v. 10 * v + (of_char c - 48)) (takeWhile isdigit s) 0"

text \<open>The value in base 10 and whether it was out of range (then \<^verbatim>\<open>errno\<close> is \<^verbatim>\<open>ERANGE\<close>).\<close>

definition strtol :: "string \<Rightarrow> int \<times> bool" where
  "strtol s =
    (let s = dropWhile isspace s;
         v = (case s of [] \<Rightarrow> 0
              | c # t \<Rightarrow> if c = CHR ''-'' then - digits_value t else if c = CHR ''+'' then digits_value t else digits_value s) in
     if v > 2 ^ 63 - 1 then (2 ^ 63 - 1, True) else if v < - (2 ^ 63) then (- (2 ^ 63), True) else (v, False))"

definition ERANGE :: int where "ERANGE = 34"

subsection \<open>Attributes\<close>

definition attr_path :: "string \<Rightarrow> string \<Rightarrow> string" where
  "attr_path dev_root attr = take (PATH_STR_SIZE - 1) (dev_root @ ''/'' @ attr)"

definition get_raw_attr :: "sysfs \<Rightarrow> string \<Rightarrow> string \<Rightarrow> nat \<Rightarrow> int + string" where
  "get_raw_attr sf dev_root attr sz =
    (case sf_read sf (attr_path dev_root attr) of
       None \<Rightarrow> Inl (neg WD_ENODEV)
     | Some content \<Rightarrow> if take sz content = [] then Inl (neg WD_EIO) else Inr (take sz content))"

text \<open>\<open>erange\<close>: \<^verbatim>\<open>errno\<close> is already \<^verbatim>\<open>ERANGE\<close> when the function is called; it is not cleared before \<^verbatim>\<open>strtol\<close>.\<close>

definition get_int_attr :: "sysfs \<Rightarrow> bool \<Rightarrow> string \<Rightarrow> string \<Rightarrow> int + int" where
  "get_int_attr sf erange dev_root attr =
    (case get_raw_attr sf dev_root attr (MAX_ATTR_STR_SIZE - 1) of
       Inl e \<Rightarrow> Inl e
     | Inr buf \<Rightarrow>
         (let (v, ovf) = strtol buf in
          if erange \<or> ovf then Inl (- ERANGE) else Inr (i32 v)))"

text \<open>Removes the newlines at the end, but not the first character.\<close>

fun strip_newlines :: "nat \<Rightarrow> string \<Rightarrow> string" where
  "strip_newlines 0 buf = []"
| "strip_newlines (Suc n) buf =
    (if n > 0 \<and> buf ! n = CHR 0x0A then strip_newlines n buf else take (Suc n) buf)"

definition get_str_attr :: "sysfs \<Rightarrow> string \<Rightarrow> string \<Rightarrow> nat \<Rightarrow> int + string" where
  "get_str_attr sf dev_root attr buf_sz =
    (case get_raw_attr sf dev_root attr buf_sz of
       Inl e \<Rightarrow> Inl e
     | Inr buf \<Rightarrow>
         (let ret = (if length buf = buf_sz then length buf - 1 else length buf) in
          Inr (strip_newlines ret buf)))"

definition access_attr :: "sysfs \<Rightarrow> string \<Rightarrow> string \<Rightarrow> bool" where
  "access_attr sf dev_root attr = sf_exists sf (attr_path dev_root attr)"

definition wd_is_isolate :: "sysfs \<Rightarrow> bool \<Rightarrow> uacce_dev option \<Rightarrow> int + bool" where
  "wd_is_isolate sf erange dev =
    (case dev of
       None \<Rightarrow> Inl (neg WD_EINVAL)
     | Some d \<Rightarrow>
         if ud_dev_root d = [] then Inl (neg WD_EINVAL)
         else if access_attr sf (ud_dev_root d) ''isolate'' then
           (case get_int_attr sf erange (ud_dev_root d) ''isolate'' of Inl e \<Rightarrow> Inl e | Inr v \<Rightarrow> Inr (v = 1))
         else Inr False)"

text \<open>The sequence of reads of \<^verbatim>\<open>get_dev_info\<close>, which stops at the first failure.\<close>

definition get_dev_info :: "sysfs \<Rightarrow> bool \<Rightarrow> uacce_dev \<Rightarrow> int + uacce_dev" where
  "get_dev_info sf erange dev =
    (let root = ud_dev_root dev; int_attr = get_int_attr sf erange root;
         isolate = (if access_attr sf root ''isolate'' then int_attr ''isolate'' else Inr 0) in
     case isolate of Inl e \<Rightarrow> Inl e | Inr v \<Rightarrow>
     if v = 1 then Inl (neg WD_ENODEV) else
     case int_attr ''flags'' of Inl e \<Rightarrow> Inl e | Inr flags \<Rightarrow>
     case int_attr ''region_mmio_size'' of Inl e \<Rightarrow> Inl e | Inr mmio \<Rightarrow>
     case int_attr ''region_dus_size'' of Inl e \<Rightarrow> Inl e | Inr dus \<Rightarrow>
     case int_attr ''device/numa_node'' of Inl e \<Rightarrow> Inl e | Inr numa \<Rightarrow>
     case get_str_attr sf root ''api'' WD_NAME_SIZE of Inl e \<Rightarrow> Inl e | Inr api \<Rightarrow>
     case get_str_attr sf root ''algorithms'' MAX_ATTR_STR_SIZE of Inl e \<Rightarrow> Inl e | Inr algs \<Rightarrow>
     Inr (dev\<lparr>ud_flags := flags, ud_qfrs_mmio := u64_of_int mmio, ud_qfrs_dus := u64_of_int dus,
              ud_numa_id := (if numa < 0 then 0 else numa), ud_api := api, ud_algs := algs\<rparr>))"

definition read_uacce_sysfs :: "sysfs \<Rightarrow> bool \<Rightarrow> bool \<Rightarrow> string \<Rightarrow> uacce_dev option" where
  "read_uacce_sysfs sf erange alloc_ok dev_name =
    (if \<not> alloc_ok then None
     else
       (case get_dev_info sf erange
               \<lparr>ud_flags = 0, ud_numa_id = 0, ud_api = [], ud_algs = [],
                ud_dev_root = take (MAX_DEV_NAME_LEN - 1) (SYS_CLASS_DIR @ ''/'' @ dev_name),
                ud_char_dev_path = take (MAX_DEV_NAME_LEN - 1) (''/dev/'' @ dev_name), ud_qfrs_mmio = 0, ud_qfrs_dus = 0\<rparr> of
          Inl _ \<Rightarrow> None
        | Inr dev \<Rightarrow> Some dev))"

subsection \<open>Names\<close>

text \<open>\<open>dup_ok\<close>: \<^verbatim>\<open>strndup\<close> gets memory.\<close>

definition wd_get_accel_name :: "bool \<Rightarrow> string option \<Rightarrow> int \<Rightarrow> string option" where
  "wd_get_accel_name dup_ok dev_path no_apdx =
    (case dev_path of
       None \<Rightarrow> None
     | Some path \<Rightarrow>
         if no_apdx \<noteq> 0 \<and> no_apdx \<noteq> 1 then None
         else if CHR ''-'' \<notin> set path then None
         else
           (let name = (case rindex path CHR ''/'' of Some t \<Rightarrow> if length t = 1 then [] else tl t | None \<Rightarrow> path) in
            if name = [] then None
            else
              (let dash = (if no_apdx = 1 then rindex name CHR ''-'' else None);
                   appendix = (case dash of None \<Rightarrow> False | Some d \<Rightarrow> tl d \<noteq> [] \<and> list_all isdigit (tl d));
                   len = (case dash of Some d \<Rightarrow> if appendix then length name - length d else length name | None \<Rightarrow> length name) in
               if dup_ok then Some (take len name) else None)))"

definition dev_has_alg :: "string \<Rightarrow> string \<Rightarrow> bool" where
  "dev_has_alg dev_alg_name alg_name =
    (case strstr dev_alg_name alg_name of
       None \<Rightarrow> False
     | Some i \<Rightarrow>
         (let e = i + length alg_name in
          (e = length dev_alg_name \<or> dev_alg_name ! e = CHR 0x0A) \<and> (i = 0 \<or> dev_alg_name ! (i - 1) = CHR 0x0A)))"

definition check_alg_name :: "string option \<Rightarrow> unit result" where
  "check_alg_name alg_name =
    (case alg_name of None \<Rightarrow> Inl WD_EINVAL | Some s \<Rightarrow> if length s \<ge> MAX_ATTR_STR_SIZE then Inl WD_EINVAL else Inr ())"

definition get_dev_alg_name :: "sysfs \<Rightarrow> string \<Rightarrow> nat \<Rightarrow> int + string" where
  "get_dev_alg_name sf d_name sz =
    (let path = SYS_CLASS_DIR @ ''/'' @ d_name in
     if length path > MAX_DEV_NAME_LEN then Inl (neg WD_EINVAL)
     else
       (case get_raw_attr sf (take (MAX_DEV_NAME_LEN - 1) path) ''algorithms'' sz of
          Inl e \<Rightarrow> Inl e
        | Inr s \<Rightarrow> Inr (if length s = sz then take (sz - 1) s else s)))"

subsection \<open>The list of devices\<close>

text \<open>
  The loop over the directory: the devices found so far, \<open>None\<close> when a node cannot be allocated (the list is then
  freed). \<open>oks\<close> are the outcomes of the allocations, one for the node and one for the device.
\<close>

fun accel_scan :: "sysfs \<Rightarrow> bool \<Rightarrow> string \<Rightarrow> string list \<Rightarrow> bool list \<Rightarrow> uacce_dev list \<Rightarrow> uacce_dev list option" where
  "accel_scan sf erange alg [] oks devs = Some devs"
| "accel_scan sf erange alg (d # ds) oks devs =
    (if take 1 d = ''.'' then accel_scan sf erange alg ds oks devs
     else if \<not> access_attr sf SYS_CLASS_DIR d then accel_scan sf erange alg ds oks devs
     else
       (case get_dev_alg_name sf d MAX_ATTR_STR_SIZE of
          Inl _ \<Rightarrow> accel_scan sf erange alg ds oks devs
        | Inr names \<Rightarrow>
            if \<not> dev_has_alg names alg then accel_scan sf erange alg ds oks devs
            else
              (let (node_ok, oks) = calloc_ok oks in
               if \<not> node_ok then None
               else
                 (let (dev_ok, oks) = calloc_ok oks in
                  case read_uacce_sysfs sf erange dev_ok d of
                    None \<Rightarrow> accel_scan sf erange alg ds oks devs
                  | Some dev \<Rightarrow> accel_scan sf erange alg ds oks (devs @ [dev])))))"

text \<open>\<^verbatim>\<open>NULL\<close> is the empty list.\<close>

definition wd_get_accel_list :: "sysfs \<Rightarrow> bool \<Rightarrow> string option \<Rightarrow> bool list \<Rightarrow> uacce_dev list" where
  "wd_get_accel_list sf erange alg_name oks =
    (case (check_alg_name alg_name, alg_name, sf_devs sf) of
       (Inr _, Some alg, Some ds) \<Rightarrow> (case accel_scan sf erange alg ds oks [] of None \<Rightarrow> [] | Some devs \<Rightarrow> devs)
     | _ \<Rightarrow> [])"

definition wd_get_avail_ctx :: "sysfs \<Rightarrow> bool \<Rightarrow> uacce_dev option \<Rightarrow> int" where
  "wd_get_avail_ctx sf erange dev =
    (case dev of
       None \<Rightarrow> neg WD_EINVAL
     | Some d \<Rightarrow> (case get_int_attr sf erange (ud_dev_root d) ''available_instances'' of Inl e \<Rightarrow> e | Inr v \<Rightarrow> v))"

text \<open>Nodes of the user's list may have no device.\<close>

fun numa_scan :: "(uacce_dev option \<Rightarrow> int) \<Rightarrow> int \<Rightarrow> uacce_dev option list \<Rightarrow> uacce_dev result \<Rightarrow> int \<Rightarrow> uacce_dev result" where
  "numa_scan avail numa_id [] dev ctx_max = dev"
| "numa_scan avail numa_id (p # ps) dev ctx_max =
    (case p of
       Some d \<Rightarrow>
         if numa_id \<noteq> ud_numa_id d then numa_scan avail numa_id ps dev ctx_max
         else if avail p > ctx_max then numa_scan avail numa_id ps (Inr d) (avail p)
         else numa_scan avail numa_id ps dev ctx_max
     | None \<Rightarrow> numa_scan avail numa_id ps dev ctx_max)"

definition wd_find_dev_by_numa :: "sysfs \<Rightarrow> bool \<Rightarrow> uacce_dev option list \<Rightarrow> int \<Rightarrow> uacce_dev result" where
  "wd_find_dev_by_numa sf erange list numa_id =
    (if list = [] then Inl WD_EINVAL
     else numa_scan (wd_get_avail_ctx sf erange) numa_id list (Inl WD_ENODEV) 0)"

fun accel_dev_scan ::
  "(int \<Rightarrow> int) \<Rightarrow> (uacce_dev option \<Rightarrow> int) \<Rightarrow> uacce_dev list \<Rightarrow> uacce_dev option \<Rightarrow> int \<Rightarrow> int \<Rightarrow> uacce_dev option" where
  "accel_dev_scan distance avail [] dev dis mx = dev"
| "accel_dev_scan distance avail (d # ds) dev dis mx =
    (let tmp = distance (ud_numa_id d); ctx_num = avail (Some d) in
     if dis > tmp \<and> ctx_num > 0 \<or> dis = tmp \<and> ctx_num > mx
     then accel_dev_scan distance avail ds (Some d) tmp ctx_num
     else accel_dev_scan distance avail ds dev dis mx)"

text \<open>
  \<open>node\<close> is what \<^verbatim>\<open>getcpu\<close> reports (\<open>None\<close> on failure or without a node), \<open>distance\<close> is \<^verbatim>\<open>numa_distance\<close>,
  \<open>clone_ok\<close> the allocation of the copy.
\<close>

definition wd_get_accel_dev ::
  "sysfs \<Rightarrow> bool \<Rightarrow> int option \<Rightarrow> (int \<Rightarrow> int \<Rightarrow> int) \<Rightarrow> bool list \<Rightarrow> bool \<Rightarrow> string option \<Rightarrow> uacce_dev option" where
  "wd_get_accel_dev sf erange node distance oks clone_ok alg_name =
    (case node of
       None \<Rightarrow> None
     | Some n \<Rightarrow>
         (case accel_dev_scan (distance n) (wd_get_avail_ctx sf erange) (wd_get_accel_list sf erange alg_name oks) None 1024 0 of
            None \<Rightarrow> None
          | Some d \<Rightarrow> if clone_ok then Some d else None))"

subsection \<open>Capabilities\<close>

record wd_capability =
  cp_alg_name :: string
  cp_drv_name :: string
  cp_available :: bool
  cp_priority :: int
  cp_calc_type :: int

fun cap_algs :: "wd_drv_node \<Rightarrow> wd_alg_entry list \<Rightarrow> bool list \<Rightarrow> wd_capability list \<Rightarrow> (bool list \<times> wd_capability list) option" where
  "cap_algs node [] oks caps = Some (oks, caps)"
| "cap_algs node (a # as) oks caps =
    (let (ok, oks) = calloc_ok oks in
     if \<not> ok then None
     else cap_algs node as oks (caps @ [\<lparr>cp_alg_name = ae_alg_name a, cp_drv_name = dn_drv_name node, cp_available = ae_available a,
                                        cp_priority = dn_priority node, cp_calc_type = dn_calc_type node\<rparr>]))"

fun cap_nodes :: "wd_drv_node list \<Rightarrow> bool list \<Rightarrow> wd_capability list \<Rightarrow> wd_capability list option" where
  "cap_nodes [] oks caps = Some caps"
| "cap_nodes (n # ns) oks caps =
    (case cap_algs n (dn_algs n) oks caps of None \<Rightarrow> None | Some (oks, caps) \<Rightarrow> cap_nodes ns oks caps)"

text \<open>The list of capabilities; \<open>None\<close> when an allocation failed (the nodes made so far are freed).\<close>

definition wd_get_alg_cap :: "bool list \<Rightarrow> wd_alg_registry \<Rightarrow> wd_capability list option" where
  "wd_get_alg_cap oks rg = cap_nodes (rg_nodes rg) oks []"

subsection \<open>Usage\<close>

definition wd_parse_usage_value :: "string \<Rightarrow> string \<Rightarrow> int" where
  "wd_parse_usage_value buf type_name =
    (case strstr buf type_name of
       None \<Rightarrow> neg WD_EINVAL
     | Some i \<Rightarrow> i32 (fst (strtol (drop (i + length type_name) buf))))"

definition zip_dae_algs :: "string list" where
  "zip_dae_algs = [''udma'', ''hashagg'', ''hashjoin'', ''gather'']"

definition hpre_ecc_algs :: "string list" where
  "hpre_ecc_algs = [''sm2'', ''ecdh'', ''x448'', ''x25519'', ''ecdsa'']"

definition wd_zip_usage_parse_fn :: "string \<Rightarrow> string \<Rightarrow> nat \<Rightarrow> int" where
  "wd_zip_usage_parse_fn buf alg_name alg_op_type =
    (if alg_name \<in> set zip_dae_algs then
       (if alg_op_type \<noteq> 0 then neg WD_EINVAL else wd_parse_usage_value buf ''DAE: '')
     else if alg_op_type = 0 then wd_parse_usage_value buf ''COMPRESS: ''
     else wd_parse_usage_value buf ''DECOMPRESS: '')"

definition wd_sec_usage_parse_fn :: "string \<Rightarrow> string \<Rightarrow> nat \<Rightarrow> int" where
  "wd_sec_usage_parse_fn buf alg_name alg_op_type = wd_parse_usage_value buf ''SEC: ''"

definition wd_hpre_usage_parse_fn :: "string \<Rightarrow> string \<Rightarrow> nat \<Rightarrow> int" where
  "wd_hpre_usage_parse_fn buf alg_name alg_op_type =
    (if alg_name \<in> set hpre_ecc_algs then wd_parse_usage_value buf ''ECC: '' else wd_parse_usage_value buf ''RSA: '')"

definition dev_usage_parse :: "(string \<times> nat \<times> (string \<Rightarrow> string \<Rightarrow> nat \<Rightarrow> int)) list" where
  "dev_usage_parse =
    [(''hisi_zip'', 2, wd_zip_usage_parse_fn), (''hisi_sec'', 1, wd_sec_usage_parse_fn), (''hisi_hpre'', 1, wd_hpre_usage_parse_fn)]"

definition wd_parse_dev_usage :: "uacce_dev \<Rightarrow> string \<Rightarrow> string \<Rightarrow> nat \<Rightarrow> int" where
  "wd_parse_dev_usage dev buf alg_name alg_op_type =
    (case List.find (\<lambda>(dev_name, _). strstr (ud_dev_root dev) dev_name \<noteq> None) dev_usage_parse of
       None \<Rightarrow> neg WD_EINVAL
     | Some (_, ops, parse) \<Rightarrow> if alg_op_type \<ge> ops then neg WD_EINVAL else parse buf alg_name alg_op_type)"

definition wd_read_dev_usage :: "sysfs \<Rightarrow> uacce_dev \<Rightarrow> string \<Rightarrow> nat \<Rightarrow> int" where
  "wd_read_dev_usage sf dev alg_name alg_op_type =
    (if \<not> access_attr sf (ud_dev_root dev) ''dev_usage'' then - 1
     else
       (case get_str_attr sf (ud_dev_root dev) ''dev_usage'' WD_DEV_USAGE_SIZE of
          Inl e \<Rightarrow> e
        | Inr buf \<Rightarrow> wd_parse_dev_usage dev buf alg_name alg_op_type))"

definition wd_get_dev_usage ::
  "sysfs \<Rightarrow> (wd_alg_driver \<Rightarrow> (string \<Rightarrow> nat \<Rightarrow> int) option) \<Rightarrow> wd_alg_registry \<Rightarrow> uacce_dev option \<Rightarrow> string option \<Rightarrow> nat \<Rightarrow> int" where
  "wd_get_dev_usage sf get_usage rg dev alg_name alg_op_type =
    (case (dev, alg_name) of
       (Some d, Some alg) \<Rightarrow>
         if \<not> dev_has_alg (ud_algs d) alg then neg WD_EINVAL
         else
           (case rindex (ud_char_dev_path d) CHR ''/'' of
              None \<Rightarrow> neg WD_EINVAL
            | Some t \<Rightarrow>
                (let ret = (case wd_alg_get_dev_usage get_usage rg (Some (tl t)) (Some alg) alg_op_type of
                              Inl e \<Rightarrow> neg e | Inr v \<Rightarrow> v) in
                 if ret = neg WD_EACCES then wd_read_dev_usage sf d alg alg_op_type else ret))
     | _ \<Rightarrow> neg WD_EINVAL)"

subsection \<open>Names and lines\<close>

lemma rindex_None: "rindex s c = None \<longleftrightarrow> c \<notin> set s"
  by (induction s) (auto split: option.splits)

lemma rindex_last: "c \<notin> set t \<Longrightarrow> rindex (s @ c # t) c = Some (c # t)"
proof (induction s)
  case Nil
  then have "rindex t c = None" by (simp add: rindex_None)
  then show ?case by simp
qed simp

text \<open>The driver name of a device is its name without the number, the device name keeps it.\<close>

lemma accel_name_parts:
  assumes "CHR ''/'' \<notin> set base" and "ds \<noteq> []" and "list_all isdigit ds"
  shows "wd_get_accel_name True (Some (dir @ CHR ''/'' # base @ CHR ''-'' # ds)) 1 = Some base"
    "wd_get_accel_name True (Some (dir @ CHR ''/'' # base @ CHR ''-'' # ds)) 0 = Some (base @ CHR ''-'' # ds)"
proof -
  have digit: "CHR ''/'' \<notin> set ds" "CHR ''-'' \<notin> set ds" using assms(3) by (auto simp: list_all_iff isdigit_def)
  have slash: "rindex (dir @ CHR ''/'' # base @ CHR ''-'' # ds) CHR ''/'' = Some (CHR ''/'' # base @ CHR ''-'' # ds)"
    by (rule rindex_last) (use assms(1) digit(1) in simp)
  have dash: "rindex (base @ CHR ''-'' # ds) CHR ''-'' = Some (CHR ''-'' # ds)" by (rule rindex_last) (use digit(2) in simp)
  show "wd_get_accel_name True (Some (dir @ CHR ''/'' # base @ CHR ''-'' # ds)) 1 = Some base"
    "wd_get_accel_name True (Some (dir @ CHR ''/'' # base @ CHR ''-'' # ds)) 0 = Some (base @ CHR ''-'' # ds)"
    using assms(2,3) slash dash by (simp_all add: wd_get_accel_name_def Let_def)
qed

lemma strstr_Some: "strstr s t = Some i \<Longrightarrow> \<exists>post. s = take i s @ t @ post \<and> i + length t \<le> length s"
proof (induction s t arbitrary: i rule: strstr.induct)
  case (2 c s t)
  show ?case
  proof (cases "take (length t) (c # s) = t")
    case True
    then have "c # s = t @ drop (length t) (c # s)" by (metis append_take_drop_id)
    moreover have "length t \<le> length (c # s)" using True by (metis length_take min.cobounded1)
    ultimately show ?thesis using True 2(2) by (intro exI [of _ "drop (length t) (c # s)"]) simp
  next
    case False
    then show ?thesis using 2 by auto
  qed
qed (auto split: if_splits)

text \<open>A device is said to have an algorithm only if one of the lines of its attribute is the name of the algorithm.\<close>

definition has_line :: "string \<Rightarrow> string \<Rightarrow> bool" where
  "has_line s a \<longleftrightarrow> (\<exists>pre post. s = pre @ a @ post \<and> (pre = [] \<or> last pre = CHR 0x0A) \<and> (post = [] \<or> hd post = CHR 0x0A))"

lemma dev_has_alg_line:
  assumes "dev_has_alg s a"
  shows "has_line s a"
proof -
  from assms obtain i where i: "strstr s a = Some i" "i + length a = length s \<or> s ! (i + length a) = CHR 0x0A" "i = 0 \<or> s ! (i - 1) = CHR 0x0A"
    by (auto simp: dev_has_alg_def Let_def split: option.splits)
  from strstr_Some [OF i(1)] obtain post where s: "s = take i s @ a @ post" "i + length a \<le> length s" by blast
  have "drop (i + length a) s = post" by (subst s(1)) (use s(2) in simp)
  then have "post = [] \<or> hd post = CHR 0x0A" using i(2) s(2) by (metis drop_all hd_drop_conv_nth le_neq_implies_less order_refl)
  moreover have "take i s = [] \<or> last (take i s) = CHR 0x0A"
  proof (cases "i = 0")
    case False
    then have "take i s \<noteq> []" "length (take i s) = i" using s(2) by auto
    then show ?thesis using i(3) False by (simp add: last_conv_nth)
  qed simp
  ultimately show ?thesis using s(1) unfolding has_line_def by blast
qed

text \<open>The converse fails: only the first occurrence of the name is looked at.\<close>

lemma dev_has_alg_misses: "\<not> dev_has_alg (''ecdh'' @ CHR 0x0A # ''dh'') ''dh''"
  by (simp add: dev_has_alg_def)

subsection \<open>Choosing a device\<close>

text \<open>\<open>better\<close> devices are nearer, or as near with more free contexts.\<close>

definition usable_dev :: "(int \<Rightarrow> int) \<Rightarrow> (uacce_dev option \<Rightarrow> int) \<Rightarrow> uacce_dev \<Rightarrow> bool" where
  "usable_dev distance avail d \<longleftrightarrow> avail (Some d) > 0 \<and> distance (ud_numa_id d) \<le> 1024"

definition no_better :: "(int \<Rightarrow> int) \<Rightarrow> (uacce_dev option \<Rightarrow> int) \<Rightarrow> int \<Rightarrow> int \<Rightarrow> uacce_dev \<Rightarrow> bool" where
  "no_better distance avail dis mx d \<longleftrightarrow>
     avail (Some d) \<le> 0 \<or> dis < distance (ud_numa_id d) \<or> dis = distance (ud_numa_id d) \<and> avail (Some d) \<le> mx"

definition best_dev :: "(int \<Rightarrow> int) \<Rightarrow> (uacce_dev option \<Rightarrow> int) \<Rightarrow> uacce_dev list \<Rightarrow> uacce_dev \<Rightarrow> bool" where
  "best_dev distance avail ds d \<longleftrightarrow> d \<in> set ds \<and> usable_dev distance avail d \<and>
     list_all (no_better distance avail (distance (ud_numa_id d)) (avail (Some d))) ds"

lemma accel_dev_scan_spec:
  assumes "accel_dev_scan distance avail ds dev dis mx = r" and "0 \<le> mx" and "dis \<le> 1024"
  shows "(r = dev \<and> list_all (no_better distance avail dis mx) ds) \<or>
    (\<exists>d \<in> set ds. r = Some d \<and> usable_dev distance avail d \<and> list_all (no_better distance avail (distance (ud_numa_id d)) (avail (Some d))) ds \<and>
       (distance (ud_numa_id d) < dis \<or> distance (ud_numa_id d) = dis \<and> mx < avail (Some d)))"
  using assms
proof (induction ds arbitrary: dev dis mx)
  case (Cons d ds)
  let ?t = "distance (ud_numa_id d)" and ?n = "avail (Some d)"
  show ?case
  proof (cases "dis > ?t \<and> ?n > 0 \<or> dis = ?t \<and> ?n > mx")
    case True
    then have scan: "accel_dev_scan distance avail ds (Some d) ?t ?n = r" and nn: "0 \<le> ?n" "?t \<le> 1024" using Cons.prems by (auto simp: Let_def)
    have d: "usable_dev distance avail d" "no_better distance avail ?t ?n d" using True nn Cons.prems(2) by (auto simp: usable_dev_def no_better_def)
    from Cons.IH [OF scan nn] consider (same) "r = Some d" "list_all (no_better distance avail ?t ?n) ds"
      | (other) e where "e \<in> set ds" "r = Some e" "usable_dev distance avail e"
        "list_all (no_better distance avail (distance (ud_numa_id e)) (avail (Some e))) ds"
        "distance (ud_numa_id e) < ?t \<or> distance (ud_numa_id e) = ?t \<and> ?n < avail (Some e)" by auto
    then show ?thesis
    proof cases
      case same
      then show ?thesis using True d by auto
    next
      case e: (other e)
      then have "no_better distance avail (distance (ud_numa_id e)) (avail (Some e)) d" by (auto simp: no_better_def)
      then show ?thesis using e True by auto
    qed
  next
    case False
    then have scan: "accel_dev_scan distance avail ds dev dis mx = r" using Cons.prems(1) by (auto simp: Let_def)
    have d: "no_better distance avail dis mx d" using False by (auto simp: no_better_def)
    from Cons.IH [OF scan Cons.prems(2,3)] consider (same) "r = dev" "list_all (no_better distance avail dis mx) ds"
      | (other) e where "e \<in> set ds" "r = Some e" "usable_dev distance avail e"
        "list_all (no_better distance avail (distance (ud_numa_id e)) (avail (Some e))) ds"
        "distance (ud_numa_id e) < dis \<or> distance (ud_numa_id e) = dis \<and> mx < avail (Some e)" by auto
    then show ?thesis
    proof cases
      case e: (other e)
      then have "no_better distance avail (distance (ud_numa_id e)) (avail (Some e)) d" using d by (auto simp: no_better_def)
      then show ?thesis using e by auto
    qed (use d in auto)
  qed
qed simp

text \<open>A line of the device's attribute is the name of the algorithm; every device of the list is such a device.\<close>

definition offers :: "sysfs \<Rightarrow> string option \<Rightarrow> uacce_dev \<Rightarrow> bool" where
  "offers sf alg_name d \<longleftrightarrow> (\<exists>alg nm names. alg_name = Some alg \<and> ud_dev_root d = take (MAX_DEV_NAME_LEN - 1) (SYS_CLASS_DIR @ ''/'' @ nm) \<and>
     get_dev_alg_name sf nm MAX_ATTR_STR_SIZE = Inr names \<and> has_line names alg)"

lemma get_dev_info_root: "get_dev_info sf erange dev = Inr d \<Longrightarrow> ud_dev_root d = ud_dev_root dev"
  by (auto simp: get_dev_info_def Let_def split: sum.splits if_splits)

lemma read_sysfs_root:
  "read_uacce_sysfs sf erange ok nm = Some d \<Longrightarrow> ud_dev_root d = take (MAX_DEV_NAME_LEN - 1) (SYS_CLASS_DIR @ ''/'' @ nm)"
  by (auto simp: read_uacce_sysfs_def dest!: get_dev_info_root split: if_splits sum.splits)

lemma accel_scan_offers:
  "accel_scan sf erange alg ds oks devs = Some r \<Longrightarrow> list_all (offers sf (Some alg)) devs \<Longrightarrow> list_all (offers sf (Some alg)) r"
proof (induction ds arbitrary: oks devs)
  case (Cons nm ds)
  from Cons.prems(1) consider (skip) oks' where "accel_scan sf erange alg ds oks' devs = Some r"
    | (take) names ok oks' d where "get_dev_alg_name sf nm MAX_ATTR_STR_SIZE = Inr names" "dev_has_alg names alg"
      "read_uacce_sysfs sf erange ok nm = Some d" "accel_scan sf erange alg ds oks' (devs @ [d]) = Some r"
    by (auto simp: Let_def split: if_splits sum.splits prod.splits option.splits)
  then show ?case
  proof cases
    case skip
    then show ?thesis using Cons by blast
  next
    case take
    then have "offers sf (Some alg) d" using read_sysfs_root dev_has_alg_line unfolding offers_def by blast
    then show ?thesis using Cons.IH [OF take(4)] Cons.prems(2) by simp
  qed
qed simp

lemma accel_list_offers: "list_all (offers sf alg_name) (wd_get_accel_list sf erange alg_name oks)"
  using accel_scan_offers [of sf erange _ _ oks "[]"]
  by (auto simp: wd_get_accel_list_def split: option.splits sum.splits)

text \<open>
  C13: The device that is chosen for an algorithm, among the devices that \<^verbatim>\<open>wd_get_accel_list\<close> lists. The chosen one offers the
  algorithm (its name is a line of the device's attribute), has free contexts, is at least as near to the current node as
  every other listed device with free contexts, and among the listed devices of the same distance has the most free contexts.
  There is no device only if the current node is unknown, the copy cannot be allocated, or no listed device has a free context
  within the distance limit.
\<close>

theorem accel_dev_nearest:
  "let devs = wd_get_accel_list sf erange alg_name oks; avail = wd_get_avail_ctx sf erange in
   case node of
     None \<Rightarrow> wd_get_accel_dev sf erange node distance oks clone_ok alg_name = None
   | Some n \<Rightarrow>
       (case wd_get_accel_dev sf erange node distance oks clone_ok alg_name of
          None \<Rightarrow> if clone_ok then list_all (\<lambda>d. \<not> usable_dev (distance n) avail d) devs else True
        | Some d \<Rightarrow> clone_ok \<and> offers sf alg_name d \<and> best_dev (distance n) avail devs d)"
proof (cases node)
  case None
  then show ?thesis by (simp add: wd_get_accel_dev_def)
next
  case (Some n)
  let ?devs = "wd_get_accel_list sf erange alg_name oks" and ?avail = "wd_get_avail_ctx sf erange"
  let ?r = "accel_dev_scan (distance n) ?avail ?devs None 1024 0"
  have eq: "wd_get_accel_dev sf erange (Some n) distance oks clone_ok alg_name = (if clone_ok then ?r else None)"
    by (simp add: wd_get_accel_dev_def split: option.splits)
  from accel_dev_scan_spec [of "distance n" ?avail ?devs None 1024 0 ?r]
  consider (none) "?r = None" "list_all (no_better (distance n) ?avail 1024 0) ?devs"
    | (some) d where "?r = Some d" "best_dev (distance n) ?avail ?devs d" by (auto simp: best_dev_def)
  then show ?thesis
  proof cases
    case none
    then show ?thesis unfolding Some eq Let_def by (auto simp: list_all_iff usable_dev_def no_better_def)
  next
    case some
    then have "offers sf alg_name d" using accel_list_offers by (auto simp: best_dev_def list_all_iff)
    then show ?thesis using some unfolding Some eq Let_def by simp
  qed
qed

subsection \<open>The capability list\<close>

definition capabilities :: "wd_drv_node \<Rightarrow> wd_capability list" where
  "capabilities n = map (\<lambda>a. \<lparr>cp_alg_name = ae_alg_name a, cp_drv_name = dn_drv_name n, cp_available = ae_available a,
     cp_priority = dn_priority n, cp_calc_type = dn_calc_type n\<rparr>) (dn_algs n)"

lemma cap_algs_spec: "cap_algs n as [] caps = Some ([], caps @ map (\<lambda>a. \<lparr>cp_alg_name = ae_alg_name a, cp_drv_name = dn_drv_name n,
    cp_available = ae_available a, cp_priority = dn_priority n, cp_calc_type = dn_calc_type n\<rparr>) as)"
  by (induction as arbitrary: caps) simp_all

lemma cap_nodes_spec: "cap_nodes ns [] caps = Some (caps @ concat (map capabilities ns))"
  by (induction ns arbitrary: caps) (simp_all add: cap_algs_spec capabilities_def)

lemma alg_cap_flattens: "wd_get_alg_cap [] rg = Some (concat (map capabilities (rg_nodes rg)))"
  by (simp add: wd_get_alg_cap_def cap_nodes_spec)

end
