(* ===== verification/Mempool_Huge.thy ===== *)
theory Mempool_Huge
  imports Mempool_Blocks Wd_Device
begin

text \<open>
  The memory behind a memory pool (\<^verbatim>\<open>wd_mempool.c\<close>, lines 611--1014): reading the huge pages of a NUMA node from sysfs,
  choosing the page size, mapping, creating and destroying the pool, and the statistics.

  \<open>sf_exists\<close> tells whether \<^verbatim>\<open>realpath\<close> accepts a path; the number in \<^verbatim>\<open>errno\<close> is passed in where the code returns it. The
  mappings of the process are a list of address and size. Destroying waits until no block pool is left; with block pools
  that nobody destroys it has no outcome.
\<close>

definition SYSFS_NODE_PATH :: string where "SYSFS_NODE_PATH = ''/sys/devices/system/node/node''"
definition WD_MEMPOOL_BLOCK_SIZE :: nat where "WD_MEMPOOL_BLOCK_SIZE = 4096"
definition PAGE_SIZE_OFFSET :: nat where "PAGE_SIZE_OFFSET = 10"
definition WD_HUNDRED :: nat where "WD_HUNDRED = 100"
definition HUGETLB_FLAG_ENCODE_SHIFT :: nat where "HUGETLB_FLAG_ENCODE_SHIFT = 26"

subsection \<open>The huge pages of a node\<close>

definition get_value_from_sysfs :: "sysfs \<Rightarrow> nat \<Rightarrow> string \<Rightarrow> int" where
  "get_value_from_sysfs sf errno path =
    (if \<not> sf_exists sf path then neg WD_ENODEV
     else
       (case sf_read sf path of
          None \<Rightarrow> - int errno
        | Some content \<Rightarrow>
            (let buf = take (MAX_ATTR_STR_SIZE - 1) content; (v, ovf) = strtol buf in
             if buf = [] then - int errno
             else if ovf \<or> int errno = ERANGE then - ERANGE
             else i32 v)))"

definition get_hugepage_info_per_type :: "sysfs \<Rightarrow> nat \<Rightarrow> string \<Rightarrow> string \<Rightarrow> int + sys_hugepage_config" where
  "get_hugepage_info_per_type sf errno hugepage_path name =
    (case dropWhile (\<lambda>c. c \<noteq> CHR ''-'') name of
       [] \<Rightarrow> Inl (neg WD_EINVAL)
     | _ # size_pos \<Rightarrow>
         (let (v, ovf) = strtol size_pos; page_size = u64 (u64_of_int v * 2 ^ PAGE_SIZE_OFFSET);
              file = (\<lambda>f. take (MAX_ATTR_STR_SIZE - 1) (hugepage_path @ ''/'' @ name @ ''/'' @ f));
              total = get_value_from_sysfs sf errno (file ''nr_hugepages'');
              free = get_value_from_sysfs sf errno (file ''free_hugepages'') in
          if ovf then Inl (- ERANGE)
          else if total < 0 then Inl total
          else if free < 0 then Inl free
          else Inr \<lparr>hp_page_size = page_size, hp_total_num = nat total, hp_free_num = nat free\<rparr>))"

text \<open>The new entry goes before the first one with a larger page size.\<close>

fun hp_insert :: "sys_hugepage_config \<Rightarrow> sys_hugepage_config list \<Rightarrow> sys_hugepage_config list" where
  "hp_insert tmp [] = [tmp]"
| "hp_insert tmp (h # hs) = (if hp_page_size tmp < hp_page_size h then tmp # h # hs else h # hp_insert tmp hs)"

fun hp_scan :: "sysfs \<Rightarrow> nat \<Rightarrow> string \<Rightarrow> string list \<Rightarrow> bool list \<Rightarrow> sys_hugepage_config list \<Rightarrow> int + sys_hugepage_config list" where
  "hp_scan sf errno path [] oks hps = Inr hps"
| "hp_scan sf errno path (d # ds) oks hps =
    (if take 1 d = ''.'' then hp_scan sf errno path ds oks hps
     else
       (let (ok, oks) = calloc_ok oks in
        if \<not> ok then Inl (neg WD_EIO)
        else
          (case get_hugepage_info_per_type sf errno path d of
             Inl _ \<Rightarrow> Inl (neg WD_EIO)
           | Inr tmp \<Rightarrow> hp_scan sf errno path ds oks (hp_insert tmp hps))))"

text \<open>
  \<open>dir_errno\<close> is \<^verbatim>\<open>errno\<close> after a failed \<^verbatim>\<open>opendir\<close>. \<open>node_path\<close> is the printed path of the node's directory, \<open>entries\<close> its contents (\<open>None\<close> when it cannot be opened). The result
  replaces the list of the pool; on failure that is empty.
\<close>

definition get_hugepage_info :: "sysfs \<Rightarrow> nat \<Rightarrow> nat \<Rightarrow> string \<Rightarrow> string list option \<Rightarrow> bool list \<Rightarrow> int + sys_hugepage_config list" where
  "get_hugepage_info sf errno dir_errno node_path entries oks =
    (case entries of None \<Rightarrow> Inl (- int dir_errno) | Some ds \<Rightarrow> hp_scan sf errno node_path ds oks [])"

subsection \<open>Mapping\<close>

text \<open>What the system answers: the address of \<^verbatim>\<open>mmap\<close> (\<open>None\<close> for failure) and the value of \<^verbatim>\<open>mbind\<close>.\<close>

record hp_env =
  he_sysfs :: sysfs
  he_errno :: nat
  he_dir_errno :: nat
  he_path :: string
  he_entries :: "string list option"
  he_oks :: "bool list"
  he_mmap :: "nat option"
  he_mbind :: int

definition hugepage_fits :: "nat \<Rightarrow> sys_hugepage_config \<Rightarrow> bool" where
  "hugepage_fits sz h \<longleftrightarrow> u64 (hp_page_size h * hp_free_num h) \<ge> sz"

definition mmap_flags :: "nat \<Rightarrow> nat option" where
  "mmap_flags page_size =
    map_option (\<lambda>i. i * 2 ^ HUGETLB_FLAG_ENCODE_SHIFT) (find_next_bit [word_of_nat page_size] 64 0 0)"

text \<open>The status, the pool and the mappings; no outcome where the search for the flags leaves the word.\<close>

definition alloc_mem_from_hugepage :: "hp_env \<Rightarrow> mempool \<Rightarrow> (nat \<times> nat) list \<Rightarrow> (int \<times> mempool \<times> (nat \<times> nat) list) option" where
  "alloc_mem_from_hugepage ev mp maps =
    (case get_hugepage_info (he_sysfs ev) (he_errno ev) (he_dir_errno ev) (he_path ev) (he_entries ev) (he_oks ev) of
       Inl e \<Rightarrow> Some (e, mp\<lparr>mp_hp_list := []\<rparr>, maps)
     | Inr hps \<Rightarrow>
         (case List.find (hugepage_fits (mp_size mp)) hps of
            None \<Rightarrow> Some (neg WD_ENOMEM, mp\<lparr>mp_hp_list := []\<rparr>, maps)
          | Some iter \<Rightarrow>
              (let page_num = mp_size mp div hp_page_size iter + (if mp_size mp mod hp_page_size iter \<noteq> 0 then 1 else 0);
                   real_size = u64 (page_num * hp_page_size iter) in
               case mmap_flags (hp_page_size iter) of
                 None \<Rightarrow> None
               | Some flags \<Rightarrow>
                   (case he_mmap ev of
                      None \<Rightarrow> Some (neg WD_ENOMEM, mp\<lparr>mp_hp_list := []\<rparr>, maps)
                    | Some p \<Rightarrow>
                        if he_mbind ev < 0 then Some (he_mbind ev, mp\<lparr>mp_hp_list := []\<rparr>, maps)
                        else Some (0, mp\<lparr>mp_hp_list := hps, mp_page_type := WD_HUGE_PAGE, mp_page_size := hp_page_size iter,
                                        mp_page_num := u32 page_num, mp_addr := p, mp_real_size := real_size\<rparr>, (p, real_size) # maps)))))"

definition free_hugepage_mem :: "mempool \<Rightarrow> (nat \<times> nat) list \<Rightarrow> mempool \<times> (nat \<times> nat) list" where
  "free_hugepage_mem mp maps =
    (mp\<lparr>mp_hp_list := []\<rparr>, remove1 (mp_addr mp, u64 (mp_page_size mp * mp_page_num mp)) maps)"

definition init_mempool :: "bool list \<Rightarrow> mempool \<Rightarrow> unit result \<times> mempool" where
  "init_mempool oks mp =
    (let bits = i32 (int (mp_size mp div mp_blk_size mp)) in
     case create_bitmap oks bits of
       (None, _) \<Rightarrow> (Inl WD_ENOMEM, mp)
     | (Some bm, _) \<Rightarrow> (Inr (), mp\<lparr>mp_bitmap := Some bm, mp_free_blk_num := u64_of_int bits, mp_blk_num := u32_of_int bits\<rparr>))"

definition uninit_mempool :: "mempool \<Rightarrow> mempool" where
  "uninit_mempool mp = mp\<lparr>mp_bitmap := None\<rparr>"

text \<open>
  \<open>alloc_ok\<close>: the structure gets memory; \<open>spin\<close>: the value of \<^verbatim>\<open>pthread_spin_init\<close>; \<open>oks\<close>: the allocations of the bitmap. The
  \<^verbatim>\<open>int\<close> result of a failing step is replaced by \<^verbatim>\<open>-WD_ENOMEM\<close>.
\<close>

definition wd_mempool_create ::
  "hp_env \<Rightarrow> int \<Rightarrow> bool \<Rightarrow> int \<Rightarrow> bool list \<Rightarrow> nat \<Rightarrow> int \<Rightarrow> (nat \<times> nat) list \<Rightarrow> (mempool result \<times> (nat \<times> nat) list) option" where
  "wd_mempool_create ev numa_max alloc_ok spin oks sz node maps =
    (if sz = 0 \<or> node < 0 \<or> node > numa_max then Some (Inl WD_EINVAL, maps)
     else
       (let tmp = (if sz mod WD_MEMPOOL_BLOCK_SIZE \<noteq> 0 then u64 (sz + (WD_MEMPOOL_BLOCK_SIZE - sz mod WD_MEMPOOL_BLOCK_SIZE)) else sz) in
        if \<not> alloc_ok then Some (Inl WD_ENOMEM, maps)
        else if spin < 0 then Some (Inl WD_ENOMEM, maps)
        else
          (case alloc_mem_from_hugepage ev
                  \<lparr>mp_page_type = WD_HUGE_PAGE, mp_page_size = 0, mp_page_num = 0, mp_blk_size = WD_MEMPOOL_BLOCK_SIZE, mp_blk_num = 0,
                   mp_node = node, mp_addr = 0, mp_size = tmp, mp_real_size = 0, mp_bitmap = None, mp_ref = 0, mp_hp_list = [],
                   mp_free_blk_num = 0\<rparr> maps of
             None \<Rightarrow> None
           | Some (ret, mp, maps) \<Rightarrow>
               if ret < 0 then Some (Inl WD_ENOMEM, maps)
               else
                 (case init_mempool oks mp of
                    (Inl _, mp) \<Rightarrow> Some (Inl WD_ENOMEM, snd (free_hugepage_mem mp maps))
                  | (Inr _, mp) \<Rightarrow> Some (Inr (mp\<lparr>mp_ref := wd_atomic_add (mp_ref mp) 1\<rparr>), maps)))))"

definition wd_mempool_destroy :: "mempool option \<Rightarrow> (nat \<times> nat) list \<Rightarrow> (nat \<times> nat) list option" where
  "wd_mempool_destroy mempool maps =
    (case mempool of
       None \<Rightarrow> Some maps
     | Some mp \<Rightarrow>
         if wd_atomic_sub (mp_ref mp) 1 \<noteq> 0 then None
         else Some (snd (free_hugepage_mem (uninit_mempool (mp\<lparr>mp_ref := wd_atomic_sub (mp_ref mp) 1\<rparr>)) maps)))"

subsection \<open>Statistics\<close>

record wd_mempool_stats =
  ms_page_type :: wd_page_type
  ms_page_size :: nat
  ms_page_num :: nat
  ms_blk_size :: nat
  ms_blk_num :: nat
  ms_free_blk_num :: nat
  ms_blk_usage_rate :: nat

text \<open>The caller's structure, \<open>None\<close> for a null pointer; no outcome where the code divides by 0.\<close>

definition wd_mempool_stats_of :: "mempool option \<Rightarrow> wd_mempool_stats option \<Rightarrow> wd_mempool_stats option option" where
  "wd_mempool_stats_of mempool stats =
    (case (mempool, stats) of
       (Some mp, Some _) \<Rightarrow>
         if mp_blk_num mp = 0 then None
         else Some (Some \<lparr>ms_page_type = mp_page_type mp, ms_page_size = mp_page_size mp, ms_page_num = mp_page_num mp,
                ms_blk_size = mp_blk_size mp, ms_blk_num = mp_blk_num mp, ms_free_blk_num = mp_free_blk_num mp,
                ms_blk_usage_rate = u64 (sub64 (mp_blk_num mp) (mp_free_blk_num mp) div mp_blk_num mp * WD_HUNDRED)\<rparr>)
     | _ \<Rightarrow> Some stats)"

record wd_blockpool_stats =
  bs_block_size :: nat
  bs_block_num :: nat
  bs_free_block_num :: nat
  bs_block_usage_rate :: nat
  bs_mem_waste_rate :: nat

definition wd_blockpool_stats_of :: "mempool \<Rightarrow> blkpool option \<Rightarrow> wd_blockpool_stats option \<Rightarrow> wd_blockpool_stats option option" where
  "wd_blockpool_stats_of mp blkpool stats =
    (case (blkpool, stats) of
       (Some bp, Some stats) \<Rightarrow>
         if bp_depth bp = 0 then None
         else
           (let stats = stats\<lparr>bs_block_size := bp_blk_size bp, bs_block_num := bp_depth bp, bs_free_block_num := bp_free_block_num bp,
                  bs_block_usage_rate := u64 (sub64 (bp_depth bp) (bp_free_block_num bp) div bp_depth bp * WD_HUNDRED)\<rparr>;
                sz = fold (\<lambda>z s. u64 (s + (sub64 (mz_end z) (mz_begin z) + 1) * mp_blk_size mp)) (bp_mz_list bp) 0 in
            if sz = 0 then Some (Some stats)
            else Some (Some (stats\<lparr>bs_mem_waste_rate := u64 (sub64 sz (u64 (bp_blk_size bp * bp_depth bp)) div sz * WD_HUNDRED)\<rparr>)))
     | _ \<Rightarrow> Some stats)"

subsection \<open>The choice of the page size\<close>

abbreviation by_page_size :: "sys_hugepage_config \<Rightarrow> sys_hugepage_config \<Rightarrow> bool" where
  "by_page_size a b \<equiv> hp_page_size a \<le> hp_page_size b"

lemma set_hp_insert: "set (hp_insert t hs) = insert t (set hs)"
  by (induction hs) auto

lemma hp_insert_sorted: "sorted_wrt by_page_size hs \<Longrightarrow> sorted_wrt by_page_size (hp_insert t hs)"
proof (induction hs)
  case (Cons h hs)
  then show ?case by (auto simp: set_hp_insert)
qed simp

lemma per_type_kib: "get_hugepage_info_per_type sf errno path d = Inr h \<Longrightarrow> 1024 dvd hp_page_size h \<and> hp_page_size h < 2 ^ 64"
  by (auto simp: get_hugepage_info_per_type_def PAGE_SIZE_OFFSET_def u64_def Let_def mod_mult_right_eq dvd_mod split: list.splits prod.splits if_splits)

lemma hp_scan_spec:
  assumes "hp_scan sf errno path ds oks hps = Inr r" and "sorted_wrt by_page_size hps"
    and "\<forall>h \<in> set hps. 1024 dvd hp_page_size h \<and> hp_page_size h < 2 ^ 64"
  shows "sorted_wrt by_page_size r \<and> (\<forall>h \<in> set r. 1024 dvd hp_page_size h \<and> hp_page_size h < 2 ^ 64)"
  using assms
proof (induction ds arbitrary: oks hps)
  case (Cons d ds)
  from Cons.prems(1) consider (skip) "hp_scan sf errno path ds oks hps = Inr r"
    | (new) oks' t where "get_hugepage_info_per_type sf errno path d = Inr t" "hp_scan sf errno path ds oks' (hp_insert t hps) = Inr r"
    by (auto split: if_splits sum.splits prod.splits simp: Let_def)
  then show ?case
  proof cases
    case skip
    show ?thesis by (rule Cons.IH [OF skip Cons.prems(2,3)])
  next
    case new
    have "\<forall>h \<in> set (hp_insert t hps). 1024 dvd hp_page_size h \<and> hp_page_size h < 2 ^ 64"
      unfolding set_hp_insert using Cons.prems(3) per_type_kib [OF new(1)] by blast
    then show ?thesis by (rule Cons.IH [OF new(2) hp_insert_sorted [OF Cons.prems(2)]])
  qed
qed simp

text \<open>The first entry that fits has the smallest page size of all that fit.\<close>

lemma find_smallest:
  assumes "sorted_wrt by_page_size hps" and "List.find P hps = Some h"
  shows "h \<in> set hps \<and> P h \<and> (\<forall>k \<in> set hps. P k \<longrightarrow> hp_page_size h \<le> hp_page_size k)"
  using assms by (induction hps) (auto split: if_splits)

lemma mmap_flags_found:
  assumes "0 < n" and "n < 2 ^ 64"
  shows "mmap_flags n \<noteq> None"
proof -
  have "(word_of_nat n :: 64 word) \<noteq> 0" using assms by (simp add: word_of_nat_eq_0_iff dvd_imp_le nat_dvd_not_less)
  then show ?thesis by (simp add: mmap_flags_def find_next_bit_def find_next_bit_loop.simps [of "[_]"])
qed

subsection \<open>Creating a pool\<close>

definition pages_for :: "nat \<Rightarrow> nat \<Rightarrow> nat" where
  "pages_for sz ps = sz div ps + (if sz mod ps \<noteq> 0 then 1 else 0)"

lemma pages_for_bounds:
  assumes "0 < sz" and "sz < 2 ^ 41" and "1024 dvd ps" and "0 < ps" and "ps < 2 ^ 64"
  shows "sz \<le> pages_for sz ps * ps" "pages_for sz ps * ps < 2 ^ 64" "pages_for sz ps < 2 ^ 32"
proof -
  have split: "sz = sz div ps * ps + sz mod ps" "sz mod ps < ps" using assms(4) by simp_all
  show "sz \<le> pages_for sz ps * ps"
  proof (cases "sz mod ps = 0")
    case False
    then have "pages_for sz ps * ps = sz div ps * ps + ps" by (simp add: pages_for_def)
    then show ?thesis using split by linarith
  qed (auto simp: pages_for_def)
  have ps: "1024 \<le> ps" using assms(3,4) by (auto dest: dvd_imp_le)
  have "sz div ps \<le> sz div 1024" using ps by (rule div_le_mono2 [rotated]) simp
  also have "sz div 1024 \<le> 2 ^ 31" using assms(2) by (simp add: div_le_mono less_imp_le flip: power_add)
  finally show "pages_for sz ps < 2 ^ 32" by (simp add: pages_for_def)
  show "pages_for sz ps * ps < 2 ^ 64"
  proof (cases "sz \<le> ps")
    case True
    then have "pages_for sz ps = 1" using assms(1) by (cases "sz = ps") (auto simp: pages_for_def)
    then show ?thesis using assms(5) by simp
  next
    case False
    have "sz div ps * ps \<le> sz" by simp
    then have "pages_for sz ps * ps \<le> sz + ps" by (auto simp: pages_for_def)
    then show ?thesis using False assms(2) by simp
  qed
qed

definition page_choice :: "hp_env \<Rightarrow> nat \<Rightarrow> sys_hugepage_config list \<Rightarrow> sys_hugepage_config \<Rightarrow> bool" where
  "page_choice ev sz hps h \<longleftrightarrow>
     get_hugepage_info (he_sysfs ev) (he_errno ev) (he_dir_errno ev) (he_path ev) (he_entries ev) (he_oks ev) = Inr hps \<and>
     h \<in> set hps \<and> hugepage_fits sz h \<and> list_all (\<lambda>k. hugepage_fits sz k \<longrightarrow> hp_page_size h \<le> hp_page_size k) hps"

lemma hugepage_info_spec:
  assumes "get_hugepage_info sf errno de path entries oks = r" and "0 < de"
  shows "case r of Inl e \<Rightarrow> e < 0 | Inr hps \<Rightarrow> sorted_wrt by_page_size hps \<and> (\<forall>h \<in> set hps. 1024 dvd hp_page_size h \<and> hp_page_size h < 2 ^ 64)"
proof -
  have fail: "hp_scan sf errno path ds oks hps = Inl e \<Longrightarrow> e < 0" for ds oks hps e
    by (induction ds arbitrary: oks hps) (auto simp: neg_def Let_def split: if_splits sum.splits prod.splits)
  show ?thesis
  proof (cases entries)
    case None
    then show ?thesis using assms by (auto simp: get_hugepage_info_def)
  next
    case (Some ds)
    then have scan: "hp_scan sf errno path ds oks [] = r" using assms(1) by (simp add: get_hugepage_info_def)
    show ?thesis
    proof (cases r)
      case (Inl e)
      then show ?thesis using fail scan by simp
    next
      case (Inr hps)
      from hp_scan_spec [OF scan [unfolded Inr]] show ?thesis by (simp add: Inr)
    qed
  qed
qed

lemma alloc_hugepage_cases:
  assumes sz: "0 < mp_size mp" "mp_size mp < 2 ^ 41" and de: "0 < he_dir_errno ev"
  obtains (fail) e mp' where "alloc_mem_from_hugepage ev mp maps = Some (e, mp', maps)" "e < 0"
    | (ok) hps h p where "page_choice ev (mp_size mp) hps h" "he_mmap ev = Some p" "mp_size mp \<le> pages_for (mp_size mp) (hp_page_size h) * hp_page_size h"
      "pages_for (mp_size mp) (hp_page_size h) * hp_page_size h < 2 ^ 64" "pages_for (mp_size mp) (hp_page_size h) < 2 ^ 32"
      "alloc_mem_from_hugepage ev mp maps = Some (0, mp\<lparr>mp_hp_list := hps, mp_page_type := WD_HUGE_PAGE, mp_page_size := hp_page_size h,
         mp_page_num := pages_for (mp_size mp) (hp_page_size h), mp_addr := p,
         mp_real_size := pages_for (mp_size mp) (hp_page_size h) * hp_page_size h\<rparr>,
         (p, pages_for (mp_size mp) (hp_page_size h) * hp_page_size h) # maps)"
proof -
  let ?r = "get_hugepage_info (he_sysfs ev) (he_errno ev) (he_dir_errno ev) (he_path ev) (he_entries ev) (he_oks ev)"
  note info = hugepage_info_spec [OF refl de, of "he_sysfs ev" "he_errno ev" "he_path ev" "he_entries ev" "he_oks ev"]
  show thesis
  proof (cases ?r)
    case (Inl e)
    then have "e < 0" using info by simp
    then show thesis using Inl by (intro fail [of e]) (simp_all add: alloc_mem_from_hugepage_def)
  next
    case hps: (Inr hps)
    show thesis
    proof (cases "List.find (hugepage_fits (mp_size mp)) hps")
      case None
      then show thesis using hps by (intro fail [of "neg WD_ENOMEM"]) (simp_all add: alloc_mem_from_hugepage_def neg_def)
    next
      case (Some h)
      have srt: "sorted_wrt by_page_size hps" "\<forall>h \<in> set hps. 1024 dvd hp_page_size h \<and> hp_page_size h < 2 ^ 64" using info hps by simp_all
      from find_smallest [OF srt(1) Some] have h: "h \<in> set hps" "hugepage_fits (mp_size mp) h"
        "\<forall>k \<in> set hps. hugepage_fits (mp_size mp) k \<longrightarrow> hp_page_size h \<le> hp_page_size k" by blast+
      have ps: "0 < hp_page_size h" using h(2) sz(1) by (cases "hp_page_size h") (auto simp: hugepage_fits_def u64_def)
      have ps': "1024 dvd hp_page_size h" "hp_page_size h < 2 ^ 64" using srt(2) h(1) by blast+
      note B = pages_for_bounds [OF sz ps'(1) ps ps'(2)]
      from mmap_flags_found [OF ps ps'(2)] obtain fl where fl: "mmap_flags (hp_page_size h) = Some fl" by auto
      have u: "u64 (pages_for (mp_size mp) (hp_page_size h) * hp_page_size h) = pages_for (mp_size mp) (hp_page_size h) * hp_page_size h"
        "u32 (pages_for (mp_size mp) (hp_page_size h)) = pages_for (mp_size mp) (hp_page_size h)" using B(2,3) by (simp_all only: u64_small u32_small)
      have ch: "page_choice ev (mp_size mp) hps h" using hps h by (simp add: page_choice_def list_all_iff)
      note eq = alloc_mem_from_hugepage_def [of ev mp maps, unfolded hps sum.case Some option.case Let_def fl pages_for_def [symmetric] u]
      show thesis
      proof (cases "he_mmap ev")
        case None
        show thesis by (rule fail [of "neg WD_ENOMEM"]) (simp_all add: eq None neg_def)
      next
        case p: (Some p)
        show thesis
        proof (cases "he_mbind ev < 0")
          case True
          show thesis by (rule fail [OF _ True]) (simp add: eq p True)
        next
          case False
          show thesis by (rule ok [OF ch p B]) (simp add: eq p False)
        qed
      qed
    qed
  qed
qed

abbreviation round_up :: "nat \<Rightarrow> nat" where
  "round_up sz \<equiv> (if sz mod 4096 \<noteq> 0 then sz + (4096 - sz mod 4096) else sz)"

lemma round_up_bounds: "sz \<le> round_up sz" "round_up sz < sz + 4096" "4096 dvd round_up sz"
proof -
  show "4096 dvd round_up sz"
  proof (cases "sz mod 4096 = 0")
    case False
    define m q where "m = sz mod 4096" and "q = sz div 4096"
    have "sz = 4096 * q + m" "m < 4096" by (simp_all add: m_def q_def)
    then have "sz + (4096 - m) = 4096 * (q + 1)" by simp
    then show ?thesis using False by (simp add: m_def)
  qed auto
qed auto

definition empty_bitmap :: "nat \<Rightarrow> bitmap" where
  "empty_bitmap n = \<lparr>bm_map = replicate ((n + 63) div 64) 0, bm_bits = n, bm_map_byte = (n + 63) div 64\<rparr>"

lemma create_empty_bitmap:
  assumes "n < 2 ^ 31"
  shows "fst (create_bitmap oks (int n)) \<in> {None, Some (empty_bitmap n)}"
proof -
  have "BITS_TO_LONGS (int n) = (n + 63) div 64" "u64_of_int (int n) = n"
    using assms by (simp_all add: BITS_TO_LONGS_def c_int_simps u32_def)
  then show ?thesis by (simp add: create_bitmap_def empty_bitmap_def Let_def split: prod.splits)
qed

lemma empty_bitmap_wf:
  assumes "n < 2 ^ 31"
  shows "bm_wf (empty_bitmap n)" "bm_bits (empty_bitmap n) = n" "bm_cap (empty_bitmap n) < 2 ^ 32"
    "i < n \<Longrightarrow> \<not> bm_get (empty_bitmap n) i"
  using assms by (auto simp: empty_bitmap_def bm_wf_def bm_cap_def bm_get_def)

text \<open>What a new pool looks like.\<close>

definition fresh_pool :: "hp_env \<Rightarrow> nat \<Rightarrow> int \<Rightarrow> mempool \<Rightarrow> bool" where
  "fresh_pool ev sz node mp \<longleftrightarrow>
     mp_node mp = node \<and> mp_ref mp = 1 \<and> mp_blk_size mp = 4096 \<and>
     sz \<le> mp_size mp \<and> mp_size mp < sz + 4096 \<and> mp_size mp \<le> mp_real_size mp \<and>
     mp_real_size mp = mp_page_num mp * mp_page_size mp \<and> mp_real_size mp < mp_size mp + mp_page_size mp \<and>
     mp_blk_num mp * 4096 = mp_size mp \<and> mp_free_blk_num mp = mp_blk_num mp \<and>
     mp_bitmap mp = Some (empty_bitmap (mp_blk_num mp)) \<and> he_mmap ev = Some (mp_addr mp) \<and>
     list_ex (\<lambda>h. hp_page_size h = mp_page_size mp \<and> page_choice ev (mp_size mp) (mp_hp_list mp) h) (mp_hp_list mp)"

lemma fresh_pool_wf:
  assumes "fresh_pool ev sz node mp" and "sz \<le> 2 ^ 40" and "mp_real_size mp < 2 ^ 64"
  shows "mp_wf mp"
proof -
  have "mp_blk_num mp * 4096 < sz + 4096" using assms(1) by (auto simp: fresh_pool_def)
  then have "mp_blk_num mp < 2 ^ 31" using assms(2) by simp
  from empty_bitmap_wf [OF this] show ?thesis using assms unfolding mp_wf_def fresh_pool_def by simp
qed

lemma pages_for_tight:
  assumes "0 < ps"
  shows "pages_for sz ps * ps < sz + ps"
proof (cases "sz mod ps = 0")
  case False
  then have "pages_for sz ps * ps = sz div ps * ps + ps" by (simp add: pages_for_def)
  moreover have "sz div ps * ps + sz mod ps = sz" by simp
  ultimately show ?thesis using False by linarith
qed (use assms in \<open>auto simp: pages_for_def\<close>)

lemma page_choice_pos: "page_choice ev sz hps h \<Longrightarrow> 0 < sz \<Longrightarrow> 0 < hp_page_size h"
  by (cases "hp_page_size h") (auto simp: page_choice_def hugepage_fits_def u64_def)

text \<open>Creating a pool either fails and leaves the mappings as they were, or gives a new pool and one mapping.\<close>

lemma mempool_create_cases:
  assumes create: "wd_mempool_create ev numa_max alloc_ok spin oks sz node maps = Some (r, maps')"
    and sz: "sz \<le> 2 ^ 40" and de: "0 < he_dir_errno ev"
  obtains (fail) e where "r = Inl e" "maps' = maps"
    | (ok) mp where "r = Inr mp" "maps' = (mp_addr mp, mp_real_size mp) # maps" "fresh_pool ev sz node mp" "mp_real_size mp < 2 ^ 64"
proof (cases "sz = 0 \<or> node < 0 \<or> node > numa_max \<or> \<not> alloc_ok \<or> spin < 0")
  case True
  then have "r \<in> {Inl WD_EINVAL, Inl WD_ENOMEM} \<and> maps' = maps"
    using create by (auto simp: wd_mempool_create_def Let_def split: if_splits)
  then show thesis using fail by blast
next
  case False
  define t where "t = round_up sz"
  have t: "sz \<le> t" "t < sz + 4096" "4096 dvd t" unfolding t_def by (rule round_up_bounds)+
  let ?mp = "\<lparr>mp_page_type = WD_HUGE_PAGE, mp_page_size = 0, mp_page_num = 0, mp_blk_size = 4096, mp_blk_num = 0,
     mp_node = node, mp_addr = 0, mp_size = t, mp_real_size = 0, mp_bitmap = None, mp_ref = 0, mp_hp_list = [], mp_free_blk_num = 0\<rparr>"
  have tw: "(if sz mod WD_MEMPOOL_BLOCK_SIZE \<noteq> 0 then u64 (sz + (WD_MEMPOOL_BLOCK_SIZE - sz mod WD_MEMPOOL_BLOCK_SIZE)) else sz) = t"
    using sz t(2) by (simp add: t_def WD_MEMPOOL_BLOCK_SIZE_def u64_small split: if_splits)
  note eq = create [unfolded wd_mempool_create_def tw Let_def, unfolded WD_MEMPOOL_BLOCK_SIZE_def]
  have mpsz: "0 < mp_size ?mp" "mp_size ?mp < 2 ^ 41" using t False sz by simp_all
  obtain n where n: "t = n * 4096" using t(3) by (auto elim: dvdE)
  have nb: "n < 2 ^ 31" using t(2) sz by (simp add: n)
  show thesis
  proof (cases rule: alloc_hugepage_cases [OF mpsz de, of maps])
    case (1 e mp')
    then show thesis using eq False by (intro fail) auto
  next
    case (2 hps h p)
    let ?k = "pages_for t (hp_page_size h)"
    let ?mp1 = "?mp\<lparr>mp_hp_list := hps, mp_page_type := WD_HUGE_PAGE, mp_page_size := hp_page_size h,
         mp_page_num := ?k, mp_addr := p, mp_real_size := ?k * hp_page_size h\<rparr>"
    have bits: "i32 (int (mp_size ?mp1 div mp_blk_size ?mp1)) = int n" "u64_of_int (int n) = n" "u32_of_int (int n) = n"
      using nb by (simp_all add: n c_int_simps)
    have "init_mempool oks ?mp1 \<in> {(Inl WD_ENOMEM, ?mp1),
      (Inr (), ?mp1\<lparr>mp_bitmap := Some (empty_bitmap n), mp_free_blk_num := n, mp_blk_num := n\<rparr>)}"
      using create_empty_bitmap [OF nb, of oks] unfolding init_mempool_def bits Let_def
      by (auto split: prod.splits option.splits)
    then consider (bad) "init_mempool oks ?mp1 = (Inl WD_ENOMEM, ?mp1)"
      | (good) "init_mempool oks ?mp1 = (Inr (), ?mp1\<lparr>mp_bitmap := Some (empty_bitmap n), mp_free_blk_num := n, mp_blk_num := n\<rparr>)"
      by blast
    then show thesis
    proof cases
      case bad
      have "u64 (hp_page_size h * ?k) = ?k * hp_page_size h" using 2(4) by (simp add: u64_small mult.commute)
      then show thesis using eq False 2(6) bad by (intro fail) (auto simp: free_hugepage_mem_def)
    next
      case good
      have "fresh_pool ev sz node (?mp1\<lparr>mp_bitmap := Some (empty_bitmap n), mp_free_blk_num := n, mp_blk_num := n, mp_ref := 1\<rparr>)"
        using t 2 n pages_for_tight [OF page_choice_pos [OF 2(1) mpsz(1)], of t]
        by (auto simp: fresh_pool_def list_ex_iff page_choice_def)
      then show thesis using eq False 2(4,6) good
        by (intro ok) (auto simp: wd_atomic_add_def u32_def)
    qed
  qed
qed

lemma destroy_unmaps:
  assumes "fresh_pool ev sz node mp" and "mp_real_size mp < 2 ^ 64"
  shows "wd_mempool_destroy (Some mp) ((mp_addr mp, mp_real_size mp) # maps) = Some maps"
proof -
  have "mp_ref mp = 1" "u64 (mp_page_size mp * mp_page_num mp) = mp_real_size mp"
    using assms by (simp_all add: fresh_pool_def u64_small mult.commute)
  then show ?thesis
    by (simp add: wd_mempool_destroy_def wd_atomic_sub_def sub32_def free_hugepage_mem_def uninit_mempool_def)
qed

lemma mempool_create_total:
  assumes "sz \<le> 2 ^ 40" and "0 < he_dir_errno ev"
  obtains r maps' where "wd_mempool_create ev numa_max alloc_ok spin oks sz node maps = Some (r, maps')"
proof (cases "sz = 0")
  case True
  then show thesis using that by (simp add: wd_mempool_create_def)
next
  case False
  have "u64 (sz + (4096 - sz mod 4096)) = sz + (4096 - sz mod 4096)" using assms(1) by (simp add: u64_small)
  then have sz: "0 < (if sz mod 4096 \<noteq> 0 then u64 (sz + (4096 - sz mod 4096)) else sz)"
    "(if sz mod 4096 \<noteq> 0 then u64 (sz + (4096 - sz mod 4096)) else sz) < 2 ^ 41" using False assms(1) by auto
  have "alloc_mem_from_hugepage ev mp maps \<noteq> None" if "0 < mp_size mp" "mp_size mp < 2 ^ 41" for mp
    by (rule alloc_hugepage_cases [OF that assms(2), of maps]) auto
  from this [of "\<lparr>mp_page_type = WD_HUGE_PAGE, mp_page_size = 0, mp_page_num = 0, mp_blk_size = WD_MEMPOOL_BLOCK_SIZE, mp_blk_num = 0,
      mp_node = node, mp_addr = 0, mp_size = if sz mod 4096 \<noteq> 0 then u64 (sz + (4096 - sz mod 4096)) else sz, mp_real_size = 0,
      mp_bitmap = None, mp_ref = 0, mp_hp_list = [], mp_free_blk_num = 0\<rparr>", simplified mempool.simps, OF sz]
  have "wd_mempool_create ev numa_max alloc_ok spin oks sz node maps \<noteq> None"
    unfolding wd_mempool_create_def Let_def WD_MEMPOOL_BLOCK_SIZE_def by (auto split: option.splits prod.splits sum.splits)
  then show thesis using that by auto
qed

text \<open>
  C35: Creating a memory pool of at most 1 TiB always returns. When it fails, whatever the reason, no mapping is left behind.
  When it succeeds the pool is well formed and new: all its 4 KiB blocks are free, they cover the requested size rounded
  up, the mapping is made of the smallest page size whose free pages suffice and is less than a page longer than needed,
  and destroying the pool gives back exactly that mapping.
\<close>

theorem mempool_create_usable:
  assumes "sz \<le> 2 ^ 40" and "0 < he_dir_errno ev"
  shows "\<exists>r maps'. wd_mempool_create ev numa_max alloc_ok spin oks sz node maps = Some (r, maps') \<and>
    (case r of
       Inl e \<Rightarrow> maps' = maps
     | Inr mp \<Rightarrow> mp_wf mp \<and> fresh_pool ev sz node mp \<and> maps' = (mp_addr mp, mp_real_size mp) # maps \<and>
                  wd_mempool_destroy (Some mp) maps' = Some maps)"
proof -
  obtain r maps' where create: "wd_mempool_create ev numa_max alloc_ok spin oks sz node maps = Some (r, maps')"
    by (rule mempool_create_total [OF assms])
  then show ?thesis
  proof (cases rule: mempool_create_cases [OF create assms])
    case (2 mp)
    then show ?thesis using create fresh_pool_wf [OF 2(3) assms(1) 2(4)] destroy_unmaps [OF 2(3,4)] by simp
  qed simp
qed

text \<open>A node with four free pages of 2 MiB and eight free pages of 64 KiB.\<close>

definition node0_env :: hp_env where
  "node0_env =
    \<lparr>he_sysfs = \<lparr>sf_exists = (\<lambda>_. True),
        sf_read = (\<lambda>f. Some (if f \<in> {''n/hugepages-64kB/nr_hugepages'', ''n/hugepages-64kB/free_hugepages''} then ''8'' else ''4'')),
        sf_devs = None\<rparr>,
     he_errno = 0, he_dir_errno = 2, he_path = ''n'', he_entries = Some [''.'', ''hugepages-2048kB'', ''hugepages-64kB''], he_oks = [],
     he_mmap = Some 65536, he_mbind = 0\<rparr>"

lemmas string_eval = isdigit_def isspace_def digits_value_def strtol_def ERANGE_def MAX_ATTR_STR_SIZE_def

lemma node0_pages: "get_hugepage_info (he_sysfs node0_env) 0 2 ''n'' (Some [''.'', ''hugepages-2048kB'', ''hugepages-64kB'']) [] =
  Inr [\<lparr>hp_page_size = 65536, hp_total_num = 8, hp_free_num = 8\<rparr>, \<lparr>hp_page_size = 2097152, hp_total_num = 4, hp_free_num = 4\<rparr>]" 
  by (simp add: node0_env_def get_value_from_sysfs_def string_eval
      get_hugepage_info_def get_hugepage_info_per_type_def PAGE_SIZE_OFFSET_def model_eval)

theorem mempool_create_usable_witness:
  "\<exists>mp. wd_mempool_create node0_env 0 True 0 [] 1000000 0 [] = Some (Inr mp, [(65536, 2097152)]) \<and> mp_wf mp \<and>
    mp_blk_num mp = 245 \<and> mp_page_size mp = 2097152 \<and> wd_mempool_destroy (Some mp) [(65536, 2097152)] = Some []"
proof -
  have "wd_mempool_create node0_env 0 True 0 [] 1000000 0 [] = Some (Inr
    \<lparr>mp_page_type = WD_HUGE_PAGE, mp_page_size = 2097152, mp_page_num = 1, mp_blk_size = 4096, mp_blk_num = 245, mp_node = 0,
     mp_addr = 65536, mp_size = 1003520, mp_real_size = 2097152, mp_bitmap = Some (empty_bitmap 245), mp_ref = 1,
     mp_hp_list = [\<lparr>hp_page_size = 65536, hp_total_num = 8, hp_free_num = 8\<rparr>, \<lparr>hp_page_size = 2097152, hp_total_num = 4, hp_free_num = 4\<rparr>],
     mp_free_blk_num = 245\<rparr>, [(65536, 2097152)])"
  proof -
    have env: "he_errno node0_env = 0" "he_dir_errno node0_env = 2" "he_path node0_env = ''n''"
      "he_entries node0_env = Some [''.'', ''hugepages-2048kB'', ''hugepages-64kB'']" "he_oks node0_env = []"
      "he_mmap node0_env = Some 65536" "he_mbind node0_env = 0" by (simp_all add: node0_env_def)
    obtain fl where "mmap_flags 2097152 = Some fl" using mmap_flags_found [of 2097152] by auto
    then show ?thesis
      by (simp add: wd_mempool_create_def alloc_mem_from_hugepage_def env node0_pages hugepage_fits_def init_mempool_def
          create_bitmap_def empty_bitmap_def BITS_TO_LONGS_def wd_atomic_add_def WD_MEMPOOL_BLOCK_SIZE_def model_eval)
  qed
  then show ?thesis using mempool_create_usable [of 1000000 node0_env 0 True 0 "[]" 0 "[]"] by (simp add: node0_env_def)
qed

text \<open>
  The rates divide before they multiply: as long as one block is free both are 0, whatever the use.
\<close>

lemma usage_rate_truncated:
  assumes "wd_mempool_stats_of (Some mp) (Some s) = Some (Some s')" and "0 < mp_free_blk_num mp" and "mp_free_blk_num mp \<le> mp_blk_num mp"
    and "mp_blk_num mp < 2 ^ 32"
  shows "ms_blk_usage_rate s' = 0"
proof -
  have "sub64 (mp_blk_num mp) (mp_free_blk_num mp) = mp_blk_num mp - mp_free_blk_num mp" using assms(3,4) by (simp add: sub64_small)
  then show ?thesis using assms(1,2,3) by (auto simp: wd_mempool_stats_of_def u64_def split: if_splits)
qed

end
