(* ===== verification/Wd_Context.thy ===== *)
theory Wd_Context
  imports Wd_Device
begin

text \<open>
  Contexts (\<^verbatim>\<open>wd.c\<close>): opening a device, its regions in memory, commands to the device, and release.

  \<open>proc\<close> is what the process holds: open descriptors, live allocations, mapped regions, initialised spin locks, and the
  commands sent to devices so far. The results of system calls are parameters: the descriptor or negative number that
  \<^verbatim>\<open>open\<close> returns, the address of \<^verbatim>\<open>mmap\<close> (\<open>None\<close> for \<^verbatim>\<open>MAP_FAILED\<close>), the value of \<^verbatim>\<open>ioctl\<close>. A handle is a context
  or \<open>None\<close> for 0; the functions return the context they changed.
\<close>

definition MAX_FD_NUM :: int where "MAX_FD_NUM = 65535"
definition UACCE_QFRT_MMIO :: nat where "UACCE_QFRT_MMIO = 0"
definition UACCE_QFRT_DUS :: nat where "UACCE_QFRT_DUS = 1"
definition UACCE_QFRT_MAX :: nat where "UACCE_QFRT_MAX = 3"

lemmas qfrt_consts [simp] = UACCE_QFRT_MMIO_def UACCE_QFRT_DUS_def UACCE_QFRT_MAX_def

datatype uacce_cmd = UACCE_CMD_START | UACCE_CMD_PUT_Q | UACCE_CMD_QM_SET_QP_CTX | UACCE_CMD_QM_SET_QP_INFO

record wd_ctx_h =
  cx_fd :: int
  cx_dev_path :: string
  cx_dev_name :: string
  cx_drv_name :: string
  cx_qfrs_offs :: "nat list"
  cx_qfrs_base :: "nat list"
  cx_dev :: "uacce_dev option"
  cx_priv :: nat

record proc =
  pr_fds :: "int list"
  pr_heap :: nat
  pr_maps :: "(nat \<times> nat) list"
  pr_locks :: nat
  pr_cmds :: "(int \<times> uacce_cmd) list"

definition alloc1 :: "proc \<Rightarrow> proc" where
  "alloc1 pr = pr\<lparr>pr_heap := pr_heap pr + 1\<rparr>"

definition free1 :: "proc \<Rightarrow> proc" where
  "free1 pr = pr\<lparr>pr_heap := pr_heap pr - 1\<rparr>"

definition close_fd :: "int \<Rightarrow> proc \<Rightarrow> proc" where
  "close_fd fd pr = pr\<lparr>pr_fds := remove1 fd (pr_fds pr)\<rparr>"

definition wd_check_ctx_type :: "wd_ctx_h \<Rightarrow> unit result" where
  "wd_check_ctx_type ctx = (if cx_fd ctx < 0 \<or> cx_fd ctx > MAX_FD_NUM then Inl WD_HW_EACCESS else Inr ())"

text \<open>\<open>path_ok\<close>: \<^verbatim>\<open>realpath\<close> resolves the device path; \<open>oks\<close>: the two names, the context and the copy of the device get memory.\<close>

definition wd_request_ctx :: "bool \<Rightarrow> int \<Rightarrow> bool list \<Rightarrow> uacce_dev option \<Rightarrow> proc \<Rightarrow> wd_ctx_h option \<times> proc" where
  "wd_request_ctx path_ok fd oks dev pr =
    (case dev of
       None \<Rightarrow> (None, pr)
     | Some d \<Rightarrow>
         if ud_dev_root d = [] then (None, pr)
         else if \<not> path_ok then (None, pr)
         else if fd < 0 then (None, pr)
         else
           (let pr = pr\<lparr>pr_fds := fd # pr_fds pr\<rparr>; (ok, oks) = calloc_ok oks in
            if \<not> ok then (None, close_fd fd pr)
            else
              (let pr = alloc1 pr; (ok, oks) = calloc_ok oks in
               case wd_get_accel_name ok (Some (ud_char_dev_path d)) 0 of
                 None \<Rightarrow> (None, close_fd fd (free1 pr))
               | Some dev_name \<Rightarrow>
                   (let pr = alloc1 pr; (ok, oks) = calloc_ok oks in
                    case wd_get_accel_name ok (Some (ud_char_dev_path d)) 1 of
                      None \<Rightarrow> (None, close_fd fd (free1 (free1 pr)))
                    | Some drv_name \<Rightarrow>
                        (let pr = alloc1 pr; (ok, oks) = calloc_ok oks in
                         if \<not> ok then (None, close_fd fd (free1 (free1 (free1 pr))))
                         else
                           (Some \<lparr>cx_fd = fd, cx_dev_path = take (MAX_DEV_NAME_LEN - 1) (ud_char_dev_path d), cx_dev_name = dev_name,
                                  cx_drv_name = drv_name, cx_qfrs_offs = [ud_qfrs_mmio d, ud_qfrs_dus d, 0],
                                  cx_qfrs_base = [0, 0, 0], cx_dev = Some d, cx_priv = 0\<rparr>, alloc1 pr))))))"

definition wd_release_ctx :: "wd_ctx_h option \<Rightarrow> proc \<Rightarrow> proc" where
  "wd_release_ctx h_ctx pr =
    (case h_ctx of
       None \<Rightarrow> pr
     | Some ctx \<Rightarrow>
         (case wd_check_ctx_type ctx of
            Inl _ \<Rightarrow> pr
          | Inr _ \<Rightarrow> free1 (free1 (free1 (free1 (close_fd (cx_fd ctx) pr))))))"

text \<open>\<open>ret\<close> is the value of the \<^verbatim>\<open>ioctl\<close>.\<close>

definition wd_ctx_set_io_cmd :: "int \<Rightarrow> wd_ctx_h option \<Rightarrow> uacce_cmd \<Rightarrow> proc \<Rightarrow> int \<times> proc" where
  "wd_ctx_set_io_cmd ret h_ctx cmd pr =
    (case h_ctx of None \<Rightarrow> (neg WD_EINVAL, pr) | Some ctx \<Rightarrow> (ret, pr\<lparr>pr_cmds := pr_cmds pr @ [(cx_fd ctx, cmd)]\<rparr>))"

definition wd_ctx_start :: "int \<Rightarrow> wd_ctx_h option \<Rightarrow> proc \<Rightarrow> int \<times> proc" where
  "wd_ctx_start ret h_ctx pr =
    (case h_ctx of
       None \<Rightarrow> (neg WD_EINVAL, pr)
     | Some ctx \<Rightarrow>
         (case wd_check_ctx_type ctx of
            Inl _ \<Rightarrow> (neg WD_EINVAL, pr)
          | Inr _ \<Rightarrow> wd_ctx_set_io_cmd ret h_ctx UACCE_CMD_START pr))"

definition wd_release_ctx_force :: "int \<Rightarrow> wd_ctx_h option \<Rightarrow> proc \<Rightarrow> int \<times> proc" where
  "wd_release_ctx_force ret h_ctx pr =
    (case h_ctx of None \<Rightarrow> (neg WD_EINVAL, pr) | Some ctx \<Rightarrow> wd_ctx_set_io_cmd ret h_ctx UACCE_CMD_PUT_Q pr)"

text \<open>The address, 0 for \<^verbatim>\<open>NULL\<close>.\<close>

definition wd_ctx_mmap_qfr :: "nat option \<Rightarrow> wd_ctx_h option \<Rightarrow> nat \<Rightarrow> proc \<Rightarrow> nat \<times> wd_ctx_h option \<times> proc" where
  "wd_ctx_mmap_qfr res h_ctx qfrt pr =
    (case h_ctx of
       None \<Rightarrow> (0, h_ctx, pr)
     | Some ctx \<Rightarrow>
         if qfrt \<ge> UACCE_QFRT_MAX \<or> cx_qfrs_offs ctx ! qfrt = 0 then (0, h_ctx, pr)
         else
           (case res of
              None \<Rightarrow> (0, h_ctx, pr)
            | Some addr \<Rightarrow> (addr, Some (ctx\<lparr>cx_qfrs_base := (cx_qfrs_base ctx)[qfrt := addr]\<rparr>),
                            pr\<lparr>pr_maps := (addr, cx_qfrs_offs ctx ! qfrt) # pr_maps pr\<rparr>)))"

definition wd_ctx_unmap_qfr :: "wd_ctx_h option \<Rightarrow> nat \<Rightarrow> proc \<Rightarrow> proc" where
  "wd_ctx_unmap_qfr h_ctx qfrt pr =
    (case h_ctx of
       None \<Rightarrow> pr
     | Some ctx \<Rightarrow>
         if qfrt \<ge> UACCE_QFRT_MAX then pr
         else if cx_qfrs_offs ctx ! qfrt \<noteq> 0
         then pr\<lparr>pr_maps := remove1 (cx_qfrs_base ctx ! qfrt, cx_qfrs_offs ctx ! qfrt) (pr_maps pr)\<rparr>
         else pr)"

definition wd_ctx_get_region_size :: "wd_ctx_h option \<Rightarrow> nat \<Rightarrow> nat" where
  "wd_ctx_get_region_size h_ctx qfrt =
    (case h_ctx of None \<Rightarrow> 0 | Some ctx \<Rightarrow> if qfrt \<ge> UACCE_QFRT_MAX then 0 else cx_qfrs_offs ctx ! qfrt)"

definition wd_ctx_get_priv :: "wd_ctx_h option \<Rightarrow> nat" where
  "wd_ctx_get_priv h_ctx = (case h_ctx of None \<Rightarrow> 0 | Some ctx \<Rightarrow> cx_priv ctx)"

definition wd_ctx_set_priv :: "wd_ctx_h option \<Rightarrow> nat \<Rightarrow> unit result \<times> wd_ctx_h option" where
  "wd_ctx_set_priv h_ctx priv =
    (case h_ctx of None \<Rightarrow> (Inl WD_EINVAL, h_ctx) | Some ctx \<Rightarrow> (Inr (), Some (ctx\<lparr>cx_priv := priv\<rparr>)))"

definition wd_ctx_get_api :: "wd_ctx_h option \<Rightarrow> string option" where
  "wd_ctx_get_api h_ctx =
    (case h_ctx of None \<Rightarrow> None | Some ctx \<Rightarrow> (case cx_dev ctx of None \<Rightarrow> None | Some d \<Rightarrow> Some (ud_api d)))"

definition wd_is_sva :: "wd_ctx_h option \<Rightarrow> bool result" where
  "wd_is_sva h_ctx =
    (case h_ctx of
       None \<Rightarrow> Inl WD_EINVAL
     | Some ctx \<Rightarrow>
         (case wd_check_ctx_type ctx of
            Inl e \<Rightarrow> Inl e
          | Inr _ \<Rightarrow> (case cx_dev ctx of None \<Rightarrow> Inl WD_EINVAL | Some d \<Rightarrow> Inr (u32_of_int (ud_flags d) mod 2 = UACCE_DEV_SVA))))"

definition wd_get_numa_id :: "wd_ctx_h option \<Rightarrow> int" where
  "wd_get_numa_id h_ctx =
    (case h_ctx of None \<Rightarrow> neg WD_EINVAL | Some ctx \<Rightarrow> (case cx_dev ctx of None \<Rightarrow> neg WD_EINVAL | Some d \<Rightarrow> ud_numa_id d))"

definition wd_ctx_get_dev_name :: "wd_ctx_h option \<Rightarrow> string option" where
  "wd_ctx_get_dev_name h_ctx = map_option cx_dev_name h_ctx"

subsection \<open>Balance of resources\<close>

lemmas proc_defs = alloc1_def free1_def close_fd_def

definition opened_ctx :: "int \<Rightarrow> uacce_dev \<Rightarrow> string \<Rightarrow> string \<Rightarrow> wd_ctx_h" where
  "opened_ctx fd d dev_name drv_name = \<lparr>cx_fd = fd, cx_dev_path = take (MAX_DEV_NAME_LEN - 1) (ud_char_dev_path d), cx_dev_name = dev_name,
     cx_drv_name = drv_name, cx_qfrs_offs = [ud_qfrs_mmio d, ud_qfrs_dus d, 0], cx_qfrs_base = [0, 0, 0], cx_dev = Some d, cx_priv = 0\<rparr>"

lemma request_ctx_cases:
  "wd_request_ctx path_ok fd oks dev pr = (None, pr) \<or>
   (\<exists>d dev_name drv_name. dev = Some d \<and> 0 \<le> fd \<and>
      wd_request_ctx path_ok fd oks dev pr = (Some (opened_ctx fd d dev_name drv_name), pr\<lparr>pr_fds := fd # pr_fds pr, pr_heap := pr_heap pr + 4\<rparr>))"
  by (auto simp: wd_request_ctx_def Let_def proc_defs opened_ctx_def split: option.splits prod.splits)

text \<open>
  C30: Opening and releasing a context. Whatever fails while a context is opened (path, descriptor, any allocation, a device
  name without a number), the process holds what it held before. A context that was opened carries the descriptor, the
  copy of the device and the sizes of its regions; releasing it closes the descriptor and frees everything, provided the
  descriptor is at most \<open>MAX_FD_NUM\<close>.
\<close>

theorem ctx_request_release:
  "case wd_request_ctx path_ok fd oks dev pr of
     (None, pr') \<Rightarrow> pr' = pr
   | (Some ctx, pr') \<Rightarrow>
       cx_fd ctx = fd \<and> 0 \<le> fd \<and> fd \<in> set (pr_fds pr') \<and> cx_dev ctx = dev \<and> length (cx_qfrs_offs ctx) = UACCE_QFRT_MAX \<and>
       length (cx_qfrs_base ctx) = UACCE_QFRT_MAX \<and>
       wd_release_ctx (Some ctx) pr' = (if fd \<le> MAX_FD_NUM then pr else pr')"
  using request_ctx_cases [of path_ok fd oks dev pr]
  by (auto simp: opened_ctx_def wd_release_ctx_def wd_check_ctx_type_def proc_defs)

end
