(* ===== verification/Qm_Sgl.thy ===== *)
theory Qm_Sgl
  imports Uadk_Interfaces
begin

text \<open>
  Hardware scatter-gather lists of the queue manager (\<^verbatim>\<open>drv/hisi_qm_udrv.c\<close>, lines 687--1168): the pool of
  lists, building a chain from the user's data list, giving it back, and copying between a chain and a flat
  buffer.

  Lists live at addresses; \<open>sm_sgls\<close> maps the address of a list header to the list, and \<open>sm_blocks\<close> holds the
  raw blocks they were carved from. Reading or writing a list at any other address has no outcome. The
  addresses that the allocators return (0 for \<^verbatim>\<open>NULL\<close>), the contents of memory from the user's allocator and the
  user's \<^verbatim>\<open>iova_map\<close> are parameters.
\<close>

definition HISI_SGE_NUM_IN_SGL :: nat where "HISI_SGE_NUM_IN_SGL = 255"
definition HISI_SGL_NUM_IN_BD :: nat where "HISI_SGL_NUM_IN_BD = 256"
definition HISI_SGL_ALIGE :: nat where "HISI_SGL_ALIGE = 64"
definition HISI_MAX_SIZE_IN_SGE :: nat where "HISI_MAX_SIZE_IN_SGE = 1024 * 1024 * 8"

definition ADDR_ALIGN_64 :: "nat \<Rightarrow> nat" where
  "ADDR_ALIGN_64 addr = u64 ((addr div 2 ^ 6 + 1) * 2 ^ 6)"

text \<open>The sizes of the two structures.\<close>

definition SIZEOF_SGL :: nat where "SIZEOF_SGL = 64"
definition SIZEOF_SGE :: nat where "SIZEOF_SGE = 32"

lemmas sgl_consts = HISI_SGE_NUM_IN_SGL_def HISI_SGL_NUM_IN_BD_def HISI_SGL_ALIGE_def HISI_MAX_SIZE_IN_SGE_def
  SIZEOF_SGL_def SIZEOF_SGE_def

record hisi_sge =
  se_buff :: nat
  se_len :: nat
  se_vbuff :: nat

record hisi_sgl =
  sg_next_dma :: nat
  sg_entry_sum_in_chain :: nat
  sg_entry_sum_in_sgl :: nat
  sg_entry_length_in_sgl :: nat
  sg_next :: nat
  sg_entry_size_in_sgl :: nat
  sg_sge_entries :: "hisi_sge list"

text \<open>Which of the user's memory functions are given.\<close>

record wd_mm_ops =
  mo_sva_mode :: bool
  mo_alloc :: bool
  mo_free :: bool
  mo_iova_map :: bool
  mo_usr :: bool

record hisi_sgl_pool =
  sp_sgl_align :: "nat list"
  sp_sgl :: "nat list"
  sp_depth :: nat
  sp_top :: nat
  sp_sge_num :: nat
  sp_sgl_num :: nat
  sp_mm_ops :: "wd_mm_ops option"

record sgl_mem =
  sm_sgls :: "nat \<rightharpoonup> hisi_sgl"
  sm_blocks :: "nat list"
  sm_heap :: int
  sm_locks :: int

definition zero_sge :: hisi_sge where
  "zero_sge = \<lparr>se_buff = 0, se_len = 0, se_vbuff = 0\<rparr>"

definition zero_sgl :: "nat \<Rightarrow> hisi_sgl" where
  "zero_sgl sge_num = \<lparr>sg_next_dma = 0, sg_entry_sum_in_chain = 0, sg_entry_sum_in_sgl = 0, sg_entry_length_in_sgl = 0,
     sg_next = 0, sg_entry_size_in_sgl = 0, sg_sge_entries = replicate sge_num zero_sge\<rparr>"

subsection \<open>The pool\<close>

definition sgl_block_size :: "nat \<Rightarrow> nat" where
  "sgl_block_size sge_num = SIZEOF_SGL + sge_num * SIZEOF_SGE + HISI_SGL_ALIGE"

text \<open>\<open>addrs\<close> are the addresses that the allocator will return, in order; the empty list stands for failure.\<close>

definition hisi_qm_create_sgl :: "nat list \<Rightarrow> sgl_mem \<Rightarrow> nat \<times> nat list \<times> sgl_mem" where
  "hisi_qm_create_sgl addrs m =
    (case addrs of
       [] \<Rightarrow> (0, [], m)
     | a # as \<Rightarrow> if a = 0 then (0, as, m) else (a, as, m\<lparr>sm_blocks := a # sm_blocks m\<rparr>))"

text \<open>
  Places the header in the block at \<open>sgl\<close>. \<open>junk\<close> is what memory of the user's allocator contains; \<^verbatim>\<open>calloc\<close> zeroes
  it. The field \<^verbatim>\<open>entry_size_in_sgl\<close> keeps what was there.
\<close>

definition hisi_qm_align_sgl ::
  "(nat \<Rightarrow> nat \<Rightarrow> nat) \<Rightarrow> (nat \<Rightarrow> hisi_sgl) \<Rightarrow> nat \<Rightarrow> nat \<Rightarrow> wd_mm_ops option \<Rightarrow> sgl_mem \<Rightarrow> nat \<times> sgl_mem" where
  "hisi_qm_align_sgl iova_map junk sgl sge_num mm_ops m =
    (let place = (\<lambda>a content. (a, m\<lparr>sm_sgls := (sm_sgls m)(a \<mapsto> content
            \<lparr>sg_entry_sum_in_chain := u16 sge_num, sg_entry_sum_in_sgl := 0, sg_entry_length_in_sgl := u16 sge_num,
             sg_next_dma := 0, sg_next := 0\<rparr>)\<rparr>)) in
     case mm_ops of
       Some _ \<Rightarrow>
         (let iova = iova_map sgl SIZEOF_SGL in
          if iova = 0 then (0, m) else place (u64 (sgl + ADDR_ALIGN_64 iova - iova)) (junk sgl))
     | None \<Rightarrow> place (ADDR_ALIGN_64 sgl) (zero_sgl sge_num))"

text \<open>
  Frees the blocks of the pool (the raw blocks are removed, with every list header inside of them), the two arrays, the
  copy of the memory functions and the structure. An array that is \<^verbatim>\<open>NULL\<close> is the empty list: a pool has at
  least one list.
\<close>

definition pool_allocs :: "hisi_sgl_pool \<Rightarrow> int" where
  "pool_allocs pool = (if sp_sgl pool \<noteq> [] then 1 else 0) + (if sp_sgl_align pool \<noteq> [] then 1 else 0) +
     (if sp_mm_ops pool \<noteq> None then 1 else 0) + 1"

definition hisi_qm_free_sglpool :: "hisi_sgl_pool \<Rightarrow> nat \<Rightarrow> sgl_mem \<Rightarrow> sgl_mem" where
  "hisi_qm_free_sglpool pool sge_num m =
    (let bs = take (sp_sgl_num pool) (sp_sgl pool) in
     m\<lparr>sm_blocks := fold remove1 bs (sm_blocks m),
       sm_sgls := sm_sgls m |` {a. \<forall>b \<in> set bs. \<not> (b \<le> a \<and> a < b + sgl_block_size sge_num)},
       sm_heap := sm_heap m - pool_allocs pool\<rparr>)"

text \<open>The loop that creates the lists, from index \<open>i\<close> on; the result tells whether every list was created.\<close>

fun create_lists ::
  "(nat \<Rightarrow> nat \<Rightarrow> nat) \<Rightarrow> (nat \<Rightarrow> hisi_sgl) \<Rightarrow> nat \<Rightarrow> nat \<Rightarrow> nat \<Rightarrow> nat list \<Rightarrow> hisi_sgl_pool \<Rightarrow> sgl_mem
    \<Rightarrow> bool \<times> hisi_sgl_pool \<times> sgl_mem" where
  "create_lists iova_map junk sge_num i 0 addrs pool m = (True, pool, m)"
| "create_lists iova_map junk sge_num i (Suc n) addrs pool m =
    (case hisi_qm_create_sgl addrs m of
       (a, addrs, m) \<Rightarrow>
         if a = 0 then (False, pool\<lparr>sp_sgl_num := i\<rparr>, m)
         else
           (case hisi_qm_align_sgl iova_map junk a sge_num (sp_mm_ops pool) m of
              (b, m) \<Rightarrow>
                create_lists iova_map junk sge_num (Suc i) n addrs
                  (pool\<lparr>sp_sgl := (sp_sgl pool)[i := a], sp_sgl_align := (sp_sgl_align pool)[i := b]\<rparr>) m))"

text \<open>One more object on the heap.\<close>

definition grow :: "sgl_mem \<Rightarrow> sgl_mem" where
  "grow m = m\<lparr>sm_heap := sm_heap m + 1\<rparr>"

definition hisi_qm_create_sglpool ::
  "bool list \<Rightarrow> bool \<Rightarrow> (nat \<Rightarrow> nat \<Rightarrow> nat) \<Rightarrow> (nat \<Rightarrow> hisi_sgl) \<Rightarrow> nat list \<Rightarrow> nat \<Rightarrow> nat \<Rightarrow> wd_mm_ops option \<Rightarrow> sgl_mem
    \<Rightarrow> hisi_sgl_pool option \<times> sgl_mem" where
  "hisi_qm_create_sglpool oks spin_ok iova_map junk addrs sgl_num sge_num mm_ops m =
    (if sgl_num = 0 \<or> sge_num = 0 \<or> sge_num > HISI_SGE_NUM_IN_SGL then (None, m)
     else
       (let (ok, oks) = calloc_ok oks in
        if \<not> ok then (None, m)
        else
          (let m = grow m;
               need = (case mm_ops of None \<Rightarrow> False
                       | Some ops \<Rightarrow> \<not> mo_sva_mode ops \<and> mo_alloc ops \<and> mo_free ops \<and> mo_iova_map ops \<and> mo_usr ops);
               (ok, oks) = (if need then calloc_ok oks else (True, oks));
               pool = \<lparr>sp_sgl_align = [], sp_sgl = [], sp_depth = 0, sp_top = 0, sp_sge_num = 0, sp_sgl_num = 0,
                       sp_mm_ops = (if need \<and> ok then mm_ops else None)\<rparr> in
           if \<not> ok then (None, hisi_qm_free_sglpool pool sge_num m)
           else
             (let m = (if need then grow m else m); (ok, oks) = calloc_ok oks in
              if \<not> ok then (None, hisi_qm_free_sglpool pool sge_num m)
              else
                (let m = grow m; pool = pool\<lparr>sp_sgl := replicate sgl_num 0\<rparr>; (ok, oks) = calloc_ok oks in
                 if \<not> ok then (None, hisi_qm_free_sglpool pool sge_num m)
                 else
                   (case create_lists iova_map junk sge_num 0 sgl_num addrs (pool\<lparr>sp_sgl_align := replicate sgl_num 0\<rparr>) (grow m) of
                      (False, pool, m) \<Rightarrow> (None, hisi_qm_free_sglpool pool sge_num m)
                    | (True, pool, m) \<Rightarrow>
                        (let pool = pool\<lparr>sp_sgl_num := sgl_num, sp_sge_num := sge_num, sp_depth := sgl_num, sp_top := sgl_num\<rparr> in
                         if \<not> spin_ok then (None, hisi_qm_free_sglpool pool sge_num m)
                         else (Some pool, m\<lparr>sm_locks := sm_locks m + 1\<rparr>))))))))"

definition hisi_qm_destroy_sglpool :: "hisi_sgl_pool option \<Rightarrow> sgl_mem \<Rightarrow> sgl_mem" where
  "hisi_qm_destroy_sglpool sgl_pool m =
    (case sgl_pool of
       None \<Rightarrow> m
     | Some pool \<Rightarrow> hisi_qm_free_sglpool pool (sp_sge_num pool) (m\<lparr>sm_locks := sm_locks m - 1\<rparr>))"

text \<open>0 stands for \<^verbatim>\<open>NULL\<close>.\<close>

definition hisi_qm_sgl_pop :: "hisi_sgl_pool \<Rightarrow> (nat \<times> hisi_sgl_pool) option" where
  "hisi_qm_sgl_pop pool =
    (if sp_top pool = 0 then Some (0, pool)
     else
       (let pool = pool\<lparr>sp_top := sp_top pool - 1\<rparr> in
        case rd (sp_sgl_align pool) (sp_top pool) of
          None \<Rightarrow> None
        | Some hw_sgl \<Rightarrow> Some (hw_sgl, pool)))"

definition reset_sgl :: "nat \<Rightarrow> hisi_sgl \<Rightarrow> hisi_sgl" where
  "reset_sgl sge_num g = g\<lparr>sg_next_dma := 0, sg_next := 0, sg_entry_sum_in_sgl := 0,
     sg_entry_sum_in_chain := u16 sge_num, sg_entry_length_in_sgl := u16 sge_num, sg_entry_size_in_sgl := 0\<rparr>"

definition hisi_qm_sgl_push ::
  "hisi_sgl_pool \<Rightarrow> nat \<Rightarrow> sgl_mem \<Rightarrow> (unit result \<times> hisi_sgl_pool \<times> sgl_mem) option" where
  "hisi_qm_sgl_push pool hw_sgl m =
    (if sp_top pool \<ge> sp_depth pool then Some (Inl WD_EINVAL, pool, m)
     else
       (case (sm_sgls m hw_sgl, wr (sp_sgl_align pool) (sp_top pool) hw_sgl) of
          (Some g, Some al) \<Rightarrow>
            Some (Inr (), pool\<lparr>sp_sgl_align := al, sp_top := sp_top pool + 1\<rparr>,
                  m\<lparr>sm_sgls := (sm_sgls m)(hw_sgl \<mapsto> reset_sgl (sp_sge_num pool) g)\<rparr>)
        | _ \<Rightarrow> None))"

text \<open>Every round but the last fills a slot of the pool, so the loop ends even on a cyclic chain.\<close>

function put_lists :: "hisi_sgl_pool \<Rightarrow> nat \<Rightarrow> sgl_mem \<Rightarrow> (hisi_sgl_pool \<times> sgl_mem) option" where
  "put_lists pool cur m =
    (if cur = 0 then Some (pool, m)
     else
       (case sm_sgls m cur of
          None \<Rightarrow> None
        | Some g \<Rightarrow>
            (case hisi_qm_sgl_push pool cur m of
               None \<Rightarrow> None
             | Some (Inl _, pool, m) \<Rightarrow> Some (pool, m)
             | Some (Inr _, pool, m) \<Rightarrow> put_lists pool (sg_next g) m)))"
  by pat_completeness auto
termination
  by (relation "measure (\<lambda>(pool, cur, m). sp_depth pool - sp_top pool)")
    (auto simp: hisi_qm_sgl_push_def split: if_splits option.splits)

declare put_lists.simps [simp del]

definition hisi_qm_put_hw_sgl :: "hisi_sgl_pool option \<Rightarrow> nat \<Rightarrow> sgl_mem \<Rightarrow> (hisi_sgl_pool option \<times> sgl_mem) option" where
  "hisi_qm_put_hw_sgl sgl_pool hw_sgl m =
    (case sgl_pool of
       None \<Rightarrow> Some (None, m)
     | Some pool \<Rightarrow> map_option (\<lambda>(pool, m). (Some pool, m)) (put_lists pool hw_sgl m))"

subsection \<open>Building a chain\<close>

definition map_addr :: "(nat \<Rightarrow> nat \<Rightarrow> nat) \<Rightarrow> hisi_sgl_pool \<Rightarrow> nat \<Rightarrow> nat \<Rightarrow> nat" where
  "map_addr iova_map pool a len = (case sp_mm_ops pool of Some _ \<Rightarrow> iova_map a len | None \<Rightarrow> a)"

text \<open>
  The loop over the user's data list: pairs of address and length, the rest of the list being \<^verbatim>\<open>tmp->next\<close>.
  \<open>cur\<close> is the list that is filled, \<open>i\<close> the next entry of it.
\<close>

fun fill_lists ::
  "(nat \<Rightarrow> nat \<Rightarrow> nat) \<Rightarrow> nat \<Rightarrow> (nat \<times> nat) list \<Rightarrow> hisi_sgl_pool \<Rightarrow> sgl_mem \<Rightarrow> nat \<Rightarrow> nat
    \<Rightarrow> (unit result \<times> hisi_sgl_pool \<times> sgl_mem) option" where
  "fill_lists iova_map head [] pool m cur i = Some (Inr (), pool, m)"
| "fill_lists iova_map head ((data, len) # rest) pool m cur i =
    (if data = 0 \<or> len = 0 then fill_lists iova_map head rest pool m cur i
     else if len > HISI_MAX_SIZE_IN_SGE then Some (Inl WD_EINVAL, pool, m)
     else
       (case sm_sgls m cur of
          None \<Rightarrow> None
        | Some g \<Rightarrow>
            (case rd (sg_sge_entries g) i of
               None \<Rightarrow> None
             | Some e \<Rightarrow>
                 (let buff = map_addr iova_map pool data len in
                  if buff = 0 then
                    Some (Inl WD_EINVAL, pool, m\<lparr>sm_sgls := (sm_sgls m)(cur \<mapsto>
                      g\<lparr>sg_sge_entries := (sg_sge_entries g)[i := e\<lparr>se_buff := 0\<rparr>]\<rparr>)\<rparr>)
                  else
                    (let g = g\<lparr>sg_sge_entries := (sg_sge_entries g)[i := e\<lparr>se_buff := buff, se_vbuff := data, se_len := len\<rparr>],
                               sg_entry_sum_in_sgl := u16 (sg_entry_sum_in_sgl g + 1),
                               sg_entry_size_in_sgl := u64 (sg_entry_size_in_sgl g + len)\<rparr>;
                         m = m\<lparr>sm_sgls := (sm_sgls m)(cur \<mapsto> g)\<rparr>; i = i + 1 in
                     if i = sp_sge_num pool \<and> rest \<noteq> [] then
                       (case hisi_qm_sgl_pop pool of
                          None \<Rightarrow> None
                        | Some (next, pool) \<Rightarrow>
                            if next = 0 then Some (Inl WD_EBUSY, pool, m)
                            else
                              (let m = m\<lparr>sm_sgls := (sm_sgls m)(cur \<mapsto>
                                     g\<lparr>sg_next_dma := map_addr iova_map pool next SIZEOF_SGL, sg_next := next\<rparr>)\<rparr> in
                               case sm_sgls m head of
                                 None \<Rightarrow> None
                               | Some h \<Rightarrow>
                                   fill_lists iova_map head rest pool
                                     (m\<lparr>sm_sgls := (sm_sgls m)(head \<mapsto>
                                        h\<lparr>sg_entry_sum_in_chain := u16 (sg_entry_sum_in_chain h + sp_sge_num pool)\<rparr>)\<rparr>) next 0))
                     else fill_lists iova_map head rest pool m cur i)))))"

definition hisi_qm_get_hw_sgl ::
  "(nat \<Rightarrow> nat \<Rightarrow> nat) \<Rightarrow> hisi_sgl_pool option \<Rightarrow> (nat \<times> nat) list option \<Rightarrow> sgl_mem
    \<Rightarrow> (nat result \<times> hisi_sgl_pool option \<times> sgl_mem) option" where
  "hisi_qm_get_hw_sgl iova_map sgl_pool sgl m =
    (case (sgl_pool, sgl) of
       (Some pool, Some nodes) \<Rightarrow>
         if (case sp_mm_ops pool of None \<Rightarrow> False | Some ops \<Rightarrow> \<not> mo_iova_map ops) then Some (Inl WD_EINVAL, sgl_pool, m)
         else
           (case hisi_qm_sgl_pop pool of
              None \<Rightarrow> None
            | Some (head, pool) \<Rightarrow>
                if head = 0 then Some (Inl WD_EBUSY, Some pool, m)
                else
                  (case fill_lists iova_map head nodes pool m head 0 of
                     None \<Rightarrow> None
                   | Some (r, pool, m) \<Rightarrow>
                       (case sm_sgls m head of
                          None \<Rightarrow> None
                        | Some h \<Rightarrow>
                            (let r = (case r of Inl e \<Rightarrow> Inl e
                                      | Inr _ \<Rightarrow> if sg_entry_sum_in_chain h = 0 then Inl WD_EINVAL else Inr head) in
                             case r of
                               Inr a \<Rightarrow> Some (Inr a, Some pool, m)
                             | Inl e \<Rightarrow>
                                 (case hisi_qm_put_hw_sgl (Some pool) head m of
                                    None \<Rightarrow> None
                                  | Some (pool, m) \<Rightarrow> Some (Inl e, pool, m))))))
     | _ \<Rightarrow> Some (Inl WD_EINVAL, sgl_pool, m))"

subsection \<open>Copying\<close>

text \<open>
  Buffers are byte lists at addresses. A copy reads or writes inside one buffer; leaving it has no outcome.
\<close>

type_synonym buffers = "nat \<rightharpoonup> nat list"

definition buf_read :: "buffers \<Rightarrow> nat \<Rightarrow> nat \<Rightarrow> nat \<Rightarrow> nat list option" where
  "buf_read bufs a off n =
    (case bufs a of None \<Rightarrow> None | Some b \<Rightarrow> if off + n \<le> length b then Some (take n (drop off b)) else None)"

definition buf_write :: "buffers \<Rightarrow> nat \<Rightarrow> nat \<Rightarrow> nat list \<Rightarrow> buffers option" where
  "buf_write bufs a off bs =
    (case bufs a of None \<Rightarrow> None
     | Some b \<Rightarrow> if off + length bs \<le> length b
                then Some (bufs(a \<mapsto> take off b @ bs @ drop (off + length bs) b)) else None)"

text \<open>
  The loops over the entries after the first one. The entries of the lists of a chain are visited in order, so
  the loops run over the valid entries of the current list and of its successors; \<open>out\<close> is what has been copied
  to the flat buffer, whose length is the running \<^verbatim>\<open>offset\<close>.
\<close>

fun copy_entries_out :: "buffers \<Rightarrow> hisi_sge list \<Rightarrow> nat \<Rightarrow> nat list \<Rightarrow> nat list option" where
  "copy_entries_out bufs [] sz out = Some out"
| "copy_entries_out bufs (e # es) sz out =
    (if u32 (length out + se_len e) \<ge> sz then
       map_option (\<lambda>bs. out @ bs) (buf_read bufs (se_vbuff e) 0 (sz - length out))
     else
       (case buf_read bufs (se_vbuff e) 0 (se_len e) of
          None \<Rightarrow> None
        | Some bs \<Rightarrow> copy_entries_out bufs es sz (out @ bs)))"

fun copy_entries_in :: "hisi_sge list \<Rightarrow> nat list \<Rightarrow> nat \<Rightarrow> nat \<Rightarrow> buffers \<Rightarrow> buffers option" where
  "copy_entries_in [] pbuff sz offset bufs = Some bufs"
| "copy_entries_in (e # es) pbuff sz offset bufs =
    (if u32 (offset + se_len e) \<ge> sz then buf_write bufs (se_vbuff e) 0 (take (sz - offset) (drop offset pbuff))
     else
       (case buf_write bufs (se_vbuff e) 0 (take (se_len e) (drop offset pbuff)) of
          None \<Rightarrow> None
        | Some bufs \<Rightarrow> copy_entries_in es pbuff sz (u32 (offset + se_len e)) bufs))"

text \<open>
  The valid entries of the chain that starts at an address; \<open>n\<close> bounds the number of lists that are followed, and
  any \<open>n\<close> at least as large as the number of lists of the chain gives the same result.
\<close>

definition sgl_entries :: "hisi_sgl \<Rightarrow> hisi_sge list" where
  "sgl_entries g = take (sg_entry_sum_in_sgl g) (sg_sge_entries g)"

fun chain_entries :: "nat \<Rightarrow> sgl_mem \<Rightarrow> nat \<Rightarrow> hisi_sge list option" where
  "chain_entries n m a =
    (if a = 0 then Some []
     else case n of
         0 \<Rightarrow> None
       | Suc n \<Rightarrow>
           (case sm_sgls m a of
              None \<Rightarrow> None
            | Some g \<Rightarrow> map_option (\<lambda>es. sgl_entries g @ es) (chain_entries n m (sg_next g))))"

declare chain_entries.simps [simp del]

definition hisi_qm_sgl_copy_inner ::
  "nat \<Rightarrow> sgl_mem \<Rightarrow> buffers \<Rightarrow> hisi_sgl \<Rightarrow> nat \<Rightarrow> nat \<Rightarrow> nat \<Rightarrow> nat list option" where
  "hisi_qm_sgl_copy_inner n m bufs g begin_sge sge_offset sz =
    (case rd (sg_sge_entries g) begin_sge of
       None \<Rightarrow> None
     | Some e \<Rightarrow>
         (let offset = sub32 (se_len e) sge_offset in
          if offset \<ge> sz then buf_read bufs (se_vbuff e) sge_offset sz
          else
            (case (buf_read bufs (se_vbuff e) sge_offset offset, chain_entries n m (sg_next g)) of
               (Some bs, Some rest) \<Rightarrow>
                 copy_entries_out bufs (drop (begin_sge + 1) (sgl_entries g) @ rest) sz bs
             | _ \<Rightarrow> None)))"

text \<open>The copy in the other direction does not write to the first entry when the data does not fit into it.\<close>

definition hisi_qm_pbuff_copy_inner ::
  "nat \<Rightarrow> sgl_mem \<Rightarrow> nat list \<Rightarrow> buffers \<Rightarrow> hisi_sgl \<Rightarrow> nat \<Rightarrow> nat \<Rightarrow> nat \<Rightarrow> buffers option" where
  "hisi_qm_pbuff_copy_inner n m pbuff bufs g begin_sge sge_offset sz =
    (case rd (sg_sge_entries g) begin_sge of
       None \<Rightarrow> None
     | Some e \<Rightarrow>
         if sub32 (se_len e) sge_offset \<ge> sz then buf_write bufs (se_vbuff e) sge_offset (take sz pbuff)
         else
           (case chain_entries n m (sg_next g) of
              Some rest \<Rightarrow> copy_entries_in (drop (begin_sge + 1) (sgl_entries g) @ rest) pbuff sz 0 bufs
            | None \<Rightarrow> None))"

text \<open>Finding the list and the entry that hold the offset.\<close>

fun find_list :: "nat \<Rightarrow> sgl_mem \<Rightarrow> nat \<Rightarrow> nat \<Rightarrow> nat \<Rightarrow> (nat \<times> hisi_sgl) option option" where
  "find_list n m a len offset =
    (case sm_sgls m a of
       None \<Rightarrow> None
     | Some g \<Rightarrow>
         if u64 (len + sg_entry_size_in_sgl g) \<le> offset then
           (if sg_next g = 0 then Some None
            else case n of 0 \<Rightarrow> None
              | Suc n \<Rightarrow> find_list n m (sg_next g) (u64 (len + sg_entry_size_in_sgl g)) offset)
         else Some (Some (len, g)))"

declare find_list.simps [simp del]

fun find_entry :: "nat \<Rightarrow> hisi_sge list \<Rightarrow> nat \<Rightarrow> nat \<Rightarrow> nat \<times> nat" where
  "find_entry i [] len offset = (0, 0)"
| "find_entry i (e # es) len offset =
    (if len + se_len e > offset then (i, offset - len)
     else if len + se_len e = offset then (i + 1, 0)
     else find_entry (i + 1) es (len + se_len e) offset)"

datatype sgl_copy_dir = COPY_SGL_TO_PBUFF | COPY_PBUFF_TO_SGL

text \<open>
  The flat buffer and the data buffers after the copy (\<open>pbuff\<close> empty for \<^verbatim>\<open>NULL\<close>, \<open>hw_sgl\<close> 0 for \<^verbatim>\<open>NULL\<close>). The
  copied bytes are written to the start of the flat buffer.
\<close>

definition hisi_qm_sgl_copy ::
  "nat \<Rightarrow> sgl_mem \<Rightarrow> nat list \<Rightarrow> buffers \<Rightarrow> nat \<Rightarrow> nat \<Rightarrow> nat \<Rightarrow> sgl_copy_dir \<Rightarrow> (nat list \<times> buffers) option" where
  "hisi_qm_sgl_copy n m pbuff bufs hw_sgl offset sz direct =
    (if pbuff = [] \<or> sz = 0 \<or> hw_sgl = 0 then Some (pbuff, bufs)
     else
       (case find_list n m hw_sgl 0 offset of
          None \<Rightarrow> None
        | Some None \<Rightarrow> Some (pbuff, bufs)
        | Some (Some (len, g)) \<Rightarrow>
            (let (begin_sge, sge_offset) = find_entry 0 (sgl_entries g) len offset in
             case direct of
               COPY_SGL_TO_PBUFF \<Rightarrow>
                 (case hisi_qm_sgl_copy_inner n m bufs g begin_sge sge_offset sz of
                    None \<Rightarrow> None
                  | Some bs \<Rightarrow> if length bs \<le> length pbuff then Some (bs @ drop (length bs) pbuff, bufs) else None)
             | COPY_PBUFF_TO_SGL \<Rightarrow>
                 map_option (\<lambda>bufs. (pbuff, bufs)) (hisi_qm_pbuff_copy_inner n m pbuff bufs g begin_sge sge_offset sz))))"

text \<open>The total length from a node of a data list up to, and without, the end node.\<close>

fun hisi_qm_get_list_size :: "(nat \<times> nat) list \<Rightarrow> nat \<Rightarrow> nat" where
  "hisi_qm_get_list_size [] acc = acc"
| "hisi_qm_get_list_size ((data, len) # rest) acc = hisi_qm_get_list_size rest (u32 (acc + len))"

subsection \<open>The pool as a stack of free lists\<close>

definition sgl_free :: "hisi_sgl_pool \<Rightarrow> nat list" where
  "sgl_free p = take (sp_top p) (sp_sgl_align p)"

definition clean_sgl :: "nat \<Rightarrow> hisi_sgl \<Rightarrow> bool" where
  "clean_sgl n g \<longleftrightarrow> sg_next g = 0 \<and> sg_next_dma g = 0 \<and> sg_entry_sum_in_sgl g = 0 \<and> sg_entry_size_in_sgl g = 0 \<and>
     sg_entry_sum_in_chain g = u16 n"

text \<open>\<open>A\<close> is the set of addresses at which the lists of the pool live.\<close>

definition sgl_inv :: "nat set \<Rightarrow> hisi_sgl_pool \<times> sgl_mem \<Rightarrow> bool" where
  "sgl_inv A pm \<longleftrightarrow> (case pm of (p, m) \<Rightarrow>
     sp_top p \<le> sp_depth p \<and> length (sp_sgl_align p) = sp_depth p \<and> 0 \<notin> A \<and> set (sgl_free p) \<subseteq> A \<and>
     (\<forall>a \<in> A. \<exists>g. sm_sgls m a = Some g \<and> length (sg_sge_entries g) = sp_sge_num p) \<and>
     (\<forall>a \<in> set (sgl_free p). \<exists>g. sm_sgls m a = Some g \<and> clean_sgl (sp_sge_num p) g))"

definition sgl_pop :: "hisi_sgl_pool \<times> sgl_mem \<Rightarrow> (nat \<times> hisi_sgl_pool \<times> sgl_mem) option" where
  "sgl_pop pm = (case hisi_qm_sgl_pop (fst pm) of
     Some (a, q) \<Rightarrow> if a = 0 then None else Some (a, q, snd pm) | None \<Rightarrow> None)"

definition sgl_push :: "hisi_sgl_pool \<times> sgl_mem \<Rightarrow> nat \<Rightarrow> (hisi_sgl_pool \<times> sgl_mem) option" where
  "sgl_push pm a = (case hisi_qm_sgl_push (fst pm) a (snd pm) of Some (Inr _, q, m) \<Rightarrow> Some (q, m) | _ \<Rightarrow> None)"

lemma pop_empty: "sp_top p = 0 \<Longrightarrow> hisi_qm_sgl_pop p = Some (0, p)"
  by (simp add: hisi_qm_sgl_pop_def)

lemma pop_free:
  assumes inv: "sgl_inv A (p, m)" and top: "sp_top p \<noteq> 0"
  shows "\<exists>a. hisi_qm_sgl_pop p = Some (a, p\<lparr>sp_top := sp_top p - 1\<rparr>) \<and> a \<noteq> 0 \<and> a \<in> A \<and>
    sgl_free p = sgl_free (p\<lparr>sp_top := sp_top p - 1\<rparr>) @ [a] \<and> sgl_inv A (p\<lparr>sp_top := sp_top p - 1\<rparr>, m)"
proof -
  let ?q = "p\<lparr>sp_top := sp_top p - 1\<rparr>" and ?a = "sp_sgl_align p ! (sp_top p - 1)"
  have lt: "sp_top p - 1 < length (sp_sgl_align p)" using inv top by (auto simp: sgl_inv_def)
  have split: "sgl_free p = sgl_free ?q @ [?a]"
    using lt top take_Suc_conv_app_nth [of "sp_top p - 1" "sp_sgl_align p"] by (simp add: sgl_free_def)
  then have "?a \<in> A" "0 \<notin> A" using inv by (auto simp: sgl_inv_def)
  moreover have "sgl_inv A (?q, m)" using inv split by (auto simp: sgl_inv_def)
  moreover have "hisi_qm_sgl_pop p = Some (?a, ?q)" using lt top by (simp add: hisi_qm_sgl_pop_def Let_def)
  ultimately show ?thesis using split by metis
qed

lemma push_free:
  assumes inv: "sgl_inv A (p, m)" and a: "a \<in> A" and top: "sp_top p < sp_depth p"
  shows "\<exists>g q m'. sm_sgls m a = Some g \<and> hisi_qm_sgl_push p a m = Some (Inr (), q, m') \<and>
    m' = m\<lparr>sm_sgls := (sm_sgls m)(a \<mapsto> reset_sgl (sp_sge_num p) g)\<rparr> \<and>
    sgl_free q = sgl_free p @ [a] \<and> sgl_inv A (q, m') \<and> sp_depth q = sp_depth p \<and> sp_sge_num q = sp_sge_num p \<and>
    sp_mm_ops q = sp_mm_ops p"
proof -
  from inv a obtain g where g: "sm_sgls m a = Some g" "length (sg_sge_entries g) = sp_sge_num p"
    by (auto simp: sgl_inv_def)
  have lt: "sp_top p < length (sp_sgl_align p)" using inv top by (auto simp: sgl_inv_def)
  let ?q = "p\<lparr>sp_sgl_align := (sp_sgl_align p)[sp_top p := a], sp_top := sp_top p + 1\<rparr>"
  let ?m = "m\<lparr>sm_sgls := (sm_sgls m)(a \<mapsto> reset_sgl (sp_sge_num p) g)\<rparr>"
  have free: "sgl_free ?q = sgl_free p @ [a]" using lt by (simp add: sgl_free_def take_list_update_same)
  have clean: "clean_sgl (sp_sge_num p) (reset_sgl (sp_sge_num p) g)" by (simp add: clean_sgl_def reset_sgl_def)
  have len: "length (sg_sge_entries (reset_sgl (sp_sge_num p) g)) = sp_sge_num p" using g(2) by (simp add: reset_sgl_def)
  have "sgl_inv A (?q, ?m)" unfolding sgl_inv_def prod.case free using inv a top clean len by (simp add: sgl_inv_def)
  moreover have "hisi_qm_sgl_push p a m = Some (Inr (), ?q, ?m)" using top lt g(1) by (simp add: hisi_qm_sgl_push_def)
  ultimately show ?thesis using g(1) free by (intro exI [of _ g] exI [of _ ?q] exI [of _ ?m]) simp
qed

interpretation sgls: free_stack "\<lambda>pm. sgl_free (fst pm)" "\<lambda>pm. sp_depth (fst pm)" "\<lambda>a. a \<in> A" sgl_pop sgl_push "sgl_inv A"
  for A :: "nat set"
proof
  fix pm :: "hisi_sgl_pool \<times> sgl_mem" assume inv: "sgl_inv A pm"
  obtain p m where pm: "pm = (p, m)" by (cases pm)
  have len: "length (sgl_free p) = sp_top p" using inv pm by (auto simp: sgl_inv_def sgl_free_def)
  show "length (sgl_free (fst pm)) \<le> sp_depth (fst pm)" using inv pm len by (simp add: sgl_inv_def)
  show "sgl_pop pm = None \<longleftrightarrow> sgl_free (fst pm) = []"
  proof (cases "sp_top p = 0")
    case True
    then show ?thesis using pm pop_empty [OF True] by (simp add: sgl_pop_def sgl_free_def)
  next
    case False
    with pop_free [OF inv [unfolded pm] False] show ?thesis using pm by (auto simp: sgl_pop_def)
  qed
  show "sgl_inv A q \<and> sgl_free (fst pm) = sgl_free (fst q) @ [a] \<and> sp_depth (fst q) = sp_depth (fst pm) \<and> a \<in> A"
    if pop: "sgl_pop pm = Some (a, q)" for a q
  proof -
    have "sp_top p \<noteq> 0"
    proof
      assume "sp_top p = 0"
      from pop_empty [OF this] pop pm show False by (simp add: sgl_pop_def)
    qed
    from pop_free [OF inv [unfolded pm] this] pop pm show ?thesis by (auto simp: sgl_pop_def split: if_splits)
  qed
  fix a assume a: "a \<in> A"
  show "sgl_push pm a = None \<longleftrightarrow> length (sgl_free (fst pm)) = sp_depth (fst pm)"
  proof (cases "sp_top p < sp_depth p")
    case True
    from push_free [OF inv [unfolded pm] a True] True len pm show ?thesis by (auto simp: sgl_push_def)
  next
    case False
    moreover have "sp_top p \<le> sp_depth p" using inv pm by (simp add: sgl_inv_def)
    ultimately show ?thesis using len pm by (simp add: sgl_push_def hisi_qm_sgl_push_def)
  qed
  show "sgl_inv A q \<and> sgl_free (fst q) = sgl_free (fst pm) @ [a] \<and> sp_depth (fst q) = sp_depth (fst pm)"
    if push: "sgl_push pm a = Some q" for q
  proof -
    have "sp_top p < sp_depth p" using push pm by (auto simp: sgl_push_def hisi_qm_sgl_push_def split: if_splits)
    from push_free [OF inv [unfolded pm] a this] push pm show ?thesis by (auto simp: sgl_push_def)
  qed
qed

subsection \<open>Chains\<close>

type_synonym sgl_map = "nat \<rightharpoonup> hisi_sgl"

fun chained :: "sgl_map \<Rightarrow> nat list \<Rightarrow> bool" where
  "chained M [] = True"
| "chained M [a] = (\<exists>g. M a = Some g \<and> sg_next g = 0)"
| "chained M (a # b # cs) = ((\<exists>g. M a = Some g \<and> sg_next g = b) \<and> chained M (b # cs))"

definition sgl_data :: "hisi_sgl \<Rightarrow> (nat \<times> nat) list" where
  "sgl_data g = map (\<lambda>e. (se_vbuff e, se_len e)) (sgl_entries g)"

definition chain_data :: "sgl_map \<Rightarrow> nat list \<Rightarrow> (nat \<times> nat) list" where
  "chain_data M cs = concat (map (\<lambda>a. case M a of None \<Rightarrow> [] | Some g \<Rightarrow> sgl_data g) cs)"

lemma chain_data_simps [simp]:
  "chain_data M [] = []"
  "chain_data M (cs @ ds) = chain_data M cs @ chain_data M ds"
  "M a = Some g \<Longrightarrow> chain_data M (a # cs) = sgl_data g @ chain_data M cs"
  by (simp_all add: chain_data_def)

lemma chain_data_other: "a \<notin> set cs \<Longrightarrow> chain_data (M(a \<mapsto> g)) cs = chain_data M cs"
  by (auto simp: chain_data_def intro!: arg_cong [where f = concat])

lemma chained_other: "a \<notin> set cs \<Longrightarrow> chained (M(a \<mapsto> g)) cs = chained M cs"
  by (induction M cs rule: chained.induct) auto

lemma chained_upd: "chained M cs \<Longrightarrow> M a = Some g \<Longrightarrow> sg_next g' = sg_next g \<Longrightarrow> chained (M(a \<mapsto> g')) cs"
  by (induction M cs rule: chained.induct) auto

lemma chained_snoc:
  assumes "chained M (pre @ [cur])" and "distinct (pre @ [cur, new])" and "M cur = Some g" and "M new = Some h" and "sg_next h = 0"
  shows "chained (M(cur \<mapsto> g\<lparr>sg_next_dma := x, sg_next := new\<rparr>)) (pre @ [cur, new])"
  using assms
proof (induction pre)
  case Nil
  then show ?case by auto
next
  case (Cons a pre)
  then show ?case by (cases pre) auto
qed

text \<open>A list that is being filled.\<close>

definition sgl_ok :: "nat \<Rightarrow> hisi_sgl \<Rightarrow> bool" where
  "sgl_ok n g \<longleftrightarrow> length (sg_sge_entries g) = n \<and> sg_entry_sum_in_sgl g \<le> n \<and>
     sg_entry_size_in_sgl g = sum_list (map se_len (sgl_entries g)) \<and>
     (\<forall>e \<in> set (sgl_entries g). 0 < se_len e \<and> se_len e \<le> HISI_MAX_SIZE_IN_SGE)"

lemma clean_sgl_ok: "clean_sgl n g \<Longrightarrow> length (sg_sge_entries g) = n \<Longrightarrow> sgl_ok n g \<and> sgl_data g = []"
  by (simp add: clean_sgl_def sgl_ok_def sgl_entries_def sgl_data_def)

lemma length_sgl_data: "sgl_ok n g \<Longrightarrow> length (sgl_data g) = sg_entry_sum_in_sgl g"
  by (simp add: sgl_ok_def sgl_data_def sgl_entries_def)

lemma sgl_size_bound:
  assumes "sgl_ok n g" and "n \<le> 255"
  shows "sg_entry_size_in_sgl g \<le> 255 * HISI_MAX_SIZE_IN_SGE"
proof -
  have "sum_list (map se_len es) \<le> length es * HISI_MAX_SIZE_IN_SGE" if "\<forall>e \<in> set es. se_len e \<le> HISI_MAX_SIZE_IN_SGE" for es
    using that by (induction es) auto
  moreover have "\<forall>e \<in> set (sgl_entries g). se_len e \<le> HISI_MAX_SIZE_IN_SGE" using assms by (auto simp: sgl_ok_def)
  ultimately have "sum_list (map se_len (sgl_entries g)) \<le> length (sgl_entries g) * HISI_MAX_SIZE_IN_SGE" by blast
  moreover have "length (sgl_entries g) \<le> 255" using assms by (simp add: sgl_ok_def sgl_entries_def)
  then have "length (sgl_entries g) * HISI_MAX_SIZE_IN_SGE \<le> 255 * HISI_MAX_SIZE_IN_SGE" by (rule mult_le_mono1)
  ultimately show ?thesis using assms(1) unfolding sgl_ok_def by linarith
qed

lemma fill_entry:
  assumes ok: "sgl_ok n g" and n: "n \<le> 255" and i: "sg_entry_sum_in_sgl g < n" and len: "0 < len" "len \<le> HISI_MAX_SIZE_IN_SGE"
    and g': "g' = g\<lparr>sg_sge_entries := (sg_sge_entries g)[sg_entry_sum_in_sgl g := e\<lparr>se_buff := b, se_vbuff := data, se_len := len\<rparr>],
      sg_entry_sum_in_sgl := u16 (sg_entry_sum_in_sgl g + 1), sg_entry_size_in_sgl := u64 (sg_entry_size_in_sgl g + len)\<rparr>"
  shows "sgl_ok n g' \<and> sgl_data g' = sgl_data g @ [(data, len)] \<and> sg_entry_sum_in_sgl g' = sg_entry_sum_in_sgl g + 1 \<and>
    sg_next g' = sg_next g \<and> sg_next_dma g' = sg_next_dma g \<and> sg_entry_sum_in_chain g' = sg_entry_sum_in_chain g"
proof -
  let ?i = "sg_entry_sum_in_sgl g" let ?e = "e\<lparr>se_buff := b, se_vbuff := data, se_len := len\<rparr>"
  have lt: "?i < length (sg_sge_entries g)" using ok i by (simp add: sgl_ok_def)
  have sum: "u16 (Suc ?i) = Suc ?i" using i n by (intro u16_small) simp
  have sz: "u64 (sg_entry_size_in_sgl g + len) = sg_entry_size_in_sgl g + len"
    using sgl_size_bound [OF ok n] len by (intro u64_small) (simp add: HISI_MAX_SIZE_IN_SGE_def)
  have ents: "sgl_entries g' = sgl_entries g @ [?e]" using lt by (simp add: g' sgl_entries_def sum take_list_update_same)
  have fields: "length (sg_sge_entries g') = length (sg_sge_entries g)" "sg_entry_sum_in_sgl g' = Suc ?i"
    "sg_entry_size_in_sgl g' = sg_entry_size_in_sgl g + len" "sg_next g' = sg_next g" "sg_next_dma g' = sg_next_dma g"
    "sg_entry_sum_in_chain g' = sg_entry_sum_in_chain g" using sum sz by (simp_all add: g')
  have "sgl_ok n g'" using ok i len by (auto simp: sgl_ok_def fields ents)
  then show ?thesis using ents by (simp add: sgl_data_def fields)
qed

subsection \<open>Filling a chain\<close>

definition usable :: "nat \<times> nat \<Rightarrow> bool" where
  "usable dl \<longleftrightarrow> fst dl \<noteq> 0 \<and> snd dl \<noteq> 0"

definition bad_node :: "(nat \<Rightarrow> nat \<Rightarrow> nat) \<Rightarrow> hisi_sgl_pool \<Rightarrow> nat \<times> nat \<Rightarrow> bool" where
  "bad_node iova_map p dl \<longleftrightarrow> usable dl \<and> (snd dl > HISI_MAX_SIZE_IN_SGE \<or> map_addr iova_map p (fst dl) (snd dl) = 0)"

text \<open>
  The lists \<open>pre @ [cur]\<close> have been taken from the pool and form a chain; those before the last one are full.
\<close>

definition fill_st :: "nat set \<Rightarrow> hisi_sgl_pool \<Rightarrow> sgl_mem \<Rightarrow> nat list \<Rightarrow> nat \<Rightarrow> bool" where
  "fill_st A p m pre cur \<longleftrightarrow> sgl_inv A (p, m) \<and> 0 < sp_sge_num p \<and> sp_sge_num p \<le> 255 \<and>
     distinct (sgl_free p @ pre @ [cur]) \<and> set (pre @ [cur]) \<subseteq> A \<and> chained (sm_sgls m) (pre @ [cur]) \<and>
     (\<forall>a \<in> set (pre @ [cur]). \<exists>g. sm_sgls m a = Some g \<and> sgl_ok (sp_sge_num p) g)"

lemma fill_stD:
  assumes "fill_st A p m pre cur"
  shows "sgl_inv A (p, m)" "0 < sp_sge_num p" "sp_sge_num p \<le> 255" "distinct (sgl_free p @ pre @ [cur])"
    "set (pre @ [cur]) \<subseteq> A" "chained (sm_sgls m) (pre @ [cur])"
    "\<And>a. a \<in> set (pre @ [cur]) \<Longrightarrow> \<exists>g. sm_sgls m a = Some g \<and> sgl_ok (sp_sge_num p) g"
  using assms unfolding fill_st_def by blast+

text \<open>Changing a list that is not free, without unlinking it, keeps the state.\<close>

lemma sgl_inv_upd:
  assumes "sgl_inv A (p, m)" and "a \<notin> set (sgl_free p)" and "length (sg_sge_entries g) = sp_sge_num p"
  shows "sgl_inv A (p, m\<lparr>sm_sgls := (sm_sgls m)(a \<mapsto> g)\<rparr>)"
  using assms by (auto simp: sgl_inv_def)

lemma fill_st_upd:
  assumes st: "fill_st A p m pre cur" and a: "a \<in> set (pre @ [cur])" and g: "sm_sgls m a = Some g"
    and ok: "sgl_ok (sp_sge_num p) g'" and nx: "sg_next g' = sg_next g"
  shows "fill_st A p (m\<lparr>sm_sgls := (sm_sgls m)(a \<mapsto> g')\<rparr>) pre cur"
proof -
  note D = fill_stD [OF st]
  have "a \<notin> set (sgl_free p)" using D(4) a by auto
  then have "sgl_inv A (p, m\<lparr>sm_sgls := (sm_sgls m)(a \<mapsto> g')\<rparr>)"
    using D(1) ok by (intro sgl_inv_upd) (simp_all add: sgl_ok_def)
  moreover have "chained ((sm_sgls m)(a \<mapsto> g')) (pre @ [cur])" using chained_upd [OF D(6) g nx] .
  ultimately show ?thesis using D(2-5,7) ok unfolding fill_st_def by auto
qed

text \<open>Linking the next list of the pool behind the last one.\<close>

lemma fill_st_link:
  assumes st: "fill_st A p m pre cur" and top: "sp_top p \<noteq> 0" and g: "sm_sgls m cur = Some g"
  shows "\<exists>a h. hisi_qm_sgl_pop p = Some (a, p\<lparr>sp_top := sp_top p - 1\<rparr>) \<and> a \<noteq> 0 \<and>
    sgl_free p = sgl_free (p\<lparr>sp_top := sp_top p - 1\<rparr>) @ [a] \<and> a \<noteq> cur \<and> a \<notin> set pre \<and>
    sm_sgls m a = Some h \<and> sgl_ok (sp_sge_num p) h \<and> sgl_data h = [] \<and> sg_entry_sum_in_sgl h = 0 \<and>
    fill_st A (p\<lparr>sp_top := sp_top p - 1\<rparr>) (m\<lparr>sm_sgls := (sm_sgls m)(cur \<mapsto> g\<lparr>sg_next_dma := x, sg_next := a\<rparr>)\<rparr>)
      (pre @ [cur]) a"
proof -
  note D = fill_stD [OF st]
  let ?q = "p\<lparr>sp_top := sp_top p - 1\<rparr>"
  from pop_free [OF D(1) top] obtain a where pop: "hisi_qm_sgl_pop p = Some (a, ?q)" "a \<noteq> 0" "a \<in> A"
    "sgl_free p = sgl_free ?q @ [a]" "sgl_inv A (?q, m)" by blast
  let ?g = "g\<lparr>sg_next_dma := x, sg_next := a\<rparr>" let ?m = "m\<lparr>sm_sgls := (sm_sgls m)(cur \<mapsto> ?g)\<rparr>"
  have "a \<in> set (sgl_free p)" using pop(4) by simp
  then obtain h where h: "sm_sgls m a = Some h" "clean_sgl (sp_sge_num p) h" using D(1) by (auto simp: sgl_inv_def)
  moreover have "length (sg_sge_entries h) = sp_sge_num p" using D(1) pop(3) h(1) by (fastforce simp: sgl_inv_def)
  ultimately have hok: "sgl_ok (sp_sge_num p) h" "sgl_data h = []" "sg_entry_sum_in_sgl h = 0" "sg_next h = 0"
    using clean_sgl_ok by (auto simp: clean_sgl_def)
  have dist: "distinct (pre @ [cur, a])" "a \<noteq> cur" "a \<notin> set pre" using D(4) pop(4) by auto
  have gok: "sgl_ok (sp_sge_num p) ?g" using D(7) [of cur] g by (simp add: sgl_ok_def sgl_entries_def)
  have "chained (sm_sgls ?m) (pre @ [cur, a])" using chained_snoc [OF D(6) dist(1) g h(1) hok(4)] by simp
  moreover have "sgl_inv A (?q, ?m)"
    using pop(5) gok D(4) pop(4) by (intro sgl_inv_upd) (auto simp: sgl_ok_def)
  moreover have "\<exists>k. sm_sgls ?m b = Some k \<and> sgl_ok (sp_sge_num p) k" if "b \<in> set ((pre @ [cur]) @ [a])" for b
    using D(7) [of b] that gok h(1) hok(1) dist(2) by auto
  moreover have "distinct (sgl_free ?q @ (pre @ [cur]) @ [a])" using D(4) pop(4) by auto
  ultimately have "fill_st A ?q ?m (pre @ [cur]) a" using D(2,3,5) pop(3) unfolding fill_st_def by simp
  then show ?thesis using pop(1,2,4) h(1) hok(1-3) dist(2,3) by (intro exI [of _ a] exI [of _ h] conjI) simp_all
qed

lemma chain_data_same: "M a = Some g \<Longrightarrow> sgl_data g' = sgl_data g \<Longrightarrow> chain_data (M(a \<mapsto> g')) cs = chain_data M cs"
  by (induction cs) (auto simp: chain_data_def)

definition chain_sum :: "sgl_map \<Rightarrow> nat \<Rightarrow> nat" where
  "chain_sum M a = (case M a of None \<Rightarrow> 0 | Some g \<Rightarrow> sg_entry_sum_in_chain g)"

text \<open>What the loop has done when it ends: \<open>space\<close> is the number of entries that were available.\<close>

definition filled ::
  "nat set \<Rightarrow> (nat \<Rightarrow> nat \<Rightarrow> nat) \<Rightarrow> hisi_sgl_pool \<Rightarrow> sgl_mem \<Rightarrow> nat list \<Rightarrow> nat \<Rightarrow> (nat \<times> nat) list
    \<Rightarrow> unit result \<Rightarrow> hisi_sgl_pool \<Rightarrow> sgl_mem \<Rightarrow> nat list \<Rightarrow> bool" where
  "filled A iova p m cs space nodes r p' m' nw \<longleftrightarrow>
     (\<exists>pre cur. cs @ nw = pre @ [cur] \<and> fill_st A p' m' pre cur) \<and> sgl_free p = sgl_free p' @ rev nw \<and>
     p' = p\<lparr>sp_top := sp_top p'\<rparr> \<and> (\<forall>a. a \<notin> set (cs @ nw) \<longrightarrow> sm_sgls m' a = sm_sgls m a) \<and> sm_blocks m' = sm_blocks m \<and>
     chain_sum (sm_sgls m') (hd cs) = u16 (chain_sum (sm_sgls m) (hd cs) + sp_sge_num p * length nw) \<and>
     (case r of
        Inr _ \<Rightarrow> chain_data (sm_sgls m') (cs @ nw) = chain_data (sm_sgls m) cs @ filter usable nodes
      | Inl e \<Rightarrow> e = WD_EINVAL \<and> (\<exists>dl \<in> set nodes. bad_node iova p dl) \<or> e = WD_EBUSY \<and> length nodes > space)"

lemma bad_node_top [simp]: "bad_node iova (p\<lparr>sp_top := t\<rparr>) dl = bad_node iova p dl"
  by (simp add: bad_node_def map_addr_def)

lemma u16_add: "u16 (u16 a + b) = u16 (a + b)" "u16 (b + u16 a) = u16 (b + a)"
  by (simp_all add: u16_def mod_simps)

lemma filled_mono:
  assumes f: "filled A iova p2 m2 (cs @ nw) sp2 rest r p' m' nw'" and cs: "cs \<noteq> []"
    and free: "sgl_free p = sgl_free p2 @ rev nw" and p2: "p2 = p\<lparr>sp_top := sp_top p2\<rparr>"
    and other: "\<And>a. a \<notin> set (cs @ nw) \<Longrightarrow> sm_sgls m2 a = sm_sgls m a" and blocks: "sm_blocks m2 = sm_blocks m"
    and sum: "chain_sum (sm_sgls m2) (hd cs) = u16 (chain_sum (sm_sgls m) (hd cs) + sp_sge_num p * length nw)"
    and data: "chain_data (sm_sgls m2) (cs @ nw) @ filter usable rest = chain_data (sm_sgls m) cs @ filter usable nodes"
    and sub: "set rest \<subseteq> set nodes" and len: "length rest + space \<le> length nodes + sp2"
  shows "filled A iova p m cs space nodes r p' m' (nw @ nw')"
proof -
  have n: "sp_sge_num p2 = sp_sge_num p" by (subst p2) simp
  have p': "p' = p2\<lparr>sp_top := sp_top p'\<rparr>" using f by (simp add: filled_def)
  have "p' = p\<lparr>sp_top := sp_top p'\<rparr>" by (subst p', subst p2) simp
  moreover have "chain_sum (sm_sgls m') (hd cs) = u16 (chain_sum (sm_sgls m) (hd cs) + sp_sge_num p * length (nw @ nw'))"
    using f cs sum n by (simp add: filled_def u16_add algebra_simps)
  moreover have "bad_node iova p2 dl = bad_node iova p dl" for dl by (subst p2) simp
  then have "case r of Inr _ \<Rightarrow> chain_data (sm_sgls m') (cs @ nw @ nw') = chain_data (sm_sgls m) cs @ filter usable nodes
      | Inl e \<Rightarrow> e = WD_EINVAL \<and> (\<exists>dl \<in> set nodes. bad_node iova p dl) \<or> e = WD_EBUSY \<and> length nodes > space"
    using f data sub len by (auto simp: filled_def split: sum.splits)
  ultimately show ?thesis using f free other blocks unfolding filled_def by auto
qed

lemma filledI:
  assumes "fill_st A p m' pre cur" and "cs = pre @ [cur]" and "\<And>a. a \<notin> set cs \<Longrightarrow> sm_sgls m' a = sm_sgls m a"
    and "sm_blocks m' = sm_blocks m" and "chain_sum (sm_sgls m') (hd cs) = u16 (chain_sum (sm_sgls m) (hd cs))"
    and "case r of Inr _ \<Rightarrow> chain_data (sm_sgls m') cs = chain_data (sm_sgls m) cs @ filter usable nodes
      | Inl e \<Rightarrow> e = WD_EINVAL \<and> (\<exists>dl \<in> set nodes. bad_node iova p dl) \<or> e = WD_EBUSY \<and> length nodes > space"
  shows "filled A iova p m cs space nodes r p m' []"
  using assms unfolding filled_def by (auto split: sum.splits)

text \<open>Adding one entry to the last list.\<close>

lemma fill_st_entry:
  assumes st: "fill_st A p m pre cur" and g: "sm_sgls m cur = Some g" and i: "sg_entry_sum_in_sgl g < sp_sge_num p"
    and len: "0 < len" "len \<le> HISI_MAX_SIZE_IN_SGE"
    and g': "g' = g\<lparr>sg_sge_entries := (sg_sge_entries g)[sg_entry_sum_in_sgl g := e\<lparr>se_buff := b, se_vbuff := data, se_len := len\<rparr>],
      sg_entry_sum_in_sgl := u16 (sg_entry_sum_in_sgl g + 1), sg_entry_size_in_sgl := u64 (sg_entry_size_in_sgl g + len)\<rparr>"
  shows "fill_st A p (m\<lparr>sm_sgls := (sm_sgls m)(cur \<mapsto> g')\<rparr>) pre cur"
    "chain_data ((sm_sgls m)(cur \<mapsto> g')) (pre @ [cur]) = chain_data (sm_sgls m) (pre @ [cur]) @ [(data, len)]"
    "sg_entry_sum_in_sgl g' = sg_entry_sum_in_sgl g + 1"
    "chain_sum ((sm_sgls m)(cur \<mapsto> g')) a = chain_sum (sm_sgls m) a"
proof -
  note D = fill_stD [OF st]
  have "sgl_ok (sp_sge_num p) g" using D(7) [of cur] g by simp
  from fill_entry [OF this D(3) i len g'] have f: "sgl_ok (sp_sge_num p) g'" "sgl_data g' = sgl_data g @ [(data, len)]"
    "sg_entry_sum_in_sgl g' = sg_entry_sum_in_sgl g + 1" "sg_next g' = sg_next g" "sg_entry_sum_in_chain g' = sg_entry_sum_in_chain g"
    by blast+
  show "fill_st A p (m\<lparr>sm_sgls := (sm_sgls m)(cur \<mapsto> g')\<rparr>) pre cur" by (rule fill_st_upd [OF st _ g f(1,4)]) simp
  have "cur \<notin> set pre" using D(4) by auto
  then show "chain_data ((sm_sgls m)(cur \<mapsto> g')) (pre @ [cur]) = chain_data (sm_sgls m) (pre @ [cur]) @ [(data, len)]"
    using g f(2) by (simp add: chain_data_other)
  show "sg_entry_sum_in_sgl g' = sg_entry_sum_in_sgl g + 1" by (rule f(3))
  show "chain_sum ((sm_sgls m)(cur \<mapsto> g')) a = chain_sum (sm_sgls m) a" using g f(5) by (simp add: chain_sum_def)
qed

lemma fill_st_chain_sum:
  assumes st: "fill_st A p m pre cur" and head: "head \<in> set (pre @ [cur])" and h: "sm_sgls m head = Some h"
    and m': "m' = m\<lparr>sm_sgls := (sm_sgls m)(head \<mapsto> h\<lparr>sg_entry_sum_in_chain := x\<rparr>)\<rparr>"
  shows "fill_st A p m' pre cur" "chain_data (sm_sgls m') cs = chain_data (sm_sgls m) cs" "chain_sum (sm_sgls m') head = x"
proof -
  let ?h = "h\<lparr>sg_entry_sum_in_chain := x\<rparr>"
  have "sgl_ok (sp_sge_num p) ?h" using fill_stD(7) [OF st head] h by (auto simp: sgl_ok_def sgl_entries_def)
  from fill_st_upd [OF st head h this] show "fill_st A p m' pre cur" by (simp add: m')
  have "sgl_data ?h = sgl_data h" by (simp add: sgl_data_def sgl_entries_def)
  with chain_data_same [of "sm_sgls m" head h ?h cs] h show "chain_data (sm_sgls m') cs = chain_data (sm_sgls m) cs" by (simp add: m')
  show "chain_sum (sm_sgls m') head = x" by (simp add: chain_sum_def m')
qed

lemma fill_lists_unmapped:
  assumes st: "fill_st A p m pre cur" and g: "sm_sgls m cur = Some g"
  shows "fill_st A p (m\<lparr>sm_sgls := (sm_sgls m)(cur \<mapsto> g\<lparr>sg_sge_entries := (sg_sge_entries g)[sg_entry_sum_in_sgl g := e]\<rparr>)\<rparr>) pre cur"
proof -
  have "sgl_ok (sp_sge_num p) (g\<lparr>sg_sge_entries := (sg_sge_entries g)[sg_entry_sum_in_sgl g := e]\<rparr>)"
    using fill_stD(7) [OF st, of cur] g by (simp add: sgl_ok_def sgl_entries_def)
  from fill_st_upd [OF st _ g this] show ?thesis by simp
qed

text \<open>The rest of a round after an entry was added: \<open>cur\<close> with the contents \<open>g\<close> may be full.\<close>

definition fill_next ::
  "(nat \<Rightarrow> nat \<Rightarrow> nat) \<Rightarrow> nat \<Rightarrow> (nat \<times> nat) list \<Rightarrow> hisi_sgl_pool \<Rightarrow> sgl_mem \<Rightarrow> nat \<Rightarrow> hisi_sgl \<Rightarrow> nat
    \<Rightarrow> (unit result \<times> hisi_sgl_pool \<times> sgl_mem) option" where
  "fill_next iova head rest p m cur g i =
    (if i = sp_sge_num p \<and> rest \<noteq> [] then
       (case hisi_qm_sgl_pop p of
          None \<Rightarrow> None
        | Some (next, q) \<Rightarrow>
            if next = 0 then Some (Inl WD_EBUSY, q, m)
            else
              (let m = m\<lparr>sm_sgls := (sm_sgls m)(cur \<mapsto> g\<lparr>sg_next_dma := map_addr iova q next SIZEOF_SGL, sg_next := next\<rparr>)\<rparr> in
               case sm_sgls m head of
                 None \<Rightarrow> None
               | Some h \<Rightarrow>
                   fill_lists iova head rest q (m\<lparr>sm_sgls := (sm_sgls m)(head \<mapsto>
                     h\<lparr>sg_entry_sum_in_chain := u16 (sg_entry_sum_in_chain h + sp_sge_num q)\<rparr>)\<rparr>) next 0))
     else fill_lists iova head rest p m cur i)"

lemma fill_lists_entry:
  assumes st: "fill_st A p m pre cur" and g: "sm_sgls m cur = Some g" and i: "sg_entry_sum_in_sgl g < sp_sge_num p"
    and dl: "usable dl" "dl = (data, len)" "len \<le> HISI_MAX_SIZE_IN_SGE" and map: "map_addr iova p data len \<noteq> 0"
  shows "\<exists>g1 m1. fill_st A p m1 pre cur \<and> chain_data (sm_sgls m1) (pre @ [cur]) = chain_data (sm_sgls m) (pre @ [cur]) @ [dl] \<and>
    sg_entry_sum_in_sgl g1 = sg_entry_sum_in_sgl g + 1 \<and> (\<forall>a. chain_sum (sm_sgls m1) a = chain_sum (sm_sgls m) a) \<and>
    sm_sgls m1 cur = Some g1 \<and> sm_blocks m1 = sm_blocks m \<and> (\<forall>a. a \<noteq> cur \<longrightarrow> sm_sgls m1 a = sm_sgls m a) \<and>
    fill_lists iova head (dl # nodes) p m cur (sg_entry_sum_in_sgl g) = fill_next iova head nodes p m1 cur g1 (sg_entry_sum_in_sgl g + 1)"
proof -
  let ?i = "sg_entry_sum_in_sgl g" and ?b = "map_addr iova p data len"
  define g1 where "g1 = g\<lparr>sg_sge_entries := (sg_sge_entries g)[?i := (sg_sge_entries g ! ?i)\<lparr>se_buff := ?b, se_vbuff := data, se_len := len\<rparr>],
    sg_entry_sum_in_sgl := u16 (?i + 1), sg_entry_size_in_sgl := u64 (sg_entry_size_in_sgl g + len)\<rparr>"
  define m1 where "m1 = m\<lparr>sm_sgls := (sm_sgls m)(cur \<mapsto> g1)\<rparr>"
  have nz: "data \<noteq> 0" "0 < len" using dl by (auto simp: usable_def)
  have "length (sg_sge_entries g) = sp_sge_num p" using fill_stD(7) [OF st, of cur] g by (auto simp: sgl_ok_def)
  then have "rd (sg_sge_entries g) ?i = Some (sg_sge_entries g ! ?i)" using i by simp
  then have "fill_lists iova head (dl # nodes) p m cur ?i = fill_next iova head nodes p m1 cur g1 (?i + 1)"
    using nz dl(2,3) map g by (simp add: fill_next_def Let_def m1_def g1_def)
  then show ?thesis using fill_st_entry [OF st g i nz(2) dl(3) g1_def] by (intro exI [of _ g1] exI [of _ m1]) (simp add: m1_def dl(2))
qed

text \<open>The link round: the state after it, and what it means for the chain.\<close>

lemma fill_next_link:
  assumes st: "fill_st A p m pre cur" and g: "sm_sgls m cur = Some g" and full: "i = sp_sge_num p" "rest \<noteq> []" and top: "sp_top p \<noteq> 0"
  shows "\<exists>a h p2 m2. fill_next iova (hd (pre @ [cur])) rest p m cur g i = fill_lists iova (hd (pre @ [cur])) rest p2 m2 a 0 \<and>
    fill_st A p2 m2 (pre @ [cur]) a \<and> sm_sgls m2 a = Some h \<and> sg_entry_sum_in_sgl h = 0 \<and>
    sgl_free p = sgl_free p2 @ [a] \<and> p2 = p\<lparr>sp_top := sp_top p2\<rparr> \<and> sm_blocks m2 = sm_blocks m \<and>
    (\<forall>b. b \<notin> set (pre @ [cur]) \<longrightarrow> sm_sgls m2 b = sm_sgls m b) \<and>
    chain_sum (sm_sgls m2) (hd (pre @ [cur])) = u16 (chain_sum (sm_sgls m) (hd (pre @ [cur])) + sp_sge_num p) \<and>
    chain_data (sm_sgls m2) (pre @ [cur, a]) = chain_data (sm_sgls m) (pre @ [cur])"
proof -
  let ?head = "hd (pre @ [cur])" and ?q = "p\<lparr>sp_top := sp_top p - 1\<rparr>"
  have "\<exists>a. hisi_qm_sgl_pop p = Some (a, ?q)" using pop_free [OF fill_stD(1) [OF st] top] by blast
  then obtain a where a: "hisi_qm_sgl_pop p = Some (a, ?q)" by blast
  define g2 where "g2 = g\<lparr>sg_next_dma := map_addr iova ?q a SIZEOF_SGL, sg_next := a\<rparr>"
  define m1 where "m1 = m\<lparr>sm_sgls := (sm_sgls m)(cur \<mapsto> g2)\<rparr>"
  from fill_st_link [OF st top g, of "map_addr iova ?q a SIZEOF_SGL"] a obtain k where
    lk: "a \<noteq> 0" "sgl_free p = sgl_free ?q @ [a]" "a \<noteq> cur" "a \<notin> set pre" "sm_sgls m a = Some k" "sgl_data k = []"
    "sg_entry_sum_in_sgl k = 0" "fill_st A ?q m1 (pre @ [cur]) a" unfolding m1_def g2_def by auto
  have head: "?head \<in> set (pre @ [cur])" by (cases pre) auto
  then have head2: "?head \<in> set ((pre @ [cur]) @ [a])" by auto
  from fill_stD(7) [OF lk(8) head2] obtain h where h: "sm_sgls m1 ?head = Some h" by blast
  define m2 where "m2 = m1\<lparr>sm_sgls := (sm_sgls m1)(?head \<mapsto> h\<lparr>sg_entry_sum_in_chain := u16 (sg_entry_sum_in_chain h + sp_sge_num p)\<rparr>)\<rparr>"
  note hd2 = fill_st_chain_sum [OF lk(8) head2 h m2_def]
  have eq: "fill_next iova ?head rest p m cur g i = fill_lists iova ?head rest ?q m2 a 0"
    using a lk(1) full h by (simp add: fill_next_def Let_def m1_def m2_def g2_def)
  have ne: "a \<noteq> ?head" using head lk(3,4) by auto
  have m2a: "sm_sgls m2 a = Some k" using lk(3,5) ne by (simp add: m2_def m1_def)
  have "sgl_data g2 = sgl_data g" by (simp add: g2_def sgl_data_def sgl_entries_def)
  from chain_data_same [of "sm_sgls m" cur g g2 "pre @ [cur, a]", OF g this]
  have data: "chain_data (sm_sgls m2) (pre @ [cur, a]) = chain_data (sm_sgls m) (pre @ [cur])"
    using hd2(2) [of "pre @ [cur, a]"] lk(5,6) g by (simp add: m1_def chain_data_def)
  have "sg_entry_sum_in_chain h = chain_sum (sm_sgls m) ?head"
    using h g by (cases "?head = cur") (auto simp: m1_def g2_def chain_sum_def)
  then have sum: "chain_sum (sm_sgls m2) ?head = u16 (chain_sum (sm_sgls m) ?head + sp_sge_num p)" using hd2(3) by simp
  have other: "sm_sgls m2 b = sm_sgls m b" if "b \<notin> set (pre @ [cur])" for b
    using that head by (auto simp: m2_def m1_def)
  show ?thesis
    by (rule exI [of _ a], rule exI [of _ k], rule exI [of _ ?q], rule exI [of _ m2])
      (use eq hd2(1) m2a lk(2,7) sum data other in \<open>simp add: m2_def m1_def\<close>)
qed

lemma fill_lists_spec:
  assumes "fill_st A p m pre cur" and "sm_sgls m cur = Some g" and "nodes \<noteq> [] \<Longrightarrow> sg_entry_sum_in_sgl g < sp_sge_num p"
    and "chain_sum (sm_sgls m) (hd (pre @ [cur])) < 2 ^ 16"
  shows "\<exists>r p' m' nw. fill_lists iova (hd (pre @ [cur])) nodes p m cur (sg_entry_sum_in_sgl g) = Some (r, p', m') \<and>
    filled A iova p m (pre @ [cur]) (sp_sge_num p - sg_entry_sum_in_sgl g + sp_sge_num p * length (sgl_free p)) nodes r p' m' nw"
  using assms
proof (induction nodes arbitrary: p m pre cur g)
  case Nil
  have "filled A iova p m (pre @ [cur]) (sp_sge_num p - sg_entry_sum_in_sgl g + sp_sge_num p * length (sgl_free p)) [] (Inr ()) p m []"
    by (rule filledI [OF Nil.prems(1) refl]) (use Nil.prems(4) in \<open>simp_all add: u16_small\<close>)
  then show ?case by (intro exI [of _ "Inr ()"] exI [of _ p] exI [of _ m] exI [of _ "[]"]) simp
next
  case (Cons dl nodes)
  obtain data len where dl: "dl = (data, len)" by (cases dl)
  note st = Cons.prems(1) and g = Cons.prems(2)
  note D = fill_stD [OF st]
  let ?n = "sp_sge_num p" and ?i = "sg_entry_sum_in_sgl g" and ?head = "hd (pre @ [cur])"
  let ?space = "?n - ?i + ?n * length (sgl_free p)"
  have i: "?i < ?n" using Cons.prems(3) by simp
  have u: "u16 (chain_sum (sm_sgls m) ?head) = chain_sum (sm_sgls m) ?head" using Cons.prems(4) by (intro u16_small) simp
  have len_e: "length (sg_sge_entries g) = ?n" using D(7) [of cur] g by (auto simp: sgl_ok_def)
  then have e: "rd (sg_sge_entries g) ?i = Some (sg_sge_entries g ! ?i)" using i by simp
  show ?case
  proof (cases "usable dl")
    case False
    from Cons.IH [OF st g i Cons.prems(4)] obtain r p' m' nw where
      IH: "fill_lists iova ?head nodes p m cur ?i = Some (r, p', m')" "filled A iova p m (pre @ [cur]) ?space nodes r p' m' nw" by blast
    have "filled A iova p m (pre @ [cur]) ?space (dl # nodes) r p' m' ([] @ nw)"
      by (rule filled_mono [where ?sp2.0 = ?space and rest = nodes and ?p2.0 = p and ?m2.0 = m])
        (use IH(2) False u in auto)
    then show ?thesis using IH(1) False dl by (auto simp: usable_def)
  next
    case use: True
    then have nz: "data \<noteq> 0" "0 < len" using dl by (auto simp: usable_def)
    show ?thesis
    proof (cases "len > HISI_MAX_SIZE_IN_SGE")
      case True
      then have "bad_node iova p dl" using use dl by (simp add: bad_node_def)
      then have "filled A iova p m (pre @ [cur]) ?space (dl # nodes) (Inl WD_EINVAL) p m []"
        by (intro filledI [OF st refl]) (use u in simp_all)
      then show ?thesis using True nz dl by (intro exI [of _ "Inl WD_EINVAL"] exI [of _ p] exI [of _ m] exI [of _ "[]"]) simp
    next
      case le: False
      let ?b = "map_addr iova p data len"
      show ?thesis
      proof (cases "?b = 0")
        case True
        let ?m = "m\<lparr>sm_sgls := (sm_sgls m)(cur \<mapsto> g\<lparr>sg_sge_entries := (sg_sge_entries g)[?i := (sg_sge_entries g ! ?i)\<lparr>se_buff := 0\<rparr>]\<rparr>)\<rparr>"
        have "bad_node iova p dl" using use dl True by (simp add: bad_node_def)
        moreover have "chain_sum (sm_sgls ?m) a = chain_sum (sm_sgls m) a" for a using g by (simp add: chain_sum_def)
        ultimately have "filled A iova p m (pre @ [cur]) ?space (dl # nodes) (Inl WD_EINVAL) p ?m []"
          by (intro filledI [OF fill_lists_unmapped [OF st g] refl]) (use u in simp_all)
        then show ?thesis using True nz le dl g e
          by (intro exI [of _ "Inl WD_EINVAL"] exI [of _ p] exI [of _ ?m] exI [of _ "[]"]) (simp add: Let_def)
      next
        case map: False
        have "len \<le> HISI_MAX_SIZE_IN_SGE" using le by simp
        from fill_lists_entry [OF st g i use dl this map, of ?head nodes] obtain g1 m1 where
          st1: "fill_st A p m1 pre cur" and data1: "chain_data (sm_sgls m1) (pre @ [cur]) = chain_data (sm_sgls m) (pre @ [cur]) @ [dl]"
          and i1: "sg_entry_sum_in_sgl g1 = ?i + 1" and sum1: "\<And>a. chain_sum (sm_sgls m1) a = chain_sum (sm_sgls m) a"
          and m1: "sm_sgls m1 cur = Some g1" "sm_blocks m1 = sm_blocks m" "\<And>a. a \<noteq> cur \<Longrightarrow> sm_sgls m1 a = sm_sgls m a"
          and step: "fill_lists iova ?head (dl # nodes) p m cur ?i = fill_next iova ?head nodes p m1 cur g1 (?i + 1)" by blast
        show ?thesis
        proof (cases "?i + 1 = ?n \<and> nodes \<noteq> []")
          case False
          have i1': "nodes \<noteq> [] \<Longrightarrow> sg_entry_sum_in_sgl g1 < ?n" using False i i1 by auto
          have "chain_sum (sm_sgls m1) ?head < 2 ^ 16" using Cons.prems(4) sum1 by simp
          from Cons.IH [OF st1 m1(1) i1' this] i1 obtain r p' m' nw where
            IH: "fill_lists iova ?head nodes p m1 cur (?i + 1) = Some (r, p', m')"
            "filled A iova p m1 (pre @ [cur]) (?n - (?i + 1) + ?n * length (sgl_free p)) nodes r p' m' nw" by auto
          have "filled A iova p m (pre @ [cur]) ?space (dl # nodes) r p' m' ([] @ nw)"
            by (rule filled_mono [where nw = "[]" and rest = nodes and ?p2.0 = p and ?m2.0 = m1 and
                ?sp2.0 = "?n - (?i + 1) + ?n * length (sgl_free p)"]) (use IH(2) use u sum1 data1 m1 in auto)
          then show ?thesis using IH(1) step False by (auto simp: fill_next_def)
        next
          case full: True
          show ?thesis
          proof (cases "sp_top p = 0")
            case True
            have space: "?space = 1" "length nodes > 0" using full i True by (auto simp: sgl_free_def)
            have "filled A iova p m (pre @ [cur]) ?space (dl # nodes) (Inl WD_EBUSY) p m1 []"
              by (intro filledI [OF st1 refl]) (use u sum1 m1 space in auto)
            moreover have "fill_lists iova ?head (dl # nodes) p m cur ?i = Some (Inl WD_EBUSY, p, m1)"
              using step full pop_empty [OF True] by (simp add: fill_next_def)
            ultimately show ?thesis by blast
          next
            case False
            from full have full': "?i + 1 = ?n" "nodes \<noteq> []" by auto
            from fill_next_link [OF st1 m1(1) full' False, of iova] step obtain a h p2 m2 where
              lk: "fill_lists iova ?head (dl # nodes) p m cur ?i = fill_lists iova ?head nodes p2 m2 a 0" "fill_st A p2 m2 (pre @ [cur]) a"
              "sm_sgls m2 a = Some h" "sg_entry_sum_in_sgl h = 0" "sgl_free p = sgl_free p2 @ [a]" "p2 = p\<lparr>sp_top := sp_top p2\<rparr>"
              "sm_blocks m2 = sm_blocks m1" "\<And>b. b \<notin> set (pre @ [cur]) \<Longrightarrow> sm_sgls m2 b = sm_sgls m1 b"
              "chain_sum (sm_sgls m2) ?head = u16 (chain_sum (sm_sgls m1) ?head + ?n)"
              "chain_data (sm_sgls m2) (pre @ [cur, a]) = chain_data (sm_sgls m1) (pre @ [cur])"
              by (metis (no_types, lifting))
            have hd: "hd ((pre @ [cur]) @ [a]) = ?head" by (cases pre) auto
            have n2: "sp_sge_num p2 = ?n" by (subst lk(6)) simp
            have "sg_entry_sum_in_sgl h < sp_sge_num p2" using lk(4) n2 D(2) by simp
            moreover have "chain_sum (sm_sgls m2) (hd ((pre @ [cur]) @ [a])) < 2 ^ 16" unfolding hd lk(9) by (simp add: u16_def)
            ultimately obtain r p' m' nw where IH: "fill_lists iova ?head nodes p2 m2 a 0 = Some (r, p', m')"
              "filled A iova p2 m2 ((pre @ [cur]) @ [a]) (?n * length (sgl_free p)) nodes r p' m' nw"
              using Cons.IH [OF lk(2,3)] unfolding hd n2 lk(4,5) by auto
            have "filled A iova p m (pre @ [cur]) ?space (dl # nodes) r p' m' ([a] @ nw)"
              by (rule filled_mono [OF IH(2)]) (use lk use full' sum1 data1 m1 in auto)
            then show ?thesis using IH(1) lk(1) by auto
          qed
        qed
      qed
    qed
  qed
qed

subsection \<open>Giving a chain back\<close>

definition first_of :: "nat list \<Rightarrow> nat" where
  "first_of cs = (case cs of [] \<Rightarrow> 0 | a # _ \<Rightarrow> a)"

lemma chained_Cons: "chained M (a # cs) \<longleftrightarrow> (\<exists>g. M a = Some g \<and> sg_next g = first_of cs) \<and> chained M cs"
  by (cases cs) (auto simp: first_of_def)

lemma put_lists_spec:
  assumes "sgl_inv A (p, m)" and "chained (sm_sgls m) cs" and "distinct cs" and "set cs \<subseteq> A"
    and "length (sgl_free p) + length cs \<le> sp_depth p"
  shows "\<exists>p' m'. put_lists p (first_of cs) m = Some (p', m') \<and> sgl_inv A (p', m') \<and> sgl_free p' = sgl_free p @ cs \<and>
    sp_depth p' = sp_depth p \<and> sp_sge_num p' = sp_sge_num p"
  using assms
proof (induction cs arbitrary: p m)
  case Nil
  then show ?case by (simp add: first_of_def put_lists.simps)
next
  case (Cons a cs)
  have len: "length (sgl_free p) = sp_top p" using Cons.prems(1) by (auto simp: sgl_inv_def sgl_free_def)
  have a: "a \<in> A" "a \<noteq> 0" using Cons.prems(1,4) by (auto simp: sgl_inv_def intro: ccontr)
  have top: "sp_top p < sp_depth p" using Cons.prems(5) len by simp
  from Cons.prems(2) obtain g where g: "sm_sgls m a = Some g" "sg_next g = first_of cs" "chained (sm_sgls m) cs"
    by (auto simp: chained_Cons)
  from push_free [OF Cons.prems(1) a(1) top] g(1) obtain q m1 where
    q: "hisi_qm_sgl_push p a m = Some (Inr (), q, m1)" "m1 = m\<lparr>sm_sgls := (sm_sgls m)(a \<mapsto> reset_sgl (sp_sge_num p) g)\<rparr>"
    "sgl_free q = sgl_free p @ [a]" "sgl_inv A (q, m1)" "sp_depth q = sp_depth p" "sp_sge_num q = sp_sge_num p" by auto
  have "chained (sm_sgls m1) cs" using g(3) Cons.prems(3) by (simp add: q(2) chained_other)
  moreover have "length (sgl_free q) + length cs \<le> sp_depth q" using Cons.prems(5) q(3,5) by simp
  ultimately obtain p' m' where "put_lists q (first_of cs) m1 = Some (p', m')" "sgl_inv A (p', m')"
    "sgl_free p' = sgl_free q @ cs" "sp_depth p' = sp_depth q" "sp_sge_num p' = sp_sge_num q"
    using Cons.IH [OF q(4)] Cons.prems(3,4) by auto
  moreover have "put_lists p a m = put_lists q (first_of cs) m1" using a(2) g(1,2) q(1) by (simp add: put_lists.simps [of p a])
  ultimately show ?case using q(3,5,6) by (intro exI [of _ p'] exI [of _ m']) (simp add: first_of_def [of "a # cs"])
qed

subsection \<open>The contract of the list pool\<close>

definition sgl_pool_ok :: "nat set \<Rightarrow> hisi_sgl_pool \<Rightarrow> sgl_mem \<Rightarrow> bool" where
  "sgl_pool_ok A p m \<longleftrightarrow> sgl_inv A (p, m) \<and> distinct (sgl_free p) \<and> 0 < sp_sge_num p \<and> sp_sge_num p \<le> 255 \<and>
     sp_sge_num p * sp_depth p < 2 ^ 16 \<and> (\<forall>ops. sp_mm_ops p = Some ops \<longrightarrow> mo_iova_map ops)"

text \<open>\<open>cs\<close> is a chain that was taken from the pool.\<close>

definition out_chain :: "nat set \<Rightarrow> hisi_sgl_pool \<Rightarrow> sgl_mem \<Rightarrow> nat list \<Rightarrow> bool" where
  "out_chain A p m cs \<longleftrightarrow> cs \<noteq> [] \<and> chained (sm_sgls m) cs \<and> distinct (sgl_free p @ cs) \<and> set cs \<subseteq> A \<and>
     length (sgl_free p @ cs) \<le> sp_depth p"

lemma put_chain:
  assumes "sgl_inv A (p, m)" and "out_chain A p m cs"
  shows "\<exists>p' m'. hisi_qm_put_hw_sgl (Some p) (hd cs) m = Some (Some p', m') \<and> sgl_inv A (p', m') \<and> sgl_free p' = sgl_free p @ cs"
proof -
  have "first_of cs = hd cs" using assms(2) by (cases cs) (auto simp: out_chain_def first_of_def)
  then show ?thesis using put_lists_spec [OF assms(1), of cs] assms(2) by (auto simp: out_chain_def hisi_qm_put_hw_sgl_def)
qed

lemma filled_chain:
  assumes f: "filled A iova q m [a] sp nodes r p' m' nw" and p: "sgl_free p = sgl_free q @ [a]" and ok: "sgl_pool_ok A p m"
    and q: "q = p\<lparr>sp_top := t\<rparr>" and sum: "chain_sum (sm_sgls m) a = sp_sge_num p"
  shows "sgl_inv A (p', m')" "out_chain A p' m' (a # nw)" "mset (sgl_free p' @ a # nw) = mset (sgl_free p)"
    "chain_sum (sm_sgls m') a \<noteq> 0" "\<exists>h. sm_sgls m' a = Some h"
proof -
  from f obtain pre cur where st: "a # nw = pre @ [cur]" "fill_st A p' m' pre cur" and free: "sgl_free q = sgl_free p' @ rev nw"
    and p': "p' = q\<lparr>sp_top := sp_top p'\<rparr>" and s': "chain_sum (sm_sgls m') a = u16 (chain_sum (sm_sgls m) a + sp_sge_num q * length nw)"
    by (auto simp: filled_def)
  note D = fill_stD [OF st(2)]
  show inv: "sgl_inv A (p', m')" by (rule D(1))
  have dep: "sp_depth p' = sp_depth p" by (subst p', subst q) simp
  have len: "length (sgl_free p) \<le> sp_depth p" using ok by (auto simp: sgl_pool_ok_def sgl_inv_def sgl_free_def)
  have le: "length (sgl_free p' @ a # nw) \<le> sp_depth p" using len p free by simp
  have "a # nw \<noteq> []" by simp
  then show "out_chain A p' m' (a # nw)" unfolding out_chain_def using D(4-6) le dep st(1) by simp
  show "mset (sgl_free p' @ a # nw) = mset (sgl_free p)" using p free by simp
  have n: "sp_sge_num q = sp_sge_num p" by (simp add: q)
  have "sp_sge_num p + sp_sge_num p * length nw \<le> sp_sge_num p * sp_depth p"
    using le by (metis add_leD2 length_Cons length_append mult_Suc_right mult_le_mono2)
  then have "chain_sum (sm_sgls m') a = sp_sge_num p + sp_sge_num p * length nw"
    using ok s' n sum by (simp add: sgl_pool_ok_def u16_small)
  then show "chain_sum (sm_sgls m') a \<noteq> 0" using ok by (simp add: sgl_pool_ok_def)
  then show "\<exists>h. sm_sgls m' a = Some h" by (auto simp: chain_sum_def split: option.splits)
qed

lemma get_hw_sgl_spec:
  assumes ok: "sgl_pool_ok A p m" and nodes: "nodes \<noteq> []"
  shows "\<exists>r p' m'. hisi_qm_get_hw_sgl iova (Some p) (Some nodes) m = Some (r, Some p', m') \<and> sgl_inv A (p', m') \<and>
    (case r of
       Inr a \<Rightarrow> \<exists>cs. hd cs = a \<and> out_chain A p' m' cs \<and> mset (sgl_free p' @ cs) = mset (sgl_free p) \<and>
         chain_data (sm_sgls m') cs = filter usable nodes
     | Inl e \<Rightarrow> mset (sgl_free p') = mset (sgl_free p) \<and>
         (e = WD_EINVAL \<and> (\<exists>dl \<in> set nodes. bad_node iova p dl) \<or> e = WD_EBUSY \<and> length nodes > sp_sge_num p * length (sgl_free p)))"
proof (cases "sp_top p = 0")
  case True
  then have "hisi_qm_get_hw_sgl iova (Some p) (Some nodes) m = Some (Inl WD_EBUSY, Some p, m)"
    using pop_empty [OF True] ok by (auto simp: hisi_qm_get_hw_sgl_def sgl_pool_ok_def split: option.splits)
  moreover have "length nodes > sp_sge_num p * length (sgl_free p)" using nodes True by (simp add: sgl_free_def)
  ultimately show ?thesis using ok by (auto simp: sgl_pool_ok_def)
next
  case False
  let ?q = "p\<lparr>sp_top := sp_top p - 1\<rparr>"
  have inv: "sgl_inv A (p, m)" using ok by (simp add: sgl_pool_ok_def)
  from pop_free [OF inv False] obtain a where a: "hisi_qm_sgl_pop p = Some (a, ?q)" "a \<noteq> 0" "a \<in> A"
    "sgl_free p = sgl_free ?q @ [a]" "sgl_inv A (?q, m)" by blast
  have "a \<in> set (sgl_free p)" using a(4) by simp
  then obtain g where g: "sm_sgls m a = Some g" "clean_sgl (sp_sge_num p) g" "length (sg_sge_entries g) = sp_sge_num p"
    using inv a(3) by (fastforce simp: sgl_inv_def)
  have g0: "sgl_ok (sp_sge_num p) g" "sgl_data g = []" "sg_entry_sum_in_sgl g = 0" "sg_next g = 0" "sg_entry_sum_in_chain g = sp_sge_num p"
    using clean_sgl_ok [OF g(2,3)] g(2) ok by (auto simp: clean_sgl_def sgl_pool_ok_def u16_small)
  have st: "fill_st A ?q m [] a" using ok a g g0 by (auto simp: fill_st_def sgl_pool_ok_def)
  have sum: "chain_sum (sm_sgls m) a = sp_sge_num p" using g(1) g0(5) by (simp add: chain_sum_def)
  have "sg_entry_sum_in_sgl g < sp_sge_num ?q" using g0(3) ok by (simp add: sgl_pool_ok_def)
  moreover have "chain_sum (sm_sgls m) (hd ([] @ [a])) < 2 ^ 16" using sum ok by (simp add: sgl_pool_ok_def)
  ultimately obtain r p' m' nw where fl: "fill_lists iova a nodes ?q m a 0 = Some (r, p', m')"
    "filled A iova ?q m [a] (sp_sge_num p * length (sgl_free p)) nodes r p' m' nw"
    using fill_lists_spec [OF st g(1), of nodes iova] g0(3) a(4) by auto
  note C = filled_chain [OF fl(2) a(4) ok refl sum]
  obtain h where h: "sm_sgls m' a = Some h" "sg_entry_sum_in_chain h \<noteq> 0" using C(4,5) by (auto simp: chain_sum_def)
  have mm: "\<not> (case sp_mm_ops p of None \<Rightarrow> False | Some ops \<Rightarrow> \<not> mo_iova_map ops)"
    using ok by (auto simp: sgl_pool_ok_def split: option.splits)
  show ?thesis
  proof (cases r)
    case (Inr x)
    have "hisi_qm_get_hw_sgl iova (Some p) (Some nodes) m = Some (Inr a, Some p', m')"
      using mm a(1,2) fl(1) h Inr by (simp add: hisi_qm_get_hw_sgl_def)
    moreover have "chain_data (sm_sgls m') (a # nw) = filter usable nodes" using fl(2) Inr g(1) g0(2) by (simp add: filled_def)
    ultimately show ?thesis using C(1-3) by (intro exI [of _ "Inr a"] exI [of _ p'] exI [of _ m']) (auto intro!: exI [of _ "a # nw"])
  next
    case (Inl e)
    from put_chain [OF C(1,2)] obtain p2 m2 where
      put: "hisi_qm_put_hw_sgl (Some p') a m' = Some (Some p2, m2)" "sgl_inv A (p2, m2)" "sgl_free p2 = sgl_free p' @ a # nw" by auto
    have "hisi_qm_get_hw_sgl iova (Some p) (Some nodes) m = Some (Inl e, Some p2, m2)"
      using mm a(1,2) fl(1) h(1) Inl put(1) by (simp add: hisi_qm_get_hw_sgl_def)
    then show ?thesis using fl(2) Inl put(2,3) C(3)
      by (intro exI [of _ "Inl e"] exI [of _ p2] exI [of _ m2]) (simp add: filled_def)
  qed
qed

subsection \<open>What a copy reads\<close>

definition entry_bytes :: "buffers \<Rightarrow> hisi_sge \<Rightarrow> nat list" where
  "entry_bytes bufs e = take (se_len e) (case bufs (se_vbuff e) of None \<Rightarrow> [] | Some b \<Rightarrow> b)"

definition entry_ok :: "buffers \<Rightarrow> hisi_sge \<Rightarrow> bool" where
  "entry_ok bufs e \<longleftrightarrow> 0 < se_len e \<and> (\<exists>b. bufs (se_vbuff e) = Some b \<and> se_len e \<le> length b)"

definition data_bytes :: "buffers \<Rightarrow> hisi_sge list \<Rightarrow> nat list" where
  "data_bytes bufs es = concat (map (entry_bytes bufs) es)"

lemma data_bytes_simps [simp]:
  "data_bytes bufs [] = []"
  "data_bytes bufs (e # es) = entry_bytes bufs e @ data_bytes bufs es"
  "data_bytes bufs (xs @ ys) = data_bytes bufs xs @ data_bytes bufs ys"
  by (simp_all add: data_bytes_def)

lemma length_entry_bytes: "entry_ok bufs e \<Longrightarrow> length (entry_bytes bufs e) = se_len e"
  by (auto simp: entry_ok_def entry_bytes_def)

lemma length_data_bytes: "\<forall>e \<in> set es. entry_ok bufs e \<Longrightarrow> length (data_bytes bufs es) = sum_list (map se_len es)"
  by (induction es) (simp_all add: length_entry_bytes)

lemma read_entry:
  assumes "entry_ok bufs e" and "off + n \<le> se_len e"
  shows "buf_read bufs (se_vbuff e) off n = Some (take n (drop off (entry_bytes bufs e)))"
  using assms by (auto simp: entry_ok_def buf_read_def entry_bytes_def drop_take min_def)

lemma copy_entries_out_spec:
  assumes "\<forall>e \<in> set es. entry_ok bufs e" and "length out < sz" and "length out + sum_list (map se_len es) < 2 ^ 32"
  shows "copy_entries_out bufs es sz out = Some (out @ take (sz - length out) (data_bytes bufs es))"
  using assms
proof (induction es arbitrary: out)
  case (Cons e es)
  have u: "u32 (length out + se_len e) = length out + se_len e" using Cons.prems(3) by (intro u32_small) simp
  have e: "entry_ok bufs e" "length (entry_bytes bufs e) = se_len e" using Cons.prems(1) length_entry_bytes by auto
  show ?case
  proof (cases "length out + se_len e \<ge> sz")
    case True
    then show ?thesis using u e read_entry [OF e(1), of 0 "sz - length out"] by simp
  next
    case False
    then have "copy_entries_out bufs (e # es) sz out = copy_entries_out bufs es sz (out @ entry_bytes bufs e)"
      using u e read_entry [OF e(1), of 0 "se_len e"] by simp
    also have "\<dots> = Some ((out @ entry_bytes bufs e) @ take (sz - length (out @ entry_bytes bufs e)) (data_bytes bufs es))"
      using Cons.prems False e(2) by (intro Cons.IH) auto
    finally show ?thesis using False e(2) by simp
  qed
qed simp

definition chain_sges :: "sgl_map \<Rightarrow> nat list \<Rightarrow> hisi_sge list" where
  "chain_sges M cs = concat (map (\<lambda>a. case M a of None \<Rightarrow> [] | Some g \<Rightarrow> sgl_entries g) cs)"

lemma chain_entries_spec:
  assumes "chained (sm_sgls m) cs" and "0 \<notin> set cs" and "length cs \<le> n"
  shows "chain_entries n m (first_of cs) = Some (chain_sges (sm_sgls m) cs)"
  using assms
proof (induction cs arbitrary: n)
  case Nil
  then show ?case by (simp add: first_of_def chain_entries.simps chain_sges_def)
next
  case (Cons a cs)
  then obtain k where n: "n = Suc k" by (cases n) auto
  from Cons.prems(1) obtain g where g: "sm_sgls m a = Some g" "sg_next g = first_of cs" "chained (sm_sgls m) cs"
    by (auto simp: chained_Cons)
  have "chain_entries k m (first_of cs) = Some (chain_sges (sm_sgls m) cs)" using Cons n g(3) by auto
  then show ?case using g(1,2) Cons.prems(2) n
    by (simp add: first_of_def [of "a # cs"] chain_entries.simps [of "Suc k"] chain_sges_def)
qed

text \<open>Every list of the chain records the size of its entries.\<close>

definition sizes_ok :: "sgl_map \<Rightarrow> nat list \<Rightarrow> bool" where
  "sizes_ok M cs \<longleftrightarrow> (\<forall>a \<in> set cs. \<exists>g. M a = Some g \<and> sg_entry_size_in_sgl g = sum_list (map se_len (sgl_entries g)) \<and>
     sg_entry_sum_in_sgl g \<le> length (sg_sge_entries g))"

lemma find_list_spec:
  assumes "chained (sm_sgls m) cs" and "cs \<noteq> []" and "0 \<notin> set cs" and "length cs \<le> n" and "sizes_ok (sm_sgls m) cs"
    and "len \<le> off" and "len + sum_list (map se_len (chain_sges (sm_sgls m) cs)) < 2 ^ 32"
  shows "if len + sum_list (map se_len (chain_sges (sm_sgls m) cs)) \<le> off then find_list n m (hd cs) len off = Some None
    else \<exists>pre a post g. cs = pre @ a # post \<and> sm_sgls m a = Some g \<and>
      find_list n m (hd cs) len off = Some (Some (len + sum_list (map se_len (chain_sges (sm_sgls m) pre)), g)) \<and>
      len + sum_list (map se_len (chain_sges (sm_sgls m) pre)) \<le> off \<and>
      off < len + sum_list (map se_len (chain_sges (sm_sgls m) pre)) + sum_list (map se_len (sgl_entries g))"
  using assms
proof (induction cs arbitrary: n len)
  case (Cons a cs)
  let ?size = "\<lambda>cs. sum_list (map se_len (chain_sges (sm_sgls m) cs))"
  from Cons.prems(1) obtain g where g: "sm_sgls m a = Some g" "sg_next g = first_of cs" "chained (sm_sgls m) cs"
    by (auto simp: chained_Cons)
  have sg: "sg_entry_size_in_sgl g = sum_list (map se_len (sgl_entries g))" using Cons.prems(5) g(1) by (auto simp: sizes_ok_def)
  have split: "?size (a # cs) = sum_list (map se_len (sgl_entries g)) + ?size cs" using g(1) by (simp add: chain_sges_def)
  have u: "u64 (len + sg_entry_size_in_sgl g) = len + sum_list (map se_len (sgl_entries g))"
    unfolding sg using Cons.prems(7) split by (intro u64_small) simp
  show ?case
  proof (cases "len + sum_list (map se_len (sgl_entries g)) \<le> off")
    case False
    then have "find_list n m a len off = Some (Some (len, g))" using g(1) u by (simp add: find_list.simps [of n])
    then show ?thesis using False split g(1) Cons.prems(6)
      by (auto intro!: exI [of _ "[]"] simp: chain_sges_def)
  next
    case True
    show ?thesis
    proof (cases "cs = []")
      case empty: True
      then have "find_list n m a len off = Some None" using g(1,2) u True by (simp add: find_list.simps [of n] first_of_def)
      then show ?thesis using True split empty by (simp add: chain_sges_def)
    next
      case False
      obtain k where n: "n = Suc k" using Cons.prems(4) by (cases n) auto
      have fo: "first_of cs = hd cs" "hd cs \<noteq> 0" using False Cons.prems(3) by (cases cs; auto simp: first_of_def)+
      let ?l = "len + sum_list (map se_len (sgl_entries g))"
      have step: "find_list n m a len off = find_list k m (hd cs) ?l off"
        using g(1,2) u True fo n by (simp add: find_list.simps [of "Suc k" m a])
      have pre: "?size (a # pre) = sum_list (map se_len (sgl_entries g)) + ?size pre" for pre using g(1) by (simp add: chain_sges_def)
      have "sizes_ok (sm_sgls m) cs" "0 \<notin> set cs" "length cs \<le> k" "?l + ?size cs < 2 ^ 32"
        using Cons.prems(3-5,7) split n by (auto simp: sizes_ok_def)
      note IH = Cons.IH [OF g(3) False this(2,3,1) True this(4)]
      show ?thesis
      proof (cases "?l + ?size cs \<le> off")
        case True
        then show ?thesis using IH step split by simp
      next
        case le: False
        with IH obtain ps b post h where b: "cs = ps @ b # post" "sm_sgls m b = Some h"
          "find_list k m (hd cs) ?l off = Some (Some (?l + ?size ps, h))" "?l + ?size ps \<le> off"
          "off < ?l + ?size ps + sum_list (map se_len (sgl_entries h))" by auto
        have "\<not> len + ?size (a # cs) \<le> off" using le split by simp
        then have "\<not> len + ?size (a # cs) \<le> off \<and> a # cs = (a # ps) @ b # post \<and> sm_sgls m b = Some h \<and>
          find_list n m (hd (a # cs)) len off = Some (Some (len + ?size (a # ps), h)) \<and> len + ?size (a # ps) \<le> off \<and>
          off < len + ?size (a # ps) + sum_list (map se_len (sgl_entries h))"
          using b step pre [of ps] by (simp add: add.assoc)
        then show ?thesis by (subst if_not_P; blast)
      qed
    qed
  qed
qed simp

lemma find_entry_spec:
  assumes "len \<le> off" and "off < len + sum_list (map se_len es)" and "\<forall>e \<in> set es. 0 < se_len e"
  shows "\<exists>j < length es. find_entry i es len off = (i + j, off - len - sum_list (map se_len (take j es))) \<and>
    len + sum_list (map se_len (take j es)) \<le> off \<and> off < len + sum_list (map se_len (take j es)) + se_len (es ! j)"
  using assms
proof (induction es arbitrary: i len)
  case (Cons e es)
  consider (here) "len + se_len e > off" | (there) "len + se_len e = off" | (on) "len + se_len e < off" by linarith
  then show ?case
  proof cases
    case here
    then show ?thesis using Cons.prems(1) by (intro exI [of _ 0]) simp
  next
    case there
    then have "es \<noteq> []" using Cons.prems(2) by auto
    then show ?thesis using there Cons.prems(3) by (intro exI [of _ 1]) (cases es; auto)
  next
    case on
    then obtain j where "j < length es" "find_entry (i + 1) es (len + se_len e) off = (i + 1 + j, off - (len + se_len e) - sum_list (map se_len (take j es)))"
      "len + se_len e + sum_list (map se_len (take j es)) \<le> off"
      "off < len + se_len e + sum_list (map se_len (take j es)) + se_len (es ! j)"
      using Cons.IH [of "len + se_len e" "i + 1"] Cons.prems by auto
    then show ?thesis using on by (intro exI [of _ "Suc j"]) (simp add: add.assoc)
  qed
qed simp

lemma copy_inner_spec:
  assumes ok: "\<forall>e \<in> set (sgl_entries g @ rest). entry_ok bufs e" and j: "j < length (sgl_entries g)" and off: "off < se_len (sgl_entries g ! j)"
    and len: "sum_list (map se_len (sgl_entries g @ rest)) < 2 ^ 32" and rest: "chain_entries n m (sg_next g) = Some rest" and sz: "0 < sz"
  shows "hisi_qm_sgl_copy_inner n m bufs g j off sz = Some (take sz (drop off (data_bytes bufs (drop j (sgl_entries g) @ rest))))"
proof -
  let ?es = "sgl_entries g" let ?e = "?es ! j" let ?tail = "drop (Suc j) ?es @ rest"
  have rd: "rd (sg_sge_entries g) j = Some ?e" using j by (simp add: sgl_entries_def)
  have e: "entry_ok bufs ?e" "length (entry_bytes bufs ?e) = se_len ?e" using ok j length_entry_bytes by auto
  have drop: "drop j ?es @ rest = ?e # ?tail" using j by (simp add: Cons_nth_drop_Suc [symmetric])
  have "?es @ rest = take j ?es @ ?e # ?tail" by (metis append.assoc append_take_drop_id drop)
  then have "sum_list (map se_len (?es @ rest)) = sum_list (map se_len (take j ?es)) + (se_len ?e + sum_list (map se_len ?tail))"
    by (simp only: map_append list.map sum_list_append sum_list.Cons)
  then have le: "se_len ?e + sum_list (map se_len ?tail) < 2 ^ 32" using len by linarith
  then have sub: "sub32 (se_len ?e) off = se_len ?e - off" using off by (intro sub32_small) simp_all
  have "\<forall>x \<in> set ?tail. entry_ok bufs x" using ok by (auto dest: in_set_dropD)
  note tail = this
  show ?thesis
  proof (cases "se_len ?e - off \<ge> sz")
    case True
    then have "off + sz \<le> se_len ?e" using sz by simp
    from read_entry [OF e(1) this] show ?thesis
      using True rd sub e(2) off unfolding drop by (simp add: hisi_qm_sgl_copy_inner_def)
  next
    case False
    have "off + (se_len ?e - off) \<le> se_len ?e" using off by simp
    note rd1 = read_entry [OF e(1) this]
    let ?out = "drop off (entry_bytes bufs ?e)"
    have "hisi_qm_sgl_copy_inner n m bufs g j off sz = copy_entries_out bufs ?tail sz ?out"
      using rd rd1 rest sub e(2) False by (simp add: hisi_qm_sgl_copy_inner_def)
    also have "\<dots> = Some (?out @ take (sz - length ?out) (data_bytes bufs ?tail))"
      by (rule copy_entries_out_spec [OF tail]) (use False e(2) le off in simp_all)
    also have "?out @ take (sz - length ?out) (data_bytes bufs ?tail) = take sz (drop off (data_bytes bufs (drop j ?es @ rest)))"
      using False e(2) off unfolding drop data_bytes_simps(2) by simp
    finally show ?thesis .
  qed
qed

lemma chained_suffix: "chained M (pre @ cs) \<Longrightarrow> chained M cs"
  by (induction pre) (simp_all add: chained_Cons)

definition chain_ok :: "sgl_map \<Rightarrow> buffers \<Rightarrow> nat list \<Rightarrow> bool" where
  "chain_ok M bufs cs \<longleftrightarrow> cs \<noteq> [] \<and> 0 \<notin> set cs \<and> chained M cs \<and> sizes_ok M cs \<and> list_all (entry_ok bufs) (chain_sges M cs) \<and>
     sum_list (map se_len (chain_sges M cs)) < 2 ^ 32"

text \<open>
  C28: Copying out of a chain. For a well-formed chain the copy has an outcome, and the flat buffer starts with the bytes
  \<open>offset, ..., offset + size - 1\<close> of the concatenation of the chain's buffers, or as many of them as there are; the rest of
  the flat buffer and the chain's buffers are unchanged.
\<close>

theorem sgl_copy_to_pbuff:
  assumes "chain_ok (sm_sgls m) bufs cs" and "length cs \<le> n" and "0 < sz" and "sz \<le> length pbuff"
  shows "hisi_qm_sgl_copy n m pbuff bufs (hd cs) offset sz COPY_SGL_TO_PBUFF =
    (let bs = take sz (drop offset (data_bytes bufs (chain_sges (sm_sgls m) cs))) in Some (bs @ drop (length bs) pbuff, bufs))"
proof -
  let ?M = "sm_sgls m" let ?size = "\<lambda>es. sum_list (map se_len es)"
  have C: "cs \<noteq> []" "0 \<notin> set cs" "chained ?M cs" "sizes_ok ?M cs" "\<forall>e \<in> set (chain_sges ?M cs). entry_ok bufs e" "?size (chain_sges ?M cs) < 2 ^ 32"
    using assms(1) by (auto simp: chain_ok_def list_all_iff)
  have ne: "pbuff \<noteq> []" "hd cs \<noteq> 0" using assms(3,4) C(1,2) by (cases cs; force)+
  note fl = find_list_spec [OF C(3,1,2) assms(2) C(4), of 0 offset, simplified]
  show ?thesis
  proof (cases "?size (chain_sges ?M cs) \<le> offset")
    case True
    then have "data_bytes bufs (chain_sges ?M cs) = take offset (data_bytes bufs (chain_sges ?M cs))"
      using length_data_bytes [OF C(5)] by simp
    then have "drop offset (data_bytes bufs (chain_sges ?M cs)) = []" using True length_data_bytes [OF C(5)] by simp
    then show ?thesis using fl C(6) True ne assms(3) by (simp add: hisi_qm_sgl_copy_def)
  next
    case False
    with fl C(6) obtain pre a post g where g: "cs = pre @ a # post" "?M a = Some g"
      "find_list n m (hd cs) 0 offset = Some (Some (?size (chain_sges ?M pre), g))" "?size (chain_sges ?M pre) \<le> offset"
      "offset < ?size (chain_sges ?M pre) + ?size (sgl_entries g)" by auto
    let ?len = "?size (chain_sges ?M pre)" and ?es = "sgl_entries g" and ?rest = "chain_sges ?M post"
    have all: "chain_sges ?M cs = chain_sges ?M pre @ ?es @ ?rest" using g(1,2) by (simp add: chain_sges_def)
    have ok: "\<forall>e \<in> set (?es @ ?rest). entry_ok bufs e" using C(5) all by auto
    then have pos: "\<forall>e \<in> set ?es. 0 < se_len e" by (auto simp: entry_ok_def)
    from find_entry_spec [OF g(4,5) pos, of 0] obtain j where j: "j < length ?es"
      "find_entry 0 ?es ?len offset = (j, offset - ?len - ?size (take j ?es))" "?len + ?size (take j ?es) \<le> offset"
      "offset < ?len + ?size (take j ?es) + se_len (?es ! j)" by auto
    let ?o = "offset - ?len - ?size (take j ?es)"
    have "chained ?M (a # post)" using C(3) g(1) chained_suffix by blast
    then have nx: "sg_next g = first_of post" "chained ?M post" using g(2) by (auto simp: chained_Cons)
    have "chain_entries n m (sg_next g) = Some ?rest"
      unfolding nx(1) by (rule chain_entries_spec [OF nx(2)]) (use C(2) g(1) assms(2) in auto)
    moreover have "?o < se_len (?es ! j)" "?size (?es @ ?rest) < 2 ^ 32" using j(3,4) C(6) all by auto
    ultimately have cp: "hisi_qm_sgl_copy_inner n m bufs g j ?o sz = Some (take sz (drop ?o (data_bytes bufs (drop j ?es @ ?rest))))"
      using copy_inner_spec [OF ok j(1)] assms(3) by blast
    have lens: "length (data_bytes bufs (chain_sges ?M pre @ take j ?es)) = ?len + ?size (take j ?es)"
      using length_data_bytes [of "chain_sges ?M pre @ take j ?es" bufs] C(5) all by (auto dest: in_set_takeD)
    have "chain_sges ?M cs = (chain_sges ?M pre @ take j ?es) @ drop j ?es @ ?rest" using all by simp
    then have "drop offset (data_bytes bufs (chain_sges ?M cs)) = drop ?o (data_bytes bufs (drop j ?es @ ?rest))"
      using lens j(3) by (simp only: data_bytes_simps(3) drop_append) simp
    with cp have cp': "hisi_qm_sgl_copy_inner n m bufs g j ?o sz = Some (take sz (drop offset (data_bytes bufs (chain_sges ?M cs))))" by simp
    obtain bs where bs: "take sz (drop offset (data_bytes bufs (chain_sges ?M cs))) = bs" by blast
    then have "length bs \<le> length pbuff" using assms(4) by (auto simp: min_def)
    then show ?thesis using g(3) j(2) cp' ne assms(3) unfolding bs by (simp add: hisi_qm_sgl_copy_def)
  qed
qed

definition demo_chain :: sgl_mem where
  "demo_chain = \<lparr>sm_sgls = [
     1024 \<mapsto> (zero_sgl 1)\<lparr>sg_entry_sum_in_sgl := 1, sg_entry_size_in_sgl := 3, sg_next := 2048, sg_sge_entries := [\<lparr>se_buff = 7, se_len = 3, se_vbuff = 7\<rparr>]\<rparr>,
     2048 \<mapsto> (zero_sgl 1)\<lparr>sg_entry_sum_in_sgl := 1, sg_entry_size_in_sgl := 2, sg_sge_entries := [\<lparr>se_buff = 9, se_len = 2, se_vbuff = 9\<rparr>]\<rparr>],
     sm_blocks = [], sm_heap = 0, sm_locks = 0\<rparr>"

lemma demo_chain_ok: "chain_ok (sm_sgls demo_chain) [7 \<mapsto> [1, 2, 3], 9 \<mapsto> [4, 5]] [1024, 2048]"
  by (simp add: chain_ok_def demo_chain_def sizes_ok_def chain_sges_def sgl_entries_def entry_ok_def zero_sgl_def)

theorem sgl_copy_to_pbuff_witness:
  "hisi_qm_sgl_copy 2 demo_chain [0, 0, 0, 0] [7 \<mapsto> [1, 2, 3], 9 \<mapsto> [4, 5]] 1024 1 3 COPY_SGL_TO_PBUFF =
     Some ([2, 3, 4, 0], [7 \<mapsto> [1, 2, 3], 9 \<mapsto> [4, 5]])"
  using sgl_copy_to_pbuff [OF demo_chain_ok, of 2 3 "[0, 0, 0, 0]" 1]
  by (simp add: demo_chain_def chain_sges_def sgl_entries_def entry_bytes_def)

lemma copy_entries_in_other:
  "copy_entries_in es pbuff sz off bufs = Some bufs' \<Longrightarrow> a \<notin> se_vbuff ` set es \<Longrightarrow> bufs' a = bufs a"
  by (induction es arbitrary: off bufs) (auto simp: buf_write_def split: if_splits option.splits)

text \<open>
  The copy into a chain loses data. When the data does not fit into the first entry, the buffer of that entry is not
  written at all; the first bytes of the flat buffer are written to the start of the second entry instead.
\<close>

theorem pbuff_copy_skips_first_entry:
  assumes "rd (sg_sge_entries g) j = Some e" and "sub32 (se_len e) off < sz" and "chain_entries n m (sg_next g) = Some rest"
    and "drop (j + 1) (sgl_entries g) @ rest = e2 # es" and "distinct (map se_vbuff (e # e2 # es))" and "u32 (se_len e2) = se_len e2"
    and "hisi_qm_pbuff_copy_inner n m pbuff bufs g j off sz = Some bufs'" and "sz \<le> length pbuff"
  shows "bufs' (se_vbuff e) = bufs (se_vbuff e) \<and>
    (\<exists>b. bufs' (se_vbuff e2) = Some b \<and> take (min sz (se_len e2)) b = take (min sz (se_len e2)) pbuff)"
proof -
  from assms(1-4,7) have cp: "copy_entries_in (e2 # es) pbuff sz 0 bufs = Some bufs'"
    by (simp add: hisi_qm_pbuff_copy_inner_def)
  then have "bufs' (se_vbuff e) = bufs (se_vbuff e)" by (rule copy_entries_in_other) (use assms(5) in auto)
  moreover have "\<exists>b. bufs' (se_vbuff e2) = Some b \<and> take (min sz (se_len e2)) b = take (min sz (se_len e2)) pbuff"
  proof (cases "se_len e2 \<ge> sz")
    case True
    then show ?thesis using cp assms(6,8) by (auto simp: buf_write_def split: if_splits option.splits)
  next
    case False
    with cp assms(6) obtain bufs1 where b1: "buf_write bufs (se_vbuff e2) 0 (take (se_len e2) pbuff) = Some bufs1"
      "copy_entries_in es pbuff sz (se_len e2) bufs1 = Some bufs'" by (auto split: option.splits)
    have "bufs' (se_vbuff e2) = bufs1 (se_vbuff e2)" by (rule copy_entries_in_other [OF b1(2)]) (use assms(5) in auto)
    then show ?thesis using b1(1) False assms(8) by (auto simp: buf_write_def split: if_splits option.splits)
  qed
  ultimately show ?thesis ..
qed

theorem pbuff_copy_skips_first_entry_witness:
  "\<exists>bufs'. hisi_qm_sgl_copy 2 demo_chain [11, 12, 13, 14] [7 \<mapsto> [1, 2, 3], 9 \<mapsto> [4, 5]] 1024 0 4 COPY_PBUFF_TO_SGL =
     Some ([11, 12, 13, 14], bufs') \<and> bufs' 7 = Some [1, 2, 3] \<and> bufs' 9 = Some [11, 12]"
proof -
  let ?g = "(zero_sgl 1)\<lparr>sg_entry_sum_in_sgl := 1, sg_entry_size_in_sgl := 3, sg_next := 2048, sg_sge_entries := [\<lparr>se_buff = 7, se_len = 3, se_vbuff = 7\<rparr>]\<rparr>"
  let ?bufs = "[7 \<mapsto> [1, 2, 3], 9 \<mapsto> [4, 5]] :: buffers" let ?e = "\<lparr>se_buff = 7, se_len = 3, se_vbuff = 7\<rparr>"
  have ce: "chain_entries 2 demo_chain (sg_next ?g) = Some [\<lparr>se_buff = 9, se_len = 2, se_vbuff = 9\<rparr>]"
    by (simp add: chain_entries.simps demo_chain_def sgl_entries_def zero_sgl_def numeral_2_eq_2)
  have run: "hisi_qm_pbuff_copy_inner 2 demo_chain [11, 12, 13, 14] ?bufs ?g 0 0 4 = Some (?bufs(9 \<mapsto> [11, 12]))"
    using ce by (simp add: hisi_qm_pbuff_copy_inner_def buf_write_def sgl_entries_def sub32_def u32_def)
  have "(?bufs(9 \<mapsto> [11, 12])) 7 = ?bufs 7"
    using pbuff_copy_skips_first_entry [of ?g 0 ?e, OF _ _ ce _ _ _ run] by (simp add: sub32_def u32_def sgl_entries_def)
  moreover have "find_list 2 demo_chain 1024 0 0 = Some (Some (0, ?g))" by (simp add: find_list.simps demo_chain_def u64_def)
  ultimately show ?thesis using run by (simp add: hisi_qm_sgl_copy_def sgl_entries_def)
qed

subsection \<open>Creating and destroying the pool\<close>

definition fresh_sgl :: "nat \<Rightarrow> hisi_sgl" where
  "fresh_sgl n = (zero_sgl n)\<lparr>sg_entry_sum_in_chain := u16 n, sg_entry_length_in_sgl := u16 n\<rparr>"

definition sgl_blocks :: "nat \<Rightarrow> nat list \<Rightarrow> nat set" where
  "sgl_blocks n as = {a. \<exists>b \<in> set as. b \<le> a \<and> a < b + sgl_block_size n}"

lemma align_bounds:
  assumes "a + 64 \<le> 2 ^ 64 - 1"
  shows "ADDR_ALIGN_64 a mod 64 = 0" "a < ADDR_ALIGN_64 a" "ADDR_ALIGN_64 a \<le> a + 64"
proof -
  have e: "a div 64 * 64 \<le> a" "a < a div 64 * 64 + 64" using div_mult_mod_eq [of a 64] by linarith+
  then have "(a div 2 ^ 6 + 1) * 2 ^ 6 \<le> a + 64" "a < (a div 2 ^ 6 + 1) * 2 ^ 6" by simp_all
  moreover from this(1) have "ADDR_ALIGN_64 a = (a div 2 ^ 6 + 1) * 2 ^ 6"
    using assms unfolding ADDR_ALIGN_64_def by (intro u64_small) simp
  ultimately show "ADDR_ALIGN_64 a mod 64 = 0" "a < ADDR_ALIGN_64 a" "ADDR_ALIGN_64 a \<le> a + 64" by simp_all
qed

lemma create_lists_spec:
  assumes "sp_mm_ops pool = None" and "length (sp_sgl pool) = i + k" and "length (sp_sgl_align pool) = i + k"
    and "as = takeWhile (\<lambda>a. a \<noteq> 0) (take k addrs)"
  shows "\<exists>pool' m'. create_lists iova junk n i k addrs pool m = (length as = k, pool', m') \<and>
    take (i + length as) (sp_sgl pool') = take i (sp_sgl pool) @ as \<and>
    take (i + length as) (sp_sgl_align pool') = take i (sp_sgl_align pool) @ map ADDR_ALIGN_64 as \<and>
    length (sp_sgl pool') = i + k \<and> length (sp_sgl_align pool') = i + k \<and> sp_mm_ops pool' = None \<and>
    (length as \<noteq> k \<longrightarrow> sp_sgl_num pool' = i + length as) \<and> sm_blocks m' = rev as @ sm_blocks m \<and> sm_heap m' = sm_heap m \<and> sm_locks m' = sm_locks m \<and>
    (\<forall>b. sm_sgls m' b = (if b \<in> ADDR_ALIGN_64 ` set as then Some (fresh_sgl n) else sm_sgls m b))"
  using assms
proof (induction k arbitrary: i addrs pool m as)
  case 0
  then show ?case by simp
next
  case (Suc k)
  show ?case
  proof (cases "addrs = [] \<or> hd addrs = 0")
    case True
    then show ?thesis using Suc.prems by (cases addrs) (auto simp: hisi_qm_create_sgl_def)
  next
    case False
    then obtain a ad where a: "addrs = a # ad" "a \<noteq> 0" by (cases addrs) auto
    let ?as = "takeWhile (\<lambda>a. a \<noteq> 0) (take k ad)"
    let ?p = "pool\<lparr>sp_sgl := (sp_sgl pool)[i := a], sp_sgl_align := (sp_sgl_align pool)[i := ADDR_ALIGN_64 a]\<rparr>"
    let ?m = "m\<lparr>sm_blocks := a # sm_blocks m, sm_sgls := (sm_sgls m)(ADDR_ALIGN_64 a \<mapsto> fresh_sgl n)\<rparr>"
    have as: "as = a # ?as" using Suc.prems(4) a by simp
    have step: "create_lists iova junk n i (Suc k) addrs pool m = create_lists iova junk n (Suc i) k ad ?p ?m"
      using a Suc.prems(1) by (simp add: hisi_qm_create_sgl_def hisi_qm_align_sgl_def fresh_sgl_def zero_sgl_def Let_def)
    have "sp_mm_ops ?p = None" "length (sp_sgl ?p) = Suc i + k" "length (sp_sgl_align ?p) = Suc i + k" using Suc.prems by simp_all
    from Suc.IH [OF this refl, of ad ?m] obtain pool' m' where
      IH: "create_lists iova junk n (Suc i) k ad ?p ?m = (length ?as = k, pool', m')"
      "take (Suc i + length ?as) (sp_sgl pool') = take (Suc i) (sp_sgl ?p) @ ?as"
      "take (Suc i + length ?as) (sp_sgl_align pool') = take (Suc i) (sp_sgl_align ?p) @ map ADDR_ALIGN_64 ?as"
      "length (sp_sgl pool') = Suc i + k" "length (sp_sgl_align pool') = Suc i + k" "sp_mm_ops pool' = None"
      "length ?as \<noteq> k \<longrightarrow> sp_sgl_num pool' = Suc i + length ?as" "sm_blocks m' = rev ?as @ sm_blocks ?m"
      "sm_heap m' = sm_heap ?m" "sm_locks m' = sm_locks ?m"
      "\<forall>b. sm_sgls m' b = (if b \<in> ADDR_ALIGN_64 ` set ?as then Some (fresh_sgl n) else sm_sgls ?m b)" by blast
    have "take (Suc i) (xs[i := x]) = take i xs @ [x]" if "length xs = i + Suc k" for xs :: "nat list" and x
      using that by (simp add: take_list_update_same)
    then have "take (i + length as) (sp_sgl pool') = take i (sp_sgl pool) @ as"
      "take (i + length as) (sp_sgl_align pool') = take i (sp_sgl_align pool) @ map ADDR_ALIGN_64 as"
      using IH(2,3) Suc.prems(2,3) as by simp_all
    then show ?thesis using IH(1,4-11) step as by (intro exI [of _ pool'] exI [of _ m']) auto
  qed
qed

text \<open>Freeing the blocks of a pool that were just created.\<close>

lemma mset_fold_remove1: "mset (fold remove1 bs xs) = mset xs - mset bs"
proof (induction bs arbitrary: xs)
  case (Cons b bs)
  have "mset xs - {#b#} - mset bs = mset xs - add_mset b (mset bs)" by (rule multiset_eqI) simp
  then show ?case by (simp add: Cons)
qed simp

lemma free_created:
  assumes fit: "\<forall>a \<in> set as. a + sgl_block_size n \<le> 2 ^ 64 - 1" and free: "dom (sm_sgls m) \<inter> sgl_blocks n as = {}"
    and blocks: "sm_blocks m' = rev as @ sm_blocks m" and used: "take (sp_sgl_num pool) (sp_sgl pool) = as"
    and sgls: "\<forall>b. sm_sgls m' b = (if b \<in> ADDR_ALIGN_64 ` set as then Some (fresh_sgl n) else sm_sgls m b)"
  shows "mset (sm_blocks (hisi_qm_free_sglpool pool n m')) = mset (sm_blocks m)"
    "sm_sgls (hisi_qm_free_sglpool pool n m') = sm_sgls m"
proof -
  show "mset (sm_blocks (hisi_qm_free_sglpool pool n m')) = mset (sm_blocks m)"
    using used blocks by (simp add: hisi_qm_free_sglpool_def mset_fold_remove1)
  have inside: "ADDR_ALIGN_64 a \<in> sgl_blocks n as" if "a \<in> set as" for a
  proof -
    have "a + 64 \<le> 2 ^ 64 - 1" using fit that by (auto simp: sgl_block_size_def sgl_consts)
    from align_bounds(2,3) [OF this] have "a \<le> ADDR_ALIGN_64 a" "ADDR_ALIGN_64 a < a + sgl_block_size n"
      by (simp_all add: sgl_block_size_def sgl_consts)
    then show ?thesis using that unfolding sgl_blocks_def by blast
  qed
  have "(sm_sgls m' |` (- sgl_blocks n as)) b = sm_sgls m b" for b
  proof (cases "b \<in> sgl_blocks n as")
    case True
    then have "sm_sgls m b = None" using free by auto
    with True show ?thesis by simp
  next
    case False
    then have "b \<notin> ADDR_ALIGN_64 ` set as" using inside by auto
    with False sgls show ?thesis by (simp add: restrict_map_def)
  qed
  moreover have "{a. \<forall>b \<in> set as. \<not> (b \<le> a \<and> a < b + sgl_block_size n)} = - sgl_blocks n as"
    by (auto simp: sgl_blocks_def)
  ultimately show "sm_sgls (hisi_qm_free_sglpool pool n m') = sm_sgls m"
    using used by (simp add: hisi_qm_free_sglpool_def fun_eq_iff)
qed

text \<open>
  Without memory functions of the user, a pool whose creation fails leaves no block behind; a created pool holds one
  clean list per block, 64-byte aligned and inside of its block.
\<close>

definition disjoint_blocks :: "nat \<Rightarrow> nat list \<Rightarrow> bool" where
  "disjoint_blocks n as \<longleftrightarrow> sorted_wrt (\<lambda>a b. a + sgl_block_size n \<le> b \<or> b + sgl_block_size n \<le> a) as"

lemma distinct_aligned:
  assumes "disjoint_blocks n as" and "\<forall>a \<in> set as. a + 64 \<le> 2 ^ 64 - 1"
  shows "distinct (map ADDR_ALIGN_64 as)"
  using assms
proof (induction as)
  case (Cons a as)
  have "ADDR_ALIGN_64 a \<noteq> ADDR_ALIGN_64 b" if b: "b \<in> set as" for b
  proof -
    have "a + 64 < b \<or> b + 64 < a" using Cons.prems(1) b by (force simp: disjoint_blocks_def sgl_block_size_def sgl_consts)
    then show ?thesis using align_bounds [of a] align_bounds [of b] Cons.prems(2) b by auto
  qed
  then show ?case using Cons by (auto simp: disjoint_blocks_def)
qed simp

text \<open>The same blocks, lists, number of heap objects and number of locks.\<close>

definition same_mem :: "sgl_mem \<Rightarrow> sgl_mem \<Rightarrow> bool" where
  "same_mem m m' \<longleftrightarrow> mset (sm_blocks m) = mset (sm_blocks m') \<and> sm_sgls m = sm_sgls m' \<and> sm_heap m = sm_heap m' \<and> sm_locks m = sm_locks m'"

lemma create_sglpool_spec:
  assumes n: "0 < k" "0 < n" "n \<le> 255" "n * k < 2 ^ 16" and as: "as = takeWhile (\<lambda>a. a \<noteq> 0) (take k addrs)"
    and fit: "\<forall>a \<in> set as. a + sgl_block_size n \<le> 2 ^ 64 - 1" and free: "dom (sm_sgls m) \<inter> sgl_blocks n as = {}"
    and disj: "disjoint_blocks n as" and res: "hisi_qm_create_sglpool oks spin_ok iova junk addrs k n None m = (r, m')"
  shows "case r of
      None \<Rightarrow> same_mem m' m
    | Some p \<Rightarrow> sgl_pool_ok (set (sgl_free p)) p m' \<and> sgl_free p = map ADDR_ALIGN_64 as \<and> length as = k \<and>
        sm_blocks m' = rev as @ sm_blocks m \<and> sm_heap m' = sm_heap m + 3 \<and> sm_locks m' = sm_locks m + 1 \<and>
        same_mem (hisi_qm_destroy_sglpool (Some p) m') m"
proof -
  let ?p0 = "\<lparr>sp_sgl_align = replicate k 0, sp_sgl = replicate k 0, sp_depth = 0, sp_top = 0, sp_sge_num = 0, sp_sgl_num = 0, sp_mm_ops = None\<rparr>"
  have p0: "sp_mm_ops ?p0 = None" "length (sp_sgl ?p0) = 0 + k" "length (sp_sgl_align ?p0) = 0 + k" by simp_all
  let ?m = "grow (grow (grow m))"
  have g: "sm_blocks ?m = sm_blocks m" "sm_sgls ?m = sm_sgls m" "sm_heap ?m = sm_heap m + 3" "sm_locks ?m = sm_locks m" by (simp_all add: grow_def)
  from create_lists_spec [OF p0 as, of iova junk n ?m, unfolded g add_0 take_0 append_Nil] obtain p1 m1 where
    cl: "create_lists iova junk n 0 k addrs ?p0 ?m = (length as = k, p1, m1)" "take (length as) (sp_sgl p1) = as"
    "take (length as) (sp_sgl_align p1) = map ADDR_ALIGN_64 as" "length (sp_sgl p1) = k" "length (sp_sgl_align p1) = k"
    "sp_mm_ops p1 = None" "length as \<noteq> k \<Longrightarrow> sp_sgl_num p1 = length as" "sm_blocks m1 = rev as @ sm_blocks m"
    "\<forall>b. sm_sgls m1 b = (if b \<in> ADDR_ALIGN_64 ` set as then Some (fresh_sgl n) else sm_sgls m b)"
    "sm_heap m1 = sm_heap m + 3" "sm_locks m1 = sm_locks m" by blast
  let ?p = "p1\<lparr>sp_sgl_num := k, sp_sge_num := n, sp_depth := k, sp_top := k\<rparr>"
  have early: "hisi_qm_free_sglpool q n (x\<lparr>sm_heap := h\<rparr>) = x\<lparr>sm_heap := h - pool_allocs q\<rparr>" if "sp_sgl_num q = 0" for q h x
    using that by (simp add: hisi_qm_free_sglpool_def restrict_map_def)
  have cases: "r = None \<and> (m' = m \<or> length as \<noteq> k \<and> m' = hisi_qm_free_sglpool p1 n m1 \<or>
      length as = k \<and> m' = hisi_qm_free_sglpool ?p n m1) \<or> length as = k \<and> r = Some ?p \<and> m' = m1\<lparr>sm_locks := sm_locks m1 + 1\<rparr>"
    using res n cl(1) unfolding hisi_qm_create_sglpool_def
    by (auto simp: sgl_consts Let_def early grow_def pool_allocs_def split: if_splits prod.splits bool.splits)
  have freed: "same_mem (hisi_qm_free_sglpool q n m1) m"
    if "take (sp_sgl_num q) (sp_sgl q) = as" "sp_sgl q = sp_sgl p1" "sp_sgl_align q = sp_sgl_align p1" "sp_mm_ops q = None" for q
    using free_created [OF fit free cl(8) that(1) cl(9)] that(2-4) cl(4,5,10,11) n(1)
    by (auto simp: same_mem_def hisi_qm_free_sglpool_def pool_allocs_def Let_def)
  show ?thesis
  proof (cases r)
    case None
    then show ?thesis using cases freed [of p1] freed [of ?p] cl(2,6,7) by (auto simp: same_mem_def)
  next
    case (Some p)
    then have p: "p = ?p" "m' = m1\<lparr>sm_locks := sm_locks m1 + 1\<rparr>" "length as = k" using cases by auto
    have fr: "sgl_free p = map ADDR_ALIGN_64 as" using p cl(3) by (simp add: sgl_free_def)
    have fit': "\<forall>a \<in> set as. a + 64 \<le> 2 ^ 64 - 1" using fit by (auto simp: sgl_block_size_def sgl_consts)
    have "clean_sgl n (fresh_sgl n)" "length (sg_sge_entries (fresh_sgl n)) = n"
      by (simp_all add: clean_sgl_def fresh_sgl_def zero_sgl_def)
    moreover have "0 \<notin> set (sgl_free p)" using fr align_bounds(2) fit' by fastforce
    ultimately have "sgl_inv (set (sgl_free p)) (p, m')" using cl(5,9) by (auto simp: sgl_inv_def p fr [unfolded p])
    then have "sgl_pool_ok (set (sgl_free p)) p m'"
      using distinct_aligned [OF disj fit'] n cl(6) fr by (auto simp: sgl_pool_ok_def p)
    moreover have "hisi_qm_destroy_sglpool (Some p) m' = hisi_qm_free_sglpool ?p n m1" by (simp add: hisi_qm_destroy_sglpool_def p)
    ultimately show ?thesis using Some fr p(2,3) cl(2,6,8,10,11) freed [of ?p] by simp
  qed
qed

subsection \<open>Properties\<close>

text \<open>
  Creating a list pool in memory that the library allocates, with blocks that do not overlap. If the creation fails at
  any point, every block, both arrays and the structure are given back, and no list is left in memory. If it succeeds, the pool is well-formed and has one
  clean list in each block, 64-byte aligned and with room for its header and entries inside of the block; destroying the
  pool gives back exactly its blocks, its three heap objects and its lock.
\<close>

theorem sglpool_create_destroy:
  assumes "0 < sgl_num" "0 < sge_num" "sge_num \<le> HISI_SGE_NUM_IN_SGL" "sge_num * sgl_num < 2 ^ 16"
    and "as = takeWhile (\<lambda>a. a \<noteq> 0) (take sgl_num addrs)" and "list_all (\<lambda>a. a + sgl_block_size sge_num \<le> 2 ^ 64 - 1) as"
    and "dom (sm_sgls m) \<inter> sgl_blocks sge_num as = {}" and "disjoint_blocks sge_num as"
    and "hisi_qm_create_sglpool oks spin_ok iova_map junk addrs sgl_num sge_num None m = (r, m')"
  shows "case r of
      None \<Rightarrow> same_mem m' m
    | Some p \<Rightarrow> sgl_pool_ok (set (sgl_free p)) p m' \<and> sgl_free p = map ADDR_ALIGN_64 as \<and> length as = sgl_num \<and>
        list_all (\<lambda>a. ADDR_ALIGN_64 a mod 64 = 0 \<and> a < ADDR_ALIGN_64 a \<and>
          ADDR_ALIGN_64 a + SIZEOF_SGL + sge_num * SIZEOF_SGE \<le> a + sgl_block_size sge_num) as \<and>
        sm_blocks m' = rev as @ sm_blocks m \<and> sm_heap m' = sm_heap m + 3 \<and> sm_locks m' = sm_locks m + 1 \<and>
        same_mem (hisi_qm_destroy_sglpool (Some p) m') m"
proof -
  have fit: "\<forall>a \<in> set as. a + sgl_block_size sge_num \<le> 2 ^ 64 - 1" using assms(6) by (simp add: list_all_iff)
  have "a + 64 \<le> 2 ^ 64 - 1" if "a \<in> set as" for a using fit that by (auto simp: sgl_block_size_def sgl_consts)
  then have "list_all (\<lambda>a. ADDR_ALIGN_64 a mod 64 = 0 \<and> a < ADDR_ALIGN_64 a \<and>
    ADDR_ALIGN_64 a + SIZEOF_SGL + sge_num * SIZEOF_SGE \<le> a + sgl_block_size sge_num) as"
    using align_bounds by (fastforce simp: list_all_iff sgl_block_size_def HISI_SGL_ALIGE_def)
  moreover have "sge_num \<le> 255" using assms(3) by (simp add: HISI_SGE_NUM_IN_SGL_def)
  note create_sglpool_spec [OF assms(1,2) this assms(4,5) fit assms(7-9)]
  ultimately show ?thesis by (cases r; simp only: option.case; blast)
qed

lemma demo_create: "hisi_qm_create_sglpool [] True (\<lambda>a _. a) (\<lambda>_. zero_sgl 1) [1000, 2000] (Suc (Suc 0)) 1 None \<lparr>sm_sgls = Map.empty, sm_blocks = [], sm_heap = 0, sm_locks = 0\<rparr> =
   (Some \<lparr>sp_sgl_align = [1024, 2048], sp_sgl = [1000, 2000], sp_depth = Suc (Suc 0), sp_top = Suc (Suc 0), sp_sge_num = 1,
      sp_sgl_num = Suc (Suc 0), sp_mm_ops = None\<rparr>,
    \<lparr>sm_sgls = [1024 \<mapsto> fresh_sgl 1, 2048 \<mapsto> fresh_sgl 1], sm_blocks = [2000, 1000], sm_heap = 3, sm_locks = 1\<rparr>)"
  by (simp add: hisi_qm_create_sglpool_def sgl_consts hisi_qm_create_sgl_def hisi_qm_align_sgl_def fresh_sgl_def zero_sgl_def
      ADDR_ALIGN_64_def u64_def Let_def grow_def)

theorem sglpool_create_destroy_witness:
  "sgl_free \<lparr>sp_sgl_align = [1024, 2048], sp_sgl = [1000, 2000], sp_depth = Suc (Suc 0), sp_top = Suc (Suc 0), sp_sge_num = 1,
     sp_sgl_num = Suc (Suc 0), sp_mm_ops = None\<rparr> = map ADDR_ALIGN_64 [1000, 2000]"
  using sglpool_create_destroy [of "Suc (Suc 0)" 1 "[1000, 2000]" "[1000, 2000]", OF _ _ _ _ _ _ _ _ demo_create]
  by (simp add: sgl_consts disjoint_blocks_def sgl_block_size_def)

text \<open>
  C8: Building a hardware chain from a user's data list with at least one non-empty buffer. The call has an outcome. If it succeeds, the result is the head of a
  chain of lists taken from the pool, linked in order, and the valid entries of the chain are exactly the non-empty buffers
  of the user in the user's order. If it fails, the free lists of the pool are the same as before, and the cause is a
  buffer that is too long or cannot be mapped, or more buffers than the free lists have entries.
\<close>

theorem sgl_chain_holds_data:
  assumes "sgl_pool_ok A p m" and "filter usable nodes \<noteq> []"
  shows "\<exists>r p' m'. hisi_qm_get_hw_sgl iova_map (Some p) (Some nodes) m = Some (r, Some p', m') \<and> sgl_inv A (p', m') \<and>
    (case r of
       Inr a \<Rightarrow> \<exists>cs. hd cs = a \<and> out_chain A p' m' cs \<and> mset (sgl_free p' @ cs) = mset (sgl_free p) \<and>
         chain_data (sm_sgls m') cs = filter usable nodes
     | Inl e \<Rightarrow> mset (sgl_free p') = mset (sgl_free p) \<and>
         (e = WD_EINVAL \<and> (\<exists>dl \<in> set nodes. bad_node iova_map p dl) \<or> e = WD_EBUSY \<and> length nodes > sp_sge_num p * length (sgl_free p)))"
proof -
  from assms(2) have "nodes \<noteq> []" by auto
  from get_hw_sgl_spec [OF assms(1) this, of iova_map] show ?thesis .
qed

definition demo_sglpool :: hisi_sgl_pool where
  "demo_sglpool = \<lparr>sp_sgl_align = [1024, 2048], sp_sgl = [1000, 2000], sp_depth = Suc (Suc 0), sp_top = Suc (Suc 0), sp_sge_num = 1,
     sp_sgl_num = Suc (Suc 0), sp_mm_ops = None\<rparr>"

definition demo_sglmem :: sgl_mem where
  "demo_sglmem = \<lparr>sm_sgls = [1024 \<mapsto> fresh_sgl 1, 2048 \<mapsto> fresh_sgl 1], sm_blocks = [2000, 1000], sm_heap = 3, sm_locks = 1\<rparr>"

lemma demo_sglpool_ok: "sgl_pool_ok {1024, 2048} demo_sglpool demo_sglmem"
  by (simp add: sgl_pool_ok_def sgl_inv_def demo_sglpool_def demo_sglmem_def sgl_free_def clean_sgl_def fresh_sgl_def zero_sgl_def)

theorem sgl_chain_holds_data_witness:
  "\<exists>r p' m'. hisi_qm_get_hw_sgl (\<lambda>a _. a) (Some demo_sglpool) (Some [(7, 3), (0, 4), (9, 5)]) demo_sglmem = Some (r, Some p', m') \<and>
    sgl_inv {1024, 2048} (p', m')"
  using sgl_chain_holds_data [OF demo_sglpool_ok, of "[(7, 3), (0, 4), (9, 5)]" "\<lambda>a _. a"] by (auto simp: usable_def)

text \<open>
  Giving back a chain that was built puts every one of its lists on the pool again, cleaned, so that the pool has the
  same free lists as before the chain was built.
\<close>

theorem sgl_get_put:
  assumes "sgl_pool_ok A p m" and "nodes \<noteq> []"
    and "hisi_qm_get_hw_sgl iova_map (Some p) (Some nodes) m = Some (Inr a, Some p', m')"
  shows "\<exists>q m2. hisi_qm_put_hw_sgl (Some p') a m' = Some (Some q, m2) \<and> sgl_inv A (q, m2) \<and> mset (sgl_free q) = mset (sgl_free p)"
proof -
  from get_hw_sgl_spec [OF assms(1,2), of iova_map] assms(3) obtain cs where
    "sgl_inv A (p', m')" "hd cs = a" "out_chain A p' m' cs" "mset (sgl_free p' @ cs) = mset (sgl_free p)" by auto
  with put_chain [of A p' m' cs] show ?thesis by auto
qed

lemma demo_get: "\<exists>p' m'. hisi_qm_get_hw_sgl (\<lambda>a _. a) (Some demo_sglpool) (Some [(7, 3)]) demo_sglmem = Some (Inr 2048, Some p', m')"
  by (simp add: hisi_qm_get_hw_sgl_def demo_sglpool_def demo_sglmem_def hisi_qm_sgl_pop_def Let_def map_addr_def
      fresh_sgl_def zero_sgl_def HISI_MAX_SIZE_IN_SGE_def u16_def)

theorem sgl_get_put_witness:
  "\<exists>p' m' q m2. hisi_qm_get_hw_sgl (\<lambda>a _. a) (Some demo_sglpool) (Some [(7, 3)]) demo_sglmem = Some (Inr 2048, Some p', m') \<and>
    hisi_qm_put_hw_sgl (Some p') 2048 m' = Some (Some q, m2) \<and> mset (sgl_free q) = mset (sgl_free demo_sglpool)"
  using demo_get sgl_get_put [OF demo_sglpool_ok, of "[(7, 3)]" "\<lambda>a _. a"] by blast

end
