(* ===== verification/Bmm.thy ===== *)
theory Bmm
  imports Mempool_Huge Wd_Context Qm_Sgl
begin

unbundle bit_operations_syntax

text \<open>
  The block memory manager of \<^verbatim>\<open>wd_bmm.c\<close>: the list of hardware contexts that pools may use, pools of blocks in memory that
  the device can reach, and the operations that take, return and translate buffers.

  A pool is one of three kinds. On a device with shared virtual memory it is a block pool on huge pages (\<open>Mempool_Huge\<close>). Else it
  is memory reserved by the kernel, made of slices with a physical address each, with an array of block headers and a
  bitmap; or, when the user gives allocation functions, memory of the user with the headers inside.

  What the kernel and the user's functions answer is the record \<open>bmm_env\<close>, the resources of the process are the record
  \<open>bmm_res\<close>. Addresses are numbers, 0 is \<^verbatim>\<open>NULL\<close>. Functions into an option have no outcome where the code leaves an array or
  follows an invalid pointer.
\<close>

definition UACCE_DEV_IOMMU :: nat where "UACCE_DEV_IOMMU = 7"
definition TAG_FREE :: nat where "TAG_FREE = 0x12345678"
definition TAG_USED :: nat where "TAG_USED = 0x87654321"
definition MAX_ALIGN_SIZE :: nat where "MAX_ALIGN_SIZE = 0x1000"
definition BMM_MAX_BLOCK_SIZE :: nat where "BMM_MAX_BLOCK_SIZE = 0x10000000"
definition BLK_BALANCE_SZ :: nat where "BLK_BALANCE_SZ = 0x100000"
definition UACCE_GRAN_SIZE :: nat where "UACCE_GRAN_SIZE = 0x10000"
definition UACCE_GRAN_SHIFT :: nat where "UACCE_GRAN_SHIFT = 16"
definition UACCE_GRAN_NUM_MASK :: nat where "UACCE_GRAN_NUM_MASK = 0xfff"
definition CRYPTO_MAX_ALG_NAME :: nat where "CRYPTO_MAX_ALG_NAME = 128"
definition SIZEOF_BLK_HD :: nat where "SIZEOF_BLK_HD = 24"
definition MAX_SKIP_ATTEMPTS :: nat where "MAX_SKIP_ATTEMPTS = 10"

definition NUM_TIMES :: "nat \<Rightarrow> nat" where "NUM_TIMES x = u32 (87 * x) div 100"

text \<open>\<^verbatim>\<open>ALIGN(x, a)\<close> for a type of \<open>w\<close> bits.\<close>

definition ALIGN :: "nat \<Rightarrow> nat \<Rightarrow> nat \<Rightarrow> nat" where
  "ALIGN w x a = (let m = (a + 2 ^ w - 1) mod 2 ^ w in ((x + m) mod 2 ^ w) AND (2 ^ w - 1 - m))"

lemmas bmm_consts = UACCE_DEV_IOMMU_def TAG_FREE_def TAG_USED_def MAX_ALIGN_SIZE_def BMM_MAX_BLOCK_SIZE_def BLK_BALANCE_SZ_def
  UACCE_GRAN_SIZE_def UACCE_GRAN_SHIFT_def UACCE_GRAN_NUM_MASK_def SIZEOF_BLK_HD_def MAX_SKIP_ATTEMPTS_def

subsection \<open>The contexts for memory pools\<close>

record mem_ctx_node =
  mc_alg_name :: string
  mc_h_ctx :: nat
  mc_numa_id :: int
  mc_used :: bool

text \<open>The loop of \<^verbatim>\<open>wd_find_ctx\<close>: the position of an unused context on the node itself, and of the nearest one before it.\<close>

fun find_ctx_scan ::
  "(int \<Rightarrow> int) \<Rightarrow> string \<Rightarrow> int \<Rightarrow> mem_ctx_node list \<Rightarrow> nat \<Rightarrow> int \<Rightarrow> nat option \<Rightarrow> nat option \<times> nat option" where
  "find_ctx_scan distance alg nid [] i mn close = (None, close)"
| "find_ctx_scan distance alg nid (n # ns) i mn close =
    (if \<not> mc_used n \<and> strstr (mc_alg_name n) alg \<noteq> None then
       if mc_numa_id n = nid then (Some i, close)
       else if distance (mc_numa_id n) < mn then find_ctx_scan distance alg nid ns (Suc i) (distance (mc_numa_id n)) (Some i)
       else find_ctx_scan distance alg nid ns (Suc i) mn close
     else find_ctx_scan distance alg nid ns (Suc i) mn close)"

definition mark_used :: "mem_ctx_node list \<Rightarrow> nat \<Rightarrow> mem_ctx_node list" where
  "mark_used ns i = ns[i := (ns ! i)\<lparr>mc_used := True\<rparr>]"

text \<open>\<open>nid\<close>: the node of the current processor, \<open>None\<close> when it is not known. The result is the context, 0 when there is none.\<close>

definition wd_find_ctx ::
  "(int \<Rightarrow> int \<Rightarrow> int) \<Rightarrow> nat option \<Rightarrow> string option \<Rightarrow> mem_ctx_node list \<Rightarrow> nat \<times> mem_ctx_node list" where
  "wd_find_ctx numa_distance nid alg_name ns =
    (case (alg_name, nid) of
       (Some alg, Some n) \<Rightarrow>
         (let (exact, close) = find_ctx_scan (numa_distance (i32 (int n))) alg (i32 (int n)) ns 0 0xFFFF None;
              (h_ctx, ns) = (case exact of None \<Rightarrow> (0, ns) | Some i \<Rightarrow> (mc_h_ctx (ns ! i), mark_used ns i)) in
          case close of
            Some i \<Rightarrow> if h_ctx = 0 then (mc_h_ctx (ns ! i), mark_used ns i) else (h_ctx, ns)
          | None \<Rightarrow> (h_ctx, ns))
     | _ \<Rightarrow> (0, ns))"

definition wd_remove_ctx_list :: "mem_ctx_node list \<Rightarrow> mem_ctx_node list" where
  "wd_remove_ctx_list ns = []"

text \<open>\<open>ctx\<close> is the structure at the address \<open>h_ctx\<close>.\<close>

definition wd_insert_ctx_list ::
  "bool \<Rightarrow> nat \<Rightarrow> wd_ctx_h \<Rightarrow> string option \<Rightarrow> mem_ctx_node list \<Rightarrow> (unit result \<times> mem_ctx_node list) option" where
  "wd_insert_ctx_list malloc_ok h_ctx ctx alg_name ns =
    (case alg_name of
       None \<Rightarrow> Some (Inl WD_EINVAL, ns)
     | Some alg \<Rightarrow>
         if h_ctx = 0 then Some (Inl WD_EINVAL, ns)
         else if cx_fd ctx < 0 \<or> cx_fd ctx > MAX_FD_NUM then Some (Inr (), ns)
         else
           (case cx_dev ctx of
              None \<Rightarrow> None
            | Some d \<Rightarrow>
                if malloc_ok then
                  Some (Inr (), ns @ [\<lparr>mc_alg_name = take (CRYPTO_MAX_ALG_NAME - 1) alg, mc_h_ctx = h_ctx,
                                       mc_numa_id = ud_numa_id d, mc_used = False\<rparr>])
                else Some (Inl WD_ENOMEM, ns)))"

subsection \<open>Pools\<close>

record wd_ss_region =
  sr_pa :: nat
  sr_va :: nat
  sr_size :: nat

record ctx_info =
  cf_fd :: int
  cf_iommu_type :: bool
  cf_ss_va :: nat
  cf_ss_mm_size :: nat
  cf_ss_list :: "wd_ss_region list"
  cf_qfrs_offset :: "nat list"

record wd_blk_hd =
  bh_tag :: nat
  bh_num :: nat
  bh_dma :: nat
  bh_blk :: nat

record wd_mempool_setup =
  st_block_size :: nat
  st_block_num :: nat
  st_align_size :: nat
  st_ops :: wd_mm_ops

record wd_blkpool =
  bk_free_blk_num :: nat
  bk_alloc_failures :: nat
  bk_cinfo :: "ctx_info option"
  bk_blk_array :: "wd_blk_hd list option"
  bk_total_blocks :: nat
  bk_free_bitmap :: "8 word list option"
  bk_bitmap_size :: nat
  bk_usr_mem_start :: nat
  bk_act_start :: nat
  bk_act_hd_sz :: nat
  bk_act_blk_sz :: nat
  bk_act_mem_sz :: nat
  bk_dev_id :: nat
  bk_setup :: wd_mempool_setup
  bk_sva_mode :: bool
  bk_hp_mempool :: "mempool option"
  bk_hp_blkpool :: "blkpool option"

text \<open>
  \<open>be_dma\<close>: the answers to the calls for the slices, each the value of \<^verbatim>\<open>ioctl\<close> and the word it wrote; \<open>be_junk\<close>: what the array of
  headers holds after \<^verbatim>\<open>malloc\<close>; \<open>be_hp\<close>, \<open>be_numa_max\<close>, \<open>be_hp_oks\<close>, \<open>be_bp_oks\<close>: the answers for a pool on huge pages.
\<close>

record bmm_env =
  be_oks :: "bool list"
  be_spin :: int
  be_mmap :: "nat option"
  be_dma :: "(int \<times> nat) list"
  be_junk :: "nat \<Rightarrow> wd_blk_hd"
  be_usr_alloc :: "nat \<Rightarrow> nat"
  be_usr_map :: "nat \<Rightarrow> nat \<Rightarrow> nat"
  be_hp :: hp_env
  be_numa_max :: int
  be_hp_oks :: "bool list"
  be_bp_oks :: "bool list"

text \<open>What the process holds: allocations of this module, mappings, memory from the user's function, locks; and the headers
  written into the user's memory.\<close>

record bmm_res =
  br_heap :: nat
  br_maps :: "(nat \<times> nat) list"
  br_usr :: "nat list"
  br_locks :: nat
  br_usr_hds :: "(nat \<times> wd_blk_hd) list"

abbreviation heap_add :: "nat \<Rightarrow> bmm_res \<Rightarrow> bmm_res" where
  "heap_add n r \<equiv> r\<lparr>br_heap := br_heap r + n\<rparr>"

abbreviation heap_sub :: "nat \<Rightarrow> bmm_res \<Rightarrow> bmm_res" where
  "heap_sub n r \<equiv> r\<lparr>br_heap := br_heap r - n\<rparr>"

subsection \<open>Slices of reserved memory\<close>

definition wd_free_slice :: "ctx_info \<Rightarrow> bmm_res \<Rightarrow> ctx_info \<times> bmm_res" where
  "wd_free_slice cinfo r = (cinfo\<lparr>cf_ss_list := []\<rparr>, heap_sub (length (cf_ss_list cinfo)) r)"

text \<open>A slice that continues the last one physically extends it; else it is appended.\<close>

definition wd_add_slice :: "ctx_info \<Rightarrow> wd_ss_region \<Rightarrow> bmm_res \<Rightarrow> ctx_info \<times> bmm_res" where
  "wd_add_slice cinfo rgn r =
    (let ss = cf_ss_list cinfo in
     if ss \<noteq> [] \<and> u64 (sr_pa (last ss) + sr_size (last ss)) = sr_pa rgn
     then (cinfo\<lparr>cf_ss_list := butlast ss @ [(last ss)\<lparr>sr_size := u64 (sr_size (last ss) + sr_size rgn)\<rparr>]\<rparr>, heap_sub 1 r)
     else (cinfo\<lparr>cf_ss_list := ss @ [rgn]\<rparr>, r))"

fun map_slices ::
  "nat \<Rightarrow> (int \<times> nat) list \<Rightarrow> bool list \<Rightarrow> nat \<Rightarrow> ctx_info \<Rightarrow> bmm_res \<Rightarrow> (bool \<times> ctx_info \<times> bool list \<times> bmm_res) option" where
  "map_slices ptr [] oks tmp cinfo r = None"
| "map_slices ptr ((ret, info) # as) oks tmp cinfo r =
    (if ret < 0 then Some (False, cinfo, oks, r)
     else
       (let (ok, oks) = calloc_ok oks in
        if \<not> ok then Some (False, cinfo, oks, r)
        else
          (let sz = (if cf_iommu_type cinfo then cf_ss_mm_size cinfo
                     else u64 ((info AND UACCE_GRAN_NUM_MASK) * 2 ^ UACCE_GRAN_SHIFT));
               rgn = \<lparr>sr_pa = info - (info AND UACCE_GRAN_NUM_MASK), sr_va = u64 (ptr + tmp), sr_size = sz\<rparr>;
               (cinfo, r) = wd_add_slice cinfo rgn (heap_add 1 r) in
           if ret > 0 then map_slices ptr as oks (u64 (tmp + sz)) cinfo r
           else Some (True, cinfo, oks, r))))"

definition wd_unmap_reserve_mem :: "nat \<Rightarrow> nat \<Rightarrow> bmm_res \<Rightarrow> bmm_res" where
  "wd_unmap_reserve_mem addr sz r = (if addr = 0 then r else r\<lparr>br_maps := remove1 (addr, sz) (br_maps r)\<rparr>)"

text \<open>The address of the reserved memory, 0 for \<^verbatim>\<open>NULL\<close>.\<close>

definition wd_map_reserve_mem ::
  "bmm_env \<Rightarrow> bool list \<Rightarrow> wd_blkpool \<Rightarrow> nat \<Rightarrow> bmm_res \<Rightarrow> (nat \<times> wd_blkpool \<times> bool list \<times> bmm_res) option" where
  "wd_map_reserve_mem ev oks pool sz r =
    (case bk_cinfo pool of
       None \<Rightarrow> Some (0, pool, oks, r)
     | Some cinfo \<Rightarrow>
         (let tmp = (if cf_iommu_type cinfo then sz else ALIGN 64 sz UACCE_GRAN_SIZE) in
          case be_mmap ev of
            None \<Rightarrow> Some (0, pool, oks, r)
          | Some ptr \<Rightarrow>
              (let cinfo = cinfo\<lparr>cf_ss_va := ptr, cf_ss_mm_size := tmp\<rparr>; r = r\<lparr>br_maps := (ptr, tmp) # br_maps r\<rparr> in
               case map_slices ptr (be_dma ev) oks 0 cinfo r of
                 None \<Rightarrow> None
               | Some (True, cinfo, oks, r) \<Rightarrow> Some (ptr, pool\<lparr>bk_cinfo := Some cinfo\<rparr>, oks, r)
               | Some (False, cinfo, oks, r) \<Rightarrow>
                   (let (cinfo, r) = wd_free_slice cinfo r in
                    Some (0, pool\<lparr>bk_cinfo := Some cinfo\<rparr>, oks, wd_unmap_reserve_mem (cf_ss_va cinfo) (cf_ss_mm_size cinfo) r)))))"

definition wd_iova_map :: "ctx_info option \<Rightarrow> nat \<Rightarrow> nat" where
  "wd_iova_map cinfo va =
    (case cinfo of
       None \<Rightarrow> 0
     | Some c \<Rightarrow>
         if va = 0 then 0
         else (case List.find (\<lambda>rgn. sr_va rgn \<le> va \<and> va < u64 (sr_va rgn + sr_size rgn)) (cf_ss_list c) of
                 None \<Rightarrow> 0
               | Some rgn \<Rightarrow> u64 (sr_pa rgn + (va - sr_va rgn))))"

subsection \<open>The bitmap\<close>

definition bitmap_set_bit :: "8 word list \<Rightarrow> nat \<Rightarrow> 8 word list option" where
  "bitmap_set_bit bm i =
    (case rd bm (i div 8) of None \<Rightarrow> None | Some b \<Rightarrow> wr bm (i div 8) (b OR push_bit (i mod 8) 1))"

definition bitmap_clear_bit :: "8 word list \<Rightarrow> nat \<Rightarrow> 8 word list option" where
  "bitmap_clear_bit bm i =
    (case rd bm (i div 8) of None \<Rightarrow> None | Some b \<Rightarrow> wr bm (i div 8) (b AND NOT (push_bit (i mod 8) 1)))"

text \<open>True for a free block.\<close>

definition bitmap_test_bit :: "8 word list option \<Rightarrow> nat \<Rightarrow> bool option" where
  "bitmap_test_bit bitmap i =
    (case bitmap of
       None \<Rightarrow> Some False
     | Some bm \<Rightarrow> map_option (\<lambda>b. \<not> odd (drop_bit (i mod 8) b)) (rd bm (i div 8)))"

text \<open>The changes do nothing when there is no bitmap.\<close>

definition on_bitmap :: "(8 word list \<Rightarrow> nat \<Rightarrow> 8 word list option) \<Rightarrow> 8 word list option \<Rightarrow> nat \<Rightarrow> 8 word list option option" where
  "on_bitmap f bitmap i = (case bitmap of None \<Rightarrow> Some None | Some bm \<Rightarrow> map_option Some (f bm i))"

subsection \<open>Creating a pool\<close>

text \<open>The part of the string that \<^verbatim>\<open>strtol\<close> does not consume; all of it when there is no number.\<close>

definition strtol_rest :: "string \<Rightarrow> string" where
  "strtol_rest s =
    (let t = dropWhile isspace s; u = (case t of [] \<Rightarrow> [] | c # cs \<Rightarrow> if c = CHR ''-'' \<or> c = CHR ''+'' then cs else t) in
     if takeWhile isdigit u = [] then s else dropWhile isdigit u)"

definition wd_parse_dev_id :: "string \<Rightarrow> nat result" where
  "wd_parse_dev_id dev_name =
    (case rindex dev_name (CHR ''-'') of
       Some (_ # num) \<Rightarrow>
         if num = [] then Inl WD_EINVAL
         else (let dev_id = i32 (fst (strtol num)) in
               if strtol_rest num \<noteq> [] \<or> dev_id < 0 then Inl WD_EINVAL else Inr (nat dev_id))
     | _ \<Rightarrow> Inl WD_EINVAL)"

definition wd_pool_params_check :: "wd_mempool_setup \<Rightarrow> unit result" where
  "wd_pool_params_check setup =
    (if st_block_num setup = 0 \<or> st_block_size setup = 0 \<or> st_block_size setup > BMM_MAX_BLOCK_SIZE then Inl WD_EINVAL
     else if st_align_size setup \<le> 1 \<or> st_align_size setup > MAX_ALIGN_SIZE \<or>
             (st_align_size setup AND (st_align_size setup - 1)) \<noteq> 0 then Inl WD_EINVAL
     else Inr ())"

definition wd_ctx_info_init ::
  "bool list \<Rightarrow> wd_ctx_h \<Rightarrow> wd_blkpool \<Rightarrow> bmm_res \<Rightarrow> (unit result \<times> wd_blkpool \<times> bool list \<times> bmm_res) option" where
  "wd_ctx_info_init oks ctx p r =
    (let (ok, oks) = calloc_ok oks in
     if \<not> ok then Some (Inl WD_ENOMEM, p, oks, r)
     else
       (case cx_dev ctx of
          None \<Rightarrow> None
        | Some d \<Rightarrow>
            Some (Inr (), p\<lparr>bk_cinfo := Some \<lparr>cf_fd = cx_fd ctx, cf_iommu_type = bit (u32_of_int (ud_flags d)) UACCE_DEV_IOMMU,
              cf_ss_va = 0, cf_ss_mm_size = 0, cf_ss_list = [], cf_qfrs_offset = cx_qfrs_offs ctx\<rparr>\<rparr>, oks, heap_add 1 r)))"

definition act_layout :: "wd_blkpool \<Rightarrow> wd_mempool_setup \<Rightarrow> wd_blkpool" where
  "act_layout p sp =
    (let asz = st_align_size sp; hd_sz = u32 (ALIGN 64 SIZEOF_BLK_HD asz); blk_sz = ALIGN 32 (st_block_size sp) asz;
         mem_sz = u64 (u32 (hd_sz + blk_sz) * st_block_num sp + asz) in
     p\<lparr>bk_act_hd_sz := hd_sz, bk_act_blk_sz := blk_sz,
       bk_act_mem_sz :=
         (case bk_cinfo p of
            Some c \<Rightarrow> if \<not> mo_alloc (st_ops sp) \<and> \<not> cf_iommu_type c
                      then u64 (ALIGN 64 mem_sz BLK_BALANCE_SZ * 2) else mem_sz
          | None \<Rightarrow> mem_sz)\<rparr>)"

definition wd_pool_pre_layout ::
  "bool list \<Rightarrow> wd_ctx_h option \<Rightarrow> wd_blkpool \<Rightarrow> wd_mempool_setup \<Rightarrow> bmm_res
    \<Rightarrow> (unit result \<times> wd_blkpool \<times> bool list \<times> bmm_res) option" where
  "wd_pool_pre_layout oks h_ctx p sp r =
    (let checked = (\<lambda>p oks r.
       (case wd_pool_params_check sp of
          Inl e \<Rightarrow> Some (Inl e, p\<lparr>bk_cinfo := None\<rparr>, oks, if bk_cinfo p = None then r else heap_sub 1 r)
        | Inr _ \<Rightarrow> Some (Inr (), act_layout p sp, oks, r))) in
     if mo_alloc (st_ops sp) then checked p oks r
     else
       (case h_ctx of
          None \<Rightarrow> Some (Inl WD_EINVAL, p, oks, r)
        | Some ctx \<Rightarrow>
            (case wd_ctx_info_init oks ctx p r of
               None \<Rightarrow> None
             | Some (Inl e, p, oks, r) \<Rightarrow> Some (Inl e, p, oks, r)
             | Some (Inr _, p, oks, r) \<Rightarrow> checked p oks r)))"

text \<open>
  The loop of \<^verbatim>\<open>wd_pool_init\<close> over the blocks: the headers, the bitmap and the number of usable blocks, with a flag that is
  false when an address cannot be translated.
\<close>

fun init_blocks ::
  "ctx_info option \<Rightarrow> nat \<Rightarrow> nat \<Rightarrow> nat \<Rightarrow> nat list \<Rightarrow> wd_blk_hd list \<Rightarrow> 8 word list \<Rightarrow> nat
    \<Rightarrow> (bool \<times> wd_blk_hd list \<times> 8 word list \<times> nat) option" where
  "init_blocks cinfo blk_size act_start block_size [] hds bm dma_num = Some (True, hds, bm, dma_num)"
| "init_blocks cinfo blk_size act_start block_size (i # is) hds bm dma_num =
    (let va = u64 (act_start + block_size * i);
         dma_start = wd_iova_map cinfo va; dma_end = wd_iova_map cinfo (u64 (va + blk_size - 1)) in
     if dma_start = 0 \<or> dma_end = 0 then Some (False, hds, bm, dma_num)
     else if sub64 dma_end dma_start \<noteq> sub32 blk_size 1 then
       (case bitmap_set_bit bm i of
          None \<Rightarrow> None
        | Some bm \<Rightarrow> init_blocks cinfo blk_size act_start block_size is hds bm dma_num)
     else
       (case wr hds i \<lparr>bh_tag = TAG_FREE, bh_num = 0, bh_dma = dma_start, bh_blk = va\<rparr> of
          None \<Rightarrow> None
        | Some hds \<Rightarrow> init_blocks cinfo blk_size act_start block_size is hds bm (dma_num + 1)))"

definition wd_pool_init :: "bmm_env \<Rightarrow> bool list \<Rightarrow> wd_blkpool \<Rightarrow> bmm_res \<Rightarrow> (unit result \<times> wd_blkpool \<times> bmm_res) option" where
  "wd_pool_init ev oks p r =
    (let blk_size = st_block_size (bk_setup p); p = p\<lparr>bk_act_start := ALIGN 64 (bk_usr_mem_start p) (st_align_size (bk_setup p))\<rparr>;
         block_size = u32 (bk_act_hd_sz p + bk_act_blk_sz p) in
     if block_size = 0 then Some (Inl WD_EINVAL, p, r)
     else
       (let act_num = u32 (bk_act_mem_sz p div block_size) in
        if act_num = 0 then Some (Inl WD_EINVAL, p, r)
        else
          (let (ok, oks) = calloc_ok oks in
           if \<not> ok then Some (Inl WD_ENOMEM, p, r)
           else
             (let p = p\<lparr>bk_total_blocks := act_num, bk_bitmap_size := u32 (act_num + 7) div 8\<rparr>; (ok, oks) = calloc_ok oks in
              if \<not> ok then Some (Inl WD_ENOMEM, p, r)
              else
                (case init_blocks (bk_cinfo p) blk_size (bk_act_start p) block_size [0 ..< act_num]
                        (map (be_junk ev) [0 ..< act_num]) (replicate (bk_bitmap_size p) 0) 0 of
                   None \<Rightarrow> None
                 | Some (ok, hds, bm, dma_num) \<Rightarrow>
                     if \<not> ok \<or> dma_num \<le> NUM_TIMES (st_block_num (bk_setup p)) then Some (Inl WD_ENOMEM, p, r)
                     else Some (Inr (), p\<lparr>bk_blk_array := Some hds, bk_free_bitmap := Some bm, bk_free_blk_num := dma_num,
                       bk_setup := (bk_setup p)\<lparr>st_block_num := dma_num\<rparr>\<rparr>, heap_add 2 r))))))"

text \<open>Frees the arrays; unmapping a block does nothing.\<close>

definition wd_pool_uninit :: "wd_blkpool \<Rightarrow> bmm_res \<Rightarrow> wd_blkpool \<times> bmm_res" where
  "wd_pool_uninit p r =
    (p\<lparr>bk_free_bitmap := None, bk_blk_array := None\<rparr>,
     heap_sub ((if bk_free_bitmap p = None then 0 else 1) + (if bk_blk_array p = None then 0 else 1)) r)"

text \<open>The headers are in the user's memory, each in front of its block.\<close>

fun usr_blocks :: "bmm_env \<Rightarrow> wd_blkpool \<Rightarrow> nat list \<Rightarrow> bmm_res \<Rightarrow> bool \<times> bmm_res" where
  "usr_blocks ev p [] r = (True, r)"
| "usr_blocks ev p (i # is) r =
    (let hd = u64 (bk_act_start p + u32 (u32 (bk_act_hd_sz p + bk_act_blk_sz p) * i)); blk = u64 (hd + bk_act_hd_sz p);
         dma = be_usr_map ev blk (st_block_size (bk_setup p)) in
     if dma = 0 then (False, r)
     else usr_blocks ev p is (r\<lparr>br_usr_hds := (hd, \<lparr>bh_tag = TAG_FREE, bh_num = 0, bh_dma = dma, bh_blk = blk\<rparr>) # br_usr_hds r\<rparr>))"

definition usr_pool_init :: "bmm_env \<Rightarrow> wd_blkpool \<Rightarrow> bmm_res \<Rightarrow> unit result \<times> wd_blkpool \<times> bmm_res" where
  "usr_pool_init ev p r =
    (let p = p\<lparr>bk_act_start := ALIGN 64 (bk_usr_mem_start p) (st_align_size (bk_setup p))\<rparr> in
     case usr_blocks ev p [0 ..< st_block_num (bk_setup p)] r of
       (False, r) \<Rightarrow> (Inl WD_ENOMEM, p, r)
     | (True, r) \<Rightarrow> (Inr (), p\<lparr>bk_free_blk_num := st_block_num (bk_setup p)\<rparr>, r))"

text \<open>The error exit of \<^verbatim>\<open>wd_mempool_init\<close>: the pool forgets its context information.\<close>

definition mempool_init_err :: "wd_blkpool \<Rightarrow> bmm_res \<Rightarrow> wd_blkpool \<times> bmm_res" where
  "mempool_init_err pool r =
    (case bk_cinfo pool of
       None \<Rightarrow> (pool, r)
     | Some cinfo \<Rightarrow>
         (let (cinfo, r) = wd_free_slice cinfo r in
          (pool\<lparr>bk_cinfo := None\<rparr>, wd_unmap_reserve_mem (cf_ss_va cinfo) (cf_ss_mm_size cinfo) r)))"

definition wd_mempool_init ::
  "bmm_env \<Rightarrow> bool list \<Rightarrow> wd_ctx_h \<Rightarrow> wd_blkpool \<Rightarrow> wd_mempool_setup \<Rightarrow> bmm_res
    \<Rightarrow> (unit result \<times> wd_blkpool \<times> wd_mempool_setup \<times> bmm_res) option" where
  "wd_mempool_init ev oks ctx pool setup r =
    (let finish = (\<lambda>pool setup r.
       (case wd_parse_dev_id (cx_dev_path ctx) of
          Inr d \<Rightarrow> Some (Inr (), pool\<lparr>bk_dev_id := d\<rparr>, setup, r)
        | Inl _ \<Rightarrow> (let (pool, r) = wd_pool_uninit pool r; (pool, r) = mempool_init_err pool r in Some (Inl WD_EINVAL, pool, setup, r)))) in
     if mo_alloc (st_ops setup) \<and> mo_free (st_ops setup) \<and> mo_iova_map (st_ops setup) then
       (let addr = be_usr_alloc ev (bk_act_mem_sz pool) in
        if addr = 0 then Some (Inl WD_EINVAL, pool, setup, r)
        else
          (case usr_pool_init ev (pool\<lparr>bk_usr_mem_start := addr\<rparr>) (r\<lparr>br_usr := addr # br_usr r\<rparr>) of
             (Inl _, pool, r) \<Rightarrow> Some (Inl WD_EINVAL, pool, setup, r\<lparr>br_usr := remove1 addr (br_usr r)\<rparr>)
           | (Inr _, pool, r) \<Rightarrow> finish pool setup r))
     else
       (case wd_map_reserve_mem ev oks pool (bk_act_mem_sz pool) r of
          None \<Rightarrow> None
        | Some (addr, pool, oks, r) \<Rightarrow>
            if addr = 0 then Some (Inl WD_ENOMEM, pool, setup, r)
            else
              (case wd_pool_init ev oks (pool\<lparr>bk_usr_mem_start := addr\<rparr>) r of
                 None \<Rightarrow> None
               | Some (Inl _, pool, r) \<Rightarrow> (let (pool, r) = mempool_init_err pool r in Some (Inl WD_EINVAL, pool, setup, r))
               | Some (Inr _, pool, r) \<Rightarrow> finish pool (setup\<lparr>st_block_num := st_block_num (bk_setup pool)\<rparr>) r)))"

definition zero_blkpool :: "wd_mempool_setup \<Rightarrow> wd_blkpool" where
  "zero_blkpool setup = \<lparr>bk_free_blk_num = 0, bk_alloc_failures = 0, bk_cinfo = None, bk_blk_array = None, bk_total_blocks = 0,
     bk_free_bitmap = None, bk_bitmap_size = 0, bk_usr_mem_start = 0, bk_act_start = 0, bk_act_hd_sz = 0, bk_act_blk_sz = 0,
     bk_act_mem_sz = 0, bk_dev_id = 0, bk_setup = setup, bk_sva_mode = False, bk_hp_mempool = None, bk_hp_blkpool = None\<rparr>"

text \<open>The pool on huge pages. The total size is a product of two 32-bit numbers, computed in 32 bits.\<close>

definition wd_hugepage_pool_create ::
  "bmm_env \<Rightarrow> bool list \<Rightarrow> wd_ctx_h \<Rightarrow> wd_mempool_setup \<Rightarrow> bmm_res \<Rightarrow> (wd_blkpool option \<times> bmm_res) option" where
  "wd_hugepage_pool_create ev oks ctx setup r =
    (if \<not> fst (calloc_ok oks) then Some (None, r)
     else
       (case (cx_dev ctx, wd_parse_dev_id (cx_dev_path ctx)) of
          (None, _) \<Rightarrow> None
        | (Some _, Inl _) \<Rightarrow> Some (None, r)
        | (Some d, Inr dev_id) \<Rightarrow>
            (let pool = (zero_blkpool setup)\<lparr>bk_sva_mode := True, bk_dev_id := dev_id\<rparr> in
             case wd_mempool_create (be_hp ev) (be_numa_max ev) True (be_spin ev) (be_hp_oks ev)
                    (u32 (st_block_size setup * st_block_num setup)) (ud_numa_id d) (br_maps r) of
               None \<Rightarrow> None
             | Some (Inl _, maps) \<Rightarrow> Some (None, r\<lparr>br_maps := maps\<rparr>)
             | Some (Inr mp, maps) \<Rightarrow>
                 (case wd_blockpool_create (be_bp_oks ev) (be_spin ev) (Some mp) (st_block_size setup) (st_block_num setup) of
                    Some (Inl _, Some mp, _) \<Rightarrow> map_option (\<lambda>maps. (None, r\<lparr>br_maps := maps\<rparr>)) (wd_mempool_destroy (Some mp) maps)
                  | Some (Inr bp, Some mp, _) \<Rightarrow>
                      Some (Some (pool\<lparr>bk_hp_mempool := Some mp, bk_hp_blkpool := Some bp, bk_free_blk_num := st_block_num setup,
                                       bk_act_blk_sz := st_block_size setup\<rparr>), heap_add 1 (r\<lparr>br_maps := maps\<rparr>))
                  | _ \<Rightarrow> None))))"

text \<open>The pool (\<open>None\<close> for \<^verbatim>\<open>NULL\<close>), the caller's setup structure and the resources.\<close>

definition wd_mempool_alloc ::
  "bmm_env \<Rightarrow> wd_ctx_h option \<Rightarrow> wd_mempool_setup option \<Rightarrow> bmm_res \<Rightarrow> (wd_blkpool option \<times> wd_mempool_setup option \<times> bmm_res) option" where
  "wd_mempool_alloc ev h_ctx setup r =
    (case (h_ctx, setup) of
       (Some ctx, Some sp) \<Rightarrow>
         (case wd_is_sva h_ctx of
            Inl _ \<Rightarrow> Some (None, setup, r)
          | Inr True \<Rightarrow> map_option (\<lambda>(p, r). (p, setup, r)) (wd_hugepage_pool_create ev (be_oks ev) ctx sp r)
          | Inr False \<Rightarrow>
              (let (ok, oks) = calloc_ok (be_oks ev) in
               if \<not> ok \<or> be_spin ev \<noteq> 0 then Some (None, setup, r)
               else
                 (case wd_pool_pre_layout oks h_ctx (zero_blkpool sp) sp (heap_add 1 (r\<lparr>br_locks := br_locks r + 1\<rparr>)) of
                    None \<Rightarrow> None
                  | Some (Inl _, _, _, r) \<Rightarrow> Some (None, setup, heap_sub 1 (r\<lparr>br_locks := br_locks r - 1\<rparr>))
                  | Some (Inr _, pool, oks, r) \<Rightarrow>
                      (case wd_mempool_init ev oks ctx pool sp r of
                         None \<Rightarrow> None
                       | Some (Inl _, pool, sp, r) \<Rightarrow>
                           Some (None, Some sp, heap_sub (if bk_cinfo pool = None then 1 else 2) (r\<lparr>br_locks := br_locks r - 1\<rparr>))
                       | Some (Inr _, pool, sp, r) \<Rightarrow> Some (Some pool, Some sp, r)))))
     | _ \<Rightarrow> Some (None, setup, r))"

subsection \<open>Destroying a pool\<close>

definition wd_hugepage_pool_destroy :: "wd_blkpool \<Rightarrow> bmm_res \<Rightarrow> bmm_res option" where
  "wd_hugepage_pool_destroy p r =
    (case (bk_hp_mempool p, bk_hp_blkpool p) of
       (Some mp, bp) \<Rightarrow>
         (case wd_blockpool_destroy mp bp of
            None \<Rightarrow> None
          | Some mp \<Rightarrow> map_option (\<lambda>maps. heap_sub 1 (r\<lparr>br_maps := maps\<rparr>)) (wd_mempool_destroy (Some mp) (br_maps r)))
     | (None, None) \<Rightarrow> Some (heap_sub 1 r)
     | (None, Some _) \<Rightarrow> None)"

text \<open>The pool that is left (\<open>None\<close> when it was freed) and the resources.\<close>

definition wd_mempool_free :: "wd_ctx_h option \<Rightarrow> wd_blkpool option \<Rightarrow> bmm_res \<Rightarrow> (wd_blkpool option \<times> bmm_res) option" where
  "wd_mempool_free h_ctx pool r =
    (case (h_ctx, pool) of
       (Some _, Some p) \<Rightarrow>
         if bk_sva_mode p then map_option (\<lambda>r. (None, r)) (wd_hugepage_pool_destroy p r)
         else if bk_free_blk_num p \<noteq> st_block_num (bk_setup p) then Some (Some p, r)
         else
           (let r = (if mo_free (st_ops (bk_setup p)) then r\<lparr>br_usr := remove1 (bk_usr_mem_start p) (br_usr r)\<rparr> else r);
                r = (case bk_cinfo p of
                       None \<Rightarrow> r
                     | Some cinfo \<Rightarrow>
                         (let (_, r) = wd_pool_uninit p r; (cinfo, r) = wd_free_slice cinfo r in
                          heap_sub 1 (wd_unmap_reserve_mem (cf_ss_va cinfo) (cf_ss_mm_size cinfo) r))) in
            Some (None, heap_sub 1 (r\<lparr>br_locks := br_locks r - 1\<rparr>)))
     | _ \<Rightarrow> Some (pool, r))"

subsection \<open>Taking and returning blocks\<close>

definition wd_hugepage_blk_alloc :: "wd_blkpool \<Rightarrow> nat \<Rightarrow> (nat \<times> wd_blkpool) option" where
  "wd_hugepage_blk_alloc p sz =
    (if sz > bk_act_blk_sz p then Some (0, p)
     else
       (case wd_block_alloc (bk_hp_blkpool p) of
          None \<Rightarrow> None
        | Some (None, bp) \<Rightarrow> Some (0, p\<lparr>bk_hp_blkpool := bp, bk_alloc_failures := u32 (bk_alloc_failures p + 1)\<rparr>)
        | Some (Some addr, bp) \<Rightarrow>
            if addr = 0 then Some (0, p\<lparr>bk_hp_blkpool := bp, bk_alloc_failures := u32 (bk_alloc_failures p + 1)\<rparr>)
            else Some (addr, p\<lparr>bk_hp_blkpool := bp, bk_free_blk_num := sub32 (bk_free_blk_num p) 1\<rparr>)))"

definition wd_hugepage_blk_free :: "wd_blkpool \<Rightarrow> nat \<Rightarrow> wd_blkpool option" where
  "wd_hugepage_blk_free p buf =
    map_option (\<lambda>bp. p\<lparr>bk_hp_blkpool := bp, bk_free_blk_num := u32 (bk_free_blk_num p + 1)\<rparr>) (wd_block_free (bk_hp_blkpool p) buf)"

text \<open>
  The search of \<^verbatim>\<open>wd_find_contiguous_blocks\<close> from block \<open>i\<close> on: \<open>cnt\<close> free blocks in a row have been seen, the first at \<open>start\<close>; \<open>skip\<close>
  starts have been given up because the device addresses are not contiguous. The result is \<open>Inr\<close> of the start.
\<close>

function find_contiguous ::
  "8 word list option \<Rightarrow> wd_blk_hd list option \<Rightarrow> nat \<Rightarrow> nat \<Rightarrow> nat \<Rightarrow> nat \<Rightarrow> nat \<Rightarrow> nat \<Rightarrow> nat result option" where
  "find_contiguous bitmap hds tot req i cnt start skip =
    (if i \<ge> tot then Some (Inl WD_ENOMEM)
     else
       (case bitmap_test_bit bitmap i of
          None \<Rightarrow> None
        | Some False \<Rightarrow> find_contiguous bitmap hds tot req (i + 1) 0 start skip
        | Some True \<Rightarrow>
            (let start = (if cnt = 0 then i else start) in
             if cnt + 1 < req then find_contiguous bitmap hds tot req (i + 1) (cnt + 1) start skip
             else if req > 1 then
               (case hds of
                  None \<Rightarrow> None
                | Some hds \<Rightarrow>
                    (case (rd hds start, rd hds (start + req - 1)) of
                       (Some h, Some t) \<Rightarrow>
                         if sub64 (bh_dma t) (bh_dma h) \<noteq> sub64 (bh_blk t) (bh_blk h) then
                           if skip + 1 > MAX_SKIP_ATTEMPTS then Some (Inl WD_ENOMEM)
                           else find_contiguous bitmap (Some hds) tot req (start + 1) 0 start (skip + 1)
                         else Some (Inr start)
                     | _ \<Rightarrow> None))
             else Some (Inr start))))"
  by pat_completeness auto
termination
  by (relation "measures [\<lambda>(bitmap, hds, tot, req, i, cnt, start, skip). MAX_SKIP_ATTEMPTS + 1 - skip,
      \<lambda>(bitmap, hds, tot, req, i, cnt, start, skip). tot - i]") (auto simp: MAX_SKIP_ATTEMPTS_def)

declare find_contiguous.simps [simp del]

definition wd_find_contiguous_blocks :: "wd_blkpool \<Rightarrow> nat \<Rightarrow> nat result option" where
  "wd_find_contiguous_blocks p required_blocks =
    (if required_blocks = 0 \<or> required_blocks > bk_total_blocks p then Some (Inl WD_EINVAL)
     else find_contiguous (bk_free_bitmap p) (bk_blk_array p) (bk_total_blocks p) required_blocks 0 0 0 0)"

text \<open>One iteration of the loops that mark blocks as used and as free.\<close>

definition mark_blk ::
  "(8 word list \<Rightarrow> nat \<Rightarrow> 8 word list option) \<Rightarrow> (wd_blk_hd \<Rightarrow> wd_blk_hd) \<Rightarrow> nat \<Rightarrow> wd_blkpool \<Rightarrow> wd_blkpool option" where
  "mark_blk f g j p =
    (case bk_blk_array p of
       None \<Rightarrow> None
     | Some hds \<Rightarrow>
         (case (rd hds j, on_bitmap f (bk_free_bitmap p) j) of
            (Some h, Some bm) \<Rightarrow> Some (p\<lparr>bk_blk_array := Some (hds[j := g h]), bk_free_bitmap := bm\<rparr>)
          | _ \<Rightarrow> None))"

definition mark_blk_used :: "nat \<Rightarrow> wd_blkpool \<Rightarrow> wd_blkpool option" where
  "mark_blk_used = mark_blk bitmap_set_bit (\<lambda>h. h\<lparr>bh_tag := TAG_USED\<rparr>)"

definition mark_blk_free :: "nat \<Rightarrow> wd_blkpool \<Rightarrow> wd_blkpool option" where
  "mark_blk_free = mark_blk bitmap_clear_bit (\<lambda>h. h\<lparr>bh_tag := TAG_FREE, bh_num := 0\<rparr>)"

text \<open>The address of the buffer (0 for \<^verbatim>\<open>NULL\<close>) and the pool.\<close>

definition wd_mem_alloc :: "wd_blkpool option \<Rightarrow> nat \<Rightarrow> (nat \<times> wd_blkpool option) option" where
  "wd_mem_alloc pool sz =
    (case pool of
       None \<Rightarrow> Some (0, None)
     | Some p \<Rightarrow>
         if sz = 0 then Some (0, Some p)
         else if bk_sva_mode p then map_option (\<lambda>(a, p). (a, Some p)) (wd_hugepage_blk_alloc p sz)
         else if bk_act_blk_sz p = 0 then Some (0, Some p)
         else
           (let required_blocks = u32 (u64 (sz + bk_act_blk_sz p - 1) div bk_act_blk_sz p);
                fails = p\<lparr>bk_alloc_failures := u32 (bk_alloc_failures p + 1)\<rparr> in
            if required_blocks > bk_free_blk_num p then Some (0, Some fails)
            else
              (case wd_find_contiguous_blocks p required_blocks of
                 None \<Rightarrow> None
               | Some (Inl _) \<Rightarrow> Some (0, Some fails)
               | Some (Inr start_block) \<Rightarrow>
                   (case opt_fold mark_blk_used [start_block ..< start_block + required_blocks] p of
                      None \<Rightarrow> None
                    | Some p \<Rightarrow>
                        (case bk_blk_array p of
                           None \<Rightarrow> None
                         | Some hds \<Rightarrow>
                             (case rd hds start_block of
                                None \<Rightarrow> None
                              | Some h \<Rightarrow>
                                  Some (bh_blk h, Some (p\<lparr>bk_free_blk_num := sub32 (bk_free_blk_num p) required_blocks,
                                    bk_blk_array := Some (hds[start_block := h\<lparr>bh_num := required_blocks\<rparr>])\<rparr>))))))))"

definition wd_mem_free :: "wd_blkpool option \<Rightarrow> nat \<Rightarrow> wd_blkpool option option" where
  "wd_mem_free pool buf =
    (case pool of
       None \<Rightarrow> Some None
     | Some p \<Rightarrow>
         if buf = 0 then Some (Some p)
         else if bk_sva_mode p then map_option Some (wd_hugepage_blk_free p buf)
         else
           (let sz = u32 (bk_act_hd_sz p + bk_act_blk_sz p) in
            if sz = 0 \<or> buf < bk_act_start p then Some (Some p)
            else
              (let blk_idx = u32 ((buf - bk_act_start p) div sz) in
               if blk_idx \<ge> bk_total_blocks p then Some (Some p)
               else
                 (case bk_blk_array p of
                    None \<Rightarrow> None
                  | Some hds \<Rightarrow>
                      (case rd hds blk_idx of
                         None \<Rightarrow> None
                       | Some h \<Rightarrow>
                           map_option (\<lambda>p. Some (p\<lparr>bk_free_blk_num := u32 (bk_free_blk_num p + bh_num h)\<rparr>))
                             (opt_fold mark_blk_free [blk_idx ..< blk_idx + bh_num h] p))))))"

text \<open>The device address of a buffer, 0 for \<^verbatim>\<open>NULL\<close>.\<close>

definition wd_mem_map :: "wd_blkpool option \<Rightarrow> nat \<Rightarrow> nat \<Rightarrow> nat option" where
  "wd_mem_map pool buf sz =
    (case pool of
       None \<Rightarrow> Some 0
     | Some p \<Rightarrow>
         if buf = 0 then Some 0
         else if bk_sva_mode p then Some buf
         else if sz = 0 \<or> buf < bk_act_start p then Some 0
         else
           (let blk_sz = u32 (bk_act_hd_sz p + bk_act_blk_sz p); blk_idx = (buf - bk_act_start p) div blk_sz in
            if blk_sz = 0 then None
            else if blk_idx \<ge> bk_total_blocks p then Some 0
            else
              (case bk_blk_array p of
                 None \<Rightarrow> None
               | Some hds \<Rightarrow>
                   map_option (\<lambda>h. if bh_tag h \<noteq> TAG_USED \<or> buf < bh_blk h then 0 else u64 (bh_dma h + (buf - bh_blk h)))
                     (rd hds blk_idx))))"

definition wd_get_free_num :: "wd_blkpool option \<Rightarrow> nat result" where
  "wd_get_free_num pool = (case pool of None \<Rightarrow> Inl WD_EINVAL | Some p \<Rightarrow> Inr (bk_free_blk_num p))"

definition wd_get_fail_num :: "wd_blkpool option \<Rightarrow> nat result" where
  "wd_get_fail_num pool = (case pool of None \<Rightarrow> Inl WD_EINVAL | Some p \<Rightarrow> Inr (bk_alloc_failures p))"

definition wd_get_bufsize :: "wd_blkpool option \<Rightarrow> nat" where
  "wd_get_bufsize pool = (case pool of None \<Rightarrow> 0 | Some p \<Rightarrow> bk_act_blk_sz p)"

definition wd_get_dev_id :: "wd_blkpool option \<Rightarrow> nat" where
  "wd_get_dev_id pool = (case pool of None \<Rightarrow> 0 | Some p \<Rightarrow> bk_dev_id p)"

subsection \<open>The bitmap\<close>

definition byte_get :: "8 word list \<Rightarrow> nat \<Rightarrow> bool" where
  "byte_get bm i \<longleftrightarrow> bit (bm ! (i div 8)) (i mod 8)"

abbreviation byte_cap :: "8 word list \<Rightarrow> nat" where
  "byte_cap bm \<equiv> 8 * length bm"

lemma div_less_byte_cap: "i div 8 < length bm \<longleftrightarrow> i < byte_cap bm"
  by (auto simp: div_less_iff_less_mult mult.commute)

lemma byte_set_get:
  assumes "i < byte_cap bm"
  shows "byte_get (bm[i div 8 := bm ! (i div 8) OR 2 ^ (i mod 8)]) j \<longleftrightarrow> j = i \<or> byte_get bm j"
proof (cases "j div 8 = i div 8")
  case True
  have "j = i \<longleftrightarrow> j mod 8 = i mod 8" using True by (metis div_mult_mod_eq)
  then show ?thesis using True assms div_less_byte_cap [of i bm] by (auto simp: byte_get_def bit_simps)
next
  case False
  then show ?thesis by (auto simp: byte_get_def)
qed

lemma byte_clr_get:
  assumes "i < byte_cap bm"
  shows "byte_get (bm[i div 8 := bm ! (i div 8) AND NOT (2 ^ (i mod 8))]) j \<longleftrightarrow> j \<noteq> i \<and> byte_get bm j"
proof (cases "j div 8 = i div 8")
  case True
  have "j = i \<longleftrightarrow> j mod 8 = i mod 8" using True by (metis div_mult_mod_eq)
  then show ?thesis using True assms div_less_byte_cap [of i bm] by (auto simp: byte_get_def bit_simps)
next
  case False
  then show ?thesis by (auto simp: byte_get_def)
qed

lemma bitmap_set_bit_eq:
  "bitmap_set_bit bm i = (if i < byte_cap bm then Some (bm[i div 8 := bm ! (i div 8) OR 2 ^ (i mod 8)]) else None)"
  using div_less_byte_cap [of i bm] by (auto simp: bitmap_set_bit_def rd_def)

lemma bitmap_clear_bit_eq:
  "bitmap_clear_bit bm i = (if i < byte_cap bm then Some (bm[i div 8 := bm ! (i div 8) AND NOT (2 ^ (i mod 8))]) else None)"
  using div_less_byte_cap [of i bm] by (auto simp: bitmap_clear_bit_def rd_def)

lemma byte_ext:
  assumes "length a = length b" and "\<And>j. j < byte_cap a \<Longrightarrow> byte_get a j = byte_get b j"
  shows "a = b"
proof (rule nth_equalityI [OF assms(1)])
  fix k assume k: "k < length a"
  show "a ! k = b ! k"
  proof (rule bit_word_eqI)
    fix n :: nat assume n: "n < LENGTH(8)"
    have "8 * k + n < byte_cap a" using k n by simp
    from assms(2) [OF this] n show "bit (a ! k) n = bit (b ! k) n" by (simp add: byte_get_def)
  qed
qed

interpretation bytes: bit_store byte_get bitmap_set_bit bitmap_clear_bit byte_cap length
  by unfold_locales (auto simp: bitmap_set_bit_eq bitmap_clear_bit_eq byte_set_get byte_clr_get intro: byte_ext split: if_splits)

lemma bitmap_test_bit_eq: "i < byte_cap bm \<Longrightarrow> bitmap_test_bit (Some bm) i = Some (\<not> byte_get bm i)"
  using div_less_byte_cap [of i bm] by (simp add: bitmap_test_bit_def byte_get_def rd_def bit_iff_odd_drop_bit)

subsection \<open>The search for a run of free blocks\<close>

abbreviation free_run :: "8 word list \<Rightarrow> nat \<Rightarrow> nat \<Rightarrow> bool" where
  "free_run bm s n \<equiv> \<forall>j \<in> {s ..< s + n}. \<not> byte_get bm j"

definition ends_contiguous :: "wd_blk_hd list \<Rightarrow> nat \<Rightarrow> nat \<Rightarrow> bool" where
  "ends_contiguous hds s n \<longleftrightarrow>
     sub64 (bh_dma (hds ! (s + n - 1))) (bh_dma (hds ! s)) = sub64 (bh_blk (hds ! (s + n - 1))) (bh_blk (hds ! s))"

lemma find_contiguous_step:
  assumes "i < tot" and "tot \<le> byte_cap bm" and "length hs = tot" and "cnt < req" and "cnt = 0 \<or> start + cnt = i"
  shows "find_contiguous (Some bm) (Some hs) tot req i cnt start skip =
    (if byte_get bm i then find_contiguous (Some bm) (Some hs) tot req (i + 1) 0 start skip
     else let st = if cnt = 0 then i else start in
       if cnt + 1 < req then find_contiguous (Some bm) (Some hs) tot req (i + 1) (cnt + 1) st skip
       else if 1 < req \<and> \<not> ends_contiguous hs st req then
         if skip + 1 > MAX_SKIP_ATTEMPTS then Some (Inl WD_ENOMEM)
         else find_contiguous (Some bm) (Some hs) tot req (st + 1) 0 st (skip + 1)
       else Some (Inr st))"
proof -
  have "bitmap_test_bit (Some bm) i = Some (\<not> byte_get bm i)" using assms(1,2) by (simp add: bitmap_test_bit_eq)
  then show ?thesis using assms
    by (cases "cnt = 0") (auto simp: find_contiguous.simps [of "Some bm" "Some hs" tot req i] ends_contiguous_def Let_def)
qed

text \<open>
  The search always has an outcome. A start that is found begins a run of free blocks whose ends are contiguous for the
  device; when every such run is contiguous, the search fails only if there is no run of free blocks.
\<close>

definition search_result :: "8 word list \<Rightarrow> wd_blk_hd list \<Rightarrow> nat \<Rightarrow> nat \<Rightarrow> nat result \<Rightarrow> bool" where
  "search_result bm hs tot req r \<longleftrightarrow>
    (case r of
       Inl e \<Rightarrow> e = WD_ENOMEM \<and>
         ((\<forall>s. s + req \<le> tot \<longrightarrow> ends_contiguous hs s req) \<longrightarrow> \<not> (\<exists>s. s + req \<le> tot \<and> free_run bm s req))
     | Inr s \<Rightarrow> s + req \<le> tot \<and> free_run bm s req \<and> (1 < req \<longrightarrow> ends_contiguous hs s req))"

text \<open>No run of the wanted length ends before \<open>i\<close>, and at most \<open>cnt\<close> blocks in front of \<open>i\<close> are free.\<close>

definition scan_inv :: "8 word list \<Rightarrow> nat \<Rightarrow> nat \<Rightarrow> nat \<Rightarrow> bool" where
  "scan_inv bm req i cnt \<longleftrightarrow>
    (\<forall>s. free_run bm s req \<longrightarrow> i < s + req) \<and> (\<forall>s \<le> i. free_run bm s (i - s) \<longrightarrow> i - s \<le> cnt)"

lemma scan_inv_used:
  assumes "scan_inv bm req i cnt" and "byte_get bm i" and "0 < req"
  shows "scan_inv bm req (i + 1) 0"
  unfolding scan_inv_def
proof (intro conjI allI impI)
  fix s assume r: "free_run bm s req"
  then have "i < s + req" using assms(1) by (simp add: scan_inv_def)
  moreover have "i \<notin> {s ..< s + req}" using r assms(2) by blast
  ultimately show "i + 1 < s + req" using assms(3) by auto
next
  fix s assume "s \<le> i + 1" and r: "free_run bm s (i + 1 - s)"
  then have "i \<notin> {s ..< s + (i + 1 - s)}" using assms(2) by blast
  then show "i + 1 - s \<le> 0" by auto
qed

lemma scan_inv_short:
  assumes "scan_inv bm req i cnt" and "free_run bm s n" and "i \<le> s + n"
  shows "i - s \<le> cnt"
proof (cases "s \<le> i")
  case True
  have "free_run bm s (i - s)" using assms(2,3) by auto
  then show ?thesis using assms(1) True by (simp add: scan_inv_def)
qed simp

lemma scan_inv_free:
  assumes "scan_inv bm req i cnt" and "cnt + 1 < req"
  shows "scan_inv bm req (i + 1) (cnt + 1)"
  unfolding scan_inv_def
proof (intro conjI allI impI)
  fix s assume r: "free_run bm s req"
  then have "i < s + req" using assms(1) by (simp add: scan_inv_def)
  then show "i + 1 < s + req" using scan_inv_short [OF assms(1) r] assms(2) by linarith
next
  fix s assume "s \<le> i + 1" and r: "free_run bm s (i + 1 - s)"
  then show "i + 1 - s \<le> cnt + 1" using scan_inv_short [OF assms(1) r] by linarith
qed

lemma find_contiguous_spec:
  assumes "tot \<le> byte_cap bm" and "length hs = tot" and "cnt < req"
    and "cnt = 0 \<or> start + cnt = i \<and> free_run bm start cnt"
    and "(\<forall>s. s + req \<le> tot \<longrightarrow> ends_contiguous hs s req) \<longrightarrow> scan_inv bm req i cnt"
  shows "\<exists>r. find_contiguous (Some bm) (Some hs) tot req i cnt start skip = Some r \<and> search_result bm hs tot req r"
  using assms
proof (induction "Some bm" "Some hs" tot req i cnt start skip rule: find_contiguous.induct)
  case (1 tot req i cnt start skip)
  note P = "1.prems"
  show ?case
  proof (cases "i < tot")
    case False
    then show ?thesis using P(5) by (auto simp: find_contiguous.simps [of "Some bm"] search_result_def scan_inv_def)
  next
    case i: True
    have t: "bitmap_test_bit (Some bm) i = Some (\<not> byte_get bm i)" using i P(1) by (simp add: bitmap_test_bit_eq)
    have ni: "\<not> tot \<le> i" using i by simp
    have st: "cnt = 0 \<or> start + cnt = i" using P(4) by blast
    note step = find_contiguous_step [OF i P(1-3) st, of skip]
    let ?st = "if cnt = 0 then i else start"
    have run: "?st + cnt = i" "\<not> byte_get bm i \<Longrightarrow> free_run bm ?st (cnt + 1)" using P(4) by (auto simp: less_Suc_eq)
    consider (used) "byte_get bm i" | (short) "\<not> byte_get bm i" "cnt + 1 < req"
      | (skip) "\<not> byte_get bm i" "cnt + 1 = req" "1 < req" "\<not> ends_contiguous hs ?st req"
      | (found) "\<not> byte_get bm i" "cnt + 1 = req" "1 < req \<longrightarrow> ends_contiguous hs ?st req" using P(3) by linarith
    then show ?thesis
    proof cases
      case used
      have "(\<forall>s. s + req \<le> tot \<longrightarrow> ends_contiguous hs s req) \<longrightarrow> scan_inv bm req (i + 1) 0"
        using P(3,5) scan_inv_used [OF _ used] by auto
      from "1.hyps"(3) [OF ni t _ P(1,2) _ _ this] used step P(3) show ?thesis by simp
    next
      case short
      have "(\<forall>s. s + req \<le> tot \<longrightarrow> ends_contiguous hs s req) \<longrightarrow> scan_inv bm req (i + 1) (cnt + 1)"
        using P(5) scan_inv_free [OF _ short(2)] by blast
      from "1.hyps"(1) [OF ni t _ refl short(2) P(1,2) short(2) _ this] short step run show ?thesis by (simp add: Let_def)
    next
      case skip
      have nu: "\<not> (\<forall>s. s + req \<le> tot \<longrightarrow> ends_contiguous hs s req)"
        using skip(2,4) run(1) i by (auto intro!: exI [of _ ?st])
      show ?thesis
      proof (cases "skip + 1 > MAX_SKIP_ATTEMPTS")
        case True
        then show ?thesis using step skip nu by (auto simp: search_result_def Let_def)
      next
        case False
        have rd: "rd hs ?st = Some (hs ! ?st)" "rd hs (?st + req - 1) = Some (hs ! (?st + req - 1))"
          using run(1) skip(2) i P(2) by auto
        have nsk: "\<not> cnt + 1 < req" using skip(2) by simp
        have r: "\<exists>r. find_contiguous (Some bm) (Some hs) tot req (?st + 1) 0 ?st (skip + 1) = Some r \<and> search_result bm hs tot req r"
          by (rule "1.hyps"(2) [OF ni t _ refl nsk skip(3) refl refl rd _ False P(1,2)])
            (use skip nu in \<open>auto simp: ends_contiguous_def\<close>)
        have "find_contiguous (Some bm) (Some hs) tot req i cnt start skip = find_contiguous (Some bm) (Some hs) tot req (?st + 1) 0 ?st (skip + 1)"
          unfolding step using skip False by (simp add: Let_def)
        with r show ?thesis by simp
      qed
    next
      case found
      then have "find_contiguous (Some bm) (Some hs) tot req i cnt start skip = Some (Inr ?st)" using step by auto
      moreover have "search_result bm hs tot req (Inr ?st)"
        using found run i by (auto simp: search_result_def)
      ultimately show ?thesis by blast
    qed
  qed
qed

subsection \<open>Marking blocks\<close>

lemma mark_blk_fold:
  assumes "bk_blk_array p = Some hs" and "bk_free_bitmap p = Some bm" and "opt_fold (\<lambda>i s. f s i) js bm = Some bm'"
    and "\<forall>j \<in> set js. j < length hs" and "distinct js"
  shows "\<exists>hs'. opt_fold (mark_blk f g) js p = Some (p\<lparr>bk_blk_array := Some hs', bk_free_bitmap := Some bm'\<rparr>) \<and>
    length hs' = length hs \<and> (\<forall>j < length hs. hs' ! j = (if j \<in> set js then g (hs ! j) else hs ! j))"
  using assms
proof (induction js arbitrary: p hs bm)
  case Nil
  then have "p = p\<lparr>bk_blk_array := Some hs, bk_free_bitmap := Some bm'\<rparr>" by (cases p) simp
  then show ?case by (intro exI [of _ hs]) simp
next
  case (Cons i js)
  from Cons.prems(3) obtain b where b: "f bm i = Some b" "opt_fold (\<lambda>i s. f s i) js b = Some bm'" by (auto split: option.splits)
  let ?p = "p\<lparr>bk_blk_array := Some (hs[i := g (hs ! i)]), bk_free_bitmap := Some b\<rparr>"
  have step: "mark_blk f g i p = Some ?p" using Cons.prems b by (simp add: mark_blk_def on_bitmap_def)
  have "\<exists>hs'. opt_fold (mark_blk f g) js ?p = Some (?p\<lparr>bk_blk_array := Some hs', bk_free_bitmap := Some bm'\<rparr>) \<and>
    length hs' = length (hs[i := g (hs ! i)]) \<and> (\<forall>j < length (hs[i := g (hs ! i)]). hs' ! j = (if j \<in> set js then g (hs[i := g (hs ! i)] ! j) else hs[i := g (hs ! i)] ! j))"
    by (rule Cons.IH) (use Cons.prems b in simp_all)
  then show ?case using step Cons.prems(4,5) by (auto simp: nth_list_update)
qed

subsection \<open>The invariant of a pool\<close>

abbreviation blk_stride :: "wd_blkpool \<Rightarrow> nat" where
  "blk_stride p \<equiv> bk_act_hd_sz p + bk_act_blk_sz p"

text \<open>The size of blocks and the addresses stay inside of their types; the fields that no operation changes.\<close>

definition pool_shape :: "wd_blkpool \<Rightarrow> bool" where
  "pool_shape p \<longleftrightarrow> \<not> bk_sva_mode p \<and> bk_total_blocks p < 2 ^ 32 \<and> 0 < bk_act_blk_sz p \<and> blk_stride p < 2 ^ 32 \<and>
     0 < bk_act_start p \<and> bk_act_start p + bk_total_blocks p * blk_stride p < 2 ^ 64"

text \<open>
  \<open>bad\<close> are the blocks that were found unusable when the pool was made. Every usable header has the address of its block and
  the tag that the bitmap tells. A header with a block count starts a run of used blocks, the other headers of which have
  count 0; every used block belongs to a run. The free blocks are counted.
\<close>

definition pool_ok :: "nat set \<Rightarrow> wd_blkpool \<Rightarrow> wd_blk_hd list \<Rightarrow> 8 word list \<Rightarrow> bool" where
  "pool_ok bad p hs bm \<longleftrightarrow> pool_shape p \<and> bk_blk_array p = Some hs \<and> bk_free_bitmap p = Some bm \<and>
     length hs = bk_total_blocks p \<and> bk_total_blocks p \<le> byte_cap bm \<and> bad \<subseteq> {..< bk_total_blocks p} \<and>
     (\<forall>i \<in> bad. byte_get bm i) \<and>
     (\<forall>i < length hs. i \<notin> bad \<longrightarrow> bh_blk (hs ! i) = bk_act_start p + i * blk_stride p \<and>
        bh_tag (hs ! i) = (if byte_get bm i then TAG_USED else TAG_FREE)) \<and>
     (\<forall>i < length hs. i \<notin> bad \<longrightarrow> i + bh_num (hs ! i) \<le> length hs \<and>
        (\<forall>j \<in> {i ..< i + bh_num (hs ! i)}. j \<notin> bad \<and> byte_get bm j \<and> (j \<noteq> i \<longrightarrow> bh_num (hs ! j) = 0))) \<and>
     (\<forall>j < length hs. j \<notin> bad \<and> byte_get bm j \<longrightarrow> (\<exists>i \<le> j. i \<notin> bad \<and> j < i + bh_num (hs ! i))) \<and>
     bk_free_blk_num p = card {j. j < length hs \<and> \<not> byte_get bm j}"

text \<open>The runs that are in use: their first block and their number of blocks.\<close>

definition live_runs :: "nat set \<Rightarrow> wd_blk_hd list \<Rightarrow> (nat \<times> nat) set" where
  "live_runs bad hs = {(i, bh_num (hs ! i)) | i. i < length hs \<and> i \<notin> bad \<and> 0 < bh_num (hs ! i)}"

lemma live_runs_disjoint:
  assumes "pool_ok bad p hs bm" and "(i, n) \<in> live_runs bad hs" and "(k, m) \<in> live_runs bad hs" and "(i, n) \<noteq> (k, m)"
  shows "{i ..< i + n} \<inter> {k ..< k + m} = {}"
proof -
  have sep: "k \<notin> {i ..< i + n}" if "(i, n) \<in> live_runs bad hs" "(k, m) \<in> live_runs bad hs" "i \<noteq> k" for i n k m
  proof
    assume "k \<in> {i ..< i + n}"
    moreover have "i < length hs" "i \<notin> bad" "n = bh_num (hs ! i)" "0 < bh_num (hs ! k)" using that by (auto simp: live_runs_def)
    ultimately show False using assms(1) that(3) unfolding pool_ok_def by (metis less_numeral_extra(3))
  qed
  have "i \<noteq> k" using assms(2-4) by (auto simp: live_runs_def)
  then show ?thesis using sep [OF assms(2,3)] sep [OF assms(3,2)] by fastforce
qed

lemma free_num_0:
  assumes "pool_ok bad p hs bm" and "j < length hs" and "\<not> byte_get bm j"
  shows "j \<notin> bad" "bh_num (hs ! j) = 0"
proof -
  show nb: "j \<notin> bad" using assms(1,3) by (auto simp: pool_ok_def)
  show "bh_num (hs ! j) = 0"
  proof (rule ccontr)
    assume "bh_num (hs ! j) \<noteq> 0"
    then have "j \<in> {j ..< j + bh_num (hs ! j)}" by simp
    then show False using assms nb unfolding pool_ok_def by blast
  qed
qed

lemma required_blocks_bounds:
  assumes "0 < sz" and "sz < 2 ^ 32" and "0 < blk" and "blk < 2 ^ 32"
  shows "u32 (u64 (sz + blk - 1) div blk) = (sz + blk - 1) div blk" "0 < (sz + blk - 1) div blk" "sz \<le> (sz + blk - 1) div blk * blk"
proof -
  have "u64 (sz + blk - 1) = sz + blk - 1" using assms by (simp add: u64_small)
  moreover have "(sz + blk - 1) div blk \<le> sz"
  proof (rule less_Suc_eq_le [THEN iffD1])
    have "sz + blk - 1 < Suc sz * blk" using assms(1,3) by (cases sz; cases blk) (auto simp: algebra_simps)
    then show "(sz + blk - 1) div blk < Suc sz" using assms(3) by (simp add: less_mult_imp_div_less)
  qed
  ultimately show "u32 (u64 (sz + blk - 1) div blk) = (sz + blk - 1) div blk" using assms(2) by (simp add: u32_small)
  show "0 < (sz + blk - 1) div blk" using assms by (simp add: div_greater_zero_iff)
  have "sz + blk - 1 = (sz + blk - 1) div blk * blk + (sz + blk - 1) mod blk" by simp
  moreover have "(sz + blk - 1) mod blk < blk" using assms(3) by simp
  ultimately show "sz \<le> (sz + blk - 1) div blk * blk" by linarith
qed

subsection \<open>Taking and returning a run\<close>

lemma pool_okD:
  assumes "pool_ok bad p hs bm"
  shows "pool_shape p" "bk_blk_array p = Some hs" "bk_free_bitmap p = Some bm" "length hs = bk_total_blocks p"
    "bk_total_blocks p \<le> byte_cap bm" "bad \<subseteq> {..< bk_total_blocks p}" "\<And>i. i \<in> bad \<Longrightarrow> byte_get bm i"
    "\<And>i. i < length hs \<Longrightarrow> i \<notin> bad \<Longrightarrow> bh_blk (hs ! i) = bk_act_start p + i * blk_stride p"
    "\<And>i. i < length hs \<Longrightarrow> i \<notin> bad \<Longrightarrow> bh_tag (hs ! i) = (if byte_get bm i then TAG_USED else TAG_FREE)"
    "\<And>i. i < length hs \<Longrightarrow> i \<notin> bad \<Longrightarrow> i + bh_num (hs ! i) \<le> length hs"
    "\<And>i j. i < length hs \<Longrightarrow> i \<notin> bad \<Longrightarrow> j \<in> {i ..< i + bh_num (hs ! i)} \<Longrightarrow>
       j \<notin> bad \<and> byte_get bm j \<and> (j \<noteq> i \<longrightarrow> bh_num (hs ! j) = 0)"
    "\<And>j. j < length hs \<Longrightarrow> j \<notin> bad \<Longrightarrow> byte_get bm j \<Longrightarrow> \<exists>i \<le> j. i \<notin> bad \<and> j < i + bh_num (hs ! i)"
    "bk_free_blk_num p = card {j. j < length hs \<and> \<not> byte_get bm j}"
proof -
  note A = assms [unfolded pool_ok_def]
  show "pool_shape p" "bk_blk_array p = Some hs" "bk_free_bitmap p = Some bm" "length hs = bk_total_blocks p"
    "bk_total_blocks p \<le> byte_cap bm" "bad \<subseteq> {..< bk_total_blocks p}"
    "bk_free_blk_num p = card {j. j < length hs \<and> \<not> byte_get bm j}"
    by (insert A, elim conjE, assumption)+
  show "byte_get bm i" if "i \<in> bad" for i using A that by blast
  show "bh_blk (hs ! i) = bk_act_start p + i * blk_stride p" "bh_tag (hs ! i) = (if byte_get bm i then TAG_USED else TAG_FREE)"
    "i + bh_num (hs ! i) \<le> length hs" if "i < length hs" "i \<notin> bad" for i using A that by blast+
  show "j \<notin> bad \<and> byte_get bm j \<and> (j \<noteq> i \<longrightarrow> bh_num (hs ! j) = 0)"
    if "i < length hs" "i \<notin> bad" "j \<in> {i ..< i + bh_num (hs ! i)}" for i j using A that by blast
  show "\<exists>i \<le> j. i \<notin> bad \<and> j < i + bh_num (hs ! i)" if "j < length hs" "j \<notin> bad" "byte_get bm j" for j using A that by blast
qed

lemma pool_okI:
  assumes "pool_shape p" "bk_blk_array p = Some hs" "bk_free_bitmap p = Some bm" "length hs = bk_total_blocks p"
    "bk_total_blocks p \<le> byte_cap bm" "bad \<subseteq> {..< bk_total_blocks p}" "\<And>i. i \<in> bad \<Longrightarrow> byte_get bm i"
    "\<And>i. i < length hs \<Longrightarrow> i \<notin> bad \<Longrightarrow> bh_blk (hs ! i) = bk_act_start p + i * blk_stride p"
    "\<And>i. i < length hs \<Longrightarrow> i \<notin> bad \<Longrightarrow> bh_tag (hs ! i) = (if byte_get bm i then TAG_USED else TAG_FREE)"
    "\<And>i. i < length hs \<Longrightarrow> i \<notin> bad \<Longrightarrow> i + bh_num (hs ! i) \<le> length hs"
    "\<And>i j. i < length hs \<Longrightarrow> i \<notin> bad \<Longrightarrow> j \<in> {i ..< i + bh_num (hs ! i)} \<Longrightarrow>
       j \<notin> bad \<and> byte_get bm j \<and> (j \<noteq> i \<longrightarrow> bh_num (hs ! j) = 0)"
    "\<And>j. j < length hs \<Longrightarrow> j \<notin> bad \<Longrightarrow> byte_get bm j \<Longrightarrow> \<exists>i \<le> j. i \<notin> bad \<and> j < i + bh_num (hs ! i)"
    "bk_free_blk_num p = card {j. j < length hs \<and> \<not> byte_get bm j}"
  shows "pool_ok bad p hs bm"
  unfolding pool_ok_def using assms by (intro conjI allI impI ballI) blast+

lemma card_free_run:
  assumes "s + n \<le> len" and "\<forall>j \<in> {s ..< s + n}. P j"
  shows "card {j. j < len \<and> j \<notin> {s ..< s + n} \<and> P j} + n = card {j. j < len \<and> P j}"
proof -
  have "{j. j < len \<and> P j} = {j. j < len \<and> j \<notin> {s ..< s + n} \<and> P j} \<union> {s ..< s + n}" using assms by auto
  then have "card {j. j < len \<and> P j} = card {j. j < len \<and> j \<notin> {s ..< s + n} \<and> P j} + card {s ..< s + n}"
    by (simp add: card_Un_disjoint disjoint_iff)
  then show ?thesis by simp
qed

lemma take_run:
  assumes ok: "pool_ok bad p hs bm" and run: "free_run bm s n" "s + n \<le> length hs" "0 < n"
    and len: "length hs' = length hs" "length bm' = length bm"
    and hs': "\<And>j. j < length hs \<Longrightarrow> hs' ! j =
      (if j = s then (hs ! j)\<lparr>bh_tag := TAG_USED, bh_num := n\<rparr>
       else if j \<in> {s ..< s + n} then (hs ! j)\<lparr>bh_tag := TAG_USED\<rparr> else hs ! j)"
    and bm': "\<And>j. j < byte_cap bm \<Longrightarrow> byte_get bm' j \<longleftrightarrow> j \<in> {s ..< s + n} \<or> byte_get bm j"
  shows "pool_ok bad (p\<lparr>bk_blk_array := Some hs', bk_free_bitmap := Some bm', bk_free_blk_num := bk_free_blk_num p - n\<rparr>) hs' bm'"
    and "live_runs bad hs' = insert (s, n) (live_runs bad hs)"
proof -
  note D = pool_okD [OF ok]
  have fresh: "j \<notin> bad" "bh_num (hs ! j) = 0" if "j \<in> {s ..< s + n}" for j
    using free_num_0 [OF ok, of j] run that by auto
  have cap: "j < length hs \<Longrightarrow> j < byte_cap bm" for j using D(4,5) by simp
  have num: "j < length hs \<Longrightarrow> bh_num (hs' ! j) = (if j = s then n else bh_num (hs ! j))" for j using hs' [of j] by auto
  have apart: "j \<notin> {s ..< s + n}" if "i < length hs" "i \<notin> bad" "j \<in> {i ..< i + bh_num (hs ! i)}" for i j
    using D(11) [OF that] run by blast
  show "pool_ok bad (p\<lparr>bk_blk_array := Some hs', bk_free_bitmap := Some bm', bk_free_blk_num := bk_free_blk_num p - n\<rparr>) hs' bm'"
  proof (rule pool_okI)
    show "byte_get bm' i" if "i \<in> bad" for i using bm' [of i] D(4-7) that by (metis cap lessThan_iff subsetD)
    show "bh_tag (hs' ! i) = (if byte_get bm' i then TAG_USED else TAG_FREE)" if "i < length hs'" "i \<notin> bad" for i
      using hs' [of i] bm' [OF cap, of i] D(9) [of i] that len run(3) by auto
    show "i + bh_num (hs' ! i) \<le> length hs'" if "i < length hs'" "i \<notin> bad" for i
      using D(10) [of i] num [of i] that len run by auto
    show "j \<notin> bad \<and> byte_get bm' j \<and> (j \<noteq> i \<longrightarrow> bh_num (hs' ! j) = 0)"
      if "i < length hs'" "i \<notin> bad" "j \<in> {i ..< i + bh_num (hs' ! i)}" for i j
    proof (cases "i = s")
      case True
      then show ?thesis using that num [of i] num [of j] fresh [of j] bm' [OF cap, of j] run len by auto
    next
      case False
      then have j: "j \<in> {i ..< i + bh_num (hs ! i)}" "i < length hs" using that num [of i] len by simp_all
      have "j < length hs" using D(10) [OF j(2) that(2)] j by simp
      then show ?thesis using D(11) [OF j(2) that(2) j(1)] apart [OF j(2) that(2) j(1)] num [of j] bm' [OF cap, of j] run(3) by auto
    qed
    show "\<exists>i \<le> j. i \<notin> bad \<and> j < i + bh_num (hs' ! i)" if "j < length hs'" "j \<notin> bad" "byte_get bm' j" for j
    proof (cases "j \<in> {s ..< s + n}")
      case True
      then show ?thesis using num [of s] fresh [of s] run by (intro exI [of _ s]) auto
    next
      case False
      then have "byte_get bm j" using bm' [OF cap, of j] that len by auto
      then have "\<exists>i \<le> j. i \<notin> bad \<and> j < i + bh_num (hs ! i)" using D(12) [of j] that(1,2) len(1) by auto
      then obtain i where i: "i \<le> j" "i \<notin> bad" "j < i + bh_num (hs ! i)" by blast
      then have "i \<noteq> s" using fresh [of s] run by auto
      then show ?thesis using i num [of i] that len by (intro exI [of _ i]) auto
    qed
    have "{j. j < length hs \<and> j \<notin> {s ..< s + n} \<and> \<not> byte_get bm j} = {j. j < length hs' \<and> \<not> byte_get bm' j}"
      using bm' [OF cap] len by auto
    with card_free_run [OF run(2), of "\<lambda>j. \<not> byte_get bm j"] run(1) D(13)
    show "bk_free_blk_num (p\<lparr>bk_blk_array := Some hs', bk_free_bitmap := Some bm', bk_free_blk_num := bk_free_blk_num p - n\<rparr>) =
      card {j. j < length hs' \<and> \<not> byte_get bm' j}" by simp
    show "bh_blk (hs' ! i) = bk_act_start (p\<lparr>bk_blk_array := Some hs', bk_free_bitmap := Some bm', bk_free_blk_num := bk_free_blk_num p - n\<rparr>) +
      i * blk_stride (p\<lparr>bk_blk_array := Some hs', bk_free_bitmap := Some bm', bk_free_blk_num := bk_free_blk_num p - n\<rparr>)"
      if "i < length hs'" "i \<notin> bad" for i using D(8) [of i] hs' [of i] that len(1) by auto
  qed (use D(1,4,5,6) len in \<open>simp_all add: pool_shape_def\<close>)
  show "live_runs bad hs' = insert (s, n) (live_runs bad hs)"
    unfolding live_runs_def using num fresh run len by (auto split: if_splits)
qed

lemma give_run:
  assumes ok: "pool_ok bad p hs bm" and live: "(s, n) \<in> live_runs bad hs"
    and len: "length hs' = length hs" "length bm' = length bm"
    and hs': "\<And>j. j < length hs \<Longrightarrow> hs' ! j = (if j \<in> {s ..< s + n} then (hs ! j)\<lparr>bh_tag := TAG_FREE, bh_num := 0\<rparr> else hs ! j)"
    and bm': "\<And>j. j < byte_cap bm \<Longrightarrow> byte_get bm' j \<longleftrightarrow> j \<notin> {s ..< s + n} \<and> byte_get bm j"
  shows "pool_ok bad (p\<lparr>bk_blk_array := Some hs', bk_free_bitmap := Some bm', bk_free_blk_num := bk_free_blk_num p + n\<rparr>) hs' bm'"
    and "live_runs bad hs' = live_runs bad hs - {(s, n)}"
proof -
  note D = pool_okD [OF ok]
  have s: "s < length hs" "s \<notin> bad" "n = bh_num (hs ! s)" "0 < n" using live by (auto simp: live_runs_def)
  have sn: "s + n \<le> length hs" using D(10) [OF s(1,2)] s(3) by simp
  have run: "j \<notin> bad \<and> byte_get bm j \<and> (j \<noteq> s \<longrightarrow> bh_num (hs ! j) = 0)" if "j \<in> {s ..< s + n}" for j
    using D(11) [OF s(1,2)] that s(3) by blast
  have cap: "j < length hs \<Longrightarrow> j < byte_cap bm" for j using D(4,5) by simp
  have num: "j < length hs \<Longrightarrow> bh_num (hs' ! j) = (if j \<in> {s ..< s + n} then 0 else bh_num (hs ! j))" for j using hs' [of j] by simp
  have apart: "j \<notin> {s ..< s + n}" if "i < length hs" "i \<notin> bad" "i \<notin> {s ..< s + n}" "j \<in> {i ..< i + bh_num (hs ! i)}" for i j
  proof -
    have "(i, bh_num (hs ! i)) \<in> live_runs bad hs" using that by (auto simp: live_runs_def)
    from live_runs_disjoint [OF ok this live] that show ?thesis using s by auto
  qed
  let ?p = "p\<lparr>bk_blk_array := Some hs', bk_free_bitmap := Some bm', bk_free_blk_num := bk_free_blk_num p + n\<rparr>"
  show "pool_ok bad ?p hs' bm'"
  proof (rule pool_okI)
    show "byte_get bm' i" if "i \<in> bad" for i
    proof -
      have "i < length hs" "i \<notin> {s ..< s + n}" using D(4,6) that run by auto
      then show ?thesis using bm' [OF cap, of i] D(7) [OF that] by simp
    qed
    show "bh_blk (hs' ! i) = bk_act_start ?p + i * blk_stride ?p" if "i < length hs'" "i \<notin> bad" for i
      using D(8) [of i] hs' [of i] that len(1) by simp
    show "bh_tag (hs' ! i) = (if byte_get bm' i then TAG_USED else TAG_FREE)" if "i < length hs'" "i \<notin> bad" for i
      using hs' [of i] bm' [OF cap, of i] D(9) [of i] that len by simp
    show "i + bh_num (hs' ! i) \<le> length hs'" if "i < length hs'" "i \<notin> bad" for i
      using D(10) [of i] num [of i] that len by simp
    show "j \<notin> bad \<and> byte_get bm' j \<and> (j \<noteq> i \<longrightarrow> bh_num (hs' ! j) = 0)"
      if "i < length hs'" "i \<notin> bad" "j \<in> {i ..< i + bh_num (hs' ! i)}" for i j
    proof -
      have i: "i < length hs" "i \<notin> {s ..< s + n}" "j \<in> {i ..< i + bh_num (hs ! i)}" using that num [of i] len by (auto split: if_splits)
      have "j < length hs" using D(10) [OF i(1) that(2)] i(3) by simp
      then show ?thesis using D(11) [OF i(1) that(2) i(3)] apart [OF i(1) that(2) i(2,3)] num [of j] bm' [OF cap, of j] by simp
    qed
    show "\<exists>i \<le> j. i \<notin> bad \<and> j < i + bh_num (hs' ! i)" if "j < length hs'" "j \<notin> bad" "byte_get bm' j" for j
    proof -
      have j: "j \<notin> {s ..< s + n}" "byte_get bm j" using bm' [OF cap, of j] that len by simp_all
      then obtain i where i: "i \<le> j" "i \<notin> bad" "j < i + bh_num (hs ! i)" using D(12) [of j, OF _ \<open>j \<notin> bad\<close>] \<open>j < length hs'\<close> len(1) by auto
      have "i \<notin> {s ..< s + n}"
      proof
        assume a: "i \<in> {s ..< s + n}"
        with run [of i] i s(3) j(1) show False by (cases "i = s") auto
      qed
      then show ?thesis using i num [of i] \<open>j < length hs'\<close> len by (intro exI [of _ i]) simp
    qed
    have "{j. j < length hs \<and> j \<notin> {s ..< s + n} \<and> \<not> byte_get bm' j} = {j. j < length hs \<and> \<not> byte_get bm j}"
      using bm' [OF cap] run by auto
    moreover have "\<forall>j \<in> {s ..< s + n}. \<not> byte_get bm' j" using bm' [OF cap] sn by auto
    ultimately show "bk_free_blk_num ?p = card {j. j < length hs' \<and> \<not> byte_get bm' j}"
      using card_free_run [OF sn, of "\<lambda>j. \<not> byte_get bm' j"] D(13) len(1) by simp
  qed (use D(1,4,5,6) len in \<open>simp_all add: pool_shape_def\<close>)
  have only: "i = s" if "i \<in> {s ..< s + n}" "0 < bh_num (hs ! i)" for i using run [OF that(1)] that(2) by auto
  have "s \<in> {s ..< s + n}" using s(4) by simp
  then show "live_runs bad hs' = live_runs bad hs - {(s, n)}"
    unfolding live_runs_def set_eq_iff using num s(3) len(1) by (auto simp del: atLeastLessThan_iff dest: only [unfolded s(3)] split: if_splits)
qed

definition blocks_for :: "wd_blkpool \<Rightarrow> nat \<Rightarrow> nat" where
  "blocks_for p sz = (sz + bk_act_blk_sz p - 1) div bk_act_blk_sz p"

lemma alloc_cases:
  assumes ok: "pool_ok bad p hs bm" and sz: "0 < sz" "sz < 2 ^ 32"
  obtains (fail) "wd_mem_alloc (Some p) sz = Some (0, Some (p\<lparr>bk_alloc_failures := u32 (bk_alloc_failures p + 1)\<rparr>))"
      "blocks_for p sz > bk_free_blk_num p \<or> search_result bm hs (length hs) (blocks_for p sz) (Inl WD_ENOMEM)"
    | (took) s hs' bm' where "wd_mem_alloc (Some p) sz = Some (bk_act_start p + s * blk_stride p,
        Some (p\<lparr>bk_blk_array := Some hs', bk_free_bitmap := Some bm', bk_free_blk_num := bk_free_blk_num p - blocks_for p sz\<rparr>))"
      "search_result bm hs (length hs) (blocks_for p sz) (Inr s)" "blocks_for p sz \<le> bk_free_blk_num p"
      "length hs' = length hs" "length bm' = length bm"
      "\<And>j. j < length hs \<Longrightarrow> hs' ! j =
        (if j = s then (hs ! j)\<lparr>bh_tag := TAG_USED, bh_num := blocks_for p sz\<rparr>
         else if j \<in> {s ..< s + blocks_for p sz} then (hs ! j)\<lparr>bh_tag := TAG_USED\<rparr> else hs ! j)"
      "\<And>j. j < byte_cap bm \<Longrightarrow> byte_get bm' j \<longleftrightarrow> j \<in> {s ..< s + blocks_for p sz} \<or> byte_get bm j"
proof -
  note D = pool_okD [OF ok]
  let ?n = "blocks_for p sz"
  have sh: "\<not> bk_sva_mode p" "0 < bk_act_blk_sz p" "bk_act_blk_sz p < 2 ^ 32" "bk_total_blocks p < 2 ^ 32" using D(1) by (auto simp: pool_shape_def)
  note rb = required_blocks_bounds [OF sz sh(2,3), folded blocks_for_def]
  have free: "bk_free_blk_num p \<le> length hs" unfolding D(13) by (rule order_trans [OF card_mono [of "{..< length hs}"]]) auto
  have eq: "wd_mem_alloc (Some p) sz = (if ?n > bk_free_blk_num p then Some (0, Some (p\<lparr>bk_alloc_failures := u32 (bk_alloc_failures p + 1)\<rparr>))
     else case wd_find_contiguous_blocks p ?n of None \<Rightarrow> None
       | Some (Inl _) \<Rightarrow> Some (0, Some (p\<lparr>bk_alloc_failures := u32 (bk_alloc_failures p + 1)\<rparr>))
       | Some (Inr start_block) \<Rightarrow>
           (case opt_fold mark_blk_used [start_block ..< start_block + ?n] p of None \<Rightarrow> None
            | Some p \<Rightarrow> (case bk_blk_array p of None \<Rightarrow> None
                | Some hds \<Rightarrow> (case rd hds start_block of None \<Rightarrow> None
                    | Some h \<Rightarrow> Some (bh_blk h, Some (p\<lparr>bk_free_blk_num := sub32 (bk_free_blk_num p) ?n,
                                  bk_blk_array := Some (hds[start_block := h\<lparr>bh_num := ?n\<rparr>])\<rparr>))))))"
    using sh sz unfolding wd_mem_alloc_def option.case Let_def rb(1) by simp
  show thesis
  proof (cases "?n > bk_free_blk_num p")
    case True
    then show thesis using eq by (intro fail) auto
  next
    case False
    have "wd_find_contiguous_blocks p ?n = find_contiguous (Some bm) (Some hs) (length hs) ?n 0 0 0 0"
      using D(2,3,4) rb(2) False free by (simp add: wd_find_contiguous_blocks_def)
    moreover have "\<exists>r. find_contiguous (Some bm) (Some hs) (length hs) ?n 0 0 0 0 = Some r \<and> search_result bm hs (length hs) ?n r"
      by (rule find_contiguous_spec) (use D(4,5) rb(2) in \<open>auto simp: scan_inv_def\<close>)
    ultimately obtain r where r: "wd_find_contiguous_blocks p ?n = Some r" "search_result bm hs (length hs) ?n r" by auto
    show thesis
    proof (cases r)
      case (Inl e)
      then show thesis using eq False r by (intro fail) (auto simp: search_result_def)
    next
      case (Inr s)
      then have s: "s + ?n \<le> length hs" "free_run bm s ?n" using r by (simp_all add: search_result_def)
      have "\<forall>i \<in> set [s ..< s + ?n]. i < byte_cap bm" using s D(4,5) by auto
      from bytes.set_all [OF this] obtain bm' where bm': "opt_fold (\<lambda>i s. bitmap_set_bit s i) [s ..< s + ?n] bm = Some bm'" "length bm' = length bm"
        "\<forall>j < byte_cap bm. byte_get bm' j \<longleftrightarrow> j \<in> set [s ..< s + ?n] \<or> byte_get bm j" by blast
      from mark_blk_fold [OF D(2,3) bm'(1), of "\<lambda>h. h\<lparr>bh_tag := TAG_USED\<rparr>"] s obtain hs1 where
        hs1: "opt_fold mark_blk_used [s ..< s + ?n] p = Some (p\<lparr>bk_blk_array := Some hs1, bk_free_bitmap := Some bm'\<rparr>)"
        "length hs1 = length hs" "\<forall>j < length hs. hs1 ! j = (if j \<in> set [s ..< s + ?n] then (hs ! j)\<lparr>bh_tag := TAG_USED\<rparr> else hs ! j)"
        by (auto simp: mark_blk_used_def)
      have sl: "s < length hs" "s \<notin> bad" using s rb(2) free_num_0 [OF ok, of s] by auto
      have blk: "bh_blk (hs1 ! s) = bk_act_start p + s * blk_stride p" using D(8) [OF sl] hs1(3) sl(1) by simp
      let ?hs' = "hs1[s := (hs1 ! s)\<lparr>bh_num := ?n\<rparr>]"
      have "wd_mem_alloc (Some p) sz = Some (bk_act_start p + s * blk_stride p,
        Some (p\<lparr>bk_blk_array := Some ?hs', bk_free_bitmap := Some bm', bk_free_blk_num := bk_free_blk_num p - ?n\<rparr>))"
        using eq False r(1) Inr hs1(1,2) sl(1) blk free sh(4) D(4) by (simp add: sub32_small)
      then show thesis
        by (rule took) (use r(2) Inr False hs1(2,3) bm'(2,3) rb(2) in \<open>auto simp: nth_list_update\<close>)
    qed
  qed
qed

text \<open>Returning the buffer of a run.\<close>

lemma free_live:
  assumes ok: "pool_ok bad p hs bm" and live: "(s, n) \<in> live_runs bad hs"
    and buf: "bk_act_start p + s * blk_stride p \<le> buf" "buf < bk_act_start p + s * blk_stride p + blk_stride p"
  obtains hs' bm' where
      "wd_mem_free (Some p) buf = Some (Some (p\<lparr>bk_blk_array := Some hs', bk_free_bitmap := Some bm', bk_free_blk_num := bk_free_blk_num p + n\<rparr>))"
      "length hs' = length hs" "length bm' = length bm"
      "\<And>j. j < length hs \<Longrightarrow> hs' ! j = (if j \<in> {s ..< s + n} then (hs ! j)\<lparr>bh_tag := TAG_FREE, bh_num := 0\<rparr> else hs ! j)"
      "\<And>j. j < byte_cap bm \<Longrightarrow> byte_get bm' j \<longleftrightarrow> j \<notin> {s ..< s + n} \<and> byte_get bm j"
proof -
  note D = pool_okD [OF ok]
  have s: "s < length hs" "s \<notin> bad" "n = bh_num (hs ! s)" "0 < n" using live by (auto simp: live_runs_def)
  have sn: "s + n \<le> length hs" using D(10) [OF s(1,2)] s(3) by simp
  have sh: "\<not> bk_sva_mode p" "0 < blk_stride p" "blk_stride p < 2 ^ 32" "bk_total_blocks p < 2 ^ 32" "0 < bk_act_start p"
    using D(1) by (auto simp: pool_shape_def)
  have idx: "(buf - bk_act_start p) div blk_stride p = s"
  proof (rule div_nat_eqI)
    show "blk_stride p * s \<le> buf - bk_act_start p" "buf - bk_act_start p < blk_stride p * Suc s" using buf by (simp_all add: algebra_simps)
  qed
  have "\<forall>i \<in> set [s ..< s + n]. i < byte_cap bm" using sn D(4,5) by auto
  from bytes.clr_all [OF this] obtain bm' where bm': "opt_fold (\<lambda>i s. bitmap_clear_bit s i) [s ..< s + n] bm = Some bm'" "length bm' = length bm"
    "\<forall>j < byte_cap bm. byte_get bm' j \<longleftrightarrow> j \<notin> set [s ..< s + n] \<and> byte_get bm j" by blast
  from mark_blk_fold [OF D(2,3) bm'(1), of "\<lambda>h. h\<lparr>bh_tag := TAG_FREE, bh_num := 0\<rparr>"] sn obtain hs' where
    hs': "opt_fold mark_blk_free [s ..< s + n] p = Some (p\<lparr>bk_blk_array := Some hs', bk_free_bitmap := Some bm'\<rparr>)"
    "length hs' = length hs" "\<forall>j < length hs. hs' ! j = (if j \<in> set [s ..< s + n] then (hs ! j)\<lparr>bh_tag := TAG_FREE, bh_num := 0\<rparr> else hs ! j)"
    by (auto simp: mark_blk_free_def)
  have "bk_free_blk_num p + n = card {j. j < length hs \<and> \<not> byte_get bm j} + card {s ..< s + n}" using D(13) by simp
  also have "\<dots> = card ({j. j < length hs \<and> \<not> byte_get bm j} \<union> {s ..< s + n})"
    by (rule card_Un_disjoint [symmetric]) (use D(11) [OF s(1,2)] s(3) in auto)
  also have "\<dots> \<le> card {..< length hs}" by (rule card_mono) (use sn in auto)
  finally have "bk_free_blk_num p + n < 2 ^ 32" using sh(4) D(4) by simp
  then have "wd_mem_free (Some p) buf = Some (Some (p\<lparr>bk_blk_array := Some hs', bk_free_bitmap := Some bm', bk_free_blk_num := bk_free_blk_num p + n\<rparr>))"
    using sh buf idx s(1,3) D(2,4) hs'(1) by (auto simp: wd_mem_free_def Let_def u32_small)
  then show thesis by (rule that) (use hs'(2,3) bm'(2,3) in auto)
qed

end
