(* ===== verification/Bmm_Pool.thy ===== *)
theory Bmm_Pool
  imports Bmm
begin

text \<open>
  What the block memory manager (\<open>Bmm\<close>) guarantees: buffers that a client holds never overlap, however it takes and returns them
  (the contract \<open>buffer_pool\<close>, interpreted on \<^verbatim>\<open>wd_mem_alloc\<close> and \<^verbatim>\<open>wd_mem_free\<close>), a request is served when there is room, creating and
  destroying a pool balance. At the end concrete pools, and what the code does not guarantee.
\<close>

subsection \<open>Buffers of a pool\<close>

definition buffers :: "nat set \<Rightarrow> wd_blkpool option \<Rightarrow> (nat \<times> nat) set" where
  "buffers bad pool =
    (case pool of
       Some p \<Rightarrow> (\<lambda>(i, n). (bk_act_start p + i * blk_stride p, n * blk_stride p)) ` live_runs bad (the (bk_blk_array p))
     | None \<Rightarrow> {})"

text \<open>The fields that taking and returning buffers does not change.\<close>

definition pool_frame :: "wd_blkpool \<Rightarrow> wd_blkpool" where
  "pool_frame p = p\<lparr>bk_blk_array := None, bk_free_bitmap := None, bk_free_blk_num := 0, bk_alloc_failures := 0\<rparr>"

definition pool_inv :: "nat set \<Rightarrow> wd_blkpool \<Rightarrow> wd_blkpool option \<Rightarrow> bool" where
  "pool_inv bad q pool \<longleftrightarrow> (\<exists>p hs bm. pool = Some p \<and> pool_ok bad p hs bm \<and> pool_frame p = q)"

lemma pool_invE:
  assumes "pool_inv bad q pool"
  obtains p hs bm where "pool = Some p" "pool_ok bad p hs bm"
    "buffers bad pool = (\<lambda>(i, n). (bk_act_start p + i * blk_stride p, n * blk_stride p)) ` live_runs bad hs" "pool_frame p = q"
proof -
  from assms obtain p hs bm where p: "pool = Some p" "pool_ok bad p hs bm" "pool_frame p = q" by (auto simp: pool_inv_def)
  then show thesis using that pool_okD(2) [OF p(2)] by (simp add: buffers_def)
qed

lemma bufferE:
  assumes "(a, l) \<in> (\<lambda>(i, n). (c + i * d, n * d)) ` R"
  obtains i n where "(i, n) \<in> R" "a = c + i * d" "l = n * (d::nat)"
  using assms by auto

lemma pool_ok_failures: "pool_ok bad (p\<lparr>bk_alloc_failures := f\<rparr>) hs bm \<longleftrightarrow> pool_ok bad p hs bm"
  by (simp add: pool_ok_def pool_shape_def)

lemma stride_pos: "pool_ok bad p hs bm \<Longrightarrow> 0 < blk_stride p"
  using pool_okD(1) [of bad p hs bm] by (simp add: pool_shape_def)

lemma run_addr_inj:
  assumes "0 < c" and "(a::nat) + i * c = a + k * c"
  shows "i = k"
  using assms by simp

lemma stride_disjoint:
  assumes "{i ..< i + n} \<inter> {k ..< k + m} = {}" and "0 < n" and "0 < m"
  shows "{(a::nat) + i * c ..< a + i * c + n * c} \<inter> {a + k * c ..< a + k * c + m * c} = {}"
proof -
  have "i + n \<le> k \<or> k + m \<le> i"
  proof (rule ccontr)
    assume "\<not> (i + n \<le> k \<or> k + m \<le> i)"
    then have "max i k \<in> {i ..< i + n} \<inter> {k ..< k + m}" using assms(2,3) by auto
    then show False using assms(1) by blast
  qed
  then have "(i + n) * c \<le> k * c \<or> (k + m) * c \<le> i * c" using mult_le_mono1 by blast
  then show ?thesis by (auto simp: algebra_simps)
qed

interpretation bmm: buffer_pool "buffers bad" wd_mem_alloc wd_mem_free "pool_inv bad q" "2 ^ 32"
proof
  fix pool a l b m
  assume inv: "pool_inv bad q pool" and ab: "(a, l) \<in> buffers bad pool" "(b, m) \<in> buffers bad pool" "(a, l) \<noteq> (b, m)"
  obtain p hs bm where p: "pool = Some p" "pool_ok bad p hs bm"
    "buffers bad pool = (\<lambda>(i, n). (bk_act_start p + i * blk_stride p, n * blk_stride p)) ` live_runs bad hs" "pool_frame p = q" by (rule pool_invE [OF inv])
  obtain i n where r: "(i, n) \<in> live_runs bad hs" "a = bk_act_start p + i * blk_stride p" "l = n * blk_stride p"
    by (rule bufferE [OF ab(1) [unfolded p(3)]])
  obtain k q where t: "(k, q) \<in> live_runs bad hs" "b = bk_act_start p + k * blk_stride p" "m = q * blk_stride p"
    by (rule bufferE [OF ab(2) [unfolded p(3)]])
  have "(i, n) \<noteq> (k, q)" using ab(3) r t by auto
  from live_runs_disjoint [OF p(2) r(1) t(1) this] show "{a ..< a + l} \<inter> {b ..< b + m} = {}"
    unfolding r(2,3) t(2,3) using r(1) t(1) by (intro stride_disjoint) (auto simp: live_runs_def)
next
  fix pool a l assume "pool_inv bad q pool" "(a, l) \<in> buffers bad pool"
  then show "0 < l" by (elim pool_invE) (auto simp: live_runs_def dest: stride_pos)
next
  fix pool and n :: nat assume inv: "pool_inv bad q pool" and n: "n < 2 ^ 32"
  obtain p hs bm where p: "pool = Some p" "pool_ok bad p hs bm"
    "buffers bad pool = (\<lambda>(i, n). (bk_act_start p + i * blk_stride p, n * blk_stride p)) ` live_runs bad hs" "pool_frame p = q" by (rule pool_invE [OF inv])
  note D = pool_okD [OF p(2)]
  show "\<exists>a t. wd_mem_alloc pool n = Some (a, t) \<and> pool_inv bad q t \<and>
    (if a = 0 then buffers bad t = buffers bad pool
     else \<exists>l. n \<le> l \<and> (a, l) \<notin> buffers bad pool \<and> buffers bad t = insert (a, l) (buffers bad pool))"
  proof (cases "n = 0")
    case True
    then show ?thesis using inv p(1) by (simp add: wd_mem_alloc_def)
  next
    case False
    then have n0: "0 < n" by simp
    show ?thesis
    proof (cases rule: alloc_cases [OF p(2) n0 n])
      case 1
      have "pool_ok bad (p\<lparr>bk_alloc_failures := u32 (bk_alloc_failures p + 1)\<rparr>) hs bm" using p(2) by (simp only: pool_ok_failures)
      then show ?thesis using 1(1) p by (auto simp: pool_inv_def buffers_def pool_frame_def)
    next
      case (2 s hs' bm')
      let ?p = "p\<lparr>bk_blk_array := Some hs', bk_free_bitmap := Some bm', bk_free_blk_num := bk_free_blk_num p - blocks_for p n\<rparr>"
      have sh: "0 < bk_act_blk_sz p" "bk_act_blk_sz p < 2 ^ 32" "0 < bk_act_start p" using D(1) by (auto simp: pool_shape_def)
      note rb = required_blocks_bounds [OF n0 n sh(1,2), folded blocks_for_def]
      have s: "s + blocks_for p n \<le> length hs" "free_run bm s (blocks_for p n)" using 2(2) by (simp_all add: search_result_def)
      note T = take_run [OF p(2) s(2,1) rb(2) 2(4-7)]
      have b: "buffers bad (Some ?p) = insert (bk_act_start p + s * blk_stride p, blocks_for p n * blk_stride p) (buffers bad pool)"
        unfolding p(3) by (simp add: buffers_def T(2))
      have "n \<le> blocks_for p n * blk_stride p" using rb(3) by (simp add: algebra_simps)
      moreover have "(bk_act_start p + s * blk_stride p, blocks_for p n * blk_stride p) \<notin> buffers bad pool"
      proof
        assume "(bk_act_start p + s * blk_stride p, blocks_for p n * blk_stride p) \<in> buffers bad pool"
        then obtain i m where "(i, m) \<in> live_runs bad hs" "bk_act_start p + s * blk_stride p = bk_act_start p + i * blk_stride p"
          unfolding p(3) by auto
        then have "(s, m) \<in> live_runs bad hs" using run_addr_inj [OF stride_pos [OF p(2)]] by blast
        then show False using free_num_0 [OF p(2), of s] s rb(2) by (auto simp: live_runs_def)
      qed
      ultimately show ?thesis using 2(1) T(1) b p(1) sh(3)
        by (intro exI [of _ "bk_act_start p + s * blk_stride p"] exI [of _ "Some ?p"]) (use p(4) in \<open>auto simp: pool_inv_def pool_frame_def\<close>)
    qed
  qed
next
  fix pool a l assume inv: "pool_inv bad q pool" and a: "(a, l) \<in> buffers bad pool"
  obtain p hs bm where p: "pool = Some p" "pool_ok bad p hs bm"
    "buffers bad pool = (\<lambda>(i, n). (bk_act_start p + i * blk_stride p, n * blk_stride p)) ` live_runs bad hs" "pool_frame p = q" by (rule pool_invE [OF inv])
  obtain s n where s: "(s, n) \<in> live_runs bad hs" "a = bk_act_start p + s * blk_stride p" "l = n * blk_stride p"
    by (rule bufferE [OF a [unfolded p(3)]])
  have ba: "bk_act_start p + s * blk_stride p \<le> a" "a < bk_act_start p + s * blk_stride p + blk_stride p"
    using s(2) stride_pos [OF p(2)] by linarith+
  show "\<exists>t. wd_mem_free pool a = Some t \<and> pool_inv bad q t \<and> buffers bad t = buffers bad pool - {(a, l)}"
  proof (cases rule: free_live [OF p(2) s(1) ba])
    case (1 hs' bm')
    let ?p = "p\<lparr>bk_blk_array := Some hs', bk_free_bitmap := Some bm', bk_free_blk_num := bk_free_blk_num p + n\<rparr>"
    note G = give_run [OF p(2) s(1) 1(2-5)]
    have "inj_on (\<lambda>(i, n). (bk_act_start p + i * blk_stride p, n * blk_stride p)) (live_runs bad hs)"
      using stride_pos [OF p(2)] by (auto simp: inj_on_def)
    then have "buffers bad (Some ?p) = buffers bad pool - {(a, l)}"
      unfolding p(3) using G(2) s by (simp add: buffers_def inj_on_image_set_diff [of _ "live_runs bad hs"])
    then show ?thesis using 1(1) G(1) p(1,4) by (auto simp: pool_inv_def pool_frame_def)
  qed
qed


subsection \<open>Properties of taking and returning\<close>

lemma no_live_free:
  assumes ok: "pool_ok bad p hs bm" and live: "live_runs bad hs = {}"
  shows "bk_free_blk_num p = bk_total_blocks p - card bad"
proof -
  note D = pool_okD [OF ok]
  have "byte_get bm j \<longleftrightarrow> j \<in> bad" if "j < length hs" for j
  proof
    assume b: "byte_get bm j"
    show "j \<in> bad"
    proof (rule ccontr)
      assume "j \<notin> bad"
      with D(12) [OF that _ b] obtain i where i: "i \<le> j" "i \<notin> bad" "j < i + bh_num (hs ! i)" by blast
      then have "(i, bh_num (hs ! i)) \<in> live_runs bad hs" using that by (auto simp: live_runs_def)
      then show False using live by simp
    qed
  qed (use D(7) in blast)
  then have "{j. j < length hs \<and> \<not> byte_get bm j} = {..< length hs} - bad" by auto
  then show ?thesis using D(4,6,13) by (simp add: card_Diff_subset finite_subset)
qed

lemma buffer_inside:
  assumes ok: "pool_ok bad p hs bm" and "(a, l) \<in> buffers bad (Some p)"
  shows "bk_act_start p \<le> a \<and> a + l \<le> bk_act_start p + bk_total_blocks p * blk_stride p"
proof -
  note D = pool_okD [OF ok]
  obtain i n where r: "(i, n) \<in> live_runs bad hs" "a = bk_act_start p + i * blk_stride p" "l = n * blk_stride p"
    using assms(2) D(2) by (auto simp: buffers_def)
  then have "i + n \<le> bk_total_blocks p" using D(4,10) by (auto simp: live_runs_def)
  then have "(i + n) * blk_stride p \<le> bk_total_blocks p * blk_stride p" by (rule mult_le_mono1)
  then show ?thesis using r by (simp add: algebra_simps)
qed

text \<open>
  C4: However a client takes and returns buffers, every operation has an outcome, the buffers it holds never overlap, all lie
  in the memory of the pool, and when it holds none all usable blocks are free again.
\<close>

theorem bmm_buffers_exclusive:
  assumes "pool_ok bad p hs bm" and "live_runs bad hs = {}"
    and "list_all (\<lambda>opn. case opn of Take n \<Rightarrow> n < 2 ^ 32 | Give k \<Rightarrow> True) ops"
  shows "\<exists>p' held. client_run wd_mem_alloc wd_mem_free ops (Some p) [] = Some (Some p', held) \<and>
    (\<forall>i j. i < length held \<and> j < length held \<and> i \<noteq> j \<longrightarrow>
       {fst (held ! i) ..< fst (held ! i) + snd (held ! i)} \<inter> {fst (held ! j) ..< fst (held ! j) + snd (held ! j)} = {}) \<and>
    list_all (\<lambda>(a, n). bk_act_start p \<le> a \<and> a + n \<le> bk_act_start p + bk_total_blocks p * blk_stride p) held \<and>
    (held = [] \<longrightarrow> bk_free_blk_num p' = bk_free_blk_num p)"
proof -
  have inv: "pool_inv bad (pool_frame p) (Some p)" using assms(1) by (auto simp: pool_inv_def)
  have b: "buffers bad (Some p) = {}" using pool_okD(2) [OF assms(1)] assms(2) by (simp add: buffers_def)
  have "bmm.holds bad [] (Some p)" by (simp add: bmm.holds_def b)
  from bmm.client_run_holds [OF inv this assms(3)] obtain t held where run: "client_run wd_mem_alloc wd_mem_free ops (Some p) [] = Some (t, held)"
    "pool_inv bad (pool_frame p) t" "bmm.holds bad held t" by blast
  from run(2) obtain p' hs' bm' where p': "t = Some p'" "pool_ok bad p' hs' bm'"
    "buffers bad t = (\<lambda>(i, n). (bk_act_start p' + i * blk_stride p', n * blk_stride p')) ` live_runs bad hs'" "pool_frame p' = pool_frame p"
    by (rule pool_invE)
  have fr: "bk_act_start p' = bk_act_start p" "blk_stride p' = blk_stride p" "bk_total_blocks p' = bk_total_blocks p"
    using p'(4) by (auto simp: pool_frame_def dest: arg_cong [of _ _ bk_act_start] arg_cong [of _ _ blk_stride] arg_cong [of _ _ bk_total_blocks])
  have "{fst (held ! i) ..< fst (held ! i) + snd (held ! i)} \<inter> {fst (held ! j) ..< fst (held ! j) + snd (held ! j)} = {}"
    if "i < length held" "j < length held" "i \<noteq> j" for i j
    by (rule bmm.holds_disjoint [OF run(2,3) that]) simp_all
  moreover have "bk_act_start p \<le> a \<and> a + n \<le> bk_act_start p + bk_total_blocks p * blk_stride p" if an: "(a, n) \<in> set held" for a n
  proof -
    from bmm.holdsD [OF run(3) an] obtain l where "n \<le> l" "(a, l) \<in> buffers bad (Some p')" using p'(1) by blast
    with buffer_inside [OF p'(2)] fr show ?thesis by fastforce
  qed
  moreover have "bk_free_blk_num p' = bk_free_blk_num p" if "held = []"
  proof -
    have "live_runs bad hs' = {}" using run(3) that p'(3) by (simp add: bmm.holds_def)
    then show ?thesis using no_live_free [OF p'(2)] no_live_free [OF assms(1,2)] fr by simp
  qed
  ultimately show ?thesis using run(1) p'(1) by (auto simp: list_all_iff)
qed

text \<open>
  Returning a buffer right after it was taken restores the pool exactly: headers, bitmap and counters.
\<close>

theorem mem_alloc_free:
  assumes "pool_ok bad p hs bm" and "0 < sz" and "sz < 2 ^ 32" and "wd_mem_alloc (Some p) sz = Some (a, Some p')" and "a \<noteq> 0"
  shows "wd_mem_free (Some p') a = Some (Some p)"
proof -
  note D = pool_okD [OF assms(1)]
  have sh: "0 < bk_act_blk_sz p" "bk_act_blk_sz p < 2 ^ 32" using D(1) by (auto simp: pool_shape_def)
  note rb = required_blocks_bounds [OF assms(2,3) sh, folded blocks_for_def]
  show ?thesis
  proof (cases rule: alloc_cases [OF assms(1-3)])
    case 1
    then show ?thesis using assms(4,5) by simp
  next
    case (2 s hs' bm')
    let ?n = "blocks_for p sz"
    have p': "a = bk_act_start p + s * blk_stride p"
      "p' = p\<lparr>bk_blk_array := Some hs', bk_free_bitmap := Some bm', bk_free_blk_num := bk_free_blk_num p - ?n\<rparr>" using 2(1) assms(4) by simp_all
    have s: "s + ?n \<le> length hs" "free_run bm s ?n" using 2(2) by (simp_all add: search_result_def)
    note T = take_run [OF assms(1) s(2,1) rb(2) 2(4-7), folded p'(2)]
    have live: "(s, ?n) \<in> live_runs bad hs'" using T(2) by simp
    have a: "bk_act_start p' + s * blk_stride p' \<le> a" "a < bk_act_start p' + s * blk_stride p' + blk_stride p'"
      using p' stride_pos [OF assms(1)] by simp_all
    show ?thesis
    proof (rule free_live [OF T(1) live a])
      fix hs2 bm2
      assume 1: "wd_mem_free (Some p') a = Some (Some (p'\<lparr>bk_blk_array := Some hs2, bk_free_bitmap := Some bm2, bk_free_blk_num := bk_free_blk_num p' + ?n\<rparr>))"
        "length hs2 = length hs'" "length bm2 = length bm'"
        "\<And>j. j < length hs' \<Longrightarrow> hs2 ! j = (if j \<in> {s ..< s + ?n} then (hs' ! j)\<lparr>bh_tag := TAG_FREE, bh_num := 0\<rparr> else hs' ! j)"
        "\<And>j. j < byte_cap bm' \<Longrightarrow> byte_get bm2 j \<longleftrightarrow> j \<notin> {s ..< s + ?n} \<and> byte_get bm' j"
      have "hs2 = hs"
      proof (rule nth_equalityI)
        fix j assume "j < length hs2"
        then have j: "j < length hs" using 1(2) 2(4) by simp
        show "hs2 ! j = hs ! j"
        proof (cases "j \<in> {s ..< s + ?n}")
          case True
          then have "bh_tag (hs ! j) = TAG_FREE" "bh_num (hs ! j) = 0" using free_num_0 [OF assms(1) j] D(9) [OF j] s by auto
          then show ?thesis using 1(4) [of j] 2(4,6) j True by (cases "hs ! j") auto
        next
          case False
          then show ?thesis using 1(4) [of j] 2(4) 2(6) [of j] j rb(2) by auto
        qed
      qed (use 1(2) 2(4) in simp)
      moreover have "bm2 = bm"
      proof (rule byte_ext)
        show "byte_get bm2 j = byte_get bm j" if "j < byte_cap bm2" for j
          using 1(3) 1(5) [of j] 2(5) 2(7) [of j] that s by auto
      qed (use 1(3) 2(5) in simp)
      ultimately show ?thesis using 1(1) p'(2) 2(3) D(2,3) by (cases p) simp
    qed
  qed
qed

text \<open>
  C36: A request is served whenever there is a run of enough free blocks, if the ends of every such run are contiguous for the
  device; for requests of one block that is always so, and with an IOMMU for every request.
\<close>

theorem mem_alloc_succeeds:
  assumes "pool_ok bad p hs bm" and "0 < sz" and "sz < 2 ^ 32"
    and "s + blocks_for p sz \<le> length hs" and "free_run bm s (blocks_for p sz)"
    and "blocks_for p sz = 1 \<or> (\<forall>t. t + blocks_for p sz \<le> length hs \<longrightarrow> ends_contiguous hs t (blocks_for p sz))"
  shows "\<exists>a p'. wd_mem_alloc (Some p) sz = Some (a, Some p') \<and> a \<noteq> 0"
proof -
  note D = pool_okD [OF assms(1)]
  let ?n = "blocks_for p sz"
  have "card {s ..< s + ?n} \<le> card {j. j < length hs \<and> \<not> byte_get bm j}" by (rule card_mono) (use assms(4,5) in auto)
  then have free: "?n \<le> bk_free_blk_num p" using D(13) by simp
  have uni: "\<forall>t. t + ?n \<le> length hs \<longrightarrow> ends_contiguous hs t ?n" using assms(6) by (auto simp: ends_contiguous_def sub64_def)
  show ?thesis
  proof (cases rule: alloc_cases [OF assms(1-3)])
    case 1
    then have "search_result bm hs (length hs) ?n (Inl WD_ENOMEM)" using free by simp
    then have "\<not> (\<exists>s. s + ?n \<le> length hs \<and> free_run bm s ?n)" using uni by (simp add: search_result_def)
    then show ?thesis using assms(4,5) by blast
  next
    case (2 s hs' bm')
    then show ?thesis using D(1) by (auto simp: pool_shape_def)
  qed
qed

subsection \<open>A new pool\<close>

definition blk_va :: "nat \<Rightarrow> nat \<Rightarrow> nat \<Rightarrow> nat" where
  "blk_va start stride i = u64 (start + stride * i)"

text \<open>A block is usable when the device addresses of its first and its last byte are as far apart as the bytes.\<close>

definition blk_usable :: "ctx_info option \<Rightarrow> nat \<Rightarrow> nat \<Rightarrow> bool" where
  "blk_usable cinfo blk_size va \<longleftrightarrow> sub64 (wd_iova_map cinfo (u64 (va + blk_size - 1))) (wd_iova_map cinfo va) = sub32 blk_size 1"

lemma init_blocks_spec:
  assumes "init_blocks cinfo blk start stride is hs bm d = Some (True, hs', bm', d')"
    and "distinct is" and "\<forall>i \<in> set is. i < byte_cap bm"
  shows "length hs' = length hs \<and> length bm' = length bm \<and>
    (\<forall>j < length hs. hs' ! j = (if j \<in> set is \<and> blk_usable cinfo blk (blk_va start stride j)
       then \<lparr>bh_tag = TAG_FREE, bh_num = 0, bh_dma = wd_iova_map cinfo (blk_va start stride j), bh_blk = blk_va start stride j\<rparr> else hs ! j)) \<and>
    (\<forall>j < byte_cap bm. byte_get bm' j \<longleftrightarrow> byte_get bm j \<or> j \<in> set is \<and> \<not> blk_usable cinfo blk (blk_va start stride j)) \<and>
    d' = d + length (filter (\<lambda>j. blk_usable cinfo blk (blk_va start stride j)) is)"
  using assms
proof (induction "is" arbitrary: hs bm d)
  case Nil
  then show ?case by simp
next
  case (Cons i "is")
  let ?va = "blk_va start stride i"
  from Cons.prems(1) have nz: "wd_iova_map cinfo ?va \<noteq> 0" "wd_iova_map cinfo (u64 (?va + blk - 1)) \<noteq> 0"
    by (auto simp: Let_def blk_va_def split: if_splits)
  show ?case
  proof (cases "blk_usable cinfo blk ?va")
    case True
    let ?h = "\<lparr>bh_tag = TAG_FREE, bh_num = 0, bh_dma = wd_iova_map cinfo ?va, bh_blk = ?va\<rparr>"
    from Cons.prems(1) nz True have "i < length hs" "init_blocks cinfo blk start stride is (hs[i := ?h]) bm (d + 1) = Some (True, hs', bm', d')"
      by (auto simp: Let_def blk_va_def blk_usable_def split: if_splits option.splits)
    with Cons.IH [OF this(2)] Cons.prems(2,3) True show ?thesis by (auto simp: nth_list_update)
  next
    case False
    from Cons.prems(1) nz False obtain b where b: "bitmap_set_bit bm i = Some b"
      "init_blocks cinfo blk start stride is hs b d = Some (True, hs', bm', d')"
      by (auto simp: Let_def blk_va_def blk_usable_def split: if_splits option.splits)
    have len: "length b = length bm" using bytes.bset_shape [OF b(1)] .
    with Cons.IH [OF b(2)] Cons.prems(2,3) False bytes.bset_get [OF b(1)] show ?thesis by auto
  qed
qed

lemma pool_init_ok:
  assumes init: "wd_pool_init ev oks p r = Some (Inr u, p', r')"
    and shape: "\<not> bk_sva_mode p" "0 < bk_act_blk_sz p" "blk_stride p < 2 ^ 32"
      "0 < ALIGN 64 (bk_usr_mem_start p) (st_align_size (bk_setup p))"
      "ALIGN 64 (bk_usr_mem_start p) (st_align_size (bk_setup p)) + bk_act_mem_sz p < 2 ^ 64"
      "bk_act_mem_sz p div blk_stride p < 2 ^ 31"
  obtains bad hs bm where "pool_ok bad p' hs bm" "live_runs bad hs = {}" "bk_setup p' = (bk_setup p)\<lparr>st_block_num := bk_free_blk_num p'\<rparr>"
    "NUM_TIMES (st_block_num (bk_setup p)) < bk_free_blk_num p'" "bk_cinfo p' = bk_cinfo p" "bk_act_blk_sz p' = bk_act_blk_sz p"
    "\<And>i. i < length hs \<Longrightarrow> i \<notin> bad \<Longrightarrow> bh_dma (hs ! i) = wd_iova_map (bk_cinfo p) (bh_blk (hs ! i)) \<and>
       blk_usable (bk_cinfo p) (st_block_size (bk_setup p)) (bh_blk (hs ! i))"
    "r' = heap_add 2 r" "\<not> bk_sva_mode p'"
proof -
  let ?start = "ALIGN 64 (bk_usr_mem_start p) (st_align_size (bk_setup p))" and ?st = "blk_stride p"
  let ?N = "bk_act_mem_sz p div ?st" and ?blk = "st_block_size (bk_setup p)"
  have st: "u32 ?st = ?st" "0 < ?st" "u32 ?N = ?N" "u32 (?N + 7) = ?N + 7" using shape(2,3,6) by (simp_all add: u32_small)
  from init obtain hs bm d where ib: "init_blocks (bk_cinfo p) ?blk ?start ?st [0 ..< ?N] (map (be_junk ev) [0 ..< ?N]) (replicate ((?N + 7) div 8) 0) 0 = Some (True, hs, bm, d)"
    and d: "NUM_TIMES (st_block_num (bk_setup p)) < d"
    and p': "p' = p\<lparr>bk_act_start := ?start, bk_total_blocks := ?N, bk_bitmap_size := (?N + 7) div 8, bk_blk_array := Some hs,
      bk_free_bitmap := Some bm, bk_free_blk_num := d, bk_setup := (bk_setup p)\<lparr>st_block_num := d\<rparr>\<rparr>" "r' = heap_add 2 r"
    unfolding wd_pool_init_def Let_def by (auto simp: st split: if_splits option.splits prod.splits)
  define U where "U = (\<lambda>j. blk_usable (bk_cinfo p) ?blk (blk_va ?start ?st j))"
  define bad where "bad = {j. j < ?N \<and> \<not> U j}"
  have cap: "?N \<le> 8 * ((?N + 7) div 8)" by simp
  have zero: "\<not> byte_get (replicate ((?N + 7) div 8) 0) j" if "j < ?N" for j
    using that cap by (simp add: byte_get_def div_less_iff_less_mult mult.commute)
  have Nst: "?N * ?st \<le> bk_act_mem_sz p" by (rule div_mult_le_self)
  have va: "blk_va ?start ?st j = ?start + j * ?st" if "j < ?N" for j
  proof -
    have "j * ?st \<le> ?N * ?st" using that by (intro mult_le_mono1) simp
    then have "?start + ?st * j < 2 ^ 64" unfolding mult.commute [of ?st j] using Nst shape(5) by linarith
    then show ?thesis by (simp add: blk_va_def u64_small mult.commute)
  qed
  have I: "length hs = ?N" "length bm = (?N + 7) div 8"
    "\<And>j. j < ?N \<Longrightarrow> U j \<Longrightarrow> hs ! j = \<lparr>bh_tag = TAG_FREE, bh_num = 0, bh_dma = wd_iova_map (bk_cinfo p) (?start + j * ?st), bh_blk = ?start + j * ?st\<rparr>"
    "\<And>j. j < ?N \<Longrightarrow> byte_get bm j \<longleftrightarrow> \<not> U j" "d = length (filter U [0 ..< ?N])"
    using init_blocks_spec [OF ib] cap zero va by (simp_all add: U_def)
  have free: "d = card {j. j < length hs \<and> \<not> byte_get bm j}"
  proof -
    have "set (filter U [0 ..< ?N]) = {j. j < length hs \<and> \<not> byte_get bm j}" using I by auto
    then show ?thesis unfolding I(5) by (metis distinct_card distinct_filter distinct_upt)
  qed
  have fin: "?start + ?N * ?st < 2 ^ 64" using Nst shape(5) by linarith
  have ok: "pool_ok bad p' hs bm"
    by (rule pool_okI) (use I(1-4) free shape(1-4,6) fin cap in \<open>auto simp: p' bad_def pool_shape_def\<close>)
  show thesis
  proof (rule that [OF ok])
    show "live_runs bad hs = {}" using I(1,3) by (auto simp: live_runs_def bad_def)
    show "bh_dma (hs ! i) = wd_iova_map (bk_cinfo p) (bh_blk (hs ! i)) \<and> blk_usable (bk_cinfo p) ?blk (bh_blk (hs ! i))"
      if "i < length hs" "i \<notin> bad" for i using that I(1) I(3) [of i] va [of i] by (auto simp: bad_def U_def)
  qed (use d p' shape(1) in auto)
qed

subsection \<open>Alignment\<close>

lemma and_high_bits:
  assumes "(y::nat) < 2 ^ w" and "k \<le> w"
  shows "y AND (2 ^ w - 2 ^ k) = y div 2 ^ k * 2 ^ k"
proof -
  have "2 ^ w - 2 ^ k = push_bit k (mask (w - k) :: nat)"
    using assms(2) by (simp add: push_bit_eq_mult mask_eq_exp_minus_1 diff_mult_distrib flip: power_add)
  moreover have "y div 2 ^ k * 2 ^ k = push_bit k (drop_bit k y)" by (simp add: push_bit_eq_mult drop_bit_eq_div)
  moreover have "take_bit w y = y" using assms(1) by (simp add: take_bit_nat_eq_self)
  then have "bit y i \<Longrightarrow> k \<le> i \<Longrightarrow> i - k < w - k" for i by (metis bit_take_bit_iff diff_less_mono)
  ultimately show ?thesis by (auto intro!: bit_eqI simp: bit_and_iff bit_push_bit_iff bit_mask_iff bit_drop_bit_eq)
qed

lemma ALIGN_pow2:
  assumes "k \<le> w" and "x + 2 ^ k \<le> 2 ^ w"
  shows "ALIGN w x (2 ^ k) = (x + 2 ^ k - 1) div 2 ^ k * 2 ^ k" "x \<le> ALIGN w x (2 ^ k)" "ALIGN w x (2 ^ k) < x + 2 ^ k"
proof -
  have k: "(2::nat) ^ k \<le> 2 ^ w" "0 < (2::nat) ^ k" using assms(1) by simp_all
  have "2 ^ k + 2 ^ w - 1 = 2 ^ k - 1 + (2 ^ w :: nat)" "2 ^ k - 1 < (2 ^ w :: nat)" using k by linarith+
  then have "(2 ^ k + 2 ^ w - 1) mod 2 ^ w = (2 ^ k - 1) mod (2 ^ w :: nat)" by (simp only: mod_add_self2)
  also have "\<dots> = 2 ^ k - 1" using \<open>2 ^ k - 1 < 2 ^ w\<close> by (rule mod_less)
  finally have m: "(2 ^ k + 2 ^ w - 1) mod 2 ^ w = (2 ^ k - 1 :: nat)" .
  have y: "x + (2 ^ k - 1) < 2 ^ w" using assms(2) k(2) by linarith
  have c: "2 ^ w - 1 - (2 ^ k - 1) = (2 ^ w - 2 ^ k :: nat)" using k(2) by linarith
  have "ALIGN w x (2 ^ k) = (x + (2 ^ k - 1)) AND (2 ^ w - 2 ^ k)" unfolding ALIGN_def m Let_def c using y by simp
  also have "\<dots> = (x + (2 ^ k - 1)) div 2 ^ k * 2 ^ k" by (rule and_high_bits [OF y assms(1)])
  also have "x + (2 ^ k - 1) = x + 2 ^ k - 1" using k(2) by linarith
  finally show eq: "ALIGN w x (2 ^ k) = (x + 2 ^ k - 1) div 2 ^ k * 2 ^ k" .
  have "(x + 2 ^ k - 1) div 2 ^ k * 2 ^ k + (x + 2 ^ k - 1) mod 2 ^ k = x + 2 ^ k - 1" by (rule div_mult_mod_eq)
  moreover have "(x + 2 ^ k - 1) mod 2 ^ k < 2 ^ k" by simp
  ultimately show "x \<le> ALIGN w x (2 ^ k)" "ALIGN w x (2 ^ k) < x + 2 ^ k" unfolding eq using k(2) by linarith+
qed

lemma pow2_and:
  assumes "0 < (n::nat)" and "n AND (n - 1) = 0"
  shows "\<exists>k. n = 2 ^ k"
  using assms
proof (induction n rule: less_induct)
  case (less n)
  show ?case
  proof (cases "even n")
    case True
    then obtain m where m: "n = 2 * m" by (auto elim: evenE)
    then have m0: "0 < m" using less.prems by simp
    have "bit (m AND (m - 1)) i = bit (n AND (n - 1)) (Suc i)" for i
    proof -
      have "n div 2 = m" "(n - 1) div 2 = m - 1" using m m0 by simp_all
      then show ?thesis unfolding bit_and_iff by (simp add: bit_Suc del: One_nat_def)
    qed
    then have "m AND (m - 1) = 0" using less.prems(2) by (auto intro: bit_eqI)
    then obtain k where "m = 2 ^ k" using less.IH [of m] m m0 by auto
    then show ?thesis using m by (intro exI [of _ "Suc k"]) simp
  next
    case False
    then obtain m where m: "n = 2 * m + 1" by (auto elim: oddE)
    have "bit (2 * m) i = bit (n AND (n - 1)) i" for i
      unfolding bit_and_iff by (cases i) (simp_all add: m bit_Suc bit_0)
    then have "2 * m = 0" using less.prems(2) by (metis bit_0_eq bit_eqI bot_apply bot_bool_def)
    then show ?thesis using m by (intro exI [of _ 0]) simp
  qed
qed

subsection \<open>The layout of a pool of reserved memory\<close>

lemma params_pow2:
  assumes "wd_pool_params_check sp = Inr u"
  obtains k where "st_align_size sp = 2 ^ k" "0 < k" "k \<le> 12" "0 < st_block_num sp" "0 < st_block_size sp" "st_block_size sp \<le> 2 ^ 28"
proof -
  from assms have a: "1 < st_align_size sp" "st_align_size sp \<le> 2 ^ 12" "st_align_size sp AND (st_align_size sp - 1) = 0"
    and b: "0 < st_block_num sp" "0 < st_block_size sp" "st_block_size sp \<le> 2 ^ 28"
    by (auto simp: wd_pool_params_check_def bmm_consts split: if_splits)
  then obtain k where k: "st_align_size sp = 2 ^ k" using pow2_and [of "st_align_size sp"] by auto
  have "0 < k" using a(1) k by (cases k) auto
  moreover have "(2::nat) ^ k \<le> 2 ^ 12" using a(2) k by simp
  then have "k \<le> 12" by (rule power_le_imp_le_exp [rotated]) simp
  ultimately show thesis using that k b by blast
qed

lemma layout_bounds:
  assumes "wd_pool_params_check sp = Inr u" and "st_block_num sp < 2 ^ 16" and "bk_cinfo p = Some c" and "\<not> mo_alloc (st_ops sp)"
  shows "st_block_size sp \<le> bk_act_blk_sz (act_layout p sp)" "0 < bk_act_blk_sz (act_layout p sp)" "blk_stride (act_layout p sp) < 2 ^ 29"
    "bk_act_mem_sz (act_layout p sp) < 2 ^ 47" "bk_act_mem_sz (act_layout p sp) div blk_stride (act_layout p sp) < 2 ^ 31"
proof -
  obtain k where k: "st_align_size sp = 2 ^ k" "0 < k" "k \<le> 12" "0 < st_block_num sp" "0 < st_block_size sp" "st_block_size sp \<le> 2 ^ 28"
    by (rule params_pow2 [OF assms(1)])
  have k12: "(2::nat) ^ k \<le> 2 ^ 12" using k(3) by (rule power_increasing) simp
  have hd: "ALIGN 64 SIZEOF_BLK_HD (2 ^ k) < 24 + 2 ^ k"
    using ALIGN_pow2(3) [of k 64 SIZEOF_BLK_HD] k(3) k12 by (simp add: SIZEOF_BLK_HD_def)
  then have hdu: "bk_act_hd_sz (act_layout p sp) < 24 + 2 ^ 12" using k12 by (simp add: act_layout_def Let_def k(1) u32_small)
  have blk: "bk_act_blk_sz (act_layout p sp) = ALIGN 32 (st_block_size sp) (2 ^ k)" by (simp add: act_layout_def Let_def k(1))
  have "st_block_size sp + 2 ^ k \<le> 2 ^ 32" using k(6) k12 by simp
  note A = ALIGN_pow2(2,3) [OF _ this, folded blk]
  show b1: "st_block_size sp \<le> bk_act_blk_sz (act_layout p sp)" using A(1) k(3) by simp
  then show b2: "0 < bk_act_blk_sz (act_layout p sp)" using k(5) by simp
  have "bk_act_blk_sz (act_layout p sp) < 2 ^ 28 + 2 ^ 12" using A(2) k(3,6) k12 by simp
  then show st: "blk_stride (act_layout p sp) < 2 ^ 29" using hdu by simp
  let ?S = "blk_stride (act_layout p sp)"
  define M where "M = ?S * st_block_num sp + 2 ^ k"
  have "?S * st_block_num sp \<le> 2 ^ 29 * 2 ^ 16" using st assms(2) by (intro mult_le_mono) simp_all
  then have M: "M \<le> 2 ^ 45 + 2 ^ 12" unfolding M_def using k12 by (simp flip: power_add)
  have S: "u32 (bk_act_hd_sz (act_layout p sp) + bk_act_blk_sz (act_layout p sp)) = ?S" using st by (simp add: u32_small)
  have B: "BLK_BALANCE_SZ = 2 ^ 20" by (simp add: BLK_BALANCE_SZ_def)
  have al: "ALIGN 64 M BLK_BALANCE_SZ < M + 2 ^ 20" unfolding B by (rule ALIGN_pow2) (use M in simp_all)
  have mem: "bk_act_mem_sz (act_layout p sp) = (if cf_iommu_type c then M else ALIGN 64 M BLK_BALANCE_SZ * 2)"
  proof -
    have "u64 M = M" "u64 (ALIGN 64 M BLK_BALANCE_SZ * 2) = ALIGN 64 M BLK_BALANCE_SZ * 2" using M al by (simp_all add: u64_small)
    moreover have "u32 (u32 (ALIGN 64 SIZEOF_BLK_HD (2 ^ k)) + ALIGN 32 (st_block_size sp) (2 ^ k)) = ?S"
      using S by (simp add: act_layout_def Let_def k(1))
    ultimately show ?thesis using assms(3,4) unfolding M_def by (simp add: act_layout_def Let_def k(1))
  qed
  show "bk_act_mem_sz (act_layout p sp) < 2 ^ 47" unfolding mem using M al by simp
  have "bk_act_mem_sz (act_layout p sp) \<le> 2 * (M + 2 ^ 20)" unfolding mem using al by simp
  also have "\<dots> = 2 * st_block_num sp * ?S + 2 * (2 ^ k + 2 ^ 20)" by (simp add: M_def algebra_simps)
  also have "\<dots> \<le> 2 * st_block_num sp * ?S + (2 * (2 ^ k + 2 ^ 20)) * ?S" using b2 by simp
  also have "\<dots> = (2 * st_block_num sp + 2 * (2 ^ k + 2 ^ 20)) * ?S" by (simp add: algebra_simps)
  finally have "bk_act_mem_sz (act_layout p sp) div ?S \<le> 2 * st_block_num sp + 2 * (2 ^ k + 2 ^ 20)"
    using b2 by (metis add_is_0 div_le_mono div_mult_self_is_m less_numeral_extra(3) neq0_conv)
  then show "bk_act_mem_sz (act_layout p sp) div ?S < 2 ^ 31" using assms(2) k12 by simp
qed

subsection \<open>The resources of a pool\<close>

lemma map_slices_res:
  assumes "map_slices ptr as oks tmp c r = Some (b, c', oks', r')"
  shows "\<exists>ss. c' = c\<lparr>cf_ss_list := ss\<rparr> \<and> length (cf_ss_list c) \<le> length ss \<and> r' = r\<lparr>br_heap := br_heap r + (length ss - length (cf_ss_list c))\<rparr>"
  using assms
proof (induction as arbitrary: oks tmp c r)
  case (Cons a as)
  obtain ret info where a: "a = (ret, info)" by (cases a)
  note prem = Cons.prems [unfolded a]
  show ?case
  proof (cases "ret < 0 \<or> \<not> fst (calloc_ok oks)")
    case True
    then have "c' = c" "r' = r" using prem by (auto simp: Let_def split: prod.splits if_splits)
    then show ?thesis by (intro exI [of _ "cf_ss_list c"]) simp
  next
    case False
    obtain oks1 where oks1: "calloc_ok oks = (True, oks1)" using False by (cases "calloc_ok oks") auto
    let ?sz = "if cf_iommu_type c then cf_ss_mm_size c else u64 ((info AND UACCE_GRAN_NUM_MASK) * 2 ^ UACCE_GRAN_SHIFT)"
    let ?rgn = "\<lparr>sr_pa = info - (info AND UACCE_GRAN_NUM_MASK), sr_va = u64 (ptr + tmp), sr_size = ?sz\<rparr>"
    obtain c1 r1 where c1: "wd_add_slice c ?rgn (heap_add 1 r) = (c1, r1)" by fastforce
    have step: "if ret > 0 then map_slices ptr as oks1 (u64 (tmp + ?sz)) c1 r1 = Some (b, c', oks', r') else c' = c1 \<and> r' = r1"
      using prem False oks1 c1 by (auto simp: Let_def)
    have add: "\<exists>ss. c1 = c\<lparr>cf_ss_list := ss\<rparr> \<and> length (cf_ss_list c) \<le> length ss \<and> r1 = r\<lparr>br_heap := br_heap r + (length ss - length (cf_ss_list c))\<rparr>"
      using c1 unfolding wd_add_slice_def Let_def by (auto split: if_splits)
    show ?thesis
    proof (cases "ret > 0")
      case False
      then show ?thesis using step add by simp
    next
      case True
      have "\<exists>ss. c' = c1\<lparr>cf_ss_list := ss\<rparr> \<and> length (cf_ss_list c1) \<le> length ss \<and> r' = r1\<lparr>br_heap := br_heap r1 + (length ss - length (cf_ss_list c1))\<rparr>"
        by (rule Cons.IH) (use step True in simp)
      then show ?thesis using add by auto
    qed
  qed
qed simp

text \<open>Reserving memory fails with nothing kept, or keeps the mapping and the slices.\<close>

lemma reserve_cases:
  assumes "wd_map_reserve_mem ev oks pool sz r = Some (addr, pool', oks', r')" and "bk_cinfo pool = Some c" and "cf_ss_list c = []"
    and "be_mmap ev \<noteq> Some 0"
  obtains (fail) c' where "addr = 0" "r' = r" "pool' = pool\<lparr>bk_cinfo := Some c'\<rparr>"
    | (ok) c' where "addr \<noteq> 0" "be_mmap ev = Some addr" "cf_ss_va c' = addr" "pool' = pool\<lparr>bk_cinfo := Some c'\<rparr>"
      "r' = r\<lparr>br_maps := (addr, cf_ss_mm_size c') # br_maps r, br_heap := br_heap r + length (cf_ss_list c')\<rparr>"
proof (cases "be_mmap ev")
  case None
  then have "addr = 0" "r' = r" "pool' = pool" using assms(1,2) by (auto simp: wd_map_reserve_mem_def Let_def)
  then show thesis using fail [of c] assms(2) by (cases pool) simp
next
  case (Some ptr)
  let ?tmp = "if cf_iommu_type c then sz else ALIGN 64 sz UACCE_GRAN_SIZE"
  let ?c = "c\<lparr>cf_ss_va := ptr, cf_ss_mm_size := ?tmp\<rparr>" and ?r = "r\<lparr>br_maps := (ptr, ?tmp) # br_maps r\<rparr>"
  from assms(1,2) Some obtain b c1 oks1 r1 where ms: "map_slices ptr (be_dma ev) oks 0 ?c ?r = Some (b, c1, oks1, r1)"
    by (auto simp: wd_map_reserve_mem_def Let_def split: option.splits)
  from map_slices_res [OF ms] obtain ss where ss: "c1 = ?c\<lparr>cf_ss_list := ss\<rparr>" "r1 = ?r\<lparr>br_heap := br_heap r + length ss\<rparr>" using assms(3) by auto
  show thesis
  proof (cases b)
    case True
    then have "addr = ptr" "pool' = pool\<lparr>bk_cinfo := Some c1\<rparr>" "r' = r1" using assms(1,2) Some ms by (simp_all add: wd_map_reserve_mem_def Let_def)
    then show thesis using ok [of c1] ss Some assms(4) by simp
  next
    case False
    then show thesis using assms(1,2) Some ms ss assms(4)
      by (intro fail [of "c1\<lparr>cf_ss_list := []\<rparr>"]) (auto simp: wd_map_reserve_mem_def Let_def wd_free_slice_def wd_unmap_reserve_mem_def)
  qed
qed

lemma init_err_res:
  assumes "bk_cinfo p = Some c" and "cf_ss_va c \<noteq> 0"
    and "r = r0\<lparr>br_maps := (cf_ss_va c, cf_ss_mm_size c) # br_maps r0, br_heap := br_heap r0 + length (cf_ss_list c)\<rparr>"
  shows "mempool_init_err p r = (p\<lparr>bk_cinfo := None\<rparr>, r0)"
  using assms by (simp add: mempool_init_err_def wd_free_slice_def wd_unmap_reserve_mem_def)

lemma pool_init_fail:
  assumes "wd_pool_init ev oks p r = Some (Inl e, p', r')"
  shows "r' = r \<and> bk_cinfo p' = bk_cinfo p"
  using assms unfolding wd_pool_init_def Let_def by (auto split: if_splits option.splits prod.splits)

text \<open>A new pool of reserved memory: well formed, with all usable blocks free and the device addresses of its slices.\<close>

definition new_pool :: "wd_mempool_setup \<Rightarrow> wd_blkpool \<Rightarrow> bool" where
  "new_pool sp p \<longleftrightarrow> st_block_size sp \<le> bk_act_blk_sz p \<and> NUM_TIMES (st_block_num sp) < bk_free_blk_num p \<and>
     (\<exists>bad hs bm. pool_ok bad p hs bm \<and> live_runs bad hs = {} \<and>
        (\<forall>i < length hs. i \<notin> bad \<longrightarrow> bh_dma (hs ! i) = wd_iova_map (bk_cinfo p) (bh_blk (hs ! i)) \<and>
           blk_usable (bk_cinfo p) (st_block_size sp) (bh_blk (hs ! i))))"

lemma pool_ok_dev_id: "pool_ok bad (p\<lparr>bk_dev_id := d\<rparr>) hs bm \<longleftrightarrow> pool_ok bad p hs bm"
  by (simp add: pool_ok_def pool_shape_def)

lemma reserved_shape:
  assumes "wd_pool_params_check sp = Inr u" and "st_block_num sp < 2 ^ 16" and "bk_cinfo q = Some c" and "\<not> mo_alloc (st_ops sp)"
    and "bk_setup q = sp" and "0 < addr" and "addr < 2 ^ 48" and "p = (act_layout q sp)\<lparr>bk_cinfo := c', bk_usr_mem_start := addr\<rparr>"
  shows "0 < bk_act_blk_sz p" "blk_stride p < 2 ^ 32" "0 < ALIGN 64 (bk_usr_mem_start p) (st_align_size (bk_setup p))"
    "ALIGN 64 (bk_usr_mem_start p) (st_align_size (bk_setup p)) + bk_act_mem_sz p < 2 ^ 64" "bk_act_mem_sz p div blk_stride p < 2 ^ 31"
proof -
  note L = layout_bounds [OF assms(1-4)]
  obtain k where k: "st_align_size sp = 2 ^ k" "k \<le> 12" by (rule params_pow2 [OF assms(1)])
  have k12: "(2::nat) ^ k \<le> 2 ^ 12" using k(2) by (rule power_increasing) simp
  have al: "addr \<le> ALIGN 64 addr (2 ^ k)" "ALIGN 64 addr (2 ^ k) < addr + 2 ^ k"
    by (rule ALIGN_pow2; use k(2) k12 assms(6,7) in simp)+
  have stp: "bk_setup (act_layout q sp) = sp" using assms(5) by (simp add: act_layout_def Let_def)
  show "0 < bk_act_blk_sz p" "blk_stride p < 2 ^ 32" "0 < ALIGN 64 (bk_usr_mem_start p) (st_align_size (bk_setup p))"
    "ALIGN 64 (bk_usr_mem_start p) (st_align_size (bk_setup p)) + bk_act_mem_sz p < 2 ^ 64" "bk_act_mem_sz p div blk_stride p < 2 ^ 31"
    using L al k k12 assms(6,7) stp by (simp_all add: assms(8))
qed

lemma mempool_init_cases:
  assumes init: "wd_mempool_init ev oks ctx pool sp r = Some (res, pool', sp', r')"
    and pool: "pool = act_layout q sp" "bk_cinfo q = Some c" "cf_ss_list c = []" "bk_setup q = sp" "\<not> bk_sva_mode q"
    and sp: "wd_pool_params_check sp = Inr u" "\<not> mo_alloc (st_ops sp)" "st_block_num sp < 2 ^ 16"
    and ptr: "case be_mmap ev of None \<Rightarrow> True | Some ptr \<Rightarrow> 0 < ptr \<and> ptr < 2 ^ 48"
  obtains (fail) e where "res = Inl e" "r' = r" "sp' = sp \<or> bk_cinfo pool' = None"
    | (ok) c' where "res = Inr ()" "new_pool sp pool'" "sp' = sp\<lparr>st_block_num := bk_free_blk_num pool'\<rparr>"
      "bk_setup pool' = sp'" "bk_cinfo pool' = Some c'" "cf_ss_va c' \<noteq> 0" "\<not> bk_sva_mode pool'" "bk_blk_array pool' \<noteq> None" "bk_free_bitmap pool' \<noteq> None"
      "r' = r\<lparr>br_maps := (cf_ss_va c', cf_ss_mm_size c') # br_maps r, br_heap := br_heap r + length (cf_ss_list c') + 2\<rparr>"
proof -
  note L = layout_bounds [OF sp(1,3) pool(2) sp(2)]
  have pc: "bk_cinfo pool = Some c" "bk_setup pool = sp" using pool by (simp_all add: act_layout_def Let_def)
  from init sp(2) obtain addr p1 oks1 r1 where rm: "wd_map_reserve_mem ev oks pool (bk_act_mem_sz pool) r = Some (addr, p1, oks1, r1)"
    by (auto simp: wd_mempool_init_def Let_def split: option.splits)
  have nz: "be_mmap ev \<noteq> Some 0" using ptr by auto
  show thesis
  proof (cases rule: reserve_cases [OF rm pc(1) pool(3) nz])
    case (1 c')
    then show thesis using init sp(2) rm by (intro fail) (auto simp: wd_mempool_init_def Let_def)
  next
    case (2 c1)
    let ?p = "p1\<lparr>bk_usr_mem_start := addr\<rparr>"
    have addr: "0 < addr" "addr < 2 ^ 48" using ptr 2(2) by simp_all
    have p: "?p = (act_layout q sp)\<lparr>bk_cinfo := Some c1, bk_usr_mem_start := addr\<rparr>" using 2(4) pool(1) by simp
    have sva: "\<not> bk_sva_mode ?p" using p pool(5) by (simp add: act_layout_def Let_def)
    note shp = reserved_shape [OF sp(1,3) pool(2) sp(2) pool(4) addr p]
    from init sp(2) rm 2(1) obtain res1 p2 r2 where pi: "wd_pool_init ev oks1 ?p r1 = Some (res1, p2, r2)"
      by (auto simp: wd_mempool_init_def Let_def split: option.splits)
    show thesis
    proof (cases res1)
      case (Inl e)
      from pool_init_fail [OF pi [unfolded Inl]] have f: "r2 = r1" "bk_cinfo p2 = Some c1" using 2(4) by simp_all
      have "mempool_init_err p2 r2 = (p2\<lparr>bk_cinfo := None\<rparr>, r)" by (rule init_err_res [OF f(2)]) (use 2 f(1) in simp_all)
      then show thesis using init sp(2) rm 2(1) pi Inl by (intro fail) (auto simp: wd_mempool_init_def Let_def)
    next
      case (Inr v)
      show thesis
      proof (cases rule: pool_init_ok [OF pi [unfolded Inr] sva shp])
        case (1 bad hs bm)
        show thesis
        proof (cases "wd_parse_dev_id (cx_dev_path ctx)")
          case (Inl e)
          note D = pool_okD [OF 1(1)]
          let ?pu = "p2\<lparr>bk_free_bitmap := None, bk_blk_array := None\<rparr>"
          have "wd_pool_uninit p2 r2 = (?pu, r1)" using D(2,3) 1(8) by (simp add: wd_pool_uninit_def)
          moreover have "mempool_init_err ?pu r1 = (?pu\<lparr>bk_cinfo := None\<rparr>, r)" by (rule init_err_res [where c = c1]) (use 1(5) 2 in simp_all)
          ultimately show thesis using init sp(2) rm 2(1) pi Inl \<open>res1 = Inr v\<close>
            by (intro fail) (auto simp: wd_mempool_init_def Let_def)
        next
          case (Inr d)
          have r: "res = Inr ()" "pool' = p2\<lparr>bk_dev_id := d\<rparr>" "sp' = sp\<lparr>st_block_num := st_block_num (bk_setup p2)\<rparr>" "r' = r2"
            using init sp(2) rm 2(1) pi Inr \<open>res1 = Inr v\<close> by (simp_all add: wd_mempool_init_def Let_def)
          note D = pool_okD [OF 1(1)]
          have stt: "bk_setup ?p = sp" "bk_act_blk_sz ?p = bk_act_blk_sz (act_layout q sp)" "bk_cinfo ?p = Some c1" using 2(4) pc pool(1) by simp_all
          have np: "new_pool sp pool'" unfolding new_pool_def r(2)
            using 1(2,4,6,7) 1(1) L(1) stt by (auto simp: pool_ok_dev_id 1(5) intro!: exI [of _ bad] exI [of _ hs] exI [of _ bm])
          show thesis
            by (rule ok [OF r(1) np, where c' = c1]) (use r 1(3,5,8,9) stt 2 D(2,3) in \<open>simp_all\<close>)
        qed
      qed
    qed
  qed
qed

lemma free_new_pool:
  assumes "bk_setup p = sp" "st_block_num sp = bk_free_blk_num p" "\<not> mo_free (st_ops sp)" "bk_cinfo p = Some c" "cf_ss_va c \<noteq> 0" "\<not> bk_sva_mode p"
    "bk_blk_array p \<noteq> None" "bk_free_bitmap p \<noteq> None"
  shows "wd_mempool_free (Some ctx) (Some p)
    (r\<lparr>br_maps := (cf_ss_va c, cf_ss_mm_size c) # br_maps r, br_heap := br_heap r + length (cf_ss_list c) + 4, br_locks := br_locks r + 1\<rparr>) = Some (None, r)"
  using assms by (simp add: wd_mempool_free_def wd_pool_uninit_def wd_free_slice_def wd_unmap_reserve_mem_def Let_def)


subsection \<open>Concrete pools\<close>

text \<open>Three blocks of 32 bytes at a stride of 64, at the given device addresses.\<close>

definition no_ops :: wd_mm_ops where
  "no_ops = \<lparr>mo_sva_mode = False, mo_alloc = False, mo_free = False, mo_iova_map = False, mo_usr = False\<rparr>"

definition hds3 :: "nat \<Rightarrow> nat \<Rightarrow> nat \<Rightarrow> wd_blk_hd list" where
  "hds3 d0 d1 d2 = [\<lparr>bh_tag = TAG_FREE, bh_num = 0, bh_dma = d0, bh_blk = 4096\<rparr>,
     \<lparr>bh_tag = TAG_FREE, bh_num = 0, bh_dma = d1, bh_blk = 4160\<rparr>, \<lparr>bh_tag = TAG_FREE, bh_num = 0, bh_dma = d2, bh_blk = 4224\<rparr>]"

definition pool3 :: "nat \<Rightarrow> nat \<Rightarrow> nat \<Rightarrow> wd_blkpool" where
  "pool3 d0 d1 d2 = (zero_blkpool \<lparr>st_block_size = 32, st_block_num = 3, st_align_size = 32, st_ops = no_ops\<rparr>)
     \<lparr>bk_free_blk_num := 3, bk_blk_array := Some (hds3 d0 d1 d2), bk_total_blocks := 3, bk_free_bitmap := Some [0], bk_bitmap_size := 1,
      bk_usr_mem_start := 4096, bk_act_start := 4096, bk_act_hd_sz := 32, bk_act_blk_sz := 32, bk_act_mem_sz := 224\<rparr>"

lemma pool3_ok: "pool_ok {} (pool3 d0 d1 d2) (hds3 d0 d1 d2) [0]" "live_runs {} (hds3 d0 d1 d2) = {}"
proof -
  have b: "\<not> byte_get [0] j" if "j < 8" for j using that by (simp add: byte_get_def)
  have c: "{j. j < Suc (Suc (Suc 0)) \<and> \<not> byte_get [0] j} = {..< 3}" using b by auto
  show "live_runs {} (hds3 d0 d1 d2) = {}" by (auto simp: live_runs_def hds3_def nth_Cons')
  show "pool_ok {} (pool3 d0 d1 d2) (hds3 d0 d1 d2) [0]"
    by (rule pool_okI) (auto simp: pool_shape_def pool3_def zero_blkpool_def hds3_def b c nth_Cons')
qed

theorem bmm_buffers_exclusive_witness:
  "\<exists>p' held. client_run wd_mem_alloc wd_mem_free [Take 40, Take 10, Give 0, Take 5] (Some (pool3 8192 8256 8320)) [] = Some (Some p', held) \<and>
    list_all (\<lambda>(a, n). 4096 \<le> a \<and> a + n \<le> 4288) held"
  using bmm_buffers_exclusive [OF pool3_ok, of "[Take 40, Take 10, Give 0, Take 5]" 8192 8256 8320] by (auto simp: pool3_def zero_blkpool_def)

lemmas bmm_eval = wd_mem_alloc_def wd_mem_free_def wd_mem_map_def wd_find_contiguous_blocks_def find_contiguous.simps bitmap_test_bit_def
  mark_blk_used_def mark_blk_free_def mark_blk_def on_bitmap_def bitmap_set_bit_def bitmap_clear_bit_def rd_def wr_def zero_blkpool_def
  u32_def u64_def sub64_def sub32_def MAX_SKIP_ATTEMPTS_def TAG_FREE_def TAG_USED_def upt_rec Let_def nth_Cons'

text \<open>
  The check for contiguous device addresses looks at the ends only: three blocks are handed out as one buffer although the
  middle one is elsewhere for the device.
\<close>

lemma contiguous_ends_only:
  "\<exists>p'. wd_mem_alloc (Some (pool3 1048576 9437184 1048704)) 96 = Some (4096, Some p') \<and>
    wd_mem_map (Some p') 4096 96 = Some 1048576 \<and> wd_mem_map (Some p') 4160 32 = Some 9437184"
  by (simp add: bmm_eval pool3_def hds3_def no_ops_def)

theorem mem_alloc_free_witness:
  "\<exists>p'. wd_mem_alloc (Some (pool3 8192 8256 8320)) 40 = Some (4096, Some p') \<and> wd_mem_free (Some p') 4096 = Some (Some (pool3 8192 8256 8320))"
proof -
  have "\<exists>p'. wd_mem_alloc (Some (pool3 8192 8256 8320)) 40 = Some (4096, Some p')"
    by (simp add: bmm_eval pool3_def hds3_def no_ops_def)
  then show ?thesis using mem_alloc_free [OF pool3_ok(1), of 40 8192 8256 8320 4096] by auto
qed

theorem mem_alloc_succeeds_witness:
  "\<exists>a p'. wd_mem_alloc (Some (pool3 8192 8256 8320)) 40 = Some (a, Some p') \<and> a \<noteq> 0"
proof -
  have n: "blocks_for (pool3 8192 8256 8320) 40 = 2" by (simp add: blocks_for_def pool3_def)
  have f: "\<forall>j \<in> {0 ..< 0 + 2}. \<not> byte_get [0] j" by (auto simp: byte_get_def)
  have "\<forall>t. t + 2 \<le> length (hds3 8192 8256 8320) \<longrightarrow> ends_contiguous (hds3 8192 8256 8320) t 2"
    by (auto simp: ends_contiguous_def hds3_def sub64_def nth_Cons')
  then show ?thesis using mem_alloc_succeeds [OF pool3_ok(1), of 40 0 8192 8256 8320] n f by (simp add: hds3_def)
qed

definition bmm_dev :: uacce_dev where
  "bmm_dev = \<lparr>ud_flags = 128, ud_numa_id = 0, ud_api = '''', ud_algs = '''', ud_dev_root = '''', ud_char_dev_path = '''', ud_qfrs_mmio = 0, ud_qfrs_dus = 0\<rparr>"

definition bmm_ctx :: "string \<Rightarrow> wd_ctx_h" where
  "bmm_ctx path = \<lparr>cx_fd = 5, cx_dev_path = path, cx_dev_name = '''', cx_drv_name = '''', cx_qfrs_offs = [], cx_qfrs_base = [],
     cx_dev = Some bmm_dev, cx_priv = 0\<rparr>"

definition bmm_ev :: bmm_env where
  "bmm_ev = \<lparr>be_oks = [], be_spin = 0, be_mmap = Some 65536, be_dma = [(0, 8388608)],
     be_junk = (\<lambda>_. \<lparr>bh_tag = 7, bh_num = 7, bh_dma = 7, bh_blk = 7\<rparr>), be_usr_alloc = (\<lambda>_. 0), be_usr_map = (\<lambda>_ _. 0),
     be_hp = node0_env, be_numa_max = 0, be_hp_oks = [], be_bp_oks = []\<rparr>"

definition bmm_setup2 :: wd_mempool_setup where
  "bmm_setup2 = \<lparr>st_block_size = 32, st_block_num = 2, st_align_size = 32, st_ops = no_ops\<rparr>"

definition no_res :: bmm_res where
  "no_res = \<lparr>br_heap = 0, br_maps = [], br_usr = [], br_locks = 0, br_usr_hds = []\<rparr>"

lemma bmm_ctx_no_sva: "wd_is_sva (Some (bmm_ctx path)) = Inr False"
  by (simp add: wd_is_sva_def bmm_ctx_def bmm_dev_def wd_check_ctx_type_def MAX_FD_NUM_def UACCE_DEV_SVA_def u32_of_int_def)

lemma bmm_ctx_fields: "cx_fd (bmm_ctx path) = 5" "cx_dev_path (bmm_ctx path) = path" "cx_dev (bmm_ctx path) = Some bmm_dev"
  "cx_qfrs_offs (bmm_ctx path) = []" "ud_flags bmm_dev = 128"
  by (simp_all add: bmm_ctx_def bmm_dev_def)

definition bmm_cinfo2 :: ctx_info where
  "bmm_cinfo2 = \<lparr>cf_fd = 5, cf_iommu_type = True, cf_ss_va = 65536, cf_ss_mm_size = 160,
     cf_ss_list = [\<lparr>sr_pa = 8388608, sr_va = 65536, sr_size = 160\<rparr>], cf_qfrs_offset = []\<rparr>"

definition bmm_laid2 :: wd_blkpool where
  "bmm_laid2 = (zero_blkpool bmm_setup2)\<lparr>bk_cinfo := Some (bmm_cinfo2\<lparr>cf_ss_va := 0, cf_ss_mm_size := 0, cf_ss_list := []\<rparr>),
     bk_act_hd_sz := 32, bk_act_blk_sz := 32, bk_act_mem_sz := 160\<rparr>"

lemma bmm_laid2: "wd_pool_pre_layout oks (Some (bmm_ctx path)) (zero_blkpool bmm_setup2) bmm_setup2 r = 
  (if fst (calloc_ok oks) then Some (Inr (), bmm_laid2, snd (calloc_ok oks), heap_add 1 r) else Some (Inl WD_ENOMEM, zero_blkpool bmm_setup2, snd (calloc_ok oks), r))"
  by (simp add: wd_pool_pre_layout_def wd_ctx_info_init_def wd_pool_params_check_def act_layout_def ALIGN_def bmm_consts bmm_ctx_fields
      bmm_setup2_def no_ops_def bmm_laid2_def bmm_cinfo2_def u32_def u64_def u32_of_int_def zero_blkpool_def Let_def bit_iff_odd split: prod.splits)

lemma bmm_mapped2: "wd_map_reserve_mem bmm_ev [] bmm_laid2 160 r =
  Some (65536, bmm_laid2\<lparr>bk_cinfo := Some bmm_cinfo2\<rparr>, [], r\<lparr>br_maps := (65536, 160) # br_maps r, br_heap := br_heap r + 1\<rparr>)"
  by (simp add: wd_map_reserve_mem_def bmm_laid2_def bmm_cinfo2_def bmm_ev_def wd_add_slice_def bmm_consts u64_def Let_def)

definition bmm_pool2 :: wd_blkpool where
  "bmm_pool2 = bmm_laid2\<lparr>bk_cinfo := Some bmm_cinfo2, bk_usr_mem_start := 65536, bk_act_start := 65536, bk_total_blocks := 2, bk_bitmap_size := 1,
     bk_blk_array := Some [\<lparr>bh_tag = TAG_FREE, bh_num = 0, bh_dma = 8388608, bh_blk = 65536\<rparr>,
       \<lparr>bh_tag = TAG_FREE, bh_num = 0, bh_dma = 8388672, bh_blk = 65600\<rparr>],
     bk_free_bitmap := Some [0], bk_free_blk_num := 2\<rparr>"

lemma bmm_inited2: "wd_pool_init bmm_ev [] (bmm_laid2\<lparr>bk_cinfo := Some bmm_cinfo2, bk_usr_mem_start := 65536\<rparr>) r = Some (Inr (), bmm_pool2, heap_add 2 r)"
proof -
  have u: "[0 ..< 2] = [0, 1 :: nat]" by (simp add: upt_rec)
  have "init_blocks (Some bmm_cinfo2) 32 65536 64 [0 ..< 2] (map (be_junk bmm_ev) [0 ..< 2]) [0] 0 =
    Some (True, [\<lparr>bh_tag = TAG_FREE, bh_num = 0, bh_dma = 8388608, bh_blk = 65536\<rparr>, \<lparr>bh_tag = TAG_FREE, bh_num = 0, bh_dma = 8388672, bh_blk = 65600\<rparr>], [0], 2)"
    by (simp add: u wd_iova_map_def bmm_cinfo2_def u64_def sub64_def sub32_def Let_def)
  then show ?thesis
    by (simp add: wd_pool_init_def bmm_laid2_def bmm_setup2_def zero_blkpool_def bmm_pool2_def ALIGN_def u32_def NUM_TIMES_def Let_def)
qed

lemma bmm_create2:
  "wd_mempool_alloc bmm_ev (Some (bmm_ctx path)) (Some bmm_setup2) no_res =
    (case wd_parse_dev_id path of
       Inr d \<Rightarrow> Some (Some (bmm_pool2\<lparr>bk_dev_id := d\<rparr>), Some bmm_setup2, no_res\<lparr>br_heap := 5, br_maps := [(65536, 160)], br_locks := 1\<rparr>)
     | Inl e \<Rightarrow> Some (None, Some bmm_setup2, no_res\<lparr>br_heap := 1\<rparr>))"
proof -
  have o: "\<not> mo_alloc (st_ops bmm_setup2)" "be_oks bmm_ev = []" "be_spin bmm_ev = 0" "bk_act_mem_sz bmm_laid2 = 160"
    by (simp_all add: bmm_setup2_def no_ops_def bmm_ev_def bmm_laid2_def)
  have s: "bmm_setup2\<lparr>st_block_num := st_block_num (bk_setup bmm_pool2)\<rparr> = bmm_setup2" by (simp add: bmm_setup2_def bmm_pool2_def bmm_laid2_def zero_blkpool_def)
  have u: "wd_pool_uninit bmm_pool2 r = (bmm_pool2\<lparr>bk_free_bitmap := None, bk_blk_array := None\<rparr>, heap_sub 2 r)" for r
    by (simp add: wd_pool_uninit_def bmm_pool2_def)
  show ?thesis
    by (simp add: wd_mempool_alloc_def bmm_ctx_no_sva o bmm_laid2 wd_mempool_init_def bmm_mapped2 bmm_inited2 bmm_ctx_fields s u
        mempool_init_err_def wd_free_slice_def wd_unmap_reserve_mem_def no_res_def split: sum.splits)
      (simp add: bmm_pool2_def bmm_cinfo2_def wd_free_slice_def wd_unmap_reserve_mem_def)
qed

lemma parse_dev_1: "wd_parse_dev_id ''/dev/sec2-1'' = Inr 1" "wd_parse_dev_id ''sec'' = Inl WD_EINVAL"
  by (simp_all add: wd_parse_dev_id_def strtol_rest_def string_eval i32_def Let_def)


text \<open>A device path without a number makes the creation fail, and the context information stays allocated.\<close>

lemma create_fail_leaks:
  "\<exists>r'. wd_mempool_alloc bmm_ev (Some (bmm_ctx ''sec'')) (Some bmm_setup2) no_res = Some (None, Some bmm_setup2, r') \<and> br_heap r' = 1"
  using bmm_create2 [of "''sec''"] by (simp add: parse_dev_1)

text \<open>A pool in the user's memory has no array of blocks, and never serves a request.\<close>

lemma user_pool_serves_nothing:
  assumes "wd_mempool_alloc ev (Some ctx) (Some sp) r = Some (Some p, sp', r')" and "wd_is_sva (Some ctx) = Inr False"
    and "mo_alloc (st_ops sp)" "mo_free (st_ops sp)" "mo_iova_map (st_ops sp)"
  shows "map_option fst (wd_mem_alloc (Some p) sz) = Some 0"
proof -
  let ?l = "act_layout (zero_blkpool sp) sp"
  have l: "bk_total_blocks ?l = 0" "\<not> bk_sva_mode ?l" by (simp_all add: act_layout_def zero_blkpool_def Let_def)
  have ui: "usr_pool_init ev q r1 = (res, q', r2) \<Longrightarrow> bk_total_blocks q' = bk_total_blocks q \<and> bk_sva_mode q' = bk_sva_mode q" for q r1 res q' r2
    by (auto simp: usr_pool_init_def Let_def split: prod.splits bool.splits)
  from assms obtain oks r1 sp2 where "wd_mempool_init ev oks ctx ?l sp r1 = Some (Inr (), p, sp2, r')"
    by (auto simp: wd_mempool_alloc_def wd_pool_pre_layout_def Let_def split: prod.splits if_splits sum.splits option.splits)
  then obtain addr r2 q r3 d where "usr_pool_init ev (?l\<lparr>bk_usr_mem_start := addr\<rparr>) r2 = (Inr (), q, r3)" "p = q\<lparr>bk_dev_id := d\<rparr>"
    using assms(3-5) by (auto simp: wd_mempool_init_def Let_def split: prod.splits if_splits sum.splits option.splits)
  then have "bk_total_blocks p = 0 \<and> \<not> bk_sva_mode p" using ui l by fastforce
  then show ?thesis by (auto simp: wd_mem_alloc_def wd_find_contiguous_blocks_def Let_def)
qed

text \<open>The number of blocks is cut to 32 bits: a request of 128 GiB and a byte gets a single block of 32 bytes.\<close>

lemma huge_request_truncated: "map_option fst (wd_mem_alloc (Some (pool3 8192 8256 8320)) (2 ^ 37 + 1)) = Some 4096"
  by (simp add: bmm_eval pool3_def hds3_def no_ops_def)

end
