(* ===== verification/Sched_Hash.thy ===== *)
theory Sched_Hash
  imports Uadk_Interfaces
begin

text \<open>
  The scheduling domains of \<^verbatim>\<open>wd_sched.c\<close> (lines 31--592): the prime-sized hash table that maps
  (region, mode, operation type, property) to a domain, and the segments of a domain with their
  round-robin cursor.

  A bucket's collision chain is a list (head first). A pointer to a domain inside the table is
  its key, because a key occurs at most once; writing through such a pointer is \<open>domain_store\<close>. The
  segment list is a list and \<^verbatim>\<open>current_segment\<close> an index into it (\<open>None\<close> for \<^verbatim>\<open>NULL\<close>). The mutexes
  serialise the operations, so each one is a single step.
\<close>

definition WD_SCHED_MAX_BUCKETS :: nat where "WD_SCHED_MAX_BUCKETS = 512"
definition WD_SCHED_MIN_BUCKETS :: nat where "WD_SCHED_MIN_BUCKETS = 32"
definition HASH_PRIME1 :: nat where "HASH_PRIME1 = 73"
definition HASH_PRIME2 :: nat where "HASH_PRIME2 = 13"
definition HASH_PRIME3 :: nat where "HASH_PRIME3 = 7"
definition HASH_PRIME4 :: nat where "HASH_PRIME4 = 11"
definition INVALID_POS :: nat where "INVALID_POS = 0xFFFFFFFF"
definition SCHED_MODE_SYNC :: nat where "SCHED_MODE_SYNC = 0"
definition SCHED_MODE_ASYNC :: nat where "SCHED_MODE_ASYNC = 1"
definition SCHED_MODE_BUTT :: nat where "SCHED_MODE_BUTT = 2"

subsection \<open>State\<close>

record wd_sched_ctx_segment =
  seg_begin :: nat
  seg_end :: nat

record wd_sched_ctx_domain =
  cd_region_id :: int
  cd_mode :: nat
  cd_op_type :: nat
  cd_prop :: nat
  cd_segments :: "wd_sched_ctx_segment list"
  cd_segment_count :: nat
  cd_total_ctx_count :: nat
  cd_current_segment :: "nat option"
  cd_current_pos :: nat
  cd_valid :: bool

record wd_sched_domain_hash_table =
  ht_buckets :: "wd_sched_ctx_domain list list"
  ht_bucket_size :: nat
  ht_entry_count :: nat
  ht_max_chain_length :: nat

subsection \<open>Bucket count\<close>

text \<open>The loop counter is an unsigned 32-bit integer; for large \<open>n\<close> its square can wrap.\<close>

partial_function (option) is_prime_loop :: "nat \<Rightarrow> nat \<Rightarrow> bool option" where
  [code]: "is_prime_loop n i =
    (if u32 (i * i) \<le> n then
       (if n mod i = 0 \<or> n mod u32 (i + 2) = 0 then Some False else is_prime_loop n (u32 (i + 6)))
     else Some True)"

definition wd_sched_is_prime :: "nat \<Rightarrow> bool option" where
  "wd_sched_is_prime n =
    (if n \<le> 1 then Some False
     else if n \<le> 3 then Some True
     else if n mod 2 = 0 \<or> n mod 3 = 0 then Some False
     else is_prime_loop n 5)"

partial_function (option) wd_sched_find_prime :: "nat \<Rightarrow> nat option" where
  [code]: "wd_sched_find_prime n =
    (case wd_sched_is_prime n of
       None \<Rightarrow> None
     | Some p \<Rightarrow> if p then Some n else wd_sched_find_prime (u32 (n + 1)))"

definition wd_sched_compute_bucket_size :: "nat \<Rightarrow> nat option" where
  "wd_sched_compute_bucket_size estimated_entries =
    (let target_size = u32 (estimated_entries * 4) div 3;
         target_size = (if target_size < WD_SCHED_MIN_BUCKETS then WD_SCHED_MIN_BUCKETS else target_size);
         target_size = (if target_size > WD_SCHED_MAX_BUCKETS then WD_SCHED_MAX_BUCKETS else target_size) in
     wd_sched_find_prime target_size)"

subsection \<open>The hash table\<close>

definition wd_sched_hash_compute :: "int \<Rightarrow> nat \<Rightarrow> nat \<Rightarrow> nat \<Rightarrow> nat \<Rightarrow> nat" where
  "wd_sched_hash_compute region_id mode op_type prop bucket_size =
    u32_of_int (region_id * int HASH_PRIME1 + int (mode * HASH_PRIME2) +
      int (op_type * HASH_PRIME3) + int (prop * HASH_PRIME4)) mod bucket_size"

definition wd_sched_domain_key_match ::
  "int \<Rightarrow> nat \<Rightarrow> nat \<Rightarrow> nat \<Rightarrow> int \<Rightarrow> nat \<Rightarrow> nat \<Rightarrow> nat \<Rightarrow> bool" where
  "wd_sched_domain_key_match region_id1 mode1 op_type1 prop1 region_id2 mode2 op_type2 prop2 \<longleftrightarrow>
    region_id1 = region_id2 \<and> mode1 = mode2 \<and> op_type1 = op_type2 \<and> prop1 = prop2"

abbreviation domain_matches :: "int \<Rightarrow> nat \<Rightarrow> nat \<Rightarrow> nat \<Rightarrow> wd_sched_ctx_domain \<Rightarrow> bool" where
  "domain_matches region_id mode op_type prop d \<equiv>
    wd_sched_domain_key_match (cd_region_id d) (cd_mode d) (cd_op_type d) (cd_prop d) region_id mode op_type prop"

text \<open>
  \<^verbatim>\<open>wd_sched_hash_table_create\<close>: \<open>Some None\<close> is \<^verbatim>\<open>NULL\<close>, after a failed allocation or a failed
  \<^verbatim>\<open>pthread_mutex_init\<close> (whose outcome is \<open>lock_ok\<close>).
\<close>

definition wd_sched_hash_table_create ::
  "bool list \<Rightarrow> bool \<Rightarrow> nat \<Rightarrow> (wd_sched_domain_hash_table option \<times> bool list) option" where
  "wd_sched_hash_table_create oks lock_ok estimated_entries =
    (let (ok, oks) = calloc_ok oks in
     if \<not> ok then Some (None, oks)
     else case wd_sched_compute_bucket_size estimated_entries of
         None \<Rightarrow> None
       | Some bucket_size \<Rightarrow>
           (let (ok, oks) = calloc_ok oks in
            if \<not> ok then Some (None, oks)
            else if \<not> lock_ok then Some (None, oks)
            else Some (Some \<lparr>ht_buckets = replicate bucket_size [], ht_bucket_size = bucket_size,
                            ht_entry_count = 0, ht_max_chain_length = 0\<rparr>, oks)))"

definition wd_sched_hash_table_lookup ::
  "wd_sched_domain_hash_table option \<Rightarrow> int \<Rightarrow> nat \<Rightarrow> nat \<Rightarrow> nat \<Rightarrow> wd_sched_ctx_domain option option" where
  "wd_sched_hash_table_lookup table region_id mode op_type prop =
    (case table of
       None \<Rightarrow> Some None
     | Some t \<Rightarrow>
         (case rd (ht_buckets t) (wd_sched_hash_compute region_id mode op_type prop (ht_bucket_size t)) of
            None \<Rightarrow> None
          | Some chain \<Rightarrow> Some (List.find (domain_matches region_id mode op_type prop) chain)))"

definition new_domain :: "int \<Rightarrow> nat \<Rightarrow> nat \<Rightarrow> nat \<Rightarrow> wd_sched_ctx_domain" where
  "new_domain region_id mode op_type prop =
    \<lparr>cd_region_id = region_id, cd_mode = mode, cd_op_type = op_type, cd_prop = prop, cd_segments = [],
     cd_segment_count = 0, cd_total_ctx_count = 0, cd_current_segment = None, cd_current_pos = 0,
     cd_valid = False\<rparr>"

text \<open>
  \<^verbatim>\<open>wd_sched_hash_table_insert\<close> returns the domain (\<open>None\<close> for \<^verbatim>\<open>NULL\<close>) and the table. It looks the key up under the
  lock of the table, releases it, and takes it again to add a node without a second look; \<open>hash_table_add\<close> is the second
  critical section. Its local variable \<^verbatim>\<open>chain_length\<close> is read without having been set; its indeterminate value is the
  parameter \<open>chain_length\<close>, which only reaches the statistics field \<^verbatim>\<open>max_chain_length\<close>.
\<close>

definition hash_table_add ::
  "bool list \<Rightarrow> bool \<Rightarrow> nat \<Rightarrow> wd_sched_domain_hash_table \<Rightarrow> int \<Rightarrow> nat \<Rightarrow> nat \<Rightarrow> nat
    \<Rightarrow> (wd_sched_ctx_domain option \<times> wd_sched_domain_hash_table option \<times> bool list) option" where
  "hash_table_add oks lock_ok chain_length t region_id mode op_type prop =
    (let hash_idx = wd_sched_hash_compute region_id mode op_type prop (ht_bucket_size t);
         (ok, oks) = calloc_ok oks in
     if \<not> ok then Some (None, Some t, oks)
     else if \<not> lock_ok then Some (None, Some t, oks)
     else
       (case rd (ht_buckets t) hash_idx of
          None \<Rightarrow> None
        | Some chain \<Rightarrow>
            (let d = new_domain region_id mode op_type prop;
                 t = t\<lparr>ht_buckets := (ht_buckets t)[hash_idx := d # chain],
                       ht_entry_count := u32 (ht_entry_count t + 1)\<rparr>;
                 t = (if chain \<noteq> [] \<and> u32 (chain_length + 1) > ht_max_chain_length t
                      then t\<lparr>ht_max_chain_length := u32 (chain_length + 1)\<rparr> else t) in
             Some (Some d, Some t, oks))))"

definition wd_sched_hash_table_insert ::
  "bool list \<Rightarrow> bool \<Rightarrow> nat \<Rightarrow> wd_sched_domain_hash_table option \<Rightarrow> int \<Rightarrow> nat \<Rightarrow> nat \<Rightarrow> nat
    \<Rightarrow> (wd_sched_ctx_domain option \<times> wd_sched_domain_hash_table option \<times> bool list) option" where
  "wd_sched_hash_table_insert oks lock_ok chain_length table region_id mode op_type prop =
    (case table of
       None \<Rightarrow> Some (None, None, oks)
     | Some t \<Rightarrow>
         (case wd_sched_hash_table_lookup (Some t) region_id mode op_type prop of
            None \<Rightarrow> None
          | Some (Some existing) \<Rightarrow> Some (Some existing, Some t, oks)
          | Some None \<Rightarrow> hash_table_add oks lock_ok chain_length t region_id mode op_type prop))"

text \<open>
  Two threads that register the same new key at the same time both find nothing and then both add a node: the bucket has two
  domains of the key. The properties of the table are those of registrations one after another.
\<close>

lemma racing_inserts:
  assumes "wd_sched_hash_table_lookup (Some t) r m ty p = Some None"
    and "hash_table_add [] True c1 t r m ty p = Some (Some d1, Some t1, [])" and "hash_table_add [] True c2 t1 r m ty p = Some (Some d2, Some t2, [])"
  shows "d1 = d2 \<and> take 2 (ht_buckets t2 ! wd_sched_hash_compute r m ty p (ht_bucket_size t)) = [d1, d2]"
  using assms(2,3) by (auto simp: hash_table_add_def Let_def split: option.splits if_splits)

text \<open>Writing a domain back through a pointer into the table.\<close>

fun store_chain :: "wd_sched_ctx_domain \<Rightarrow> wd_sched_ctx_domain list \<Rightarrow> wd_sched_ctx_domain list" where
  "store_chain d [] = []"
| "store_chain d (e # es) =
    (if domain_matches (cd_region_id d) (cd_mode d) (cd_op_type d) (cd_prop d) e then d # es
     else e # store_chain d es)"

definition domain_store ::
  "wd_sched_domain_hash_table \<Rightarrow> wd_sched_ctx_domain \<Rightarrow> wd_sched_domain_hash_table" where
  "domain_store t d =
    (let i = wd_sched_hash_compute (cd_region_id d) (cd_mode d) (cd_op_type d) (cd_prop d) (ht_bucket_size t) in
     t\<lparr>ht_buckets := (ht_buckets t)[i := store_chain d (ht_buckets t ! i)]\<rparr>)"

subsection \<open>Segments and the round-robin cursor\<close>

definition wd_sched_domain_add_segment ::
  "bool list \<Rightarrow> wd_sched_ctx_domain option \<Rightarrow> nat \<Rightarrow> nat
    \<Rightarrow> unit result \<times> wd_sched_ctx_domain option \<times> bool list" where
  "wd_sched_domain_add_segment oks domain begin_idx end_idx =
    (case domain of
       None \<Rightarrow> (Inl WD_EINVAL, None, oks)
     | Some d \<Rightarrow>
         if begin_idx > end_idx then (Inl WD_EINVAL, Some d, oks)
         else
           (let (ok, oks) = calloc_ok oks in
            if \<not> ok then (Inl WD_ENOMEM, Some d, oks)
            else
              (let d = d\<lparr>cd_segments := cd_segments d @ [\<lparr>seg_begin = begin_idx, seg_end = end_idx\<rparr>],
                         cd_segment_count := u32 (cd_segment_count d + 1),
                         cd_total_ctx_count := u32 (cd_total_ctx_count d + (end_idx - begin_idx + 1))\<rparr>;
                   d = (case cd_current_segment d of
                          None \<Rightarrow> d\<lparr>cd_current_segment := Some 0\<rparr>
                        | Some _ \<Rightarrow> d) in
               (Inr (), Some d, oks))))"

definition wd_sched_domain_get_next_rr ::
  "wd_sched_ctx_domain option \<Rightarrow> (nat \<times> wd_sched_ctx_domain option) option" where
  "wd_sched_domain_get_next_rr domain =
    (case domain of
       None \<Rightarrow> Some (INVALID_POS, None)
     | Some d \<Rightarrow>
         if cd_segments d = [] \<or> cd_total_ctx_count d = 0 then Some (INVALID_POS, Some d)
         else
           (let cur = (case cd_current_segment d of None \<Rightarrow> 0 | Some c \<Rightarrow> c);
                pos = cd_current_pos d in
            case rd (cd_segments d) cur of
              None \<Rightarrow> None
            | Some s \<Rightarrow>
                (let ctx_idx = u32 (seg_begin s + pos);
                     d = d\<lparr>cd_current_segment := Some cur\<rparr>;
                     d = (if u32 (pos + 1) < u32 (sub32 (seg_end s) (seg_begin s) + 1)
                          then d\<lparr>cd_current_pos := pos + 1\<rparr>
                          else if cur + 1 < length (cd_segments d)
                          then d\<lparr>cd_current_segment := Some (cur + 1), cd_current_pos := 0\<rparr>
                          else d\<lparr>cd_current_segment := Some 0, cd_current_pos := 0\<rparr>) in
                 Some (ctx_idx, Some d))))"

subsection \<open>Primes\<close>

definition prime_nat :: "nat \<Rightarrow> bool" where
  "prime_nat n \<longleftrightarrow> 1 < n \<and> (\<forall>d. d dvd n \<longrightarrow> d = 1 \<or> d = n)"

text \<open>No divisor below \<open>i\<close>.\<close>

definition no_div :: "nat \<Rightarrow> nat \<Rightarrow> bool" where
  "no_div n i \<longleftrightarrow> (\<forall>d. 1 < d \<and> d < i \<longrightarrow> \<not> d dvd n)"

lemma no_div_step:
  assumes "no_div n i" and "i mod 6 = 5" and "\<not> 2 dvd n" and "\<not> 3 dvd n"
    and "\<not> i dvd n" and "\<not> (i + 2) dvd n"
  shows "no_div n (i + 6)"
  unfolding no_div_def
proof (intro allI impI)
  fix d assume d: "1 < d \<and> d < i + 6"
  show "\<not> d dvd n"
  proof
    assume dvd: "d dvd n"
    have "d \<noteq> i" "d \<noteq> i + 2" using dvd assms(5,6) by auto
    moreover have "i \<le> d" using dvd d assms(1) by (auto simp: no_div_def not_less)
    ultimately have "d = i + 1 \<or> d = i + 3 \<or> d = i + 4 \<or> d = i + 5" using d by auto
    then have "2 dvd d \<or> 3 dvd d" using assms(2) by presburger
    then show False using dvd assms(3,4) dvd_trans by blast
  qed
qed

lemma no_div_prime:
  assumes "1 < n" and "no_div n i" and "n < i * i"
  shows "prime_nat n"
  unfolding prime_nat_def
proof (intro conjI allI impI)
  fix d assume "d dvd n"
  then obtain e where e: "n = d * e" by (auto elim: dvdE)
  show "d = 1 \<or> d = n"
  proof (rule ccontr)
    assume "\<not> (d = 1 \<or> d = n)"
    then have "1 < d" "1 < e" using e assms(1) by (auto intro: Suc_lessI gr0I simp: nat_neq_iff)
    then have "i \<le> d" "i \<le> e" using assms(2) e by (auto simp: no_div_def not_less)
    then have "i * i \<le> d * e" by (rule mult_le_mono)
    then show False using assms(3) e by simp
  qed
qed (use assms in simp)

lemma not_prime_div: "d dvd n \<Longrightarrow> 1 < d \<Longrightarrow> d < n \<Longrightarrow> \<not> prime_nat n"
  by (auto simp: prime_nat_def)

lemma is_prime_loop_correct:
  assumes "no_div n i" and "i mod 6 = 5" and "\<not> 2 dvd n" and "\<not> 3 dvd n" and "n < 2 ^ 31" and "1 < n"
    and "i \<le> 46350"
  shows "is_prime_loop n i = Some (prime_nat n)"
  using assms
proof (induction "46350 - i" arbitrary: i rule: less_induct)
  case less
  have sq: "i * i \<le> 46350 * 46350" using less.prems(7) by (intro mult_le_mono)
  then have u: "u32 (i * i) = i * i" "u32 (i + 2) = i + 2" "u32 (i + 6) = i + 6"
    using less.prems(7) by (auto intro!: u32_small)
  have i5: "5 \<le> i" using less.prems(2) by presburger
  show ?case
  proof (cases "i * i \<le> n")
    case False
    then show ?thesis using no_div_prime [OF less.prems(6,1)] u
      by (subst is_prime_loop.simps) simp
  next
    case True
    have "i + 2 < i * i"
    proof -
      have "5 * i \<le> i * i" using i5 by (rule mult_le_mono1)
      then show ?thesis using i5 by linarith
    qed
    then have small: "i + 2 < n" using True by linarith
    show ?thesis
    proof (cases "i dvd n \<or> (i + 2) dvd n")
      case div: True
      then have "\<not> prime_nat n" using not_prime_div small i5 by auto
      then show ?thesis using div True u by (subst is_prime_loop.simps) (auto simp: dvd_eq_mod_eq_0)
    next
      case nodiv: False
      have "i < 46341"
      proof (rule ccontr)
        assume "\<not> ?thesis"
        then have "46341 * 46341 \<le> i * i" by (intro mult_le_mono) auto
        then show False using True less.prems(5) by simp
      qed
      then have le: "i + 6 \<le> 46350" "46350 - (i + 6) < 46350 - i" by auto
      have "(i + 6) mod 6 = 5" using less.prems(2) by simp
      from less.hyps [OF le(2) _ this less.prems(3-6) le(1)] no_div_step [OF less.prems(1-4)] nodiv
      have "is_prime_loop n (i + 6) = Some (prime_nat n)" by blast
      then show ?thesis using nodiv True u by (subst is_prime_loop.simps) (auto simp: dvd_eq_mod_eq_0)
    qed
  qed
qed

lemma is_prime_correct:
  assumes "n < 2 ^ 31"
  shows "wd_sched_is_prime n = Some (prime_nat n)"
proof -
  consider "n \<le> 1" | "n = 2 \<or> n = 3" | "3 < n" "2 dvd n \<or> 3 dvd n" | "3 < n" "\<not> 2 dvd n" "\<not> 3 dvd n"
    by linarith
  then show ?thesis
  proof cases
    case 1
    then show ?thesis by (auto simp: wd_sched_is_prime_def prime_nat_def)
  next
    case 2
    then have "no_div n 2" "n < 2 * 2" by (auto simp: no_div_def)
    then have "prime_nat n" using 2 no_div_prime [of n 2] by auto
    with 2 show ?thesis by (auto simp: wd_sched_is_prime_def)
  next
    case 3
    then have "\<not> prime_nat n" using not_prime_div [of 2 n] not_prime_div [of 3 n] by auto
    with 3 show ?thesis by (auto simp: wd_sched_is_prime_def dvd_eq_mod_eq_0)
  next
    case 4
    have "\<not> d dvd n" if "1 < d" "d < 5" for d
    proof
      assume "d dvd n"
      moreover have "d = 2 \<or> d = 3 \<or> d = 4" using that by auto
      moreover have "(2::nat) dvd 4" by simp
      ultimately show False using 4 dvd_trans by blast
    qed
    then have "no_div n 5" by (auto simp: no_div_def)
    with 4 assms have "is_prime_loop n 5 = Some (prime_nat n)" by (intro is_prime_loop_correct) auto
    with 4 show ?thesis by (simp add: wd_sched_is_prime_def dvd_eq_mod_eq_0)
  qed
qed

lemma find_prime_correct:
  assumes "prime_nat p" and "n \<le> p" and "p < 2 ^ 31"
  shows "\<exists>q. wd_sched_find_prime n = Some q \<and> prime_nat q \<and> n \<le> q \<and> q \<le> p \<and>
    (\<forall>m. n \<le> m \<and> m < q \<longrightarrow> \<not> prime_nat m)"
  using assms
proof (induction "p - n" arbitrary: n rule: less_induct)
  case less
  have prime: "wd_sched_is_prime n = Some (prime_nat n)" using less.prems by (intro is_prime_correct) simp
  show ?case
  proof (cases "prime_nat n")
    case True
    then show ?thesis using prime less.prems by (subst wd_sched_find_prime.simps) auto
  next
    case False
    with less.prems have "n < p" by (metis le_neq_implies_less)
    then have "p - Suc n < p - n" "Suc n \<le> p" by auto
    from less.hyps [OF this(1) less.prems(1) this(2) less.prems(3)] obtain q where
      q: "wd_sched_find_prime (Suc n) = Some q" "prime_nat q" "Suc n \<le> q" "q \<le> p"
        "\<forall>m. Suc n \<le> m \<and> m < q \<longrightarrow> \<not> prime_nat m" by blast
    have "u32 (n + 1) = Suc n" using \<open>n < p\<close> less.prems(3) by (simp add: c_int_simps)
    with prime False q(1) have "wd_sched_find_prime n = Some q"
      by (subst wd_sched_find_prime.simps) simp
    moreover have "\<forall>m. n \<le> m \<and> m < q \<longrightarrow> \<not> prime_nat m" using q(5) False by (metis Suc_leI le_neq_implies_less)
    ultimately show ?thesis using q(2-4) by (intro exI [of _ q]) auto
  qed
qed

lemma prime_521: "prime_nat 521"
proof -
  have "wd_sched_is_prime 521 = Some True"
    by (simp add: wd_sched_is_prime_def is_prime_loop.simps u32_def)
  with is_prime_correct [of 521] show ?thesis by simp
qed

lemma compute_bucket_size_spec:
  "\<exists>q. wd_sched_compute_bucket_size e = Some q \<and> prime_nat q \<and> 32 \<le> q \<and> q \<le> 521"
proof -
  define t where "t = (let t = u32 (e * 4) div 3; t = (if t < 32 then 32 else t) in if t > 512 then 512 else t)"
  have t: "32 \<le> t" "t \<le> 512" by (auto simp: t_def Let_def)
  have "wd_sched_compute_bucket_size e = wd_sched_find_prime t"
    by (simp add: wd_sched_compute_bucket_size_def t_def Let_def WD_SCHED_MAX_BUCKETS_def WD_SCHED_MIN_BUCKETS_def)
  with find_prime_correct [OF prime_521, of t] t show ?thesis by auto
qed

subsection \<open>The table as a map\<close>

type_synonym domain_key = "int \<times> nat \<times> nat \<times> nat"

definition dom_key :: "wd_sched_ctx_domain \<Rightarrow> domain_key" where
  "dom_key d = (cd_region_id d, cd_mode d, cd_op_type d, cd_prop d)"

definition ht_hash :: "wd_sched_domain_hash_table \<Rightarrow> domain_key \<Rightarrow> nat" where
  "ht_hash t = (\<lambda>(r, m, ty, p). wd_sched_hash_compute r m ty p (ht_bucket_size t))"

definition ht_look :: "wd_sched_domain_hash_table \<Rightarrow> domain_key \<Rightarrow> wd_sched_ctx_domain option" where
  "ht_look t k = List.find (\<lambda>d. dom_key d = k) (ht_buckets t ! ht_hash t k)"

definition fresh_domain :: "domain_key \<Rightarrow> wd_sched_ctx_domain" where
  "fresh_domain = (\<lambda>(r, m, ty, p). new_domain r m ty p)"

definition ht_push :: "wd_sched_domain_hash_table \<Rightarrow> domain_key \<Rightarrow> wd_sched_domain_hash_table" where
  "ht_push t k = t\<lparr>ht_buckets := (ht_buckets t)[ht_hash t k := fresh_domain k # (ht_buckets t ! ht_hash t k)]\<rparr>"

definition ht_inv :: "wd_sched_domain_hash_table \<Rightarrow> bool" where
  "ht_inv t \<longleftrightarrow> 0 < ht_bucket_size t \<and> length (ht_buckets t) = ht_bucket_size t \<and>
    (\<forall>i < ht_bucket_size t. (\<forall>k \<in> set (map dom_key (ht_buckets t ! i)). ht_hash t k = i) \<and>
       distinct (map dom_key (ht_buckets t ! i)))"

lemma domain_matches_key: "domain_matches r m ty p d \<longleftrightarrow> dom_key d = (r, m, ty, p)"
  by (simp add: wd_sched_domain_key_match_def dom_key_def)

lemma dom_key_fresh [simp]: "dom_key (fresh_domain k) = k"
  by (cases k) (simp add: fresh_domain_def new_domain_def dom_key_def)

lemma ht_hash_less: "ht_inv t \<Longrightarrow> ht_hash t k < ht_bucket_size t"
  by (cases k) (simp add: ht_inv_def ht_hash_def wd_sched_hash_compute_def)

lemma find_key: "List.find (\<lambda>d. f d = k) xs = Some d \<Longrightarrow> f d = k \<and> d \<in> set xs"
  by (auto simp: find_Some_iff)

text \<open>\<^verbatim>\<open>wd_sched_hash_table_lookup\<close> never leaves the bucket array and is the map lookup.\<close>

lemma lookup_ht_look:
  "ht_inv t \<Longrightarrow> wd_sched_hash_table_lookup (Some t) r m ty p = Some (ht_look t (r, m, ty, p))"
  using ht_hash_less [of t "(r, m, ty, p)"]
  by (simp add: wd_sched_hash_table_lookup_def ht_look_def ht_hash_def domain_matches_key ht_inv_def)

lemma store_chain_find:
  "(\<exists>e \<in> set es. dom_key e = dom_key d) \<Longrightarrow>
    List.find (\<lambda>e. dom_key e = k) (store_chain d es) =
      (if k = dom_key d then Some d else List.find (\<lambda>e. dom_key e = k) es)"
proof (induction es)
  case (Cons e es)
  then show ?case
    by (cases "dom_key e = dom_key d") (auto simp: domain_matches_key dom_key_def [symmetric])
qed simp

lemma store_chain_keys: "map dom_key (store_chain d es) = map dom_key es"
  by (induction es) (auto simp: domain_matches_key dom_key_def [symmetric])

lemma set_keys_store_chain: "dom_key ` set (store_chain d es) = dom_key ` set es"
  by (metis store_chain_keys set_map)

lemma domain_store_eq:
  "domain_store t d = t\<lparr>ht_buckets := (ht_buckets t)[ht_hash t (dom_key d) :=
     store_chain d (ht_buckets t ! ht_hash t (dom_key d))]\<rparr>"
  by (simp add: domain_store_def ht_hash_def dom_key_def Let_def)

lemma ht_hash_update [simp]: "ht_hash (t\<lparr>ht_buckets := b\<rparr>) = ht_hash t"
  by (simp add: ht_hash_def fun_eq_iff)

lemma ht_look_present: "ht_look t k \<noteq> None \<Longrightarrow> \<exists>e \<in> set (ht_buckets t ! ht_hash t k). dom_key e = k"
  by (auto simp: ht_look_def find_None_iff)

interpretation domains: keyed_table ht_look ht_push domain_store dom_key fresh_domain ht_inv
proof
  fix t :: wd_sched_domain_hash_table and k k' :: domain_key and d :: wd_sched_ctx_domain
  assume inv: "ht_inv t"
  note less = ht_hash_less [OF inv]
  have len: "length (ht_buckets t) = ht_bucket_size t" using inv by (simp add: ht_inv_def)
  show "dom_key d = k" if "ht_look t k = Some d" using that find_key unfolding ht_look_def by fast
  { assume none: "ht_look t k = None"
    then have "k \<notin> dom_key ` set (ht_buckets t ! ht_hash t k)" by (auto simp: ht_look_def find_None_iff)
    then show "ht_inv (ht_push t k)"
      using inv less len by (auto simp: ht_inv_def ht_push_def nth_list_update)
    show "ht_look (ht_push t k) k' = (if k' = k then Some (fresh_domain k) else ht_look t k')"
      using less len by (auto simp: ht_look_def ht_push_def nth_list_update) }
  { assume "ht_look t (dom_key d) \<noteq> None"
    note ex = ht_look_present [OF this]
    show "ht_look (domain_store t d) k' = (if k' = dom_key d then Some d else ht_look t k')"
    proof (cases "ht_hash t k' = ht_hash t (dom_key d)")
      case True
      with less [of "dom_key d"] len show ?thesis
        by (simp only: domain_store_eq ht_look_def ht_hash_update) (simp add: store_chain_find [OF ex])
    next
      case False
      then show ?thesis by (auto simp: domain_store_eq ht_look_def)
    qed
    have "map dom_key (ht_buckets (domain_store t d) ! i) = map dom_key (ht_buckets t ! i)" for i
      using less [of "dom_key d"] len by (simp add: domain_store_eq nth_list_update store_chain_keys)
    moreover have "ht_hash (domain_store t d) = ht_hash t" "ht_bucket_size (domain_store t d) = ht_bucket_size t"
      "length (ht_buckets (domain_store t d)) = length (ht_buckets t)" by (simp_all add: domain_store_eq)
    ultimately show "ht_inv (domain_store t d)" using inv by (simp only: ht_inv_def) blast }
qed simp

text \<open>What insertion does, on the map.\<close>

lemma hash_table_insert_cases:
  assumes inv: "ht_inv t"
    and ins: "wd_sched_hash_table_insert oks lock_ok cl (Some t) r m ty p = Some (res, h, oks')"
  obtains (existing) d where "ht_look t (r, m, ty, p) = Some d" "res = Some d" "h = Some t"
  | (fail) "ht_look t (r, m, ty, p) = None" "res = None" "h = Some t"
  | (created) c n where "ht_look t (r, m, ty, p) = None" "res = Some (fresh_domain (r, m, ty, p))"
      "h = Some ((ht_push t (r, m, ty, p))\<lparr>ht_entry_count := n, ht_max_chain_length := c\<rparr>)"
proof -
  note less = ht_hash_less [OF inv, of "(r, m, ty, p)"]
  have len: "length (ht_buckets t) = ht_bucket_size t" using inv by (simp add: ht_inv_def)
  show ?thesis
  proof (cases "ht_look t (r, m, ty, p)")
    case (Some d)
    with ins have "res = Some d" "h = Some t"
      by (auto simp: wd_sched_hash_table_insert_def lookup_ht_look [OF inv])
    with Some show ?thesis by (rule existing)
  next
    case None
    obtain ok oks1 where ok: "calloc_ok oks = (ok, oks1)" by (cases "calloc_ok oks")
    note def = ins [unfolded wd_sched_hash_table_insert_def hash_table_add_def option.case lookup_ht_look [OF inv] None ok]
    show ?thesis
    proof (cases "ok \<and> lock_ok")
      case False
      with def None show ?thesis by (intro fail) (auto simp: Let_def split: if_splits)
    next
      case True
      have h: "ht_hash t (r, m, ty, p) = wd_sched_hash_compute r m ty p (ht_bucket_size t)"
        by (simp add: ht_hash_def)
      let ?c = "if ht_buckets t ! ht_hash t (r, m, ty, p) \<noteq> [] \<and> u32 (cl + 1) > ht_max_chain_length t
        then u32 (cl + 1) else ht_max_chain_length t"
      have "res = Some (fresh_domain (r, m, ty, p))"
        "h = Some ((ht_push t (r, m, ty, p))\<lparr>ht_entry_count := u32 (ht_entry_count t + 1), ht_max_chain_length := ?c\<rparr>)"
        using True def less len h by (auto simp: ht_push_def fresh_domain_def Let_def)
      with None show ?thesis by (rule created)
    qed
  qed
qed

lemma ht_stats [simp]:
  "ht_inv (t\<lparr>ht_entry_count := n, ht_max_chain_length := c\<rparr>) = ht_inv t"
  "ht_look (t\<lparr>ht_entry_count := n, ht_max_chain_length := c\<rparr>) = ht_look t"
  by (simp_all add: ht_inv_def ht_look_def ht_hash_def fun_eq_iff)

lemma hash_table_create_inv:
  assumes "wd_sched_hash_table_create oks lock_ok e = Some (Some t, oks')"
  shows "ht_inv t \<and> (\<forall>k. ht_look t k = None) \<and> prime_nat (ht_bucket_size t)"
proof -
  obtain q where q: "wd_sched_compute_bucket_size e = Some q" "prime_nat q" "32 \<le> q"
    using compute_bucket_size_spec by blast
  with assms have t: "t = \<lparr>ht_buckets = replicate q [], ht_bucket_size = q, ht_entry_count = 0, ht_max_chain_length = 0\<rparr>"
    by (auto simp: wd_sched_hash_table_create_def Let_def split: prod.splits if_splits)
  have inv: "ht_inv t" using q by (simp add: t ht_inv_def)
  then have "ht_look t k = None" for k using ht_hash_less [OF inv, of k] by (simp add: ht_look_def t)
  with inv q show ?thesis by (simp add: t)
qed

lemma hash_table_create_total: "\<exists>r. wd_sched_hash_table_create oks lock_ok e = Some r"
  using compute_bucket_size_spec [of e] by (auto simp: wd_sched_hash_table_create_def Let_def split: prod.splits)

subsection \<open>The round-robin cursor\<close>

text \<open>
  The contexts of a domain in segment order, and the place of the cursor in that list. Taking the
  next context is one step of a cyclic walk through the list.
\<close>

definition seg_ctxs :: "wd_sched_ctx_segment \<Rightarrow> nat list" where
  "seg_ctxs s = [seg_begin s ..< Suc (seg_end s)]"

definition dom_ctxs :: "wd_sched_ctx_domain \<Rightarrow> nat list" where
  "dom_ctxs d = concat (map seg_ctxs (cd_segments d))"

definition dom_cursor :: "wd_sched_ctx_domain \<Rightarrow> nat" where
  "dom_cursor d = (case cd_current_segment d of
     None \<Rightarrow> 0
   | Some c \<Rightarrow> length (concat (map seg_ctxs (take c (cd_segments d)))) + cd_current_pos d)"

definition seg_ok :: "wd_sched_ctx_segment \<Rightarrow> bool" where
  "seg_ok s \<longleftrightarrow> seg_begin s \<le> seg_end s \<and> seg_end s < INVALID_POS"

definition dom_inv :: "wd_sched_ctx_domain \<Rightarrow> bool" where
  "dom_inv d \<longleftrightarrow> (\<forall>s \<in> set (cd_segments d). seg_ok s) \<and>
     length (dom_ctxs d) < 2 ^ 32 \<and> cd_total_ctx_count d = length (dom_ctxs d) \<and>
     cd_segment_count d = u32 (length (cd_segments d)) \<and>
     (case cd_current_segment d of
        None \<Rightarrow> cd_segments d = [] \<and> cd_current_pos d = 0
      | Some c \<Rightarrow> c < length (cd_segments d) \<and>
          cd_current_pos d < length (seg_ctxs (cd_segments d ! c)))"

lemma length_seg_ctxs: "seg_ok s \<Longrightarrow> length (seg_ctxs s) = seg_end s - seg_begin s + 1 \<and> length (seg_ctxs s) < 2 ^ 32"
  by (auto simp: seg_ctxs_def seg_ok_def INVALID_POS_def)

lemma concat_split:
  assumes "c < length xs"
  shows "concat xs = concat (take c xs) @ xs ! c @ concat (drop (Suc c) xs)"
  using assms by (metis concat_append concat.simps(2) id_take_nth_drop)

lemma next_rr_step:
  assumes inv: "dom_inv d" and ne: "dom_ctxs d \<noteq> []"
  shows "\<exists>d'. wd_sched_domain_get_next_rr (Some d) = Some (dom_ctxs d ! dom_cursor d, Some d') \<and>
    dom_inv d' \<and> dom_ctxs d' = dom_ctxs d \<and> dom_key d' = dom_key d \<and> cd_valid d' = cd_valid d \<and>
    dom_cursor d < length (dom_ctxs d) \<and>
    dom_cursor d' = (dom_cursor d + 1) mod length (dom_ctxs d)"
proof -
  from ne have segs: "cd_segments d \<noteq> []" by (auto simp: dom_ctxs_def)
  with inv obtain c where c: "cd_current_segment d = Some c" "c < length (cd_segments d)"
    "cd_current_pos d < length (seg_ctxs (cd_segments d ! c))" by (auto simp: dom_inv_def split: option.splits)
  let ?s = "cd_segments d ! c" and ?pos = "cd_current_pos d"
  have ok: "seg_ok ?s" using inv c(2) by (simp add: dom_inv_def)
  note len = length_seg_ctxs [OF ok]
  define pre where "pre = concat (map seg_ctxs (take c (cd_segments d)))"
  define post where "post = concat (map seg_ctxs (drop (Suc c) (cd_segments d)))"
  have split: "dom_ctxs d = pre @ seg_ctxs ?s @ post"
    using concat_split [of c "map seg_ctxs (cd_segments d)"] c(2)
    by (simp add: dom_ctxs_def pre_def post_def take_map drop_map)
  have cur: "dom_cursor d = length pre + ?pos" using c by (simp add: dom_cursor_def pre_def)
  have nth: "dom_ctxs d ! dom_cursor d = seg_begin ?s + ?pos"
    using c(3) by (simp add: split cur nth_append seg_ctxs_def del: upt_Suc)
  have lt: "seg_begin ?s + ?pos < 2 ^ 32" "?pos + 1 < 2 ^ 32"
    using c(3) len ok by (auto simp: seg_ok_def INVALID_POS_def)
  have u: "u32 (seg_begin ?s + ?pos) = seg_begin ?s + ?pos" "u32 (?pos + 1) = ?pos + 1"
    "u32 (sub32 (seg_end ?s) (seg_begin ?s) + 1) = length (seg_ctxs ?s)"
    using lt len ok by (simp_all add: c_int_simps seg_ok_def INVALID_POS_def)
  define d' where "d' = (if ?pos + 1 < length (seg_ctxs ?s) then d\<lparr>cd_current_pos := ?pos + 1\<rparr>
     else if c + 1 < length (cd_segments d) then d\<lparr>cd_current_segment := Some (c + 1), cd_current_pos := 0\<rparr>
     else d\<lparr>cd_current_segment := Some 0, cd_current_pos := 0\<rparr>)"
  have total: "cd_total_ctx_count d = length (dom_ctxs d)" using inv by (simp add: dom_inv_def)
  have step: "wd_sched_domain_get_next_rr (Some d) = Some (dom_ctxs d ! dom_cursor d, Some d')"
    using segs c ne total u
    by (simp add: wd_sched_domain_get_next_rr_def nth d'_def Let_def)
  have frame: "dom_ctxs d' = dom_ctxs d" "cd_segments d' = cd_segments d" "dom_key d' = dom_key d"
    "cd_valid d' = cd_valid d" "cd_total_ctx_count d' = cd_total_ctx_count d"
    "cd_segment_count d' = cd_segment_count d"
    by (simp_all add: d'_def dom_ctxs_def dom_key_def)
  have pos_seg: "0 < length (seg_ctxs s)" if "s \<in> set (cd_segments d)" for s
    using that inv length_seg_ctxs [of s] by (auto simp: dom_inv_def)
  have inv': "dom_inv d'"
  proof -
    have "case cd_current_segment d' of
        None \<Rightarrow> cd_segments d' = [] \<and> cd_current_pos d' = 0
      | Some c \<Rightarrow> c < length (cd_segments d') \<and> cd_current_pos d' < length (seg_ctxs (cd_segments d' ! c))"
      using c segs pos_seg by (simp add: d'_def)
    then show ?thesis using inv frame by (simp only: dom_inv_def) blast
  qed
  have "dom_cursor d' = (dom_cursor d + 1) mod length (dom_ctxs d)"
  proof (cases "?pos + 1 < length (seg_ctxs ?s)")
    case True
    then have "length pre + (?pos + 1) < length (dom_ctxs d)" by (simp add: split)
    then show ?thesis using True c by (simp add: d'_def dom_cursor_def pre_def [symmetric] cur)
  next
    case False
    then have last: "?pos + 1 = length (seg_ctxs ?s)" using c(3) by simp
    show ?thesis
    proof (cases "c + 1 < length (cd_segments d)")
      case True
      then have "post \<noteq> []"
        using pos_seg [of "cd_segments d ! Suc c"] by (auto simp: post_def concat_eq_Nil_conv Cons_nth_drop_Suc [symmetric])
      moreover have "concat (map seg_ctxs (take (Suc c) (cd_segments d))) = pre @ seg_ctxs ?s"
        using c(2) by (simp add: pre_def take_Suc_conv_app_nth)
      ultimately have "dom_cursor d' = length pre + length (seg_ctxs ?s)" "post \<noteq> []"
        using False True by (simp_all add: d'_def dom_cursor_def)
      then show ?thesis using last by (simp add: cur split)
    next
      case tail: False
      then have "post = []" by (simp add: post_def)
      then have "dom_cursor d + 1 = length (dom_ctxs d)" using last by (simp add: cur split)
      moreover have "dom_cursor d' = 0" using False tail by (simp add: d'_def dom_cursor_def)
      ultimately show ?thesis by simp
    qed
  qed
  moreover have "dom_cursor d < length (dom_ctxs d)" using c(3) by (simp add: cur split)
  ultimately show ?thesis using step frame inv' by blast
qed

lemma next_rr_empty:
  "dom_inv d \<Longrightarrow> dom_ctxs d = [] \<Longrightarrow> wd_sched_domain_get_next_rr (Some d) = Some (INVALID_POS, Some d)"
  by (simp add: wd_sched_domain_get_next_rr_def dom_inv_def)

text \<open>Repeated calls.\<close>

fun next_rr_times :: "nat \<Rightarrow> wd_sched_ctx_domain \<Rightarrow> (nat list \<times> wd_sched_ctx_domain) option" where
  "next_rr_times 0 d = Some ([], d)"
| "next_rr_times (Suc n) d =
    (case wd_sched_domain_get_next_rr (Some d) of
       Some (i, Some d') \<Rightarrow>
         (case next_rr_times n d' of None \<Rightarrow> None | Some (is, d'') \<Rightarrow> Some (i # is, d''))
     | _ \<Rightarrow> None)"

lemma next_rr_times_spec:
  assumes "dom_inv d" and "dom_ctxs d \<noteq> []"
  shows "\<exists>d'. next_rr_times n d =
      Some (map (\<lambda>j. dom_ctxs d ! ((dom_cursor d + j) mod length (dom_ctxs d))) [0 ..< n], d') \<and>
    dom_inv d' \<and> dom_ctxs d' = dom_ctxs d \<and>
    dom_cursor d' = (dom_cursor d + n) mod length (dom_ctxs d)"
  using assms
proof (induction n arbitrary: d)
  case 0
  from next_rr_step [OF 0] have "dom_cursor d < length (dom_ctxs d)" by blast
  with 0 show ?case by simp
next
  case (Suc n)
  from next_rr_step [OF Suc.prems] obtain d1 where
    d1: "wd_sched_domain_get_next_rr (Some d) = Some (dom_ctxs d ! dom_cursor d, Some d1)"
      "dom_inv d1" "dom_ctxs d1 = dom_ctxs d" "dom_cursor d < length (dom_ctxs d)"
      "dom_cursor d1 = (dom_cursor d + 1) mod length (dom_ctxs d)" by blast
  from Suc.IH [of d1] d1 Suc.prems obtain d' where d': "next_rr_times n d1 =
      Some (map (\<lambda>j. dom_ctxs d ! ((dom_cursor d + 1 + j) mod length (dom_ctxs d))) [0 ..< n], d')"
    "dom_inv d'" "dom_ctxs d' = dom_ctxs d" "dom_cursor d' = (dom_cursor d + 1 + n) mod length (dom_ctxs d)"
    by (auto simp: mod_add_left_eq mod_Suc_eq)
  have "map (\<lambda>j. dom_ctxs d ! ((dom_cursor d + j) mod length (dom_ctxs d))) [0 ..< Suc n] =
    dom_ctxs d ! dom_cursor d # map (\<lambda>j. dom_ctxs d ! ((dom_cursor d + 1 + j) mod length (dom_ctxs d))) [0 ..< n]"
    using d1(4) by (simp add: upt_conv_Cons map_Suc_upt [symmetric] del: upt_Suc)
  with d1 d' show ?case by simp
qed


text \<open>Adding a segment extends the list at its end and leaves the cursor where it is.\<close>

lemma add_segment_spec:
  assumes inv: "dom_inv d" and be: "b \<le> e" "e < INVALID_POS"
    and room: "length (dom_ctxs d) + (e - b + 1) < 2 ^ 32"
    and add: "wd_sched_domain_add_segment oks (Some d) b e = (r, d', oks')"
  shows "r = Inl WD_ENOMEM \<and> d' = Some d \<or>
    r = Inr () \<and> (\<exists>d1. d' = Some d1 \<and> dom_inv d1 \<and> dom_ctxs d1 = dom_ctxs d @ [b ..< Suc e] \<and>
      dom_key d1 = dom_key d \<and> dom_cursor d1 = dom_cursor d \<and>
      cd_segments d1 = cd_segments d @ [\<lparr>seg_begin = b, seg_end = e\<rparr>] \<and> cd_valid d1 = cd_valid d)"
proof (cases "fst (calloc_ok oks)")
  case False
  then show ?thesis using add be
    by (auto simp: wd_sched_domain_add_segment_def split: prod.splits if_splits)
next
  case True
  let ?s = "\<lparr>seg_begin = b, seg_end = e\<rparr>"
  define d1 where "d1 = d\<lparr>cd_segments := cd_segments d @ [?s],
     cd_segment_count := u32 (cd_segment_count d + 1),
     cd_total_ctx_count := u32 (cd_total_ctx_count d + (e - b + 1)),
     cd_current_segment := (case cd_current_segment d of None \<Rightarrow> Some 0 | Some c \<Rightarrow> Some c)\<rparr>"
  obtain oks1 where ok: "calloc_ok oks = (True, oks1)" using True by (cases "calloc_ok oks") auto
  have "wd_sched_domain_add_segment oks (Some d) b e = (Inr (), Some d1, oks1)"
    using be(1) ok by (cases d) (simp add: wd_sched_domain_add_segment_def d1_def Let_def split: option.split)
  with add have res: "r = Inr ()" "d' = Some d1" by simp_all
  have ctxs: "dom_ctxs d1 = dom_ctxs d @ [b ..< Suc e]"
    by (simp add: d1_def dom_ctxs_def seg_ctxs_def del: upt_Suc)
  have len: "length [b ..< Suc e] = e - b + 1" using be by simp
  have cur: "dom_cursor d1 = dom_cursor d"
    using inv by (auto simp: d1_def dom_cursor_def dom_inv_def split: option.splits)
  have "case cd_current_segment d1 of
        None \<Rightarrow> cd_segments d1 = [] \<and> cd_current_pos d1 = 0
      | Some c \<Rightarrow> c < length (cd_segments d1) \<and> cd_current_pos d1 < length (seg_ctxs (cd_segments d1 ! c))"
    using inv be len
    by (cases "cd_current_segment d") (simp_all add: d1_def dom_inv_def seg_ctxs_def nth_append del: upt_Suc)
  moreover have "cd_total_ctx_count d1 = length (dom_ctxs d1)"
    using inv room be unfolding ctxs by (simp add: d1_def dom_inv_def c_int_simps del: upt_Suc)
  moreover have "length (dom_ctxs d1) < 2 ^ 32"
    using room len unfolding ctxs by (simp del: upt_Suc)
  moreover have "\<forall>s \<in> set (cd_segments d1). seg_ok s"
    using inv be by (auto simp: d1_def dom_inv_def seg_ok_def)
  moreover have "cd_segment_count d1 = u32 (length (cd_segments d1))"
    using inv by (simp add: d1_def dom_inv_def u32_def mod_Suc_eq)
  ultimately have "dom_inv d1" by (simp add: dom_inv_def)
  with res ctxs cur show ?thesis by (intro disjI2 conjI exI [of _ d1]) (simp_all add: d1_def dom_key_def)
qed

lemma fresh_domain_inv:
  "dom_inv (fresh_domain k)" "dom_ctxs (fresh_domain k) = []" "dom_cursor (fresh_domain k) = 0"
  by (cases k; simp add: fresh_domain_def new_domain_def dom_inv_def dom_ctxs_def dom_cursor_def u32_def)+

end
