(* ===== verification/Sched_Cache.thy ===== *)
theory Sched_Cache
  imports Sched_Hash
begin

text \<open>
  The per-session context cache of \<^verbatim>\<open>wd_sched.c\<close> (lines 84--116 and 605--877): a fixed array of
  context numbers with a load counter each, a round-robin pointer, and a cached index of the least
  loaded context. The cache lock serialises the structural operations; the atomics are single steps.
\<close>

definition SKEY_CTX_MAX_NUM :: nat where "SKEY_CTX_MAX_NUM = 16"
definition SKEY_LOAD_UPDATE_INTERVAL :: nat where "SKEY_LOAD_UPDATE_INTERVAL = 128"
definition UINT_MAX :: nat where "UINT_MAX = 4294967295"

definition SCHED_POLICY_RR :: nat where "SCHED_POLICY_RR = 0"
definition SCHED_POLICY_NONE :: nat where "SCHED_POLICY_NONE = 1"
definition SCHED_POLICY_SINGLE :: nat where "SCHED_POLICY_SINGLE = 2"
definition SCHED_POLICY_DEV :: nat where "SCHED_POLICY_DEV = 3"
definition SCHED_POLICY_LOOP :: nat where "SCHED_POLICY_LOOP = 4"
definition SCHED_POLICY_HUNGRY :: nat where "SCHED_POLICY_HUNGRY = 5"
definition SCHED_POLICY_INSTR :: nat where "SCHED_POLICY_INSTR = 6"
definition SCHED_POLICY_BUTT :: nat where "SCHED_POLICY_BUTT = 7"

lemmas sched_policy_defs = SCHED_POLICY_RR_def SCHED_POLICY_NONE_def SCHED_POLICY_SINGLE_def SCHED_POLICY_DEV_def
  SCHED_POLICY_LOOP_def SCHED_POLICY_HUNGRY_def SCHED_POLICY_INSTR_def SCHED_POLICY_BUTT_def

lemmas sched_consts = SKEY_CTX_MAX_NUM_def SKEY_LOAD_UPDATE_INTERVAL_def UINT_MAX_def INVALID_POS_def
  SCHED_MODE_SYNC_def SCHED_MODE_ASYNC_def SCHED_MODE_BUTT_def

record wd_sched_domain_idx_cache =
  dc_idx_list :: "nat list"
  dc_load_values :: "nat list"
  dc_valid_count :: nat
  dc_rr_ptr :: nat
  dc_min_load_idx :: nat
  dc_op_counter :: nat
  dc_update_interval :: nat
  dc_policy :: nat
  dc_has_sub :: bool

subsection \<open>Operations\<close>

text \<open>\<open>lock_ok\<close> is the outcome of \<^verbatim>\<open>pthread_mutex_init\<close>. The previous contents of the cache do not matter.\<close>

definition wd_sched_skey_cache_init :: "bool \<Rightarrow> nat \<Rightarrow> unit result \<times> wd_sched_domain_idx_cache" where
  "wd_sched_skey_cache_init lock_ok policy =
    (let cache = \<lparr>dc_idx_list = replicate SKEY_CTX_MAX_NUM INVALID_POS,
           dc_load_values = replicate SKEY_CTX_MAX_NUM 0, dc_valid_count = 0, dc_rr_ptr = 0,
           dc_min_load_idx = 0, dc_op_counter = 0, dc_update_interval = SKEY_LOAD_UPDATE_INTERVAL,
           dc_policy = policy, dc_has_sub = False\<rparr> in
     if \<not> lock_ok then (Inl WD_EINVAL, cache) else (Inr (), cache))"

definition wd_sched_skey_cache_uninit :: "wd_sched_domain_idx_cache \<Rightarrow> wd_sched_domain_idx_cache" where
  "wd_sched_skey_cache_uninit cache =
    cache\<lparr>dc_idx_list := replicate SKEY_CTX_MAX_NUM INVALID_POS,
          dc_load_values := replicate SKEY_CTX_MAX_NUM 0, dc_valid_count := 0\<rparr>"

definition wd_sched_skey_add_ctx ::
  "wd_sched_domain_idx_cache \<Rightarrow> nat \<Rightarrow> (unit result \<times> wd_sched_domain_idx_cache) option" where
  "wd_sched_skey_add_ctx cache ctx_id =
    (if ctx_id = INVALID_POS then Some (Inl WD_EINVAL, cache)
     else if dc_valid_count cache \<ge> SKEY_CTX_MAX_NUM then Some (Inl WD_EINVAL, cache)
     else if ctx_id \<in> set (take (dc_valid_count cache) (dc_idx_list cache)) then Some (Inl WD_EEXIST, cache)
     else
       (case (wr (dc_idx_list cache) (dc_valid_count cache) ctx_id,
              wr (dc_load_values cache) (dc_valid_count cache) 0) of
          (Some idx, Some loads) \<Rightarrow>
            Some (Inr (), cache\<lparr>dc_min_load_idx := dc_valid_count cache, dc_idx_list := idx,
                                dc_load_values := loads, dc_valid_count := dc_valid_count cache + 1\<rparr>)
        | _ \<Rightarrow> None))"

fun find_pos :: "nat \<Rightarrow> nat list \<Rightarrow> nat option" where
  "find_pos x [] = None"
| "find_pos x (y # ys) = (if y = x then Some 0 else map_option Suc (find_pos x ys))"

text \<open>One iteration of the loop that closes the gap.\<close>

definition shift_slot :: "nat \<Rightarrow> wd_sched_domain_idx_cache \<Rightarrow> wd_sched_domain_idx_cache option" where
  "shift_slot i cache =
    (case (rd (dc_idx_list cache) (i + 1), rd (dc_load_values cache) (i + 1)) of
       (Some x, Some l) \<Rightarrow>
         (case (wr (dc_idx_list cache) i x, wr (dc_load_values cache) i l) of
            (Some idx, Some loads) \<Rightarrow> Some (cache\<lparr>dc_idx_list := idx, dc_load_values := loads\<rparr>)
          | _ \<Rightarrow> None)
     | _ \<Rightarrow> None)"

definition wd_sched_skey_remove_ctx ::
  "wd_sched_domain_idx_cache \<Rightarrow> nat \<Rightarrow> (unit result \<times> wd_sched_domain_idx_cache) option" where
  "wd_sched_skey_remove_ctx cache ctx_id =
    (case find_pos ctx_id (take (dc_valid_count cache) (dc_idx_list cache)) of
       None \<Rightarrow> Some (Inl WD_ENODEV, cache)
     | Some i \<Rightarrow>
         (case opt_fold shift_slot [i ..< dc_valid_count cache - 1] cache of
            None \<Rightarrow> None
          | Some cache \<Rightarrow>
              (case (wr (dc_idx_list cache) (dc_valid_count cache - 1) INVALID_POS,
                     wr (dc_load_values cache) (dc_valid_count cache - 1) 0) of
                 (Some idx, Some loads) \<Rightarrow>
                   (let cache = cache\<lparr>dc_idx_list := idx, dc_load_values := loads,
                                      dc_valid_count := dc_valid_count cache - 1\<rparr> in
                    Some (Inr (),
                      if dc_valid_count cache = 0 then cache\<lparr>dc_rr_ptr := 0, dc_min_load_idx := 0\<rparr>
                      else if dc_min_load_idx cache \<ge> dc_valid_count cache then cache\<lparr>dc_min_load_idx := 0\<rparr>
                      else cache))
               | _ \<Rightarrow> None)))"

fun min_scan :: "nat \<Rightarrow> nat list \<Rightarrow> nat \<Rightarrow> nat \<Rightarrow> nat" where
  "min_scan i [] min_load min_idx = min_idx"
| "min_scan i (load # loads) min_load min_idx =
    (if load < min_load then min_scan (i + 1) loads load i else min_scan (i + 1) loads min_load min_idx)"

definition wd_sched_update_min_load :: "wd_sched_domain_idx_cache \<Rightarrow> wd_sched_domain_idx_cache" where
  "wd_sched_update_min_load cache =
    (if dc_valid_count cache = 0 then cache
     else cache\<lparr>dc_min_load_idx := min_scan 0 (take (dc_valid_count cache) (dc_load_values cache)) UINT_MAX 0\<rparr>)"

text \<open>
  The selected context and its position in the cache (\<open>INVALID_POS\<close> and no position when there is
  none).
\<close>

definition wd_sched_skey_pick_next ::
  "wd_sched_domain_idx_cache \<Rightarrow> ((nat \<times> nat option) \<times> wd_sched_domain_idx_cache) option" where
  "wd_sched_skey_pick_next cache =
    (if dc_valid_count cache = 0 then Some ((INVALID_POS, None), cache)
     else
       (let (selected_idx, cache) =
              (if dc_policy cache = SCHED_POLICY_RR \<or> dc_policy cache = SCHED_POLICY_NONE \<or>
                  dc_policy cache = SCHED_POLICY_SINGLE \<or> dc_policy cache = SCHED_POLICY_DEV \<or>
                  dc_policy cache = SCHED_POLICY_LOOP \<or> dc_policy cache = SCHED_POLICY_INSTR
               then (dc_rr_ptr cache mod dc_valid_count cache, cache\<lparr>dc_rr_ptr := u32 (dc_rr_ptr cache + 1)\<rparr>)
               else if dc_policy cache = SCHED_POLICY_HUNGRY
               then
                 (let op_count = dc_op_counter cache;
                      cache = cache\<lparr>dc_op_counter := u32 (dc_op_counter cache + 1)\<rparr>;
                      cache = (if op_count mod dc_update_interval cache = 0
                               then wd_sched_update_min_load cache else cache) in
                  (dc_min_load_idx cache, cache))
               else (INVALID_POS, cache)) in
        if selected_idx \<ge> dc_valid_count cache then Some ((INVALID_POS, None), cache)
        else (case rd (dc_idx_list cache) selected_idx of
                None \<Rightarrow> None
              | Some ctx \<Rightarrow> Some ((ctx, Some selected_idx), cache))))"

definition wd_sched_skey_update_load ::
  "wd_sched_domain_idx_cache \<Rightarrow> nat \<Rightarrow> int \<Rightarrow> wd_sched_domain_idx_cache option" where
  "wd_sched_skey_update_load cache ctx_idx delta =
    (case rd (dc_load_values cache) ctx_idx of
       None \<Rightarrow> None
     | Some l \<Rightarrow>
         Some (cache\<lparr>dc_load_values := (dc_load_values cache)[ctx_idx := u32_of_int (int l + delta)],
                     dc_has_sub := (if delta < 0 then True else dc_has_sub cache)\<rparr>))"

subsection \<open>The cache as a list\<close>

definition cache_inv :: "wd_sched_domain_idx_cache \<Rightarrow> bool" where
  "cache_inv c \<longleftrightarrow> length (dc_idx_list c) = SKEY_CTX_MAX_NUM \<and> length (dc_load_values c) = SKEY_CTX_MAX_NUM \<and>
     dc_valid_count c \<le> SKEY_CTX_MAX_NUM \<and> (\<forall>l \<in> set (dc_load_values c). l \<le> UINT_MAX) \<and>
     (dc_valid_count c = 0 \<or> dc_min_load_idx c < dc_valid_count c)"

definition cache_ctxs :: "wd_sched_domain_idx_cache \<Rightarrow> nat list" where
  "cache_ctxs c = take (dc_valid_count c) (dc_idx_list c)"

definition cache_loads :: "wd_sched_domain_idx_cache \<Rightarrow> nat list" where
  "cache_loads c = take (dc_valid_count c) (dc_load_values c)"

lemma length_cache [simp]:
  "cache_inv c \<Longrightarrow> length (cache_ctxs c) = dc_valid_count c"
  "cache_inv c \<Longrightarrow> length (cache_loads c) = dc_valid_count c"
  by (simp_all add: cache_inv_def cache_ctxs_def cache_loads_def)

lemma cache_init_spec:
  "cache_inv (snd (wd_sched_skey_cache_init ok policy)) \<and>
   cache_ctxs (snd (wd_sched_skey_cache_init ok policy)) = []"
  by (auto simp: wd_sched_skey_cache_init_def cache_inv_def cache_ctxs_def Let_def)

lemma cache_uninit_spec:
  "cache_inv (wd_sched_skey_cache_uninit c) \<and> cache_ctxs (wd_sched_skey_cache_uninit c) = [] \<and>
   dc_valid_count (wd_sched_skey_cache_uninit c) = 0"
  by (simp add: wd_sched_skey_cache_uninit_def cache_ctxs_def cache_inv_def)

lemma add_ctx_cases:
  assumes inv: "cache_inv c"
  obtains (fail) e where "wd_sched_skey_add_ctx c x = Some (Inl e, c)"
      "x = INVALID_POS \<or> dc_valid_count c = SKEY_CTX_MAX_NUM \<or> x \<in> set (cache_ctxs c)"
  | (ok) c' where "wd_sched_skey_add_ctx c x = Some (Inr (), c')" "x \<noteq> INVALID_POS"
      "x \<notin> set (cache_ctxs c)" "cache_inv c'" "cache_ctxs c' = cache_ctxs c @ [x]"
      "cache_loads c' = cache_loads c @ [0]" "dc_min_load_idx c' = dc_valid_count c"
      "dc_valid_count c' = dc_valid_count c + 1" "dc_policy c' = dc_policy c"
proof (cases "x = INVALID_POS \<or> dc_valid_count c \<ge> SKEY_CTX_MAX_NUM \<or> x \<in> set (cache_ctxs c)")
  case True
  then have "\<exists>e. wd_sched_skey_add_ctx c x = Some (Inl e, c)"
    by (auto simp: wd_sched_skey_add_ctx_def cache_ctxs_def)
  moreover have "dc_valid_count c \<le> SKEY_CTX_MAX_NUM" using inv by (simp add: cache_inv_def)
  ultimately show ?thesis using True fail by fastforce
next
  case False
  let ?n = "dc_valid_count c"
  define c' where "c' = c\<lparr>dc_min_load_idx := ?n, dc_idx_list := (dc_idx_list c)[?n := x],
     dc_load_values := (dc_load_values c)[?n := 0], dc_valid_count := ?n + 1\<rparr>"
  have n: "?n < length (dc_idx_list c)" "?n < length (dc_load_values c)"
    using False inv by (auto simp: cache_inv_def)
  have "wd_sched_skey_add_ctx c x = Some (Inr (), c')"
    using False n by (simp add: wd_sched_skey_add_ctx_def c'_def cache_ctxs_def)
  moreover have "cache_ctxs c' = cache_ctxs c @ [x]" "cache_loads c' = cache_loads c @ [0]"
    using n by (simp_all add: cache_ctxs_def cache_loads_def c'_def take_list_update_same)
  moreover have "cache_inv c'"
    using False inv n by (auto simp: cache_inv_def c'_def dest!: set_update_subset_insert [THEN subsetD])
  ultimately show ?thesis using False by (intro ok [of c']) (auto simp: c'_def)
qed

subsection \<open>Removal\<close>

definition shifted :: "nat \<Rightarrow> nat \<Rightarrow> 'a list \<Rightarrow> 'a list" where
  "shifted i m xs = map (\<lambda>j. if i \<le> j \<and> j < m then xs ! Suc j else xs ! j) [0 ..< length xs]"

lemma shifted_refl: "shifted i i xs = xs"
  by (rule nth_equalityI) (auto simp: shifted_def)

lemma shifted_Suc: "i \<le> m \<Longrightarrow> m < length xs \<Longrightarrow> (shifted i m xs)[m := xs ! Suc m] = shifted i (Suc m) xs"
  by (rule nth_equalityI) (auto simp: shifted_def nth_list_update)

lemma shifted_nth: "j < length xs \<Longrightarrow> m \<le> j \<Longrightarrow> shifted i m xs ! j = xs ! j"
  by (simp add: shifted_def)

lemma shift_fold:
  assumes "i \<le> m" and "m < length (dc_idx_list c)" and "m < length (dc_load_values c)"
  shows "opt_fold shift_slot [i ..< m] c = Some (c\<lparr>dc_idx_list := shifted i m (dc_idx_list c),
     dc_load_values := shifted i m (dc_load_values c)\<rparr>)"
  using assms
proof (induction m rule: dec_induct)
  case base
  then show ?case by (simp add: shifted_refl)
next
  case (step m)
  have len: "length (shifted i m (xs :: nat list)) = length xs" for xs by (simp add: shifted_def)
  from step show ?case
    by (simp add: opt_fold_append shift_slot_def len shifted_nth shifted_Suc)
qed

lemma take_shifted_update:
  assumes "i < n" and "n \<le> length xs"
  shows "take (n - 1) ((shifted i (n - 1) xs)[n - 1 := v]) = take i (take n xs) @ drop (Suc i) (take n xs)"
  using assms by (intro nth_equalityI) (auto simp: shifted_def nth_append)

lemma find_pos_Some: "find_pos x xs = Some i \<Longrightarrow> i < length xs \<and> xs ! i = x \<and> x \<notin> set (take i xs)"
  by (induction xs arbitrary: i) (auto split: if_splits)

lemma find_pos_None: "find_pos x xs = None \<longleftrightarrow> x \<notin> set xs"
  by (induction xs) auto

lemma remove1_at: "i < length xs \<Longrightarrow> xs ! i = x \<Longrightarrow> x \<notin> set (take i xs) \<Longrightarrow>
    take i xs @ drop (Suc i) xs = remove1 x xs"
proof (induction xs arbitrary: i)
  case (Cons y ys)
  then show ?case by (cases i) auto
qed simp

lemma remove_ctx_cases:
  assumes inv: "cache_inv c"
  obtains (fail) "wd_sched_skey_remove_ctx c x = Some (Inl WD_ENODEV, c)" "x \<notin> set (cache_ctxs c)"
  | (ok) c' i where "wd_sched_skey_remove_ctx c x = Some (Inr (), c')" "x \<in> set (cache_ctxs c)"
      "cache_inv c'" "cache_ctxs c' = remove1 x (cache_ctxs c)" "i < dc_valid_count c" "cache_ctxs c ! i = x"
      "cache_loads c' = take i (cache_loads c) @ drop (Suc i) (cache_loads c)"
proof (cases "find_pos x (cache_ctxs c)")
  case None
  then have "wd_sched_skey_remove_ctx c x = Some (Inl WD_ENODEV, c)"
    by (simp add: wd_sched_skey_remove_ctx_def cache_ctxs_def)
  with None show ?thesis using fail by (simp add: find_pos_None)
next
  case (Some i)
  let ?n = "dc_valid_count c"
  from find_pos_Some [OF Some] inv have i: "i < ?n" "cache_ctxs c ! i = x" "x \<notin> set (take i (cache_ctxs c))"
    by auto
  have len: "?n \<le> length (dc_idx_list c)" "?n \<le> length (dc_load_values c)"
    using inv by (auto simp: cache_inv_def)
  define c1 where "c1 = c\<lparr>dc_idx_list := (shifted i (?n - 1) (dc_idx_list c))[?n - 1 := INVALID_POS],
     dc_load_values := (shifted i (?n - 1) (dc_load_values c))[?n - 1 := 0], dc_valid_count := ?n - 1\<rparr>"
  define c' where "c' = (if dc_valid_count c1 = 0 then c1\<lparr>dc_rr_ptr := 0, dc_min_load_idx := 0\<rparr>
     else if dc_min_load_idx c1 \<ge> dc_valid_count c1 then c1\<lparr>dc_min_load_idx := 0\<rparr> else c1)"
  have lens: "length (shifted i m (xs :: nat list)) = length xs" for m xs by (simp add: shifted_def)
  have fold: "opt_fold shift_slot [i ..< ?n - 1] c = Some (c\<lparr>dc_idx_list := shifted i (?n - 1) (dc_idx_list c),
     dc_load_values := shifted i (?n - 1) (dc_load_values c)\<rparr>)"
    using i len by (intro shift_fold) auto
  have res: "wd_sched_skey_remove_ctx c x = Some (Inr (), c')"
    using Some i(1) len fold
    by (simp add: wd_sched_skey_remove_ctx_def cache_ctxs_def lens c'_def c1_def Let_def)
  have same: "dc_idx_list c' = dc_idx_list c1" "dc_load_values c' = dc_load_values c1"
    "dc_valid_count c' = dc_valid_count c1" by (simp_all add: c'_def)
  have "cache_ctxs c' = take i (cache_ctxs c) @ drop (Suc i) (cache_ctxs c)"
    using take_shifted_update [OF i(1) len(1)] by (simp only: cache_ctxs_def same) (simp add: c1_def)
  then have ctxs: "cache_ctxs c' = remove1 x (cache_ctxs c)" using i inv by (simp add: remove1_at)
  have loads: "cache_loads c' = take i (cache_loads c) @ drop (Suc i) (cache_loads c)"
    using take_shifted_update [OF i(1) len(2)] by (simp only: cache_loads_def same) (simp add: c1_def)
  have bound: "\<forall>l \<in> set (dc_load_values c'). l \<le> UINT_MAX"
  proof -
    have "set (shifted i (?n - 1) (dc_load_values c)) \<subseteq> set (dc_load_values c)"
      using len(2) by (auto simp: shifted_def)
    then show ?thesis unfolding same using inv
      by (auto simp: c1_def cache_inv_def dest!: set_update_subset_insert [THEN subsetD])
  qed
  have "cache_inv c'"
    using inv bound i(1) by (auto simp: cache_inv_def c'_def c1_def lens)
  moreover have "x \<in> set (cache_ctxs c)" using Some find_pos_None [of x "cache_ctxs c"] by auto
  ultimately show ?thesis using res ctxs loads i by (intro ok [of c' i])
qed

subsection \<open>The least loaded context\<close>

lemma min_scan_spec:
  assumes "\<forall>l \<in> set loads. l \<le> UINT_MAX" and "min_scan i loads m idx = r"
  shows "(r = idx \<and> (\<forall>l \<in> set loads. m \<le> l)) \<or>
    (\<exists>j < length loads. r = i + j \<and> loads ! j < m \<and> (\<forall>l \<in> set loads. loads ! j \<le> l))"
  using assms
proof (induction loads arbitrary: i m idx)
  case (Cons l loads)
  show ?case
  proof (cases "l < m")
    case True
    from Cons.IH [of "i + 1" l i] Cons.prems True
    consider "r = i" "\<forall>k \<in> set loads. l \<le> k"
      | j where "j < length loads" "r = i + 1 + j" "loads ! j < l" "\<forall>k \<in> set loads. loads ! j \<le> k" by auto
    then show ?thesis
    proof cases
      case 1
      then show ?thesis using True by (intro disjI2 exI [of _ 0]) auto
    next
      case (2 j)
      then show ?thesis using True by (intro disjI2 exI [of _ "Suc j"]) auto
    qed
  next
    case False
    from Cons.IH [of "i + 1" m idx] Cons.prems False
    consider "r = idx" "\<forall>k \<in> set loads. m \<le> k"
      | j where "j < length loads" "r = i + 1 + j" "loads ! j < m" "\<forall>k \<in> set loads. loads ! j \<le> k" by auto
    then show ?thesis
    proof cases
      case 1
      then show ?thesis using False by (intro disjI1) auto
    next
      case (2 j)
      then show ?thesis using False by (intro disjI2 exI [of _ "Suc j"]) auto
    qed
  qed
qed simp

lemma update_min_load_spec:
  assumes inv: "cache_inv c" and "0 < dc_valid_count c"
  shows "\<exists>k < dc_valid_count c. wd_sched_update_min_load c = c\<lparr>dc_min_load_idx := k\<rparr> \<and>
    (\<forall>l \<in> set (cache_loads c). cache_loads c ! k \<le> l)"
proof -
  let ?r = "min_scan 0 (cache_loads c) UINT_MAX 0"
  have ub: "\<forall>l \<in> set (cache_loads c). l \<le> UINT_MAX"
    using inv by (auto simp: cache_inv_def cache_loads_def dest: in_set_takeD)
  have eq: "wd_sched_update_min_load c = c\<lparr>dc_min_load_idx := ?r\<rparr>"
    using assms by (simp add: wd_sched_update_min_load_def cache_loads_def)
  from min_scan_spec [OF ub refl, of 0 UINT_MAX 0] show ?thesis
  proof
    assume a: "?r = 0 \<and> (\<forall>l \<in> set (cache_loads c). UINT_MAX \<le> l)"
    have "cache_loads c ! 0 \<in> set (cache_loads c)" using assms by (intro nth_mem) simp
    then have "cache_loads c ! 0 \<le> UINT_MAX" using ub by blast
    with a show ?thesis using assms(2) eq by (intro exI [of _ 0]) auto
  next
    assume "\<exists>j < length (cache_loads c). ?r = 0 + j \<and> cache_loads c ! j < UINT_MAX \<and>
      (\<forall>l \<in> set (cache_loads c). cache_loads c ! j \<le> l)"
    then show ?thesis using inv eq by auto
  qed
qed

subsection \<open>Picking\<close>

definition rr_policy :: "nat \<Rightarrow> bool" where
  "rr_policy p \<longleftrightarrow> p < SCHED_POLICY_BUTT \<and> p \<noteq> SCHED_POLICY_HUNGRY"

lemma rr_policy_cases:
  "rr_policy p \<longleftrightarrow> p = SCHED_POLICY_RR \<or> p = SCHED_POLICY_NONE \<or> p = SCHED_POLICY_SINGLE \<or> p = SCHED_POLICY_DEV \<or>
     p = SCHED_POLICY_LOOP \<or> p = SCHED_POLICY_INSTR"
  by (auto simp: rr_policy_def sched_policy_defs)

lemma pick_rr:
  assumes inv: "cache_inv c" and rr: "rr_policy (dc_policy c)" and n: "0 < dc_valid_count c"
  shows "wd_sched_skey_pick_next c =
    Some ((cache_ctxs c ! (dc_rr_ptr c mod dc_valid_count c), Some (dc_rr_ptr c mod dc_valid_count c)),
      c\<lparr>dc_rr_ptr := u32 (dc_rr_ptr c + 1)\<rparr>)"
proof -
  let ?k = "dc_rr_ptr c mod dc_valid_count c"
  have "?k < dc_valid_count c" using n by simp
  moreover have "dc_valid_count c \<le> length (dc_idx_list c)" using inv by (simp add: cache_inv_def)
  ultimately have "?k < length (dc_idx_list c)" by linarith
  then have "rd (dc_idx_list c) ?k = Some (dc_idx_list c ! ?k)" by (rule rd_in)
  then show ?thesis
    using n rr unfolding rr_policy_cases
    by (simp add: wd_sched_skey_pick_next_def cache_ctxs_def Let_def not_le)
qed

lemma pick_hungry:
  assumes inv: "cache_inv c" and pol: "dc_policy c = SCHED_POLICY_HUNGRY" and n: "0 < dc_valid_count c"
  shows "\<exists>k < dc_valid_count c. wd_sched_skey_pick_next c =
    Some ((cache_ctxs c ! k, Some k), c\<lparr>dc_op_counter := u32 (dc_op_counter c + 1), dc_min_load_idx := k\<rparr>) \<and>
    (if dc_op_counter c mod dc_update_interval c = 0 then \<forall>l \<in> set (cache_loads c). cache_loads c ! k \<le> l
     else k = dc_min_load_idx c)"
proof -
  let ?c = "c\<lparr>dc_op_counter := u32 (dc_op_counter c + 1)\<rparr>"
  define c1 where "c1 = (if dc_op_counter c mod dc_update_interval c = 0 then wd_sched_update_min_load ?c else ?c)"
  have inv1: "cache_inv ?c" "0 < dc_valid_count ?c" using inv n by (simp_all add: cache_inv_def)
  have "\<exists>k < dc_valid_count c. c1 = ?c\<lparr>dc_min_load_idx := k\<rparr> \<and>
    (if dc_op_counter c mod dc_update_interval c = 0 then \<forall>l \<in> set (cache_loads c). cache_loads c ! k \<le> l
     else k = dc_min_load_idx c)"
  proof (cases "dc_op_counter c mod dc_update_interval c = 0")
    case True
    with update_min_load_spec [OF inv1] show ?thesis by (simp add: c1_def cache_loads_def)
  next
    case False
    then show ?thesis using inv n by (auto simp: c1_def cache_inv_def)
  qed
  then obtain k where k: "k < dc_valid_count c" "c1 = ?c\<lparr>dc_min_load_idx := k\<rparr>"
    "if dc_op_counter c mod dc_update_interval c = 0 then \<forall>l \<in> set (cache_loads c). cache_loads c ! k \<le> l
     else k = dc_min_load_idx c" by blast
  have len: "dc_valid_count c \<le> length (dc_idx_list c)" using inv by (simp add: cache_inv_def)
  have "wd_sched_skey_pick_next c =
      (if dc_min_load_idx c1 \<ge> dc_valid_count c1 then Some ((INVALID_POS, None), c1)
       else case rd (dc_idx_list c1) (dc_min_load_idx c1) of None \<Rightarrow> None
         | Some ctx \<Rightarrow> Some ((ctx, Some (dc_min_load_idx c1)), c1))"
    using n pol unfolding c1_def
    by (cases "dc_op_counter c mod dc_update_interval c = 0")
      (simp_all add: wd_sched_skey_pick_next_def Let_def sched_policy_defs cong: option.case_cong)
  with k len show ?thesis by (intro exI [of _ k]) (simp add: cache_ctxs_def)
qed

lemma pick_none: "dc_valid_count c = 0 \<Longrightarrow> wd_sched_skey_pick_next c = Some ((INVALID_POS, None), c)"
  by (simp add: wd_sched_skey_pick_next_def)

lemma pick_inv:
  assumes inv: "cache_inv c" and pol: "dc_policy c < SCHED_POLICY_BUTT"
  obtains (none) "dc_valid_count c = 0" "wd_sched_skey_pick_next c = Some ((INVALID_POS, None), c)"
  | (some) k c' where "k < dc_valid_count c" "wd_sched_skey_pick_next c = Some ((cache_ctxs c ! k, Some k), c')"
      "cache_inv c'" "cache_ctxs c' = cache_ctxs c" "cache_loads c' = cache_loads c"
      "dc_load_values c' = dc_load_values c" "dc_policy c' = dc_policy c" "dc_has_sub c' = dc_has_sub c"
      "dc_valid_count c' = dc_valid_count c"
proof (cases "dc_valid_count c = 0")
  case True
  then show ?thesis using none pick_none by blast
next
  case False
  then have n: "0 < dc_valid_count c" by simp
  show ?thesis
  proof (cases "dc_policy c = SCHED_POLICY_HUNGRY")
    case True
    from pick_hungry [OF inv True n] obtain k where k: "k < dc_valid_count c" "wd_sched_skey_pick_next c =
      Some ((cache_ctxs c ! k, Some k), c\<lparr>dc_op_counter := u32 (dc_op_counter c + 1), dc_min_load_idx := k\<rparr>)" by blast
    from k inv show ?thesis by (intro some [OF k]) (auto simp: cache_inv_def cache_ctxs_def cache_loads_def)
  next
    case False
    then have rr: "rr_policy (dc_policy c)" using pol by (simp add: rr_policy_def)
    show ?thesis using inv n
      by (intro some [OF _ pick_rr [OF inv rr n]]) (auto simp: cache_inv_def cache_ctxs_def cache_loads_def)
  qed
qed

end
