(* ===== verification/Sched_Session.thy ===== *)
theory Sched_Session
  imports Sched_Cache Alg_Registry
begin

text \<open>
  Session keys of \<^verbatim>\<open>wd_sched.c\<close>: their creation and removal (lines 892--934 and 1112--1363), the
  replacement of contexts whose driver does not offer the session's algorithm (lines 950--1043), and
  the external interface that creates the scheduler and its domains (lines 2064--2285).

  A session handle is an address; \<open>ss_keys\<close> maps addresses to keys and the slot array of the scheduler
  context holds addresses. An access through an address that is not allocated has no outcome. The
  results of \<^verbatim>\<open>malloc\<close> (an address), of \<^verbatim>\<open>getcpu\<close>, of \<^verbatim>\<open>numa_max_node\<close> and of the mutex
  initialisations are parameters.
\<close>

definition SKEY_MAX_THREAD_NUM :: nat where "SKEY_MAX_THREAD_NUM = 64"

record wd_sched_key_domain =
  kd_idx_cache :: wd_sched_domain_idx_cache
  kd_expanded_count :: nat
  kd_pending_count :: int

record wd_sched_key =
  sk_region_id :: int
  sk_type :: nat
  sk_mode :: nat
  sk_dev_id :: nat
  sk_ctx_prop :: nat
  sk_is_stream :: nat
  sk_prio_mode :: nat
  sk_pkt_size :: nat
  sk_sync_domain :: wd_sched_key_domain
  sk_async_domain :: wd_sched_key_domain
  sk_alg_name :: "string option"
  sk_ctxs :: "wd_ctx_internal list option"

record wd_sched_ctx =
  sc_policy :: nat
  sc_type_num :: nat
  sc_mode_num :: nat
  sc_region_num :: nat
  sc_domain_hash_table :: "wd_sched_domain_hash_table option"
  sc_skey_num :: nat
  sc_skey :: "nat option list"

record sched_params =
  sp_numa_id :: int
  sp_type :: nat
  sp_mode :: nat
  sp_begin :: nat
  sp_end :: nat
  sp_dev_id :: nat
  sp_ctx_prop :: int

record wd_sched_params =
  wp_pkt_size :: nat
  wp_data_mode :: nat
  wp_prio_mode :: nat
  wp_alg_name :: "string option"
  wp_ctxs :: "wd_ctx_internal list option"

text \<open>The scheduler context together with the session keys that are allocated.\<close>

record sched_state =
  ss_ctx :: wd_sched_ctx
  ss_keys :: "nat \<rightharpoonup> wd_sched_key"

text \<open>What \<^verbatim>\<open>memset\<close> to zero leaves.\<close>

definition zero_cache :: wd_sched_domain_idx_cache where
  "zero_cache = \<lparr>dc_idx_list = replicate SKEY_CTX_MAX_NUM 0, dc_load_values = replicate SKEY_CTX_MAX_NUM 0,
     dc_valid_count = 0, dc_rr_ptr = 0, dc_min_load_idx = 0, dc_op_counter = 0, dc_update_interval = 0,
     dc_policy = 0, dc_has_sub = False\<rparr>"

definition zero_key_domain :: wd_sched_key_domain where
  "zero_key_domain = \<lparr>kd_idx_cache = zero_cache, kd_expanded_count = 0, kd_pending_count = 0\<rparr>"

definition zero_key :: wd_sched_key where
  "zero_key = \<lparr>sk_region_id = 0, sk_type = 0, sk_mode = 0, sk_dev_id = 0, sk_ctx_prop = 0, sk_is_stream = 0,
     sk_prio_mode = 0, sk_pkt_size = 0, sk_sync_domain = zero_key_domain, sk_async_domain = zero_key_domain,
     sk_alg_name = None, sk_ctxs = None\<rparr>"

subsection \<open>Key domains\<close>

text \<open>The value of a failing \<^verbatim>\<open>pthread_mutex_init\<close> is passed on by the code but no caller looks at it.\<close>

definition wd_sched_skey_domain_init ::
  "bool list \<Rightarrow> wd_sched_key_domain \<Rightarrow> nat \<Rightarrow> nat
    \<Rightarrow> (unit result \<times> wd_sched_key_domain \<times> bool list) option" where
  "wd_sched_skey_domain_init locks key_domain ctx_idx policy =
    (let (ok, locks) = calloc_ok locks in
     case wd_sched_skey_cache_init ok policy of
       (Inl e, cache) \<Rightarrow> Some (Inl e, key_domain\<lparr>kd_idx_cache := cache\<rparr>, locks)
     | (Inr _, cache) \<Rightarrow>
         (case wd_sched_skey_add_ctx cache ctx_idx of
            None \<Rightarrow> None
          | Some (Inl e, cache) \<Rightarrow>
              Some (Inl e, key_domain\<lparr>kd_idx_cache := wd_sched_skey_cache_uninit cache\<rparr>, locks)
          | Some (Inr _, cache) \<Rightarrow>
              (let (ok, locks) = calloc_ok locks in
               if ok then Some (Inr (), key_domain\<lparr>kd_idx_cache := cache, kd_expanded_count := 0\<rparr>, locks)
               else (case wd_sched_skey_remove_ctx cache ctx_idx of
                       None \<Rightarrow> None
                     | Some (_, cache) \<Rightarrow>
                         Some (Inl WD_EINVAL, key_domain\<lparr>kd_idx_cache := wd_sched_skey_cache_uninit cache\<rparr>, locks)))))"

definition wd_sched_skey_domain_destroy :: "wd_sched_key_domain \<Rightarrow> wd_sched_key_domain" where
  "wd_sched_skey_domain_destroy key_domain =
    key_domain\<lparr>kd_idx_cache := wd_sched_skey_cache_uninit (kd_idx_cache key_domain)\<rparr>"

subsection \<open>Contexts for a session\<close>

definition session_sched_init_ctx ::
  "wd_sched_ctx \<Rightarrow> wd_sched_key \<Rightarrow> nat \<Rightarrow> (nat \<times> wd_sched_ctx) option" where
  "session_sched_init_ctx sched_ctx skey sched_mode =
    (if sk_region_id skey \<ge> int (sc_region_num sched_ctx) \<or> sched_mode \<ge> SCHED_MODE_BUTT \<or>
        sk_type skey \<ge> sc_type_num sched_ctx \<or> sk_ctx_prop skey \<ge> UADK_ALG_TYPE_MAX
     then Some (INVALID_POS, sched_ctx)
     else case sc_domain_hash_table sched_ctx of
         None \<Rightarrow> Some (INVALID_POS, sched_ctx)
       | Some t \<Rightarrow>
           (case wd_sched_hash_table_lookup (Some t) (sk_region_id skey) sched_mode (sk_type skey) (sk_ctx_prop skey) of
              None \<Rightarrow> None
            | Some None \<Rightarrow> Some (INVALID_POS, sched_ctx)
            | Some (Some domain) \<Rightarrow>
                if \<not> cd_valid domain then Some (INVALID_POS, sched_ctx)
                else (case wd_sched_domain_get_next_rr (Some domain) of
                        Some (ctx_idx, Some domain') \<Rightarrow>
                          Some (ctx_idx, sched_ctx\<lparr>sc_domain_hash_table := Some (domain_store t domain')\<rparr>)
                      | _ \<Rightarrow> None)))"

text \<open>
  The inner loop of \<^verbatim>\<open>wd_sched_find_compat_ctx\<close>: at most \<open>n\<close> steps of the domain's cursor, until a
  context whose driver offers the algorithm is found.
\<close>

fun compat_scan ::
  "wd_alg_registry \<Rightarrow> wd_ctx_internal list \<Rightarrow> string \<Rightarrow> nat \<Rightarrow> wd_sched_ctx_domain
    \<Rightarrow> (nat option \<times> wd_sched_ctx_domain) option" where
  "compat_scan rg ctxs alg_name 0 domain = Some (None, domain)"
| "compat_scan rg ctxs alg_name (Suc n) domain =
    (case wd_sched_domain_get_next_rr (Some domain) of
       Some (ctx_idx, Some domain') \<Rightarrow>
         if ctx_idx = INVALID_POS then Some (None, domain')
         else (case rd ctxs ctx_idx of
                 None \<Rightarrow> None
               | Some c \<Rightarrow>
                   if ci_drv c \<noteq> None \<and> wd_alg_match_drv rg (ci_drv c) (Some alg_name)
                   then Some (Some ctx_idx, domain')
                   else compat_scan rg ctxs alg_name n domain')
     | _ \<Rightarrow> None)"

fun compat_props ::
  "wd_alg_registry \<Rightarrow> wd_ctx_internal list \<Rightarrow> string \<Rightarrow> int \<Rightarrow> nat \<Rightarrow> nat \<Rightarrow> nat list
    \<Rightarrow> wd_sched_domain_hash_table \<Rightarrow> (nat \<times> wd_sched_domain_hash_table) option" where
  "compat_props rg ctxs alg_name region mode ty [] t = Some (INVALID_POS, t)"
| "compat_props rg ctxs alg_name region mode ty (prop # props) t =
    (case wd_sched_hash_table_lookup (Some t) region mode ty prop of
       None \<Rightarrow> None
     | Some None \<Rightarrow> compat_props rg ctxs alg_name region mode ty props t
     | Some (Some domain) \<Rightarrow>
         if \<not> cd_valid domain then compat_props rg ctxs alg_name region mode ty props t
         else (case compat_scan rg ctxs alg_name (cd_total_ctx_count domain) domain of
                 None \<Rightarrow> None
               | Some (Some ctx_idx, domain') \<Rightarrow> Some (ctx_idx, domain_store t domain')
               | Some (None, domain') \<Rightarrow>
                   compat_props rg ctxs alg_name region mode ty props (domain_store t domain')))"

definition wd_sched_find_compat_ctx ::
  "wd_alg_registry \<Rightarrow> wd_sched_ctx \<Rightarrow> wd_sched_key \<Rightarrow> nat \<Rightarrow> (nat \<times> wd_sched_ctx) option" where
  "wd_sched_find_compat_ctx rg sched_ctx skey sched_mode =
    (case (sk_alg_name skey, sk_ctxs skey, sc_domain_hash_table sched_ctx) of
       (Some alg_name, Some ctxs, Some t) \<Rightarrow>
         (case compat_props rg ctxs alg_name (sk_region_id skey) sched_mode (sk_type skey)
                 [0 ..< UADK_ALG_TYPE_MAX] t of
            None \<Rightarrow> None
          | Some (ctx_idx, t') \<Rightarrow> Some (ctx_idx, sched_ctx\<lparr>sc_domain_hash_table := Some t'\<rparr>))
     | _ \<Rightarrow> Some (INVALID_POS, sched_ctx))"

text \<open>One iteration of the loop of \<^verbatim>\<open>wd_sched_skey_compat_filter\<close>.\<close>

definition filter_slot ::
  "wd_alg_registry \<Rightarrow> wd_sched_key \<Rightarrow> string \<Rightarrow> wd_ctx_internal list \<Rightarrow> nat \<Rightarrow> nat
    \<Rightarrow> wd_sched_ctx \<times> wd_sched_domain_idx_cache \<Rightarrow> (wd_sched_ctx \<times> wd_sched_domain_idx_cache) option" where
  "filter_slot rg skey alg_name ctxs sched_mode i = (\<lambda>(sched_ctx, cache).
    (case rd (dc_idx_list cache) i of
       None \<Rightarrow> None
     | Some ctx_idx \<Rightarrow>
         if ctx_idx = INVALID_POS then Some (sched_ctx, cache)
         else (case rd ctxs ctx_idx of
                 None \<Rightarrow> None
               | Some c \<Rightarrow>
                   if ci_drv c = None then Some (sched_ctx, cache)
                   else if wd_alg_match_drv rg (ci_drv c) (Some alg_name) then Some (sched_ctx, cache)
                   else (case wd_sched_find_compat_ctx rg sched_ctx skey sched_mode of
                           None \<Rightarrow> None
                         | Some (new_ctx, sched_ctx') \<Rightarrow>
                             if new_ctx \<noteq> INVALID_POS \<and> new_ctx \<noteq> ctx_idx
                             then (case wr (dc_load_values cache) i 0 of
                                     None \<Rightarrow> None
                                   | Some loads \<Rightarrow>
                                       Some (sched_ctx', cache\<lparr>dc_idx_list := (dc_idx_list cache)[i := new_ctx],
                                                              dc_load_values := loads\<rparr>))
                             else Some (sched_ctx',
                                    cache\<lparr>dc_idx_list := (dc_idx_list cache)[i := INVALID_POS]\<rparr>)))))"

definition wd_sched_skey_compat_filter ::
  "wd_alg_registry \<Rightarrow> wd_sched_ctx \<Rightarrow> wd_sched_key \<Rightarrow> wd_sched_key_domain \<Rightarrow> nat
    \<Rightarrow> (wd_sched_ctx \<times> wd_sched_key_domain) option" where
  "wd_sched_skey_compat_filter rg sched_ctx skey domain sched_mode =
    (case (sk_alg_name skey, sk_ctxs skey) of
       (Some alg_name, Some ctxs) \<Rightarrow>
         if dc_valid_count (kd_idx_cache domain) = 0 then Some (sched_ctx, domain)
         else (case opt_fold (filter_slot rg skey alg_name ctxs sched_mode)
                      [0 ..< dc_valid_count (kd_idx_cache domain)] (sched_ctx, kd_idx_cache domain) of
                 None \<Rightarrow> None
               | Some (sched_ctx', cache) \<Rightarrow> Some (sched_ctx', domain\<lparr>kd_idx_cache := cache\<rparr>))
     | _ \<Rightarrow> Some (sched_ctx, domain))"

definition wd_sched_set_param ::
  "wd_alg_registry \<Rightarrow> sched_state \<Rightarrow> nat \<Rightarrow> wd_sched_params \<Rightarrow> sched_state option" where
  "wd_sched_set_param rg st h_key params =
    (case ss_keys st h_key of
       None \<Rightarrow> None
     | Some skey \<Rightarrow>
         (let skey = skey\<lparr>sk_pkt_size := wp_pkt_size params, sk_is_stream := wp_data_mode params,
                          sk_prio_mode := wp_prio_mode params, sk_alg_name := wp_alg_name params,
                          sk_ctxs := wp_ctxs params\<rparr> in
          if sk_alg_name skey \<noteq> None \<and> sk_ctxs skey \<noteq> None then
            (case wd_sched_skey_compat_filter rg (ss_ctx st) skey (sk_sync_domain skey) SCHED_MODE_SYNC of
               None \<Rightarrow> None
             | Some (c1, d1) \<Rightarrow>
                 (let skey = skey\<lparr>sk_sync_domain := d1\<rparr> in
                  case wd_sched_skey_compat_filter rg c1 skey (sk_async_domain skey) SCHED_MODE_ASYNC of
                    None \<Rightarrow> None
                  | Some (c2, d2) \<Rightarrow>
                      Some (st\<lparr>ss_ctx := c2, ss_keys := (ss_keys st)(h_key \<mapsto> skey\<lparr>sk_async_domain := d2\<rparr>)\<rparr>)))
          else Some (st\<lparr>ss_keys := (ss_keys st)(h_key \<mapsto> skey)\<rparr>)))"

subsection \<open>Session keys\<close>

definition sched_skey_param_init :: "wd_sched_ctx \<Rightarrow> nat \<Rightarrow> unit result \<times> wd_sched_ctx" where
  "sched_skey_param_init sched_ctx skey =
    (case List.find (\<lambda>i. sc_skey sched_ctx ! i = None) [0 ..< length (sc_skey sched_ctx)] of
       Some i \<Rightarrow> (Inr (), sched_ctx\<lparr>sc_skey := (sc_skey sched_ctx)[i := Some skey],
                                   sc_skey_num := u32 (sc_skey_num sched_ctx + 1)\<rparr>)
     | None \<Rightarrow> (Inl WD_ENOMEM, sched_ctx))"

definition sched_skey_param_uninit :: "wd_sched_ctx \<Rightarrow> nat \<Rightarrow> wd_sched_ctx" where
  "sched_skey_param_uninit sched_ctx skey =
    (case List.find (\<lambda>i. sc_skey sched_ctx ! i = Some skey) [0 ..< length (sc_skey sched_ctx)] of
       Some i \<Rightarrow> sched_ctx\<lparr>sc_skey := (sc_skey sched_ctx)[i := None],
                          sc_skey_num := (if sc_skey_num sched_ctx > 0 then sc_skey_num sched_ctx - 1
                                          else sc_skey_num sched_ctx)\<rparr>
     | None \<Rightarrow> sched_ctx)"

text \<open>\<open>cpu\<close> is what \<^verbatim>\<open>getcpu\<close> gave: an errno value, or the node.\<close>

definition sched_session_common_init ::
  "(wd_error + nat) \<Rightarrow> nat option \<Rightarrow> sched_params option \<Rightarrow> (nat \<times> wd_sched_key) result" where
  "sched_session_common_init cpu malloc param =
    (case cpu of
       Inl e \<Rightarrow> Inl e
     | Inr node \<Rightarrow>
         (case malloc of
            None \<Rightarrow> Inl WD_ENOMEM
          | Some addr \<Rightarrow>
              (case param of
                 None \<Rightarrow> Inr (addr, zero_key\<lparr>sk_region_id := i32 (int node)\<rparr>)
               | Some p \<Rightarrow>
                   Inr (addr, zero_key\<lparr>sk_region_id := (if sp_numa_id p \<ge> 0 then sp_numa_id p else i32 (int node)),
                                      sk_type := sp_type p,
                                      sk_ctx_prop := u8 (nat (sp_ctx_prop p mod 256))\<rparr>))))"

definition session_sched_domain_init ::
  "bool list \<Rightarrow> wd_sched_ctx \<Rightarrow> wd_sched_key
    \<Rightarrow> (unit result \<times> wd_sched_ctx \<times> wd_sched_key \<times> bool list) option" where
  "session_sched_domain_init locks sched_ctx skey =
    (case session_sched_init_ctx sched_ctx skey SCHED_MODE_SYNC of
       None \<Rightarrow> None
     | Some (sync_ctx, c1) \<Rightarrow>
         (case session_sched_init_ctx c1 skey SCHED_MODE_ASYNC of
            None \<Rightarrow> None
          | Some (async_ctx, c2) \<Rightarrow>
              if sync_ctx = INVALID_POS \<and> async_ctx = INVALID_POS then Some (Inl WD_EINVAL, c2, skey, locks)
              else
                (case (if sync_ctx \<noteq> INVALID_POS
                       then wd_sched_skey_domain_init locks (sk_sync_domain skey) sync_ctx (sc_policy c2)
                       else Some (Inr (), sk_sync_domain skey, locks)) of
                   None \<Rightarrow> None
                 | Some (Inl _, d, locks) \<Rightarrow> Some (Inl WD_EINVAL, c2, skey\<lparr>sk_sync_domain := d\<rparr>, locks)
                 | Some (Inr _, d, locks) \<Rightarrow>
                     (let skey = skey\<lparr>sk_sync_domain := d\<rparr> in
                      case (if async_ctx \<noteq> INVALID_POS
                            then wd_sched_skey_domain_init locks (sk_async_domain skey) async_ctx (sc_policy c2)
                            else Some (Inr (), sk_async_domain skey, locks)) of
                        None \<Rightarrow> None
                      | Some (Inl _, d, locks) \<Rightarrow>
                          (let skey = skey\<lparr>sk_async_domain := d\<rparr> in
                           Some (Inl WD_EINVAL, c2,
                             (if sync_ctx \<noteq> INVALID_POS
                              then skey\<lparr>sk_sync_domain := wd_sched_skey_domain_destroy (sk_sync_domain skey)\<rparr>
                              else skey), locks))
                      | Some (Inr _, d, locks) \<Rightarrow> Some (Inr (), c2, skey\<lparr>sk_async_domain := d\<rparr>, locks)))))"

definition session_sched_domain_destroy :: "wd_sched_key \<Rightarrow> wd_sched_key" where
  "session_sched_domain_destroy skey =
    skey\<lparr>sk_sync_domain := wd_sched_skey_domain_destroy (sk_sync_domain skey),
         sk_async_domain := wd_sched_skey_domain_destroy (sk_async_domain skey)\<rparr>"

text \<open>
  \<^verbatim>\<open>sched_session_uninit\<close> with a handle of an allocated key (\<open>None\<close> as handle is \<^verbatim>\<open>NULL\<close>); the destroyed
  domains disappear with the key.
\<close>

definition sched_session_uninit :: "sched_state \<Rightarrow> nat option \<Rightarrow> sched_state option" where
  "sched_session_uninit st h_key =
    (case h_key of
       None \<Rightarrow> Some st
     | Some a \<Rightarrow>
         (case ss_keys st a of
            None \<Rightarrow> None
          | Some skey \<Rightarrow>
              (let st = st\<lparr>ss_keys := (ss_keys st)(a \<mapsto> session_sched_domain_destroy skey)\<rparr> in
               Some (st\<lparr>ss_ctx := sched_skey_param_uninit (ss_ctx st) a, ss_keys := (ss_keys st)(a := None)\<rparr>))))"

text \<open>
  The end that the initialisation functions share: register the key, or free it. \<open>round_robin_sched_init\<close>
  and \<open>instr_sched_init\<close> have the same text; \<open>session_dev_sched_init\<close> reads \<^verbatim>\<open>param->type\<close> once more.
\<close>

definition register_skey :: "sched_state \<Rightarrow> wd_sched_ctx \<Rightarrow> nat \<Rightarrow> wd_sched_key \<Rightarrow> nat result \<times> sched_state" where
  "register_skey st c a skey =
    (case sched_skey_param_init c a of
       (Inl _, c') \<Rightarrow> (Inl WD_ENOMEM, st\<lparr>ss_ctx := c'\<rparr>)
     | (Inr _, c') \<Rightarrow> (Inr a, st\<lparr>ss_ctx := c', ss_keys := (ss_keys st)(a \<mapsto> skey)\<rparr>))"

definition round_robin_sched_init ::
  "(wd_error + nat) \<Rightarrow> nat option \<Rightarrow> bool list \<Rightarrow> sched_state \<Rightarrow> sched_params option
    \<Rightarrow> (nat result \<times> sched_state) option" where
  "round_robin_sched_init cpu malloc locks st param =
    (case sched_session_common_init cpu malloc param of
       Inl e \<Rightarrow> Some (Inl e, st)
     | Inr (a, skey) \<Rightarrow>
         (case session_sched_domain_init locks (ss_ctx st) skey of
            None \<Rightarrow> None
          | Some (Inl _, c, skey, locks) \<Rightarrow> Some (Inl WD_EINVAL, st\<lparr>ss_ctx := c\<rparr>)
          | Some (Inr _, c, skey, locks) \<Rightarrow> Some (register_skey st c a skey)))"

definition instr_sched_init ::
  "(wd_error + nat) \<Rightarrow> nat option \<Rightarrow> bool list \<Rightarrow> sched_state \<Rightarrow> sched_params option
    \<Rightarrow> (nat result \<times> sched_state) option" where
  "instr_sched_init cpu malloc locks st param =
    (case sched_session_common_init cpu malloc param of
       Inl e \<Rightarrow> Some (Inl e, st)
     | Inr (a, skey) \<Rightarrow>
         (case session_sched_domain_init locks (ss_ctx st) skey of
            None \<Rightarrow> None
          | Some (Inl _, c, skey, locks) \<Rightarrow> Some (Inl WD_EINVAL, st\<lparr>ss_ctx := c\<rparr>)
          | Some (Inr _, c, skey, locks) \<Rightarrow> Some (register_skey st c a skey)))"

definition session_dev_sched_init ::
  "(wd_error + nat) \<Rightarrow> nat option \<Rightarrow> bool list \<Rightarrow> sched_state \<Rightarrow> sched_params option
    \<Rightarrow> (nat result \<times> sched_state) option" where
  "session_dev_sched_init cpu malloc locks st param =
    (case sched_session_common_init cpu malloc param of
       Inl e \<Rightarrow> Some (Inl e, st)
     | Inr (a, skey) \<Rightarrow>
         (case param of
            None \<Rightarrow> None
          | Some p \<Rightarrow>
              (case session_sched_domain_init locks (ss_ctx st) (skey\<lparr>sk_type := sp_type p\<rparr>) of
                 None \<Rightarrow> None
               | Some (Inl _, c, skey, locks) \<Rightarrow> Some (Inl WD_EINVAL, st\<lparr>ss_ctx := c\<rparr>)
               | Some (Inr _, c, skey, locks) \<Rightarrow> Some (register_skey st c a skey))))"

text \<open>
  The loop of \<^verbatim>\<open>skey_sched_init\<close> over the properties: every round initialises the two domains of the key
  anew, so only the contexts of the last successful property remain.
\<close>

fun init_props ::
  "nat list \<Rightarrow> bool list \<Rightarrow> wd_sched_ctx \<Rightarrow> wd_sched_key \<Rightarrow> nat
    \<Rightarrow> (nat \<times> wd_sched_ctx \<times> wd_sched_key \<times> bool list) option" where
  "init_props [] locks c skey req_ctx_num = Some (req_ctx_num, c, skey, locks)"
| "init_props (i # is) locks c skey req_ctx_num =
    (case session_sched_domain_init locks c (skey\<lparr>sk_ctx_prop := i\<rparr>) of
       None \<Rightarrow> None
     | Some (Inl _, c, skey, locks) \<Rightarrow> init_props is locks c skey req_ctx_num
     | Some (Inr _, c, skey, locks) \<Rightarrow> init_props is locks c skey (req_ctx_num + 2))"

definition skey_sched_init ::
  "(wd_error + nat) \<Rightarrow> nat option \<Rightarrow> bool list \<Rightarrow> sched_state \<Rightarrow> sched_params option
    \<Rightarrow> (nat result \<times> sched_state) option" where
  "skey_sched_init cpu malloc locks st param =
    (case sched_session_common_init cpu malloc param of
       Inl e \<Rightarrow> Some (Inl e, st)
     | Inr (a, skey) \<Rightarrow>
         (let def_prop = sk_ctx_prop skey in
          case init_props [0 ..< UADK_ALG_TYPE_MAX] locks (ss_ctx st) skey 0 of
            None \<Rightarrow> None
          | Some (req_ctx_num, c, skey, locks) \<Rightarrow>
              if req_ctx_num = 0 then Some (Inl WD_EINVAL, st\<lparr>ss_ctx := c\<rparr>)
              else Some (register_skey st c a (skey\<lparr>sk_ctx_prop := def_prop\<rparr>))))"

text \<open>The text of \<^verbatim>\<open>loop_sched_init\<close> is that of \<^verbatim>\<open>skey_sched_init\<close> but for a log message.\<close>

definition loop_sched_init ::
  "(wd_error + nat) \<Rightarrow> nat option \<Rightarrow> bool list \<Rightarrow> sched_state \<Rightarrow> sched_params option
    \<Rightarrow> (nat result \<times> sched_state) option" where
  "loop_sched_init cpu malloc locks st param =
    (case sched_session_common_init cpu malloc param of
       Inl e \<Rightarrow> Some (Inl e, st)
     | Inr (a, skey) \<Rightarrow>
         (let def_prop = sk_ctx_prop skey in
          case init_props [0 ..< UADK_ALG_TYPE_MAX] locks (ss_ctx st) skey 0 of
            None \<Rightarrow> None
          | Some (req_ctx_num, c, skey, locks) \<Rightarrow>
              if req_ctx_num = 0 then Some (Inl WD_EINVAL, st\<lparr>ss_ctx := c\<rparr>)
              else Some (register_skey st c a (skey\<lparr>sk_ctx_prop := def_prop\<rparr>))))"

subsection \<open>The scheduler\<close>

definition numa_num_check :: "int \<Rightarrow> nat \<Rightarrow> unit result" where
  "numa_num_check numa_max_node region_num =
    (let max_node = numa_max_node + 1 in
     if max_node \<le> 0 then Inl WD_EINVAL
     else if region_num = 0 \<or> int region_num > max_node then Inl WD_EINVAL
     else Inr ())"

text \<open>
  \<^verbatim>\<open>wd_sched_rr_instance\<close> on the scheduler context. \<open>chain\<close> is the indeterminate local of the table insertion. A
  property that is out of range is replaced by the hardware property, also in the caller's parameters.
\<close>

definition wd_sched_rr_instance ::
  "bool list \<Rightarrow> bool \<Rightarrow> nat \<Rightarrow> wd_sched_ctx option \<Rightarrow> sched_params option
    \<Rightarrow> (unit result \<times> wd_sched_ctx option) option" where
  "wd_sched_rr_instance oks lock_ok chain sched param =
    (case (sched, param) of
       (Some c, Some p) \<Rightarrow>
         if sp_begin p > sp_end p then Some (Inl WD_EINVAL, sched)
         else if sp_numa_id p \<ge> int (sc_region_num c) \<or> sp_numa_id p < 0 then Some (Inl WD_EINVAL, sched)
         else if sp_type p \<ge> sc_type_num c then Some (Inl WD_EINVAL, sched)
         else if sp_mode p \<ge> SCHED_MODE_BUTT then Some (Inl WD_EINVAL, sched)
         else
           (let prop = (if sp_ctx_prop p < 0 \<or> sp_ctx_prop p > UADK_ALG_SOFT then UADK_ALG_HW else sp_ctx_prop p) in
            case wd_sched_hash_table_insert oks lock_ok chain (sc_domain_hash_table c)
                   (sp_numa_id p) (sp_mode p) (sp_type p) (nat prop) of
              None \<Rightarrow> None
            | Some (None, t, oks) \<Rightarrow> Some (Inl WD_ENOMEM, Some (c\<lparr>sc_domain_hash_table := t\<rparr>))
            | Some (Some domain, t, oks) \<Rightarrow>
                (case (wd_sched_domain_add_segment oks (Some domain) (sp_begin p) (sp_end p), t) of
                   ((Inr _, Some domain', _), Some t) \<Rightarrow>
                     Some (Inr (), Some (c\<lparr>sc_domain_hash_table :=
                       Some (domain_store t (domain'\<lparr>cd_valid := True\<rparr>))\<rparr>))
                 | ((Inl e, _, _), t) \<Rightarrow> Some (Inl e, Some (c\<lparr>sc_domain_hash_table := t\<rparr>))
                 | _ \<Rightarrow> None))
     | _ \<Rightarrow> Some (Inl WD_EINVAL, sched))"

definition wd_sched_rr_release :: "sched_state \<Rightarrow> sched_state" where
  "wd_sched_rr_release st =
    st\<lparr>ss_keys := ss_keys st |` (- {a. Some a \<in> set (sc_skey (ss_ctx st))}),
       ss_ctx := (ss_ctx st)\<lparr>sc_skey := map (\<lambda>_. None) (sc_skey (ss_ctx st)), sc_skey_num := 0,
                             sc_domain_hash_table := None\<rparr>\<rparr>"

definition wd_sched_rr_alloc ::
  "bool list \<Rightarrow> bool \<Rightarrow> int \<Rightarrow> nat \<Rightarrow> nat \<Rightarrow> nat \<Rightarrow> (wd_sched_ctx option) option" where
  "wd_sched_rr_alloc oks lock_ok numa_max_node sched_type type_num region_num =
    (if sched_type \<ge> SCHED_POLICY_BUTT \<or> type_num = 0 then Some None
     else
       (let (ok, oks) = calloc_ok oks in
        if \<not> ok then Some None
        else
          (let (ok, oks) = calloc_ok oks in
           if \<not> ok then Some None
           else
             (let c = \<lparr>sc_policy = sched_type, sc_type_num = type_num, sc_mode_num = SCHED_MODE_BUTT,
                       sc_region_num = region_num, sc_domain_hash_table = None, sc_skey_num = 0,
                       sc_skey = replicate SKEY_MAX_THREAD_NUM None\<rparr> in
              if sched_type = SCHED_POLICY_NONE \<or> sched_type = SCHED_POLICY_SINGLE then Some (Some c)
              else if sched_type \<noteq> SCHED_POLICY_DEV \<and> numa_num_check numa_max_node region_num \<noteq> Inr () then Some None
              else
                (case wd_sched_hash_table_create oks lock_ok
                        (u32 (region_num * type_num * SCHED_MODE_BUTT * UADK_ALG_TYPE_MAX)) of
                   None \<Rightarrow> None
                 | Some (None, _) \<Rightarrow> Some None
                 | Some (Some t, _) \<Rightarrow> Some (Some (c\<lparr>sc_domain_hash_table := Some t\<rparr>)))))))"

subsection \<open>The domains seen through the scheduler context\<close>

definition sc_look :: "wd_sched_ctx \<Rightarrow> domain_key \<Rightarrow> wd_sched_ctx_domain option" where
  "sc_look c k = (case sc_domain_hash_table c of None \<Rightarrow> None | Some t \<Rightarrow> ht_look t k)"

definition sc_ctxs :: "wd_sched_ctx \<Rightarrow> domain_key \<Rightarrow> nat list" where
  "sc_ctxs c k = (case sc_look c k of None \<Rightarrow> [] | Some d \<Rightarrow> if cd_valid d then dom_ctxs d else [])"

definition sc_tbl_inv :: "wd_sched_ctx \<Rightarrow> bool" where
  "sc_tbl_inv c \<longleftrightarrow> (\<forall>t. sc_domain_hash_table c = Some t \<longrightarrow> ht_inv t) \<and> (\<forall>k d. sc_look c k = Some d \<longrightarrow> dom_inv d)"

text \<open>Only the cursors of the domains differ.\<close>

definition same_domains :: "wd_sched_ctx \<Rightarrow> wd_sched_ctx \<Rightarrow> bool" where
  "same_domains c c' \<longleftrightarrow> (\<exists>h. c' = c\<lparr>sc_domain_hash_table := h\<rparr>) \<and> (\<forall>k. sc_ctxs c' k = sc_ctxs c k)"

lemma same_domains_refl [simp]: "same_domains c c"
  by (auto simp: same_domains_def intro: exI [of _ "sc_domain_hash_table c"])

lemma same_domains_trans: "same_domains a b \<Longrightarrow> same_domains b c \<Longrightarrow> same_domains a c"
  by (auto simp: same_domains_def)

lemma sc_look_table: "sc_domain_hash_table c = Some t \<Longrightarrow> sc_look c k = ht_look t k"
  by (simp add: sc_look_def)

text \<open>Writing back a domain whose contexts, key and validity are unchanged.\<close>

lemma store_cursor:
  assumes inv: "sc_tbl_inv c" and t: "sc_domain_hash_table c = Some t" and d: "ht_look t k = Some d"
    and d': "dom_inv d'" "dom_ctxs d' = dom_ctxs d" "dom_key d' = dom_key d" "cd_valid d' = cd_valid d"
  shows "sc_tbl_inv (c\<lparr>sc_domain_hash_table := Some (domain_store t d')\<rparr>) \<and>
    same_domains c (c\<lparr>sc_domain_hash_table := Some (domain_store t d')\<rparr>)"
proof -
  have ht: "ht_inv t" using inv t by (simp add: sc_tbl_inv_def)
  have key: "dom_key d' = k" using domains.look_key [OF ht d] d'(3) by simp
  have pres: "ht_look t (dom_key d') \<noteq> None" using d key by simp
  note look = domains.look_store [OF ht pres] and hinv = domains.inv_store [OF ht pres]
  let ?c = "c\<lparr>sc_domain_hash_table := Some (domain_store t d')\<rparr>"
  have l: "sc_look ?c k' = (if k' = k then Some d' else sc_look c k')" for k'
    using look key t by (simp add: sc_look_def)
  have "sc_tbl_inv ?c" using inv hinv d'(1) l by (simp add: sc_tbl_inv_def)
  moreover have "sc_ctxs ?c k' = sc_ctxs c k'" for k'
    using l [of k'] d'(2,4) d t by (simp add: sc_ctxs_def sc_look_table)
  ultimately show ?thesis by (auto simp: same_domains_def)
qed

lemma dom_ctxs_valid_pos: "dom_inv d \<Longrightarrow> i \<in> set (dom_ctxs d) \<Longrightarrow> i < INVALID_POS"
  by (auto simp: dom_inv_def dom_ctxs_def seg_ctxs_def seg_ok_def)

lemma init_ctx_spec:
  assumes inv: "sc_tbl_inv c"
  shows "\<exists>i c'. session_sched_init_ctx c skey m = Some (i, c') \<and> sc_tbl_inv c' \<and> same_domains c c' \<and>
    (i = INVALID_POS \<or> i \<in> set (sc_ctxs c (sk_region_id skey, m, sk_type skey, sk_ctx_prop skey)))"
proof -
  let ?k = "(sk_region_id skey, m, sk_type skey, sk_ctx_prop skey)"
  show ?thesis
  proof (cases "sk_region_id skey \<ge> int (sc_region_num c) \<or> m \<ge> SCHED_MODE_BUTT \<or>
        sk_type skey \<ge> sc_type_num c \<or> sk_ctx_prop skey \<ge> UADK_ALG_TYPE_MAX \<or> sc_domain_hash_table c = None")
    case True
    then have "session_sched_init_ctx c skey m = Some (INVALID_POS, c)"
      by (auto simp: session_sched_init_ctx_def)
    then show ?thesis using inv by simp
  next
    case False
    then obtain t where t: "sc_domain_hash_table c = Some t" by auto
    have ht: "ht_inv t" using inv t by (simp add: sc_tbl_inv_def)
    have eq: "session_sched_init_ctx c skey m = (case ht_look t ?k of
        None \<Rightarrow> Some (INVALID_POS, c)
      | Some domain \<Rightarrow> if \<not> cd_valid domain then Some (INVALID_POS, c)
          else (case wd_sched_domain_get_next_rr (Some domain) of
                  Some (ctx_idx, Some domain') \<Rightarrow>
                    Some (ctx_idx, c\<lparr>sc_domain_hash_table := Some (domain_store t domain')\<rparr>)
                | _ \<Rightarrow> None))"
      using False t by (simp add: session_sched_init_ctx_def lookup_ht_look [OF ht] split: option.split)
    show ?thesis
    proof (cases "\<exists>d. ht_look t ?k = Some d \<and> cd_valid d")
      case no: False
      then have "session_sched_init_ctx c skey m = Some (INVALID_POS, c)"
        unfolding eq by (auto split: option.split)
      then show ?thesis using inv by simp
    next
      case yes: True
      then obtain d where d: "ht_look t ?k = Some d" "cd_valid d" by blast
      have dinv: "dom_inv d" using inv d t by (simp add: sc_tbl_inv_def sc_look_table)
      show ?thesis
      proof (cases "dom_ctxs d = []")
        case True
        from next_rr_empty [OF dinv True] d have
          "session_sched_init_ctx c skey m = Some (INVALID_POS, c\<lparr>sc_domain_hash_table := Some (domain_store t d)\<rparr>)"
          unfolding eq by simp
        with store_cursor [OF inv t d(1) dinv] show ?thesis by simp
      next
        case False
        from next_rr_step [OF dinv False] obtain d' where
          step: "wd_sched_domain_get_next_rr (Some d) = Some (dom_ctxs d ! dom_cursor d, Some d')"
          and d': "dom_inv d'" "dom_ctxs d' = dom_ctxs d" "dom_key d' = dom_key d" "cd_valid d' = cd_valid d"
          and cur: "dom_cursor d < length (dom_ctxs d)" by blast
        have "session_sched_init_ctx c skey m =
            Some (dom_ctxs d ! dom_cursor d, c\<lparr>sc_domain_hash_table := Some (domain_store t d')\<rparr>)"
          unfolding eq using d step by simp
        moreover have "dom_ctxs d ! dom_cursor d \<in> set (sc_ctxs c ?k)"
          using cur d t by (simp add: sc_ctxs_def sc_look_table)
        ultimately show ?thesis using store_cursor [OF inv t d(1) d'] by blast
      qed
    qed
  qed
qed

subsection \<open>Finding a compatible context\<close>

definition ctx_compat :: "wd_alg_registry \<Rightarrow> wd_ctx_internal list \<Rightarrow> string \<Rightarrow> nat \<Rightarrow> bool" where
  "ctx_compat rg ctxs alg i \<longleftrightarrow> ci_drv (ctxs ! i) \<noteq> None \<and> wd_alg_match_drv rg (ci_drv (ctxs ! i)) (Some alg)"

lemma compat_scan_spec:
  assumes "dom_inv d" and "dom_ctxs d \<noteq> []" and "\<forall>i \<in> set (dom_ctxs d). i < length ctxs"
  shows "\<exists>r d'. compat_scan rg ctxs alg n d = Some (r, d') \<and> dom_inv d' \<and> dom_ctxs d' = dom_ctxs d \<and>
    dom_key d' = dom_key d \<and> cd_valid d' = cd_valid d \<and>
    (case r of Some i \<Rightarrow> i \<in> set (dom_ctxs d) \<and> ctx_compat rg ctxs alg i
     | None \<Rightarrow> \<forall>j < n. \<not> ctx_compat rg ctxs alg (dom_ctxs d ! ((dom_cursor d + j) mod length (dom_ctxs d))))"
  using assms
proof (induction n arbitrary: d)
  case (Suc n)
  let ?L = "length (dom_ctxs d)"
  from next_rr_step [OF Suc.prems(1,2)] obtain d1 where
    step: "wd_sched_domain_get_next_rr (Some d) = Some (dom_ctxs d ! dom_cursor d, Some d1)"
    and d1: "dom_inv d1" "dom_ctxs d1 = dom_ctxs d" "dom_key d1 = dom_key d" "cd_valid d1 = cd_valid d"
    and cur: "dom_cursor d < ?L" "dom_cursor d1 = (dom_cursor d + 1) mod ?L" by blast
  let ?i = "dom_ctxs d ! dom_cursor d"
  have i: "?i \<in> set (dom_ctxs d)" "?i \<noteq> INVALID_POS" "?i < length ctxs"
    using cur dom_ctxs_valid_pos [OF Suc.prems(1), of ?i] Suc.prems(3) by auto
  have unf: "compat_scan rg ctxs alg (Suc n) d =
     (if ctx_compat rg ctxs alg ?i then Some (Some ?i, d1) else compat_scan rg ctxs alg n d1)"
    using step i by (simp add: ctx_compat_def)
  show ?case
  proof (cases "ctx_compat rg ctxs alg ?i")
    case True
    then show ?thesis using unf d1 i by auto
  next
    case False
    have "\<forall>i \<in> set (dom_ctxs d1). i < length ctxs" "dom_ctxs d1 \<noteq> []" using d1 Suc.prems by auto
    from Suc.IH [OF d1(1) this(2,1)] obtain r d' where IH: "compat_scan rg ctxs alg n d1 = Some (r, d')"
      "dom_inv d'" "dom_ctxs d' = dom_ctxs d1" "dom_key d' = dom_key d1" "cd_valid d' = cd_valid d1"
      "case r of Some i \<Rightarrow> i \<in> set (dom_ctxs d1) \<and> ctx_compat rg ctxs alg i
       | None \<Rightarrow> \<forall>j < n. \<not> ctx_compat rg ctxs alg (dom_ctxs d1 ! ((dom_cursor d1 + j) mod length (dom_ctxs d1)))"
      by blast
    have "\<not> ctx_compat rg ctxs alg (dom_ctxs d ! ((dom_cursor d + j) mod ?L))"
      if "r = None" "j < Suc n" for j
    proof (cases j)
      case 0
      then show ?thesis using False cur by simp
    next
      case (Suc k)
      then have "(dom_cursor d1 + k) mod ?L = (dom_cursor d + j) mod ?L"
        using cur(2) by (simp add: mod_add_left_eq)
      then show ?thesis using IH(6) that Suc d1(2) by auto
    qed
    then show ?thesis using unf False IH d1 by (auto split: option.splits)
  qed
qed simp

lemma all_positions:
  assumes "i \<in> set xs"
  shows "\<exists>j < length xs. xs ! ((c + j) mod length xs) = i"
proof -
  from assms obtain k where k: "k < length xs" "xs ! k = i" by (auto simp: in_set_conv_nth)
  let ?j = "(k + length xs * (c + 1) - c) mod length xs"
  have "c \<le> k + length xs * (c + 1)"
    using k(1) by (metis add_leE le_add2 mult_le_mono1 nat_mult_1 Suc_leI less_nat_zero_code neq0_conv trans_le_add2 Suc_eq_plus1)
  then have "(c + ?j) mod length xs = k"
    using k(1) by (simp add: mod_add_right_eq del: mult_Suc_right add_mult_distrib2)
  moreover have "?j < length xs" using k(1) by (intro mod_less_divisor) linarith
  ultimately show ?thesis using k(2) by (intro exI [of _ ?j]) (simp only: simp_thms)
qed

lemma compat_props_spec:
  assumes "sc_tbl_inv c" and "sc_domain_hash_table c = Some t"
    and "\<forall>p \<in> set props. \<forall>i \<in> set (sc_ctxs c (r, m, ty, p)). i < length ctxs"
  shows "\<exists>i t'. compat_props rg ctxs alg r m ty props t = Some (i, t') \<and>
    sc_tbl_inv (c\<lparr>sc_domain_hash_table := Some t'\<rparr>) \<and> same_domains c (c\<lparr>sc_domain_hash_table := Some t'\<rparr>) \<and>
    (if i = INVALID_POS then \<forall>p \<in> set props. \<forall>i \<in> set (sc_ctxs c (r, m, ty, p)). \<not> ctx_compat rg ctxs alg i
     else ctx_compat rg ctxs alg i \<and> (\<exists>p \<in> set props. i \<in> set (sc_ctxs c (r, m, ty, p))))"
  using assms
proof (induction props arbitrary: c t)
  case Nil
  then have id: "c\<lparr>sc_domain_hash_table := Some t\<rparr> = c" by simp
  show ?case unfolding compat_props.simps
    by (rule exI [of _ INVALID_POS], rule exI [of _ t], unfold id) (use Nil in simp)
next
  case (Cons p props)
  let ?k = "(r, m, ty, p)"
  have ht: "ht_inv t" using Cons.prems by (simp add: sc_tbl_inv_def)
  have id: "c\<lparr>sc_domain_hash_table := Some t\<rparr> = c" using Cons.prems(2) by simp
  show ?case
  proof (cases "\<exists>d. ht_look t ?k = Some d \<and> cd_valid d")
    case False
    then have none: "sc_ctxs c ?k = []"
      using Cons.prems(2) by (auto simp: sc_ctxs_def sc_look_table split: option.split)
    have "compat_props rg ctxs alg r m ty (p # props) t = compat_props rg ctxs alg r m ty props t"
      using False by (auto simp: lookup_ht_look [OF ht] split: option.split)
    moreover from Cons.IH [OF Cons.prems(1,2)] Cons.prems(3) obtain i t' where
      "compat_props rg ctxs alg r m ty props t = Some (i, t')"
      "sc_tbl_inv (c\<lparr>sc_domain_hash_table := Some t'\<rparr>)" "same_domains c (c\<lparr>sc_domain_hash_table := Some t'\<rparr>)"
      "if i = INVALID_POS then \<forall>p \<in> set props. \<forall>i \<in> set (sc_ctxs c (r, m, ty, p)). \<not> ctx_compat rg ctxs alg i
       else ctx_compat rg ctxs alg i \<and> (\<exists>p \<in> set props. i \<in> set (sc_ctxs c (r, m, ty, p)))" by auto
    ultimately show ?thesis using none
      by (intro exI [of _ i] exI [of _ t']) (simp del: compat_props.simps split: if_splits)
  next
    case True
    then obtain d where d: "ht_look t ?k = Some d" "cd_valid d" by blast
    have dinv: "dom_inv d" using Cons.prems d by (simp add: sc_tbl_inv_def sc_look_table)
    have ctxs: "sc_ctxs c ?k = dom_ctxs d" using d Cons.prems(2) by (simp add: sc_ctxs_def sc_look_table)
    have tot: "cd_total_ctx_count d = length (dom_ctxs d)" using dinv by (simp add: dom_inv_def)
    have "\<exists>res d'. compat_scan rg ctxs alg (cd_total_ctx_count d) d = Some (res, d') \<and> dom_inv d' \<and>
        dom_ctxs d' = dom_ctxs d \<and> dom_key d' = dom_key d \<and> cd_valid d' = cd_valid d \<and>
        (case res of Some i \<Rightarrow> i \<in> set (dom_ctxs d) \<and> ctx_compat rg ctxs alg i
         | None \<Rightarrow> \<forall>i \<in> set (dom_ctxs d). \<not> ctx_compat rg ctxs alg i)"
    proof (cases "dom_ctxs d = []")
      case True
      then show ?thesis using tot dinv by simp
    next
      case False
      have "\<forall>i \<in> set (dom_ctxs d). i < length ctxs" using Cons.prems(3) ctxs by auto
      from compat_scan_spec [OF dinv False this, of rg alg "cd_total_ctx_count d"] obtain res d' where
        sc: "compat_scan rg ctxs alg (cd_total_ctx_count d) d = Some (res, d')" "dom_inv d'"
        "dom_ctxs d' = dom_ctxs d" "dom_key d' = dom_key d" "cd_valid d' = cd_valid d"
        and res: "case res of Some i \<Rightarrow> i \<in> set (dom_ctxs d) \<and> ctx_compat rg ctxs alg i
          | None \<Rightarrow> \<forall>j < length (dom_ctxs d). \<not> ctx_compat rg ctxs alg
              (dom_ctxs d ! ((dom_cursor d + j) mod length (dom_ctxs d)))"
        unfolding tot by blast
      have "case res of Some i \<Rightarrow> i \<in> set (dom_ctxs d) \<and> ctx_compat rg ctxs alg i
         | None \<Rightarrow> \<forall>i \<in> set (dom_ctxs d). \<not> ctx_compat rg ctxs alg i"
        using res all_positions [of _ "dom_ctxs d" "dom_cursor d"] by (cases res) (simp, metis, simp)
      with sc show ?thesis by blast
    qed
    then obtain res d' where scan: "compat_scan rg ctxs alg (cd_total_ctx_count d) d = Some (res, d')"
      and d': "dom_inv d'" "dom_ctxs d' = dom_ctxs d" "dom_key d' = dom_key d" "cd_valid d' = cd_valid d"
      and res: "case res of Some i \<Rightarrow> i \<in> set (dom_ctxs d) \<and> ctx_compat rg ctxs alg i
         | None \<Rightarrow> \<forall>i \<in> set (dom_ctxs d). \<not> ctx_compat rg ctxs alg i" by blast
    note st = store_cursor [OF Cons.prems(1,2) d(1) d']
    let ?c = "c\<lparr>sc_domain_hash_table := Some (domain_store t d')\<rparr>"
    show ?thesis
    proof (cases res)
      case (Some i)
      have "i \<noteq> INVALID_POS" using res Some dom_ctxs_valid_pos [OF dinv] by auto
      moreover have "compat_props rg ctxs alg r m ty (p # props) t = Some (i, domain_store t d')"
        using d scan Some by (simp add: lookup_ht_look [OF ht])
      ultimately show ?thesis using st res Some ctxs by auto
    next
      case None
      have eq: "compat_props rg ctxs alg r m ty (p # props) t = compat_props rg ctxs alg r m ty props (domain_store t d')"
        using d scan None by (simp add: lookup_ht_look [OF ht])
      have sctx: "sc_ctxs ?c k = sc_ctxs c k" for k using st unfolding same_domains_def by blast
      from Cons.IH [of ?c "domain_store t d'"] st Cons.prems(3) obtain i t' where
        IH: "compat_props rg ctxs alg r m ty props (domain_store t d') = Some (i, t')"
        "sc_tbl_inv (?c\<lparr>sc_domain_hash_table := Some t'\<rparr>)" "same_domains ?c (?c\<lparr>sc_domain_hash_table := Some t'\<rparr>)"
        "if i = INVALID_POS then \<forall>p \<in> set props. \<forall>i \<in> set (sc_ctxs ?c (r, m, ty, p)). \<not> ctx_compat rg ctxs alg i
         else ctx_compat rg ctxs alg i \<and> (\<exists>p \<in> set props. i \<in> set (sc_ctxs ?c (r, m, ty, p)))"
        by (auto simp: sctx)
      have "same_domains c (c\<lparr>sc_domain_hash_table := Some t'\<rparr>)"
        using same_domains_trans [OF conjunct2 [OF st] IH(3)] by simp
      then show ?thesis using eq IH res None ctxs by (auto simp: sctx split: if_splits)
    qed
  qed
qed

subsection \<open>Creating domains\<close>

definition inst_upd :: "nat \<times> nat \<Rightarrow> wd_sched_ctx_domain \<Rightarrow> wd_sched_ctx_domain" where
  "inst_upd be d = (case wd_sched_domain_add_segment [] (Some d) (fst be) (snd be) of
     (_, Some d', _) \<Rightarrow> d'\<lparr>cd_valid := True\<rparr> | _ \<Rightarrow> d)"

text \<open>
  The key under which the code files a segment: a property that is not one of the first four is replaced by the hardware property.
\<close>

definition filed_key :: "sched_params \<Rightarrow> domain_key" where
  "filed_key p = (sp_numa_id p, sp_mode p, sp_type p,
     nat (if sp_ctx_prop p < 0 \<or> sp_ctx_prop p > UADK_ALG_SOFT then UADK_ALG_HW else sp_ctx_prop p))"

definition inst_ok :: "wd_sched_ctx \<Rightarrow> sched_params \<Rightarrow> bool" where
  "inst_ok c p \<longleftrightarrow> sp_begin p \<le> sp_end p \<and> sp_end p < INVALID_POS \<and> 0 \<le> sp_numa_id p \<and>
     sp_numa_id p < int (sc_region_num c) \<and> sp_type p < sc_type_num c \<and> sp_mode p < SCHED_MODE_BUTT"

lemma sc_tbl_invD: "sc_tbl_inv c \<Longrightarrow> sc_domain_hash_table c = Some t \<Longrightarrow> ht_look t k = Some d \<Longrightarrow> dom_inv d"
  unfolding sc_tbl_inv_def sc_look_def by (metis option.simps(5))

lemma dom_key_inst_upd: "dom_key (inst_upd be d) = dom_key d"
  by (auto simp: inst_upd_def wd_sched_domain_add_segment_def dom_key_def Let_def split: option.splits)

lemma domain_store_stats:
  "domain_store (t\<lparr>ht_entry_count := n, ht_max_chain_length := x\<rparr>) d =
    (domain_store t d)\<lparr>ht_entry_count := n, ht_max_chain_length := x\<rparr>"
  by (simp add: domain_store_def Let_def)

lemma inst_upd_spec:
  assumes "dom_inv d" and "b \<le> e" and "e < INVALID_POS" and "length (dom_ctxs d) + (e - b + 1) < 2 ^ 32"
  shows "wd_sched_domain_add_segment [] (Some d) b e = (Inr (), Some ((inst_upd (b, e) d)\<lparr>cd_valid := cd_valid d\<rparr>), [])"
    and "dom_inv (inst_upd (b, e) d)" and "dom_ctxs (inst_upd (b, e) d) = dom_ctxs d @ [b ..< Suc e]"
    and "cd_valid (inst_upd (b, e) d)"
proof -
  obtain r d' oks' where add: "wd_sched_domain_add_segment [] (Some d) b e = (r, d', oks')"
    by (metis prod_cases3)
  have "r \<noteq> Inl WD_ENOMEM" "oks' = []" using add assms(2)
    by (auto simp: wd_sched_domain_add_segment_def Let_def split: if_splits)
  with add_segment_spec [OF assms add] obtain d1 where d1: "r = Inr ()" "d' = Some d1" "dom_inv d1"
    "dom_ctxs d1 = dom_ctxs d @ [b ..< Suc e]" "cd_valid d1 = cd_valid d" by blast
  have upd: "inst_upd (b, e) d = d1\<lparr>cd_valid := True\<rparr>" using add d1 by (simp add: inst_upd_def)
  have "d1\<lparr>cd_valid := cd_valid d\<rparr> = d1" using d1(5) by simp
  then show "wd_sched_domain_add_segment [] (Some d) b e = (Inr (), Some ((inst_upd (b, e) d)\<lparr>cd_valid := cd_valid d\<rparr>), [])"
    using add d1 \<open>oks' = []\<close> by (simp add: upd)
  show "dom_inv (inst_upd (b, e) d)" using d1(3) by (simp add: upd dom_inv_def dom_ctxs_def split: option.splits)
  show "dom_ctxs (inst_upd (b, e) d) = dom_ctxs d @ [b ..< Suc e]" using d1(4) by (simp add: upd dom_ctxs_def)
  show "cd_valid (inst_upd (b, e) d)" by (simp add: upd)
qed

lemma instance_register:
  assumes inv: "sc_tbl_inv c" and t: "sc_domain_hash_table c = Some t" and ok: "inst_ok c p"
    and room: "length (dom_ctxs (case ht_look t (filed_key p) of None \<Rightarrow> fresh_domain (filed_key p) | Some d \<Rightarrow> d)) +
      (sp_end p - sp_begin p + 1) < 2 ^ 32"
  shows "\<exists>n x. wd_sched_rr_instance [] True chain (Some c) (Some p) =
    Some (Inr (), Some (c\<lparr>sc_domain_hash_table :=
      Some ((domains.register inst_upd t (filed_key p) (sp_begin p, sp_end p))\<lparr>ht_entry_count := n, ht_max_chain_length := x\<rparr>)\<rparr>))"
proof -
  let ?k = "filed_key p" and ?b = "sp_begin p" and ?e = "sp_end p"
  let ?d = "case ht_look t ?k of None \<Rightarrow> fresh_domain ?k | Some d \<Rightarrow> d"
  have ht: "ht_inv t" using inv t by (simp add: sc_tbl_inv_def)
  obtain r m ty pr where k: "?k = (r, m, ty, pr)" by (cases "?k")
  have dinv: "dom_inv ?d"
    using sc_tbl_invD [OF inv t] by (simp add: fresh_domain_inv split: option.split)
  have be: "?b \<le> ?e" "?e < INVALID_POS" using ok by (auto simp: inst_ok_def)
  note upd = inst_upd_spec [OF dinv be room]
  have call: "wd_sched_rr_instance [] True chain (Some c) (Some p) =
    (case wd_sched_hash_table_insert [] True chain (Some t) r m ty pr of
       None \<Rightarrow> None
     | Some (None, t, oks) \<Rightarrow> Some (Inl WD_ENOMEM, Some (c\<lparr>sc_domain_hash_table := t\<rparr>))
     | Some (Some domain, t, oks) \<Rightarrow>
         (case (wd_sched_domain_add_segment oks (Some domain) ?b ?e, t) of
            ((Inr _, Some domain', _), Some t) \<Rightarrow>
              Some (Inr (), Some (c\<lparr>sc_domain_hash_table := Some (domain_store t (domain'\<lparr>cd_valid := True\<rparr>))\<rparr>))
          | ((Inl e, _, _), t) \<Rightarrow> Some (Inl e, Some (c\<lparr>sc_domain_hash_table := t\<rparr>))
          | _ \<Rightarrow> None))"
    using ok t k [unfolded filed_key_def]
    by (auto simp: wd_sched_rr_instance_def inst_ok_def Let_def not_le not_less)
  have val: "(inst_upd be d)\<lparr>cd_valid := x, cd_valid := True\<rparr> = (inst_upd be d)\<lparr>cd_valid := True\<rparr>" for be d x by simp
  have v2: "(inst_upd (?b, ?e) ?d)\<lparr>cd_valid := True\<rparr> = inst_upd (?b, ?e) ?d" using upd(4) by simp
  show ?thesis
  proof (cases "ht_look t ?k")
    case (Some d)
    then have ins: "wd_sched_hash_table_insert [] True chain (Some t) r m ty pr = Some (Some d, Some t, [])"
      by (simp add: wd_sched_hash_table_insert_def lookup_ht_look [OF ht] k)
    have "domains.register inst_upd t ?k (?b, ?e) = domain_store t (inst_upd (?b, ?e) d)"
      using Some by (simp add: domains.register_def)
    moreover have "(domain_store t d')\<lparr>ht_entry_count := ht_entry_count t, ht_max_chain_length := ht_max_chain_length t\<rparr>
        = domain_store t d'" for d' by (simp add: domain_store_def Let_def)
    ultimately show ?thesis unfolding call ins using upd(1) v2 Some
      by (intro exI [of _ "ht_entry_count t"] exI [of _ "ht_max_chain_length t"]) simp
  next
    case None
    obtain res h oks' where ins: "wd_sched_hash_table_insert [] True chain (Some t) r m ty pr = Some (res, h, oks')"
      using None ht_hash_less [OF ht, of ?k] ht
      by (auto simp: wd_sched_hash_table_insert_def hash_table_add_def lookup_ht_look [OF ht] k ht_hash_def ht_inv_def Let_def)
    have nofail: "res \<noteq> None" "oks' = []"
      using ins None by (auto simp: wd_sched_hash_table_insert_def hash_table_add_def lookup_ht_look [OF ht] k Let_def split: option.splits)
    from ht ins obtain n x where res: "res = Some (fresh_domain ?k)"
      "h = Some ((ht_push t ?k)\<lparr>ht_entry_count := n, ht_max_chain_length := x\<rparr>)"
      by (cases rule: hash_table_insert_cases) (use None nofail k in auto)
    have "domains.register inst_upd t ?k (?b, ?e) = domain_store (ht_push t ?k) (inst_upd (?b, ?e) (fresh_domain ?k))"
      using None domains.look_insert [OF ht None, of ?k] by (simp add: domains.register_def)
    then show ?thesis unfolding call ins res using upd(1) v2 None nofail
      by (intro exI [of _ n] exI [of _ x]) (simp add: domain_store_stats)
  qed
qed

text \<open>A sequence of instance calls, none of which runs out of memory.\<close>

fun instances :: "sched_params list \<Rightarrow> wd_sched_ctx \<Rightarrow> wd_sched_ctx option" where
  "instances [] c = Some c"
| "instances (p # ps) c =
    (case wd_sched_rr_instance [] True 0 (Some c) (Some p) of
       Some (Inr _, Some c') \<Rightarrow> instances ps c'
     | _ \<Rightarrow> None)"

definition all_valid :: "wd_sched_ctx \<Rightarrow> bool" where
  "all_valid c \<longleftrightarrow> (\<forall>k d. sc_look c k = Some d \<longrightarrow> cd_valid d)"

lemma instance_step:
  assumes inv: "sc_tbl_inv c" and val: "all_valid c" and t: "sc_domain_hash_table c = Some t" and ok: "inst_ok c p"
    and room: "length (sc_ctxs c (filed_key p)) + (sp_end p - sp_begin p + 1) < 2 ^ 32"
  shows "\<exists>c' t'. wd_sched_rr_instance [] True chain (Some c) (Some p) = Some (Inr (), Some c') \<and>
    c' = c\<lparr>sc_domain_hash_table := Some t'\<rparr> \<and> sc_tbl_inv c' \<and> all_valid c' \<and>
    (\<forall>k. sc_ctxs c' k = sc_ctxs c k @ (if k = filed_key p then [sp_begin p ..< Suc (sp_end p)] else []))"
proof -
  let ?k = "filed_key p" and ?be = "(sp_begin p, sp_end p)"
  let ?d = "case ht_look t ?k of None \<Rightarrow> fresh_domain ?k | Some d \<Rightarrow> d"
  have ht: "ht_inv t" using inv t by (simp add: sc_tbl_inv_def)
  have "cd_valid d" if "ht_look t ?k = Some d" for d
    using val t that unfolding all_valid_def sc_look_def by (metis option.simps(5))
  then have dctx: "dom_ctxs ?d = sc_ctxs c ?k"
    using t by (auto simp: sc_ctxs_def sc_look_table fresh_domain_inv split: option.split)
  have dinv: "dom_inv ?d"
    using sc_tbl_invD [OF inv t] by (simp add: fresh_domain_inv split: option.split)
  have be: "sp_begin p \<le> sp_end p" "sp_end p < INVALID_POS" using ok by (auto simp: inst_ok_def)
  have room': "length (dom_ctxs ?d) + (sp_end p - sp_begin p + 1) < 2 ^ 32" using room dctx by simp
  note upd = inst_upd_spec [OF dinv be room']
  from instance_register [OF inv t ok room'] obtain n x where
    call: "wd_sched_rr_instance [] True chain (Some c) (Some p) = Some (Inr (), Some (c\<lparr>sc_domain_hash_table :=
      Some ((domains.register inst_upd t ?k ?be)\<lparr>ht_entry_count := n, ht_max_chain_length := x\<rparr>)\<rparr>))" by blast
  define c' where "c' = c\<lparr>sc_domain_hash_table :=
      Some ((domains.register inst_upd t ?k ?be)\<lparr>ht_entry_count := n, ht_max_chain_length := x\<rparr>)\<rparr>"
  note reg = domains.register_look [OF ht, of inst_upd, OF dom_key_inst_upd, of ?k ?be]
  have look: "sc_look c' k = (if k = ?k then Some (inst_upd ?be ?d) else sc_look c k)" for k
    using reg [of k] t by (simp add: c'_def sc_look_def)
  have "sc_tbl_inv c'" using inv reg upd(2) look by (auto simp: sc_tbl_inv_def c'_def split: if_splits)
  moreover have "all_valid c'" using val upd(4) look by (auto simp: all_valid_def split: if_splits)
  moreover have "sc_ctxs c' k = sc_ctxs c k @ (if k = ?k then [sp_begin p ..< Suc (sp_end p)] else [])" for k
    using look [of k] upd(3,4) dctx by (auto simp: sc_ctxs_def simp del: upt_Suc)
  ultimately show ?thesis using call c'_def by blast
qed

lemma instances_spec:
  assumes "sc_tbl_inv c" and "all_valid c" and "sc_domain_hash_table c = Some t"
    and "\<forall>p \<in> set ps. inst_ok c p"
    and "\<forall>k. length (sc_ctxs c k) + sum_list (map (\<lambda>p. sp_end p - sp_begin p + 1) ps) < 2 ^ 32"
  shows "\<exists>c'. instances ps c = Some c' \<and> sc_tbl_inv c' \<and>
    (\<forall>k. sc_ctxs c' k = sc_ctxs c k @
       concat (map (\<lambda>p. [sp_begin p ..< Suc (sp_end p)]) (filter (\<lambda>p. filed_key p = k) ps)))"
  using assms
proof (induction ps arbitrary: c t)
  case (Cons p ps)
  let ?len = "sp_end p - sp_begin p + 1"
  have ok: "inst_ok c p" using Cons.prems(4) by simp
  have "length (sc_ctxs c (filed_key p)) + ?len < 2 ^ 32" using Cons.prems(5) [rule_format, of "filed_key p"] by simp
  from instance_step [OF Cons.prems(1-3) ok this, of 0] obtain c1 t1 where
    c1: "wd_sched_rr_instance [] True 0 (Some c) (Some p) = Some (Inr (), Some c1)"
    "c1 = c\<lparr>sc_domain_hash_table := Some t1\<rparr>" "sc_tbl_inv c1" "all_valid c1"
    and ctxs: "\<forall>k. sc_ctxs c1 k = sc_ctxs c k @ (if k = filed_key p then [sp_begin p ..< Suc (sp_end p)] else [])"
    by blast
  have t1: "sc_domain_hash_table c1 = Some t1" by (simp add: c1(2))
  have oks: "\<forall>q \<in> set ps. inst_ok c1 q" using Cons.prems(4) by (simp add: c1(2) inst_ok_def)
  have len: "length [sp_begin p ..< Suc (sp_end p)] = ?len" using ok by (simp add: inst_ok_def)
  have step: "sc_ctxs c1 k = sc_ctxs c k @ (if k = filed_key p then [sp_begin p ..< Suc (sp_end p)] else [])" for k
    using ctxs by blast
  have "length (sc_ctxs c1 k) \<le> length (sc_ctxs c k) + ?len" for k
    using len unfolding step by (cases "k = filed_key p") (simp_all only: refl if_True if_False length_append list.size add_0_right le_add1 order_refl)
  moreover have "length (sc_ctxs c k) + (?len + sum_list (map (\<lambda>p. sp_end p - sp_begin p + 1) ps)) < 2 ^ 32" for k
    using Cons.prems(5) [rule_format, of k] by (simp only: list.map sum_list.Cons)
  ultimately have "length (sc_ctxs c1 k) + sum_list (map (\<lambda>p. sp_end p - sp_begin p + 1) ps) < 2 ^ 32" for k
    by (metis (no_types, lifting) add.assoc add_le_mono1 order.strict_trans1)
  with Cons.IH [OF c1(3,4) t1 oks] obtain c' where c': "instances ps c1 = Some c'" "sc_tbl_inv c'"
    "\<forall>k. sc_ctxs c' k = sc_ctxs c1 k @
       concat (map (\<lambda>p. [sp_begin p ..< Suc (sp_end p)]) (filter (\<lambda>p. filed_key p = k) ps))" by blast
  have "sc_ctxs c' k = sc_ctxs c k @
       concat (map (\<lambda>p. [sp_begin p ..< Suc (sp_end p)]) (filter (\<lambda>p. filed_key p = k) (p # ps)))" for k
    using c'(3) [rule_format, of k] unfolding step by (auto simp del: upt_Suc)
  then show ?case using c1(1) c' by simp
qed simp

lemma rr_alloc_spec:
  assumes "wd_sched_rr_alloc oks lock_ok nmax ty tn rn = Some (Some c)"
  shows "sc_tbl_inv c \<and> all_valid c \<and> (\<forall>k. sc_ctxs c k = []) \<and> sc_policy c = ty \<and> sc_type_num c = tn \<and>
    sc_region_num c = rn \<and> sc_skey c = replicate SKEY_MAX_THREAD_NUM None \<and> sc_skey_num c = 0 \<and> ty < SCHED_POLICY_BUTT \<and>
    (ty \<noteq> SCHED_POLICY_NONE \<and> ty \<noteq> SCHED_POLICY_SINGLE \<longrightarrow> sc_domain_hash_table c \<noteq> None)"
proof -
  let ?c = "\<lambda>h. \<lparr>sc_policy = ty, sc_type_num = tn, sc_mode_num = SCHED_MODE_BUTT, sc_region_num = rn,
     sc_domain_hash_table = h, sc_skey_num = 0, sc_skey = replicate SKEY_MAX_THREAD_NUM None\<rparr>"
  from assms have ty: "ty < SCHED_POLICY_BUTT"
    and "\<exists>h. c = ?c h \<and> (h = None \<and> (ty = SCHED_POLICY_NONE \<or> ty = SCHED_POLICY_SINGLE) \<or>
      (\<exists>oks t r e. h = Some t \<and> wd_sched_hash_table_create oks lock_ok e = Some (Some t, r)))"
    by (auto simp: wd_sched_rr_alloc_def Let_def split: if_splits prod.splits option.splits) blast+
  then obtain h where c: "c = ?c h" and h: "h = None \<and> (ty = SCHED_POLICY_NONE \<or> ty = SCHED_POLICY_SINGLE) \<or>
      (\<exists>oks t r e. h = Some t \<and> wd_sched_hash_table_create oks lock_ok e = Some (Some t, r))" by blast
  have "(\<forall>t. h = Some t \<longrightarrow> ht_inv t) \<and> (\<forall>t k. h = Some t \<longrightarrow> ht_look t k = None)"
    using h hash_table_create_inv by auto
  then have "sc_tbl_inv c \<and> (\<forall>k. sc_look c k = None)"
    by (auto simp: sc_tbl_inv_def sc_look_def c split: option.split)
  then show ?thesis using ty h by (auto simp: sc_ctxs_def all_valid_def c)
qed

subsection \<open>The slot array\<close>

definition occupied :: "nat option list \<Rightarrow> nat list" where
  "occupied slots = concat (map (\<lambda>s. case s of None \<Rightarrow> [] | Some a \<Rightarrow> [a]) slots)"

lemma occupied_append: "occupied (xs @ ys) = occupied xs @ occupied ys"
  by (simp add: occupied_def)

lemma occupied_Cons: "occupied (x # xs) = (case x of None \<Rightarrow> [] | Some a \<Rightarrow> [a]) @ occupied xs"
  by (simp add: occupied_def)

lemma set_occupied: "a \<in> set (occupied slots) \<longleftrightarrow> Some a \<in> set slots"
  by (induction slots) (auto simp: occupied_Cons occupied_def split: option.splits)

lemma length_occupied: "length (occupied slots) \<le> length slots"
  by (induction slots) (auto simp: occupied_Cons occupied_def split: option.splits)

lemma occupied_split:
  assumes "i < length slots"
  shows "occupied slots = occupied (take i slots) @ (case slots ! i of None \<Rightarrow> [] | Some a \<Rightarrow> [a]) @ occupied (drop (Suc i) slots)"
    and "occupied (slots[i := v]) = occupied (take i slots) @ (case v of None \<Rightarrow> [] | Some a \<Rightarrow> [a]) @ occupied (drop (Suc i) slots)"
proof -
  show "occupied slots = occupied (take i slots) @ (case slots ! i of None \<Rightarrow> [] | Some a \<Rightarrow> [a]) @ occupied (drop (Suc i) slots)"
    using id_take_nth_drop [OF assms] occupied_append occupied_Cons by metis
  show "occupied (slots[i := v]) = occupied (take i slots) @ (case v of None \<Rightarrow> [] | Some a \<Rightarrow> [a]) @ occupied (drop (Suc i) slots)"
    using assms by (simp add: upd_conv_take_nth_drop occupied_append occupied_Cons)
qed

lemma find_index: "List.find P [0 ..< n] = Some i \<Longrightarrow> i < n \<and> P i \<and> (\<forall>j < i. \<not> P j)"
  by (auto simp: find_Some_iff)

definition slots_inv :: "wd_sched_ctx \<Rightarrow> (nat \<rightharpoonup> wd_sched_key) \<Rightarrow> bool" where
  "slots_inv c keys \<longleftrightarrow> length (sc_skey c) = SKEY_MAX_THREAD_NUM \<and> distinct (occupied (sc_skey c)) \<and>
     sc_skey_num c = length (occupied (sc_skey c)) \<and> set (occupied (sc_skey c)) = dom keys"

lemma slots_bound: "slots_inv c keys \<Longrightarrow> sc_skey_num c \<le> 64"
  using length_occupied [of "sc_skey c"] by (simp add: slots_inv_def SKEY_MAX_THREAD_NUM_def)

lemma param_init_spec:
  assumes inv: "slots_inv c keys" and fresh: "keys a = None"
  shows "(\<exists>c'. sched_skey_param_init c a = (Inr (), c') \<and> slots_inv c' (keys(a \<mapsto> k)) \<and>
       (\<exists>s n. c' = c\<lparr>sc_skey := s, sc_skey_num := n\<rparr>) \<and> sc_skey_num c < 64) \<or>
    sched_skey_param_init c a = (Inl WD_ENOMEM, c) \<and> sc_skey_num c = 64"
proof (cases "List.find (\<lambda>i. sc_skey c ! i = None) [0 ..< length (sc_skey c)]")
  case None
  then have "\<forall>s \<in> set (sc_skey c). s \<noteq> None" by (auto simp: find_None_iff in_set_conv_nth)
  then have "length (occupied xs) = length xs" if "set xs \<subseteq> set (sc_skey c)" for xs
    using that by (induction xs) (auto simp: occupied_Cons occupied_def split: option.splits)
  then have "sc_skey_num c = 64" using inv by (simp add: slots_inv_def SKEY_MAX_THREAD_NUM_def)
  with None show ?thesis by (simp add: sched_skey_param_init_def)
next
  case (Some i)
  note i = find_index [OF Some]
  define c' where "c' = c\<lparr>sc_skey := (sc_skey c)[i := Some a], sc_skey_num := u32 (sc_skey_num c + 1)\<rparr>"
  have ms: "mset (occupied (sc_skey c')) = add_mset a (mset (occupied (sc_skey c)))"
    using occupied_split [of i "sc_skey c"] i by (simp add: c'_def)
  have "a \<notin> set (occupied (sc_skey c))" using inv fresh by (auto simp: slots_inv_def)
  then have dist: "distinct (occupied (sc_skey c'))"
    using mset_eq_imp_distinct_iff [of "occupied (sc_skey c')" "a # occupied (sc_skey c)"] ms inv
    by (simp add: slots_inv_def)
  have set: "set (occupied (sc_skey c')) = insert a (set (occupied (sc_skey c)))"
    using mset_eq_setD [of "occupied (sc_skey c')" "a # occupied (sc_skey c)"] ms by simp
  have len: "length (occupied (sc_skey c')) = Suc (length (occupied (sc_skey c)))"
    using mset_eq_length [of "occupied (sc_skey c')" "a # occupied (sc_skey c)"] ms by simp
  have bound: "length (occupied (sc_skey c')) \<le> 64"
    using length_occupied [of "sc_skey c'"] inv by (simp add: c'_def slots_inv_def SKEY_MAX_THREAD_NUM_def)
  have "slots_inv c' (keys(a \<mapsto> k))"
    using inv dist set len bound by (auto simp: slots_inv_def c'_def c_int_simps)
  moreover have "sched_skey_param_init c a = (Inr (), c')"
    using Some by (simp add: sched_skey_param_init_def c'_def)
  moreover have "sc_skey_num c < 64" using len bound inv by (simp add: slots_inv_def)
  ultimately show ?thesis by (auto simp: c'_def)
qed

lemma param_uninit_spec:
  assumes inv: "slots_inv c keys" and a: "keys a \<noteq> None"
  shows "slots_inv (sched_skey_param_uninit c a) (keys(a := None)) \<and>
    (\<exists>s n. sched_skey_param_uninit c a = c\<lparr>sc_skey := s, sc_skey_num := n\<rparr>)"
proof -
  from a inv have "a \<in> set (occupied (sc_skey c))" by (auto simp: slots_inv_def)
  then have "Some a \<in> set (sc_skey c)" by (simp add: set_occupied)
  then obtain j where "j < length (sc_skey c)" "sc_skey c ! j = Some a" by (auto simp: in_set_conv_nth)
  then obtain i where find: "List.find (\<lambda>i. sc_skey c ! i = Some a) [0 ..< length (sc_skey c)] = Some i"
    by (cases "List.find (\<lambda>i. sc_skey c ! i = Some a) [0 ..< length (sc_skey c)]") (auto simp: find_None_iff)
  note i = find_index [OF find]
  define c' where "c' = c\<lparr>sc_skey := (sc_skey c)[i := None], sc_skey_num := sc_skey_num c - 1\<rparr>"
  have ms: "add_mset a (mset (occupied (sc_skey c'))) = mset (occupied (sc_skey c))"
    using occupied_split [of i "sc_skey c"] i by (simp add: c'_def)
  then have eq: "mset (a # occupied (sc_skey c')) = mset (occupied (sc_skey c))" by simp
  have dist: "distinct (a # occupied (sc_skey c'))"
    using mset_eq_imp_distinct_iff [OF eq] inv by (simp add: slots_inv_def)
  have set: "insert a (set (occupied (sc_skey c'))) = set (occupied (sc_skey c))"
    using mset_eq_setD [OF eq] by simp
  have len: "Suc (length (occupied (sc_skey c'))) = length (occupied (sc_skey c))"
    using mset_eq_length [OF eq] by simp
  have "set (occupied (sc_skey c')) = dom (keys(a := None))"
    using set dist inv by (auto simp: slots_inv_def)
  then have "slots_inv c' (keys(a := None))"
    using inv dist len by (simp add: slots_inv_def c'_def)
  moreover have "sched_skey_param_uninit c a = c'"
    using find len inv by (simp add: sched_skey_param_uninit_def c'_def slots_inv_def)
  ultimately show ?thesis by (auto simp: c'_def)
qed

subsection \<open>The session invariant\<close>

definition key_dom_ok :: "wd_sched_ctx \<Rightarrow> int \<Rightarrow> nat \<Rightarrow> nat \<Rightarrow> wd_sched_key_domain \<Rightarrow> bool" where
  "key_dom_ok c r ty m d \<longleftrightarrow> cache_inv (kd_idx_cache d) \<and>
     (dc_valid_count (kd_idx_cache d) = 0 \<or> dc_policy (kd_idx_cache d) = sc_policy c) \<and>
     (\<forall>i \<in> set (cache_ctxs (kd_idx_cache d)). i = INVALID_POS \<or> (\<exists>p. i \<in> set (sc_ctxs c (r, m, ty, p))))"

definition key_ok :: "wd_sched_ctx \<Rightarrow> wd_sched_key \<Rightarrow> bool" where
  "key_ok c k \<longleftrightarrow> key_dom_ok c (sk_region_id k) (sk_type k) SCHED_MODE_SYNC (sk_sync_domain k) \<and>
     key_dom_ok c (sk_region_id k) (sk_type k) SCHED_MODE_ASYNC (sk_async_domain k)"

definition st_inv :: "sched_state \<Rightarrow> bool" where
  "st_inv st \<longleftrightarrow> sc_tbl_inv (ss_ctx st) \<and> sc_policy (ss_ctx st) < SCHED_POLICY_BUTT \<and>
     slots_inv (ss_ctx st) (ss_keys st) \<and> (\<forall>a k. ss_keys st a = Some k \<longrightarrow> key_ok (ss_ctx st) k)"

lemma key_dom_ok_same: "same_domains c c' \<Longrightarrow> key_dom_ok c r ty m d \<Longrightarrow> key_dom_ok c' r ty m d"
  unfolding key_dom_ok_def same_domains_def by (elim conjE exE) simp

lemma key_ok_same: "same_domains c c' \<Longrightarrow> key_ok c k \<Longrightarrow> key_ok c' k"
  unfolding key_ok_def using key_dom_ok_same by blast

lemma slots_inv_same: "same_domains c c' \<Longrightarrow> slots_inv c keys \<Longrightarrow> slots_inv c' keys"
  unfolding same_domains_def by (elim conjE exE) (simp add: slots_inv_def)

lemma st_inv_same:
  assumes "st_inv st" and "sc_tbl_inv c'" and "same_domains (ss_ctx st) c'"
  shows "st_inv (st\<lparr>ss_ctx := c'\<rparr>)"
proof -
  have "sc_policy c' = sc_policy (ss_ctx st)" using assms(3) by (auto simp: same_domains_def)
  then show ?thesis using assms key_ok_same [OF assms(3)] slots_inv_same [OF assms(3)]
    by (simp add: st_inv_def)
qed

lemma sc_tbl_inv_slots [simp]:
  "sc_tbl_inv (c\<lparr>sc_skey := s, sc_skey_num := n\<rparr>) = sc_tbl_inv c"
  "sc_ctxs (c\<lparr>sc_skey := s, sc_skey_num := n\<rparr>) k = sc_ctxs c k"
  by (simp_all add: sc_tbl_inv_def sc_look_def sc_ctxs_def)

lemma key_ok_slots [simp]: "key_ok (c\<lparr>sc_skey := s, sc_skey_num := n\<rparr>) k = key_ok c k"
  by (simp add: key_ok_def key_dom_ok_def)

lemma zero_key_ok: "sk_sync_domain k = zero_key_domain \<Longrightarrow> sk_async_domain k = zero_key_domain \<Longrightarrow> key_ok c k"
  by (simp add: key_ok_def key_dom_ok_def zero_key_domain_def zero_cache_def cache_inv_def cache_ctxs_def)

lemma domain_init_spec:
  assumes "i \<noteq> INVALID_POS"
  shows "\<exists>r d' l'. wd_sched_skey_domain_init l d i pol = Some (r, d', l') \<and> cache_inv (kd_idx_cache d') \<and>
    (r = Inr () \<and> cache_ctxs (kd_idx_cache d') = [i] \<and> dc_policy (kd_idx_cache d') = pol \<or>
     (\<exists>e. r = Inl e) \<and> cache_ctxs (kd_idx_cache d') = [] \<and> dc_valid_count (kd_idx_cache d') = 0)"
proof -
  obtain ok l1 where l1: "calloc_ok l = (ok, l1)" by (cases "calloc_ok l")
  define c0 where "c0 = snd (wd_sched_skey_cache_init True pol)"
  have c0: "cache_inv c0" "cache_ctxs c0 = []" "dc_valid_count c0 = 0" "dc_policy c0 = pol" "dc_min_load_idx c0 = 0"
    using cache_init_spec [of True pol] by (simp_all add: c0_def) (simp_all add: wd_sched_skey_cache_init_def Let_def)
  have init: "wd_sched_skey_cache_init ok pol = (if ok then Inr () else Inl WD_EINVAL, c0)"
    by (simp add: c0_def wd_sched_skey_cache_init_def Let_def)
  show ?thesis
  proof (cases ok)
    case False
    then show ?thesis using l1 init c0 by (simp add: wd_sched_skey_domain_init_def)
  next
    case True
    obtain c1 where add: "wd_sched_skey_add_ctx c0 i = Some (Inr (), c1)" "cache_inv c1" "cache_ctxs c1 = [i]"
      "dc_policy c1 = pol" "dc_valid_count c1 = 1"
    proof (cases rule: add_ctx_cases [OF c0(1), of i])
      case (1 e)
      then show ?thesis using assms c0 by (simp add: SKEY_CTX_MAX_NUM_def)
    next
      case (2 c')
      then show ?thesis using that [of c'] c0 by simp
    qed
    obtain ok2 l2 where l2: "calloc_ok l1 = (ok2, l2)" by (cases "calloc_ok l1")
    show ?thesis
    proof (cases ok2)
      case True
      then show ?thesis using l1 l2 init add \<open>ok\<close> by (simp add: wd_sched_skey_domain_init_def)
    next
      case False
      from add(2) show ?thesis
      proof (cases rule: remove_ctx_cases [where x = i])
        case 1: fail
        then show ?thesis using add by simp
      next
        case 2: (ok c2 j)
        show ?thesis using cache_uninit_spec [of c2] l1 l2 init add 2(1) \<open>ok\<close> False
          by (simp add: wd_sched_skey_domain_init_def)
      qed
    qed
  qed
qed


lemma key_dom_destroy: "key_dom_ok c r ty m (wd_sched_skey_domain_destroy d)"
  using cache_uninit_spec [of "kd_idx_cache d"] by (simp add: key_dom_ok_def wd_sched_skey_domain_destroy_def)

lemma key_dom_ok_init:
  assumes d: "key_dom_ok c r ty m d" and i: "i = INVALID_POS \<or> i \<in> set (sc_ctxs c (r, m, ty, p))"
  shows "\<exists>res d' l'. (if i \<noteq> INVALID_POS then wd_sched_skey_domain_init l d i (sc_policy c) else Some (Inr (), d, l)) =
     Some (res, d', l') \<and> key_dom_ok c r ty m d'"
proof (cases "i = INVALID_POS")
  case True
  then show ?thesis using d by simp
next
  case False
  from domain_init_spec [OF False, of l d "sc_policy c"] obtain res d' l' where
    "wd_sched_skey_domain_init l d i (sc_policy c) = Some (res, d', l')" "cache_inv (kd_idx_cache d')"
    "res = Inr () \<and> cache_ctxs (kd_idx_cache d') = [i] \<and> dc_policy (kd_idx_cache d') = sc_policy c \<or>
     (\<exists>e. res = Inl e) \<and> cache_ctxs (kd_idx_cache d') = [] \<and> dc_valid_count (kd_idx_cache d') = 0" by blast
  with False i show ?thesis by (auto simp: key_dom_ok_def)
qed

lemma domain_init_session:
  assumes inv: "sc_tbl_inv c" and k: "key_ok c k"
  shows "\<exists>res c' k' l'. session_sched_domain_init l c k = Some (res, c', k', l') \<and> sc_tbl_inv c' \<and>
    same_domains c c' \<and> key_ok c' k'"
proof -
  let ?r = "sk_region_id k" and ?ty = "sk_type k" and ?p = "sk_ctx_prop k"
  from init_ctx_spec [OF inv, of k SCHED_MODE_SYNC] obtain i c1 where
    i: "session_sched_init_ctx c k SCHED_MODE_SYNC = Some (i, c1)" "sc_tbl_inv c1" "same_domains c c1"
      "i = INVALID_POS \<or> i \<in> set (sc_ctxs c (?r, SCHED_MODE_SYNC, ?ty, ?p))" by blast
  from init_ctx_spec [OF i(2), of k SCHED_MODE_ASYNC] obtain j c2 where
    j: "session_sched_init_ctx c1 k SCHED_MODE_ASYNC = Some (j, c2)" "sc_tbl_inv c2" "same_domains c1 c2"
      "j = INVALID_POS \<or> j \<in> set (sc_ctxs c1 (?r, SCHED_MODE_ASYNC, ?ty, ?p))" by blast
  have same: "same_domains c c2" using i(3) j(3) by (rule same_domains_trans)
  have ctxs: "sc_ctxs c2 q = sc_ctxs c q" "sc_ctxs c1 q = sc_ctxs c q" for q
    using same i(3) unfolding same_domains_def by blast+
  have k2: "key_ok c2 k" using key_ok_same [OF same k] .
  have i2: "i = INVALID_POS \<or> i \<in> set (sc_ctxs c2 (?r, SCHED_MODE_SYNC, ?ty, ?p))" using i(4) ctxs by simp
  have j2: "j = INVALID_POS \<or> j \<in> set (sc_ctxs c2 (?r, SCHED_MODE_ASYNC, ?ty, ?p))" using j(4) ctxs by simp
  from k2 have "key_dom_ok c2 ?r ?ty SCHED_MODE_SYNC (sk_sync_domain k)" by (simp add: key_ok_def)
  from key_dom_ok_init [OF this i2, of l] obtain r1 d1 l1 where
    d1: "(if i \<noteq> INVALID_POS then wd_sched_skey_domain_init l (sk_sync_domain k) i (sc_policy c2)
       else Some (Inr (), sk_sync_domain k, l)) = Some (r1, d1, l1)" "key_dom_ok c2 ?r ?ty SCHED_MODE_SYNC d1" by blast
  from k2 have "key_dom_ok c2 ?r ?ty SCHED_MODE_ASYNC (sk_async_domain k)" by (simp add: key_ok_def)
  from key_dom_ok_init [OF this j2, of l1] obtain r2 d2 l2 where
    d2: "(if j \<noteq> INVALID_POS then wd_sched_skey_domain_init l1 (sk_async_domain k) j (sc_policy c2)
       else Some (Inr (), sk_async_domain k, l1)) = Some (r2, d2, l2)" "key_dom_ok c2 ?r ?ty SCHED_MODE_ASYNC d2" by blast
  show ?thesis
  proof (cases "i = INVALID_POS \<and> j = INVALID_POS")
    case True
    then show ?thesis using i j same k2 by (simp add: session_sched_domain_init_def)
  next
    case False
    note eq = session_sched_domain_init_def [of l c k, unfolded i(1) j(1) option.case prod.case]
    let ?k1 = "k\<lparr>sk_sync_domain := d1\<rparr>" and ?k2 = "k\<lparr>sk_sync_domain := d1, sk_async_domain := d2\<rparr>"
      and ?k3 = "k\<lparr>sk_async_domain := d2, sk_sync_domain := wd_sched_skey_domain_destroy d1\<rparr>"
    have oks: "key_ok c2 ?k1" "key_ok c2 ?k2" "key_ok c2 ?k3"
      using d1(2) d2(2) k2 key_dom_destroy by (simp_all add: key_ok_def)
    have "\<exists>res k' l'. session_sched_domain_init l c k = Some (res, c2, k', l') \<and> key_ok c2 k'"
    proof (cases r1)
      case (Inl e)
      then show ?thesis using eq False d1(1) oks(1) by auto
    next
      case (Inr u)
      have async: "sk_async_domain ?k1 = sk_async_domain k" by simp
      show ?thesis
      proof (cases r2)
        case (Inl e)
        then show ?thesis unfolding eq using False d1(1) Inr d2(1) oks(2,3)
          by (cases "i = INVALID_POS") (auto simp: Let_def)
      next
        case (Inr u')
        then show ?thesis unfolding eq using False d1(1) \<open>r1 = Inr u\<close> d2(1) oks(2)
          by (auto simp: Let_def)
      qed
    qed
    then show ?thesis using j(2) same by blast
  qed
qed

lemma key_ok_prop [simp]: "key_ok c (k\<lparr>sk_ctx_prop := p\<rparr>) = key_ok c k"
  by (simp add: key_ok_def)

lemma init_props_session:
  assumes "sc_tbl_inv c" and "key_ok c k"
  shows "\<exists>n' c' k' l'. init_props ps l c k n = Some (n', c', k', l') \<and> sc_tbl_inv c' \<and> same_domains c c' \<and> key_ok c' k'"
  using assms
proof (induction ps arbitrary: l c k n)
  case (Cons p ps)
  have "key_ok c (k\<lparr>sk_ctx_prop := p\<rparr>)" using Cons.prems(2) by simp
  from domain_init_session [OF Cons.prems(1) this, of l] obtain res c1 k1 l1 where
    c1: "session_sched_domain_init l c (k\<lparr>sk_ctx_prop := p\<rparr>) = Some (res, c1, k1, l1)"
      "sc_tbl_inv c1" "same_domains c c1" "key_ok c1 k1" by blast
  from Cons.IH [OF c1(2,4), of l1] obtain n' c' k' l' where
    IH: "init_props ps l1 c1 k1 (case res of Inl _ \<Rightarrow> n | Inr _ \<Rightarrow> n + 2) = Some (n', c', k', l')"
      "sc_tbl_inv c'" "same_domains c1 c'" "key_ok c' k'" by blast
  then show ?case using c1 same_domains_trans [OF c1(3) IH(3)] by (cases res) auto
qed simp

lemma register_skey_inv:
  assumes st: "st_inv st" and c: "sc_tbl_inv c" "same_domains (ss_ctx st) c" and k: "key_ok c k"
    and fresh: "ss_keys st a = None" and reg: "register_skey st c a k = (r, st')"
  shows "st_inv st' \<and> (r = Inr a \<and> ss_keys st' = (ss_keys st)(a \<mapsto> k) \<or> r = Inl WD_ENOMEM \<and> ss_keys st' = ss_keys st)"
proof -
  have st1: "st_inv (st\<lparr>ss_ctx := c\<rparr>)" by (rule st_inv_same [OF st c])
  then have slots: "slots_inv c (ss_keys st)" by (simp add: st_inv_def)
  from param_init_spec [OF slots fresh, of k] show ?thesis
  proof
    assume "\<exists>c'. sched_skey_param_init c a = (Inr (), c') \<and> slots_inv c' ((ss_keys st)(a \<mapsto> k)) \<and>
       (\<exists>s n. c' = c\<lparr>sc_skey := s, sc_skey_num := n\<rparr>) \<and> sc_skey_num c < 64"
    then obtain c' s n where c': "sched_skey_param_init c a = (Inr (), c')" "slots_inv c' ((ss_keys st)(a \<mapsto> k))"
      "c' = c\<lparr>sc_skey := s, sc_skey_num := n\<rparr>" by blast
    then have "r = Inr a" "st' = st\<lparr>ss_ctx := c', ss_keys := (ss_keys st)(a \<mapsto> k)\<rparr>"
      using reg by (auto simp: register_skey_def)
    then show ?thesis using c' st1 k by (auto simp: st_inv_def)
  next
    assume "sched_skey_param_init c a = (Inl WD_ENOMEM, c) \<and> sc_skey_num c = 64"
    then show ?thesis using reg st1 by (auto simp: register_skey_def)
  qed
qed


lemma common_init_ok:
  assumes "sched_session_common_init cpu malloc param = Inr (a, k)"
  shows "malloc = Some a \<and> key_ok c k"
  using assms
  by (auto simp: sched_session_common_init_def zero_key_def zero_key_ok split: sum.splits option.splits)

text \<open>
  A step of the scheduler that keeps the invariant, the policy and the contexts of every domain.
\<close>

definition keeps :: "sched_state \<Rightarrow> sched_state \<Rightarrow> bool" where
  "keeps st st' \<longleftrightarrow> st_inv st' \<and> sc_policy (ss_ctx st') = sc_policy (ss_ctx st) \<and>
     (\<forall>q. sc_ctxs (ss_ctx st') q = sc_ctxs (ss_ctx st) q)"

lemma keeps_refl: "st_inv st \<Longrightarrow> keeps st st"
  by (simp add: keeps_def)

lemma keeps_trans: "keeps a b \<Longrightarrow> keeps b c \<Longrightarrow> keeps a c"
  unfolding keeps_def by (elim conjE) (simp only: simp_thms)

lemma same_domainsD: "same_domains c c' \<Longrightarrow> sc_ctxs c' q = sc_ctxs c q"
  "same_domains c c' \<Longrightarrow> sc_policy c' = sc_policy c"
  unfolding same_domains_def by (blast, elim conjE exE) simp

lemma keeps_same: "st_inv st \<Longrightarrow> sc_tbl_inv c \<Longrightarrow> same_domains (ss_ctx st) c \<Longrightarrow> keeps st (st\<lparr>ss_ctx := c\<rparr>)"
  unfolding keeps_def using st_inv_same same_domainsD by simp

lemma register_skey_keeps:
  assumes st: "st_inv st" and c: "sc_tbl_inv c" "same_domains (ss_ctx st) c" and k: "key_ok c k"
    and fresh: "ss_keys st a = None"
  shows "keeps st (snd (register_skey st c a k))"
proof -
  obtain r st' where reg: "register_skey st c a k = (r, st')" by (cases "register_skey st c a k")
  have "st_inv st'" using register_skey_inv [OF assms reg] by simp
  moreover have "\<exists>s n. ss_ctx st' = c\<lparr>sc_skey := s, sc_skey_num := n\<rparr>"
  proof -
    have "\<exists>s n. snd (sched_skey_param_init c a) = c\<lparr>sc_skey := s, sc_skey_num := n\<rparr>"
    proof (cases "List.find (\<lambda>i. sc_skey c ! i = None) [0 ..< length (sc_skey c)]")
      case None
      then show ?thesis
        by (intro exI [of _ "sc_skey c"] exI [of _ "sc_skey_num c"]) (simp add: sched_skey_param_init_def)
    qed (auto simp: sched_skey_param_init_def)
    moreover have "ss_ctx st' = snd (sched_skey_param_init c a)"
      using reg by (auto simp: register_skey_def split: prod.splits sum.splits)
    ultimately show ?thesis by simp
  qed
  ultimately show ?thesis using reg same_domainsD [OF c(2)] by (auto simp: keeps_def)
qed

text \<open>Every kind of session initialisation keeps the invariant, and always has an outcome.\<close>

lemma sessions_init_inv:
  assumes st: "st_inv st" and fresh: "\<And>a. malloc = Some a \<Longrightarrow> ss_keys st a = None"
  shows "\<exists>r st'. round_robin_sched_init cpu malloc locks st param = Some (r, st') \<and> keeps st st'"
    and "\<exists>r st'. skey_sched_init cpu malloc locks st param = Some (r, st') \<and> keeps st st'"
    and "param \<noteq> None \<Longrightarrow> \<exists>r st'. session_dev_sched_init cpu malloc locks st param = Some (r, st') \<and> keeps st st'"
proof -
  have tbl: "sc_tbl_inv (ss_ctx st)" using st by (simp add: st_inv_def)
  have reg: "keeps st (snd (register_skey st c a k))"
    if "sc_tbl_inv c" "same_domains (ss_ctx st) c" "key_ok c k" "malloc = Some a" for c a k
    by (rule register_skey_keeps [OF st that(1-3) fresh [OF that(4)]])
  have split: "\<exists>r st'. Some x = Some (r, st') \<and> keeps st st'" if "keeps st (snd x)" for x :: "nat result \<times> sched_state"
    using that by (cases x) auto
  have dom: "\<exists>r st'. (case session_sched_domain_init locks (ss_ctx st) k of
          None \<Rightarrow> None
        | Some (Inl _, c, skey, locks) \<Rightarrow> Some (Inl WD_EINVAL, st\<lparr>ss_ctx := c\<rparr>)
        | Some (Inr _, c, skey, locks) \<Rightarrow> Some (register_skey st c a skey)) = Some (r, st') \<and> keeps st st'"
    if k: "key_ok (ss_ctx st) k" and a: "malloc = Some a" for k a
  proof -
    from domain_init_session [OF tbl k, of locks] obtain res c' k' l' where
      d: "session_sched_domain_init locks (ss_ctx st) k = Some (res, c', k', l')"
        "sc_tbl_inv c'" "same_domains (ss_ctx st) c'" "key_ok c' k'" by blast
    show ?thesis
    proof (cases res)
      case (Inl e)
      then show ?thesis using d keeps_same [OF st d(2,3)] by simp
    next
      case (Inr u)
      then show ?thesis using d split [OF reg [OF d(2-4) a]] by simp
    qed
  qed
  show "\<exists>r st'. round_robin_sched_init cpu malloc locks st param = Some (r, st') \<and> keeps st st'"
  proof (cases "sched_session_common_init cpu malloc param")
    case (Inl e)
    then show ?thesis using st keeps_refl by (simp add: round_robin_sched_init_def)
  next
    case (Inr ak)
    obtain a k where ak: "ak = (a, k)" by (cases ak)
    note ok = Inr [unfolded ak] common_init_ok [OF Inr [unfolded ak], THEN conjunct1]
      common_init_ok [OF Inr [unfolded ak], THEN conjunct2, of "ss_ctx st"]
    from dom [OF ok(3,2)] show ?thesis by (simp add: round_robin_sched_init_def ok(1))
  qed
  show "\<exists>r st'. session_dev_sched_init cpu malloc locks st param = Some (r, st') \<and> keeps st st'" if p: "param \<noteq> None"
  proof (cases "sched_session_common_init cpu malloc param")
    case (Inl e)
    then show ?thesis using st keeps_refl by (simp add: session_dev_sched_init_def)
  next
    case (Inr ak)
    obtain a k where ak: "ak = (a, k)" by (cases ak)
    note ok = Inr [unfolded ak] common_init_ok [OF Inr [unfolded ak], THEN conjunct1]
      common_init_ok [OF Inr [unfolded ak], THEN conjunct2, of "ss_ctx st"]
    from p obtain q where q: "param = Some q" by blast
    have "k\<lparr>sk_type := sp_type q\<rparr> = k"
      using ok(1) q by (auto simp: sched_session_common_init_def split: sum.splits option.splits)
    with ok dom [OF ok(3,2)] q show ?thesis by (simp add: session_dev_sched_init_def)
  qed
  show "\<exists>r st'. skey_sched_init cpu malloc locks st param = Some (r, st') \<and> keeps st st'"
  proof (cases "sched_session_common_init cpu malloc param")
    case (Inl e)
    then show ?thesis using st keeps_refl by (simp add: skey_sched_init_def)
  next
    case (Inr ak)
    obtain a k where ak: "ak = (a, k)" by (cases ak)
    note ok = Inr [unfolded ak] common_init_ok [OF Inr [unfolded ak], THEN conjunct1]
      common_init_ok [OF Inr [unfolded ak], THEN conjunct2, of "ss_ctx st"]
    from init_props_session [OF tbl ok(3), of "[0 ..< UADK_ALG_TYPE_MAX]" locks 0] obtain n c' k' l' where
      d: "init_props [0 ..< UADK_ALG_TYPE_MAX] locks (ss_ctx st) k 0 = Some (n, c', k', l')"
        "sc_tbl_inv c'" "same_domains (ss_ctx st) c'" "key_ok c' k'" by blast
    have kp: "key_ok c' (k'\<lparr>sk_ctx_prop := sk_ctx_prop k\<rparr>)" using d(4) by simp
    show ?thesis using ok d keeps_same [OF st d(2,3)] split [OF reg [OF d(2,3) kp ok(2)]]
      by (simp add: skey_sched_init_def Let_def)
  qed
qed

lemma session_uninit_inv:
  assumes st: "st_inv st" and a: "ss_keys st a = Some k"
  shows "\<exists>st'. sched_session_uninit st (Some a) = Some st' \<and> st_inv st' \<and> ss_keys st' = (ss_keys st)(a := None) \<and>
    (\<forall>q. sc_ctxs (ss_ctx st') q = sc_ctxs (ss_ctx st) q)"
proof -
  have slots: "slots_inv (ss_ctx st) (ss_keys st)" using st by (simp add: st_inv_def)
  have "ss_keys st a \<noteq> None" using a by simp
  from param_uninit_spec [OF slots this] obtain s n where
    c': "sched_skey_param_uninit (ss_ctx st) a = (ss_ctx st)\<lparr>sc_skey := s, sc_skey_num := n\<rparr>"
      "slots_inv (sched_skey_param_uninit (ss_ctx st) a) ((ss_keys st)(a := None))" by blast
  have "sched_session_uninit st (Some a) = Some (st\<lparr>ss_ctx := sched_skey_param_uninit (ss_ctx st) a,
      ss_keys := (ss_keys st)(a := None)\<rparr>)"
    using a by (simp add: sched_session_uninit_def Let_def)
  with c' st show ?thesis by (simp add: st_inv_def)
qed

end
