(* ===== verification/Sched_Policy.thy ===== *)
theory Sched_Policy
  imports Sched_Session
begin

text \<open>
  The scheduling policies of \<^verbatim>\<open>wd_sched.c\<close>: choosing the context for a request and polling for
  responses (lines 1054--1228 and 1420--1978, and the policy table).

  The user's poll callback is the parameter \<open>poll_func\<close> (\<open>None\<close> for \<^verbatim>\<open>NULL\<close>): given a context number, the expected
  number of responses, the value of the count variable before the call and the outside world, it returns
  its status, the count variable after the call and the new world. The thread-local index of
  \<^verbatim>\<open>sched_get_poll_skey_tidx\<close> and the global thread counter are passed in and out.
\<close>

definition HUNGRY_LOAD_THRESHOLD :: nat where "HUNGRY_LOAD_THRESHOLD = 256"
definition HW_CTX_FULL_DEPTH :: nat where "HW_CTX_FULL_DEPTH = 1023"
definition QUEUE_FULL_POS :: nat where "QUEUE_FULL_POS = 0x1FFFFFFF"
definition MAX_POLL_TIMES :: nat where "MAX_POLL_TIMES = 1000"
definition EAGAIN :: int where "EAGAIN = 11"

type_synonym 'w poll_func = "nat \<Rightarrow> nat \<Rightarrow> nat \<Rightarrow> 'w \<Rightarrow> int \<times> nat \<times> 'w"

subsection \<open>Choosing a context\<close>

text \<open>The domain of a session for a mode, and its replacement.\<close>

definition mode_domain :: "nat \<Rightarrow> wd_sched_key \<Rightarrow> wd_sched_key_domain" where
  "mode_domain sched_mode skey = (if sched_mode = SCHED_MODE_SYNC then sk_sync_domain skey else sk_async_domain skey)"

definition set_mode_domain :: "nat \<Rightarrow> wd_sched_key_domain \<Rightarrow> wd_sched_key \<Rightarrow> wd_sched_key" where
  "set_mode_domain sched_mode d skey =
    (if sched_mode = SCHED_MODE_SYNC then skey\<lparr>sk_sync_domain := d\<rparr> else skey\<lparr>sk_async_domain := d\<rparr>)"

definition round_robin_pick_next_ctx ::
  "sched_state option \<Rightarrow> nat option \<Rightarrow> nat \<Rightarrow> (nat \<times> sched_state option) option" where
  "round_robin_pick_next_ctx h_sched_ctx sched_key sched_mode =
    (case (h_sched_ctx, sched_key) of
       (Some st, Some a) \<Rightarrow>
         (case ss_keys st a of
            None \<Rightarrow> None
          | Some skey \<Rightarrow>
              (let domain = mode_domain sched_mode skey;
                   domain = (if sched_mode = SCHED_MODE_SYNC then domain
                             else domain\<lparr>kd_pending_count := i32 (kd_pending_count domain + 1)\<rparr>) in
               case wd_sched_skey_pick_next (kd_idx_cache domain) of
                 None \<Rightarrow> None
               | Some ((min_ctx, _), cache) \<Rightarrow>
                   Some (min_ctx, Some (st\<lparr>ss_keys := (ss_keys st)
                     (a \<mapsto> set_mode_domain sched_mode (domain\<lparr>kd_idx_cache := cache\<rparr>) skey)\<rparr>))))
     | _ \<Rightarrow> Some (INVALID_POS, h_sched_ctx))"

definition loop_sched_pick_next_ctx ::
  "sched_state option \<Rightarrow> nat option \<Rightarrow> nat \<Rightarrow> (nat \<times> sched_state option) option" where
  "loop_sched_pick_next_ctx h_sched_ctx sched_key sched_mode =
    round_robin_pick_next_ctx h_sched_ctx sched_key sched_mode"

definition instr_sched_pick_next_ctx ::
  "sched_state option \<Rightarrow> nat option \<Rightarrow> nat \<Rightarrow> (nat \<times> sched_state option) option" where
  "instr_sched_pick_next_ctx h_sched_ctx sched_key sched_mode =
    (case (h_sched_ctx, sched_key) of
       (Some st, Some a) \<Rightarrow>
         (case ss_keys st a of
            None \<Rightarrow> None
          | Some skey \<Rightarrow>
              (let domain = mode_domain sched_mode skey in
               case wd_sched_skey_pick_next (kd_idx_cache domain) of
                 None \<Rightarrow> None
               | Some ((min_ctx, _), cache) \<Rightarrow>
                   Some (min_ctx, Some (st\<lparr>ss_keys := (ss_keys st)
                     (a \<mapsto> set_mode_domain sched_mode (domain\<lparr>kd_idx_cache := cache\<rparr>) skey)\<rparr>))))
     | _ \<Rightarrow> Some (INVALID_POS, h_sched_ctx))"

text \<open>
  The hungry policy on a key: the least loaded context; a full one is refused once the session has
  seen load being taken off, and is relieved by \<^verbatim>\<open>HUNGRY_LOAD_THRESHOLD\<close> otherwise; above the threshold the
  session gets one more context from the domain.
\<close>

definition hungry_pick ::
  "wd_sched_ctx \<Rightarrow> wd_sched_key \<Rightarrow> nat \<Rightarrow> (nat \<times> wd_sched_ctx \<times> wd_sched_key) option" where
  "hungry_pick c skey sched_mode =
    (let domain = mode_domain sched_mode skey;
         put = (\<lambda>d. set_mode_domain sched_mode d skey) in
     case wd_sched_skey_pick_next (kd_idx_cache domain) of
       None \<Rightarrow> None
     | Some ((min_ctx, None), cache) \<Rightarrow> Some (INVALID_POS, c, put (domain\<lparr>kd_idx_cache := cache\<rparr>))
     | Some ((min_ctx, Some ctx_idx), cache) \<Rightarrow>
         if min_ctx = INVALID_POS then Some (INVALID_POS, c, put (domain\<lparr>kd_idx_cache := cache\<rparr>))
         else
           (case rd (dc_load_values cache) ctx_idx of
              None \<Rightarrow> None
            | Some min_load \<Rightarrow>
                if min_load \<ge> HW_CTX_FULL_DEPTH then
                  (if dc_has_sub cache then Some (QUEUE_FULL_POS, c, put (domain\<lparr>kd_idx_cache := cache\<rparr>))
                   else (case wd_sched_skey_update_load cache ctx_idx (- int HUNGRY_LOAD_THRESHOLD) of
                           None \<Rightarrow> None
                         | Some cache \<Rightarrow> Some (min_ctx, c, put (domain\<lparr>kd_idx_cache := cache\<rparr>))))
                else
                  (case wd_sched_skey_update_load cache ctx_idx 1 of
                     None \<Rightarrow> None
                   | Some cache \<Rightarrow>
                       if min_load > HUNGRY_LOAD_THRESHOLD then
                         (case session_sched_init_ctx c skey sched_mode of
                            None \<Rightarrow> None
                          | Some (new_ctx, c') \<Rightarrow>
                              if new_ctx = INVALID_POS then Some (min_ctx, c', put (domain\<lparr>kd_idx_cache := cache\<rparr>))
                              else (case wd_sched_skey_add_ctx cache new_ctx of
                                      None \<Rightarrow> None
                                    | Some (Inl _, cache) \<Rightarrow> Some (min_ctx, c', put (domain\<lparr>kd_idx_cache := cache\<rparr>))
                                    | Some (Inr _, cache) \<Rightarrow>
                                        Some (new_ctx, c', put (domain\<lparr>kd_idx_cache := cache,
                                          kd_expanded_count := u32 (kd_expanded_count domain + 1)\<rparr>))))
                       else Some (min_ctx, c, put (domain\<lparr>kd_idx_cache := cache\<rparr>)))))"

definition skey_sched_pick_next_ctx ::
  "sched_state option \<Rightarrow> nat option \<Rightarrow> nat \<Rightarrow> (nat \<times> sched_state option) option" where
  "skey_sched_pick_next_ctx h_sched_ctx sched_key sched_mode =
    (case (h_sched_ctx, sched_key) of
       (Some st, Some a) \<Rightarrow>
         (case ss_keys st a of
            None \<Rightarrow> None
          | Some skey \<Rightarrow>
              (case hungry_pick (ss_ctx st) skey sched_mode of
                 None \<Rightarrow> None
               | Some (ctx, c, skey') \<Rightarrow> Some (ctx, Some (st\<lparr>ss_ctx := c, ss_keys := (ss_keys st)(a \<mapsto> skey')\<rparr>))))
     | _ \<Rightarrow> Some (INVALID_POS, h_sched_ctx))"

definition sched_none_pick_next_ctx :: "nat \<Rightarrow> nat" where
  "sched_none_pick_next_ctx sched_mode = 0"

definition sched_single_pick_next_ctx :: "nat \<Rightarrow> nat" where
  "sched_single_pick_next_ctx sched_mode = (if sched_mode \<noteq> 0 then 1 else 0)"

subsection \<open>Polling\<close>

text \<open>
  One pass over the contexts of a session's asynchronous domain. The result is the status of the
  callback that failed, or the number of responses.
\<close>

fun poll_slots ::
  "'w poll_func \<Rightarrow> nat \<Rightarrow> nat list \<Rightarrow> wd_sched_key_domain \<Rightarrow> nat \<Rightarrow> 'w
    \<Rightarrow> ((int + nat) \<times> wd_sched_key_domain \<times> 'w) option" where
  "poll_slots poll expect [] d sum_poll_num w = Some (Inr sum_poll_num, d, w)"
| "poll_slots poll expect (i # is) d sum_poll_num w =
    (let cache = kd_idx_cache d; hungry_policy = (dc_policy cache = SCHED_POLICY_HUNGRY) in
     case (rd (dc_load_values cache) i, rd (dc_idx_list cache) i) of
       (Some l, Some idx) \<Rightarrow>
         if hungry_policy \<and> l = 0 then poll_slots poll expect is d sum_poll_num w
         else
           (let (ret, poll_num, w) = poll idx expect 0 w in
            if ret < 0 \<and> ret \<noteq> - EAGAIN then Some (Inl ret, d, w)
            else
              (let d = (if poll_num > 0 then d\<lparr>kd_pending_count := i32 (kd_pending_count d - int poll_num)\<rparr> else d);
                   sum_poll_num = (if poll_num > 0 then u32 (sum_poll_num + poll_num) else sum_poll_num) in
               if hungry_policy \<and> poll_num > 0 then
                 (case wd_sched_skey_update_load (kd_idx_cache d) i (i32 (- int poll_num)) of
                    None \<Rightarrow> None
                  | Some cache \<Rightarrow> poll_slots poll expect is (d\<lparr>kd_idx_cache := cache\<rparr>) sum_poll_num w)
               else poll_slots poll expect is d sum_poll_num w))
     | _ \<Rightarrow> None)"

definition wd_sched_poll_skey ::
  "'w poll_func \<Rightarrow> wd_sched_key \<Rightarrow> nat \<Rightarrow> 'w \<Rightarrow> ((int + nat) \<times> wd_sched_key \<times> 'w) option" where
  "wd_sched_poll_skey poll skey expect w =
    (case poll_slots poll expect [0 ..< dc_valid_count (kd_idx_cache (sk_async_domain skey))]
            (sk_async_domain skey) 0 w of
       None \<Rightarrow> None
     | Some (r, d, w) \<Rightarrow> Some (r, skey\<lparr>sk_async_domain := d\<rparr>, w))"

text \<open>(start position, thread index, thread counter)\<close>

definition sched_get_poll_skey_tidx :: "wd_sched_ctx \<Rightarrow> nat \<Rightarrow> nat \<Rightarrow> nat \<times> nat \<times> nat" where
  "sched_get_poll_skey_tidx sched_ctx tls_thread_idx g_thread_counter =
    (if sc_skey_num sched_ctx = 0 then (0, tls_thread_idx, g_thread_counter)
     else
       (let (tls, g) = (if tls_thread_idx = 0 then (u32 (g_thread_counter + 1), u32 (g_thread_counter + 1))
                        else (tls_thread_idx, g_thread_counter)) in
        (tls mod sc_skey_num sched_ctx, tls, g)))"

text \<open>
  The loop over the slots, which \<^verbatim>\<open>round_robin_poll_policy\<close> and \<^verbatim>\<open>skey_sched_poll_policy\<close> share: sessions without
  pending requests are skipped, and the loop stops when enough responses have come in.
\<close>

fun poll_sessions ::
  "'w poll_func \<Rightarrow> nat \<Rightarrow> nat list \<Rightarrow> sched_state \<Rightarrow> nat \<Rightarrow> 'w
    \<Rightarrow> ((int + nat) \<times> sched_state \<times> 'w) option" where
  "poll_sessions poll expect [] st sum_count w = Some (Inr sum_count, st, w)"
| "poll_sessions poll expect (tpos # ts) st sum_count w =
    (case rd (sc_skey (ss_ctx st)) tpos of
       None \<Rightarrow> None
     | Some None \<Rightarrow> poll_sessions poll expect ts st sum_count w
     | Some (Some a) \<Rightarrow>
         (case ss_keys st a of
            None \<Rightarrow> None
          | Some skey \<Rightarrow>
              if kd_pending_count (sk_async_domain skey) \<le> 0 then poll_sessions poll expect ts st sum_count w
              else
                (case wd_sched_poll_skey poll skey expect w of
                   None \<Rightarrow> None
                 | Some (Inl ret, skey', w) \<Rightarrow> Some (Inl ret, st\<lparr>ss_keys := (ss_keys st)(a \<mapsto> skey')\<rparr>, w)
                 | Some (Inr poll_num, skey', w) \<Rightarrow>
                     (let st = st\<lparr>ss_keys := (ss_keys st)(a \<mapsto> skey')\<rparr>;
                          sum_count = u32 (sum_count + poll_num) in
                      if sum_count \<ge> expect then Some (Inr sum_count, st, w)
                      else poll_sessions poll expect ts st sum_count w))))"

text \<open>
  Without any session the caller's count is left as it is (\<open>Inr None\<close>). The thread index is truncated to 16
  bits in the round-robin version.
\<close>

definition round_robin_poll_policy ::
  "'w poll_func option \<Rightarrow> nat \<times> nat \<Rightarrow> sched_state \<Rightarrow> nat \<Rightarrow> 'w
    \<Rightarrow> ((int + nat option) \<times> (nat \<times> nat) \<times> sched_state \<times> 'w) option" where
  "round_robin_poll_policy poll_func tls st expect w =
    (case poll_func of
       None \<Rightarrow> Some (Inl (- errno_of WD_EINVAL), tls, st, w)
     | Some poll \<Rightarrow>
         if sc_skey_num (ss_ctx st) = 0 then Some (Inr None, tls, st, w)
         else
           (let (tidx, tls) = sched_get_poll_skey_tidx (ss_ctx st) (fst tls) (snd tls);
                start_pos = u16 tidx in
            case poll_sessions poll expect
                   (map (\<lambda>i. (start_pos + i) mod SKEY_MAX_THREAD_NUM) [0 ..< SKEY_MAX_THREAD_NUM]) st 0 w of
              None \<Rightarrow> None
            | Some (Inl ret, st, w) \<Rightarrow> Some (Inl ret, tls, st, w)
            | Some (Inr n, st, w) \<Rightarrow> Some (Inr (Some n), tls, st, w)))"

definition skey_sched_poll_policy ::
  "'w poll_func option \<Rightarrow> nat \<times> nat \<Rightarrow> sched_state \<Rightarrow> nat \<Rightarrow> 'w
    \<Rightarrow> ((int + nat option) \<times> (nat \<times> nat) \<times> sched_state \<times> 'w) option" where
  "skey_sched_poll_policy poll_func tls st expect w =
    (case poll_func of
       None \<Rightarrow> Some (Inl (- errno_of WD_EINVAL), tls, st, w)
     | Some poll \<Rightarrow>
         if sc_skey_num (ss_ctx st) = 0 then Some (Inr None, tls, st, w)
         else
           (let (start_pos, tls) = sched_get_poll_skey_tidx (ss_ctx st) (fst tls) (snd tls) in
            case poll_sessions poll expect
                   (map (\<lambda>i. u32 (start_pos + i) mod SKEY_MAX_THREAD_NUM) [0 ..< SKEY_MAX_THREAD_NUM]) st 0 w of
              None \<Rightarrow> None
            | Some (Inl ret, st, w) \<Rightarrow> Some (Inl ret, tls, st, w)
            | Some (Inr n, st, w) \<Rightarrow> Some (Inr (Some n), tls, st, w)))"

definition loop_sched_poll_policy ::
  "'w poll_func option \<Rightarrow> nat \<times> nat \<Rightarrow> sched_state \<Rightarrow> nat \<Rightarrow> 'w
    \<Rightarrow> ((int + nat option) \<times> (nat \<times> nat) \<times> sched_state \<times> 'w) option" where
  "loop_sched_poll_policy poll_func tls st expect w = round_robin_poll_policy poll_func tls st expect w"

text \<open>The loop of the two simple policies: context \<open>pos\<close> is polled for one response at a time.\<close>

fun simple_poll_loop ::
  "'w poll_func \<Rightarrow> nat \<Rightarrow> nat \<Rightarrow> nat \<Rightarrow> nat \<Rightarrow> nat \<Rightarrow> 'w \<Rightarrow> (int + nat) \<times> nat \<times> 'w" where
  "simple_poll_loop poll pos 0 expect poll_num cnt w = (Inr cnt, cnt, w)"
| "simple_poll_loop poll pos (Suc loop_times) expect poll_num cnt w =
    (let (ret, poll_num, w) = poll pos 1 poll_num w in
     if ret < 0 \<and> ret \<noteq> - EAGAIN then (Inl ret, cnt, w)
     else if ret = - EAGAIN then simple_poll_loop poll pos loop_times expect poll_num cnt w
     else (let cnt = u32 (cnt + poll_num) in
           if cnt = expect then (Inr cnt, cnt, w)
           else simple_poll_loop poll pos loop_times expect poll_num cnt w))"

definition sched_none_poll_policy ::
  "'w poll_func option \<Rightarrow> nat \<Rightarrow> nat \<Rightarrow> 'w \<Rightarrow> (int + nat) \<times> nat \<times> 'w" where
  "sched_none_poll_policy poll_func expect cnt w =
    (case poll_func of
       None \<Rightarrow> (Inl (- errno_of WD_EINVAL), cnt, w)
     | Some poll \<Rightarrow> simple_poll_loop poll 0 (u32 (MAX_POLL_TIMES + expect)) expect 0 cnt w)"

definition sched_single_poll_policy ::
  "'w poll_func option \<Rightarrow> nat \<Rightarrow> nat \<Rightarrow> 'w \<Rightarrow> (int + nat) \<times> nat \<times> 'w" where
  "sched_single_poll_policy poll_func expect cnt w =
    (case poll_func of
       None \<Rightarrow> (Inl (- errno_of WD_EINVAL), cnt, w)
     | Some poll \<Rightarrow> simple_poll_loop poll 1 (u32 (MAX_POLL_TIMES + expect)) expect 0 cnt w)"

definition instr_poll_policy_rr ::
  "'w poll_func \<Rightarrow> wd_sched_key \<Rightarrow> nat \<Rightarrow> nat \<Rightarrow> 'w \<Rightarrow> ((int + nat) \<times> 'w) option" where
  "instr_poll_policy_rr poll skey expect cnt w =
    (case rd (dc_idx_list (kd_idx_cache (sk_async_domain skey))) 0 of
       None \<Rightarrow> None
     | Some ctx_id \<Rightarrow>
         (let (ret, recv_cnt, w) = poll ctx_id expect 0 w in
          if ret < 0 \<and> ret \<noteq> - EAGAIN then Some (Inl ret, w) else Some (Inr (u32 (cnt + recv_cnt)), w)))"

definition instr_sched_poll_policy ::
  "'w poll_func option \<Rightarrow> nat \<times> nat \<Rightarrow> sched_state \<Rightarrow> nat \<Rightarrow> nat \<Rightarrow> 'w
    \<Rightarrow> ((int + nat) \<times> (nat \<times> nat) \<times> 'w) option" where
  "instr_sched_poll_policy poll_func tls st expect cnt w =
    (case poll_func of
       None \<Rightarrow> Some (Inl (- errno_of WD_EINVAL), tls, w)
     | Some poll \<Rightarrow>
         (let (tidx, tls) = sched_get_poll_skey_tidx (ss_ctx st) (fst tls) (snd tls) in
          case rd (sc_skey (ss_ctx st)) tidx of
            None \<Rightarrow> None
          | Some None \<Rightarrow> Some (Inl (- errno_of WD_EAGAIN), tls, w)
          | Some (Some a) \<Rightarrow>
              (case ss_keys st a of
                 None \<Rightarrow> None
               | Some skey \<Rightarrow>
                   (case instr_poll_policy_rr poll skey expect cnt w of
                      None \<Rightarrow> None
                    | Some (r, w) \<Rightarrow> Some (r, tls, w)))))"

subsection \<open>The policy table\<close>

definition sched_table :: "(string \<times> nat) list" where
  "sched_table = [(''RR scheduler'', SCHED_POLICY_RR), (''None scheduler'', SCHED_POLICY_NONE),
     (''Single scheduler'', SCHED_POLICY_SINGLE), (''Device RR scheduler'', SCHED_POLICY_DEV),
     (''Loop scheduler'', SCHED_POLICY_LOOP), (''Hungry scheduler'', SCHED_POLICY_HUNGRY),
     (''Instr scheduler'', SCHED_POLICY_INSTR)]"

text \<open>The three callbacks of an entry; the handle \<open>0\<close> of the simple policies is \<open>None\<close>.\<close>

definition sched_init ::
  "nat \<Rightarrow> (wd_error + nat) \<Rightarrow> nat option \<Rightarrow> bool list \<Rightarrow> sched_state \<Rightarrow> sched_params option
    \<Rightarrow> (nat option result \<times> sched_state) option" where
  "sched_init policy cpu malloc locks st param =
    (let lift = map_option (\<lambda>(r, st). (case r of Inl e \<Rightarrow> Inl e | Inr a \<Rightarrow> Inr (Some a), st)) in
     if policy = SCHED_POLICY_NONE \<or> policy = SCHED_POLICY_SINGLE then Some (Inr None, st)
     else if policy = SCHED_POLICY_RR then lift (round_robin_sched_init cpu malloc locks st param)
     else if policy = SCHED_POLICY_DEV then lift (session_dev_sched_init cpu malloc locks st param)
     else if policy = SCHED_POLICY_LOOP then lift (loop_sched_init cpu malloc locks st param)
     else if policy = SCHED_POLICY_HUNGRY then lift (skey_sched_init cpu malloc locks st param)
     else lift (instr_sched_init cpu malloc locks st param))"

definition pick_next_ctx :: "nat \<Rightarrow> sched_state option \<Rightarrow> nat option \<Rightarrow> nat \<Rightarrow> (nat \<times> sched_state option) option" where
  "pick_next_ctx policy st key sched_mode =
    (if policy = SCHED_POLICY_NONE then Some (sched_none_pick_next_ctx sched_mode, st)
     else if policy = SCHED_POLICY_SINGLE then Some (sched_single_pick_next_ctx sched_mode, st)
     else if policy = SCHED_POLICY_RR \<or> policy = SCHED_POLICY_DEV then round_robin_pick_next_ctx st key sched_mode
     else if policy = SCHED_POLICY_LOOP then loop_sched_pick_next_ctx st key sched_mode
     else if policy = SCHED_POLICY_HUNGRY then skey_sched_pick_next_ctx st key sched_mode
     else instr_sched_pick_next_ctx st key sched_mode)"

subsection \<open>Picks keep the invariant and return registered contexts\<close>

definition mode_ctxs :: "wd_sched_ctx \<Rightarrow> wd_sched_key \<Rightarrow> nat \<Rightarrow> nat set" where
  "mode_ctxs c k m = (\<Union>p. set (sc_ctxs c (sk_region_id k, m, sk_type k, p)))"

lemma mode_domain_ok:
  assumes "m < 2"
  shows "key_ok c k \<Longrightarrow> key_dom_ok c (sk_region_id k) (sk_type k) m (mode_domain m k)"
    and "key_ok c k \<Longrightarrow> key_dom_ok c (sk_region_id k) (sk_type k) m d \<Longrightarrow> key_ok c (set_mode_domain m d k)"
proof -
  have "m = SCHED_MODE_SYNC \<or> m = SCHED_MODE_ASYNC" using assms by (auto simp: sched_consts)
  then show "key_ok c k \<Longrightarrow> key_dom_ok c (sk_region_id k) (sk_type k) m (mode_domain m k)"
    and "key_ok c k \<Longrightarrow> key_dom_ok c (sk_region_id k) (sk_type k) m d \<Longrightarrow> key_ok c (set_mode_domain m d k)"
    by (auto simp: key_ok_def mode_domain_def set_mode_domain_def sched_consts)
qed

lemma st_inv_upd:
  assumes st: "st_inv st" and a: "ss_keys st a = Some k" and c: "sc_tbl_inv c" "same_domains (ss_ctx st) c"
    and k': "key_ok c k'"
  shows "st_inv (st\<lparr>ss_ctx := c, ss_keys := (ss_keys st)(a \<mapsto> k')\<rparr>)"
proof -
  have st1: "st_inv (st\<lparr>ss_ctx := c\<rparr>)" by (rule st_inv_same [OF st c])
  moreover have "dom ((ss_keys st)(a \<mapsto> k')) = dom (ss_keys st)" using a by auto
  ultimately show ?thesis using k' by (auto simp: st_inv_def slots_inv_def)
qed

lemma pick_dom_ok:
  assumes d: "key_dom_ok c r ty m d" and pol: "sc_policy c < SCHED_POLICY_BUTT"
  shows "\<exists>i idx cache. wd_sched_skey_pick_next (kd_idx_cache d) = Some ((i, idx), cache) \<and>
    key_dom_ok c r ty m (d\<lparr>kd_idx_cache := cache\<rparr>) \<and> cache_inv cache \<and>
    (i = INVALID_POS \<or> (\<exists>p. i \<in> set (sc_ctxs c (r, m, ty, p)))) \<and>
    (case idx of None \<Rightarrow> i = INVALID_POS | Some n \<Rightarrow> n < dc_valid_count cache \<and> i = cache_ctxs cache ! n) \<and>
    dc_has_sub cache = dc_has_sub (kd_idx_cache d) \<and> cache_loads cache = cache_loads (kd_idx_cache d)"
proof -
  let ?c = "kd_idx_cache d"
  have inv: "cache_inv ?c" using d by (simp add: key_dom_ok_def)
  show ?thesis
  proof (cases "dc_valid_count ?c = 0")
    case True
    then show ?thesis using pick_none [OF True] d inv by simp
  next
    case False
    then have "dc_policy ?c < SCHED_POLICY_BUTT" using d pol by (simp add: key_dom_ok_def)
    from inv this show ?thesis
    proof (cases rule: pick_inv)
      case none
      then show ?thesis using False by simp
    next
      case (some n c')
      have "cache_ctxs ?c ! n \<in> set (cache_ctxs ?c)" using some(1) inv by simp
      then have "cache_ctxs ?c ! n = INVALID_POS \<or> (\<exists>p. cache_ctxs ?c ! n \<in> set (sc_ctxs c (r, m, ty, p)))"
        using d by (simp add: key_dom_ok_def)
      then show ?thesis using some d by (simp add: key_dom_ok_def)
    qed
  qed
qed

lemma key_dom_ok_pending [simp]: "key_dom_ok c r ty m (d\<lparr>kd_pending_count := n\<rparr>) = key_dom_ok c r ty m d"
  by (simp add: key_dom_ok_def)

lemma key_dom_ok_pending2 [simp]:
  "key_dom_ok c r ty m (d\<lparr>kd_idx_cache := x, kd_expanded_count := n\<rparr>) = key_dom_ok c r ty m (d\<lparr>kd_idx_cache := x\<rparr>)"
  "key_dom_ok c r ty m (d\<lparr>kd_pending_count := pn, kd_idx_cache := x\<rparr>) = key_dom_ok c r ty m (d\<lparr>kd_idx_cache := x\<rparr>)"
  by (simp_all add: key_dom_ok_def)

lemma rr_pick_inv:
  assumes st: "st_inv st" and a: "ss_keys st a = Some k" and m: "m < 2"
  shows "\<exists>i st'. round_robin_pick_next_ctx (Some st) (Some a) m = Some (i, Some st') \<and> st_inv st' \<and>
      ss_ctx st' = ss_ctx st \<and> (i = INVALID_POS \<or> i \<in> mode_ctxs (ss_ctx st) k m)"
    and "\<exists>i st'. instr_sched_pick_next_ctx (Some st) (Some a) m = Some (i, Some st') \<and> st_inv st' \<and>
      ss_ctx st' = ss_ctx st \<and> (i = INVALID_POS \<or> i \<in> mode_ctxs (ss_ctx st) k m)"
proof -
  let ?c = "ss_ctx st" and ?d = "mode_domain m k"
  have k: "key_ok ?c k" and pol: "sc_policy ?c < SCHED_POLICY_BUTT" and tbl: "sc_tbl_inv ?c"
    using st a by (auto simp: st_inv_def)
  from pick_dom_ok [OF mode_domain_ok(1) [OF m k] pol] obtain i idx cache where
    p: "wd_sched_skey_pick_next (kd_idx_cache ?d) = Some ((i, idx), cache)"
      "key_dom_ok ?c (sk_region_id k) (sk_type k) m (?d\<lparr>kd_idx_cache := cache\<rparr>)"
      "i = INVALID_POS \<or> (\<exists>p. i \<in> set (sc_ctxs ?c (sk_region_id k, m, sk_type k, p)))" by blast
  have i: "i = INVALID_POS \<or> i \<in> mode_ctxs ?c k m" using p(3) by (auto simp: mode_ctxs_def)
  let ?st = "\<lambda>d. st\<lparr>ss_keys := (ss_keys st)(a \<mapsto> set_mode_domain m d k)\<rparr>"
  have upd: "st_inv (?st d)" if "key_dom_ok ?c (sk_region_id k) (sk_type k) m d" for d
    using st_inv_upd [OF st a tbl same_domains_refl mode_domain_ok(2) [OF m k that]] by simp
  show "\<exists>i st'. instr_sched_pick_next_ctx (Some st) (Some a) m = Some (i, Some st') \<and> st_inv st' \<and>
      ss_ctx st' = ss_ctx st \<and> (i = INVALID_POS \<or> i \<in> mode_ctxs (ss_ctx st) k m)"
    using a p(1) i upd [OF p(2)] by (simp add: instr_sched_pick_next_ctx_def Let_def)
  show "\<exists>i st'. round_robin_pick_next_ctx (Some st) (Some a) m = Some (i, Some st') \<and> st_inv st' \<and>
      ss_ctx st' = ss_ctx st \<and> (i = INVALID_POS \<or> i \<in> mode_ctxs (ss_ctx st) k m)"
  proof (cases "m = SCHED_MODE_SYNC")
    case True
    then show ?thesis using a p(1) i upd [OF p(2)] by (simp add: round_robin_pick_next_ctx_def Let_def)
  next
    case False
    let ?d1 = "?d\<lparr>kd_pending_count := i32 (kd_pending_count ?d + 1)\<rparr>"
    have "key_dom_ok ?c (sk_region_id k) (sk_type k) m (?d1\<lparr>kd_idx_cache := cache\<rparr>)" using p(2) by simp
    from upd [OF this] show ?thesis using False a p(1) i by (simp add: round_robin_pick_next_ctx_def Let_def)
  qed
qed

lemma u32_of_int_le: "u32_of_int x \<le> UINT_MAX"
proof -
  have "x mod 2 ^ 32 < 2 ^ 32" by simp
  then show ?thesis by (simp add: u32_of_int_def UINT_MAX_def)
qed

lemma update_load_spec:
  assumes inv: "cache_inv c" and i: "i < dc_valid_count c"
  shows "\<exists>c'. wd_sched_skey_update_load c i delta = Some c' \<and> cache_inv c' \<and> cache_ctxs c' = cache_ctxs c \<and>
    cache_loads c' = (cache_loads c)[i := u32_of_int (int (cache_loads c ! i) + delta)] \<and>
    dc_valid_count c' = dc_valid_count c \<and> dc_policy c' = dc_policy c \<and>
    dc_has_sub c' = (delta < 0 \<or> dc_has_sub c)"
proof -
  have len: "i < length (dc_load_values c)" using assms by (simp add: cache_inv_def)
  define c' where "c' = c\<lparr>dc_load_values := (dc_load_values c)[i := u32_of_int (int (dc_load_values c ! i) + delta)],
     dc_has_sub := (if delta < 0 then True else dc_has_sub c)\<rparr>"
  have "wd_sched_skey_update_load c i delta = Some c'"
    using len by (simp add: wd_sched_skey_update_load_def c'_def)
  moreover have "cache_inv c'"
    using inv u32_of_int_le by (auto simp: cache_inv_def c'_def dest!: set_update_subset_insert [THEN subsetD])
  moreover have "cache_loads c' = (cache_loads c)[i := u32_of_int (int (cache_loads c ! i) + delta)]"
    using i by (simp add: cache_loads_def c'_def take_update_swap)
  ultimately show ?thesis by (intro exI [of _ c']) (simp add: c'_def cache_ctxs_def)
qed

lemma key_dom_ok_cache:
  "key_dom_ok c r ty m (d\<lparr>kd_idx_cache := x\<rparr>) \<Longrightarrow> cache_inv y \<Longrightarrow> dc_policy y = dc_policy x \<Longrightarrow>
    dc_valid_count y = dc_valid_count x \<Longrightarrow> cache_ctxs y = cache_ctxs x \<Longrightarrow> key_dom_ok c r ty m (d\<lparr>kd_idx_cache := y\<rparr>)"
  by (simp add: key_dom_ok_def)

text \<open>
  One hungry pick: the outcomes, with what happens to the loads.
\<close>

lemma hungry_pick_cases:
  assumes k: "key_ok c k" and tbl: "sc_tbl_inv c" and pol: "sc_policy c < SCHED_POLICY_BUTT" and m: "m < 2"
  shows "\<exists>i c' k'. hungry_pick c k m = Some (i, c', k') \<and> sc_tbl_inv c' \<and> same_domains c c' \<and> key_ok c' k' \<and>
    kd_pending_count (mode_domain m k') = kd_pending_count (mode_domain m k) \<and>
    sk_region_id k' = sk_region_id k \<and> sk_type k' = sk_type k \<and>
    (i = INVALID_POS \<or> i \<in> mode_ctxs c k m \<or>
     i = QUEUE_FULL_POS \<and> dc_has_sub (kd_idx_cache (mode_domain m k)) \<and>
       (\<exists>l \<in> set (cache_loads (kd_idx_cache (mode_domain m k))). l \<ge> HW_CTX_FULL_DEPTH))"
proof -
  let ?d = "mode_domain m k" and ?r = "sk_region_id k" and ?ty = "sk_type k"
  from pick_dom_ok [OF mode_domain_ok(1) [OF m k] pol] obtain i idx x where
    p: "wd_sched_skey_pick_next (kd_idx_cache ?d) = Some ((i, idx), x)"
      "key_dom_ok c ?r ?ty m (?d\<lparr>kd_idx_cache := x\<rparr>)" "cache_inv x"
      "i = INVALID_POS \<or> (\<exists>p. i \<in> set (sc_ctxs c (?r, m, ?ty, p)))"
      "case idx of None \<Rightarrow> i = INVALID_POS | Some n \<Rightarrow> n < dc_valid_count x \<and> i = cache_ctxs x ! n"
      "dc_has_sub x = dc_has_sub (kd_idx_cache ?d)" "cache_loads x = cache_loads (kd_idx_cache ?d)" by blast
  have i: "i = INVALID_POS \<or> i \<in> mode_ctxs c k m" using p(4) by (auto simp: mode_ctxs_def)
  have frame: "kd_pending_count (mode_domain m (set_mode_domain m d k)) = kd_pending_count d"
    "sk_region_id (set_mode_domain m d k) = ?r" "sk_type (set_mode_domain m d k) = ?ty" for d
    by (simp_all add: mode_domain_def set_mode_domain_def)
  have put: "key_ok c (set_mode_domain m d k)" if "key_dom_ok c ?r ?ty m d" for d
    by (rule mode_domain_ok(2) [OF m k that])
  show ?thesis
  proof (cases "idx = None \<or> i = INVALID_POS")
    case True
    then have "hungry_pick c k m = Some (INVALID_POS, c, set_mode_domain m (?d\<lparr>kd_idx_cache := x\<rparr>) k)"
      using p(1) by (auto simp: hungry_pick_def Let_def split: option.split)
    then show ?thesis using put [OF p(2)] tbl frame by simp
  next
    case False
    then obtain n where n: "idx = Some n" "n < dc_valid_count x" "i = cache_ctxs x ! n" "i \<noteq> INVALID_POS"
      using p(5) by auto
    let ?l = "cache_loads x ! n"
    have "dc_valid_count x \<le> length (dc_load_values x)" using p(3) by (simp add: cache_inv_def)
    then have "rd (dc_load_values x) n = Some ?l" using n(2) by (simp add: cache_loads_def)
    moreover have "?l \<in> set (cache_loads x)" using n(2) p(3) by (intro nth_mem) simp
    ultimately have ld: "rd (dc_load_values x) n = Some ?l" "?l \<in> set (cache_loads x)" .
    have imem: "i \<in> mode_ctxs c k m" using i n(4) by simp
    from update_load_spec [OF p(3) n(2), of 1] obtain y where y: "wd_sched_skey_update_load x n 1 = Some y"
      "cache_inv y" "cache_ctxs y = cache_ctxs x" "dc_valid_count y = dc_valid_count x" "dc_policy y = dc_policy x" by blast
    from update_load_spec [OF p(3) n(2), of "- int HUNGRY_LOAD_THRESHOLD"] obtain z where
      z: "wd_sched_skey_update_load x n (- int HUNGRY_LOAD_THRESHOLD) = Some z" "cache_inv z"
      "cache_ctxs z = cache_ctxs x" "dc_valid_count z = dc_valid_count x" "dc_policy z = dc_policy x" by blast
    have yok: "key_dom_ok c ?r ?ty m (?d\<lparr>kd_idx_cache := y\<rparr>)" using key_dom_ok_cache [OF p(2)] y by blast
    have zok: "key_dom_ok c ?r ?ty m (?d\<lparr>kd_idx_cache := z\<rparr>)" using key_dom_ok_cache [OF p(2)] z by blast
    note eq = hungry_pick_def [of c k m, unfolded Let_def p(1) n(1) option.case prod.case]
    show ?thesis
    proof (cases "?l \<ge> HW_CTX_FULL_DEPTH")
      case full: True
      show ?thesis
      proof (cases "dc_has_sub x")
        case True
        then show ?thesis unfolding eq using full ld n(4) put [OF p(2)] tbl frame p(6,7)
          by (intro exI [of _ QUEUE_FULL_POS] exI [of _ c]) auto
      next
        case False
        then show ?thesis unfolding eq using full ld n(4) put [OF zok] tbl frame z(1) imem by simp
      qed
    next
      case notfull: False
      from init_ctx_spec [OF tbl, of k m] obtain j c' where
        j: "session_sched_init_ctx c k m = Some (j, c')" "sc_tbl_inv c'" "same_domains c c'"
          "j = INVALID_POS \<or> j \<in> set (sc_ctxs c (?r, m, ?ty, sk_ctx_prop k))" by blast
      have put': "key_ok c' (set_mode_domain m d k)" if "key_dom_ok c ?r ?ty m d" for d
        using key_ok_same [OF j(3) put [OF that]] .
      show ?thesis
      proof (cases "?l > HUNGRY_LOAD_THRESHOLD")
        case False
        then show ?thesis unfolding eq using notfull ld n(4) y(1) put [OF yok] tbl frame imem by simp
      next
        case True
        show ?thesis
        proof (cases "j = INVALID_POS")
          case inval: True
          then show ?thesis unfolding eq using True notfull ld n(4) y(1) put' [OF yok] j(1-3) frame imem by simp
        next
          case new: False
          have jmem: "j \<in> mode_ctxs c k m" using j(4) new by (auto simp: mode_ctxs_def)
          from y(2) show ?thesis
          proof (cases rule: add_ctx_cases [where x = j])
            case (fail e)
            then show ?thesis unfolding eq using True notfull ld n(4) y(1) put' [OF yok] j(1-3) frame imem new by simp
          next
            case (ok w)
            have "key_dom_ok c ?r ?ty m (?d\<lparr>kd_idx_cache := w\<rparr>)"
              using yok ok j(4) new y(4) n(2) by (auto simp: key_dom_ok_def)
            then have "key_dom_ok c ?r ?ty m (?d\<lparr>kd_idx_cache := w, kd_expanded_count := u32 (kd_expanded_count ?d + 1)\<rparr>)"
              by simp
            from put' [OF this] show ?thesis unfolding eq
              using True notfull ld n(4) y(1) j(1-3) frame jmem new ok(1) by simp
          qed
        qed
      qed
    qed
  qed
qed

lemma hungry_pick_inv:
  assumes st: "st_inv st" and a: "ss_keys st a = Some k" and m: "m < 2"
  shows "\<exists>i st'. skey_sched_pick_next_ctx (Some st) (Some a) m = Some (i, Some st') \<and> st_inv st' \<and>
    same_domains (ss_ctx st) (ss_ctx st') \<and>
    (i = INVALID_POS \<or> i = QUEUE_FULL_POS \<or> i \<in> mode_ctxs (ss_ctx st) k m)"
proof -
  have k: "key_ok (ss_ctx st) k" "sc_tbl_inv (ss_ctx st)" "sc_policy (ss_ctx st) < SCHED_POLICY_BUTT"
    using st a by (auto simp: st_inv_def)
  from hungry_pick_cases [OF k m] obtain i c' k' where h: "hungry_pick (ss_ctx st) k m = Some (i, c', k')"
    "sc_tbl_inv c'" "same_domains (ss_ctx st) c'" "key_ok c' k'"
    "i = INVALID_POS \<or> i = QUEUE_FULL_POS \<or> i \<in> mode_ctxs (ss_ctx st) k m" by blast
  then show ?thesis using st_inv_upd [OF st a h(2-4)] a by (simp add: skey_sched_pick_next_ctx_def)
qed

end
