(* ===== verification/Sched_System.thy ===== *)
theory Sched_System
  imports Sched_Policy
begin

text \<open>
  The scheduler as a whole: setting the algorithm of a session, polling, and the invariant over every
  sequence of session operations, followed by the properties of the scheduler.
\<close>

subsection \<open>Setting the algorithm of a session\<close>

definition slot_ok :: "wd_alg_registry \<Rightarrow> wd_ctx_internal list \<Rightarrow> string \<Rightarrow> nat \<Rightarrow> bool" where
  "slot_ok rg ctxs alg i \<longleftrightarrow> i = INVALID_POS \<or> ci_drv (ctxs ! i) = None \<or> ctx_compat rg ctxs alg i"

definition in_range :: "wd_sched_ctx \<Rightarrow> wd_ctx_internal list \<Rightarrow> bool" where
  "in_range c ctxs \<longleftrightarrow> (\<forall>q. list_all (\<lambda>i. i < length ctxs) (sc_ctxs c q))"

lemma in_range_same: "same_domains c c' \<Longrightarrow> in_range c' ctxs = in_range c ctxs"
  unfolding in_range_def same_domains_def by (elim conjE exE) (simp only: simp_thms)

lemma find_compat_spec:
  assumes inv: "sc_tbl_inv c" and k: "sk_alg_name k = Some alg" "sk_ctxs k = Some ctxs" and rng: "in_range c ctxs"
  shows "\<exists>i c'. wd_sched_find_compat_ctx rg c k m = Some (i, c') \<and> sc_tbl_inv c' \<and> same_domains c c' \<and>
    (if i = INVALID_POS then \<forall>p < UADK_ALG_TYPE_MAX. \<forall>i \<in> set (sc_ctxs c (sk_region_id k, m, sk_type k, p)). \<not> ctx_compat rg ctxs alg i
     else ctx_compat rg ctxs alg i \<and> (\<exists>p < UADK_ALG_TYPE_MAX. i \<in> set (sc_ctxs c (sk_region_id k, m, sk_type k, p))))"
proof (cases "sc_domain_hash_table c")
  case None
  then have "sc_ctxs c q = []" for q by (simp add: sc_ctxs_def sc_look_def)
  then show ?thesis using None inv k by (simp add: wd_sched_find_compat_ctx_def)
next
  case (Some t)
  have "i < length ctxs" if "i \<in> set (sc_ctxs c q)" for i q
    using rng that by (simp only: in_range_def list_all_iff)
  then have "\<forall>p \<in> set [0 ..< UADK_ALG_TYPE_MAX]. \<forall>i \<in> set (sc_ctxs c (sk_region_id k, m, sk_type k, p)). i < length ctxs"
    by blast
  from compat_props_spec [OF inv Some this, of rg alg] obtain i t' where
    "compat_props rg ctxs alg (sk_region_id k) m (sk_type k) [0 ..< UADK_ALG_TYPE_MAX] t = Some (i, t')"
    "sc_tbl_inv (c\<lparr>sc_domain_hash_table := Some t'\<rparr>)" "same_domains c (c\<lparr>sc_domain_hash_table := Some t'\<rparr>)"
    "if i = INVALID_POS then \<forall>p \<in> set [0 ..< UADK_ALG_TYPE_MAX]. \<forall>i \<in> set (sc_ctxs c (sk_region_id k, m, sk_type k, p)). \<not> ctx_compat rg ctxs alg i
     else ctx_compat rg ctxs alg i \<and> (\<exists>p \<in> set [0 ..< UADK_ALG_TYPE_MAX]. i \<in> set (sc_ctxs c (sk_region_id k, m, sk_type k, p)))"
    by blast
  then show ?thesis using k Some by (auto simp: wd_sched_find_compat_ctx_def split: if_splits)
qed

lemma cache_ctxs_update:
  "i < dc_valid_count x \<Longrightarrow> cache_ctxs (x\<lparr>dc_idx_list := (dc_idx_list x)[i := v]\<rparr>) = (cache_ctxs x)[i := v]"
  "cache_ctxs (y\<lparr>dc_load_values := l\<rparr>) = cache_ctxs y"
  by (simp_all add: cache_ctxs_def take_update_swap)

lemma key_dom_ok_put:
  assumes d: "key_dom_ok c r ty m (d\<lparr>kd_idx_cache := x\<rparr>)" and n: "n < dc_valid_count x"
    and v: "v = INVALID_POS \<or> (\<exists>p. v \<in> set (sc_ctxs c (r, m, ty, p)))"
    and y: "y = x\<lparr>dc_idx_list := (dc_idx_list x)[n := v]\<rparr> \<or>
      y = x\<lparr>dc_idx_list := (dc_idx_list x)[n := v], dc_load_values := (dc_load_values x)[n := 0]\<rparr>"
  shows "key_dom_ok c r ty m (d\<lparr>kd_idx_cache := y\<rparr>) \<and> cache_ctxs y = (cache_ctxs x)[n := v] \<and>
    dc_valid_count y = dc_valid_count x"
proof -
  have ctxs: "cache_ctxs y = (cache_ctxs x)[n := v]" using n y by (auto simp: cache_ctxs_update)
  have inv: "cache_inv x" using d by (simp add: key_dom_ok_def)
  then have "cache_inv y" using y
    by (auto simp: cache_inv_def dest!: set_update_subset_insert [THEN subsetD])
  then show ?thesis using d y v ctxs
    by (auto simp: key_dom_ok_def dest!: set_update_subset_insert [THEN subsetD])
qed

lemma filter_slot_spec:
  assumes inv: "sc_tbl_inv c" and k: "sk_alg_name k = Some alg" "sk_ctxs k = Some ctxs" and rng: "in_range c ctxs"
    and d: "key_dom_ok c (sk_region_id k) (sk_type k) m (d\<lparr>kd_idx_cache := x\<rparr>)" and n: "n < dc_valid_count x"
  shows "\<exists>c' y v. filter_slot rg k alg ctxs m n (c, x) = Some (c', y) \<and> sc_tbl_inv c' \<and> same_domains c c' \<and>
    key_dom_ok c' (sk_region_id k) (sk_type k) m (d\<lparr>kd_idx_cache := y\<rparr>) \<and>
    cache_ctxs y = (cache_ctxs x)[n := v] \<and> slot_ok rg ctxs alg v \<and> dc_valid_count y = dc_valid_count x"
proof -
  let ?r = "sk_region_id k" and ?ty = "sk_type k" and ?i = "cache_ctxs x ! n"
  have cinv: "cache_inv x" using d by (simp add: key_dom_ok_def)
  have len: "n < length (dc_idx_list x)" "n < length (dc_load_values x)" using cinv n by (auto simp: cache_inv_def)
  have i: "rd (dc_idx_list x) n = Some ?i" using len n by (simp add: cache_ctxs_def)
  have "?i \<in> set (cache_ctxs x)" using n cinv by (intro nth_mem) simp
  then have mem: "?i = INVALID_POS \<or> (\<exists>p. ?i \<in> set (sc_ctxs c (?r, m, ?ty, p)))" using d by (simp add: key_dom_ok_def)
  have same: "cache_ctxs x = (cache_ctxs x)[n := ?i]" by simp
  have keep: ?thesis if "filter_slot rg k alg ctxs m n (c, x) = Some (c, x)" "slot_ok rg ctxs alg ?i"
    using that inv d same by (intro exI [of _ c] exI [of _ x] exI [of _ ?i]) simp
  show ?thesis
  proof (cases "?i = INVALID_POS")
    case True
    then show ?thesis using i by (intro keep) (simp_all add: filter_slot_def slot_ok_def)
  next
    case False
    then have il: "?i < length ctxs" using mem rng unfolding in_range_def list_all_iff by blast
    show ?thesis
    proof (cases "ci_drv (ctxs ! ?i) = None \<or> ctx_compat rg ctxs alg ?i")
      case True
      then show ?thesis using i il False by (intro keep) (auto simp: filter_slot_def slot_ok_def ctx_compat_def)
    next
      case bad: False
      from find_compat_spec [OF inv k rng, of rg m] obtain v c' where
        v: "wd_sched_find_compat_ctx rg c k m = Some (v, c')" "sc_tbl_inv c'" "same_domains c c'"
          "if v = INVALID_POS then \<forall>p < UADK_ALG_TYPE_MAX. \<forall>i \<in> set (sc_ctxs c (?r, m, ?ty, p)). \<not> ctx_compat rg ctxs alg i
           else ctx_compat rg ctxs alg v \<and> (\<exists>p < UADK_ALG_TYPE_MAX. v \<in> set (sc_ctxs c (?r, m, ?ty, p)))" by blast
      note eq = filter_slot_def [of rg k alg ctxs m n]
      let ?y1 = "x\<lparr>dc_idx_list := (dc_idx_list x)[n := v], dc_load_values := (dc_load_values x)[n := 0]\<rparr>"
        and ?y2 = "x\<lparr>dc_idx_list := (dc_idx_list x)[n := INVALID_POS]\<rparr>"
      have call: "filter_slot rg k alg ctxs m n (c, x) = Some (c', if v \<noteq> INVALID_POS \<and> v \<noteq> ?i then ?y1 else ?y2)"
        using bad il False i v(1) len by (auto simp: eq ctx_compat_def)
      have d': "key_dom_ok c' ?r ?ty m (d\<lparr>kd_idx_cache := x\<rparr>)" using key_dom_ok_same [OF v(3) d] .
      have sctx: "sc_ctxs c' q = sc_ctxs c q" for q using v(3) unfolding same_domains_def by blast
      show ?thesis
      proof (cases "v \<noteq> INVALID_POS \<and> v \<noteq> ?i")
        case True
        then have vp: "v = INVALID_POS \<or> (\<exists>p. v \<in> set (sc_ctxs c' (?r, m, ?ty, p)))" and ok: "slot_ok rg ctxs alg v"
          using v(4) sctx by (auto simp: slot_ok_def)
        from key_dom_ok_put [OF d' n vp, of ?y1] have "key_dom_ok c' ?r ?ty m (d\<lparr>kd_idx_cache := ?y1\<rparr>)"
          "cache_ctxs ?y1 = (cache_ctxs x)[n := v]" "dc_valid_count ?y1 = dc_valid_count x" by simp_all
        then show ?thesis using call True v(2,3) ok by (intro exI [of _ c'] exI [of _ ?y1] exI [of _ v]) simp
      next
        case False
        from key_dom_ok_put [OF d' n, of INVALID_POS ?y2] have "key_dom_ok c' ?r ?ty m (d\<lparr>kd_idx_cache := ?y2\<rparr>)"
          "cache_ctxs ?y2 = (cache_ctxs x)[n := INVALID_POS]" "dc_valid_count ?y2 = dc_valid_count x" by simp_all
        then show ?thesis using call False v(2,3)
          by (intro exI [of _ c'] exI [of _ ?y2] exI [of _ INVALID_POS]) (simp add: slot_ok_def)
      qed
    qed
  qed
qed

lemma filter_slots_spec:
  assumes "sc_tbl_inv c" and "sk_alg_name k = Some alg" "sk_ctxs k = Some ctxs" and "in_range c ctxs"
    and "key_dom_ok c (sk_region_id k) (sk_type k) m (d\<lparr>kd_idx_cache := x\<rparr>)"
    and "list_all (slot_ok rg ctxs alg) (take n (cache_ctxs x))" and "n + j = dc_valid_count x"
  shows "\<exists>c' y. opt_fold (filter_slot rg k alg ctxs m) [n ..< n + j] (c, x) = Some (c', y) \<and> sc_tbl_inv c' \<and>
    same_domains c c' \<and> key_dom_ok c' (sk_region_id k) (sk_type k) m (d\<lparr>kd_idx_cache := y\<rparr>) \<and>
    list_all (slot_ok rg ctxs alg) (cache_ctxs y)"
  using assms
proof (induction j arbitrary: n c x)
  case 0
  then have "length (cache_ctxs x) = n" by (simp add: key_dom_ok_def)
  then show ?case using 0 by simp
next
  case (Suc j)
  have n: "n < dc_valid_count x" using Suc.prems(7) by simp
  from filter_slot_spec [OF Suc.prems(1-5) n, of rg] obtain c1 y v where
    s: "filter_slot rg k alg ctxs m n (c, x) = Some (c1, y)" "sc_tbl_inv c1" "same_domains c c1"
      "key_dom_ok c1 (sk_region_id k) (sk_type k) m (d\<lparr>kd_idx_cache := y\<rparr>)"
      "cache_ctxs y = (cache_ctxs x)[n := v]" "slot_ok rg ctxs alg v" "dc_valid_count y = dc_valid_count x" by blast
  have rng: "in_range c1 ctxs" using Suc.prems(4) in_range_same [OF s(3)] by simp
  have len: "n < length (cache_ctxs x)" using n Suc.prems(5) by (simp add: key_dom_ok_def)
  have pre: "list_all (slot_ok rg ctxs alg) (take (Suc n) (cache_ctxs y))"
    using Suc.prems(6) s(5,6) len by (simp add: take_Suc_conv_app_nth)
  have cnt: "Suc n + j = dc_valid_count y" using Suc.prems(7) s(7) by simp
  from Suc.IH [OF s(2) Suc.prems(2,3) rng s(4) pre cnt] obtain c' z where
    IH: "opt_fold (filter_slot rg k alg ctxs m) [Suc n ..< Suc n + j] (c1, y) = Some (c', z)" "sc_tbl_inv c'"
      "same_domains c1 c'" "key_dom_ok c' (sk_region_id k) (sk_type k) m (d\<lparr>kd_idx_cache := z\<rparr>)"
      "list_all (slot_ok rg ctxs alg) (cache_ctxs z)" by blast
  have "[n ..< n + Suc j] = n # [Suc n ..< Suc n + j]" by (simp add: upt_conv_Cons)
  then show ?case using s(1) IH same_domains_trans [OF s(3) IH(3)] by simp
qed

lemma compat_filter_spec:
  assumes inv: "sc_tbl_inv c" and k: "sk_alg_name k = Some alg" "sk_ctxs k = Some ctxs" and rng: "in_range c ctxs"
    and d: "key_dom_ok c (sk_region_id k) (sk_type k) m d"
  shows "\<exists>c' d'. wd_sched_skey_compat_filter rg c k d m = Some (c', d') \<and> sc_tbl_inv c' \<and> same_domains c c' \<and>
    key_dom_ok c' (sk_region_id k) (sk_type k) m d' \<and> list_all (slot_ok rg ctxs alg) (cache_ctxs (kd_idx_cache d'))"
proof (cases "dc_valid_count (kd_idx_cache d) = 0")
  case True
  then show ?thesis using inv k d by (simp add: wd_sched_skey_compat_filter_def cache_ctxs_def)
next
  case False
  have d': "key_dom_ok c (sk_region_id k) (sk_type k) m (d\<lparr>kd_idx_cache := kd_idx_cache d\<rparr>)" using d by simp
  from filter_slots_spec [OF inv k rng d', of rg 0 "dc_valid_count (kd_idx_cache d)"] obtain c' y where
    "opt_fold (filter_slot rg k alg ctxs m) [0 ..< dc_valid_count (kd_idx_cache d)] (c, kd_idx_cache d) = Some (c', y)"
    "sc_tbl_inv c'" "same_domains c c'" "key_dom_ok c' (sk_region_id k) (sk_type k) m (d\<lparr>kd_idx_cache := y\<rparr>)"
    "list_all (slot_ok rg ctxs alg) (cache_ctxs y)" by auto
  then show ?thesis using False k by (simp add: wd_sched_skey_compat_filter_def)
qed

lemma set_param_inv:
  assumes st: "st_inv st" and a: "ss_keys st a = Some k"
    and rng: "case wp_ctxs params of None \<Rightarrow> True | Some ctxs \<Rightarrow> in_range (ss_ctx st) ctxs"
  shows "\<exists>st' k'. wd_sched_set_param rg st a params = Some st' \<and> st_inv st' \<and> same_domains (ss_ctx st) (ss_ctx st') \<and>
    ss_keys st' = (ss_keys st)(a \<mapsto> k') \<and>
    (case (wp_alg_name params, wp_ctxs params) of
       (Some alg, Some ctxs) \<Rightarrow> list_all (slot_ok rg ctxs alg) (cache_ctxs (kd_idx_cache (sk_sync_domain k'))) \<and>
         list_all (slot_ok rg ctxs alg) (cache_ctxs (kd_idx_cache (sk_async_domain k')))
     | _ \<Rightarrow> sk_sync_domain k' = sk_sync_domain k \<and> sk_async_domain k' = sk_async_domain k)"
proof -
  let ?c = "ss_ctx st"
  let ?k = "k\<lparr>sk_pkt_size := wp_pkt_size params, sk_is_stream := wp_data_mode params,
     sk_prio_mode := wp_prio_mode params, sk_alg_name := wp_alg_name params, sk_ctxs := wp_ctxs params\<rparr>"
  have tbl: "sc_tbl_inv ?c" and k: "key_ok ?c ?k" using st a by (auto simp: st_inv_def key_ok_def)
  note eq = wd_sched_set_param_def [of rg st a params, unfolded a option.case Let_def]
  show ?thesis
  proof (cases "wp_alg_name params = None \<or> wp_ctxs params = None")
    case True
    have inv: "st_inv (st\<lparr>ss_ctx := ?c, ss_keys := (ss_keys st)(a \<mapsto> ?k)\<rparr>)"
      by (rule st_inv_upd [OF st a tbl same_domains_refl k])
    have "wd_sched_set_param rg st a params = Some (st\<lparr>ss_keys := (ss_keys st)(a \<mapsto> ?k)\<rparr>)"
      unfolding eq using True by auto
    then show ?thesis using inv True
      by (intro exI [of _ "st\<lparr>ss_keys := (ss_keys st)(a \<mapsto> ?k)\<rparr>"] exI [of _ ?k]) (auto split: option.split)
  next
    case False
    then obtain alg ctxs where p: "wp_alg_name params = Some alg" "wp_ctxs params = Some ctxs" by auto
    have kp: "sk_alg_name ?k = Some alg" "sk_ctxs ?k = Some ctxs" using p by simp_all
    have rng: "in_range ?c ctxs" using rng p by simp
    have "key_dom_ok ?c (sk_region_id ?k) (sk_type ?k) SCHED_MODE_SYNC (sk_sync_domain ?k)"
      using k unfolding key_ok_def by blast
    from compat_filter_spec [OF tbl kp rng this, of rg] obtain c1 d1 where
      f1: "wd_sched_skey_compat_filter rg ?c ?k (sk_sync_domain ?k) SCHED_MODE_SYNC = Some (c1, d1)"
        "sc_tbl_inv c1" "same_domains ?c c1" "key_dom_ok c1 (sk_region_id ?k) (sk_type ?k) SCHED_MODE_SYNC d1"
        "list_all (slot_ok rg ctxs alg) (cache_ctxs (kd_idx_cache d1))" by blast
    let ?k1 = "?k\<lparr>sk_sync_domain := d1\<rparr>"
    have kp1: "sk_alg_name ?k1 = Some alg" "sk_ctxs ?k1 = Some ctxs" using p by simp_all
    have rng1: "in_range c1 ctxs" using rng in_range_same [OF f1(3)] by simp
    have "key_dom_ok c1 (sk_region_id ?k1) (sk_type ?k1) SCHED_MODE_ASYNC (sk_async_domain ?k1)"
      using key_ok_same [OF f1(3) k] by (simp add: key_ok_def)
    from compat_filter_spec [OF f1(2) kp1 rng1 this, of rg] obtain c2 d2 where
      f2: "wd_sched_skey_compat_filter rg c1 ?k1 (sk_async_domain ?k1) SCHED_MODE_ASYNC = Some (c2, d2)"
        "sc_tbl_inv c2" "same_domains c1 c2" "key_dom_ok c2 (sk_region_id ?k1) (sk_type ?k1) SCHED_MODE_ASYNC d2"
        "list_all (slot_ok rg ctxs alg) (cache_ctxs (kd_idx_cache d2))" by blast
    let ?k2 = "?k1\<lparr>sk_async_domain := d2\<rparr>"
    have k2: "key_ok c2 ?k2" using f2(4) key_dom_ok_same [OF f2(3) f1(4)] by (simp add: key_ok_def)
    have same: "same_domains ?c c2" by (rule same_domains_trans [OF f1(3) f2(3)])
    have "wd_sched_set_param rg st a params = Some (st\<lparr>ss_ctx := c2, ss_keys := (ss_keys st)(a \<mapsto> ?k2)\<rparr>)"
      unfolding eq using p f1(1) f2(1) by simp
    then show ?thesis using st_inv_upd [OF st a f2(2) same k2] same p f1(5) f2(5)
      by (intro exI [of _ "st\<lparr>ss_ctx := c2, ss_keys := (ss_keys st)(a \<mapsto> ?k2)\<rparr>"] exI [of _ ?k2]) simp
  qed
qed


subsection \<open>Polling\<close>

lemma i32_acc: "i32 (i32 a + b) = i32 (a + b)" and i32_sub_acc: "i32 (i32 a - b) = i32 (a - b)"
proof -
  have "((a + 2 ^ 31) mod 2 ^ 32 - 2 ^ 31 + b + 2 ^ 31) mod 2 ^ 32 = (a + b + 2 ^ 31) mod (2 ^ 32 :: int)"
    by (simp add: mod_simps algebra_simps)
  then show "i32 (i32 a + b) = i32 (a + b)" by (simp add: i32_def)
  have "((a + 2 ^ 31) mod 2 ^ 32 - 2 ^ 31 - b + 2 ^ 31) mod 2 ^ 32 = (a - b + 2 ^ 31) mod (2 ^ 32 :: int)"
    by (simp add: mod_simps algebra_simps)
  then show "i32 (i32 a - b) = i32 (a - b)" by (simp add: i32_def)
qed

lemma i32_u32: "i32 (a + int (u32 n)) = i32 (a + int n)"
proof -
  have "(a + int n mod 2 ^ 32 + 2 ^ 31) mod 2 ^ 32 = (a + int n + 2 ^ 31) mod (2 ^ 32 :: int)"
    by (metis mod_add_cong mod_add_right_eq mod_mod_trivial)
  then show ?thesis by (simp add: i32_def u32_def zmod_int)
qed

text \<open>
  One pass over the contexts always ends; the contexts of the cache stay, and what the pass counts as
  received is what it takes off the pending counter, modulo the width of the two.
\<close>

definition poll_post :: "wd_sched_key_domain \<Rightarrow> nat \<Rightarrow> int + nat \<Rightarrow> wd_sched_key_domain \<Rightarrow> bool" where
  "poll_post d s r d' \<longleftrightarrow> cache_inv (kd_idx_cache d') \<and>
     cache_ctxs (kd_idx_cache d') = cache_ctxs (kd_idx_cache d) \<and>
     dc_policy (kd_idx_cache d') = dc_policy (kd_idx_cache d) \<and>
     dc_valid_count (kd_idx_cache d') = dc_valid_count (kd_idx_cache d) \<and>
     (i32 (kd_pending_count d) = kd_pending_count d \<longrightarrow> i32 (kd_pending_count d') = kd_pending_count d') \<and>
     (case r of Inl e \<Rightarrow> e < 0 \<and> e \<noteq> - EAGAIN
      | Inr n \<Rightarrow> i32 (kd_pending_count d' + int n) = i32 (kd_pending_count d + int s) \<and> (s < 2 ^ 32 \<longrightarrow> n < 2 ^ 32))"

lemma poll_post_step:
  assumes "poll_post d1 s1 r d'" and "cache_ctxs (kd_idx_cache d1) = cache_ctxs (kd_idx_cache d)"
    and "dc_policy (kd_idx_cache d1) = dc_policy (kd_idx_cache d)"
    and "dc_valid_count (kd_idx_cache d1) = dc_valid_count (kd_idx_cache d)"
    and "i32 (kd_pending_count d1 + int s1) = i32 (kd_pending_count d + int s)" and "s < 2 ^ 32 \<Longrightarrow> s1 < 2 ^ 32"
    and "i32 (kd_pending_count d) = kd_pending_count d \<Longrightarrow> i32 (kd_pending_count d1) = kd_pending_count d1"
  shows "poll_post d s r d'"
  using assms by (auto simp: poll_post_def split: sum.splits)

lemma poll_slots_spec:
  assumes "cache_inv (kd_idx_cache d)" and "\<forall>i \<in> set is. i < dc_valid_count (kd_idx_cache d)"
  shows "\<exists>r d' w'. poll_slots poll expect is d s w = Some (r, d', w') \<and> poll_post d s r d'"
  using assms
proof (induction "is" arbitrary: d s w)
  case Nil
  then show ?case by (simp add: poll_post_def)
next
  case (Cons i "is")
  let ?c = "kd_idx_cache d" and ?goal = "\<lambda>x. \<exists>r d' w'. x = Some (r, d', w') \<and> poll_post d s r d'"
  have i: "i < dc_valid_count ?c" and len: "i < length (dc_load_values ?c)" "i < length (dc_idx_list ?c)"
    using Cons.prems by (auto simp: cache_inv_def)
  let ?h = "dc_policy ?c = SCHED_POLICY_HUNGRY"
  obtain ret n w1 where p: "poll (dc_idx_list ?c ! i) expect 0 w = (ret, n, w1)" by (metis prod_cases3)
  define d1 where "d1 = (if n > 0 then d\<lparr>kd_pending_count := i32 (kd_pending_count d - int n)\<rparr> else d)"
  define s1 where "s1 = (if n > 0 then u32 (s + n) else s)"
  have sum: "i32 (kd_pending_count d1 + int s1) = i32 (kd_pending_count d + int s)"
    by (simp add: d1_def s1_def i32_u32 i32_acc)
  have s1: "s < 2 ^ 32 \<Longrightarrow> s1 < 2 ^ 32" by (simp add: u32_def s1_def)
  have rng: "i32 (kd_pending_count d) = kd_pending_count d \<Longrightarrow> i32 (kd_pending_count d1) = kd_pending_count d1"
    using i32_acc [of _ 0] by (simp add: d1_def)
  have c1: "kd_idx_cache d1 = ?c" by (simp add: d1_def)
  have fin: "?goal (poll_slots poll expect is d2 s1 w1)"
    if d2: "cache_inv (kd_idx_cache d2)" "cache_ctxs (kd_idx_cache d2) = cache_ctxs ?c"
      "dc_policy (kd_idx_cache d2) = dc_policy ?c" "dc_valid_count (kd_idx_cache d2) = dc_valid_count ?c"
      "kd_pending_count d2 = kd_pending_count d1" for d2
  proof -
    have "\<forall>i \<in> set is. i < dc_valid_count (kd_idx_cache d2)" using Cons.prems(2) d2(4) by simp
    from Cons.IH [OF d2(1) this, of s1 w1] poll_post_step [OF _ d2(2-4)] sum s1 rng d2(5) show ?thesis by metis
  qed
  show ?case
  proof (cases "?h \<and> dc_load_values ?c ! i = 0")
    case True
    then have "poll_slots poll expect (i # is) d s w = poll_slots poll expect is d s w" using len by simp
    with Cons.IH [OF Cons.prems(1), of s w] Cons.prems(2) show ?thesis by simp
  next
    case go: False
    show ?thesis
    proof (cases "ret < 0 \<and> ret \<noteq> - EAGAIN")
      case True
      then show ?thesis using go len p Cons.prems(1) by (auto simp: Let_def poll_post_def)
    next
      case ok: False
      show ?thesis
      proof (cases "?h \<and> n > 0")
        case False
        then have "poll_slots poll expect (i # is) d s w = poll_slots poll expect is d1 s1 w1"
          using go ok len p by (auto simp: Let_def d1_def s1_def)
        with fin [of d1] c1 Cons.prems(1) show ?thesis by presburger
      next
        case True
        from update_load_spec [OF Cons.prems(1) i, of "i32 (- int n)"] obtain y where
          y: "wd_sched_skey_update_load ?c i (i32 (- int n)) = Some y" "cache_inv y" "cache_ctxs y = cache_ctxs ?c"
            "dc_valid_count y = dc_valid_count ?c" "dc_policy y = dc_policy ?c" by blast
        have "poll_slots poll expect (i # is) d s w = poll_slots poll expect is (d1\<lparr>kd_idx_cache := y\<rparr>) s1 w1"
          using True go ok len p y(1) by (auto simp: Let_def d1_def s1_def)
        with fin [of "d1\<lparr>kd_idx_cache := y\<rparr>"] y show ?thesis by simp
      qed
    qed
  qed
qed

text \<open>The callback is called for contexts of the cache only.\<close>

lemma poll_slots_cong:
  assumes "cache_inv (kd_idx_cache d)" and "\<forall>i \<in> set is. i < dc_valid_count (kd_idx_cache d)"
    and "\<And>i. i \<in> set (cache_ctxs (kd_idx_cache d)) \<Longrightarrow> poll i = poll' i"
  shows "poll_slots poll expect is d s w = poll_slots poll' expect is d s w"
  using assms
proof (induction "is" arbitrary: d s w)
  case (Cons i "is")
  let ?c = "kd_idx_cache d"
  have i: "i < dc_valid_count ?c" and len: "i < length (dc_load_values ?c)" "i < length (dc_idx_list ?c)"
    using Cons.prems by (auto simp: cache_inv_def)
  have "cache_ctxs ?c ! i \<in> set (cache_ctxs ?c)" using Cons.prems(1) i by (intro nth_mem) simp
  then have eq: "poll (dc_idx_list ?c ! i) = poll' (dc_idx_list ?c ! i)"
    using Cons.prems(3) i by (simp add: cache_ctxs_def)
  obtain ret n w1 where p: "poll (dc_idx_list ?c ! i) expect 0 w = (ret, n, w1)" by (metis prod_cases3)
  have IH: "poll_slots poll expect is d2 s2 w2 = poll_slots poll' expect is d2 s2 w2"
    if "cache_inv (kd_idx_cache d2)" "cache_ctxs (kd_idx_cache d2) = cache_ctxs ?c"
      "dc_valid_count (kd_idx_cache d2) = dc_valid_count ?c" for d2 s2 w2
    using Cons.IH [of d2 s2 w2] Cons.prems(2,3) that by simp
  from update_load_spec [OF Cons.prems(1) i, of "i32 (- int n)"] obtain y where
    y: "wd_sched_skey_update_load ?c i (i32 (- int n)) = Some y" "cache_inv y" "cache_ctxs y = cache_ctxs ?c"
      "dc_valid_count y = dc_valid_count ?c" by blast
  show ?case using Cons.prems(1) eq [symmetric] p len y IH by (auto simp: Let_def)
qed simp

lemma poll_skey_spec:
  assumes k: "key_ok c k"
  shows "\<exists>r d' w'. wd_sched_poll_skey poll k expect w = Some (r, k\<lparr>sk_async_domain := d'\<rparr>, w') \<and>
    poll_post (sk_async_domain k) 0 r d' \<and> key_ok c (k\<lparr>sk_async_domain := d'\<rparr>)"
proof -
  let ?d = "sk_async_domain k"
  have inv: "cache_inv (kd_idx_cache ?d)" using k by (simp add: key_ok_def key_dom_ok_def)
  have "\<forall>i \<in> set [0 ..< dc_valid_count (kd_idx_cache ?d)]. i < dc_valid_count (kd_idx_cache ?d)" by simp
  from poll_slots_spec [OF inv this, of poll expect 0 w] obtain r d' w' where
    p: "poll_slots poll expect [0 ..< dc_valid_count (kd_idx_cache ?d)] ?d 0 w = Some (r, d', w')" "poll_post ?d 0 r d'" by blast
  moreover have "key_ok c (k\<lparr>sk_async_domain := d'\<rparr>)"
    using k p(2) by (simp add: key_ok_def key_dom_ok_def poll_post_def)
  ultimately show ?thesis
    by (intro exI [of _ r] exI [of _ d'] exI [of _ w']) (simp add: wd_sched_poll_skey_def)
qed

lemma poll_sessions_inv:
  assumes "st_inv st" and "\<forall>t \<in> set ts. t < SKEY_MAX_THREAD_NUM"
  shows "\<exists>r st' w'. poll_sessions poll expect ts st s w = Some (r, st', w') \<and> st_inv st' \<and> ss_ctx st' = ss_ctx st"
  using assms
proof (induction ts arbitrary: st s w)
  case (Cons t ts)
  have slots: "slots_inv (ss_ctx st) (ss_keys st)" and tbl: "sc_tbl_inv (ss_ctx st)"
    using Cons.prems(1) by (simp_all add: st_inv_def)
  then have t: "t < length (sc_skey (ss_ctx st))" using Cons.prems(2) by (simp add: slots_inv_def)
  have ts: "\<forall>t \<in> set ts. t < SKEY_MAX_THREAD_NUM" using Cons.prems(2) by simp
  note IH = Cons.IH [OF _ ts]
  show ?case
  proof (cases "sc_skey (ss_ctx st) ! t")
    case None
    then show ?thesis using t IH [OF Cons.prems(1), of s w] by simp
  next
    case (Some a)
    then have "Some a \<in> set (sc_skey (ss_ctx st))" using t by (metis nth_mem)
    then have "a \<in> dom (ss_keys st)" using slots by (simp add: slots_inv_def flip: set_occupied)
    then obtain k where a: "ss_keys st a = Some k" by blast
    then have k: "key_ok (ss_ctx st) k" using Cons.prems(1) by (simp add: st_inv_def)
    show ?thesis
    proof (cases "kd_pending_count (sk_async_domain k) \<le> 0")
      case True
      then show ?thesis using t Some a IH [OF Cons.prems(1), of s w] by simp
    next
      case False
      from poll_skey_spec [OF k, of poll expect w] obtain r d' w' where
        p: "wd_sched_poll_skey poll k expect w = Some (r, k\<lparr>sk_async_domain := d'\<rparr>, w')"
          "key_ok (ss_ctx st) (k\<lparr>sk_async_domain := d'\<rparr>)" by blast
      let ?st = "st\<lparr>ss_keys := (ss_keys st)(a \<mapsto> k\<lparr>sk_async_domain := d'\<rparr>)\<rparr>"
      have inv: "st_inv ?st" using st_inv_upd [OF Cons.prems(1) a tbl same_domains_refl p(2)] by simp
      show ?thesis
      proof (cases r)
        case (Inl e)
        then show ?thesis using t Some a False p(1) inv by simp
      next
        case (Inr n)
        then show ?thesis using t Some a False p(1) inv IH [OF inv, of "u32 (s + n)" w'] by (simp add: Let_def)
      qed
    qed
  qed
qed simp

text \<open>Sessions without pending requests are passed over: nothing changes and no callback runs.\<close>

lemma poll_sessions_idle:
  assumes "st_inv st" and "\<forall>t \<in> set ts. t < SKEY_MAX_THREAD_NUM"
    and "\<And>a k. ss_keys st a = Some k \<Longrightarrow> kd_pending_count (sk_async_domain k) \<le> 0"
  shows "poll_sessions poll expect ts st s w = Some (Inr s, st, w)"
  using assms
proof (induction ts)
  case (Cons t ts)
  have slots: "slots_inv (ss_ctx st) (ss_keys st)" using Cons.prems(1) by (simp add: st_inv_def)
  then have t: "t < length (sc_skey (ss_ctx st))" using Cons.prems(2) by (simp add: slots_inv_def)
  have "a \<in> dom (ss_keys st)" if "sc_skey (ss_ctx st) ! t = Some a" for a
    using slots that t by (metis nth_mem set_occupied slots_inv_def)
  then show ?case using Cons t by (auto split: option.split)
qed simp

subsection \<open>Every sequence of operations\<close>

lemma pick_next_ctx_inv:
  assumes st: "st_inv st" and a: "ss_keys st a = Some k" and m: "m < SCHED_MODE_BUTT"
    and pol: "pol < SCHED_POLICY_BUTT" "pol \<noteq> SCHED_POLICY_NONE" "pol \<noteq> SCHED_POLICY_SINGLE"
  shows "\<exists>i st'. pick_next_ctx pol (Some st) (Some a) m = Some (i, Some st') \<and> keeps st st' \<and>
    (i = INVALID_POS \<or> i = QUEUE_FULL_POS \<or> i \<in> mode_ctxs (ss_ctx st) k m)"
proof -
  have m: "m < 2" using m by (simp add: sched_consts)
  have "pol = SCHED_POLICY_RR \<or> pol = SCHED_POLICY_DEV \<or> pol = SCHED_POLICY_LOOP \<or> pol = SCHED_POLICY_HUNGRY \<or>
      pol = SCHED_POLICY_INSTR"
    using pol by (auto simp: sched_policy_defs)
  then consider "pick_next_ctx pol (Some st) (Some a) m = round_robin_pick_next_ctx (Some st) (Some a) m"
    | "pick_next_ctx pol (Some st) (Some a) m = skey_sched_pick_next_ctx (Some st) (Some a) m"
    | "pick_next_ctx pol (Some st) (Some a) m = instr_sched_pick_next_ctx (Some st) (Some a) m"
    by (auto simp: pick_next_ctx_def loop_sched_pick_next_ctx_def sched_policy_defs)
  then show ?thesis
  proof cases
    case 1
    then show ?thesis using rr_pick_inv(1) [OF st a m] by (auto simp: keeps_def)
  next
    case 2
    then show ?thesis using hungry_pick_inv [OF st a m] same_domainsD by (auto simp: keeps_def)
  next
    case 3
    then show ?thesis using rr_pick_inv(2) [OF st a m] by (auto simp: keeps_def)
  qed
qed

lemma poll_policy_inv:
  assumes st: "st_inv st"
  shows "\<exists>r tls' st' w'. round_robin_poll_policy pf tls st expect w = Some (r, tls', st', w') \<and> keeps st st'"
    and "\<exists>r tls' st' w'. skey_sched_poll_policy pf tls st expect w = Some (r, tls', st', w') \<and> keeps st st'"
proof -
  obtain tidx tls1 where tls: "sched_get_poll_skey_tidx (ss_ctx st) (fst tls) (snd tls) = (tidx, tls1)"
    by (cases "sched_get_poll_skey_tidx (ss_ctx st) (fst tls) (snd tls)")
  have loop: "\<exists>r st' w'. poll_sessions poll expect (map (\<lambda>i. f i mod SKEY_MAX_THREAD_NUM) xs) st 0 w = Some (r, st', w') \<and> keeps st st'"
    for poll f and xs :: "nat list"
  proof -
    have "\<forall>t \<in> set (map (\<lambda>i. f i mod SKEY_MAX_THREAD_NUM) xs). t < SKEY_MAX_THREAD_NUM" by (simp add: SKEY_MAX_THREAD_NUM_def)
    from poll_sessions_inv [OF st this, of poll expect 0 w] show ?thesis by (auto simp: keeps_def)
  qed
  show "\<exists>r tls' st' w'. round_robin_poll_policy pf tls st expect w = Some (r, tls', st', w') \<and> keeps st st'"
  proof (cases pf)
    case (Some poll)
    from loop [of poll "\<lambda>i. u16 tidx + i" "[0 ..< SKEY_MAX_THREAD_NUM]"] obtain r st' w' where
      "poll_sessions poll expect (map (\<lambda>i. (u16 tidx + i) mod SKEY_MAX_THREAD_NUM) [0 ..< SKEY_MAX_THREAD_NUM]) st 0 w =
        Some (r, st', w')" "keeps st st'" by blast
    then show ?thesis using Some keeps_refl [OF st] tls
      by (cases r) (simp_all add: round_robin_poll_policy_def Let_def)
  qed (simp add: round_robin_poll_policy_def keeps_refl [OF st])
  show "\<exists>r tls' st' w'. skey_sched_poll_policy pf tls st expect w = Some (r, tls', st', w') \<and> keeps st st'"
  proof (cases pf)
    case (Some poll)
    from loop [of poll "\<lambda>i. u32 (tidx + i)" "[0 ..< SKEY_MAX_THREAD_NUM]"] obtain r st' w' where
      "poll_sessions poll expect (map (\<lambda>i. u32 (tidx + i) mod SKEY_MAX_THREAD_NUM) [0 ..< SKEY_MAX_THREAD_NUM]) st 0 w =
        Some (r, st', w')" "keeps st st'" by blast
    then show ?thesis using Some keeps_refl [OF st] tls
      by (cases r) (simp_all add: skey_sched_poll_policy_def Let_def)
  qed (simp add: skey_sched_poll_policy_def keeps_refl [OF st])
qed

lemma session_init_keeps:
  assumes st: "st_inv st" and fresh: "\<And>a. malloc = Some a \<Longrightarrow> ss_keys st a = None"
    and dev: "pol = SCHED_POLICY_DEV \<Longrightarrow> param \<noteq> None"
  shows "\<exists>r st'. sched_init pol cpu malloc locks st param = Some (r, st') \<and> keeps st st'"
proof -
  have same: "instr_sched_init cpu malloc locks st param = round_robin_sched_init cpu malloc locks st param"
    "loop_sched_init cpu malloc locks st param = skey_sched_init cpu malloc locks st param"
    by (simp_all add: instr_sched_init_def round_robin_sched_init_def loop_sched_init_def skey_sched_init_def)
  note inits = sessions_init_inv [OF st fresh, where cpu = cpu and locks = locks and param = param]
  have lift: "\<exists>r st'. map_option (\<lambda>(r, st). (case r of Inl e \<Rightarrow> Inl e | Inr a \<Rightarrow> Inr (Some a), st)) x = Some (r, st') \<and> keeps st st'"
    if "\<exists>r st'. x = Some (r, st') \<and> keeps st st'" for x :: "(nat result \<times> sched_state) option" using that by auto
  show ?thesis
    using lift [OF inits(1)] lift [OF inits(2)] lift [OF inits(3)] dev keeps_refl [OF st]
    by (simp add: sched_init_def same Let_def)
qed

text \<open>
  The operations of an application on a scheduler: opening, parametrising and closing sessions,
  sending and polling. The registry and the poll callback are fixed.
\<close>

inductive sched_step :: "wd_alg_registry \<Rightarrow> 'w poll_func option \<Rightarrow> sched_state \<Rightarrow> sched_state \<Rightarrow> bool"
  for rg :: wd_alg_registry and poll :: "'w poll_func option" where
  step_init: "sched_init (sc_policy (ss_ctx st)) cpu malloc locks st param = Some (r, st') \<Longrightarrow>
    case_option True (\<lambda>a. ss_keys st a = None) malloc \<Longrightarrow>
    sc_policy (ss_ctx st) \<noteq> SCHED_POLICY_DEV \<or> param \<noteq> None \<Longrightarrow> sched_step rg poll st st'"
| step_uninit: "ss_keys st a = Some k \<Longrightarrow> sched_session_uninit st (Some a) = Some st' \<Longrightarrow> sched_step rg poll st st'"
| step_param: "ss_keys st a = Some k \<Longrightarrow> case_option True (in_range (ss_ctx st)) (wp_ctxs params) \<Longrightarrow>
    wd_sched_set_param rg st a params = Some st' \<Longrightarrow> sched_step rg poll st st'"
| step_pick: "ss_keys st a = Some k \<Longrightarrow> m < SCHED_MODE_BUTT \<Longrightarrow>
    pick_next_ctx (sc_policy (ss_ctx st)) (Some st) (Some a) m = Some (i, Some st') \<Longrightarrow> sched_step rg poll st st'"
| step_poll: "round_robin_poll_policy poll tls st expect w = Some (n, tls', st', w') \<Longrightarrow> sched_step rg poll st st'"
| step_skey_poll: "skey_sched_poll_policy poll tls st expect w = Some (n, tls', st', w') \<Longrightarrow> sched_step rg poll st st'"

inductive_cases sched_stepE: "sched_step rg poll st st'"

lemma sched_step_keeps: "sched_step rg poll st st' \<Longrightarrow> st_inv st \<Longrightarrow> keeps st st'"
proof (induction rule: sched_step.induct)
  case (step_init st cpu malloc locks param r st')
  have "\<And>a. malloc = Some a \<Longrightarrow> ss_keys st a = None" using step_init(2) by simp
  moreover have "sc_policy (ss_ctx st) = SCHED_POLICY_DEV \<Longrightarrow> param \<noteq> None" using step_init(3) by simp
  ultimately obtain r2 st2 where
    "sched_init (sc_policy (ss_ctx st)) cpu malloc locks st param = Some (r2, st2)" "keeps st st2"
    using session_init_keeps [OF step_init(4), of malloc] by blast
  then show ?case using step_init(1) by simp
next
  case (step_uninit st a k st')
  from session_uninit_inv [OF step_uninit(3,1)] obtain st1 where
    s: "sched_session_uninit st (Some a) = Some st1" "st_inv st1"
      "\<forall>q. sc_ctxs (ss_ctx st1) q = sc_ctxs (ss_ctx st) q" by blast
  have "st1 = st'" using s(1) step_uninit(2) by simp
  moreover have "sc_policy (ss_ctx st1) = sc_policy (ss_ctx st)"
    using s(1) step_uninit(1) by (auto simp: sched_session_uninit_def sched_skey_param_uninit_def Let_def split: option.splits)
  ultimately show ?case using s(2,3) unfolding keeps_def by blast
next
  case (step_param st a k params st')
  from set_param_inv [OF step_param(4,1,2), of rg] step_param(3) same_domainsD show ?case
    by (auto simp: keeps_def)
next
  case (step_pick st a k m i st')
  let ?p = "sc_policy (ss_ctx st)"
  have pol: "?p < SCHED_POLICY_BUTT" using step_pick(4) by (simp add: st_inv_def)
  show ?case
  proof (cases "?p = SCHED_POLICY_NONE \<or> ?p = SCHED_POLICY_SINGLE")
    case True
    then have "st' = st" using step_pick(3) by (auto simp: pick_next_ctx_def sched_policy_defs)
    then show ?thesis using keeps_refl [OF step_pick(4)] by simp
  next
    case False
    then show ?thesis using pick_next_ctx_inv [OF step_pick(4,1,2) pol] step_pick(3) by auto
  qed
next
  case (step_poll tls st expect w n tls' st' w')
  then show ?case using poll_policy_inv(1) [OF step_poll(2), of poll tls expect w] by auto
next
  case (step_skey_poll tls st expect w n tls' st' w')
  then show ?case using poll_policy_inv(2) [OF step_skey_poll(2), of poll tls expect w] by auto
qed

lemma sched_steps_keep:
  assumes "(sched_step rg poll)\<^sup>*\<^sup>* st st'" and "st_inv st"
  shows "keeps st st'"
  using assms
proof (induction rule: rtranclp_induct)
  case base
  then show ?case by (rule keeps_refl)
next
  case (step y z)
  have y: "keeps st y" using step by simp
  then have "st_inv y" by (simp add: keeps_def)
  from sched_step_keeps [OF step.hyps(2) this] show ?case by (rule keeps_trans [OF y])
qed

lemma alloc_st_inv:
  assumes "wd_sched_rr_alloc oks lock_ok nmax ty tn rn = Some (Some c)" and c': "sc_tbl_inv c'" "\<exists>h. c' = c\<lparr>sc_domain_hash_table := h\<rparr>"
  shows "st_inv \<lparr>ss_ctx = c', ss_keys = Map.empty\<rparr>"
proof -
  note al = rr_alloc_spec [OF assms(1)]
  have "occupied (replicate n None) = []" for n by (induction n) (simp_all add: occupied_def)
  then show ?thesis using al c' by (auto simp: st_inv_def slots_inv_def)
qed

lemma instances_frame: "instances ps c = Some c' \<Longrightarrow> \<exists>h. c' = c\<lparr>sc_domain_hash_table := h\<rparr>"
proof (induction ps arbitrary: c)
  case Nil
  then show ?case by (intro exI [of _ "sc_domain_hash_table c"]) simp
next
  case (Cons p ps)
  then obtain c1 where c1: "wd_sched_rr_instance [] True 0 (Some c) (Some p) = Some (Inr (), Some c1)" "instances ps c1 = Some c'"
    by (auto split: option.splits prod.splits sum.splits)
  have "\<exists>h. c1 = c\<lparr>sc_domain_hash_table := h\<rparr>"
    using c1(1) by (auto simp: wd_sched_rr_instance_def Let_def split: if_splits option.splits prod.splits sum.splits)
  with Cons.IH [OF c1(2)] show ?case by auto
qed

subsection \<open>A small scheduler\<close>

text \<open>
  A round-robin scheduler with one region and one type, three contexts for each mode, and one session,
  for the witnesses below.
\<close>

definition demo_params :: "nat \<Rightarrow> sched_params" where
  "demo_params m = \<lparr>sp_numa_id = 0, sp_type = 0, sp_mode = m, sp_begin = m * 3, sp_end = m * 3 + 2, sp_dev_id = 0, sp_ctx_prop = 0\<rparr>"

lemma find_prime_32: "wd_sched_find_prime 32 = Some 37"
  by (simp add: wd_sched_find_prime.simps wd_sched_is_prime_def is_prime_loop.simps u32_def)

definition demo_ctx :: "nat \<Rightarrow> wd_sched_ctx" where
  "demo_ctx pol = \<lparr>sc_policy = pol, sc_type_num = 1, sc_mode_num = 2, sc_region_num = 1,
     sc_domain_hash_table = Some \<lparr>ht_buckets = replicate 37 [], ht_bucket_size = 37, ht_entry_count = 0, ht_max_chain_length = 0\<rparr>,
     sc_skey_num = 0, sc_skey = replicate 64 None\<rparr>"

lemma demo_alloc:
  "pol = SCHED_POLICY_RR \<or> pol = SCHED_POLICY_HUNGRY \<Longrightarrow> wd_sched_rr_alloc [] True 0 pol 1 1 = Some (Some (demo_ctx pol))"
  by (auto simp: wd_sched_rr_alloc_def demo_ctx_def wd_sched_hash_table_create_def wd_sched_compute_bucket_size_def
      WD_SCHED_MAX_BUCKETS_def WD_SCHED_MIN_BUCKETS_def SCHED_MODE_BUTT_def UADK_ALG_TYPE_MAX_def u32_def
      find_prime_32 sched_policy_defs numa_num_check_def SKEY_MAX_THREAD_NUM_def)


lemma demo_instances:
  "pol = SCHED_POLICY_RR \<or> pol = SCHED_POLICY_HUNGRY \<Longrightarrow>
    \<exists>c'. instances [demo_params 0, demo_params 1] (demo_ctx pol) = Some c' \<and> sc_tbl_inv c' \<and>
      sc_ctxs c' (0, 0, 0, 0) = [0, 1, 2] \<and> sc_ctxs c' (0, 1, 0, 0) = [3, 4, 5]"
proof -
  assume "pol = SCHED_POLICY_RR \<or> pol = SCHED_POLICY_HUNGRY"
  note al = rr_alloc_spec [OF demo_alloc [OF this]]
  have k: "filed_key (demo_params m) = (0, m, 0, 0)" for m
    by (simp add: filed_key_def demo_params_def UADK_ALG_SOFT_def UADK_ALG_HW_def)
  have t: "sc_domain_hash_table (demo_ctx pol) = Some \<lparr>ht_buckets = replicate 37 [], ht_bucket_size = 37, ht_entry_count = 0, ht_max_chain_length = 0\<rparr>"
    by (simp add: demo_ctx_def)
  have ok: "\<forall>p \<in> set [demo_params 0, demo_params 1]. inst_ok (demo_ctx pol) p"
    by (simp add: inst_ok_def demo_params_def demo_ctx_def INVALID_POS_def SCHED_MODE_BUTT_def)
  have "\<forall>k. length (sc_ctxs (demo_ctx pol) k) + sum_list (map (\<lambda>p. sp_end p - sp_begin p + 1) [demo_params 0, demo_params 1]) < 2 ^ 32"
    using al by (simp add: demo_params_def)
  from instances_spec [OF _ _ t ok this] al obtain c' where
    c': "instances [demo_params 0, demo_params 1] (demo_ctx pol) = Some c'" "sc_tbl_inv c'"
    "\<forall>k. sc_ctxs c' k = sc_ctxs (demo_ctx pol) k @ concat (map (\<lambda>p. [sp_begin p ..< Suc (sp_end p)])
       (filter (\<lambda>p. filed_key p = k) [demo_params 0, demo_params 1]))" by blast
  have "sc_ctxs (demo_ctx pol) q = []" for q using al by blast
  then have "sc_ctxs c' (0, 0, 0, 0) = [0, 1, 2]" "sc_ctxs c' (0, 1, 0, 0) = [3, 4, 5]"
    using c'(3) by (simp_all add: k) (simp_all add: demo_params_def upt_rec)
  with c' show ?thesis by blast
qed

subsection \<open>Opening a session succeeds\<close>

lemma init_ctx_some:
  assumes inv: "sc_tbl_inv c" and k: "sk_region_id k < int (sc_region_num c)" "m < SCHED_MODE_BUTT"
      "sk_type k < sc_type_num c" "sk_ctx_prop k < UADK_ALG_TYPE_MAX"
    and ne: "sc_ctxs c (sk_region_id k, m, sk_type k, sk_ctx_prop k) \<noteq> []"
  shows "\<exists>i c'. session_sched_init_ctx c k m = Some (i, c') \<and> sc_tbl_inv c' \<and> same_domains c c' \<and> i \<noteq> INVALID_POS \<and>
    i \<in> set (sc_ctxs c (sk_region_id k, m, sk_type k, sk_ctx_prop k))"
proof -
  let ?q = "(sk_region_id k, m, sk_type k, sk_ctx_prop k)"
  from ne obtain t d where t: "sc_domain_hash_table c = Some t" and d: "ht_look t ?q = Some d" "cd_valid d" "dom_ctxs d \<noteq> []"
    unfolding sc_ctxs_def sc_look_def by (auto split: option.splits if_splits)
  have ht: "ht_inv t" using inv t by (simp add: sc_tbl_inv_def)
  have dinv: "dom_inv d" using sc_tbl_invD [OF inv t d(1)] .
  from next_rr_step [OF dinv d(3)] obtain d' where
    step: "wd_sched_domain_get_next_rr (Some d) = Some (dom_ctxs d ! dom_cursor d, Some d')"
    and cur: "dom_cursor d < length (dom_ctxs d)" by blast
  then have "dom_ctxs d ! dom_cursor d \<in> set (dom_ctxs d)" by simp
  then have "dom_ctxs d ! dom_cursor d \<noteq> INVALID_POS" using dom_ctxs_valid_pos [OF dinv] by fastforce
  moreover have "session_sched_init_ctx c k m =
      Some (dom_ctxs d ! dom_cursor d, c\<lparr>sc_domain_hash_table := Some (domain_store t d')\<rparr>)"
    using k t d step by (simp add: session_sched_init_ctx_def lookup_ht_look [OF ht])
  ultimately show ?thesis using init_ctx_spec [OF inv, of k m] by auto
qed

lemma domain_init_total:
  assumes "i \<noteq> INVALID_POS"
  shows "\<exists>d'. wd_sched_skey_domain_init [] d i pol = Some (Inr (), d', []) \<and> cache_inv (kd_idx_cache d') \<and>
    cache_ctxs (kd_idx_cache d') = [i] \<and> dc_policy (kd_idx_cache d') = pol \<and> kd_pending_count d' = kd_pending_count d"
proof -
  from domain_init_spec [OF assms, of "[]" d pol] obtain r d' l' where
    p: "wd_sched_skey_domain_init [] d i pol = Some (r, d', l')" "cache_inv (kd_idx_cache d')"
      "r = Inr () \<and> cache_ctxs (kd_idx_cache d') = [i] \<and> dc_policy (kd_idx_cache d') = pol \<or>
       (\<exists>e. r = Inl e) \<and> cache_ctxs (kd_idx_cache d') = [] \<and> dc_valid_count (kd_idx_cache d') = 0" by blast
  have "r = Inr () \<and> l' = [] \<and> kd_pending_count d' = kd_pending_count d" using p(1) assms
    by (auto simp: wd_sched_skey_domain_init_def wd_sched_skey_cache_init_def wd_sched_skey_add_ctx_def
        SKEY_CTX_MAX_NUM_def Let_def split: option.splits)
  then show ?thesis using p by auto
qed

text \<open>
  With memory and locks available, a session for which both modes have contexts is opened, as long as
  one of the 64 slots is free.
\<close>

lemma rr_init_succeeds:
  assumes st: "st_inv st" and fresh: "ss_keys st a = None" and room: "sc_skey_num (ss_ctx st) < 64"
    and p: "0 \<le> sp_numa_id p" "sp_numa_id p < int (sc_region_num (ss_ctx st))" "sp_type p < sc_type_num (ss_ctx st)"
      "0 \<le> sp_ctx_prop p" "sp_ctx_prop p < int UADK_ALG_TYPE_MAX"
    and ne: "sc_ctxs (ss_ctx st) (sp_numa_id p, SCHED_MODE_SYNC, sp_type p, nat (sp_ctx_prop p)) \<noteq> []"
      "sc_ctxs (ss_ctx st) (sp_numa_id p, SCHED_MODE_ASYNC, sp_type p, nat (sp_ctx_prop p)) \<noteq> []"
  shows "\<exists>st' k i j. round_robin_sched_init (Inr node) (Some a) [] st (Some p) = Some (Inr a, st') \<and> st_inv st' \<and>
    ss_keys st' = (ss_keys st)(a \<mapsto> k) \<and> sk_region_id k = sp_numa_id p \<and> sk_type k = sp_type p \<and>
    cache_ctxs (kd_idx_cache (sk_sync_domain k)) = [i] \<and> cache_ctxs (kd_idx_cache (sk_async_domain k)) = [j] \<and>
    kd_pending_count (sk_async_domain k) = 0 \<and>
    i \<in> set (sc_ctxs (ss_ctx st) (sp_numa_id p, SCHED_MODE_SYNC, sp_type p, nat (sp_ctx_prop p))) \<and>
    j \<in> set (sc_ctxs (ss_ctx st) (sp_numa_id p, SCHED_MODE_ASYNC, sp_type p, nat (sp_ctx_prop p)))"
proof -
  let ?c = "ss_ctx st"
  define k where "k = zero_key\<lparr>sk_region_id := sp_numa_id p, sk_type := sp_type p, sk_ctx_prop := nat (sp_ctx_prop p)\<rparr>"
  have pr: "u8 (nat (sp_ctx_prop p mod 256)) = nat (sp_ctx_prop p)" "nat (sp_ctx_prop p) < UADK_ALG_TYPE_MAX"
    using p by (auto simp: u8_def UADK_ALG_TYPE_MAX_def)
  have com: "sched_session_common_init (Inr node) (Some a) (Some p) = Inr (a, k)"
    using p pr by (simp add: sched_session_common_init_def k_def)
  have kf: "sk_region_id k = sp_numa_id p" "sk_type k = sp_type p" "sk_ctx_prop k = nat (sp_ctx_prop p)"
    "sk_async_domain k = zero_key_domain" "sk_sync_domain k = zero_key_domain" by (simp_all add: k_def zero_key_def)
  have tbl: "sc_tbl_inv ?c" using st by (simp add: st_inv_def)
  from init_ctx_some [OF tbl, of k SCHED_MODE_SYNC] kf p pr ne(1) obtain i c1 where
    i: "session_sched_init_ctx ?c k SCHED_MODE_SYNC = Some (i, c1)" "sc_tbl_inv c1" "same_domains ?c c1" "i \<noteq> INVALID_POS"
      "i \<in> set (sc_ctxs ?c (sp_numa_id p, SCHED_MODE_SYNC, sp_type p, nat (sp_ctx_prop p)))"
    by (auto simp: sched_consts)
  have c1: "sc_region_num c1 = sc_region_num ?c" "sc_type_num c1 = sc_type_num ?c" "sc_skey_num c1 = sc_skey_num ?c"
    using i(3) unfolding same_domains_def by auto
  from init_ctx_some [OF i(2), of k SCHED_MODE_ASYNC] kf p pr ne(2) c1 same_domainsD(1) [OF i(3)] obtain j c2 where
    j: "session_sched_init_ctx c1 k SCHED_MODE_ASYNC = Some (j, c2)" "sc_tbl_inv c2" "same_domains c1 c2" "j \<noteq> INVALID_POS"
      "j \<in> set (sc_ctxs ?c (sp_numa_id p, SCHED_MODE_ASYNC, sp_type p, nat (sp_ctx_prop p)))"
    by (auto simp: sched_consts)
  have same: "same_domains ?c c2" by (rule same_domains_trans [OF i(3) j(3)])
  have num: "sc_skey_num c2 = sc_skey_num ?c" using same unfolding same_domains_def by auto
  from domain_init_total [OF i(4), of zero_key_domain "sc_policy c2"] obtain d1 where
    d1: "wd_sched_skey_domain_init [] zero_key_domain i (sc_policy c2) = Some (Inr (), d1, [])"
      "cache_ctxs (kd_idx_cache d1) = [i]" "cache_inv (kd_idx_cache d1)" "dc_policy (kd_idx_cache d1) = sc_policy c2" by blast
  from domain_init_total [OF j(4), of zero_key_domain "sc_policy c2"] obtain d2 where
    d2: "wd_sched_skey_domain_init [] zero_key_domain j (sc_policy c2) = Some (Inr (), d2, [])"
      "cache_ctxs (kd_idx_cache d2) = [j]" "cache_inv (kd_idx_cache d2)" "dc_policy (kd_idx_cache d2) = sc_policy c2"
      "kd_pending_count d2 = kd_pending_count zero_key_domain" by blast
  let ?k = "k\<lparr>sk_sync_domain := d1, sk_async_domain := d2\<rparr>"
  have dom: "session_sched_domain_init [] ?c k = Some (Inr (), c2, ?k, [])"
    using i(1,4) j(1,4) d1(1) d2(1) kf by (simp add: session_sched_domain_init_def Let_def)
  have ok: "key_ok c2 ?k"
    using d1 d2 i(5) j(5) kf same_domainsD(1) [OF same] by (auto simp: key_ok_def key_dom_ok_def)
  obtain r st' where reg: "register_skey st c2 a ?k = (r, st')" by (cases "register_skey st c2 a ?k")
  note inv = register_skey_inv [OF st j(2) same ok fresh reg]
  have "slots_inv c2 (ss_keys st)" using st slots_inv_same [OF same] by (simp add: st_inv_def)
  from param_init_spec [OF this fresh, of ?k] room num have "r = Inr a"
    using reg by (auto simp: register_skey_def)
  with inv reg have "round_robin_sched_init (Inr node) (Some a) [] st (Some p) = Some (Inr a, st')" "st_inv st'"
    "ss_keys st' = (ss_keys st)(a \<mapsto> ?k)" using com dom by (auto simp: round_robin_sched_init_def)
  then show ?thesis using d1(2) d2(2,5) i(5) j(5) kf
    by (intro exI [of _ st'] exI [of _ ?k] exI [of _ i] exI [of _ j]) (simp add: zero_key_domain_def)
qed

end
