(* ===== verification/Sched_Properties.thy ===== *)
theory Sched_Properties
  imports Sched_System
begin

text \<open>
  The properties of the scheduler, from the hash table of domains to whole runs of sessions.
\<close>

subsection \<open>A demonstration run\<close>

lemma demo_session:
  assumes pol: "pol = SCHED_POLICY_RR \<or> pol = SCHED_POLICY_HUNGRY"
  shows "\<exists>c'. instances [demo_params 0, demo_params 1] (demo_ctx pol) = Some c' \<and> st_inv \<lparr>ss_ctx = c', ss_keys = Map.empty\<rparr> \<and>
    sc_policy c' = pol \<and>
    (\<exists>st k i j. round_robin_sched_init (Inr 0) (Some 7) [] \<lparr>ss_ctx = c', ss_keys = Map.empty\<rparr> (Some (demo_params 0)) = Some (Inr 7, st) \<and>
      st_inv st \<and> ss_keys st = [7 \<mapsto> k] \<and> sk_region_id k = 0 \<and> sk_type k = 0 \<and>
      cache_ctxs (kd_idx_cache (sk_sync_domain k)) = [i] \<and> cache_ctxs (kd_idx_cache (sk_async_domain k)) = [j] \<and>
      kd_pending_count (sk_async_domain k) = 0 \<and> i \<in> {0, 1, 2} \<and> j \<in> {3, 4, 5})"
proof -
  from demo_instances [OF pol] obtain c' where c': "instances [demo_params 0, demo_params 1] (demo_ctx pol) = Some c'" "sc_tbl_inv c'"
    "sc_ctxs c' (0, 0, 0, 0) = [0, 1, 2]" "sc_ctxs c' (0, 1, 0, 0) = [3, 4, 5]" by blast
  have frame: "\<exists>h. c' = (demo_ctx pol)\<lparr>sc_domain_hash_table := h\<rparr>" by (rule instances_frame [OF c'(1)])
  then have f: "sc_region_num c' = 1" "sc_type_num c' = 1" "sc_skey_num c' = 0" "sc_policy c' = pol"
    by (auto simp: demo_ctx_def)
  have st: "st_inv \<lparr>ss_ctx = c', ss_keys = Map.empty\<rparr>" by (rule alloc_st_inv [OF demo_alloc [OF pol] c'(2) frame])
  let ?p = "demo_params 0" and ?st = "\<lparr>ss_ctx = c', ss_keys = Map.empty\<rparr>"
  have p: "0 \<le> sp_numa_id ?p" "sp_numa_id ?p < int (sc_region_num (ss_ctx ?st))" "sp_type ?p < sc_type_num (ss_ctx ?st)"
    "0 \<le> sp_ctx_prop ?p" "sp_ctx_prop ?p < int UADK_ALG_TYPE_MAX"
    using f by (simp_all add: demo_params_def UADK_ALG_TYPE_MAX_def)
  have ctxs: "sc_ctxs (ss_ctx ?st) (sp_numa_id ?p, SCHED_MODE_SYNC, sp_type ?p, nat (sp_ctx_prop ?p)) = [0, 1, 2]"
    "sc_ctxs (ss_ctx ?st) (sp_numa_id ?p, SCHED_MODE_ASYNC, sp_type ?p, nat (sp_ctx_prop ?p)) = [3, 4, 5]"
    using c'(3,4) by (simp_all add: demo_params_def SCHED_MODE_SYNC_def SCHED_MODE_ASYNC_def)
  have "ss_keys ?st 7 = None" "sc_skey_num (ss_ctx ?st) < 64" using f by simp_all
  note init = rr_init_succeeds [OF st this p, unfolded ctxs, of 0]
  from init obtain st k i j where
    "round_robin_sched_init (Inr 0) (Some 7) [] ?st (Some ?p) = Some (Inr 7, st)" "st_inv st"
    "ss_keys st = (ss_keys ?st)(7 \<mapsto> k)" "sk_region_id k = sp_numa_id ?p" "sk_type k = sp_type ?p"
    "cache_ctxs (kd_idx_cache (sk_sync_domain k)) = [i]" "cache_ctxs (kd_idx_cache (sk_async_domain k)) = [j]"
    "kd_pending_count (sk_async_domain k) = 0" "i \<in> set [0, 1, 2]" "j \<in> set [3, 4, 5]" by auto
  moreover have "sp_numa_id ?p = 0" "sp_type ?p = 0" by (simp_all add: demo_params_def)
  ultimately have "\<exists>st k i j. round_robin_sched_init (Inr 0) (Some 7) [] ?st (Some ?p) = Some (Inr 7, st) \<and>
      st_inv st \<and> ss_keys st = [7 \<mapsto> k] \<and> sk_region_id k = 0 \<and> sk_type k = 0 \<and>
      cache_ctxs (kd_idx_cache (sk_sync_domain k)) = [i] \<and> cache_ctxs (kd_idx_cache (sk_async_domain k)) = [j] \<and>
      kd_pending_count (sk_async_domain k) = 0 \<and> i \<in> {0, 1, 2} \<and> j \<in> {3, 4, 5}" by auto
  with c'(1) st f(4) show ?thesis by blast
qed

lemma demo_ok:
  "list_all (inst_ok (demo_ctx pol)) [demo_params 0, demo_params 1]"
  "sum_list (map (\<lambda>p. sp_end p - sp_begin p + 1) [demo_params 0, demo_params 1]) < 2 ^ 32"
  "SCHED_POLICY_RR \<noteq> SCHED_POLICY_NONE" "SCHED_POLICY_RR \<noteq> SCHED_POLICY_SINGLE"
  by (simp_all add: inst_ok_def demo_params_def demo_ctx_def INVALID_POS_def SCHED_MODE_BUTT_def sched_policy_defs)

lemma demo_run:
  "\<exists>c' st k. instances [demo_params 0, demo_params 1] (demo_ctx SCHED_POLICY_RR) = Some c' \<and>
    round_robin_sched_init (Inr 0) (Some 7) [] \<lparr>ss_ctx = c', ss_keys = Map.empty\<rparr> (Some (demo_params 0)) = Some (Inr 7, st) \<and>
    ss_keys st = [7 \<mapsto> k] \<and> sk_region_id k = 0 \<and> sk_type k = 0 \<and>
    (sched_step rg_empty (None :: nat poll_func option))\<^sup>*\<^sup>* \<lparr>ss_ctx = c', ss_keys = Map.empty\<rparr> st"
proof -
  from demo_session [of SCHED_POLICY_RR] obtain c' st k where
    c': "instances [demo_params 0, demo_params 1] (demo_ctx SCHED_POLICY_RR) = Some c'"
    and pol: "sc_policy c' = SCHED_POLICY_RR"
    and st: "round_robin_sched_init (Inr 0) (Some 7) [] \<lparr>ss_ctx = c', ss_keys = Map.empty\<rparr> (Some (demo_params 0)) = Some (Inr 7, st)"
      "ss_keys st = [7 \<mapsto> k]" "sk_region_id k = 0" "sk_type k = 0" by blast
  have "sched_init (sc_policy c') (Inr 0) (Some 7) [] \<lparr>ss_ctx = c', ss_keys = Map.empty\<rparr> (Some (demo_params 0)) = Some (Inr (Some 7), st)"
    using st(1) pol by (simp add: sched_init_def sched_policy_defs)
  then have "sched_step rg_empty (None :: nat poll_func option) \<lparr>ss_ctx = c', ss_keys = Map.empty\<rparr> st"
    by (intro step_init [of _ "Inr 0" "Some 7" "[]" "Some (demo_params 0)" "Inr (Some 7)"]) simp_all
  then have "(sched_step rg_empty (None :: nat poll_func option))\<^sup>*\<^sup>* \<lparr>ss_ctx = c', ss_keys = Map.empty\<rparr> st" by (rule r_into_rtranclp)
  with c' st show ?thesis by blast
qed

subsection \<open>Domains\<close>

lemma prime_509: "prime_nat 509"
proof -
  have "wd_sched_is_prime 509 = Some True"
    by (simp add: wd_sched_is_prime_def is_prime_loop.simps u32_def)
  with is_prime_correct [of 509] show ?thesis by simp
qed

text \<open>The limit of 512 buckets is for the target only: for larger estimates the next prime after it is taken.\<close>

lemma bucket_size_over_limit: "wd_sched_compute_bucket_size 383 = Some 521"
proof -
  from find_prime_correct [OF prime_521, of 510] obtain q where
    q: "wd_sched_find_prime 510 = Some q" "prime_nat q" "510 \<le> q" "q \<le> 521" by auto
  have "\<not> d dvd q" if "d \<in> {2, 3, 5, 7, 11}" for d using that q(2,3) not_prime_div [of d q] by auto
  then have nd: "\<not> 2 dvd q" "\<not> 3 dvd q" "\<not> 5 dvd q" "\<not> 7 dvd q" "\<not> 11 dvd q" by auto
  have "list_all (\<lambda>q :: nat. 2 dvd q \<or> 3 dvd q \<or> 5 dvd q \<or> 7 dvd q \<or> 11 dvd q \<or> q = 521) [510 ..< 522]" by code_simp
  moreover have "q \<in> set [510 ..< 522]" unfolding set_upt atLeastLessThan_iff using q(3,4) by linarith
  ultimately have "q = 521" using nd unfolding list_all_iff by blast
  then show ?thesis using q(1) by (simp add: wd_sched_compute_bucket_size_def WD_SCHED_MAX_BUCKETS_def WD_SCHED_MIN_BUCKETS_def u32_def)
qed

text \<open>
  C39: For an estimate of at most 382 entries the number of buckets is found, lies between 32 and 512, and is the next prime
  from four thirds of the estimate (at least 32) on, so that the table is filled to at most three quarters; in particular
  the search for the next prime ends.
\<close>

theorem bucket_size_prime:
  assumes "e \<le> 382"
  shows "\<exists>q. wd_sched_compute_bucket_size e = Some q \<and> prime_nat q \<and> WD_SCHED_MIN_BUCKETS \<le> q \<and> q \<le> WD_SCHED_MAX_BUCKETS \<and> 4 * e div 3 \<le> q \<and>
    (\<forall>m. max WD_SCHED_MIN_BUCKETS (4 * e div 3) \<le> m \<and> m < q \<longrightarrow> \<not> prime_nat m)"
proof -
  define t where "t = max 32 (4 * e div 3)"
  have t: "32 \<le> t" "t \<le> 509" "4 * e div 3 \<le> t" using assms by (auto simp: t_def)
  have "u32 (e * 4) = 4 * e" using assms by (simp add: u32_def)
  then have "wd_sched_compute_bucket_size e = wd_sched_find_prime t"
    using t by (auto simp: wd_sched_compute_bucket_size_def t_def Let_def WD_SCHED_MAX_BUCKETS_def WD_SCHED_MIN_BUCKETS_def max_def)
  with find_prime_correct [OF prime_509, of t] t show ?thesis
    by (fastforce simp: t_def WD_SCHED_MAX_BUCKETS_def WD_SCHED_MIN_BUCKETS_def)
qed

theorem bucket_size_prime_witness:
  "\<exists>q. wd_sched_compute_bucket_size 100 = Some q \<and> prime_nat q \<and> 133 \<le> q \<and> q \<le> 512"
  using bucket_size_prime [of 100] by (auto simp: WD_SCHED_MAX_BUCKETS_def)

text \<open>The key that the caller asks for, and the properties that the scheduler supports.\<close>

definition inst_key :: "sched_params \<Rightarrow> domain_key" where
  "inst_key p = (sp_numa_id p, sp_mode p, sp_type p, nat (sp_ctx_prop p))"

definition prop_supported :: "sched_params \<Rightarrow> bool" where
  "prop_supported p \<longleftrightarrow> 0 \<le> sp_ctx_prop p \<and> sp_ctx_prop p \<le> UADK_ALG_SOFT"

lemma filed_as_asked: "prop_supported p \<Longrightarrow> filed_key p = inst_key p"
  by (simp add: prop_supported_def filed_key_def inst_key_def)

text \<open>A property beyond these is filed under the hardware property, which is not the key that the caller asked for.\<close>

lemma filed_elsewhere: "sp_ctx_prop p > UADK_ALG_SOFT \<Longrightarrow> filed_key p \<noteq> inst_key p"
  by (simp add: filed_key_def inst_key_def UADK_ALG_SOFT_def UADK_ALG_HW_def)

text \<open>
  C7: Creating a scheduler and adding instances builds the map from (region, mode, type, property) to
  contexts that the caller described: every call succeeds, and the contexts of a key are the ranges
  given for this key, in order, whatever the hash values are. The properties are the hardware, the two instruction and the
  software property, the region exists, and no more than \<open>2 ^ 32\<close> contexts are registered.
\<close>

theorem scheduler_domains:
  assumes "wd_sched_rr_alloc oks lock_ok nmax ty tn rn = Some (Some c)"
    and "ty \<noteq> SCHED_POLICY_NONE" and "ty \<noteq> SCHED_POLICY_SINGLE"
    and "list_all (inst_ok c) ps" and "list_all prop_supported ps" and "sum_list (map (\<lambda>p. sp_end p - sp_begin p + 1) ps) < 2 ^ 32"
  shows "\<exists>c'. instances ps c = Some c' \<and> sc_tbl_inv c' \<and>
    (\<forall>k. sc_ctxs c' k = concat (map (\<lambda>p. [sp_begin p ..< Suc (sp_end p)]) (filter (\<lambda>p. inst_key p = k) ps)))"
proof -
  note al = rr_alloc_spec [OF assms(1)]
  then obtain t where t: "sc_domain_hash_table c = Some t" using assms(2,3) by blast
  have empty: "sc_ctxs c k = []" for k using al by blast
  then have room: "\<forall>k. length (sc_ctxs c k) + sum_list (map (\<lambda>p. sp_end p - sp_begin p + 1) ps) < 2 ^ 32"
    using assms(6) by simp
  have "\<forall>p \<in> set ps. inst_ok c p" using assms(4) by (simp add: list_all_iff)
  moreover have "filter (\<lambda>p. filed_key p = k) ps = filter (\<lambda>p. inst_key p = k) ps" for k
    using assms(5) by (intro filter_cong) (auto simp: list_all_iff filed_as_asked)
  ultimately show ?thesis using instances_spec [OF _ _ t _ room] al empty by simp
qed

theorem scheduler_domains_witness:
  "\<exists>c'. instances [demo_params 0, demo_params 1, demo_params 0] (demo_ctx SCHED_POLICY_RR) = Some c' \<and>
    sc_ctxs c' (0, 0, 0, 0) = [0, 1, 2, 0, 1, 2] \<and> sc_ctxs c' (0, 1, 0, 0) = [3, 4, 5] \<and> sc_ctxs c' (0, 1, 0, 1) = []"
proof -
  have k: "inst_key (demo_params m) = (0, m, 0, 0)" for m
    by (simp add: inst_key_def demo_params_def)
  have ok: "list_all (inst_ok (demo_ctx SCHED_POLICY_RR)) [demo_params 0, demo_params 1, demo_params 0]"
    by (simp add: inst_ok_def demo_params_def demo_ctx_def INVALID_POS_def SCHED_MODE_BUTT_def)
  have sup: "list_all prop_supported [demo_params 0, demo_params 1, demo_params 0]"
    by (simp add: prop_supported_def demo_params_def UADK_ALG_SOFT_def)
  have sum: "sum_list (map (\<lambda>p. sp_end p - sp_begin p + 1) [demo_params 0, demo_params 1, demo_params 0]) < 2 ^ 32"
    by (simp add: demo_params_def)
  have pol: "SCHED_POLICY_RR \<noteq> SCHED_POLICY_NONE" "SCHED_POLICY_RR \<noteq> SCHED_POLICY_SINGLE" by (simp_all add: sched_policy_defs)
  from scheduler_domains [OF demo_alloc [OF disjI1 [OF refl]] pol ok sup sum] obtain c' where
    c': "instances [demo_params 0, demo_params 1, demo_params 0] (demo_ctx SCHED_POLICY_RR) = Some c'"
    "\<forall>k. sc_ctxs c' k = concat (map (\<lambda>p. [sp_begin p ..< Suc (sp_end p)])
      (filter (\<lambda>p. inst_key p = k) [demo_params 0, demo_params 1, demo_params 0]))" by blast
  then show ?thesis by (simp add: k) (simp add: demo_params_def upt_rec)
qed

lemma mset_rotate: "mset (rotate n xs) = mset xs"
  by (metis append_take_drop_id mset_append rotate_drop_take union_commute)

text \<open>
  C26: Repeated requests for the next context of a domain walk cyclically through all its contexts, over
  the borders of the segments: any \<open>n\<close> consecutive requests, where \<open>n\<close> is the number of contexts, return
  every context of the domain exactly once.
\<close>

theorem domain_round_robin_fair:
  assumes "dom_inv d" and "dom_ctxs d \<noteq> []"
  shows "\<exists>is d'. next_rr_times (length (dom_ctxs d)) d = Some (is, d') \<and> mset is = mset (dom_ctxs d) \<and>
    is = rotate (dom_cursor d) (dom_ctxs d) \<and> dom_cursor d' = dom_cursor d \<and> dom_inv d' \<and> dom_ctxs d' = dom_ctxs d"
proof -
  let ?n = "length (dom_ctxs d)"
  from next_rr_times_spec [OF assms, of ?n] obtain d' where
    d': "next_rr_times ?n d = Some (map (\<lambda>j. dom_ctxs d ! ((dom_cursor d + j) mod ?n)) [0 ..< ?n], d')"
    "dom_inv d'" "dom_ctxs d' = dom_ctxs d" "dom_cursor d' = (dom_cursor d + ?n) mod ?n" by blast
  have rot: "map (\<lambda>j. dom_ctxs d ! ((dom_cursor d + j) mod ?n)) [0 ..< ?n] = rotate (dom_cursor d) (dom_ctxs d)"
    by (rule nth_equalityI) (simp_all add: nth_rotate)
  have "dom_cursor d < ?n" using next_rr_step [OF assms] by blast
  then show ?thesis using d' unfolding rot by (simp add: mset_rotate)
qed

definition demo_domain :: wd_sched_ctx_domain where
  "demo_domain = inst_upd (7, 7) (inst_upd (3, 4) (fresh_domain (0, 1, 2, 3)))"

theorem domain_round_robin_fair_witness:
  "dom_ctxs demo_domain = [3, 4, 7] \<and> (\<exists>is d'. next_rr_times 3 demo_domain = Some (is, d') \<and> mset is = {#3, 4, 7#})"
proof -
  have d1: "dom_inv (inst_upd (3, 4) (fresh_domain (0, 1, 2, 3)))" "dom_ctxs (inst_upd (3, 4) (fresh_domain (0, 1, 2, 3))) = [3, 4]"
    using inst_upd_spec(2,3) [of "fresh_domain (0, 1, 2, 3)" 3 4] by (simp_all add: fresh_domain_inv INVALID_POS_def upt_rec)
  then have d: "dom_inv demo_domain" "dom_ctxs demo_domain = [3, 4, 7]"
    using inst_upd_spec(2,3) [OF d1(1), of 7 7] by (simp_all add: demo_domain_def INVALID_POS_def)
  then have ne: "dom_ctxs demo_domain \<noteq> []" and len: "length (dom_ctxs demo_domain) = 3" by simp_all
  from domain_round_robin_fair [OF d(1) ne, unfolded len] d(2) show ?thesis by auto
qed


subsection \<open>The context cache of a session\<close>

datatype cache_op = Add_Ctx nat | Remove_Ctx nat

fun cache_step :: "cache_op \<Rightarrow> wd_sched_domain_idx_cache \<Rightarrow> (unit result \<times> wd_sched_domain_idx_cache) option" where
  "cache_step (Add_Ctx x) c = wd_sched_skey_add_ctx c x"
| "cache_step (Remove_Ctx x) c = wd_sched_skey_remove_ctx c x"

fun cache_run :: "cache_op list \<Rightarrow> wd_sched_domain_idx_cache \<Rightarrow> (unit result list \<times> wd_sched_domain_idx_cache) option" where
  "cache_run [] c = Some ([], c)"
| "cache_run (op # ops) c =
    (case cache_step op c of None \<Rightarrow> None
     | Some (r, c') \<Rightarrow> (case cache_run ops c' of None \<Rightarrow> None | Some (rs, c'') \<Rightarrow> Some (r # rs, c'')))"

text \<open>The abstract counterpart: a list without repetitions, with at most 16 entries.\<close>

fun list_step :: "cache_op \<Rightarrow> nat list \<Rightarrow> bool \<times> nat list" where
  "list_step (Add_Ctx x) xs =
    (if x = INVALID_POS \<or> length xs = SKEY_CTX_MAX_NUM \<or> x \<in> set xs then (False, xs) else (True, xs @ [x]))"
| "list_step (Remove_Ctx x) xs = (if x \<in> set xs then (True, remove1 x xs) else (False, xs))"

fun list_run :: "cache_op list \<Rightarrow> nat list \<Rightarrow> bool list \<times> nat list" where
  "list_run [] xs = ([], xs)"
| "list_run (op # ops) xs = (let (b, ys) = list_step op xs; (bs, zs) = list_run ops ys in (b # bs, zs))"

definition succeeded :: "'a result \<Rightarrow> bool" where
  "succeeded r = (case r of Inl _ \<Rightarrow> False | Inr _ \<Rightarrow> True)"

lemma succeeded_simps [simp]: "succeeded (Inr x)" "\<not> succeeded (Inl e)"
  by (simp_all add: succeeded_def)

lemma cache_step_refines:
  assumes inv: "cache_inv c"
  shows "\<exists>r c'. cache_step op c = Some (r, c') \<and> cache_inv c' \<and> list_step op (cache_ctxs c) = (succeeded r, cache_ctxs c')"
proof (cases op)
  case (Add_Ctx x)
  from inv show ?thesis
  proof (cases rule: add_ctx_cases [where x = x])
    case (fail e)
    then show ?thesis using inv Add_Ctx by auto
  next
    case (ok c')
    have "length (cache_ctxs c) \<noteq> SKEY_CTX_MAX_NUM" using ok(4,8) inv by (simp add: cache_inv_def)
    then show ?thesis using ok Add_Ctx by simp
  qed
next
  case (Remove_Ctx x)
  from inv show ?thesis
  proof (cases rule: remove_ctx_cases [where x = x])
    case fail
    then show ?thesis using inv Remove_Ctx by simp
  next
    case (ok c' i)
    then show ?thesis using Remove_Ctx by simp
  qed
qed

lemma cache_run_refines:
  assumes "cache_inv c"
  shows "\<exists>rs c'. cache_run ops c = Some (rs, c') \<and> cache_inv c' \<and> list_run ops (cache_ctxs c) = (map succeeded rs, cache_ctxs c')"
  using assms
proof (induction ops arbitrary: c)
  case (Cons op ops)
  from cache_step_refines [OF Cons.prems, of op] obtain r c1 where
    c1: "cache_step op c = Some (r, c1)" "cache_inv c1" "list_step op (cache_ctxs c) = (succeeded r, cache_ctxs c1)" by blast
  from Cons.IH [OF c1(2)] obtain rs c' where
    "cache_run ops c1 = Some (rs, c')" "cache_inv c'" "list_run ops (cache_ctxs c1) = (map succeeded rs, cache_ctxs c')" by blast
  with c1 show ?case by simp
qed simp

lemma list_run_distinct: "distinct xs \<Longrightarrow> INVALID_POS \<notin> set xs \<Longrightarrow>
    distinct (snd (list_run ops xs)) \<and> INVALID_POS \<notin> set (snd (list_run ops xs))"
proof (induction ops arbitrary: xs)
  case (Cons op ops)
  have "distinct (snd (list_step op xs)) \<and> INVALID_POS \<notin> set (snd (list_step op xs))"
    using Cons.prems by (cases op) (auto dest: notin_set_remove1)
  then show ?case using Cons.IH [of "snd (list_step op xs)"] by (simp add: Let_def split_beta)
qed simp

text \<open>
  C24: The context cache implements a bounded list without repetitions: over any sequence of additions and
  removals after the initialisation, each call succeeds exactly when the call on the list does, the cached
  contexts are the entries of the list in order, and no context is cached twice.
\<close>

theorem skey_cache_refines_list:
  "\<exists>rs c. cache_run ops (snd (wd_sched_skey_cache_init True policy)) = Some (rs, c) \<and> cache_inv c \<and>
    list_run ops [] = (map succeeded rs, cache_ctxs c) \<and> distinct (cache_ctxs c) \<and> INVALID_POS \<notin> set (cache_ctxs c)"
proof -
  note init = cache_init_spec [of True policy]
  from cache_run_refines [of _ ops, OF conjunct1 [OF init]] init obtain rs c where
    c: "cache_run ops (snd (wd_sched_skey_cache_init True policy)) = Some (rs, c)" "cache_inv c"
      "list_run ops [] = (map succeeded rs, cache_ctxs c)" by auto
  moreover have "distinct (cache_ctxs c) \<and> INVALID_POS \<notin> set (cache_ctxs c)"
    using list_run_distinct [of "[]" ops] c(3) by simp
  ultimately show ?thesis by blast
qed

subsection \<open>Picking from the cache\<close>

fun pick_times :: "nat \<Rightarrow> wd_sched_domain_idx_cache \<Rightarrow> (nat list \<times> wd_sched_domain_idx_cache) option" where
  "pick_times 0 c = Some ([], c)"
| "pick_times (Suc n) c =
    (case wd_sched_skey_pick_next c of None \<Rightarrow> None
     | Some ((i, _), c') \<Rightarrow> (case pick_times n c' of None \<Rightarrow> None | Some (is, c'') \<Rightarrow> Some (i # is, c'')))"

lemma pick_times_spec:
  assumes "cache_inv c" and "rr_policy (dc_policy c)" and "0 < dc_valid_count c" and "dc_rr_ptr c + n < 2 ^ 32"
  shows "\<exists>c'. pick_times n c = Some (map (\<lambda>j. cache_ctxs c ! ((dc_rr_ptr c + j) mod dc_valid_count c)) [0 ..< n], c') \<and>
    cache_inv c' \<and> cache_ctxs c' = cache_ctxs c \<and> dc_rr_ptr c' = dc_rr_ptr c + n"
  using assms
proof (induction n arbitrary: c)
  case (Suc n)
  let ?c = "c\<lparr>dc_rr_ptr := dc_rr_ptr c + 1\<rparr>"
  have u: "u32 (dc_rr_ptr c + 1) = dc_rr_ptr c + 1" using Suc.prems(4) by (intro u32_small) simp
  have c: "cache_inv ?c" "rr_policy (dc_policy ?c)" "0 < dc_valid_count ?c" "dc_rr_ptr ?c + n < 2 ^ 32"
    "cache_ctxs ?c = cache_ctxs c" using Suc.prems by (auto simp: cache_inv_def cache_ctxs_def)
  from Suc.IH [OF c(1-4)] obtain c' where
    "pick_times n ?c = Some (map (\<lambda>j. cache_ctxs c ! ((dc_rr_ptr c + 1 + j) mod dc_valid_count c)) [0 ..< n], c')"
    "cache_inv c'" "cache_ctxs c' = cache_ctxs c" "dc_rr_ptr c' = dc_rr_ptr c + Suc n" using c(5) by auto
  moreover have "map (\<lambda>j. cache_ctxs c ! ((dc_rr_ptr c + j) mod dc_valid_count c)) [0 ..< Suc n] =
    cache_ctxs c ! (dc_rr_ptr c mod dc_valid_count c) #
      map (\<lambda>j. cache_ctxs c ! ((dc_rr_ptr c + 1 + j) mod dc_valid_count c)) [0 ..< n]"
    by (simp add: upt_conv_Cons map_Suc_upt [symmetric] del: upt_Suc)
  ultimately show ?case using pick_rr [OF Suc.prems(1-3)] u by simp
qed simp

text \<open>
  Under every policy but the hungry one the cache is served in turn: as many consecutive picks as
  there are cached contexts return each of them exactly once. (The hypothesis excludes the wrap-around of
  the 32-bit pointer, where the rotation restarts at the first context.)
\<close>

theorem skey_pick_fair:
  assumes "cache_inv c" and "rr_policy (dc_policy c)" and "0 < dc_valid_count c"
    and "dc_rr_ptr c + dc_valid_count c < 2 ^ 32"
  shows "\<exists>is c'. pick_times (dc_valid_count c) c = Some (is, c') \<and> is = rotate (dc_rr_ptr c) (cache_ctxs c) \<and>
    mset is = mset (cache_ctxs c) \<and> cache_inv c' \<and> cache_ctxs c' = cache_ctxs c"
proof -
  have len: "length (cache_ctxs c) = dc_valid_count c" using assms(1) by simp
  have "map (\<lambda>j. cache_ctxs c ! ((dc_rr_ptr c + j) mod dc_valid_count c)) [0 ..< dc_valid_count c] = rotate (dc_rr_ptr c) (cache_ctxs c)"
    by (rule nth_equalityI) (simp_all add: nth_rotate len)
  with pick_times_spec [OF assms] show ?thesis by (auto simp: mset_rotate)
qed

definition demo_cache :: "nat \<Rightarrow> nat list \<Rightarrow> wd_sched_domain_idx_cache" where
  "demo_cache policy loads = \<lparr>dc_idx_list = [10, 11, 12] @ replicate 13 INVALID_POS, dc_load_values = loads @ replicate 13 0,
     dc_valid_count = 3, dc_rr_ptr = 4, dc_min_load_idx = 2, dc_op_counter = 128, dc_update_interval = 128,
     dc_policy = policy, dc_has_sub = False\<rparr>"

lemma demo_cache_inv: "length loads = 3 \<Longrightarrow> \<forall>l \<in> set loads. l \<le> UINT_MAX \<Longrightarrow>
    cache_inv (demo_cache policy loads) \<and> cache_ctxs (demo_cache policy loads) = [10, 11, 12] \<and>
    cache_loads (demo_cache policy loads) = loads"
  by (auto simp: demo_cache_def cache_inv_def cache_ctxs_def cache_loads_def SKEY_CTX_MAX_NUM_def)

theorem skey_pick_fair_witness:
  "\<exists>is c'. pick_times 3 (demo_cache SCHED_POLICY_RR [0, 0, 0]) = Some (is, c') \<and> is = [11, 12, 10]"
proof -
  let ?c = "demo_cache SCHED_POLICY_RR [0, 0, 0]"
  have c: "cache_inv ?c" "cache_ctxs ?c = [10, 11, 12]" using demo_cache_inv [of "[0, 0, 0]" SCHED_POLICY_RR] by simp_all
  have f: "rr_policy (dc_policy ?c)" "dc_valid_count ?c = 3" "dc_rr_ptr ?c = 4"
    by (simp_all add: demo_cache_def rr_policy_def sched_policy_defs)
  from skey_pick_fair [OF c(1) f(1), unfolded f c(2)] show ?thesis by (auto simp: rotate_drop_take)
qed

text \<open>
  C25: Under the hungry policy a pick that falls on a refresh of the load statistics returns a cached context
  of least load, and a pick between refreshes returns the context found at the last one; the pick never
  fails while the cache has contexts.
\<close>

theorem hungry_pick_least_loaded:
  assumes "cache_inv c" and "dc_policy c = SCHED_POLICY_HUNGRY" and "0 < dc_valid_count c"
  shows "\<exists>k < dc_valid_count c. \<exists>c'. wd_sched_skey_pick_next c = Some ((cache_ctxs c ! k, Some k), c') \<and>
    (if dc_op_counter c mod dc_update_interval c = 0 then cache_loads c ! k = Min (set (cache_loads c))
     else k = dc_min_load_idx c)"
proof -
  from pick_hungry [OF assms] obtain k where k: "k < dc_valid_count c"
    "wd_sched_skey_pick_next c = Some ((cache_ctxs c ! k, Some k), c\<lparr>dc_op_counter := u32 (dc_op_counter c + 1), dc_min_load_idx := k\<rparr>)"
    "if dc_op_counter c mod dc_update_interval c = 0 then \<forall>l \<in> set (cache_loads c). cache_loads c ! k \<le> l
     else k = dc_min_load_idx c" by blast
  have "cache_loads c ! k \<in> set (cache_loads c)" using k(1) assms(1) by (intro nth_mem) simp
  then have "cache_loads c ! k = Min (set (cache_loads c))" if "\<forall>l \<in> set (cache_loads c). cache_loads c ! k \<le> l"
    using that by (intro Min_eqI [symmetric]) auto
  with k show ?thesis by (auto split: if_splits)
qed

theorem hungry_pick_least_loaded_witness:
  "\<exists>k < 3. \<exists>c'. wd_sched_skey_pick_next (demo_cache SCHED_POLICY_HUNGRY [5, 2, 9]) = Some (([10, 11, 12] ! k, Some k), c') \<and>
    [5, 2, 9] ! k = (2 :: nat)"
proof -
  let ?c = "demo_cache SCHED_POLICY_HUNGRY [5, 2, 9]"
  have c: "cache_inv ?c" "cache_ctxs ?c = [10, 11, 12]" "cache_loads ?c = [5, 2, 9]"
    using demo_cache_inv [of "[5, 2, 9]" SCHED_POLICY_HUNGRY] by (simp_all add: UINT_MAX_def)
  have f: "dc_policy ?c = SCHED_POLICY_HUNGRY" "dc_valid_count ?c = 3" "dc_op_counter ?c mod dc_update_interval ?c = 0"
    by (simp_all add: demo_cache_def)
  from hungry_pick_least_loaded [OF c(1) f(1), unfolded f c] show ?thesis by simp
qed


subsection \<open>Runs of sessions\<close>

lemma reachable_inv:
  assumes al: "wd_sched_rr_alloc oks lock_ok nmax ty tn rn = Some (Some c)"
    and pol: "ty \<noteq> SCHED_POLICY_NONE" "ty \<noteq> SCHED_POLICY_SINGLE"
    and ps: "list_all (inst_ok c) ps" "sum_list (map (\<lambda>p. sp_end p - sp_begin p + 1) ps) < 2 ^ 32"
    and inst: "instances ps c = Some c'" and run: "(sched_step rg poll)\<^sup>*\<^sup>* \<lparr>ss_ctx = c', ss_keys = Map.empty\<rparr> st"
  shows "st_inv st \<and> sc_policy (ss_ctx st) = ty \<and>
    (\<forall>k. sc_ctxs (ss_ctx st) k = concat (map (\<lambda>p. [sp_begin p ..< Suc (sp_end p)]) (filter (\<lambda>p. filed_key p = k) ps)))"
proof -
  note spec = rr_alloc_spec [OF al]
  then obtain t where t: "sc_domain_hash_table c = Some t" using pol by blast
  have empty: "sc_ctxs c k = []" for k using spec by blast
  then have room: "\<forall>k. length (sc_ctxs c k) + sum_list (map (\<lambda>p. sp_end p - sp_begin p + 1) ps) < 2 ^ 32" using ps(2) by simp
  have "\<forall>p \<in> set ps. inst_ok c p" using ps(1) by (simp add: list_all_iff)
  from instances_spec [OF _ _ t this room] spec empty inst have tbl: "sc_tbl_inv c'"
    and ctxs: "\<forall>k. sc_ctxs c' k = concat (map (\<lambda>p. [sp_begin p ..< Suc (sp_end p)]) (filter (\<lambda>p. filed_key p = k) ps))" by auto
  have frame: "\<exists>h. c' = c\<lparr>sc_domain_hash_table := h\<rparr>" by (rule instances_frame [OF inst])
  then have "sc_policy c' = ty" using spec by auto
  moreover have "keeps \<lparr>ss_ctx = c', ss_keys = Map.empty\<rparr> st"
    by (rule sched_steps_keep [OF run alloc_st_inv [OF al tbl frame]])
  ultimately show ?thesis using ctxs unfolding keeps_def by (elim conjE) (simp only: sched_state.simps simp_thms)
qed

text \<open>
  C6: Whatever sequence of session operations was performed on a scheduler (opening and closing sessions,
  setting their algorithm, sending and polling), picking a context for a session always ends with a result:
  the code for no context, the code for full queues, or a context that the application registered for the
  region and the operation type of the session and for the requested mode.
\<close>

theorem pick_registered:
  assumes al: "wd_sched_rr_alloc oks lock_ok nmax ty tn rn = Some (Some c)"
    and pol: "ty \<noteq> SCHED_POLICY_NONE" "ty \<noteq> SCHED_POLICY_SINGLE"
    and ps: "list_all (inst_ok c) ps" "sum_list (map (\<lambda>p. sp_end p - sp_begin p + 1) ps) < 2 ^ 32"
    and inst: "instances ps c = Some c'" and run: "(sched_step rg poll)\<^sup>*\<^sup>* \<lparr>ss_ctx = c', ss_keys = Map.empty\<rparr> st"
    and a: "ss_keys st a = Some k" and m: "m < SCHED_MODE_BUTT"
  shows "\<exists>i st'. pick_next_ctx ty (Some st) (Some a) m = Some (i, Some st') \<and>
    (i = INVALID_POS \<or> i = QUEUE_FULL_POS \<or>
     (\<exists>p \<in> set ps. sp_numa_id p = sk_region_id k \<and> sp_mode p = m \<and> sp_type p = sk_type k \<and> sp_begin p \<le> i \<and> i \<le> sp_end p))"
proof -
  note inv = reachable_inv [OF al pol ps inst run]
  have ty: "ty < SCHED_POLICY_BUTT" using rr_alloc_spec [OF al] by blast
  from pick_next_ctx_inv [OF conjunct1 [OF inv] a m ty pol] obtain i st' where
    pick: "pick_next_ctx ty (Some st) (Some a) m = Some (i, Some st')"
      "i = INVALID_POS \<or> i = QUEUE_FULL_POS \<or> i \<in> mode_ctxs (ss_ctx st) k m" by blast
  have "\<exists>p \<in> set ps. sp_numa_id p = sk_region_id k \<and> sp_mode p = m \<and> sp_type p = sk_type k \<and> sp_begin p \<le> i \<and> i \<le> sp_end p"
    if "i \<in> mode_ctxs (ss_ctx st) k m"
  proof -
    from that obtain q where q: "i \<in> set (sc_ctxs (ss_ctx st) (sk_region_id k, m, sk_type k, q))" by (auto simp: mode_ctxs_def)
    moreover have "sc_ctxs (ss_ctx st) (sk_region_id k, m, sk_type k, q) =
        concat (map (\<lambda>p. [sp_begin p ..< Suc (sp_end p)]) (filter (\<lambda>p. filed_key p = (sk_region_id k, m, sk_type k, q)) ps))"
      using inv by blast
    ultimately obtain p where "p \<in> set ps" "filed_key p = (sk_region_id k, m, sk_type k, q)" "i \<in> set [sp_begin p ..< Suc (sp_end p)]"
      by auto
    then show ?thesis by (intro bexI [of _ p]) (auto simp: filed_key_def)
  qed
  with pick show ?thesis by blast
qed

theorem pick_registered_witness:
  "\<exists>c' st i st'. instances [demo_params 0, demo_params 1] (demo_ctx SCHED_POLICY_RR) = Some c' \<and>
    round_robin_sched_init (Inr 0) (Some 7) [] \<lparr>ss_ctx = c', ss_keys = Map.empty\<rparr> (Some (demo_params 0)) = Some (Inr 7, st) \<and>
    pick_next_ctx SCHED_POLICY_RR (Some st) (Some 7) 1 = Some (i, Some st') \<and>
    (i = INVALID_POS \<or> i = QUEUE_FULL_POS \<or> 3 \<le> i \<and> i \<le> 5)"
proof -
  from demo_run obtain c' st k where
    r: "instances [demo_params 0, demo_params 1] (demo_ctx SCHED_POLICY_RR) = Some c'"
    "round_robin_sched_init (Inr 0) (Some 7) [] \<lparr>ss_ctx = c', ss_keys = Map.empty\<rparr> (Some (demo_params 0)) = Some (Inr 7, st)"
    "ss_keys st = [7 \<mapsto> k]" "sk_region_id k = 0" "sk_type k = 0"
    "(sched_step rg_empty (None :: nat poll_func option))\<^sup>*\<^sup>* \<lparr>ss_ctx = c', ss_keys = Map.empty\<rparr> st" by blast
  have k: "ss_keys st 7 = Some k" "1 < SCHED_MODE_BUTT" using r(3) by (simp_all add: SCHED_MODE_BUTT_def)
  from pick_registered [OF demo_alloc [OF disjI1 [OF refl]] demo_ok(3,4,1,2) r(1,6) k] r(1,2)
  show ?thesis by (auto simp: demo_params_def)
qed

text \<open>
  C27: Opening a session for which both modes have contexts succeeds as long as one of the 64 slots is free,
  memory and locks being available: the session starts with one registered context per mode and no pending
  request, and the other sessions are untouched.
\<close>

theorem session_open_succeeds:
  assumes "st_inv st" and "ss_keys st a = None" and "sc_skey_num (ss_ctx st) < 64"
    and "0 \<le> sp_numa_id p" "sp_numa_id p < int (sc_region_num (ss_ctx st))" "sp_type p < sc_type_num (ss_ctx st)"
      "0 \<le> sp_ctx_prop p" "sp_ctx_prop p < int UADK_ALG_TYPE_MAX"
    and "sc_ctxs (ss_ctx st) (sp_numa_id p, SCHED_MODE_SYNC, sp_type p, nat (sp_ctx_prop p)) \<noteq> []"
      "sc_ctxs (ss_ctx st) (sp_numa_id p, SCHED_MODE_ASYNC, sp_type p, nat (sp_ctx_prop p)) \<noteq> []"
  shows "\<exists>st' k i j. round_robin_sched_init (Inr node) (Some a) [] st (Some p) = Some (Inr a, st') \<and> st_inv st' \<and>
    ss_keys st' = (ss_keys st)(a \<mapsto> k) \<and>
    cache_ctxs (kd_idx_cache (sk_sync_domain k)) = [i] \<and> cache_ctxs (kd_idx_cache (sk_async_domain k)) = [j] \<and>
    kd_pending_count (sk_async_domain k) = 0 \<and>
    i \<in> set (sc_ctxs (ss_ctx st) (sp_numa_id p, SCHED_MODE_SYNC, sp_type p, nat (sp_ctx_prop p))) \<and>
    j \<in> set (sc_ctxs (ss_ctx st) (sp_numa_id p, SCHED_MODE_ASYNC, sp_type p, nat (sp_ctx_prop p)))"
  using rr_init_succeeds [OF assms, of node] by blast

theorem session_open_succeeds_witness:
  "\<exists>c' st. instances [demo_params 0, demo_params 1] (demo_ctx SCHED_POLICY_RR) = Some c' \<and>
    round_robin_sched_init (Inr 5) (Some 9) [] \<lparr>ss_ctx = c', ss_keys = Map.empty\<rparr> (Some (demo_params 0)) = Some (Inr 9, st)"
proof -
  from demo_instances [OF disjI1 [OF refl]] obtain c' where
    c': "instances [demo_params 0, demo_params 1] (demo_ctx SCHED_POLICY_RR) = Some c'" "sc_tbl_inv c'"
    "sc_ctxs c' (0, 0, 0, 0) = [0, 1, 2]" "sc_ctxs c' (0, 1, 0, 0) = [3, 4, 5]" by blast
  have frame: "\<exists>h. c' = (demo_ctx SCHED_POLICY_RR)\<lparr>sc_domain_hash_table := h\<rparr>" by (rule instances_frame [OF c'(1)])
  let ?p = "demo_params 0" and ?st = "\<lparr>ss_ctx = c', ss_keys = Map.empty\<rparr>"
  have st: "st_inv ?st" by (rule alloc_st_inv [OF demo_alloc [OF disjI1 [OF refl]] c'(2) frame])
  have f: "ss_keys ?st 9 = None" "sc_skey_num (ss_ctx ?st) < 64"
    "0 \<le> sp_numa_id ?p" "sp_numa_id ?p < int (sc_region_num (ss_ctx ?st))" "sp_type ?p < sc_type_num (ss_ctx ?st)"
    "0 \<le> sp_ctx_prop ?p" "sp_ctx_prop ?p < int UADK_ALG_TYPE_MAX"
    using frame by (auto simp: demo_params_def demo_ctx_def UADK_ALG_TYPE_MAX_def)
  have ne: "sc_ctxs (ss_ctx ?st) (sp_numa_id ?p, SCHED_MODE_SYNC, sp_type ?p, nat (sp_ctx_prop ?p)) \<noteq> []"
    "sc_ctxs (ss_ctx ?st) (sp_numa_id ?p, SCHED_MODE_ASYNC, sp_type ?p, nat (sp_ctx_prop ?p)) \<noteq> []"
    using c'(3,4) by (simp_all add: demo_params_def SCHED_MODE_SYNC_def SCHED_MODE_ASYNC_def)
  from session_open_succeeds [OF st f ne, of 5] c'(1) show ?thesis by blast
qed

text \<open>
  C16: In every reachable state of the scheduler the slot array and the open sessions agree: every open
  session occupies exactly one of the 64 slots, every occupied slot belongs to an open session, and the
  session counter is the number of open sessions; each session caches only registered contexts of its own
  domain (or a position that was invalidated).
\<close>

theorem session_slots_invariant:
  assumes "wd_sched_rr_alloc oks lock_ok nmax ty tn rn = Some (Some c)"
    and "ty \<noteq> SCHED_POLICY_NONE" "ty \<noteq> SCHED_POLICY_SINGLE"
    and "list_all (inst_ok c) ps" "sum_list (map (\<lambda>p. sp_end p - sp_begin p + 1) ps) < 2 ^ 32"
    and "instances ps c = Some c'" and "(sched_step rg poll)\<^sup>*\<^sup>* \<lparr>ss_ctx = c', ss_keys = Map.empty\<rparr> st"
  shows "distinct (occupied (sc_skey (ss_ctx st))) \<and> set (occupied (sc_skey (ss_ctx st))) = dom (ss_keys st) \<and>
    sc_skey_num (ss_ctx st) = card (dom (ss_keys st)) \<and> sc_skey_num (ss_ctx st) \<le> 64 \<and>
    (\<forall>a k. ss_keys st a = Some k \<longrightarrow> key_ok (ss_ctx st) k)"
proof -
  have inv: "st_inv st" using reachable_inv [OF assms] by blast
  then have slots: "slots_inv (ss_ctx st) (ss_keys st)" by (simp add: st_inv_def)
  then have "card (dom (ss_keys st)) = sc_skey_num (ss_ctx st)"
    using distinct_card [of "occupied (sc_skey (ss_ctx st))"] by (simp add: slots_inv_def)
  then show ?thesis using slots slots_bound [OF slots] inv by (simp add: slots_inv_def st_inv_def)
qed

theorem session_slots_invariant_witness:
  "\<exists>c' st. instances [demo_params 0, demo_params 1] (demo_ctx SCHED_POLICY_RR) = Some c' \<and>
    round_robin_sched_init (Inr 0) (Some 7) [] \<lparr>ss_ctx = c', ss_keys = Map.empty\<rparr> (Some (demo_params 0)) = Some (Inr 7, st) \<and>
    set (occupied (sc_skey (ss_ctx st))) = {7} \<and> sc_skey_num (ss_ctx st) = 1"
proof -
  from demo_run obtain c' st k where
    r: "instances [demo_params 0, demo_params 1] (demo_ctx SCHED_POLICY_RR) = Some c'"
    "round_robin_sched_init (Inr 0) (Some 7) [] \<lparr>ss_ctx = c', ss_keys = Map.empty\<rparr> (Some (demo_params 0)) = Some (Inr 7, st)"
    "ss_keys st = [7 \<mapsto> k]"
    "(sched_step rg_empty (None :: nat poll_func option))\<^sup>*\<^sup>* \<lparr>ss_ctx = c', ss_keys = Map.empty\<rparr> st" by blast
  from session_slots_invariant [OF demo_alloc [OF disjI1 [OF refl]] demo_ok(3,4,1,2) r(1,4)] r(1-3) show ?thesis by simp
qed


subsection \<open>The algorithm of a session\<close>

text \<open>
  After a session was given its algorithm, no context that remains cached for it has a driver that does
  not offer the algorithm: such a context was replaced by a compatible one of the same domain, or its slot
  was invalidated. The call always ends, keeps the scheduler's invariant and leaves other sessions alone.
\<close>

theorem set_param_compatible:
  assumes "st_inv st" and "ss_keys st a = Some k" and "wp_alg_name params = Some alg" and "wp_ctxs params = Some ctxs"
    and "in_range (ss_ctx st) ctxs"
  shows "\<exists>st' k'. wd_sched_set_param rg st a params = Some st' \<and> st_inv st' \<and> ss_keys st' = (ss_keys st)(a \<mapsto> k') \<and>
    list_all (slot_ok rg ctxs alg) (cache_ctxs (kd_idx_cache (sk_sync_domain k'))) \<and>
    list_all (slot_ok rg ctxs alg) (cache_ctxs (kd_idx_cache (sk_async_domain k')))"
proof -
  have "case wp_ctxs params of None \<Rightarrow> True | Some ctxs \<Rightarrow> in_range (ss_ctx st) ctxs" using assms(4,5) by simp
  from set_param_inv [OF assms(1,2) this, of rg] assms(3,4) show ?thesis by auto
qed

definition demo_ctxs :: "wd_ctx_internal list" where
  "demo_ctxs = replicate 6 \<lparr>ci_op_type = 0, ci_ctx_mode = 0, ci_ctx_type = 0, ci_ctx_used = 0, ci_ctx = 0, ci_sqn = 0, ci_drv = Some drv_sec, ci_drv_priv = None\<rparr>"

definition demo_wp :: wd_sched_params where
  "demo_wp = \<lparr>wp_pkt_size = 64, wp_data_mode = 0, wp_prio_mode = 0, wp_alg_name = Some ''sm4'', wp_ctxs = Some demo_ctxs\<rparr>"

lemma demo_in_range:
  assumes "instances [demo_params 0, demo_params 1] (demo_ctx SCHED_POLICY_RR) = Some c'"
  shows "in_range c' demo_ctxs"
proof -
  note r = reachable_inv [OF demo_alloc [OF disjI1 [OF refl]] demo_ok(3,4,1,2) assms rtranclp.rtrancl_refl]
  have "sc_ctxs c' q = concat (map (\<lambda>p. [sp_begin p ..< Suc (sp_end p)]) (filter (\<lambda>p. filed_key p = q) [demo_params 0, demo_params 1]))" for q
    using r unfolding sched_state.simps by blast
  then have "i < 6" if "i \<in> set (sc_ctxs c' q)" for i q
    using that by (auto simp: demo_params_def split: if_splits)
  then show ?thesis unfolding in_range_def list_all_iff demo_ctxs_def length_replicate by blast
qed

theorem set_param_compatible_witness:
  "\<exists>st st' k'. wd_sched_set_param rg_sec st 7 demo_wp = Some st' \<and> ss_keys st' = [7 \<mapsto> k'] \<and>
    list_all (slot_ok rg_sec demo_ctxs ''sm4'') (cache_ctxs (kd_idx_cache (sk_sync_domain k')))"
proof -
  from demo_session [OF disjI1 [OF refl]] obtain c' st k where
    c': "instances [demo_params 0, demo_params 1] (demo_ctx SCHED_POLICY_RR) = Some c'"
      "st_inv \<lparr>ss_ctx = c', ss_keys = Map.empty\<rparr>"
    and st: "round_robin_sched_init (Inr 0) (Some 7) [] \<lparr>ss_ctx = c', ss_keys = Map.empty\<rparr> (Some (demo_params 0)) = Some (Inr 7, st)"
      "st_inv st" "ss_keys st = [7 \<mapsto> k]" by blast
  from sessions_init_inv(1) [OF c'(2), of "Some 7" "Inr 0" "[]" "Some (demo_params 0)"] st(1)
  have "keeps \<lparr>ss_ctx = c', ss_keys = Map.empty\<rparr> st" by simp
  then have "sc_ctxs (ss_ctx st) q = sc_ctxs c' q" for q unfolding keeps_def by (elim conjE) (simp only: sched_state.simps)
  then have "in_range (ss_ctx st) demo_ctxs" using demo_in_range [OF c'(1)] unfolding in_range_def by (simp only: simp_thms)
  moreover have "ss_keys st 7 = Some k" using st(3) by simp
  ultimately show ?thesis using set_param_compatible [OF st(2), of 7 k demo_wp "''sm4''" demo_ctxs rg_sec] st(3)
    by (auto simp: demo_wp_def)
qed

subsection \<open>Polling\<close>

text \<open>
  Polling a session always ends. It reports either a negative status of the callback other than
  \<^verbatim>\<open>-EAGAIN\<close>, or a number of responses, by which the pending counter of the session has then dropped
  (modulo its width); the contexts of the session stay as they are.
\<close>

theorem poll_skey_accounting:
  assumes "key_ok c k" and "- (2 ^ 31) \<le> kd_pending_count (sk_async_domain k)" and "kd_pending_count (sk_async_domain k) < 2 ^ 31"
  shows "\<exists>r k' w'. wd_sched_poll_skey poll k expect w = Some (r, k', w') \<and> key_ok c k' \<and>
    cache_ctxs (kd_idx_cache (sk_async_domain k')) = cache_ctxs (kd_idx_cache (sk_async_domain k)) \<and>
    (case r of Inl e \<Rightarrow> e < 0 \<and> e \<noteq> - EAGAIN
     | Inr n \<Rightarrow> n < 2 ^ 32 \<and> kd_pending_count (sk_async_domain k') = i32 (kd_pending_count (sk_async_domain k) - int n))"
proof -
  let ?p = "kd_pending_count (sk_async_domain k)"
  have p: "i32 ?p = ?p" using assms(2,3) by (rule i32_small)
  from poll_skey_spec [OF assms(1), of poll expect w] obtain r d' w' where
    r: "wd_sched_poll_skey poll k expect w = Some (r, k\<lparr>sk_async_domain := d'\<rparr>, w')"
      "poll_post (sk_async_domain k) 0 r d'" "key_ok c (k\<lparr>sk_async_domain := d'\<rparr>)" by blast
  have rng: "i32 (kd_pending_count d') = kd_pending_count d'" using r(2) p by (simp add: poll_post_def)
  have "kd_pending_count d' = i32 (?p - int n)" if "i32 (kd_pending_count d' + int n) = i32 ?p" for n
    using that i32_sub_acc [of "kd_pending_count d' + int n" "int n"] rng p by simp
  then show ?thesis using r by (auto simp: poll_post_def split: sum.splits)
qed

theorem poll_skey_accounting_witness:
  "\<exists>r k' w'. wd_sched_poll_skey (\<lambda>i e c w. (0, 2, w + 1)) zero_key 4 (0 :: nat) = Some (r, k', w') \<and>
    (case r of Inl e \<Rightarrow> e < 0 | Inr n \<Rightarrow> kd_pending_count (sk_async_domain k') = i32 (- int n))"
proof -
  have k: "key_ok (demo_ctx 0) zero_key" by (rule zero_key_ok) (simp_all add: zero_key_def)
  have "kd_pending_count (sk_async_domain zero_key) = 0" by (simp add: zero_key_def zero_key_domain_def)
  then show ?thesis using poll_skey_accounting [OF k, of "\<lambda>i e c w. (0, 2, w + 1)" 4 "0 :: nat"]
    by (auto split: sum.splits)
qed

text \<open>Sequences of hungry picks.\<close>

fun hungry_picks :: "(nat \<times> nat) list \<Rightarrow> sched_state \<Rightarrow> sched_state option" where
  "hungry_picks [] st = Some st"
| "hungry_picks ((a, m) # ops) st =
    (case skey_sched_pick_next_ctx (Some st) (Some a) m of
       Some (_, Some st') \<Rightarrow> hungry_picks ops st'
     | _ \<Rightarrow> None)"

lemma hungry_pick_pending:
  assumes "skey_sched_pick_next_ctx (Some st) (Some a) m = Some (i, Some st')" and "st_inv st" and "m < SCHED_MODE_BUTT"
    and "\<forall>a k. ss_keys st a = Some k \<longrightarrow> kd_pending_count (sk_async_domain k) \<le> 0"
  shows "st_inv st' \<and> (\<forall>a k. ss_keys st' a = Some k \<longrightarrow> kd_pending_count (sk_async_domain k) \<le> 0)"
proof -
  from assms(1) obtain k where a: "ss_keys st a = Some k"
    by (auto simp: skey_sched_pick_next_ctx_def split: option.splits)
  have m: "m < 2" using assms(3) by (simp add: SCHED_MODE_BUTT_def)
  have k: "key_ok (ss_ctx st) k" "sc_tbl_inv (ss_ctx st)" "sc_policy (ss_ctx st) < SCHED_POLICY_BUTT"
    using assms(2) a by (auto simp: st_inv_def)
  obtain j c' k' where h: "hungry_pick (ss_ctx st) k m = Some (j, c', k')" and st': "st' = st\<lparr>ss_ctx := c', ss_keys := (ss_keys st)(a \<mapsto> k')\<rparr>"
    using assms(1) a by (auto simp: skey_sched_pick_next_ctx_def split: option.splits)
  have other: "sk_async_domain k' = sk_async_domain k" if "m = SCHED_MODE_SYNC"
    using h that by (auto simp: hungry_pick_def set_mode_domain_def Let_def split: option.splits if_splits sum.splits prod.splits)
  have "kd_pending_count (mode_domain m k') = kd_pending_count (mode_domain m k)"
    using hungry_pick_cases [OF k m] h by auto
  then have "kd_pending_count (sk_async_domain k') \<le> 0"
    using assms(4) a other by (cases "m = SCHED_MODE_SYNC") (auto simp: mode_domain_def)
  moreover have "st_inv st'" using hungry_pick_inv [OF assms(2) a m] assms(1) by auto
  ultimately show ?thesis using assms(4) st' by auto
qed

lemma hungry_picks_pending:
  assumes "hungry_picks ops st = Some st'" and "st_inv st" and "list_all (\<lambda>(a, m). m < SCHED_MODE_BUTT) ops"
    and "\<forall>a k. ss_keys st a = Some k \<longrightarrow> kd_pending_count (sk_async_domain k) \<le> 0"
  shows "st_inv st' \<and> (\<forall>a k. ss_keys st' a = Some k \<longrightarrow> kd_pending_count (sk_async_domain k) \<le> 0)"
  using assms
proof (induction ops arbitrary: st)
  case (Cons am ops)
  obtain a m where am: "am = (a, m)" by (cases am)
  with Cons.prems(1) obtain i st1 where s: "skey_sched_pick_next_ctx (Some st) (Some a) m = Some (i, Some st1)" "hungry_picks ops st1 = Some st'"
    by (auto split: option.splits)
  have m: "m < SCHED_MODE_BUTT" "list_all (\<lambda>(a, m). m < SCHED_MODE_BUTT) ops" using Cons.prems(3) am by simp_all
  from hungry_pick_pending [OF s(1) Cons.prems(2) m(1) Cons.prems(4)] Cons.IH [OF s(2) _ m(2)] show ?case by blast
qed simp

text \<open>
  Under the hungry policy sending never raises the pending counter of a session, while polling visits only
  sessions whose counter is positive. So after any number of sends on sessions that start without pending
  requests, polling calls the driver for no session at all and reports that nothing was received, however many
  responses are waiting.
\<close>

theorem hungry_never_polled:
  assumes "st_inv st" and "\<forall>a k. ss_keys st a = Some k \<longrightarrow> kd_pending_count (sk_async_domain k) \<le> 0"
    and "list_all (\<lambda>(a, m). m < SCHED_MODE_BUTT) ops" and "hungry_picks ops st = Some st'"
    and "sc_skey_num (ss_ctx st') \<noteq> 0"
  shows "\<exists>tls'. skey_sched_poll_policy (Some poll) tls st' expect w = Some (Inr (Some 0), tls', st', w)"
proof -
  note idle = hungry_picks_pending [OF assms(4,1,3,2)]
  obtain tidx tls1 where tls: "sched_get_poll_skey_tidx (ss_ctx st') (fst tls) (snd tls) = (tidx, tls1)"
    by (cases "sched_get_poll_skey_tidx (ss_ctx st') (fst tls) (snd tls)")
  let ?ts = "map (\<lambda>i. u32 (tidx + i) mod SKEY_MAX_THREAD_NUM) [0 ..< SKEY_MAX_THREAD_NUM]"
  have "\<forall>t \<in> set ?ts. t < SKEY_MAX_THREAD_NUM" by (simp add: SKEY_MAX_THREAD_NUM_def)
  from poll_sessions_idle [OF _ this, of st' poll expect 0 w] idle
  have "poll_sessions poll expect ?ts st' 0 w = Some (Inr 0, st', w)" by blast
  then show ?thesis using assms(5) tls by (simp add: skey_sched_poll_policy_def)
qed


theorem hungry_never_polled_witness:
  "\<exists>st st' tls'. ss_keys st 7 \<noteq> None \<and> hungry_picks [(7, 1)] st = Some st' \<and>
    skey_sched_poll_policy (Some (\<lambda>i e c w. (0, 1, w + 1))) (0, 0) st' 1 (0 :: nat) = Some (Inr (Some 0), tls', st', 0)"
proof -
  from demo_session [OF disjI2 [OF refl]] obtain st k where
    st: "st_inv st" "ss_keys st = [7 \<mapsto> k]" "kd_pending_count (sk_async_domain k) = 0" by blast
  have k: "ss_keys st 7 = Some k" using st(2) by simp
  from hungry_pick_inv [OF st(1) k, of 1] obtain i st' where
    st': "skey_sched_pick_next_ctx (Some st) (Some 7) 1 = Some (i, Some st')" "same_domains (ss_ctx st) (ss_ctx st')" by auto
  have "slots_inv (ss_ctx st) (ss_keys st)" using st(1) by (simp add: st_inv_def)
  then have "set (occupied (sc_skey (ss_ctx st))) = {7}" "sc_skey_num (ss_ctx st) = length (occupied (sc_skey (ss_ctx st)))"
    using st(2) by (simp_all add: slots_inv_def)
  then have "sc_skey_num (ss_ctx st) \<noteq> 0" by auto
  then have num: "sc_skey_num (ss_ctx st') \<noteq> 0" using st'(2) unfolding same_domains_def by auto
  have idle: "\<forall>a k. ss_keys st a = Some k \<longrightarrow> kd_pending_count (sk_async_domain k) \<le> 0" using st(2,3) by auto
  have ops: "list_all (\<lambda>(a, m). m < SCHED_MODE_BUTT) [(7 :: nat, 1)]" by (simp add: SCHED_MODE_BUTT_def)
  have run: "hungry_picks [(7, 1)] st = Some st'" using st'(1) by simp
  from hungry_never_polled [OF st(1) idle ops run num, of "\<lambda>i e c w. (0, 1, w + 1)" "(0, 0)" 1 "0 :: nat"] run k
  show ?thesis by blast
qed

end
