(* ===== verification/Qm_Queue.thy ===== *)
theory Qm_Queue
  imports Uadk_Prelude "HOL-Library.Word"
begin

unbundle bit_operations_syntax

text \<open>
  The queue pair of the HiSilicon queue manager (\<^verbatim>\<open>drv/hisi_qm_udrv.c\<close>): doorbells, the submission and
  completion rings, sending and receiving (lines 120--213 and 427--671).

  The submission ring at \<^verbatim>\<open>sq_base\<close> is a list of \<^verbatim>\<open>sq_depth\<close> entries of \<^verbatim>\<open>sqe_size\<close> bytes each, of an
  arbitrary type; the completion ring at \<^verbatim>\<open>cq_base\<close> a list of completion entries. Both are shared with the
  device. A copy that leaves a ring has no outcome (\<open>None\<close>). The words read from the device status registers
  are parameters; the doorbells written are recorded in order. The spin locks make every call one step.
\<close>

definition QM_DBELL_CMD_SQ :: nat where "QM_DBELL_CMD_SQ = 0"
definition QM_DBELL_CMD_CQ :: nat where "QM_DBELL_CMD_CQ = 1"
definition QM_Q_DEPTH :: nat where "QM_Q_DEPTH = 1024"
definition QM_MAX_DEV_USAGE :: int where "QM_MAX_DEV_USAGE = 100"
definition QM_DEV_USAGE_RATE :: int where "QM_DEV_USAGE_RATE = 100"
definition HISI_QM_API_VER5_BASE :: nat where "HISI_QM_API_VER5_BASE = 5"

declare QM_DBELL_CMD_SQ_def [model_eval] QM_DBELL_CMD_CQ_def [model_eval]

datatype hacc_db = Hacc_Db_V1 | Hacc_Db_V2

record cqe =
  cqe_sq_head :: nat
  cqe_w7 :: nat

definition CQE_PHASE :: "cqe \<Rightarrow> bool" where
  "CQE_PHASE cqe \<longleftrightarrow> cqe_w7 cqe mod 2 = 1"

definition CQE_SQ_HEAD_INDEX :: "cqe \<Rightarrow> nat" where
  "CQE_SQ_HEAD_INDEX cqe = u16 (cqe_sq_head cqe)"

record hisi_qm_queue_info =
  qi_sq_base :: nat
  qi_cq_base :: nat
  qi_sqe_size :: nat
  qi_mmio_base :: nat
  qi_db_base :: nat
  qi_db :: hacc_db
  qi_ds_tx_base :: nat
  qi_ds_rx_base :: nat
  qi_qp_mode :: nat
  qi_sq_tail_index :: nat
  qi_cq_head_index :: nat
  qi_sq_depth :: nat
  qi_cq_depth :: nat
  qi_sqn :: nat
  qi_qc_type :: nat
  qi_used_num :: nat
  qi_hw_type :: nat
  qi_idx :: nat
  qi_cqc_phase :: bool
  qi_region_dus :: nat
  qi_region_mmio :: nat
  qi_epoll_en :: bool

text \<open>The queue information with the memory it shares with the device.\<close>

record 'e qm_queue =
  qq_info :: hisi_qm_queue_info
  qq_sq :: "'e list"
  qq_cq :: "cqe list"
  qq_doorbells :: "64 word list"

subsection \<open>Doorbells\<close>

definition hacc_db_v1 :: "nat \<Rightarrow> nat \<Rightarrow> nat \<Rightarrow> nat \<Rightarrow> 64 word" where
  "hacc_db_v1 sqn cmd idx priority =
    (let doorbell = (word_of_nat sqn :: 64 word) OR push_bit 16 (word_of_nat cmd) in
     doorbell OR push_bit 32 (word_of_nat idx OR push_bit 16 (word_of_nat priority)))"

definition hacc_db_v2 :: "nat \<Rightarrow> nat \<Rightarrow> nat \<Rightarrow> nat \<Rightarrow> 64 word" where
  "hacc_db_v2 sqn cmd idx priority =
    (let sqn = word_of_nat sqn AND 0x3ff;
         doorbell = (sqn :: 64 word) OR push_bit 12 (word_of_nat cmd AND 0xf) in
     doorbell OR push_bit 32 (word_of_nat idx OR push_bit 16 (word_of_nat priority)))"

definition ring_db :: "'e qm_queue \<Rightarrow> nat \<Rightarrow> nat \<Rightarrow> nat \<Rightarrow> 'e qm_queue" where
  "ring_db q cmd idx priority =
    (let info = qq_info q;
         db = (case qi_db info of
                 Hacc_Db_V1 \<Rightarrow> hacc_db_v1 (qi_sqn info) cmd idx priority
               | Hacc_Db_V2 \<Rightarrow> hacc_db_v2 (qi_sqn info) cmd idx priority) in
     q\<lparr>qq_doorbells := qq_doorbells q @ [db]\<rparr>)"

subsection \<open>Device usage\<close>

text \<open>\<open>val\<close> is the word read from the usage register of the channel.\<close>

definition hisi_qm_get_usage :: "'e qm_queue option \<Rightarrow> nat \<Rightarrow> wd_error + int" where
  "hisi_qm_get_usage qp val =
    (case qp of
       None \<Rightarrow> Inl WD_EINVAL
     | Some q \<Rightarrow>
         if qi_hw_type (qq_info q) < HISI_QM_API_VER5_BASE then Inl WD_EINVAL
         else
           (let cnt = u16 (val div 2 ^ 16) in
            if cnt = 0 then Inl WD_EINVAL
            else if cnt \<le> u16 val then Inr QM_MAX_DEV_USAGE
            else Inr (int (u16 val) * QM_DEV_USAGE_RATE div int cnt)))"

subsection \<open>Sending\<close>

text \<open>A copy of consecutive entries into a ring.\<close>

definition put_entries :: "'e list \<Rightarrow> nat \<Rightarrow> 'e list \<Rightarrow> 'e list option" where
  "put_entries ring pos xs =
    (if pos + length xs \<le> length ring then Some (take pos ring @ xs @ drop (pos + length xs) ring) else None)"

text \<open>\<open>sqe\<close> holds the entries of the request buffer; reading past its end has no outcome either.\<close>

definition hisi_qm_fill_sqe :: "'e list \<Rightarrow> nat \<Rightarrow> 'e list \<Rightarrow> nat \<Rightarrow> nat \<Rightarrow> 'e list option" where
  "hisi_qm_fill_sqe sqe sq_depth sq tail num =
    (if length sqe < num then None
     else if tail + num < sq_depth then put_entries sq tail (take num sqe)
     else if tail > sq_depth then None
     else
       (let idx = sq_depth - tail in
        case put_entries sq tail (take idx sqe) of
          None \<Rightarrow> None
        | Some sq \<Rightarrow> put_entries sq 0 (take (num - idx) (drop idx sqe))))"

definition get_free_num :: "hisi_qm_queue_info \<Rightarrow> int" where
  "get_free_num q_info = (int (qi_sq_depth q_info) - 1) - int (qi_used_num q_info)"

definition hisi_qm_get_free_sqe_num :: "'e qm_queue \<Rightarrow> int" where
  "hisi_qm_get_free_sqe_num q = get_free_num (qq_info q)"

text \<open>
  The result is the value stored in \<^verbatim>\<open>*count\<close>; \<open>count\<close> tells whether that pointer is given, \<open>ds_tx\<close> is the
  status word read before the doorbell.
\<close>

definition hisi_qm_send ::
  "nat \<Rightarrow> 'e qm_queue option \<Rightarrow> 'e list option \<Rightarrow> nat \<Rightarrow> bool \<Rightarrow> (nat result \<times> 'e qm_queue option) option" where
  "hisi_qm_send ds_tx qp req expect count =
    (case (qp, req) of
       (Some q, Some sqe) \<Rightarrow>
         if \<not> count then Some (Inl WD_EINVAL, qp)
         else
           (let info = qq_info q;
                free_num = u16 (nat (get_free_num info mod 2 ^ 16)) in
            if free_num = 0 then Some (Inl WD_EBUSY, qp)
            else if expect > free_num then Some (Inl WD_EBUSY, qp)
            else
              (let tail = qi_sq_tail_index info in
               case hisi_qm_fill_sqe sqe (qi_sq_depth info) (qq_sq q) tail expect of
                 None \<Rightarrow> None
               | Some sq \<Rightarrow>
                   (let q = q\<lparr>qq_sq := sq\<rparr>;
                        tail = (tail + expect) mod qi_sq_depth info in
                    if ds_tx = 1 then Some (Inl WD_HW_EACCESS, Some q)
                    else
                      (let q = ring_db q QM_DBELL_CMD_SQ tail 0;
                           info = info\<lparr>qi_sq_tail_index := tail,
                                       qi_used_num := u16 (qi_used_num info + expect)\<rparr> in
                       Some (Inr expect, Some (q\<lparr>qq_info := info\<rparr>))))))
     | _ \<Rightarrow> Some (Inl WD_EINVAL, qp))"

subsection \<open>Receiving\<close>

text \<open>
  One completion. The phase is flipped and the response copied before the status word \<open>ds_rx\<close> is looked at;
  the response is part of the result also when the status stops the call.
\<close>

definition hisi_qm_recv_single ::
  "nat \<Rightarrow> 'e qm_queue \<Rightarrow> ((unit result \<times> 'e option) \<times> 'e qm_queue) option" where
  "hisi_qm_recv_single ds_rx q =
    (let info = qq_info q; i = qi_cq_head_index info in
     case rd (qq_cq q) i of
       None \<Rightarrow> None
     | Some cqe \<Rightarrow>
         if qi_cqc_phase info \<noteq> CQE_PHASE cqe then Some ((Inl WD_EAGAIN, None), q)
         else
           (let j = CQE_SQ_HEAD_INDEX cqe in
            if j \<ge> qi_sq_depth info then Some ((Inl WD_EIO, None), q)
            else
              (case rd (qq_sq q) j of
                 None \<Rightarrow> None
               | Some resp \<Rightarrow>
                   (let (info, i) =
                          (if int i = int (qi_cq_depth info) - 1
                           then (info\<lparr>qi_cqc_phase := \<not> qi_cqc_phase info\<rparr>, 0)
                           else (info, u16 (i + 1)));
                        q = q\<lparr>qq_info := info\<rparr> in
                    if ds_rx = 1 then Some ((Inl WD_HW_EACCESS, Some resp), q)
                    else
                      (let q = ring_db q QM_DBELL_CMD_CQ i (if qi_epoll_en info then 1 else 0);
                           info = info\<lparr>qi_cq_head_index := i, qi_used_num := sub16 (qi_used_num info) 1\<rparr> in
                       Some ((Inr (), Some resp), q\<lparr>qq_info := info\<rparr>))))))"

text \<open>
  The loop of \<^verbatim>\<open>hisi_qm_recv\<close>: the status of the last call, the number of completions and the responses
  received so far. \<open>ds k\<close> is the status word of the \<open>k\<close>th read.
\<close>

fun recv_loop ::
  "(nat \<Rightarrow> nat) \<Rightarrow> nat \<Rightarrow> nat \<Rightarrow> 'e qm_queue \<Rightarrow> 'e list \<Rightarrow> ((unit result \<times> 'e list) \<times> 'e qm_queue) option" where
  "recv_loop ds k 0 q resps = Some ((Inr (), resps), q)"
| "recv_loop ds k (Suc n) q resps =
    (case hisi_qm_recv_single (ds k) q of
       None \<Rightarrow> None
     | Some ((Inl e, _), q) \<Rightarrow> Some ((Inl e, resps), q)
     | Some ((Inr _, resp), q) \<Rightarrow>
         recv_loop ds (Suc k) n q (case resp of None \<Rightarrow> resps | Some r \<Rightarrow> resps @ [r]))"

text \<open>The status, what is stored in \<^verbatim>\<open>*count\<close> (\<open>None\<close> when nothing is) and the received responses.\<close>

definition hisi_qm_recv ::
  "(nat \<Rightarrow> nat) \<Rightarrow> 'e qm_queue option \<Rightarrow> bool \<Rightarrow> nat \<Rightarrow> bool
    \<Rightarrow> ((unit result \<times> nat option \<times> 'e list) \<times> 'e qm_queue option) option" where
  "hisi_qm_recv ds qp resp expect count =
    (case qp of
       None \<Rightarrow> Some ((Inl WD_EINVAL, None, []), qp)
     | Some q \<Rightarrow>
         if \<not> resp \<or> \<not> count then Some ((Inl WD_EINVAL, None, []), qp)
         else if expect = 0 then Some ((Inr (), None, []), qp)
         else if ds 0 = 1 then Some ((Inl WD_HW_EACCESS, None, []), qp)
         else
           (case recv_loop ds 1 expect q [] of
              None \<Rightarrow> None
            | Some ((ret, resps), q) \<Rightarrow> Some ((ret, Some (length resps), resps), Some q)))"

definition hisi_check_bd_id :: "'e qm_queue \<Rightarrow> nat \<Rightarrow> nat \<Rightarrow> unit result" where
  "hisi_check_bd_id q mid bid =
    (if qi_qp_mode (qq_info q) = CTX_MODE_SYNC \<and> mid \<noteq> bid then Inl WD_EINVAL else Inr ())"

text \<open>
  The message id: \<open>nrand48\<close> of the C library is a parameter from its three seeds to its result. The thread's
  seed and the tag are passed in and out.
\<close>

definition hisi_set_msg_id :: "(nat \<Rightarrow> nat \<Rightarrow> nat \<Rightarrow> nat) \<Rightarrow> 'e qm_queue \<Rightarrow> nat \<Rightarrow> nat \<Rightarrow> nat \<times> nat" where
  "hisi_set_msg_id nrand48 q rand_seed tag =
    (if qi_qp_mode (qq_info q) = CTX_MODE_SYNC
     then (let id = nrand48 (u16 rand_seed) (u16 (rand_seed div 2 ^ 16)) 0 in (id, u32 id))
     else (rand_seed, tag))"

subsection \<open>Ring positions\<close>

lemma mod_inj_window: "n \<le> m \<Longrightarrow> m < n + d \<Longrightarrow> m mod d = n mod d \<Longrightarrow> m = (n::nat)"
  by (metis add.commute diff_is_0_eq' diff_less_mono2 le_add_diff_inverse2 mod_eq_dvd_iff_nat nat_dvd_not_less neq0_conv
      less_diff_conv2 linordered_semidom_class.add_diff_inverse not_less)

definition ring_dist :: "nat \<Rightarrow> nat \<Rightarrow> nat \<Rightarrow> nat" where
  "ring_dist d t j = (if t \<le> j then j - t else j + d - t)"

lemma ring_dist_add: "t < d \<Longrightarrow> k < d \<Longrightarrow> ring_dist d t ((t + k) mod d) = k"
  by (cases "t + k < d") (auto simp: ring_dist_def mod_if)

lemma put_entries_nth:
  assumes "pos + length xs \<le> length ring"
  obtains r where "put_entries ring pos xs = Some r" "length r = length ring"
    "\<And>j. j < length ring \<Longrightarrow> r ! j = (if pos \<le> j \<and> j < pos + length xs then xs ! (j - pos) else ring ! j)"
proof
  show "put_entries ring pos xs = Some (take pos ring @ xs @ drop (pos + length xs) ring)"
    using assms by (simp add: put_entries_def)
qed (use assms in \<open>auto simp: nth_append\<close>)

text \<open>Filling the ring from position \<open>t\<close> on writes the entries at distance \<open>0, 1, ...\<close> and nothing else.\<close>

lemma fill_sqe_spec:
  assumes "length sq = d" and "t < d" and "e < d" and "e \<le> length xs"
  shows "\<exists>sq'. hisi_qm_fill_sqe xs d sq t e = Some sq' \<and> length sq' = d \<and>
    (\<forall>j < d. sq' ! j = (if ring_dist d t j < e then xs ! ring_dist d t j else sq ! j))"
proof (cases "t + e < d")
  case True
  have "t + length (take e xs) \<le> length sq" using True assms by simp
  from put_entries_nth [OF this] obtain sq' where sq': "put_entries sq t (take e xs) = Some sq'" "length sq' = length sq"
    "\<And>j. j < length sq \<Longrightarrow> sq' ! j = (if t \<le> j \<and> j < t + length (take e xs) then take e xs ! (j - t) else sq ! j)" by blast
  have "sq' ! j = (if ring_dist d t j < e then xs ! ring_dist d t j else sq ! j)" if "j < d" for j
    using sq'(3) [of j] that assms True by (auto simp: ring_dist_def)
  then show ?thesis using sq'(1,2) assms True by (simp add: hisi_qm_fill_sqe_def)
next
  case False
  let ?i = "d - t"
  have "t + length (take ?i xs) \<le> length sq" using assms by simp
  from put_entries_nth [OF this] obtain s1 where s1: "put_entries sq t (take ?i xs) = Some s1" "length s1 = length sq"
    "\<And>j. j < length sq \<Longrightarrow> s1 ! j = (if t \<le> j \<and> j < t + length (take ?i xs) then take ?i xs ! (j - t) else sq ! j)" by blast
  have "0 + length (take (e - ?i) (drop ?i xs)) \<le> length s1" using assms s1(2) by simp
  from put_entries_nth [OF this] obtain s2 where
    s2: "put_entries s1 0 (take (e - ?i) (drop ?i xs)) = Some s2" "length s2 = length s1"
    "\<And>j. j < length s1 \<Longrightarrow> s2 ! j = (if 0 \<le> j \<and> j < 0 + length (take (e - ?i) (drop ?i xs))
       then take (e - ?i) (drop ?i xs) ! (j - 0) else s1 ! j)" by blast
  have "s2 ! j = (if ring_dist d t j < e then xs ! ring_dist d t j else sq ! j)" if "j < d" for j
  proof (cases "t \<le> j")
    case True
    then show ?thesis using s2(3) [of j] s1(2) s1(3) [of j] that assms False by (auto simp: ring_dist_def)
  next
    case lt: False
    then have "d - t + j = j + d - t" using that assms(2) by simp
    then show ?thesis using s2(3) [of j] s1(2) s1(3) [of j] that assms False lt by (auto simp: ring_dist_def)
  qed
  then show ?thesis using s1(1,2) s2(1,2) assms False by (simp add: hisi_qm_fill_sqe_def)
qed

subsection \<open>The queue with a device\<close>

text \<open>
  The history of a queue: the entries submitted, the responses of the device and the responses received, each
  in order. The device is outside of the sources; its documented protocol is the step \<open>complete\<close> below: it
  completes the submitted entries in order, puts the response in the slot of the entry and writes the next
  completion entry with the slot number and the phase bit, which changes with every pass over the ring. The
  relation is about a working device: a receive during which the status word reports an error is not a step
  of it (such a receive can leave the expected phase wrong, \<open>recv_error_loses_completion\<close> below).
\<close>

record 'e qm_sys =
  qs_queue :: "'e qm_queue"
  qs_sent :: "'e list"
  qs_resp :: "'e list"
  qs_recv :: "'e list"

definition phase_at :: "nat \<Rightarrow> nat \<Rightarrow> bool" where
  "phase_at c n \<longleftrightarrow> even (n div c)"

definition dev_complete :: "'e \<Rightarrow> 'e qm_sys \<Rightarrow> 'e qm_sys" where
  "dev_complete r s =
    (let q = qs_queue s; n = length (qs_resp s); d = qi_sq_depth (qq_info q); c = qi_cq_depth (qq_info q) in
     s\<lparr>qs_queue := q\<lparr>qq_sq := (qq_sq q)[n mod d := r],
                     qq_cq := (qq_cq q)[n mod c := \<lparr>cqe_sq_head = n mod d, cqe_w7 = (if phase_at c n then 1 else 0)\<rparr>]\<rparr>,
       qs_resp := qs_resp s @ [r]\<rparr>)"

inductive qm_step :: "'e qm_sys \<Rightarrow> 'e qm_sys \<Rightarrow> bool" where
  qm_send: "hisi_qm_send ds (Some (qs_queue s)) (Some xs) e True = Some (r, Some q') \<Longrightarrow> e \<le> length xs \<Longrightarrow>
    qm_step s (s\<lparr>qs_queue := q', qs_sent := qs_sent s @ (case r of Inl _ \<Rightarrow> [] | Inr n \<Rightarrow> take n xs)\<rparr>)"
| qm_complete: "length (qs_resp s) < length (qs_sent s) \<Longrightarrow> qm_step s (dev_complete r s)"
| qm_recv: "hisi_qm_recv ds (Some (qs_queue s)) True e True = Some ((r, cnt, ys), Some q') \<Longrightarrow> \<forall>k. ds k \<noteq> 1 \<Longrightarrow>
    qm_step s (s\<lparr>qs_queue := q', qs_recv := qs_recv s @ ys\<rparr>)"

inductive_cases qm_stepE: "qm_step s s'"

definition ring_inv :: "'e qm_sys \<Rightarrow> bool" where
  "ring_inv s \<longleftrightarrow>
    (let q = qs_queue s; i = qq_info q; d = qi_sq_depth i; c = qi_cq_depth i;
         S = length (qs_sent s); N = length (qs_resp s); R = length (qs_recv s) in
     0 < d \<and> d \<le> c \<and> c < 2 ^ 16 \<and> length (qq_sq q) = d \<and> length (qq_cq q) = c \<and>
     R \<le> N \<and> N \<le> S \<and> qi_used_num i = S - R \<and> S - R \<le> d - 1 \<and>
     qi_sq_tail_index i = S mod d \<and> qi_cq_head_index i = R mod c \<and> qi_cqc_phase i = phase_at c R \<and>
     qs_recv s = take R (qs_resp s) \<and>
     (\<forall>n. R \<le> n \<and> n < N \<longrightarrow> qq_sq q ! (n mod d) = qs_resp s ! n \<and>
        CQE_SQ_HEAD_INDEX (qq_cq q ! (n mod c)) = n mod d \<and> CQE_PHASE (qq_cq q ! (n mod c)) = phase_at c n) \<and>
     (\<forall>n. N \<le> n \<and> n < S \<longrightarrow> qq_sq q ! (n mod d) = qs_sent s ! n) \<and>
     (\<forall>n. N \<le> n \<and> n < R + c \<longrightarrow> CQE_PHASE (qq_cq q ! (n mod c)) \<noteq> phase_at c n))"

lemma ring_invD:
  assumes "ring_inv s"
  shows "0 < qi_sq_depth (qq_info (qs_queue s))" "qi_sq_depth (qq_info (qs_queue s)) \<le> qi_cq_depth (qq_info (qs_queue s))"
    "qi_cq_depth (qq_info (qs_queue s)) < 2 ^ 16"
    "length (qq_sq (qs_queue s)) = qi_sq_depth (qq_info (qs_queue s))"
    "length (qq_cq (qs_queue s)) = qi_cq_depth (qq_info (qs_queue s))"
    "length (qs_recv s) \<le> length (qs_resp s)" "length (qs_resp s) \<le> length (qs_sent s)"
    "qi_used_num (qq_info (qs_queue s)) = length (qs_sent s) - length (qs_recv s)"
    "length (qs_sent s) - length (qs_recv s) \<le> qi_sq_depth (qq_info (qs_queue s)) - 1"
    "qi_sq_tail_index (qq_info (qs_queue s)) = length (qs_sent s) mod qi_sq_depth (qq_info (qs_queue s))"
    "qi_cq_head_index (qq_info (qs_queue s)) = length (qs_recv s) mod qi_cq_depth (qq_info (qs_queue s))"
    "qi_cqc_phase (qq_info (qs_queue s)) = phase_at (qi_cq_depth (qq_info (qs_queue s))) (length (qs_recv s))"
    "qs_recv s = take (length (qs_recv s)) (qs_resp s)"
  using assms unfolding ring_inv_def Let_def by blast+

lemma ring_inv_done:
  assumes "ring_inv s" and "length (qs_recv s) \<le> n" and "n < length (qs_resp s)"
  shows "qq_sq (qs_queue s) ! (n mod qi_sq_depth (qq_info (qs_queue s))) = qs_resp s ! n"
    "CQE_SQ_HEAD_INDEX (qq_cq (qs_queue s) ! (n mod qi_cq_depth (qq_info (qs_queue s)))) = n mod qi_sq_depth (qq_info (qs_queue s))"
    "CQE_PHASE (qq_cq (qs_queue s) ! (n mod qi_cq_depth (qq_info (qs_queue s)))) = phase_at (qi_cq_depth (qq_info (qs_queue s))) n"
  using assms unfolding ring_inv_def Let_def by blast+

lemma ring_inv_pending:
  assumes "ring_inv s" and "length (qs_resp s) \<le> n" and "n < length (qs_sent s)"
  shows "qq_sq (qs_queue s) ! (n mod qi_sq_depth (qq_info (qs_queue s))) = qs_sent s ! n"
  using assms unfolding ring_inv_def Let_def by blast

lemma ring_inv_free:
  assumes "ring_inv s" and "length (qs_resp s) \<le> n" and "n < length (qs_recv s) + qi_cq_depth (qq_info (qs_queue s))"
  shows "CQE_PHASE (qq_cq (qs_queue s) ! (n mod qi_cq_depth (qq_info (qs_queue s)))) \<noteq> phase_at (qi_cq_depth (qq_info (qs_queue s))) n"
  using assms unfolding ring_inv_def Let_def by blast

subsection \<open>Sending\<close>

lemma ring_db_frame [simp]:
  "qq_info (ring_db q c i p) = qq_info q" "qq_sq (ring_db q c i p) = qq_sq q" "qq_cq (ring_db q c i p) = qq_cq q"
  by (simp_all add: ring_db_def Let_def)

lemma phase_next: "0 < c \<Longrightarrow> phase_at c (n + c) \<noteq> phase_at c n"
  by (simp add: phase_at_def div_add_self2)

text \<open>The outcomes of a send in a consistent state.\<close>

lemma send_cases:
  assumes inv: "ring_inv s" and len: "e \<le> length xs"
  obtains (busy) "hisi_qm_send ds (Some (qs_queue s)) (Some xs) e True = Some (Inl WD_EBUSY, Some (qs_queue s))"
      "length (qs_sent s) - length (qs_recv s) = qi_sq_depth (qq_info (qs_queue s)) - 1 \<or>
       qi_sq_depth (qq_info (qs_queue s)) - 1 < length (qs_sent s) - length (qs_recv s) + e"
  | (ok) r q' where "hisi_qm_send ds (Some (qs_queue s)) (Some xs) e True = Some (r, Some q')"
      "length (qs_sent s) - length (qs_recv s) + e \<le> qi_sq_depth (qq_info (qs_queue s)) - 1"
      "r = (if ds = 1 then Inl WD_HW_EACCESS else Inr e)"
      "length (qq_sq q') = qi_sq_depth (qq_info (qs_queue s))" "qq_cq q' = qq_cq (qs_queue s)"
      "\<And>k. k < e \<Longrightarrow> qq_sq q' ! ((length (qs_sent s) + k) mod qi_sq_depth (qq_info (qs_queue s))) = xs ! k"
      "\<And>n. n < length (qs_sent s) \<Longrightarrow> length (qs_sent s) + e \<le> n + qi_sq_depth (qq_info (qs_queue s)) \<Longrightarrow>
         qq_sq q' ! (n mod qi_sq_depth (qq_info (qs_queue s))) = qq_sq (qs_queue s) ! (n mod qi_sq_depth (qq_info (qs_queue s)))"
      "qq_info q' = (if ds = 1 then qq_info (qs_queue s) else (qq_info (qs_queue s))
         \<lparr>qi_sq_tail_index := (length (qs_sent s) + e) mod qi_sq_depth (qq_info (qs_queue s)),
          qi_used_num := length (qs_sent s) - length (qs_recv s) + e\<rparr>)"
proof -
  let ?q = "qs_queue s" and ?S = "length (qs_sent s)" and ?R = "length (qs_recv s)"
  let ?i = "qq_info ?q" let ?d = "qi_sq_depth ?i"
  note D = ring_invD [OF inv]
  have d: "?d < 2 ^ 16" using D(2,3) by simp
  have free: "get_free_num ?i = int (?d - 1 - (?S - ?R))" using D(1,8,9) by (simp add: get_free_num_def)
  have fn: "u16 (nat (get_free_num ?i mod 2 ^ 16)) = ?d - 1 - (?S - ?R)"
    using d by (simp add: free u16_def zmod_int [symmetric])
  note eq = hisi_qm_send_def [of ds "Some ?q" "Some xs" e True, unfolded option.case prod.case Let_def fn]
  show ?thesis
  proof (cases "?d - 1 - (?S - ?R) = 0 \<or> e > ?d - 1 - (?S - ?R)")
    case True
    then have "hisi_qm_send ds (Some ?q) (Some xs) e True = Some (Inl WD_EBUSY, Some ?q)" using eq by auto
    moreover have "?S - ?R = ?d - 1 \<or> ?d - 1 < ?S - ?R + e" using True D(9) by auto
    ultimately show ?thesis by (rule busy)
  next
    case False
    then have room: "?S - ?R + e \<le> ?d - 1" by auto
    have t: "qi_sq_tail_index ?i = ?S mod ?d" "?S mod ?d < ?d" using D(1,10) by simp_all
    have e: "e < ?d" using room D(1) by simp
    from fill_sqe_spec [OF D(4) t(2) e len] obtain sq' where
      fill: "hisi_qm_fill_sqe xs ?d (qq_sq ?q) (?S mod ?d) e = Some sq'" "length sq' = ?d"
        "\<forall>j < ?d. sq' ! j = (if ring_dist ?d (?S mod ?d) j < e then xs ! ring_dist ?d (?S mod ?d) j else qq_sq ?q ! j)" by blast
    have tail: "(?S mod ?d + e) mod ?d = (?S + e) mod ?d" by (simp add: mod_add_left_eq)
    have new: "sq' ! ((?S + k) mod ?d) = xs ! k" if "k < e" for k
    proof -
      have "ring_dist ?d (?S mod ?d) ((?S mod ?d + k) mod ?d) = k" using t(2) e that by (intro ring_dist_add) simp_all
      then have "ring_dist ?d (?S mod ?d) ((?S + k) mod ?d) = k" by (simp add: mod_add_left_eq)
      moreover have "(?S + k) mod ?d < ?d" using D(1) by simp
      ultimately show ?thesis using fill(3) that by simp
    qed
    have old: "sq' ! (n mod ?d) = qq_sq ?q ! (n mod ?d)" if n: "n < ?S" "?S + e \<le> n + ?d" for n
    proof -
      let ?k = "n + ?d - ?S"
      have k: "?k < ?d" "e \<le> ?k" using n by simp_all
      have "(?S mod ?d + ?k) mod ?d = (?S + ?k) mod ?d" by (simp add: mod_add_left_eq)
      also have "\<dots> = n mod ?d" using n by simp
      finally have "ring_dist ?d (?S mod ?d) (n mod ?d) = ?k" using ring_dist_add [OF t(2) k(1)] by simp
      moreover have "n mod ?d < ?d" using D(1) by simp
      ultimately show ?thesis using fill(3) k(2) by simp
    qed
    have used: "u16 (qi_used_num ?i + e) = ?S - ?R + e" using room d D(8) by (simp add: u16_def)
    define q' where "q' = (if ds = 1 then ?q\<lparr>qq_sq := sq'\<rparr> else (ring_db (?q\<lparr>qq_sq := sq'\<rparr>) QM_DBELL_CMD_SQ ((?S + e) mod ?d) 0)
       \<lparr>qq_info := ?i\<lparr>qi_sq_tail_index := (?S + e) mod ?d, qi_used_num := ?S - ?R + e\<rparr>\<rparr>)"
    have "hisi_qm_send ds (Some ?q) (Some xs) e True = Some (if ds = 1 then Inl WD_HW_EACCESS else Inr e, Some q')"
      using False eq t(1) fill(1) tail used by (simp add: q'_def)
    then show ?thesis using room fill(2) new old
      by (intro ok [of "if ds = 1 then Inl WD_HW_EACCESS else Inr e" q']) (simp_all add: q'_def)
  qed
qed

lemma ring_invI:
  assumes "qq_info q = i" "qi_sq_depth i = d" "qi_cq_depth i = c"
    and "0 < d" "d \<le> c" "c < 2 ^ 16" "length (qq_sq q) = d" "length (qq_cq q) = c"
    and "length ys \<le> length rs" "length rs \<le> length xs" "qi_used_num i = length xs - length ys"
    and "length xs - length ys \<le> d - 1" "qi_sq_tail_index i = length xs mod d" "qi_cq_head_index i = length ys mod c"
    and "qi_cqc_phase i = phase_at c (length ys)" "ys = take (length ys) rs"
    and "\<And>n. length ys \<le> n \<Longrightarrow> n < length rs \<Longrightarrow> qq_sq q ! (n mod d) = rs ! n \<and>
       CQE_SQ_HEAD_INDEX (qq_cq q ! (n mod c)) = n mod d \<and> CQE_PHASE (qq_cq q ! (n mod c)) = phase_at c n"
    and "\<And>n. length rs \<le> n \<Longrightarrow> n < length xs \<Longrightarrow> qq_sq q ! (n mod d) = xs ! n"
    and "\<And>n. length rs \<le> n \<Longrightarrow> n < length ys + c \<Longrightarrow> CQE_PHASE (qq_cq q ! (n mod c)) \<noteq> phase_at c n"
  shows "ring_inv \<lparr>qs_queue = q, qs_sent = xs, qs_resp = rs, qs_recv = ys\<rparr>"
  unfolding ring_inv_def Let_def qm_sys.simps assms(1-3) using assms(4-) by blast

lemma send_inv:
  assumes inv: "ring_inv s" and call: "hisi_qm_send ds (Some (qs_queue s)) (Some xs) e True = Some (r, Some q')"
    and len: "e \<le> length xs"
  shows "ring_inv (s\<lparr>qs_queue := q', qs_sent := qs_sent s @ (case r of Inl _ \<Rightarrow> [] | Inr n \<Rightarrow> take n xs)\<rparr>)"
  using inv len
proof (cases rule: send_cases [where ds = ds])
  case busy
  then show ?thesis using call inv by simp
next
  case (ok r1 q1)
  let ?q = "qs_queue s" and ?S = "length (qs_sent s)" and ?R = "length (qs_recv s)" and ?N = "length (qs_resp s)"
  let ?i = "qq_info ?q" let ?d = "qi_sq_depth ?i" and ?c = "qi_cq_depth ?i"
  note D = ring_invD [OF inv]
  have q': "q1 = q'" "r1 = r" using ok(1) call by simp_all
  have keep: "qq_sq q' ! (n mod ?d) = qq_sq ?q ! (n mod ?d)" if "?R \<le> n" "n < ?S" for n
    using ok(7) [of n] that ok(2) D(1) q'(1) by simp
  let ?xs = "case r of Inl _ \<Rightarrow> [] | Inr n \<Rightarrow> take n xs"
  have xs: "?xs = (if ds = 1 then [] else take e xs)" using ok(3) q' by simp
  have "ring_inv \<lparr>qs_queue = q', qs_sent = qs_sent s @ ?xs, qs_resp = qs_resp s, qs_recv = qs_recv s\<rparr>"
  proof (rule ring_invI [OF refl, of _ ?d ?c])
    show "qi_sq_depth (qq_info q') = ?d" "qi_cq_depth (qq_info q') = ?c" using ok(8) q' by simp_all
    show "0 < ?d" "?d \<le> ?c" "?c < 2 ^ 16" by (rule D)+
    show "length (qq_sq q') = ?d" "length (qq_cq q') = ?c" using ok(4,5) q' D(5) by simp_all
    show "?R \<le> ?N" "qs_recv s = take ?R (qs_resp s)" by (rule D)+
    show "?N \<le> length (qs_sent s @ ?xs)" using D(7) by simp
    show "qi_used_num (qq_info q') = length (qs_sent s @ ?xs) - ?R"
      using ok(8) q' D(6-8) len by (simp add: xs)
    show "length (qs_sent s @ ?xs) - ?R \<le> ?d - 1" using ok(2) D(6,7,9) len
      by (cases "ds = 1") (simp_all add: xs)
    show "qi_sq_tail_index (qq_info q') = length (qs_sent s @ ?xs) mod ?d" using ok(8) q' D(10) len by (simp add: xs)
    show "qi_cq_head_index (qq_info q') = ?R mod ?c" "qi_cqc_phase (qq_info q') = phase_at ?c ?R"
      using ok(8) q' D(11,12) by simp_all
    show "qq_sq q' ! (n mod ?d) = qs_resp s ! n \<and> CQE_SQ_HEAD_INDEX (qq_cq q' ! (n mod ?c)) = n mod ?d \<and>
        CQE_PHASE (qq_cq q' ! (n mod ?c)) = phase_at ?c n" if "?R \<le> n" "n < ?N" for n
      using ring_inv_done [OF inv that] keep [of n] that D(7) ok(5) q' by simp
    show "qq_sq q' ! (n mod ?d) = (qs_sent s @ ?xs) ! n" if n: "?N \<le> n" "n < length (qs_sent s @ ?xs)" for n
    proof (cases "n < ?S")
      case True
      then show ?thesis using ring_inv_pending [OF inv n(1) True] keep [of n] n(1) D(6) by (simp add: nth_append)
    next
      case False
      then have "n - ?S < e" "ds \<noteq> 1" using n(2) by (auto simp: xs split: if_splits)
      then show ?thesis using ok(6) [of "n - ?S"] False q' by (simp add: nth_append xs)
    qed
    show "CQE_PHASE (qq_cq q' ! (n mod ?c)) \<noteq> phase_at ?c n" if "?N \<le> n" "n < ?R + ?c" for n
      using ring_inv_free [OF inv that] ok(5) q' by simp
  qed
  then show ?thesis by (cases s) simp
qed

lemma complete_inv:
  assumes inv: "ring_inv s" and lt: "length (qs_resp s) < length (qs_sent s)"
  shows "ring_inv (dev_complete r s)"
proof -
  let ?q = "qs_queue s" and ?S = "length (qs_sent s)" and ?R = "length (qs_recv s)" and ?N = "length (qs_resp s)"
  let ?i = "qq_info ?q" let ?d = "qi_sq_depth ?i" and ?c = "qi_cq_depth ?i"
  let ?e = "\<lparr>cqe_sq_head = ?N mod ?d, cqe_w7 = (if phase_at ?c ?N then 1 else 0)\<rparr>"
  let ?q' = "?q\<lparr>qq_sq := (qq_sq ?q)[?N mod ?d := r], qq_cq := (qq_cq ?q)[?N mod ?c := ?e]\<rparr>"
  note D = ring_invD [OF inv]
  have c: "0 < ?c" using D(1,2) by simp
  have pos: "?N mod ?d < length (qq_sq ?q)" "?N mod ?c < length (qq_cq ?q)" using D(1,4,5) c by simp_all
  have e: "CQE_SQ_HEAD_INDEX ?e = ?N mod ?d" "CQE_PHASE ?e = phase_at ?c ?N"
  proof -
    have "?N mod ?d < ?d" using D(1) by simp
    then have "?N mod ?d < 2 ^ 16" using D(2,3) by linarith
    then show "CQE_SQ_HEAD_INDEX ?e = ?N mod ?d" by (simp add: CQE_SQ_HEAD_INDEX_def u16_def)
    show "CQE_PHASE ?e = phase_at ?c ?N" by (simp add: CQE_PHASE_def)
  qed
  have sq_ne: "n mod ?d \<noteq> ?N mod ?d" if "?R \<le> n" "n < ?S" "n \<noteq> ?N" for n
    using mod_inj_window [of n ?N ?d] mod_inj_window [of ?N n ?d] that lt D(1,6,9) by (cases "n \<le> ?N") force+
  have cq_ne: "n mod ?c \<noteq> ?N mod ?c" if "?R \<le> n" "n < ?R + ?c" "n \<noteq> ?N" for n
    using mod_inj_window [of n ?N ?c] mod_inj_window [of ?N n ?c] that lt D(1,2,6,9) by (cases "n \<le> ?N") force+
  have "ring_inv \<lparr>qs_queue = ?q', qs_sent = qs_sent s, qs_resp = qs_resp s @ [r], qs_recv = qs_recv s\<rparr>"
  proof (rule ring_invI [of _ ?i ?d ?c])
    show "0 < ?d" "?d \<le> ?c" "?c < 2 ^ 16" by (rule D)+
    show "?R \<le> length (qs_resp s @ [r])" "length (qs_resp s @ [r]) \<le> ?S" using D(6) lt by simp_all
    show "qs_recv s = take ?R (qs_resp s @ [r])" using D(6,13) by simp
    show "qq_sq ?q' ! (n mod ?d) = (qs_resp s @ [r]) ! n \<and> CQE_SQ_HEAD_INDEX (qq_cq ?q' ! (n mod ?c)) = n mod ?d \<and>
        CQE_PHASE (qq_cq ?q' ! (n mod ?c)) = phase_at ?c n" if n: "?R \<le> n" "n < length (qs_resp s @ [r])" for n
    proof (cases "n = ?N")
      case True
      then show ?thesis using pos e by simp
    next
      case False
      then have lt': "n < ?N" using n(2) by simp
      have "n < ?R + ?c" using lt' lt D(1,2,9) n(1) by linarith
      then show ?thesis using ring_inv_done [OF inv n(1) lt'] sq_ne [OF n(1) _ False] cq_ne [OF n(1) _ False] lt lt'
        by (simp add: nth_append)
    qed
    show "qq_sq ?q' ! (n mod ?d) = qs_sent s ! n" if n: "length (qs_resp s @ [r]) \<le> n" "n < ?S" for n
      using ring_inv_pending [OF inv, of n] sq_ne [of n] n D(6) by simp
    show "CQE_PHASE (qq_cq ?q' ! (n mod ?c)) \<noteq> phase_at ?c n" if n: "length (qs_resp s @ [r]) \<le> n" "n < ?R + ?c" for n
      using ring_inv_free [OF inv, of n] cq_ne [of n] n D(6) by simp
  qed (use D in simp_all)
  then show ?thesis by (cases s) (simp add: dev_complete_def Let_def)
qed

lemma phase_Suc: "0 < c \<Longrightarrow> phase_at c (Suc n) = (if n mod c = c - 1 then \<not> phase_at c n else phase_at c n)"
  by (auto simp: phase_at_def div_Suc mod_Suc)

lemma mod_Suc_ring: "0 < c \<Longrightarrow> Suc n mod c = (if n mod c = c - 1 then 0 else Suc (n mod c))"
  by (auto simp: mod_Suc)

lemma recv_single_cases:
  assumes inv: "ring_inv s" and ds: "ds \<noteq> 1"
  obtains (empty) "length (qs_recv s) = length (qs_resp s)"
      "hisi_qm_recv_single ds (qs_queue s) = Some ((Inl WD_EAGAIN, None), qs_queue s)"
  | (got) q' where "length (qs_recv s) < length (qs_resp s)"
      "hisi_qm_recv_single ds (qs_queue s) = Some ((Inr (), Some (qs_resp s ! length (qs_recv s))), q')"
      "ring_inv (s\<lparr>qs_queue := q', qs_recv := qs_recv s @ [qs_resp s ! length (qs_recv s)]\<rparr>)"
proof -
  let ?q = "qs_queue s" and ?S = "length (qs_sent s)" and ?R = "length (qs_recv s)" and ?N = "length (qs_resp s)"
  let ?i = "qq_info ?q" let ?d = "qi_sq_depth ?i" and ?c = "qi_cq_depth ?i"
  note D = ring_invD [OF inv]
  have c: "0 < ?c" using D(1,2) by simp
  have rm: "?R mod ?c < ?c" using c by simp
  have cqe: "rd (qq_cq ?q) (?R mod ?c) = Some (qq_cq ?q ! (?R mod ?c))" using D(5) rm by simp
  show ?thesis
  proof (cases "?R = ?N")
    case True
    then have "CQE_PHASE (qq_cq ?q ! (?R mod ?c)) \<noteq> phase_at ?c ?R" using ring_inv_free [OF inv, of ?R] c by simp
    then have "hisi_qm_recv_single ds ?q = Some ((Inl WD_EAGAIN, None), ?q)"
      using cqe D(11,12) by (simp add: hisi_qm_recv_single_def Let_def)
    with True show ?thesis by (rule empty)
  next
    case False
    then have lt: "?R < ?N" using D(6) by simp
    note cpl = ring_inv_done [OF inv order_refl lt]
    let ?j = "?R mod ?d"
    have j: "?j < ?d" using D(1) by simp
    define i' where "i' = ?i\<lparr>qi_cqc_phase := phase_at ?c (Suc ?R), qi_cq_head_index := Suc ?R mod ?c, qi_used_num := ?S - Suc ?R\<rparr>"
    have used: "sub16 (qi_used_num ?i) 1 = ?S - Suc ?R"
      using D(1-3,7-9) lt by (subst sub16_small) auto
    have u: "u16 (?R mod ?c + 1) = Suc (?R mod ?c)" if "?R mod ?c \<noteq> ?c - 1"
      using rm D(3) that by (intro trans [OF u16_small]) auto
    have last: "int (?R mod ?c) = int ?c - 1 \<longleftrightarrow> ?R mod ?c = ?c - 1" using c by auto
    let ?i1 = "?i\<lparr>qi_cqc_phase := phase_at ?c (Suc ?R)\<rparr>"
    have adv: "(if int (?R mod ?c) = int ?c - 1 then (?i\<lparr>qi_cqc_phase := \<not> qi_cqc_phase ?i\<rparr>, 0) else (?i, u16 (?R mod ?c + 1))) =
        (?i1, Suc ?R mod ?c)"
    proof (cases "?R mod ?c = ?c - 1")
      case True
      then show ?thesis using last D(12) phase_Suc [OF c, of ?R] mod_Suc_ring [OF c, of ?R] by simp
    next
      case False
      have "?i\<lparr>qi_cqc_phase := phase_at ?c ?R\<rparr> = ?i" using D(12) by simp
      then show ?thesis using False last u [OF False] phase_Suc [OF c, of ?R] mod_Suc_ring [OF c, of ?R] by simp
    qed
    define q' where "q' = (ring_db (?q\<lparr>qq_info := ?i1\<rparr>) QM_DBELL_CMD_CQ (Suc ?R mod ?c) (if qi_epoll_en ?i then 1 else 0))\<lparr>qq_info := i'\<rparr>"
    have q': "qq_info q' = i'" "qq_sq q' = qq_sq ?q" "qq_cq q' = qq_cq ?q" by (simp_all add: q'_def)
    have tests: "(qi_cqc_phase ?i \<noteq> CQE_PHASE (qq_cq ?q ! (?R mod ?c))) = False" "(?j \<ge> ?d) = False" "(ds = 1) = False"
      using D(12) cpl(3) j ds by simp_all
    have resp: "rd (qq_sq ?q) ?j = Some (qs_resp s ! ?R)" using j D(4) cpl(1) by simp
    have fin: "?i1\<lparr>qi_cq_head_index := Suc ?R mod ?c, qi_used_num := sub16 (qi_used_num ?i1) 1\<rparr> = i'" "qi_epoll_en ?i1 = qi_epoll_en ?i"
      using used by (simp_all add: i'_def)
    have call: "hisi_qm_recv_single ds ?q = Some ((Inr (), Some (qs_resp s ! ?R)), q')"
      unfolding hisi_qm_recv_single_def Let_def cqe option.case tests(1) if_False cpl(2) tests(2) resp D(11) adv prod.case
        tests(3) fin q'_def by (rule refl)
    let ?ys = "qs_recv s @ [qs_resp s ! ?R]"
    have "ring_inv \<lparr>qs_queue = q', qs_sent = qs_sent s, qs_resp = qs_resp s, qs_recv = ?ys\<rparr>"
    proof (rule ring_invI [OF q'(1), of ?d ?c])
      show "0 < ?d" "?d \<le> ?c" "?c < 2 ^ 16" by (rule D)+
      show "?ys = take (length ?ys) (qs_resp s)" using D(13) lt by (simp add: take_Suc_conv_app_nth)
      show "qq_sq q' ! (n mod ?d) = qs_resp s ! n \<and> CQE_SQ_HEAD_INDEX (qq_cq q' ! (n mod ?c)) = n mod ?d \<and>
          CQE_PHASE (qq_cq q' ! (n mod ?c)) = phase_at ?c n" if "length ?ys \<le> n" "n < ?N" for n
        using ring_inv_done [OF inv, of n] that q' by simp
      show "qq_sq q' ! (n mod ?d) = qs_sent s ! n" if "?N \<le> n" "n < ?S" for n
        using ring_inv_pending [OF inv that] q' by simp
      show "CQE_PHASE (qq_cq q' ! (n mod ?c)) \<noteq> phase_at ?c n" if n: "?N \<le> n" "n < length ?ys + ?c" for n
      proof (cases "n = ?R + ?c")
        case True
        then show ?thesis using cpl(3) phase_next [OF c, of ?R] q' by simp
      next
        case False
        then show ?thesis using ring_inv_free [OF inv n(1)] n(2) q' by simp
      qed
    qed (use D lt q' in \<open>auto simp: i'_def\<close>)
    then have "ring_inv (s\<lparr>qs_queue := q', qs_recv := ?ys\<rparr>)" by (cases s) simp
    with lt call show ?thesis by (rule got)
  qed
qed

lemma recv_loop_spec:
  assumes "ring_inv s" and "\<forall>k. ds k \<noteq> 1"
  shows "\<exists>q'. recv_loop ds k n (qs_queue s) acc =
      Some ((if n \<le> length (qs_resp s) - length (qs_recv s) then Inr () else Inl WD_EAGAIN,
             acc @ take n (drop (length (qs_recv s)) (qs_resp s))), q') \<and>
    ring_inv (s\<lparr>qs_queue := q', qs_recv := qs_recv s @ take n (drop (length (qs_recv s)) (qs_resp s))\<rparr>)"
  using assms
proof (induction n arbitrary: s k acc)
  case 0
  then show ?case by simp
next
  case (Suc n)
  have ds: "ds k \<noteq> 1" using Suc.prems(2) by simp
  from Suc.prems(1) ds show ?case
  proof (cases rule: recv_single_cases)
    case empty
    then show ?thesis using Suc.prems(1) by simp
  next
    case (got q1)
    let ?R = "length (qs_recv s)" let ?s = "s\<lparr>qs_queue := q1, qs_recv := qs_recv s @ [qs_resp s ! ?R]\<rparr>"
    have drop: "drop ?R (qs_resp s) = qs_resp s ! ?R # drop (Suc ?R) (qs_resp s)" using got(1) by (simp add: Cons_nth_drop_Suc)
    from Suc.IH [OF got(3) Suc.prems(2), of "Suc k" "acc @ [qs_resp s ! ?R]"] obtain q' where
      "recv_loop ds (Suc k) n q1 (acc @ [qs_resp s ! ?R]) =
        Some ((if n \<le> length (qs_resp s) - Suc ?R then Inr () else Inl WD_EAGAIN,
          (acc @ [qs_resp s ! ?R]) @ take n (drop (Suc ?R) (qs_resp s))), q')"
      "ring_inv (?s\<lparr>qs_queue := q', qs_recv := (qs_recv s @ [qs_resp s ! ?R]) @ take n (drop (Suc ?R) (qs_resp s))\<rparr>)" by auto
    moreover have "n \<le> length (qs_resp s) - Suc ?R \<longleftrightarrow> Suc n \<le> length (qs_resp s) - ?R" using got(1) by auto
    ultimately show ?thesis using got(2) drop by simp
  qed
qed

lemma recv_spec:
  assumes inv: "ring_inv s" and ds: "\<forall>k. ds k \<noteq> 1" and e: "0 < e"
  shows "\<exists>q'. hisi_qm_recv ds (Some (qs_queue s)) True e True =
      Some ((if e \<le> length (qs_resp s) - length (qs_recv s) then Inr () else Inl WD_EAGAIN,
             Some (min e (length (qs_resp s) - length (qs_recv s))),
             take e (drop (length (qs_recv s)) (qs_resp s))), Some q') \<and>
    ring_inv (s\<lparr>qs_queue := q', qs_recv := qs_recv s @ take e (drop (length (qs_recv s)) (qs_resp s))\<rparr>)"
proof -
  from recv_loop_spec [OF inv ds, of 1 e "[]"] obtain q' where
    "recv_loop ds 1 e (qs_queue s) [] = Some ((if e \<le> length (qs_resp s) - length (qs_recv s) then Inr () else Inl WD_EAGAIN,
       [] @ take e (drop (length (qs_recv s)) (qs_resp s))), q')"
    "ring_inv (s\<lparr>qs_queue := q', qs_recv := qs_recv s @ take e (drop (length (qs_recv s)) (qs_resp s))\<rparr>)" by blast
  moreover have "ds 0 \<noteq> 1" using ds by blast
  ultimately show ?thesis using e by (simp add: hisi_qm_recv_def min.commute)
qed

lemma qm_step_inv: "qm_step s s' \<Longrightarrow> ring_inv s \<Longrightarrow> ring_inv s'"
proof (induction rule: qm_step.induct)
  case (qm_send ds s xs e r q')
  show ?case by (rule send_inv [OF qm_send(3,1,2)])
next
  case (qm_complete s r)
  show ?case by (rule complete_inv [OF qm_complete(2,1)])
next
  case (qm_recv ds s e r cnt ys q')
  show ?case
  proof (cases "e = 0")
    case True
    then have "q' = qs_queue s" "ys = []" using qm_recv(1) by (auto simp: hisi_qm_recv_def split: if_splits)
    then show ?thesis using qm_recv(3) by simp
  next
    case False
    then have "0 < e" by simp
    from recv_spec [OF qm_recv(3,2) this] obtain q1 where
      "hisi_qm_recv ds (Some (qs_queue s)) True e True =
        Some ((if e \<le> length (qs_resp s) - length (qs_recv s) then Inr () else Inl WD_EAGAIN,
             Some (min e (length (qs_resp s) - length (qs_recv s))),
             take e (drop (length (qs_recv s)) (qs_resp s))), Some q1)"
      "ring_inv (s\<lparr>qs_queue := q1, qs_recv := qs_recv s @ take e (drop (length (qs_recv s)) (qs_resp s))\<rparr>)" by blast
    note h = this
    have "q1 = q'" "take e (drop (length (qs_recv s)) (qs_resp s)) = ys"
      using trans [OF sym [OF h(1)] qm_recv(1)] unfolding option.inject prod.inject by blast+
    then show ?thesis using h(2) by (simp only:)
  qed
qed

subsection \<open>A fresh queue\<close>

text \<open>The state in which \<^verbatim>\<open>hisi_qm_alloc_qp\<close> leaves a queue: counters zero, phase one, zeroed completion ring.\<close>

definition fresh_info :: "hacc_db \<Rightarrow> nat \<Rightarrow> nat \<Rightarrow> nat \<Rightarrow> hisi_qm_queue_info" where
  "fresh_info db sqn d c = \<lparr>qi_sq_base = 0, qi_cq_base = 0, qi_sqe_size = 0, qi_mmio_base = 0, qi_db_base = 0, qi_db = db,
     qi_ds_tx_base = 0, qi_ds_rx_base = 0, qi_qp_mode = 0, qi_sq_tail_index = 0, qi_cq_head_index = 0, qi_sq_depth = d,
     qi_cq_depth = c, qi_sqn = sqn, qi_qc_type = 0, qi_used_num = 0, qi_hw_type = 0, qi_idx = 0, qi_cqc_phase = True,
     qi_region_dus = 0, qi_region_mmio = 0, qi_epoll_en = False\<rparr>"

definition zero_cqe :: cqe where
  "zero_cqe = \<lparr>cqe_sq_head = 0, cqe_w7 = 0\<rparr>"

definition queue_start :: "'e qm_queue \<Rightarrow> bool" where
  "queue_start q \<longleftrightarrow> (let i = qq_info q in
     0 < qi_sq_depth i \<and> qi_sq_depth i \<le> qi_cq_depth i \<and> qi_cq_depth i < 2 ^ 16 \<and>
     length (qq_sq q) = qi_sq_depth i \<and> qq_cq q = replicate (qi_cq_depth i) zero_cqe \<and>
     qi_sq_tail_index i = 0 \<and> qi_cq_head_index i = 0 \<and> qi_used_num i = 0 \<and> qi_cqc_phase i)"

definition sys_start :: "'e qm_queue \<Rightarrow> 'e qm_sys" where
  "sys_start q = \<lparr>qs_queue = q, qs_sent = [], qs_resp = [], qs_recv = []\<rparr>"

lemma queue_start_inv:
  assumes "queue_start q"
  shows "ring_inv (sys_start q)"
  using assms unfolding sys_start_def queue_start_def Let_def
  by (intro ring_invI [OF refl refl refl]) (auto simp: phase_at_def CQE_PHASE_def zero_cqe_def)

lemma qm_steps_inv: "qm_step\<^sup>*\<^sup>* s s' \<Longrightarrow> ring_inv s \<Longrightarrow> ring_inv s'"
  by (induction rule: rtranclp_induct) (auto intro: qm_step_inv)

lemma take_lengths: "ys = take (length ys) zs \<Longrightarrow> length zs \<le> length xs \<Longrightarrow> \<exists>us. zs = ys @ us"
  by (metis append_take_drop_id)

subsection \<open>Properties\<close>

text \<open>
  C2: Over any interleaving of sends, receives and completions by the device, starting from a fresh queue, the
  received responses are the device's responses to the requests in the order of sending, none lost, none
  repeated; at most \<open>depth - 1\<close> requests are outstanding, and every request that the device has not yet
  completed is still intact in its slot of the submission ring.
\<close>

theorem qm_queue_fifo:
  assumes "queue_start q" and "qm_step\<^sup>*\<^sup>* (sys_start q) s"
  shows "(\<exists>us. qs_resp s = qs_recv s @ us) \<and> length (qs_resp s) \<le> length (qs_sent s) \<and>
    length (qs_sent s) - length (qs_recv s) \<le> qi_sq_depth (qq_info (qs_queue s)) - 1 \<and>
    qi_used_num (qq_info (qs_queue s)) = length (qs_sent s) - length (qs_recv s) \<and>
    (\<forall>n. length (qs_resp s) \<le> n \<and> n < length (qs_sent s) \<longrightarrow>
       qq_sq (qs_queue s) ! (n mod qi_sq_depth (qq_info (qs_queue s))) = qs_sent s ! n)"
proof -
  have inv: "ring_inv s" using qm_steps_inv [OF assms(2) queue_start_inv [OF assms(1)]] .
  note D = ring_invD [OF inv]
  have "\<exists>us. qs_resp s = qs_recv s @ us" using take_lengths [OF D(13) D(7)] .
  then show ?thesis using D(7-9) ring_inv_pending [OF inv] by blast
qed

definition demo_queue :: "nat qm_queue" where
  "demo_queue = \<lparr>qq_info = fresh_info Hacc_Db_V2 5 2 2, qq_sq = [0, 0], qq_cq = [zero_cqe, zero_cqe], qq_doorbells = []\<rparr>"

lemma demo_queue_start: "queue_start demo_queue"
  by (simp add: queue_start_def demo_queue_def fresh_info_def Let_def replicate_numeral)

lemma demo_queue_run:
  "\<exists>q'. hisi_qm_send 0 (Some demo_queue) (Some [11, 12]) 1 True = Some (Inr 1, Some q') \<and>
    qm_step\<^sup>*\<^sup>* (sys_start demo_queue) (dev_complete 99 \<lparr>qs_queue = q', qs_sent = [11], qs_resp = [], qs_recv = []\<rparr>)"
proof -
  from queue_start_inv [OF demo_queue_start] have inv: "ring_inv (sys_start demo_queue)" .
  have len: "1 \<le> length [11, 12 :: nat]" by simp
  from inv len obtain q' where q': "hisi_qm_send 0 (Some demo_queue) (Some [11, 12]) 1 True = Some (Inr 1, Some q')"
  proof (cases rule: send_cases [where ds = 0])
    case busy
    then show ?thesis by (simp add: sys_start_def demo_queue_def fresh_info_def)
  next
    case (ok r q')
    then show ?thesis using that by (simp add: sys_start_def)
  qed
  then have "qm_step (sys_start demo_queue) \<lparr>qs_queue = q', qs_sent = [11], qs_resp = [], qs_recv = []\<rparr>"
    using qm_send [of 0 "sys_start demo_queue" "[11, 12]" 1 "Inr 1" q'] by (simp add: sys_start_def)
  moreover have "qm_step \<lparr>qs_queue = q', qs_sent = [11], qs_resp = [], qs_recv = []\<rparr>
      (dev_complete 99 \<lparr>qs_queue = q', qs_sent = [11], qs_resp = [], qs_recv = []\<rparr>)" by (rule qm_complete) simp
  ultimately show ?thesis using q' by (metis converse_rtranclp_into_rtranclp r_into_rtranclp)
qed

theorem qm_queue_fifo_witness:
  "\<exists>s. qm_step\<^sup>*\<^sup>* (sys_start demo_queue) s \<and> qs_sent s = [11] \<and> qs_resp s = [99] \<and> (\<exists>us. [99] = qs_recv s @ us) \<and>
    qi_used_num (qq_info (qs_queue s)) = 1"
proof -
  from demo_queue_run obtain q' where
    "qm_step\<^sup>*\<^sup>* (sys_start demo_queue) (dev_complete 99 \<lparr>qs_queue = q', qs_sent = [11], qs_resp = [], qs_recv = []\<rparr>)" by blast
  moreover from qm_queue_fifo [OF demo_queue_start this] show ?thesis
    using calculation by (intro exI [of _ "dev_complete 99 \<lparr>qs_queue = q', qs_sent = [11], qs_resp = [], qs_recv = []\<rparr>"])
      (simp add: dev_complete_def Let_def)
qed

text \<open>
  C29: In every state that is reached from a fresh queue without a receive during which the device reports an error, a send of \<open>e\<close> requests is refused with \<^verbatim>\<open>-WD_EBUSY\<close> exactly when
  they do not fit below the reserved slot (or the ring is full); otherwise it reaches the device and counts, or,
  with a disabled device, reports the hardware error and leaves tail and counter alone. A receive returns as many
  completed responses as there are, up to the number asked for, in order, if the device reports no error.
\<close>

theorem qm_send_recv_outcome:
  assumes "queue_start q" and "qm_step\<^sup>*\<^sup>* (sys_start q) s" and "e \<le> length xs" and "0 < e"
  shows "(\<exists>q'. hisi_qm_send ds (Some (qs_queue s)) (Some xs) e True =
      Some (if qi_sq_depth (qq_info (qs_queue s)) - 1 < length (qs_sent s) - length (qs_recv s) + e then Inl WD_EBUSY
            else if ds = 1 then Inl WD_HW_EACCESS else Inr e, Some q') \<and>
      qi_used_num (qq_info q') = length (qs_sent s) - length (qs_recv s) +
        (if qi_sq_depth (qq_info (qs_queue s)) - 1 < length (qs_sent s) - length (qs_recv s) + e \<or> ds = 1 then 0 else e)) \<and>
    (\<exists>q' r. hisi_qm_recv (\<lambda>k. 0) (Some (qs_queue s)) True e True =
      Some ((r, Some (min e (length (qs_resp s) - length (qs_recv s))), take e (drop (length (qs_recv s)) (qs_resp s))), Some q') \<and>
      (r = Inr ()) = (e \<le> length (qs_resp s) - length (qs_recv s)))"
proof
  have inv: "ring_inv s" using qm_steps_inv [OF assms(2) queue_start_inv [OF assms(1)]] .
  note D = ring_invD [OF inv]
  from inv assms(3) show "\<exists>q'. hisi_qm_send ds (Some (qs_queue s)) (Some xs) e True =
      Some (if qi_sq_depth (qq_info (qs_queue s)) - 1 < length (qs_sent s) - length (qs_recv s) + e then Inl WD_EBUSY
            else if ds = 1 then Inl WD_HW_EACCESS else Inr e, Some q') \<and>
      qi_used_num (qq_info q') = length (qs_sent s) - length (qs_recv s) +
        (if qi_sq_depth (qq_info (qs_queue s)) - 1 < length (qs_sent s) - length (qs_recv s) + e \<or> ds = 1 then 0 else e)"
  proof (cases rule: send_cases [where ds = ds])
    case busy
    then have "qi_sq_depth (qq_info (qs_queue s)) - 1 < length (qs_sent s) - length (qs_recv s) + e" using assms(4) by auto
    then show ?thesis using busy(1) D(8) by simp
  next
    case (ok r q')
    then show ?thesis using D(8) by (intro exI [of _ q']) simp
  qed
  from recv_spec [OF inv _ assms(4), of "\<lambda>k. 0"] show "\<exists>q' r. hisi_qm_recv (\<lambda>k. 0) (Some (qs_queue s)) True e True =
      Some ((r, Some (min e (length (qs_resp s) - length (qs_recv s))), take e (drop (length (qs_recv s)) (qs_resp s))), Some q') \<and>
      (r = Inr ()) = (e \<le> length (qs_resp s) - length (qs_recv s))" by auto
qed

theorem qm_send_recv_outcome_witness:
  "(\<exists>q'. hisi_qm_send 0 (Some demo_queue) (Some [11, 12]) 2 True = Some (Inl WD_EBUSY, Some q')) \<and>
   (\<exists>q' r. hisi_qm_recv (\<lambda>k. 0) (Some demo_queue) True 2 True = Some ((r, Some 0, []), Some q') \<and> r \<noteq> Inr ())"
proof -
  have f: "qi_sq_depth (qq_info demo_queue) = 2" by (simp add: demo_queue_def fresh_info_def)
  from qm_send_recv_outcome [OF demo_queue_start rtranclp.rtrancl_refl, of 2 "[11, 12]" 0] f
  show ?thesis by (auto simp: sys_start_def)
qed

text \<open>
  When the status word reports an error while the completion at the end of the completion ring is
  received, the call fails after it has flipped the expected phase but without advancing the ring: the next
  receive on a working device takes the same completion for an old one and reports that there is none.
\<close>

theorem recv_error_loses_completion:
  assumes "ring_inv s" and "length (qs_recv s) < length (qs_resp s)"
    and "length (qs_recv s) mod qi_cq_depth (qq_info (qs_queue s)) = qi_cq_depth (qq_info (qs_queue s)) - 1"
  shows "\<exists>q'. hisi_qm_recv_single 1 (qs_queue s) = Some ((Inl WD_HW_EACCESS, Some (qs_resp s ! length (qs_recv s))), q') \<and>
    hisi_qm_recv_single 0 q' = Some ((Inl WD_EAGAIN, None), q')"
proof -
  let ?q = "qs_queue s" and ?R = "length (qs_recv s)" let ?i = "qq_info ?q" let ?d = "qi_sq_depth ?i" and ?c = "qi_cq_depth ?i"
  note D = ring_invD [OF assms(1)] and cpl = ring_inv_done [OF assms(1) order_refl assms(2)]
  have c: "0 < ?c" using D(1,2) by simp
  have cqe: "rd (qq_cq ?q) (qi_cq_head_index ?i) = Some (qq_cq ?q ! (?R mod ?c))" using D(5,11) c by simp
  have j: "?R mod ?d < ?d" using D(1) by simp
  have last: "int (qi_cq_head_index ?i) = int ?c - 1" using D(11) assms(3) c by simp
  let ?q' = "?q\<lparr>qq_info := ?i\<lparr>qi_cqc_phase := \<not> qi_cqc_phase ?i\<rparr>\<rparr>"
  have "hisi_qm_recv_single 1 ?q = Some ((Inl WD_HW_EACCESS, Some (qs_resp s ! ?R)), ?q')"
    using cqe cpl D(4,12) j last by (simp add: hisi_qm_recv_single_def Let_def)
  moreover have "hisi_qm_recv_single 0 ?q' = Some ((Inl WD_EAGAIN, None), ?q')"
    using cqe cpl(3) D(12) by (simp add: hisi_qm_recv_single_def Let_def)
  ultimately show ?thesis by blast
qed

definition demo_last :: "nat qm_sys" where
  "demo_last = \<lparr>qs_queue = \<lparr>qq_info = (fresh_info Hacc_Db_V1 5 2 2)\<lparr>qi_used_num := 1, qi_cq_head_index := 1\<rparr>, qq_sq = [98, 99],
     qq_cq = [\<lparr>cqe_sq_head = 0, cqe_w7 = 1\<rparr>, \<lparr>cqe_sq_head = 1, cqe_w7 = 1\<rparr>], qq_doorbells = []\<rparr>,
     qs_sent = [11, 12], qs_resp = [98, 99], qs_recv = [98]\<rparr>"

lemma demo_last_inv: "ring_inv demo_last"
  unfolding demo_last_def
  by (rule ring_invI [OF refl, of _ 2 2]) (auto simp: fresh_info_def phase_at_def CQE_PHASE_def CQE_SQ_HEAD_INDEX_def u16_def less_Suc_eq)

theorem recv_error_loses_completion_witness:
  "\<exists>q'. hisi_qm_recv_single 1 (qs_queue demo_last) = Some ((Inl WD_HW_EACCESS, Some 99), q') \<and>
    hisi_qm_recv_single 0 q' = Some ((Inl WD_EAGAIN, None), q')"
proof -
  have "length (qs_recv demo_last) < length (qs_resp demo_last)"
    "length (qs_recv demo_last) mod qi_cq_depth (qq_info (qs_queue demo_last)) = qi_cq_depth (qq_info (qs_queue demo_last)) - 1"
    by (simp_all add: demo_last_def fresh_info_def)
  from recv_error_loses_completion [OF demo_last_inv this] show ?thesis by (simp add: demo_last_def)
qed

lemma bit_nat_bound: "x < 2 ^ k \<Longrightarrow> bit (x :: nat) n \<Longrightarrow> n < k"
proof (rule ccontr)
  assume "x < 2 ^ k" "bit x n" "\<not> n < k"
  then have "x < 2 ^ n" by (meson less_le_trans not_less one_le_numeral power_increasing)
  with \<open>bit x n\<close> show False by (simp add: bit_iff_odd)
qed

lemma db_v1_bits: "bit (hacc_db_v1 sqn cmd idx prio) n \<longleftrightarrow> n < 64 \<and>
    (bit sqn n \<or> 16 \<le> n \<and> bit cmd (n - 16) \<or> 32 \<le> n \<and> (bit idx (n - 32) \<or> 48 \<le> n \<and> bit prio (n - 48)))"
  by (auto simp: hacc_db_v1_def bit_simps)

lemma db_v2_take_bit: "hacc_db_v2 sqn cmd idx prio = take_bit 10 (word_of_nat sqn) OR push_bit 12 (take_bit 4 (word_of_nat cmd)) OR
    push_bit 32 (word_of_nat idx OR push_bit 16 (word_of_nat prio))"
proof -
  have "(0x3ff :: 64 word) = mask 10" "(0xf :: 64 word) = mask 4" by (simp_all add: mask_eq_exp_minus_1)
  then show ?thesis unfolding hacc_db_v2_def Let_def take_bit_eq_mask by (simp only: or.assoc)
qed

lemma db_v2_bits: "bit (hacc_db_v2 sqn cmd idx prio) n \<longleftrightarrow> n < 64 \<and>
    (n < 10 \<and> bit sqn n \<or> 12 \<le> n \<and> n < 16 \<and> bit cmd (n - 12) \<or> 32 \<le> n \<and> (bit idx (n - 32) \<or> 48 \<le> n \<and> bit prio (n - 48)))"
  by (auto simp: db_v2_take_bit bit_simps)

lemma word_field:
  fixes w :: "64 word"
  assumes "\<And>n. n < 64 \<Longrightarrow> bit w n = bit x n" and "x < 2 ^ 64"
  shows "unat w = x"
proof -
  have "w = word_of_nat x" using assms(1) by (intro bit_word_eqI) (simp add: bit_simps)
  then show ?thesis using assms(2) by (simp add: unat_of_nat)
qed

lemmas field_bits = db_v1_bits db_v2_bits bit_take_bit_iff bit_drop_bit_eq

text \<open>
  C40: A doorbell carries what it is rung with: from the 64 bits the device can read back the queue number, the
  command, the ring index and the priority, in both doorbell formats (in the second one the queue number and the
  command are cut to 10 and 4 bits).
\<close>

theorem doorbell_fields:
  assumes "sqn < 2 ^ 16" and "cmd < 2 ^ 8" and "idx < 2 ^ 16" and "prio < 2 ^ 8"
  shows "unat (take_bit 16 (hacc_db_v1 sqn cmd idx prio)) = sqn \<and>
    unat (take_bit 16 (drop_bit 16 (hacc_db_v1 sqn cmd idx prio))) = cmd \<and>
    unat (take_bit 16 (drop_bit 32 (hacc_db_v1 sqn cmd idx prio))) = idx \<and>
    unat (drop_bit 48 (hacc_db_v1 sqn cmd idx prio)) = prio \<and>
    unat (take_bit 10 (hacc_db_v2 sqn cmd idx prio)) = sqn mod 2 ^ 10 \<and>
    unat (take_bit 4 (drop_bit 12 (hacc_db_v2 sqn cmd idx prio))) = cmd mod 2 ^ 4 \<and>
    unat (take_bit 16 (drop_bit 32 (hacc_db_v2 sqn cmd idx prio))) = idx \<and>
    unat (drop_bit 48 (hacc_db_v2 sqn cmd idx prio)) = prio"
proof (intro conjI)
  note lims = bit_nat_bound [OF assms(1)] bit_nat_bound [OF assms(2)] bit_nat_bound [OF assms(3)] bit_nat_bound [OF assms(4)]
  have m: "sqn mod 2 ^ 10 = take_bit 10 sqn" "cmd mod 2 ^ 4 = take_bit 4 cmd" by (simp_all add: take_bit_eq_mod)
  have small: "take_bit 10 sqn < 2 ^ 64" "take_bit 4 cmd < 2 ^ 64"
    by (rule order_le_less_trans [OF take_bit_nat_less_eq_self], use assms(1,2) in simp)+
  show "unat (take_bit 16 (hacc_db_v1 sqn cmd idx prio)) = sqn"
    using assms(1) by (intro word_field) (auto simp: field_bits dest: lims)
  show "unat (take_bit 16 (drop_bit 16 (hacc_db_v1 sqn cmd idx prio))) = cmd"
    using assms(2) by (intro word_field) (auto simp: field_bits dest: lims)
  show "unat (take_bit 16 (drop_bit 32 (hacc_db_v1 sqn cmd idx prio))) = idx"
    using assms(3) by (intro word_field) (auto simp: field_bits dest: lims)
  show "unat (drop_bit 48 (hacc_db_v1 sqn cmd idx prio)) = prio"
    using assms(4) by (intro word_field) (auto simp: field_bits dest: lims)
  show "unat (take_bit 10 (hacc_db_v2 sqn cmd idx prio)) = sqn mod 2 ^ 10"
    unfolding m using assms(1) small by (intro word_field) (auto simp: field_bits dest: lims)
  show "unat (take_bit 4 (drop_bit 12 (hacc_db_v2 sqn cmd idx prio))) = cmd mod 2 ^ 4"
    unfolding m using assms(2) small by (intro word_field) (auto simp: field_bits dest: lims)
  show "unat (take_bit 16 (drop_bit 32 (hacc_db_v2 sqn cmd idx prio))) = idx"
    using assms(3) by (intro word_field) (auto simp: field_bits dest: lims)
  show "unat (drop_bit 48 (hacc_db_v2 sqn cmd idx prio)) = prio"
    using assms(4) by (intro word_field) (auto simp: field_bits dest: lims)
qed

theorem doorbell_fields_witness: "unat (take_bit 16 (drop_bit 32 (hacc_db_v2 1029 1 77 1))) = 77"
  using doorbell_fields [of 1029 1 77 1] by simp

end
