(* ===== verification/Qm_Setup.thy ===== *)
theory Qm_Setup
  imports Wd_Context Qm_Queue Qm_Sgl
begin

text \<open>
  Allocating and freeing a queue pair (\<^verbatim>\<open>drv/hisi_qm_udrv.c\<close>, lines 215--509 and 1029--1044): mapping the regions of the
  context, choosing the doorbell by the hardware version, configuring the queue through the driver of the kernel, the pool
  of scatter-gather lists, and the release on every error path.

  \<open>qp_env\<close> collects what the system answers: the mappings, the results and output values of the two configuration
  commands, the locks, the allocations, and the addresses of the list pool.
\<close>

definition QM_DBELL_OFFSET :: nat where "QM_DBELL_OFFSET = 0x340"
definition QM_DBELL_OFFSET_V2 :: nat where "QM_DBELL_OFFSET_V2 = 0x1000"
definition VERSION_ID_SHIFT :: nat where "VERSION_ID_SHIFT = 9"
definition HISI_QM_API_VER_BASE :: nat where "HISI_QM_API_VER_BASE = 1"
definition HISI_QM_API_VER2_BASE :: nat where "HISI_QM_API_VER2_BASE = 2"

record hisi_qm_priv =
  qv_qp_mode :: nat
  qv_sqe_size :: nat
  qv_op_type :: nat
  qv_sqn :: nat
  qv_idx :: nat
  qv_epoll_en :: bool

record hisi_qp =
  qp_q_info :: hisi_qm_queue_info
  qp_h_sgl_pool :: "hisi_sgl_pool option"
  qp_h_ctx :: "wd_ctx_h option"
  qp_priv :: nat
  qp_h_nosva_sgl_pool :: "hisi_sgl_pool option"

record qp_env =
  qe_mmap_dus :: "nat option"
  qe_mmap_mmio :: "nat option"
  qe_set_ctx :: int
  qe_qp_id :: nat
  qe_set_info :: int
  qe_info_sq_depth :: nat
  qe_info_cq_depth :: nat
  qe_info_sqe_size :: nat
  qe_rv_lock :: int
  qe_sd_lock :: int
  qe_sgl_lock :: int
  qe_start :: int
  qe_put_q :: int
  qe_qp_alloc :: bool
  qe_pool_oks :: "bool list"
  qe_pool_lock :: bool
  qe_pool_addrs :: "nat list"
  qe_iova :: "nat \<Rightarrow> nat \<Rightarrow> nat"
  qe_junk :: "nat \<Rightarrow> hisi_sgl"

text \<open>The zeroed structure; the doorbell function is not used before it is set.\<close>

definition zero_info :: hisi_qm_queue_info where
  "zero_info = (fresh_info Hacc_Db_V1 0 0 0)\<lparr>qi_cqc_phase := False\<rparr>"

definition hisi_qm_setup_region ::
  "qp_env \<Rightarrow> wd_ctx_h option \<Rightarrow> hisi_qm_queue_info \<Rightarrow> proc \<Rightarrow> int \<times> hisi_qm_queue_info \<times> wd_ctx_h option \<times> proc" where
  "hisi_qm_setup_region ev h_ctx q_info pr =
    (let (sq, h_ctx, pr) = wd_ctx_mmap_qfr (qe_mmap_dus ev) h_ctx UACCE_QFRT_DUS pr;
         q_info = q_info\<lparr>qi_sq_base := sq\<rparr> in
     if sq = 0 then (neg WD_ENOMEM, q_info, h_ctx, pr)
     else
       (let (mmio, h_ctx, pr) = wd_ctx_mmap_qfr (qe_mmap_mmio ev) h_ctx UACCE_QFRT_MMIO pr;
            q_info = q_info\<lparr>qi_mmio_base := mmio\<rparr> in
        if mmio = 0 then (neg WD_ENOMEM, q_info, h_ctx, wd_ctx_unmap_qfr h_ctx UACCE_QFRT_DUS pr)
        else (0, q_info, h_ctx, pr)))"

definition hisi_qm_unset_region :: "wd_ctx_h option \<Rightarrow> hisi_qm_queue_info \<Rightarrow> proc \<Rightarrow> hisi_qm_queue_info \<times> proc" where
  "hisi_qm_unset_region h_ctx q_info pr =
    (let pr = wd_ctx_unmap_qfr h_ctx UACCE_QFRT_DUS pr;
         pr = wd_ctx_unmap_qfr h_ctx UACCE_QFRT_MMIO pr in
     (q_info\<lparr>qi_sq_base := 0, qi_mmio_base := 0\<rparr>, pr))"

text \<open>\<^verbatim>\<open>strtoul\<close> in base 10.\<close>

definition strtoul :: "string \<Rightarrow> nat" where
  "strtoul s =
    (let s = dropWhile isspace s;
         (sgn, ds) = (case s of [] \<Rightarrow> (False, s) | c # t \<Rightarrow> if c = CHR ''-'' then (True, t) else if c = CHR ''+'' then (False, t) else (False, s));
         v = digits_value ds in
     if v > 2 ^ 64 - 1 then 2 ^ 64 - 1 else if sgn then u64_of_int (- v) else nat v)"

definition get_version_id :: "wd_ctx_h option \<Rightarrow> nat" where
  "get_version_id h_ctx =
    (case wd_ctx_get_api h_ctx of
       None \<Rightarrow> 0
     | Some api_name \<Rightarrow>
         if length api_name \<le> VERSION_ID_SHIFT then 0
         else
           (let ver = strtoul (drop VERSION_ID_SHIFT api_name) in
            if ver = 0 \<or> ver = 2 ^ 64 - 1 then 0 else u32 ver))"

definition qm_type :: "(nat \<times> nat \<times> hacc_db) list" where
  "qm_type = [(HISI_QM_API_VER_BASE, QM_DBELL_OFFSET, Hacc_Db_V1), (HISI_QM_API_VER2_BASE, QM_DBELL_OFFSET_V2, Hacc_Db_V2)]"

definition hisi_qm_setup_db :: "wd_ctx_h option \<Rightarrow> hisi_qm_queue_info \<Rightarrow> int \<times> hisi_qm_queue_info" where
  "hisi_qm_setup_db h_ctx q_info =
    (let ver_id = get_version_id h_ctx in
     if ver_id = 0 then (neg WD_EINVAL, q_info)
     else
       (let q_info = q_info\<lparr>qi_hw_type := u16 ver_id\<rparr> in
        case List.find (\<lambda>(ver, _). ver = ver_id) qm_type of
          Some (_, offs, db) \<Rightarrow> (0, q_info\<lparr>qi_db := db, qi_db_base := qi_mmio_base q_info + offs\<rparr>)
        | None \<Rightarrow> (0, q_info\<lparr>qi_db := Hacc_Db_V2, qi_db_base := qi_mmio_base q_info + QM_DBELL_OFFSET_V2\<rparr>)))"

definition his_qm_set_qp_ctx ::
  "qp_env \<Rightarrow> wd_ctx_h option \<Rightarrow> hisi_qm_priv \<Rightarrow> hisi_qm_queue_info \<Rightarrow> proc \<Rightarrow> int \<times> hisi_qm_priv \<times> hisi_qm_queue_info \<times> proc" where
  "his_qm_set_qp_ctx ev h_ctx config q_info pr =
    (let q_info = q_info\<lparr>qi_qc_type := qv_op_type config\<rparr>;
         (ret, pr) = wd_ctx_set_io_cmd (qe_set_ctx ev) h_ctx UACCE_CMD_QM_SET_QP_CTX pr in
     if ret < 0 then (ret, config, q_info, pr)
     else
       (let q_info = q_info\<lparr>qi_sqn := qe_qp_id ev\<rparr>; config = config\<lparr>qv_sqn := qe_qp_id ev\<rparr>;
            (ret, pr) = wd_ctx_set_io_cmd (qe_set_info ev) h_ctx UACCE_CMD_QM_SET_QP_INFO pr in
        if ret < 0
        then (0, config, q_info\<lparr>qi_sq_depth := QM_Q_DEPTH, qi_cq_depth := QM_Q_DEPTH, qi_sqe_size := qv_sqe_size config\<rparr>, pr)
        else (0, config, q_info\<lparr>qi_sq_depth := qe_info_sq_depth ev, qi_cq_depth := qe_info_cq_depth ev,
                                qi_sqe_size := qe_info_sqe_size ev\<rparr>, pr)))"

definition hisi_qm_get_qfrs_offs :: "wd_ctx_h option \<Rightarrow> hisi_qm_queue_info \<Rightarrow> int \<times> hisi_qm_queue_info" where
  "hisi_qm_get_qfrs_offs h_ctx q_info =
    (let q_info = q_info\<lparr>qi_region_dus := wd_ctx_get_region_size h_ctx UACCE_QFRT_DUS\<rparr> in
     if qi_region_dus q_info = 0 then (neg WD_EINVAL, q_info)
     else
       (let q_info = q_info\<lparr>qi_region_mmio := wd_ctx_get_region_size h_ctx UACCE_QFRT_MMIO\<rparr> in
        if qi_region_mmio q_info = 0 then (neg WD_EINVAL, q_info) else (0, q_info)))"

definition init_lock :: "int \<Rightarrow> proc \<Rightarrow> proc" where
  "init_lock ret pr = (if ret = 0 then pr\<lparr>pr_locks := pr_locks pr + 1\<rparr> else pr)"

definition destroy_lock :: "proc \<Rightarrow> proc" where
  "destroy_lock pr = pr\<lparr>pr_locks := pr_locks pr - 1\<rparr>"

definition set_err_out :: "int \<Rightarrow> hisi_qp \<Rightarrow> hisi_qm_priv \<Rightarrow> proc \<Rightarrow> int \<times> hisi_qp \<times> hisi_qm_priv \<times> proc" where
  "set_err_out ret qp config pr =
    (let (q_info, pr) = hisi_qm_unset_region (qp_h_ctx qp) (qp_q_info qp) pr in (ret, qp\<lparr>qp_q_info := q_info\<rparr>, config, pr))"

definition hisi_qm_setup_info ::
  "qp_env \<Rightarrow> hisi_qp \<Rightarrow> hisi_qm_priv \<Rightarrow> proc \<Rightarrow> int \<times> hisi_qp \<times> hisi_qm_priv \<times> proc" where
  "hisi_qm_setup_info ev qp config pr =
    (let (ret, q_info, h_ctx, pr) = hisi_qm_setup_region ev (qp_h_ctx qp) (qp_q_info qp) pr;
         qp = qp\<lparr>qp_q_info := q_info, qp_h_ctx := h_ctx\<rparr> in
     if ret \<noteq> 0 then (ret, qp, config, pr)
     else
       (let (ret, q_info) = hisi_qm_get_qfrs_offs h_ctx q_info; qp = qp\<lparr>qp_q_info := q_info\<rparr> in
        if ret \<noteq> 0 then set_err_out ret qp config pr
        else
          (let (ret, q_info) = hisi_qm_setup_db h_ctx q_info; qp = qp\<lparr>qp_q_info := q_info\<rparr> in
           if ret \<noteq> 0 then set_err_out ret qp config pr
           else
             (let (ret, config, q_info, pr) = his_qm_set_qp_ctx ev h_ctx config q_info pr; qp = qp\<lparr>qp_q_info := q_info\<rparr> in
              if ret \<noteq> 0 then set_err_out ret qp config pr
              else
                (let ds_tx = qi_sq_base q_info + qi_region_dus q_info - 4;
                     q_info = q_info\<lparr>qi_qp_mode := qv_qp_mode config, qi_epoll_en := qv_epoll_en config, qi_idx := qv_idx config,
                       qi_cqc_phase := True, qi_cq_base := qi_sq_base q_info + qv_sqe_size config * qi_sq_depth q_info,
                       qi_ds_tx_base := ds_tx, qi_ds_rx_base := ds_tx - 4\<rparr>;
                     qp = qp\<lparr>qp_q_info := q_info\<rparr>; pr = init_lock (qe_rv_lock ev) pr in
                 if qe_rv_lock ev \<noteq> 0 then set_err_out (qe_rv_lock ev) qp config pr
                 else
                   (let pr = init_lock (qe_sd_lock ev) pr in
                    if qe_sd_lock ev \<noteq> 0 then set_err_out (qe_sd_lock ev) qp config (destroy_lock pr)
                    else
                      (let pr = init_lock (qe_sgl_lock ev) pr in
                       if qe_sgl_lock ev \<noteq> 0 then set_err_out (qe_sgl_lock ev) qp config (destroy_lock (destroy_lock pr))
                       else (0, qp, config, pr))))))))"

definition hisi_qm_clear_info :: "hisi_qp \<Rightarrow> proc \<Rightarrow> hisi_qp \<times> proc" where
  "hisi_qm_clear_info qp pr =
    (let pr = destroy_lock (destroy_lock (destroy_lock pr));
         (q_info, pr) = hisi_qm_unset_region (qp_h_ctx qp) (qp_q_info qp) pr in
     (qp\<lparr>qp_q_info := q_info\<rparr>, pr))"

text \<open>The last part of the allocation, once the list pool exists: start the queue, and go back on failure.\<close>

definition start_qp ::
  "qp_env \<Rightarrow> nat \<Rightarrow> hisi_qp \<Rightarrow> hisi_qm_priv \<Rightarrow> proc \<Rightarrow> sgl_mem
    \<Rightarrow> hisi_qp option \<times> wd_ctx_h option \<times> hisi_qm_priv option \<times> proc \<times> sgl_mem" where
  "start_qp ev qp_addr qp cfg pr m =
    (let (ret, pr) = wd_ctx_start (qe_start ev) (qp_h_ctx qp) pr in
     if ret \<noteq> 0 then
       (let m = hisi_qm_destroy_sglpool (qp_h_sgl_pool qp) m in
        case hisi_qm_clear_info qp pr of (qp, pr) \<Rightarrow> (None, qp_h_ctx qp, Some cfg, free1 pr, m))
     else
       (case wd_ctx_set_priv (qp_h_ctx qp) qp_addr of
          (Inl _, h_ctx) \<Rightarrow>
            (let (_, pr) = wd_release_ctx_force (qe_put_q ev) h_ctx pr;
                 m = hisi_qm_destroy_sglpool (qp_h_sgl_pool qp) m in
             case hisi_qm_clear_info qp pr of (qp, pr) \<Rightarrow> (None, h_ctx, Some cfg, free1 pr, m))
        | (Inr _, h_ctx) \<Rightarrow> (Some (qp\<lparr>qp_h_ctx := h_ctx\<rparr>), h_ctx, Some cfg, pr, m)))"

text \<open>
  The queue pair, with the context as the callee left it, the configuration, what the process holds and the list memory.
  \<open>qp_addr\<close> is the address of the new structure.
\<close>

definition hisi_qm_alloc_qp ::
  "qp_env \<Rightarrow> nat \<Rightarrow> hisi_qm_priv option \<Rightarrow> wd_ctx_h option \<Rightarrow> proc \<Rightarrow> sgl_mem
    \<Rightarrow> hisi_qp option \<times> wd_ctx_h option \<times> hisi_qm_priv option \<times> proc \<times> sgl_mem" where
  "hisi_qm_alloc_qp ev qp_addr config ctx pr m =
    (case config of
       None \<Rightarrow> (None, ctx, None, pr, m)
     | Some cfg \<Rightarrow>
         if qv_sqe_size cfg = 0 then (None, ctx, config, pr, m)
         else if \<not> qe_qp_alloc ev then (None, ctx, config, pr, m)
         else
           (let qp = \<lparr>qp_q_info = zero_info, qp_h_sgl_pool = None, qp_h_ctx = ctx, qp_priv = 0, qp_h_nosva_sgl_pool = None\<rparr>;
                (ret, qp, cfg, pr) = hisi_qm_setup_info ev qp cfg (alloc1 pr) in
            if ret \<noteq> 0 then (None, qp_h_ctx qp, Some cfg, free1 pr, m)
            else
              (case hisi_qm_create_sglpool (qe_pool_oks ev) (qe_pool_lock ev) (qe_iova ev) (qe_junk ev) (qe_pool_addrs ev)
                      HISI_SGL_NUM_IN_BD HISI_SGE_NUM_IN_SGL None m of
                 (None, m) \<Rightarrow> (case hisi_qm_clear_info qp pr of (qp, pr) \<Rightarrow> (None, qp_h_ctx qp, Some cfg, free1 pr, m))
               | (Some pool, m) \<Rightarrow>
                   start_qp ev qp_addr (qp\<lparr>qp_h_sgl_pool := Some pool\<rparr>) cfg pr m)))"

definition hisi_qm_free_qp :: "int \<Rightarrow> hisi_qp option \<Rightarrow> proc \<Rightarrow> sgl_mem \<Rightarrow> proc \<times> sgl_mem" where
  "hisi_qm_free_qp put_q h_qp pr m =
    (case h_qp of
       None \<Rightarrow> (pr, m)
     | Some qp \<Rightarrow>
         (let (_, pr) = wd_release_ctx_force put_q (qp_h_ctx qp) pr;
              m = hisi_qm_destroy_sglpool (qp_h_sgl_pool qp) m;
              m = (case qp_h_nosva_sgl_pool qp of None \<Rightarrow> m | Some p \<Rightarrow> hisi_qm_destroy_sglpool (Some p) m);
              (qp, pr) = hisi_qm_clear_info qp pr in
          (free1 pr, m)))"

text \<open>The pool for the user's memory functions is created at the first use.\<close>

definition hisi_qm_get_sglpool ::
  "qp_env \<Rightarrow> hisi_qp \<Rightarrow> wd_mm_ops option \<Rightarrow> sgl_mem \<Rightarrow> hisi_sgl_pool option \<times> hisi_qp \<times> sgl_mem" where
  "hisi_qm_get_sglpool ev qp mm_ops m =
    (if (case mm_ops of None \<Rightarrow> False | Some ops \<Rightarrow> \<not> mo_sva_mode ops) then
       (case qp_h_nosva_sgl_pool qp of
          Some p \<Rightarrow> (Some p, qp, m)
        | None \<Rightarrow>
            (case hisi_qm_create_sglpool (qe_pool_oks ev) (qe_pool_lock ev) (qe_iova ev) (qe_junk ev) (qe_pool_addrs ev)
                    HISI_SGL_NUM_IN_BD HISI_SGE_NUM_IN_SGL mm_ops m of
               (p, m) \<Rightarrow> (p, qp\<lparr>qp_h_nosva_sgl_pool := p\<rparr>, m)))
     else (qp_h_sgl_pool qp, qp, m))"

subsection \<open>What a process holds\<close>

definition held :: "proc \<Rightarrow> int list \<times> nat \<times> (nat \<times> nat) list \<times> nat" where
  "held pr = (pr_fds pr, pr_heap pr, pr_maps pr, pr_locks pr)"

definition regions :: "wd_ctx_h option \<Rightarrow> (nat list \<times> nat list) option" where
  "regions h_ctx = map_option (\<lambda>c. (cx_qfrs_offs c, cx_qfrs_base c)) h_ctx"

text \<open>A context as \<^verbatim>\<open>wd_request_ctx\<close> makes it, in a system that never maps a region at address 0.\<close>

definition ctx_shape :: "wd_ctx_h option \<Rightarrow> bool" where
  "ctx_shape h_ctx \<longleftrightarrow> (\<forall>c. h_ctx = Some c \<longrightarrow> length (cx_qfrs_offs c) = 3 \<and> length (cx_qfrs_base c) = 3)"

definition env_ok :: "qp_env \<Rightarrow> bool" where
  "env_ok ev \<longleftrightarrow> qe_mmap_dus ev \<noteq> Some 0 \<and> qe_mmap_mmio ev \<noteq> Some 0"

lemma held_cmds [simp]: "held (pr\<lparr>pr_cmds := x\<rparr>) = held pr"
  by (simp add: held_def)

lemma held_io_cmd: "held (snd (wd_ctx_set_io_cmd ret h_ctx cmd pr)) = held pr"
  by (auto simp: wd_ctx_set_io_cmd_def split: option.splits)

lemma held_unset:
  assumes "held pr = held pr'" and "regions h = regions h'"
  shows "held (snd (hisi_qm_unset_region h q pr)) = held (snd (hisi_qm_unset_region h' q' pr'))"
  using assms by (auto simp: hisi_qm_unset_region_def wd_ctx_unmap_qfr_def held_def regions_def Let_def split: option.splits)

lemma setup_region_cases:
  assumes "ctx_shape h" and "env_ok ev" and "hisi_qm_setup_region ev h q pr = (ret, q', h', pr')"
  shows "ret \<noteq> 0 \<and> held pr' = held pr \<or>
    ret = 0 \<and> held (snd (hisi_qm_unset_region h' q' pr')) = held pr \<and> pr_fds pr' = pr_fds pr \<and> pr_heap pr' = pr_heap pr \<and> pr_locks pr' = pr_locks pr \<and>
      (\<exists>a b c. h' = Some c \<and> a \<noteq> 0 \<and> b \<noteq> 0 \<and> q' = q\<lparr>qi_sq_base := a, qi_mmio_base := b\<rparr>)"
  using assms
  by (auto simp: hisi_qm_setup_region_def hisi_qm_unset_region_def wd_ctx_mmap_qfr_def wd_ctx_unmap_qfr_def ctx_shape_def env_ok_def held_def
      neg_def Let_def split: option.splits if_splits)

text \<open>The fields that the rings start from.\<close>

definition started :: "qp_env \<Rightarrow> hisi_qm_queue_info \<Rightarrow> bool" where
  "started ev i \<longleftrightarrow> qi_sq_tail_index i = 0 \<and> qi_cq_head_index i = 0 \<and> qi_used_num i = 0 \<and> qi_cqc_phase i \<and> qi_sq_base i \<noteq> 0 \<and>
     (if qe_set_info ev < 0 then qi_sq_depth i = QM_Q_DEPTH \<and> qi_cq_depth i = QM_Q_DEPTH
      else qi_sq_depth i = qe_info_sq_depth ev \<and> qi_cq_depth i = qe_info_cq_depth ev)"

definition counters0 :: "hisi_qm_queue_info \<Rightarrow> bool" where
  "counters0 i \<longleftrightarrow> qi_sq_tail_index i = 0 \<and> qi_cq_head_index i = 0 \<and> qi_used_num i = 0"

lemma qfrs_offs_frame:
  "hisi_qm_get_qfrs_offs h q = (ret, q') \<Longrightarrow> counters0 q' = counters0 q \<and> qi_sq_base q' = qi_sq_base q"
  by (auto simp: hisi_qm_get_qfrs_offs_def counters0_def Let_def split: if_splits)

lemma setup_db_frame:
  "hisi_qm_setup_db h q = (ret, q') \<Longrightarrow> counters0 q' = counters0 q \<and> qi_sq_base q' = qi_sq_base q"
  by (auto simp: hisi_qm_setup_db_def counters0_def Let_def split: if_splits option.splits)

lemma set_qp_ctx_frame:
  assumes "his_qm_set_qp_ctx ev (Some c) cfg q pr = (ret, cfg', q', pr')"
  shows "held pr' = held pr \<and> counters0 q' = counters0 q \<and> qi_sq_base q' = qi_sq_base q \<and>
    (ret = 0 \<longrightarrow> (if qe_set_info ev < 0 then qi_sq_depth q' = QM_Q_DEPTH \<and> qi_cq_depth q' = QM_Q_DEPTH
       else qi_sq_depth q' = qe_info_sq_depth ev \<and> qi_cq_depth q' = qe_info_cq_depth ev))"
  using assms by (auto simp: his_qm_set_qp_ctx_def wd_ctx_set_io_cmd_def counters0_def Let_def split: if_splits)

lemma unset_frame:
  "held (destroy_lock (init_lock 0 pr)) = held pr"
  "held (destroy_lock (destroy_lock (init_lock 0 (init_lock 0 pr)))) = held pr"
  "r \<noteq> 0 \<Longrightarrow> init_lock r pr = pr"
  by (simp_all add: held_def init_lock_def destroy_lock_def)

lemma set_err_out_held:
  assumes "set_err_out r qp cfg pr = (ret, qp', cfg', pr')" and "held pr = held pr0" and "regions (qp_h_ctx qp) = regions h0"
  shows "ret = r \<and> held pr' = held (snd (hisi_qm_unset_region h0 q0 pr0))"
  using assms held_unset [OF assms(2,3), of "qp_q_info qp" q0] by (auto simp: set_err_out_def split: prod.splits)

lemma setup_info_cases:
  assumes h: "ctx_shape (qp_h_ctx qp)" and ev: "env_ok ev" and z: "counters0 (qp_q_info qp)"
    and res: "hisi_qm_setup_info ev qp cfg pr = (ret, qp', cfg', pr')"
  shows "ret \<noteq> 0 \<and> held pr' = held pr \<or>
    ret = 0 \<and> started ev (qp_q_info qp') \<and> (\<exists>c. qp_h_ctx qp' = Some c) \<and> qp_h_nosva_sgl_pool qp' = qp_h_nosva_sgl_pool qp \<and>
      (\<forall>qp2 pr2. regions (qp_h_ctx qp2) = regions (qp_h_ctx qp') \<longrightarrow> held pr2 = held pr' \<longrightarrow> held (snd (hisi_qm_clear_info qp2 pr2)) = held pr)"
proof -
  obtain r1 q1 h1 pr1 where s1: "hisi_qm_setup_region ev (qp_h_ctx qp) (qp_q_info qp) pr = (r1, q1, h1, pr1)" by (metis prod_cases4)
  obtain r2 q2 where s2: "hisi_qm_get_qfrs_offs h1 q1 = (r2, q2)" by fastforce
  obtain r3 q3 where s3: "hisi_qm_setup_db h1 q2 = (r3, q3)" by fastforce
  obtain r4 cfg4 q4 pr4 where s4: "his_qm_set_qp_ctx ev h1 cfg q3 pr1 = (r4, cfg4, q4, pr4)" by (metis prod_cases4)
  from setup_region_cases [OF h ev s1]
  consider (bad) "r1 \<noteq> 0" "held pr1 = held pr"
    | (good) a b c where "r1 = 0" "held (snd (hisi_qm_unset_region h1 q1 pr1)) = held pr" "pr_fds pr1 = pr_fds pr" "pr_heap pr1 = pr_heap pr"
      "pr_locks pr1 = pr_locks pr" "h1 = Some c" "a \<noteq> 0" "q1 = (qp_q_info qp)\<lparr>qi_sq_base := a, qi_mmio_base := b\<rparr>" by auto
  then show ?thesis
  proof cases
    case bad
    then show ?thesis using res s1 by (simp add: hisi_qm_setup_info_def)
  next
    case good
    have c1: "counters0 q1" "qi_sq_base q1 \<noteq> 0" using z good by (simp_all add: counters0_def)
    have c2: "counters0 q2" "qi_sq_base q2 \<noteq> 0" using qfrs_offs_frame [OF s2] c1 by auto
    have c3: "counters0 q3" "qi_sq_base q3 \<noteq> 0" using setup_db_frame [OF s3] c2 by auto
    note f4 = set_qp_ctx_frame [OF s4 [unfolded good(6)]]
    have err: "ret = r \<and> held pr' = held pr" if "set_err_out r qq cc pp = (ret, qp', cfg', pr')" "held pp = held pr1" "regions (qp_h_ctx qq) = regions h1" for r qq cc pp
      using set_err_out_held [OF that, of q1] good(2) by simp
    let ?q = "q4\<lparr>qi_qp_mode := qv_qp_mode cfg4, qi_epoll_en := qv_epoll_en cfg4, qi_idx := qv_idx cfg4, qi_cqc_phase := True,
      qi_cq_base := qi_sq_base q4 + qv_sqe_size cfg4 * qi_sq_depth q4, qi_ds_tx_base := qi_sq_base q4 + qi_region_dus q4 - 4,
      qi_ds_rx_base := qi_sq_base q4 + qi_region_dus q4 - 4 - 4\<rparr>"
    let ?qp = "\<lambda>q. qp\<lparr>qp_h_ctx := h1, qp_q_info := q\<rparr>"
    have res': "(if r2 \<noteq> 0 then set_err_out r2 (?qp q2) cfg pr1
      else if r3 \<noteq> 0 then set_err_out r3 (?qp q3) cfg pr1
      else if r4 \<noteq> 0 then set_err_out r4 (?qp q4) cfg4 pr4
      else if qe_rv_lock ev \<noteq> 0 then set_err_out (qe_rv_lock ev) (?qp ?q) cfg4 (init_lock (qe_rv_lock ev) pr4)
      else if qe_sd_lock ev \<noteq> 0 then set_err_out (qe_sd_lock ev) (?qp ?q) cfg4 (destroy_lock (init_lock (qe_sd_lock ev) (init_lock 0 pr4)))
      else if qe_sgl_lock ev \<noteq> 0 then
        set_err_out (qe_sgl_lock ev) (?qp ?q) cfg4 (destroy_lock (destroy_lock (init_lock (qe_sgl_lock ev) (init_lock 0 (init_lock 0 pr4)))))
      else (0, ?qp ?q, cfg4, init_lock 0 (init_lock 0 (init_lock 0 pr4)))) = (ret, qp', cfg', pr')"
      using res s1 s2 s3 s4 good(1)
      by (cases "r2 = 0"; cases "r3 = 0"; cases "r4 = 0"; cases "qe_rv_lock ev = 0"; cases "qe_sd_lock ev = 0"; cases "qe_sgl_lock ev = 0";
          simp add: hisi_qm_setup_info_def Let_def)
    consider (err) r qq cc pp where "r \<noteq> 0" "set_err_out r qq cc pp = (ret, qp', cfg', pr')" "held pp = held pr1" "qp_h_ctx qq = h1"
      | (ok) "ret = 0" "qp' = ?qp ?q" "pr' = init_lock 0 (init_lock 0 (init_lock 0 pr4))" "r4 = 0"
      using res' f4 unset_frame by (auto split: if_splits)
    then show ?thesis
    proof cases
      case e: err
      then show ?thesis using err [OF e(2,3)] by simp
    next
      case ok
      have "held (snd (hisi_qm_clear_info qp2 pr2)) = held pr" if "regions (qp_h_ctx qp2) = regions h1" "held pr2 = held pr'" for qp2 pr2
      proof -
        have "held (destroy_lock (destroy_lock (destroy_lock pr2))) = held pr1" using that(2) ok(3) f4 by (auto simp: held_def init_lock_def destroy_lock_def)
        from held_unset [OF this that(1), of "qp_q_info qp2" q1] good(2) show ?thesis by (auto simp: hisi_qm_clear_info_def split: prod.splits)
      qed
      moreover have "started ev (qp_q_info qp')" using ok c3 f4 by (simp add: started_def counters0_def)
      ultimately show ?thesis using ok(1,2) good(6) by simp
    qed
  qed
qed

text \<open>Conditions on the blocks for the list pool, as in the contract of the pool.\<close>

definition pool_env_ok :: "qp_env \<Rightarrow> sgl_mem \<Rightarrow> bool" where
  "pool_env_ok ev m \<longleftrightarrow>
    (let as = takeWhile (\<lambda>a. a \<noteq> 0) (take HISI_SGL_NUM_IN_BD (qe_pool_addrs ev)) in
     list_all (\<lambda>a. a + sgl_block_size HISI_SGE_NUM_IN_SGL \<le> 2 ^ 64 - 1) as \<and>
     dom (sm_sgls m) \<inter> sgl_blocks HISI_SGE_NUM_IN_SGL as = {} \<and> disjoint_blocks HISI_SGE_NUM_IN_SGL as)"

lemma qp_pool_cases:
  assumes "pool_env_ok ev m"
    and "hisi_qm_create_sglpool (qe_pool_oks ev) (qe_pool_lock ev) (qe_iova ev) (qe_junk ev) (qe_pool_addrs ev)
      HISI_SGL_NUM_IN_BD HISI_SGE_NUM_IN_SGL None m = (r, m')"
  shows "case r of None \<Rightarrow> same_mem m' m
    | Some p \<Rightarrow> sgl_pool_ok (set (sgl_free p)) p m' \<and> length (sgl_free p) = HISI_SGL_NUM_IN_BD \<and> same_mem (hisi_qm_destroy_sglpool (Some p) m') m"
  using create_sglpool_spec [of HISI_SGL_NUM_IN_BD HISI_SGE_NUM_IN_SGL _ "qe_pool_addrs ev" m, OF _ _ _ _ refl _ _ _ assms(2)] assms(1)
  by (auto simp: pool_env_ok_def Let_def list_all_iff sgl_consts split: option.splits)

lemma held_start: "held (snd (wd_ctx_start ret h_ctx pr)) = held pr"
  using held_io_cmd by (auto simp: wd_ctx_start_def split: option.splits sum.splits)

lemma held_force: "held (snd (wd_release_ctx_force ret h_ctx pr)) = held pr"
  using held_io_cmd by (auto simp: wd_release_ctx_force_def split: option.splits)

text \<open>What the last part promises, given that clearing the queue information restores \<open>hd\<close>.\<close>

lemma start_qp_cases:
  assumes qp: "qp_h_ctx qp = Some c" "qp_h_sgl_pool qp = Some p" "qp_h_nosva_sgl_pool qp = None"
    and clr: "\<And>qp2 pr2. regions (qp_h_ctx qp2) = regions (qp_h_ctx qp) \<Longrightarrow> held pr2 = held pr \<Longrightarrow> held (free1 (snd (hisi_qm_clear_info qp2 pr2))) = hd0"
    and res: "start_qp ev qp_addr qp cfg pr m = (r, ctx', config', pr', m')"
  shows "r = None \<and> held pr' = hd0 \<and> m' = hisi_qm_destroy_sglpool (Some p) m \<or>
    r = Some (qp\<lparr>qp_h_ctx := ctx'\<rparr>) \<and> m' = m \<and>
      (case hisi_qm_free_qp put_q r pr' m' of (pr2, m2) \<Rightarrow> held pr2 = hd0 \<and> m2 = hisi_qm_destroy_sglpool (Some p) m)"
proof -
  obtain r3 pr3 where s3: "wd_ctx_start (qe_start ev) (Some c) pr = (r3, pr3)" by fastforce
  have h3: "held pr3 = held pr" using held_start [of "qe_start ev" "Some c" pr] s3 by simp
  show ?thesis
  proof (cases "r3 = 0")
    case False
    then have "r = None" "pr' = free1 (snd (hisi_qm_clear_info qp pr3))" "m' = hisi_qm_destroy_sglpool (Some p) m"
      using res s3 qp by (auto simp: start_qp_def split: prod.splits)
    then show ?thesis using clr [of qp pr3] h3 by simp
  next
    case True
    let ?qp = "qp\<lparr>qp_h_ctx := Some (c\<lparr>cx_priv := qp_addr\<rparr>)\<rparr>"
    have R: "r = Some ?qp" "pr' = pr3" "m' = m" "ctx' = Some (c\<lparr>cx_priv := qp_addr\<rparr>)"
      using res s3 qp True by (auto simp: start_qp_def wd_ctx_set_priv_def)
    obtain r4 pr4 where s4: "wd_release_ctx_force put_q (qp_h_ctx ?qp) pr3 = (r4, pr4)" by fastforce
    have "held pr4 = held pr3" using held_force [of put_q "qp_h_ctx ?qp" pr3] s4 by simp
    then have "held (free1 (snd (hisi_qm_clear_info ?qp pr4))) = hd0" using qp(1) h3 by (intro clr) (simp_all add: regions_def)
    then show ?thesis using R s4 qp(2,3) by (auto simp: hisi_qm_free_qp_def Let_def split: prod.splits)
  qed
qed

text \<open>
  C23: The life of a queue pair. If allocating a queue pair fails at any of its steps (regions, version, configuration, locks,
  list pool, start), then every region is unmapped, every lock destroyed (the pool's as well) and all memory given back
  (the structures, and the blocks and arrays of the pool). If it succeeds, the
  queue is in the state in which the ring protocol starts, the list pool is complete and well-formed, and freeing the
  queue pair restores what the process held before. No region is mapped at address 0, and the allocator returns disjoint
  blocks that hold no list of another pool.
\<close>

theorem qp_alloc_free:
  assumes "ctx_shape ctx" and "env_ok ev" and "pool_env_ok ev m"
    and "hisi_qm_alloc_qp ev qp_addr config ctx pr m = (r, ctx', config', pr', m')"
  shows "case r of
      None \<Rightarrow> held pr' = held pr \<and> same_mem m' m
    | Some qp \<Rightarrow> started ev (qp_q_info qp) \<and> qp_h_ctx qp = ctx' \<and>
        (\<exists>p. qp_h_sgl_pool qp = Some p \<and> sgl_pool_ok (set (sgl_free p)) p m' \<and> length (sgl_free p) = HISI_SGL_NUM_IN_BD) \<and>
        (case hisi_qm_free_qp put_q (Some qp) pr' m' of (pr2, m2) \<Rightarrow> held pr2 = held pr \<and> same_mem m2 m)"
proof (cases "\<exists>cfg. config = Some cfg \<and> qv_sqe_size cfg \<noteq> 0 \<and> qe_qp_alloc ev")
  case False
  then show ?thesis using assms(4) by (auto simp: hisi_qm_alloc_qp_def same_mem_def split: option.splits if_splits)
next
  case True
  then obtain cfg where cfg: "config = Some cfg" "qv_sqe_size cfg \<noteq> 0" "qe_qp_alloc ev" by blast
  let ?qp = "\<lparr>qp_q_info = zero_info, qp_h_sgl_pool = None, qp_h_ctx = ctx, qp_priv = 0, qp_h_nosva_sgl_pool = None\<rparr>"
  obtain r1 qp1 cfg1 pr1 where s1: "hisi_qm_setup_info ev ?qp cfg (alloc1 pr) = (r1, qp1, cfg1, pr1)" by (metis prod_cases4)
  obtain r2 m2 where s2: "hisi_qm_create_sglpool (qe_pool_oks ev) (qe_pool_lock ev) (qe_iova ev) (qe_junk ev) (qe_pool_addrs ev)
      HISI_SGL_NUM_IN_BD HISI_SGE_NUM_IN_SGL None m = (r2, m2)" by fastforce
  note pool = qp_pool_cases [OF assms(3) s2]
  have fr: "held (free1 p) = held pr" if "held p = held (alloc1 pr)" for p using that by (simp add: held_def free1_def alloc1_def)
  have "counters0 (qp_q_info ?qp)" by (simp add: zero_info_def fresh_info_def counters0_def)
  from setup_info_cases [OF _ assms(2) this s1] assms(1)
  consider (bad) "r1 \<noteq> 0" "held pr1 = held (alloc1 pr)"
    | (good) c where "r1 = 0" "started ev (qp_q_info qp1)" "qp_h_ctx qp1 = Some c" "qp_h_nosva_sgl_pool qp1 = None"
      "\<And>qp2 pr2. regions (qp_h_ctx qp2) = regions (qp_h_ctx qp1) \<Longrightarrow> held pr2 = held pr1 \<Longrightarrow> held (snd (hisi_qm_clear_info qp2 pr2)) = held (alloc1 pr)"
    by auto
  then show ?thesis
  proof cases
    case bad
    then show ?thesis using assms(4) cfg s1 fr by (auto simp: hisi_qm_alloc_qp_def same_mem_def)
  next
    case good
    note clr = fr [OF good(5)]
    show ?thesis
    proof (cases r2)
      case None
      then have "r = None" "pr' = free1 (snd (hisi_qm_clear_info qp1 pr1))" "m' = m2"
        using assms(4) cfg s1 s2 good(1) by (auto simp: hisi_qm_alloc_qp_def split: prod.splits)
      then show ?thesis using clr [of qp1 pr1] pool None by simp
    next
      case (Some p)
      have "start_qp ev qp_addr (qp1\<lparr>qp_h_sgl_pool := Some p\<rparr>) cfg1 pr1 m2 = (r, ctx', config', pr', m')"
        using assms(4) cfg s1 s2 good(1) Some by (auto simp: hisi_qm_alloc_qp_def)
      from start_qp_cases [OF _ _ _ clr this, of c p put_q] good(3,4) show ?thesis
        using pool Some good(2) by (auto split: prod.splits)
    qed
  qed
qed

definition demo_addrs :: "nat list" where
  "demo_addrs = map (\<lambda>i. 65536 * (i + 1)) [0..<256]"

definition demo_env :: qp_env where
  "demo_env = \<lparr>qe_mmap_dus = Some 4096, qe_mmap_mmio = Some 8192, qe_set_ctx = 0, qe_qp_id = 5, qe_set_info = -1, qe_info_sq_depth = 0,
     qe_info_cq_depth = 0, qe_info_sqe_size = 0, qe_rv_lock = 0, qe_sd_lock = 0, qe_sgl_lock = 0, qe_start = 0, qe_put_q = 0,
     qe_qp_alloc = True, qe_pool_oks = [], qe_pool_lock = True, qe_pool_addrs = demo_addrs, qe_iova = (\<lambda>a _. a), qe_junk = (\<lambda>_. zero_sgl 255)\<rparr>"

definition demo_dev :: uacce_dev where
  "demo_dev = \<lparr>ud_flags = 1, ud_numa_id = 0, ud_api = ''hisi_qm_v3'', ud_algs = ''zlib'', ud_dev_root = ''/sys/class/uacce/hisi_zip-0'',
     ud_char_dev_path = ''/dev/hisi_zip-0'', ud_qfrs_mmio = 16384, ud_qfrs_dus = 73728\<rparr>"

definition demo_ctx :: wd_ctx_h where
  "demo_ctx = opened_ctx 7 demo_dev ''hisi_zip-0'' ''hisi_zip''"

definition demo_proc :: proc where
  "demo_proc = \<lparr>pr_fds = [7], pr_heap = 4, pr_maps = [], pr_locks = 0, pr_cmds = []\<rparr>"

definition demo_config :: hisi_qm_priv where
  "demo_config = \<lparr>qv_qp_mode = 0, qv_sqe_size = 128, qv_op_type = 0, qv_sqn = 0, qv_idx = 0, qv_epoll_en = False\<rparr>"

definition demo_nomem :: sgl_mem where
  "demo_nomem = \<lparr>sm_sgls = Map.empty, sm_blocks = [], sm_heap = 0, sm_locks = 0\<rparr>"

lemma demo_takeWhile: "takeWhile (\<lambda>a. a \<noteq> 0) (take 256 demo_addrs) = demo_addrs"
  by (auto simp: demo_addrs_def takeWhile_eq_all_conv)

lemma demo_blocks: "pool_env_ok demo_env demo_nomem"
proof -
  have "disjoint_blocks 255 demo_addrs"
    unfolding disjoint_blocks_def demo_addrs_def sorted_wrt_map
    by (rule sorted_wrt_mono_rel [of _ "(<)"]) (auto simp: sgl_block_size_def sgl_consts)
  moreover have "list_all (\<lambda>a. a + sgl_block_size 255 \<le> 2 ^ 64 - 1) demo_addrs"
    by (auto simp: demo_addrs_def list_all_iff sgl_block_size_def sgl_consts)
  ultimately show ?thesis
    using demo_takeWhile by (simp add: pool_env_ok_def demo_env_def demo_nomem_def HISI_SGL_NUM_IN_BD_def HISI_SGE_NUM_IN_SGL_def)
qed

lemma demo_pool_created:
  "\<exists>p m'. hisi_qm_create_sglpool [] True (\<lambda>a _. a) (\<lambda>_. zero_sgl 255) demo_addrs HISI_SGL_NUM_IN_BD HISI_SGE_NUM_IN_SGL None demo_nomem = (Some p, m')"
proof -
  let ?p0 = "\<lparr>sp_sgl_align = replicate 256 0, sp_sgl = replicate 256 0, sp_depth = 0, sp_top = 0, sp_sge_num = 0, sp_sgl_num = 0, sp_mm_ops = None\<rparr>"
  have "length demo_addrs = 256" by (simp add: demo_addrs_def)
  then obtain p m' where "create_lists (\<lambda>a _. a) (\<lambda>_. zero_sgl 255) 255 0 256 demo_addrs ?p0 (grow (grow (grow demo_nomem))) = (True, p, m')"
    using create_lists_spec [of ?p0 0 256 demo_addrs demo_addrs "\<lambda>a _. a" "\<lambda>_. zero_sgl 255" 255 "grow (grow (grow demo_nomem))", OF _ _ _ demo_takeWhile [symmetric]] by auto
  then show ?thesis by (simp add: hisi_qm_create_sglpool_def HISI_SGL_NUM_IN_BD_def HISI_SGE_NUM_IN_SGL_def)
qed

lemma demo_version: "get_version_id (Some c) = 3" if "cx_dev c = Some demo_dev" for c
  using that by (simp add: get_version_id_def wd_ctx_get_api_def demo_dev_def VERSION_ID_SHIFT_def strtoul_def isspace_def isdigit_def
      digits_value_def u32_def)

lemma demo_qp_alloc:
  "\<exists>qp ctx' config' pr' m'. hisi_qm_alloc_qp demo_env 1 (Some demo_config) (Some demo_ctx) demo_proc demo_nomem = (Some qp, ctx', config', pr', m')"
proof -
  from demo_pool_created obtain p m' where
    "hisi_qm_create_sglpool [] True (\<lambda>a _. a) (\<lambda>_. zero_sgl 255) demo_addrs HISI_SGL_NUM_IN_BD HISI_SGE_NUM_IN_SGL None demo_nomem = (Some p, m')" by blast
  moreover have "ud_qfrs_dus demo_dev = 73728" "ud_qfrs_mmio demo_dev = 16384" by (simp_all add: demo_dev_def)
  ultimately show ?thesis
    by (simp add: hisi_qm_alloc_qp_def start_qp_def hisi_qm_setup_info_def hisi_qm_setup_region_def wd_ctx_mmap_qfr_def hisi_qm_get_qfrs_offs_def
        hisi_qm_setup_db_def demo_version his_qm_set_qp_ctx_def wd_ctx_set_io_cmd_def wd_ctx_get_region_size_def wd_ctx_start_def
        wd_check_ctx_type_def wd_ctx_set_priv_def qm_type_def HISI_QM_API_VER_BASE_def HISI_QM_API_VER2_BASE_def
        demo_env_def demo_config_def demo_ctx_def opened_ctx_def MAX_FD_NUM_def Let_def neg_def)
qed

theorem qp_alloc_free_witness:
  "\<exists>qp ctx' config' pr' m'. hisi_qm_alloc_qp demo_env 1 (Some demo_config) (Some demo_ctx) demo_proc demo_nomem = (Some qp, ctx', config', pr', m') \<and>
     started demo_env (qp_q_info qp) \<and> held (fst (hisi_qm_free_qp 0 (Some qp) pr' m')) = held demo_proc \<and>
     same_mem (snd (hisi_qm_free_qp 0 (Some qp) pr' m')) demo_nomem"
proof -
  have shape: "ctx_shape (Some demo_ctx)" "env_ok demo_env" by (simp_all add: ctx_shape_def env_ok_def demo_ctx_def opened_ctx_def demo_env_def)
  from demo_qp_alloc obtain qp ctx' config' pr' m' where
    a: "hisi_qm_alloc_qp demo_env 1 (Some demo_config) (Some demo_ctx) demo_proc demo_nomem = (Some qp, ctx', config', pr', m')" by blast
  from qp_alloc_free [OF shape demo_blocks a, of 0] a show ?thesis by (auto split: prod.splits)
qed

text \<open>The allocated queue, with zeroed rings of its depths, is where the ring protocol of the queue starts.\<close>

lemma started_queue_start:
  assumes "started ev (qq_info q)" and "0 < qi_sq_depth (qq_info q)" and "qi_sq_depth (qq_info q) \<le> qi_cq_depth (qq_info q)"
    and "qi_cq_depth (qq_info q) < 2 ^ 16" and "length (qq_sq q) = qi_sq_depth (qq_info q)"
    and "qq_cq q = replicate (qi_cq_depth (qq_info q)) zero_cqe"
  shows "queue_start q"
  using assms by (simp add: queue_start_def started_def Let_def)

end
