(* ===== verification/Alg_Config.thy ===== *)
theory Alg_Config
  imports Bmm Sched_System
begin

text \<open>
  The part of \<^verbatim>\<open>wd_util.c\<close> that the algorithm front ends share around their configuration: memory functions of a session, the
  internal copy of the contexts, the copy of the scheduler, checks of requests, the loop that sends a synchronous message and
  waits for its response, and the status word that lets one thread initialise an algorithm.

  Return codes are integers here, because some of these functions return positive error numbers of the C library, which their
  callers do not take for errors.
\<close>

subsection \<open>Constants and data\<close>

definition CTX_MODE_ASYNC :: nat where "CTX_MODE_ASYNC = 1"
definition CTX_MODE_MAX :: nat where "CTX_MODE_MAX = 2"
definition CTX_TYPE_INVALID :: nat where "CTX_TYPE_INVALID = 9999"
definition WD_CTX_CNT_NUM :: nat where "WD_CTX_CNT_NUM = 1024"
definition WD_BALANCE_THRHD :: nat where "WD_BALANCE_THRHD = 1280"
definition WD_RECV_MAX_CNT_SLEEP :: nat where "WD_RECV_MAX_CNT_SLEEP = 60000000"
definition WD_RECV_MAX_CNT_NOSLEEP :: nat where "WD_RECV_MAX_CNT_NOSLEEP = 200000000"
definition WD_INIT_SLEEP_UTIME :: nat where "WD_INIT_SLEEP_UTIME = 1000"
definition WD_INIT_RETRY_TIMEOUT :: nat where "WD_INIT_RETRY_TIMEOUT = 3"

definition US2S :: "nat \<Rightarrow> nat" where "US2S us = us div 2 ^ 20"

lemmas alg_consts = CTX_MODE_SYNC_def CTX_MODE_ASYNC_def CTX_MODE_MAX_def CTX_TYPE_INVALID_def WD_CTX_CNT_NUM_def

datatype wd_mem_type = UADK_MEM_AUTO | UADK_MEM_USER | UADK_MEM_PROXY | UADK_MEM_MAX

datatype wd_status = WD_UNINIT | WD_INITING | WD_INIT

abbreviation err :: "wd_error \<Rightarrow> int" where "err e \<equiv> - errno_of e"

text \<open>The contexts that the user passes in.\<close>

record wd_ctx =
  wc_ctx :: nat
  wc_op_type :: nat
  wc_ctx_mode :: nat
  wc_ctx_type :: nat

record wd_ctx_config =
  cf_ctx_num :: nat
  cf_ctxs :: "wd_ctx list option"
  cf_priv :: nat
  cf_cap :: "nat option"

text \<open>The internal copy; the counters in shared memory are \<open>cc_msg_cnt\<close>.\<close>

record wd_ctx_config_internal =
  cc_ctx_num :: nat
  cc_shmid :: int
  cc_ctxs :: "wd_ctx_internal list option"
  cc_priv :: nat
  cc_epoll_en :: bool
  cc_msg_cnt :: "nat list option"
  cc_alg_name :: "string option"
  cc_drv_array :: "wd_alg_driver option list option"
  cc_drv_count :: nat

definition zero_ctx :: wd_ctx_internal where
  "zero_ctx = \<lparr>ci_op_type = 0, ci_ctx_mode = 0, ci_ctx_type = 0, ci_ctx_used = 0, ci_ctx = 0, ci_sqn = 0, ci_drv = None,
     ci_drv_priv = None\<rparr>"

definition zero_config :: wd_ctx_config_internal where
  "zero_config = \<lparr>cc_ctx_num = 0, cc_shmid = 0, cc_ctxs = None, cc_priv = 0, cc_epoll_en = False, cc_msg_cnt = None,
     cc_alg_name = None, cc_drv_array = None, cc_drv_count = 0\<rparr>"

text \<open>
  A scheduler as the framework sees it: which of the callbacks are set, given as the policy whose callback it is, and whether the
  handle of the scheduler context is set.
\<close>

record wd_sched =
  sd_name :: "string option"
  sd_sched_policy :: nat
  sd_sched_init :: "nat option"
  sd_sched_uninit :: bool
  sd_set_param :: "nat option"
  sd_pick_next_ctx :: "nat option"
  sd_poll_policy :: "nat option"
  sd_h_sched_ctx :: bool

text \<open>What the process holds.\<close>

record alg_res =
  rs_heap :: int
  rs_locks :: int
  rs_shm :: "int list"
  rs_mem :: "mem_ctx_node list"
  rs_live :: "nat list"

text \<open>
  What the system answers while a configuration is copied: the level of messages, the shared memory, the memory for the array,
  the outcome of each lock and each list node, and the structure behind a context handle.
\<close>

record cfg_env =
  ce_need_info :: bool
  ce_shmget :: int
  ce_shmat :: bool
  ce_ctxs_ok :: bool
  ce_spin :: "nat \<Rightarrow> int"
  ce_node_ok :: "nat \<Rightarrow> bool"
  ce_ctx :: "nat \<Rightarrow> wd_ctx_h"

abbreviation add_heap :: "int \<Rightarrow> alg_res \<Rightarrow> alg_res" where "add_heap n r \<equiv> r\<lparr>rs_heap := rs_heap r + n\<rparr>"
abbreviation add_locks :: "int \<Rightarrow> alg_res \<Rightarrow> alg_res" where "add_locks n r \<equiv> r\<lparr>rs_locks := rs_locks r + n\<rparr>"

subsection \<open>Memory functions of a session\<close>

text \<open>Whose functions the structure points at.\<close>

datatype mm_impl = Mm_User | Mm_Internal | Mm_Pool

record mem_ops = wd_mm_ops +
  mo_iova_unmap :: bool
  mo_get_bufsize :: bool
  mo_impl :: mm_impl

definition wd_mem_ops_init :: "wd_ctx_h option \<Rightarrow> mem_ops \<Rightarrow> wd_mem_type \<Rightarrow> int \<times> mem_ops" where
  "wd_mem_ops_init h_ctx ops mem_type =
    (let sva = wd_is_sva h_ctx in
     if sva \<noteq> Inr True \<and> sva \<noteq> Inl WD_HW_EACCESS \<and> sva \<noteq> Inr False then (case sva of Inl e \<Rightarrow> err e | Inr _ \<Rightarrow> 0, ops)
     else
       (let ops = ops\<lparr>mo_sva_mode := (sva \<noteq> Inr False)\<rparr> in
        if mo_sva_mode ops then
          (0, ops\<lparr>mo_alloc := True, mo_free := True, mo_iova_map := False, mo_iova_unmap := False, mo_get_bufsize := True,
                  mo_usr := False, mo_impl := Mm_Internal\<rparr>)
        else
          (case mem_type of
             UADK_MEM_AUTO \<Rightarrow> (err WD_EINVAL, ops\<lparr>mo_usr := False\<rparr>)
           | UADK_MEM_USER \<Rightarrow>
               if \<not> mo_alloc ops \<or> \<not> mo_free ops \<or> \<not> mo_iova_map ops \<or> \<not> mo_iova_unmap ops \<or> \<not> mo_usr ops
               then (err WD_EINVAL, ops) else (0, ops)
           | UADK_MEM_PROXY \<Rightarrow>
               if \<not> mo_usr ops then (err WD_EINVAL, ops)
               else (0, ops\<lparr>mo_alloc := True, mo_free := True, mo_iova_map := True, mo_iova_unmap := True,
                            mo_get_bufsize := True, mo_impl := Mm_Pool\<rparr>)
           | UADK_MEM_MAX \<Rightarrow> (err WD_EINVAL, ops))))"

subsection \<open>The copy of the contexts\<close>

definition clone_ctx_to_internal :: "wd_ctx \<Rightarrow> wd_ctx_internal \<Rightarrow> wd_ctx_internal" where
  "clone_ctx_to_internal ctx ctx_in =
    ctx_in\<lparr>ci_ctx := wc_ctx ctx, ci_op_type := wc_op_type ctx, ci_ctx_mode := wc_ctx_mode ctx\<rparr>"

definition wd_shm_create :: "cfg_env \<Rightarrow> wd_ctx_config_internal \<Rightarrow> alg_res \<Rightarrow> int \<times> wd_ctx_config_internal \<times> alg_res" where
  "wd_shm_create ev cfg r =
    (if \<not> ce_need_info ev then (0, cfg, r)
     else if ce_shmget ev < 0 then (err WD_EINVAL, cfg, r)
     else if \<not> ce_shmat ev then (err WD_EINVAL, cfg, r\<lparr>rs_shm := ce_shmget ev # rs_shm r\<rparr>)
     else (0, cfg\<lparr>cc_shmid := ce_shmget ev, cc_msg_cnt := Some (replicate WD_CTX_CNT_NUM 0)\<rparr>, r\<lparr>rs_shm := ce_shmget ev # rs_shm r\<rparr>))"

definition wd_shm_delete :: "cfg_env \<Rightarrow> wd_ctx_config_internal \<Rightarrow> alg_res \<Rightarrow> wd_ctx_config_internal \<times> alg_res" where
  "wd_shm_delete ev cfg r =
    (if \<not> ce_need_info ev then (cfg, r)
     else (cfg\<lparr>cc_shmid := 0, cc_msg_cnt := None\<rparr>, r\<lparr>rs_shm := remove1 (cc_shmid cfg) (rs_shm r)\<rparr>))"

text \<open>
  The loop over the contexts of the user. It ends early, but as if it had been successful, at a context without a handle. The
  first component of an error is the number of locks that the error path destroys.
\<close>

fun init_ctxs ::
  "cfg_env \<Rightarrow> string option \<Rightarrow> nat \<Rightarrow> wd_ctx list \<Rightarrow> nat \<Rightarrow> wd_ctx_internal list \<Rightarrow> alg_res
    \<Rightarrow> (((nat \<times> int) + wd_ctx_internal list) \<times> alg_res) option" where
  "init_ctxs ev alg 0 cs i ctxs r = Some (Inr ctxs, r)"
| "init_ctxs ev alg (Suc n) [] i ctxs r = None"
| "init_ctxs ev alg (Suc n) (c # cs) i ctxs r =
    (if wc_ctx c = 0 then Some (Inr ctxs, r)
     else if ce_spin ev i \<noteq> 0 then Some (Inl (i, ce_spin ev i), r)
     else
       (case wd_insert_ctx_list (ce_node_ok ev i) (wc_ctx c) (ce_ctx ev (wc_ctx c)) alg (rs_mem r) of
          None \<Rightarrow> None
        | Some (Inr _, mem) \<Rightarrow>
            init_ctxs ev alg n cs (Suc i) (ctxs[i := clone_ctx_to_internal c (ctxs ! i)]) ((add_locks 1 r)\<lparr>rs_mem := mem\<rparr>)
        | Some (Inl e, mem) \<Rightarrow> Some (Inl (i, err e), (add_locks 1 r)\<lparr>rs_mem := mem\<rparr>)))"

definition wd_init_ctx_config ::
  "cfg_env \<Rightarrow> wd_ctx_config_internal \<Rightarrow> wd_ctx_config \<Rightarrow> alg_res \<Rightarrow> (int \<times> wd_ctx_config_internal \<times> alg_res) option" where
  "wd_init_ctx_config ev cin cfg r =
    (if cf_ctx_num cfg = 0 then Some (err WD_EINVAL, cin, r)
     else
       (case wd_shm_create ev cin r of
          (ret, cin, r) \<Rightarrow>
            if ret \<noteq> 0 then Some (ret, cin, r)
            else if \<not> ce_ctxs_ok ev then
              (let (cin, r) = wd_shm_delete ev cin r in Some (err WD_ENOMEM, cin, r))
            else
              (case cf_ctxs cfg of
                 None \<Rightarrow> None
               | Some cs \<Rightarrow>
                   (case init_ctxs ev (cc_alg_name cin) (cf_ctx_num cfg) cs 0 (replicate (cf_ctx_num cfg) zero_ctx) (add_heap 1 r) of
                      None \<Rightarrow> None
                    | Some (Inr ctxs, r) \<Rightarrow>
                        Some (0, cin\<lparr>cc_ctxs := Some ctxs, cc_priv := cf_priv cfg, cc_ctx_num := cf_ctx_num cfg\<rparr>, r)
                    | Some (Inl (i, ret), r) \<Rightarrow>
                        (let (cin, r) = wd_shm_delete ev cin (add_heap (- 1) (add_locks (- int i) r)) in Some (ret, cin, r))))))"

definition wd_clear_ctx_config :: "cfg_env \<Rightarrow> wd_ctx_config_internal \<Rightarrow> alg_res \<Rightarrow> (wd_ctx_config_internal \<times> alg_res) option" where
  "wd_clear_ctx_config ev cin r =
    (if cc_ctx_num cin > (case cc_ctxs cin of None \<Rightarrow> 0 | Some ctxs \<Rightarrow> length ctxs) then None
     else
       (let r = add_locks (- int (cc_ctx_num cin)) r;
            r = (if cc_ctxs cin = None then r else add_heap (- 1) r);
            cin = cin\<lparr>cc_priv := 0, cc_ctx_num := 0, cc_ctxs := None\<rparr>;
            r = r\<lparr>rs_mem := wd_remove_ctx_list (rs_mem r)\<rparr> in
        Some (wd_shm_delete ev cin r)))"

subsection \<open>The copy of the scheduler\<close>

text \<open>\<open>dup\<close> tells whether \<^verbatim>\<open>strdup\<close> gets memory; its failure goes unnoticed. \<^verbatim>\<open>sched_uninit\<close> and \<^verbatim>\<open>sched_policy\<close> are not copied.\<close>

definition wd_init_sched :: "bool \<Rightarrow> wd_sched \<Rightarrow> wd_sched \<Rightarrow> alg_res \<Rightarrow> int \<times> wd_sched \<times> alg_res" where
  "wd_init_sched dup sin from r =
    (if sd_name from = None \<or> sd_sched_init from = None \<or> sd_set_param from = None \<or> sd_pick_next_ctx from = None \<or>
        sd_poll_policy from = None then (err WD_EINVAL, sin, r)
     else (0, sin\<lparr>sd_h_sched_ctx := sd_h_sched_ctx from, sd_name := (if dup then sd_name from else None),
                  sd_sched_init := sd_sched_init from, sd_pick_next_ctx := sd_pick_next_ctx from,
                  sd_poll_policy := sd_poll_policy from, sd_set_param := sd_set_param from\<rparr>,
           if dup then add_heap 1 r else r))"

definition wd_clear_sched :: "wd_sched \<Rightarrow> alg_res \<Rightarrow> wd_sched \<times> alg_res" where
  "wd_clear_sched sin r =
    (sin\<lparr>sd_h_sched_ctx := False, sd_name := None, sd_sched_init := None, sd_pick_next_ctx := None, sd_poll_policy := None,
         sd_set_param := None\<rparr>, if sd_name sin = None then r else add_heap (- 1) r)"

subsection \<open>Checks\<close>

definition wd_memset_zero :: "nat list option \<Rightarrow> nat \<Rightarrow> nat list option option" where
  "wd_memset_zero data n =
    (case data of
       None \<Rightarrow> Some None
     | Some bs \<Rightarrow> if n \<le> length bs then Some (Some (replicate n 0 @ drop n bs)) else None)"

text \<open>An address is a number, 0 for \<^verbatim>\<open>NULL\<close>. A list of buffers holds their addresses and lengths.\<close>

definition wd_check_src_dst :: "nat \<Rightarrow> nat \<Rightarrow> nat \<Rightarrow> nat \<Rightarrow> int" where
  "wd_check_src_dst src in_bytes dst out_bytes =
    (if in_bytes \<noteq> 0 \<and> src = 0 \<or> out_bytes \<noteq> 0 \<and> dst = 0 then err WD_EINVAL else 0)"

fun datalist_size :: "(nat \<times> nat) list \<Rightarrow> nat \<Rightarrow> nat" where
  "datalist_size [] n = n"
| "datalist_size ((data, len) # bs) n = datalist_size bs (if data \<noteq> 0 then u64 (n + len) else n)"

definition wd_check_datalist :: "(nat \<times> nat) list \<Rightarrow> nat \<Rightarrow> int" where
  "wd_check_datalist bs n = (if datalist_size bs 0 \<ge> n then 0 else err WD_EINVAL)"

record wd_ctx_attr =
  ca_node :: nat
  ca_type :: nat
  ca_num :: nat
  ca_mode :: nat

definition wd_set_ctx_attr :: "wd_ctx_attr \<Rightarrow> nat \<Rightarrow> nat \<Rightarrow> nat \<Rightarrow> nat \<Rightarrow> int \<times> wd_ctx_attr" where
  "wd_set_ctx_attr attr node ty mode num =
    (if mode \<ge> CTX_MODE_MAX then (err WD_EINVAL, attr)
     else (0, \<lparr>ca_node = node, ca_type = (if ty = CTX_TYPE_INVALID then 0 else ty), ca_num = num, ca_mode = mode\<rparr>))"

text \<open>No outcome if the array has fewer contexts than counted.\<close>

definition wd_check_ctx :: "wd_ctx_config_internal \<Rightarrow> nat \<Rightarrow> nat \<Rightarrow> int option" where
  "wd_check_ctx config mode idx =
    (if idx = QUEUE_FULL_POS then Some (err WD_EBUSY)
     else if idx \<ge> cc_ctx_num config then Some (err WD_EINVAL)
     else
       (case cc_ctxs config of
          None \<Rightarrow> None
        | Some ctxs \<Rightarrow>
            (case rd ctxs idx of
               None \<Rightarrow> None
             | Some ctx \<Rightarrow>
                 if int (ci_ctx_type ctx) = UADK_ALG_HW \<and> ci_ctx_mode ctx \<noteq> mode then Some (err WD_EINVAL) else Some 0)))"

text \<open>The counters of messages: the index into the shared memory is the number of the queue, which is not compared with its size.\<close>

definition wd_dfx_msg_cnt :: "bool \<Rightarrow> wd_ctx_config_internal \<Rightarrow> nat \<Rightarrow> nat \<Rightarrow> wd_ctx_config_internal option" where
  "wd_dfx_msg_cnt need_info config numsize idx =
    (if idx > numsize \<or> \<not> need_info then Some config
     else
       (case (cc_ctxs config, cc_msg_cnt config) of
          (Some ctxs, Some cnt) \<Rightarrow>
            (case rd ctxs idx of
               None \<Rightarrow> None
             | Some c \<Rightarrow>
                 (case rd cnt (ci_sqn c) of
                    None \<Rightarrow> None
                  | Some n \<Rightarrow> Some (config\<lparr>cc_msg_cnt := Some (cnt[ci_sqn c := u64 (n + 1)])\<rparr>)))
        | _ \<Rightarrow> None))"

definition wd_init_param_check :: "wd_ctx_config option \<Rightarrow> wd_sched option \<Rightarrow> int option" where
  "wd_init_param_check config sched =
    (case config of
       None \<Rightarrow> Some (err WD_EINVAL)
     | Some cfg \<Rightarrow>
         (case cf_ctxs cfg of
            None \<Rightarrow> Some (err WD_EINVAL)
          | Some [] \<Rightarrow> None
          | Some (c # cs) \<Rightarrow> if wc_ctx c = 0 then Some (err WD_EINVAL) else if sched = None then Some (err WD_EINVAL) else Some 0))"

subsection \<open>Environment switches\<close>

definition is_number :: "string \<Rightarrow> bool" where
  "is_number str \<longleftrightarrow> str \<noteq> [] \<and> \<not> (length str \<noteq> 1 \<and> str ! 0 = CHR ''0'') \<and> list_all isdigit str"

text \<open>The result and the new value of the target.\<close>

definition str_to_bool :: "string \<Rightarrow> bool \<Rightarrow> int \<times> bool" where
  "str_to_bool s target =
    (if \<not> is_number s then (err WD_EINVAL, target)
     else
       (let tmp = i32 (fst (strtol s)) in
        if tmp \<noteq> 0 \<and> tmp \<noteq> 1 then (err WD_EINVAL, target) else (0, tmp = 1)))"

text \<open>\<open>var\<close> is the value of the environment variable.\<close>

definition wd_set_epoll_en :: "string option \<Rightarrow> bool \<Rightarrow> int \<times> bool" where
  "wd_set_epoll_en var epoll_en =
    (case var of
       None \<Rightarrow> (0, False)
     | Some s \<Rightarrow> if s = [] then (0, False) else str_to_bool s epoll_en)"

subsection \<open>A synchronous message\<close>

text \<open>
  A driver is a pair of functions on its own state \<open>'d\<close>: sending a message, and receiving into it. Waiting for the device changes
  nothing but that state. The loop returns its code, how often nothing was there, the message and the state.
\<close>

function sync_recv ::
  "('m \<Rightarrow> 'd \<Rightarrow> int \<times> 'm \<times> 'd) \<Rightarrow> ('d \<Rightarrow> 'd) \<Rightarrow> bool \<Rightarrow> nat \<Rightarrow> nat \<Rightarrow> 'm \<Rightarrow> 'd \<Rightarrow> int \<times> nat \<times> 'm \<times> 'd" where
  "sync_recv recv wait epoll_en timeout rx_cnt msg d =
    (case recv msg (if epoll_en then wait d else d) of
       (ret, msg, d) \<Rightarrow>
         if ret \<noteq> err WD_EAGAIN then (ret, rx_cnt, msg, d)
         else if rx_cnt + 1 \<ge> timeout then (err WD_ETIMEDOUT, rx_cnt + 1, msg, d)
         else sync_recv recv wait epoll_en timeout (rx_cnt + 1) msg d)"
  by pat_completeness auto
termination by (relation "measure (\<lambda>(recv, wait, epoll_en, timeout, rx_cnt, msg, d). timeout - rx_cnt)") auto

declare sync_recv.simps [simp del]

text \<open>\<open>balance\<close> is the value that the caller's estimate has, \<open>None\<close> for \<^verbatim>\<open>NULL\<close>. Sending and receiving both may change the message.\<close>

definition wd_handle_msg_sync ::
  "('m \<Rightarrow> 'd \<Rightarrow> int \<times> 'm \<times> 'd) \<Rightarrow> ('m \<Rightarrow> 'd \<Rightarrow> int \<times> 'm \<times> 'd) \<Rightarrow> ('d \<Rightarrow> 'd) \<Rightarrow> 'm \<Rightarrow> nat option \<Rightarrow> bool \<Rightarrow> 'd
    \<Rightarrow> int \<times> nat option \<times> 'm \<times> 'd" where
  "wd_handle_msg_sync send recv wait msg balance epoll_en d =
    (let timeout = (if balance = None then WD_RECV_MAX_CNT_NOSLEEP else WD_RECV_MAX_CNT_SLEEP) in
     case send msg d of
       (ret, msg, d) \<Rightarrow>
         if ret < 0 then (ret, balance, msg, d)
         else
           (case sync_recv recv wait epoll_en timeout 0 msg d of
              (ret, rx_cnt, msg, d) \<Rightarrow>
                if ret < 0 then (ret, balance, msg, d) else (ret, map_option (\<lambda>_. rx_cnt) balance, msg, d)))"

subsection \<open>One thread initialises\<close>

text \<open>
  The status word of an algorithm and the threads that initialise it. A thread in the loop of \<^verbatim>\<open>wd_alg_try_init\<close> has made \<open>Trying n\<close>
  attempts; one that got the permission is \<open>Owner\<close> until it stores the outcome of the initialisation. An attempt is one atomic
  compare-and-exchange, which may fail although the status is the expected one (it is the weak form), and the tests that follow it.
\<close>

datatype init_pc = Idle | Trying nat | Owner | Failed wd_error

definition try_timeout :: "nat \<Rightarrow> bool" where
  "try_timeout n \<longleftrightarrow> US2S (u32 (WD_INIT_SLEEP_UTIME * n)) \<ge> WD_INIT_RETRY_TIMEOUT"

text \<open>The status after an attempt, and where the thread is then; \<open>spurious\<close> is a failure without cause.\<close>

definition try_once :: "bool \<Rightarrow> wd_status \<Rightarrow> nat \<Rightarrow> wd_status \<times> init_pc" where
  "try_once spurious status n =
    (let expected = status; ret = (status = WD_UNINIT \<and> \<not> spurious); status' = (if ret then WD_INITING else status) in
     if expected = WD_INIT then (status', Failed WD_EEXIST)
     else if try_timeout (n + 1) then (status', Failed WD_ETIMEDOUT)
     else if ret then (status', Owner)
     else (status', Trying (n + 1)))"

definition wd_alg_set_init :: "wd_status \<Rightarrow> wd_status" where "wd_alg_set_init status = WD_INIT"
definition wd_alg_clear_init :: "wd_status \<Rightarrow> wd_status" where "wd_alg_clear_init status = WD_UNINIT"

text \<open>A thread on its own: the statuses that it finds in its attempts are given, as other threads may change the word.\<close>

fun wd_alg_try_init :: "(bool \<times> wd_status) list \<Rightarrow> nat \<Rightarrow> (wd_error + unit) option" where
  "wd_alg_try_init [] n = None"
| "wd_alg_try_init ((spurious, status) # rest) n =
    (case snd (try_once spurious status n) of
       Owner \<Rightarrow> Some (Inr ())
     | Failed e \<Rightarrow> Some (Inl e)
     | _ \<Rightarrow> wd_alg_try_init rest (n + 1))"

record init_sys =
  is_status :: wd_status
  is_pc :: "nat \<Rightarrow> init_pc"

text \<open>
  The application ends an algorithm only after its initialisation has succeeded and not while another thread initialises it: the
  code that ends it does not look at the status. Ending it is one step here, as the status is stored last. A thread whose attempt failed may
  start again.
\<close>

inductive init_step :: "init_sys \<Rightarrow> init_sys \<Rightarrow> bool" where
  start: "is_pc s t = Idle \<or> is_pc s t = Failed e \<Longrightarrow> init_step s (s\<lparr>is_pc := (is_pc s)(t := Trying 0)\<rparr>)"
| attempt: "is_pc s t = Trying n \<Longrightarrow> try_once spurious (is_status s) n = (status, pc) \<Longrightarrow>
    init_step s \<lparr>is_status = status, is_pc = (is_pc s)(t := pc)\<rparr>"
| succeed: "is_pc s t = Owner \<Longrightarrow> init_step s \<lparr>is_status = wd_alg_set_init (is_status s), is_pc = (is_pc s)(t := Idle)\<rparr>"
| fail: "is_pc s t = Owner \<Longrightarrow> init_step s \<lparr>is_status = wd_alg_clear_init (is_status s), is_pc = (is_pc s)(t := Idle)\<rparr>"
| uninit: "is_status s = WD_INIT \<Longrightarrow> init_step s (s\<lparr>is_status := wd_alg_clear_init (is_status s)\<rparr>)"

definition init_start :: init_sys where "init_start = \<lparr>is_status = WD_UNINIT, is_pc = \<lambda>_. Idle\<rparr>"

subsection \<open>Waiting for a response\<close>

text \<open>The message and the state before the \<open>n\<close>-th attempt to receive, and its answer, if all attempts were made.\<close>

fun poll_state :: "('m \<Rightarrow> 'd \<Rightarrow> int \<times> 'm \<times> 'd) \<Rightarrow> ('d \<Rightarrow> 'd) \<Rightarrow> bool \<Rightarrow> nat \<Rightarrow> 'm \<Rightarrow> 'd \<Rightarrow> 'm \<times> 'd" where
  "poll_state recv wait ep 0 msg d = (msg, d)"
| "poll_state recv wait ep (Suc n) msg d =
    (case recv msg (if ep then wait d else d) of (_, msg, d) \<Rightarrow> poll_state recv wait ep n msg d)"

definition poll_answer :: "('m \<Rightarrow> 'd \<Rightarrow> int \<times> 'm \<times> 'd) \<Rightarrow> ('d \<Rightarrow> 'd) \<Rightarrow> bool \<Rightarrow> nat \<Rightarrow> 'm \<Rightarrow> 'd \<Rightarrow> int" where
  "poll_answer recv wait ep n msg d =
    (case poll_state recv wait ep n msg d of (msg, d) \<Rightarrow> fst (recv msg (if ep then wait d else d)))"

lemma poll_answer_simps [simp]:
  "poll_answer recv wait ep 0 msg d = fst (recv msg (if ep then wait d else d))"
  "poll_answer recv wait ep (Suc n) msg d =
    (case recv msg (if ep then wait d else d) of (_, msg, d) \<Rightarrow> poll_answer recv wait ep n msg d)"
  by (auto simp: poll_answer_def split: prod.splits)

lemma sync_recv_answer:
  assumes "\<forall>j < k. poll_answer recv wait ep j msg d = err WD_EAGAIN" and "poll_answer recv wait ep k msg d \<noteq> err WD_EAGAIN"
    and "rx + k < T"
  shows "sync_recv recv wait ep T rx msg d = (poll_answer recv wait ep k msg d, rx + k, poll_state recv wait ep (Suc k) msg d)"
  using assms
proof (induction k arbitrary: rx msg d)
  case 0
  obtain ret m' d' where r: "recv msg (if ep then wait d else d) = (ret, m', d')" by (metis prod_cases3)
  then show ?case using 0 by (subst sync_recv.simps) simp
next
  case (Suc k)
  obtain ret m' d' where r: "recv msg (if ep then wait d else d) = (ret, m', d')" by (metis prod_cases3)
  have "ret = err WD_EAGAIN" using Suc.prems(1) [rule_format, of 0] r by simp
  moreover have "\<forall>j < k. poll_answer recv wait ep j m' d' = err WD_EAGAIN"
  proof (intro allI impI)
    fix j assume "j < k"
    then show "poll_answer recv wait ep j m' d' = err WD_EAGAIN" using Suc.prems(1) [rule_format, of "Suc j"] r by simp
  qed
  moreover have "poll_answer recv wait ep k m' d' \<noteq> err WD_EAGAIN" using Suc.prems(2) r by simp
  ultimately show ?case using r Suc.IH [of m' d' "rx + 1"] Suc.prems(3) by (subst sync_recv.simps) simp
qed

lemma sync_recv_timeout:
  assumes "\<forall>j < k. poll_answer recv wait ep j msg d = err WD_EAGAIN" and "rx + k = T" and "0 < k"
  shows "fst (sync_recv recv wait ep T rx msg d) = err WD_ETIMEDOUT"
  using assms
proof (induction k arbitrary: rx msg d)
  case (Suc k)
  obtain ret m' d' where r: "recv msg (if ep then wait d else d) = (ret, m', d')" by (metis prod_cases3)
  have ret: "ret = err WD_EAGAIN" using Suc.prems(1) [rule_format, of 0] r by simp
  show ?case
  proof (cases "k = 0")
    case True
    then show ?thesis using r ret Suc.prems(2) by (subst sync_recv.simps) simp
  next
    case False
    have "\<forall>j < k. poll_answer recv wait ep j m' d' = err WD_EAGAIN"
    proof (intro allI impI)
      fix j assume "j < k"
      then show "poll_answer recv wait ep j m' d' = err WD_EAGAIN" using Suc.prems(1) [rule_format, of "Suc j"] r by simp
    qed
    then show ?thesis using r ret Suc.IH [of m' d' "rx + 1"] Suc.prems(2) False by (subst sync_recv.simps) simp
  qed
qed simp

definition sync_timeout :: "nat option \<Rightarrow> nat" where
  "sync_timeout balance = (if balance = None then WD_RECV_MAX_CNT_NOSLEEP else WD_RECV_MAX_CNT_SLEEP)"

text \<open>
  C32: A synchronous message that cannot be sent is reported with the driver's error and nothing is received. Otherwise the call
  returns the first answer of the driver other than that nothing is there, together with the message as it was received then,
  and, if the answer is no error, replaces the caller's estimate by the number of attempts before; when none of the permitted
  attempts gets an answer, it reports a timeout.
\<close>

theorem msg_sync_outcome:
  assumes "send msg d = (ret0, msg0, d0)"
    and "wd_handle_msg_sync send recv wait msg balance ep d = (ret, balance', msg', d')"
  shows "(ret0 < 0 \<longrightarrow> ret = ret0 \<and> balance' = balance \<and> msg' = msg0 \<and> d' = d0) \<and>
    (0 \<le> ret0 \<longrightarrow>
      (\<forall>k < sync_timeout balance. (\<forall>j < k. poll_answer recv wait ep j msg0 d0 = err WD_EAGAIN) \<longrightarrow>
        poll_answer recv wait ep k msg0 d0 \<noteq> err WD_EAGAIN \<longrightarrow>
        ret = poll_answer recv wait ep k msg0 d0 \<and> (msg', d') = poll_state recv wait ep (Suc k) msg0 d0 \<and>
        balance' = (if ret < 0 then balance else map_option (\<lambda>_. k) balance)) \<and>
      ((\<forall>k < sync_timeout balance. poll_answer recv wait ep k msg0 d0 = err WD_EAGAIN) \<longrightarrow> ret = err WD_ETIMEDOUT))"
proof (intro conjI impI allI)
  assume r0: "0 \<le> ret0"
  obtain rr rx mm dd where sr: "sync_recv recv wait ep (sync_timeout balance) 0 msg0 d0 = (rr, rx, mm, dd)" by (metis prod_cases4)
  have res: "ret = rr" "msg' = mm" "d' = dd" "balance' = (if rr < 0 then balance else map_option (\<lambda>_. rx) balance)"
    using assms r0 sr by (auto simp: wd_handle_msg_sync_def sync_timeout_def Let_def split: if_splits)
  {
    fix k assume k: "k < sync_timeout balance" "\<forall>j < k. poll_answer recv wait ep j msg0 d0 = err WD_EAGAIN"
      "poll_answer recv wait ep k msg0 d0 \<noteq> err WD_EAGAIN"
    have "(rr, rx, mm, dd) = (poll_answer recv wait ep k msg0 d0, k, poll_state recv wait ep (Suc k) msg0 d0)"
      using sync_recv_answer [OF k(2,3), of 0 "sync_timeout balance"] k(1) sr by simp
    then show "ret = poll_answer recv wait ep k msg0 d0" "(msg', d') = poll_state recv wait ep (Suc k) msg0 d0"
      "balance' = (if ret < 0 then balance else map_option (\<lambda>_. k) balance)" using res by auto
  }
  assume "\<forall>k < sync_timeout balance. poll_answer recv wait ep k msg0 d0 = err WD_EAGAIN"
  from sync_recv_timeout [OF this, of 0] show "ret = err WD_ETIMEDOUT" using sr res(1)
    by (simp add: sync_timeout_def WD_RECV_MAX_CNT_NOSLEEP_def WD_RECV_MAX_CNT_SLEEP_def split: if_splits)
qed (use assms in \<open>auto simp: wd_handle_msg_sync_def Let_def\<close>)

text \<open>A device that answers the third attempt with the message plus one.\<close>

theorem msg_sync_outcome_witness:
  "wd_handle_msg_sync (\<lambda>m d. (0, m, d)) (\<lambda>m d. if d < 2 then (- 11, m, Suc d) else (0, m + 1, d)) id (41 :: nat) (Some 9) False 0
    = (0, Some 2, 42, 2)"
proof -
  let ?recv = "\<lambda>m d. if d < 2 then (- 11, m, Suc d) else (0, m + 1, d) :: int \<times> nat \<times> nat"
  obtain ret b m d' where res: "wd_handle_msg_sync (\<lambda>m d. (0, m, d)) ?recv id (41 :: nat) (Some 9) False 0 = (ret, b, m, d')"
    by (rule prod_cases4)
  have t: "2 < sync_timeout (Some 9)" by (simp add: sync_timeout_def WD_RECV_MAX_CNT_SLEEP_def)
  have "\<forall>j < 2. poll_answer ?recv id False j 41 0 = err WD_EAGAIN" "poll_answer ?recv id False 2 41 0 \<noteq> err WD_EAGAIN"
    by (auto simp: numeral_2_eq_2 less_Suc_eq)
  then have "ret = poll_answer ?recv id False 2 41 0 \<and> (m, d') = poll_state ?recv id False (Suc 2) 41 0 \<and>
      b = (if ret < 0 then Some 9 else map_option (\<lambda>_. 2) (Some (9 :: nat)))"
    using conjunct1 [OF mp [OF conjunct2 [OF msg_sync_outcome [OF refl res]] order_refl], rule_format, OF t] by blast
  then show ?thesis using res by (simp add: numeral_2_eq_2)
qed

subsection \<open>At most one thread initialises\<close>

lemma try_timeout_iff: "n < 4000000 \<Longrightarrow> try_timeout n \<longleftrightarrow> 3146 \<le> n"
  by (auto simp: try_timeout_def US2S_def u32_def WD_INIT_SLEEP_UTIME_def WD_INIT_RETRY_TIMEOUT_def)

definition init_inv :: "init_sys \<Rightarrow> bool" where
  "init_inv s \<longleftrightarrow> (\<forall>t. is_pc s t = Owner \<longrightarrow> is_status s = WD_INITING) \<and>
    (\<forall>t u. is_pc s t = Owner \<longrightarrow> is_pc s u = Owner \<longrightarrow> t = u) \<and> (\<forall>t n. is_pc s t = Trying n \<longrightarrow> n < 3146)"

lemma try_once_cases:
  assumes "try_once spurious status n = (status', pc)" and "n < 3146"
  obtains "status = WD_UNINIT" "status' = WD_INITING" "n + 1 < 3146" "pc = Owner"
  | "status = WD_UNINIT" "status' = WD_INITING" "n + 1 = 3146" "pc = Failed WD_ETIMEDOUT"
  | "status' = status" "pc = Failed WD_EEXIST" "status = WD_INIT"
  | "status' = status" "n + 1 = 3146" "pc = Failed WD_ETIMEDOUT"
  | "status' = status" "n + 1 < 3146" "pc = Trying (n + 1)"
  using assms by (auto simp: try_once_def try_timeout_iff Let_def not_le split: if_splits)

lemma init_step_inv:
  assumes "init_step s s'" and "init_inv s"
  shows "init_inv s'"
  using assms
proof (cases rule: init_step.cases)
  case (attempt t n spurious status pc)
  have "n < 3146" using attempt(2) assms(2) by (simp add: init_inv_def)
  with attempt(3) show ?thesis
    by (cases rule: try_once_cases) (use assms(2) attempt in \<open>auto simp: init_inv_def split: if_splits\<close>)
qed (auto simp: init_inv_def split: if_splits)

lemma init_reachable_inv: "init_step\<^sup>*\<^sup>* init_start s \<Longrightarrow> init_inv s"
proof (induction rule: rtranclp_induct)
  case (step y z)
  show ?case by (rule init_step_inv [OF step.hyps(2) step.IH])
qed (simp add: init_inv_def init_start_def)

text \<open>
  C19: In an application that ends an algorithm only while it is initialised, however the attempts of any number of threads to initialise an algorithm interleave, at most one thread at a time gets the
  permission, the status says so while it has it, and every call ends after at most 3146 attempts.
\<close>

theorem init_exclusive:
  assumes "init_step\<^sup>*\<^sup>* init_start s"
  shows "(is_pc s t = Owner \<longrightarrow> is_status s = WD_INITING \<and> (\<forall>u. is_pc s u = Owner \<longrightarrow> u = t)) \<and>
    (is_pc s t = Trying n \<longrightarrow> n + 1 \<le> 3146 \<and>
      (n + 1 = 3146 \<longrightarrow> (\<forall>spurious. \<exists>e. snd (try_once spurious (is_status s) n) = Failed e)))"
proof -
  have inv: "init_inv s" by (rule init_reachable_inv [OF assms])
  then have n: "n < 3146" if "is_pc s t = Trying n" using that by (simp add: init_inv_def)
  have "\<exists>e. snd (try_once spurious (is_status s) n) = Failed e" if "n + 1 = 3146" for spurious
    using that by (auto simp: try_once_def try_timeout_iff Let_def)
  moreover have "is_status s = WD_INITING \<and> (\<forall>u. is_pc s u = Owner \<longrightarrow> u = t)" if "is_pc s t = Owner"
    using inv that by (auto simp: init_inv_def)
  moreover have "n + 1 \<le> 3146" if "is_pc s t = Trying n" using n [OF that] by simp
  ultimately show ?thesis by blast
qed

theorem init_exclusive_witness:
  "\<exists>s. init_step\<^sup>*\<^sup>* init_start s \<and> is_pc s 1 = Owner \<and> is_pc s 2 = Trying 1 \<and> is_status s = WD_INITING \<and>
    (\<forall>u. is_pc s u = Owner \<longrightarrow> u = 1)"
proof -
  let ?s1 = "init_start\<lparr>is_pc := (is_pc init_start)(1 := Trying 0)\<rparr>"
  let ?s2 = "?s1\<lparr>is_pc := (is_pc ?s1)(2 := Trying 0)\<rparr>"
  let ?s3 = "\<lparr>is_status = WD_INITING, is_pc = (is_pc ?s2)(1 := Owner)\<rparr>"
  let ?s4 = "\<lparr>is_status = WD_INITING, is_pc = (is_pc ?s3)(2 := Trying 1)\<rparr>"
  have t: "\<not> try_timeout (Suc 0)" by (simp add: try_timeout_iff)
  have "init_step init_start ?s1" by (rule init_step.start) (simp add: init_start_def)
  moreover have "init_step ?s1 ?s2" by (rule init_step.start) (simp add: init_start_def)
  moreover have "init_step ?s2 ?s3"
    by (rule init_step.attempt [where spurious = False and n = 0]) (simp_all add: init_start_def try_once_def t)
  moreover have "init_step ?s3 ?s4"
    by (rule init_step.attempt [where spurious = False and n = 0]) (simp_all add: init_start_def try_once_def t)
  ultimately have run: "init_step\<^sup>*\<^sup>* init_start ?s4" by (meson rtranclp.rtrancl_into_rtrancl rtranclp.rtrancl_refl)
  show ?thesis
    by (intro exI [of _ ?s4] conjI run) (use init_exclusive [OF run, of 1 0] in simp_all)
qed

text \<open>
  A thread whose last permitted attempt is the one that changes the status reports a timeout all the same. The status then stays,
  with no thread that would ever change it: from then on every attempt to initialise the algorithm times out.
\<close>

lemma try_init_last_attempt:
  "try_once False WD_UNINIT 3145 = (WD_INITING, Failed WD_ETIMEDOUT)"
  by (simp add: try_once_def try_timeout_iff)

definition orphaned :: "init_sys \<Rightarrow> bool" where
  "orphaned s \<longleftrightarrow> is_status s = WD_INITING \<and> (\<forall>t. is_pc s t \<noteq> Owner)"

lemma orphaned_stays:
  assumes "init_step\<^sup>*\<^sup>* s s'" and "orphaned s"
  shows "orphaned s'"
  using assms
proof (induction rule: rtranclp_induct)
  case (step y z)
  from step.hyps(2) step.IH [OF step.prems] show ?case
    by (cases rule: init_step.cases) (auto simp: orphaned_def try_once_def Let_def split: if_splits)
qed simp

lemma spurious_attempts:
  assumes "is_pc s t = Trying 0" and "is_status s = WD_UNINIT" and "n < 3146"
  shows "init_step\<^sup>*\<^sup>* s (s\<lparr>is_pc := (is_pc s)(t := Trying n)\<rparr>)"
  using assms(3)
proof (induction n)
  case 0
  have "s\<lparr>is_pc := (is_pc s)(t := Trying 0)\<rparr> = s" using assms(1) by (metis fun_upd_triv init_sys.surjective init_sys.update_convs(2) old.unit.exhaust)
  then show ?case by (simp only: rtranclp.rtrancl_refl)
next
  case (Suc n)
  let ?s = "s\<lparr>is_pc := (is_pc s)(t := Trying n)\<rparr>"
  have "init_step ?s \<lparr>is_status = WD_UNINIT, is_pc = (is_pc ?s)(t := Trying (Suc n))\<rparr>"
    by (rule init_step.attempt [where spurious = True and n = n])
      (use assms(2) Suc.prems in \<open>simp_all add: try_once_def try_timeout_iff\<close>)
  moreover have "\<lparr>is_status = WD_UNINIT, is_pc = (is_pc ?s)(t := Trying (Suc n))\<rparr> = s\<lparr>is_pc := (is_pc s)(t := Trying (Suc n))\<rparr>"
    using assms(2) by simp
  ultimately show ?case using Suc by (metis Suc_lessD rtranclp.rtrancl_into_rtrancl)
qed

lemma orphaned_reachable: "\<exists>s. init_step\<^sup>*\<^sup>* init_start s \<and> orphaned s"
proof -
  let ?s1 = "init_start\<lparr>is_pc := (is_pc init_start)(1 := Trying 0)\<rparr>"
  let ?s2 = "?s1\<lparr>is_pc := (is_pc ?s1)(1 := Trying 3145)\<rparr>"
  have "init_step init_start ?s1" by (rule init_step.start) (simp add: init_start_def)
  moreover have "init_step\<^sup>*\<^sup>* ?s1 ?s2" by (rule spurious_attempts) (simp_all add: init_start_def)
  moreover have "init_step ?s2 \<lparr>is_status = WD_INITING, is_pc = (is_pc ?s2)(1 := Failed WD_ETIMEDOUT)\<rparr>"
    by (rule init_step.attempt [where spurious = False and n = 3145])
      (simp_all add: init_start_def try_init_last_attempt)
  ultimately have "init_step\<^sup>*\<^sup>* init_start \<lparr>is_status = WD_INITING, is_pc = (is_pc ?s2)(1 := Failed WD_ETIMEDOUT)\<rparr>"
    by (meson converse_rtranclp_into_rtranclp rtranclp.rtrancl_into_rtrancl)
  then show ?thesis by (intro exI conjI) (assumption, simp add: orphaned_def init_start_def)
qed

subsection \<open>Copying the contexts\<close>

lemma errno_pos: "0 < errno_of e"
  by (cases e) simp_all

text \<open>What the loop over the contexts does: the number of contexts copied, the locks, and what is left behind by a failure.\<close>

lemma init_ctxs_spec:
  assumes "init_ctxs ev alg n cs i ctxs r = Some (res, r')" and "i \<le> length ctxs" and "drop i ctxs = replicate n zero_ctx"
  shows "rs_heap r' = rs_heap r \<and> rs_shm r' = rs_shm r \<and> rs_live r' = rs_live r \<and>
    (case res of
       Inr ctxs' \<Rightarrow> (\<exists>k \<le> n. k \<le> length cs \<and> rs_locks r' = rs_locks r + int k \<and> (\<forall>j < k. wc_ctx (cs ! j) \<noteq> 0) \<and>
         (k < n \<longrightarrow> k < length cs \<and> wc_ctx (cs ! k) = 0) \<and>
         ctxs' = take i ctxs @ map (\<lambda>c. clone_ctx_to_internal c zero_ctx) (take k cs) @ replicate (n - k) zero_ctx)
     | Inl (j, e) \<Rightarrow> i \<le> j \<and> e \<noteq> 0 \<and>
         rs_locks r' = rs_locks r + int (j - i) + (if ce_spin ev j \<noteq> 0 then 0 else 1))"
  using assms
proof (induction ev alg n cs i ctxs r rule: init_ctxs.induct)
  case (3 ev alg n c cs i ctxs r)
  have i1: "i < length ctxs" using arg_cong [OF "3.prems"(3), of length] by simp
  have i2: "ctxs ! i = zero_ctx" using hd_drop_conv_nth [OF i1] "3.prems"(3) by simp
  note i = i1 i2
  let ?ctxs = "ctxs[i := clone_ctx_to_internal c (ctxs ! i)]"
  show ?case
  proof (cases "wc_ctx c = 0 \<or> ce_spin ev i \<noteq> 0")
    case True
    have "ctxs = take i ctxs @ replicate (Suc n) zero_ctx" using "3.prems"(3) append_take_drop_id [of i ctxs] by simp
    then show ?thesis using True "3.prems"(1) by (auto split: if_splits intro!: exI [of _ 0])
  next
    case False
    let ?ins = "wd_insert_ctx_list (ce_node_ok ev i) (wc_ctx c) (ce_ctx ev (wc_ctx c)) alg (rs_mem r)"
    from False "3.prems"(1) obtain q mem where ins: "?ins = Some (q, mem)" by (cases ?ins) auto
    show ?thesis
    proof (cases q)
      case (Inl e)
      then show ?thesis using False ins "3.prems"(1) errno_pos [of e] by auto
    next
      case (Inr u)
      have rest: "init_ctxs ev alg n cs (Suc i) ?ctxs ((add_locks 1 r)\<lparr>rs_mem := mem\<rparr>) = Some (res, r')"
        using False ins Inr "3.prems"(1) by simp
      have dr: "drop (Suc i) ?ctxs = replicate n zero_ctx" using "3.prems"(3)
        by (metis drop_Suc drop_update_cancel lessI list.sel(3) replicate_Suc tl_drop)
      have tk: "take (Suc i) ?ctxs = take i ctxs @ [clone_ctx_to_internal c zero_ctx]"
        using i by (simp add: take_list_update_same)
      have IH: "rs_heap r' = rs_heap r \<and> rs_shm r' = rs_shm r \<and> rs_live r' = rs_live r \<and>
        (case res of
           Inr ctxs' \<Rightarrow> (\<exists>k \<le> n. k \<le> length cs \<and> rs_locks r' = rs_locks r + 1 + int k \<and> (\<forall>j < k. wc_ctx (cs ! j) \<noteq> 0) \<and>
             (k < n \<longrightarrow> k < length cs \<and> wc_ctx (cs ! k) = 0) \<and>
             ctxs' = take (Suc i) ?ctxs @ map (\<lambda>c. clone_ctx_to_internal c zero_ctx) (take k cs) @ replicate (n - k) zero_ctx)
         | Inl (j, e) \<Rightarrow> Suc i \<le> j \<and> e \<noteq> 0 \<and>
             rs_locks r' = rs_locks r + 1 + int (j - Suc i) + (if ce_spin ev j \<noteq> 0 then 0 else 1))"
      proof -
        have "\<not> wc_ctx c = 0" "\<not> ce_spin ev i \<noteq> 0" "Suc i \<le> length ?ctxs" using False i(1) by auto
        moreover have eq: "rs_locks ((add_locks 1 r)\<lparr>rs_mem := mem\<rparr>) = rs_locks r + 1" "rs_heap ((add_locks 1 r)\<lparr>rs_mem := mem\<rparr>) = rs_heap r"
          "rs_shm ((add_locks 1 r)\<lparr>rs_mem := mem\<rparr>) = rs_shm r" "rs_live ((add_locks 1 r)\<lparr>rs_mem := mem\<rparr>) = rs_live r" by simp_all
        ultimately show ?thesis using "3.IH" [OF _ _ ins refl Inr rest _ dr] unfolding eq by blast
      qed
      show ?thesis
      proof (cases res)
        case Inl
        then show ?thesis using IH by (auto simp: of_nat_diff)
      next
        case (Inr ctxs')
        with IH obtain k where k: "k \<le> n" "k \<le> length cs" "rs_locks r' = rs_locks r + 1 + int k" "\<forall>j < k. wc_ctx (cs ! j) \<noteq> 0"
          "k < n \<longrightarrow> k < length cs \<and> wc_ctx (cs ! k) = 0"
          "ctxs' = take (Suc i) ?ctxs @ map (\<lambda>c. clone_ctx_to_internal c zero_ctx) (take k cs) @ replicate (n - k) zero_ctx"
          by auto
        have "\<forall>j < Suc k. wc_ctx ((c # cs) ! j) \<noteq> 0" using k(4) False by (auto simp: less_Suc_eq_0_disj)
        then show ?thesis using IH k Inr by (auto simp: tk intro!: exI [of _ "Suc k"])
      qed
    qed
  qed
qed (auto intro!: exI [of _ 0])


text \<open>The shared memory that creation attached is what deletion removes.\<close>

lemma shm_create_delete:
  assumes "wd_shm_create ev cin r = (0, cin', r')"
  shows "rs_heap r' = rs_heap r" "rs_locks r' = rs_locks r" "rs_live r' = rs_live r" "rs_mem r' = rs_mem r"
    and "cc_ctxs cin' = cc_ctxs cin" "cc_ctx_num cin' = cc_ctx_num cin" "cc_alg_name cin' = cc_alg_name cin"
    and "cc_shmid cin2 = cc_shmid cin' \<Longrightarrow> rs_shm r2 = rs_shm r' \<Longrightarrow> rs_shm (snd (wd_shm_delete ev cin2 r2)) = rs_shm r"
  using assms by (auto simp: wd_shm_create_def wd_shm_delete_def split: if_splits)

lemma shm_delete_frame [simp]:
  "rs_heap (snd (wd_shm_delete ev cin r)) = rs_heap r" "rs_locks (snd (wd_shm_delete ev cin r)) = rs_locks r"
  "rs_live (snd (wd_shm_delete ev cin r)) = rs_live r" "rs_mem (snd (wd_shm_delete ev cin r)) = rs_mem r"
  "cc_ctxs (fst (wd_shm_delete ev cin r)) = cc_ctxs cin" "cc_ctx_num (fst (wd_shm_delete ev cin r)) = cc_ctx_num cin"
  by (auto simp: wd_shm_delete_def)

lemma shm_create_fail:
  "wd_shm_create ev cin r = (ret, cin', r') \<Longrightarrow> ret \<noteq> 0 \<Longrightarrow> cin' = cin \<and> r'\<lparr>rs_shm := rs_shm r\<rparr> = r \<and> (ce_shmat ev \<longrightarrow> rs_shm r' = rs_shm r)"
  by (auto simp: wd_shm_create_def split: if_splits)

text \<open>A segment that cannot be attached stays: nothing deletes it, and its number is forgotten.\<close>

lemma unattached_segment_left:
  "ce_need_info ev \<Longrightarrow> 0 \<le> ce_shmget ev \<Longrightarrow> \<not> ce_shmat ev \<Longrightarrow> cf_ctx_num cfg \<noteq> 0 \<Longrightarrow>
    wd_init_ctx_config ev cin cfg r = Some (err WD_EINVAL, cin, r\<lparr>rs_shm := ce_shmget ev # rs_shm r\<rparr>)"
  by (simp add: wd_init_ctx_config_def wd_shm_create_def)

text \<open>The lock of a context whose node cannot be made stays: the error path destroys the locks before it only.\<close>

lemma unlisted_lock_left:
  "wc_ctx c \<noteq> 0 \<Longrightarrow> ce_spin ev i = 0 \<Longrightarrow> init_ctxs ev None (Suc n) (c # cs) i ctxs r = Some (Inl (i, err WD_EINVAL), add_locks 1 r)"
  by (simp add: wd_insert_ctx_list_def)

lemma init_ctxs_error:
  "init_ctxs ev alg n cs i ctxs r = Some (Inl (j, e), r') \<Longrightarrow> alg \<noteq> None \<Longrightarrow> (\<And>i. ce_node_ok ev i) \<Longrightarrow> ce_spin ev j \<noteq> 0"
proof (induction n arbitrary: cs i ctxs r)
  case (Suc n)
  obtain c cs' where cs: "cs = c # cs'" using Suc.prems(1) by (cases cs) auto
  have ins: False if "wd_insert_ctx_list True (wc_ctx c) h alg ns = Some (Inl x, mem)" "0 < wc_ctx c" for x mem h ns
    using that Suc.prems(2) by (auto simp: wd_insert_ctx_list_def split: option.splits if_splits)
  show ?case
    using Suc.prems Suc.IH ins unfolding cs by (auto split: option.splits if_splits sum.splits)
qed simp

definition config_failed :: "cfg_env \<Rightarrow> wd_ctx_config_internal \<Rightarrow> alg_res \<Rightarrow> wd_ctx_config_internal \<Rightarrow> alg_res \<Rightarrow> bool" where
  "config_failed ev cin r cin' r' \<longleftrightarrow> rs_heap r' = rs_heap r \<and> (ce_shmat ev \<longrightarrow> rs_shm r' = rs_shm r) \<and> rs_live r' = rs_live r \<and>
    (cc_alg_name cin \<noteq> None \<longrightarrow> (\<forall>i. ce_node_ok ev i) \<longrightarrow> rs_locks r' = rs_locks r) \<and> cc_ctxs cin' = cc_ctxs cin \<and> cc_ctx_num cin' = cc_ctx_num cin"

definition config_copied :: "wd_ctx list \<Rightarrow> nat \<Rightarrow> nat \<Rightarrow> wd_ctx_internal list \<Rightarrow> bool" where
  "config_copied cs n k ctxs \<longleftrightarrow> k \<le> n \<and> k \<le> length cs \<and> (k < n \<longrightarrow> k < length cs \<and> wc_ctx (cs ! k) = 0) \<and>
    ctxs = map (\<lambda>c. clone_ctx_to_internal c zero_ctx) (take k cs) @ replicate (n - k) zero_ctx"

lemma config_copied_length: "config_copied cs n k ctxs \<Longrightarrow> length ctxs = n"
  by (auto simp: config_copied_def)

lemma clear_copied:
  assumes sc: "wd_shm_create ev cin r = (0, cin1, r1)" and k: "config_copied cs n k ctxs"
    and r3: "rs_heap r3 = rs_heap r + 1" "rs_live r3 = rs_live r" "rs_shm r3 = rs_shm r1" "rs_locks r3 = rs_locks r + int k"
  shows "\<exists>c2 r2. wd_clear_ctx_config ev (cin1\<lparr>cc_ctxs := Some ctxs, cc_priv := p, cc_ctx_num := n\<rparr>) r3 = Some (c2, r2) \<and>
    cc_ctxs c2 = None \<and> cc_ctx_num c2 = 0 \<and> rs_heap r2 = rs_heap r \<and> rs_shm r2 = rs_shm r \<and> rs_live r2 = rs_live r \<and> rs_mem r2 = [] \<and>
    rs_locks r2 = rs_locks r - int (n - k)"
proof -
  let ?cin = "cin1\<lparr>cc_priv := 0, cc_ctx_num := 0, cc_ctxs := None\<rparr>"
  let ?r = "(add_heap (- 1) (add_locks (- int n) r3))\<lparr>rs_mem := []\<rparr>"
  obtain c2 r2 where d: "wd_shm_delete ev ?cin ?r = (c2, r2)" by fastforce
  then have r2: "c2 = fst (wd_shm_delete ev ?cin ?r)" "r2 = snd (wd_shm_delete ev ?cin ?r)" by simp_all
  have "wd_clear_ctx_config ev (cin1\<lparr>cc_ctxs := Some ctxs, cc_priv := p, cc_ctx_num := n\<rparr>) r3 = Some (c2, r2)"
    using config_copied_length [OF k] d by (simp add: wd_clear_ctx_config_def wd_remove_ctx_list_def)
  moreover have "rs_shm r2 = rs_shm r" unfolding r2 by (rule shm_create_delete(8) [OF sc]) (simp_all add: r3)
  moreover have "k \<le> n" using k by (simp add: config_copied_def)
  moreover have "cc_ctxs c2 = None" "cc_ctx_num c2 = 0" "rs_mem r2 = []" "rs_heap r2 = rs_heap r" "rs_live r2 = rs_live r" "rs_locks r2 = rs_locks r + int k - int n"
    unfolding r2 by (simp_all add: r3)
  ultimately show ?thesis by (auto simp: of_nat_diff)
qed

lemma ctx_config_outcome:
  assumes run: "wd_init_ctx_config ev cin cfg r = Some (ret, cin', r')"
  shows "if ret \<noteq> 0 then config_failed ev cin r cin' r'
    else \<exists>cs k ctxs cin2 r2. cf_ctxs cfg = Some cs \<and> cc_ctxs cin' = Some ctxs \<and> cc_ctx_num cin' = cf_ctx_num cfg \<and>
      config_copied cs (cf_ctx_num cfg) k ctxs \<and> rs_heap r' = rs_heap r + 1 \<and> rs_locks r' = rs_locks r + int k \<and>
      wd_clear_ctx_config ev cin' r' = Some (cin2, r2) \<and> cc_ctxs cin2 = None \<and> cc_ctx_num cin2 = 0 \<and>
      rs_heap r2 = rs_heap r \<and> rs_shm r2 = rs_shm r \<and> rs_live r2 = rs_live r \<and> rs_mem r2 = [] \<and>
      rs_locks r2 = rs_locks r - int (cf_ctx_num cfg - k)"
proof (cases "cf_ctx_num cfg = 0")
  case True
  then show ?thesis using run by (simp add: wd_init_ctx_config_def config_failed_def errno_pos)
next
  case n: False
  obtain ret1 cin1 r1 where sc: "wd_shm_create ev cin r = (ret1, cin1, r1)" by (metis prod_cases3)
  show ?thesis
  proof (cases "ret1 = 0 \<and> ce_ctxs_ok ev")
    case False
    then consider "ret1 \<noteq> 0" | "ret1 = 0" "\<not> ce_ctxs_ok ev" by blast
    then show ?thesis
    proof cases
      case 1
      then have f: "cin1 = cin" "r1\<lparr>rs_shm := rs_shm r\<rparr> = r" "ce_shmat ev \<longrightarrow> rs_shm r1 = rs_shm r" using shm_create_fail [OF sc] by simp_all
      have "rs_heap r1 = rs_heap r" "rs_locks r1 = rs_locks r" "rs_live r1 = rs_live r" using f(2) by (cases r1; cases r; simp)+
      then show ?thesis using run n sc 1 f(1,3) by (auto simp: wd_init_ctx_config_def config_failed_def)
    next
      case 2
      have eq: "ret = err WD_ENOMEM" "cin' = fst (wd_shm_delete ev cin1 r1)" "r' = snd (wd_shm_delete ev cin1 r1)"
        using run n sc 2 by (auto simp: wd_init_ctx_config_def split: prod.splits)
      then show ?thesis using shm_create_delete [OF sc [unfolded 2(1)]] by (simp add: config_failed_def)
    qed
  next
    case True
    then have sc: "wd_shm_create ev cin r = (0, cin1, r1)" using sc by simp
    note sh = shm_create_delete [OF sc]
    from run n sc True obtain cs res r3 where cs: "cf_ctxs cfg = Some cs"
      and ic: "init_ctxs ev (cc_alg_name cin1) (cf_ctx_num cfg) cs 0 (replicate (cf_ctx_num cfg) zero_ctx) (add_heap 1 r1) = Some (res, r3)"
      by (auto simp: wd_init_ctx_config_def split: option.splits)
    note spec = init_ctxs_spec [OF ic, simplified]
    show ?thesis
    proof (cases res)
      case (Inl je)
      obtain j e where je: "je = (j, e)" by (cases je)
      have eq: "ret = e" "cin' = fst (wd_shm_delete ev cin1 (add_heap (- 1) (add_locks (- int j) r3)))"
        "r' = snd (wd_shm_delete ev cin1 (add_heap (- 1) (add_locks (- int j) r3)))"
        using run n sc True cs ic Inl je by (auto simp: wd_init_ctx_config_def split: prod.splits)
      have "rs_heap r3 = rs_heap r + 1" "rs_live r3 = rs_live r" "rs_shm r3 = rs_shm r1" "e \<noteq> 0"
        "rs_locks r3 = rs_locks r + int j + (if ce_spin ev j \<noteq> 0 then 0 else 1)" using spec sh Inl je by auto
      moreover have "ce_spin ev j \<noteq> 0" if "cc_alg_name cin \<noteq> None" "\<forall>i. ce_node_ok ev i"
        using init_ctxs_error [OF ic [unfolded Inl je]] that sh(7) by auto
      ultimately show ?thesis using eq sh(5,6) sh(8) [of cin1 "add_heap (- 1) (add_locks (- int j) r3)"]
        by (simp add: config_failed_def split: if_splits)
    next
      case (Inr ctxs)
      have eq: "ret = 0" "cin' = cin1\<lparr>cc_ctxs := Some ctxs, cc_priv := cf_priv cfg, cc_ctx_num := cf_ctx_num cfg\<rparr>" "r' = r3"
        using run n sc True cs ic Inr by (auto simp: wd_init_ctx_config_def)
      obtain k where k: "config_copied cs (cf_ctx_num cfg) k ctxs" "rs_locks r3 = rs_locks r1 + int k"
        using spec Inr by (auto simp: config_copied_def)
      have r3: "rs_heap r3 = rs_heap r + 1" "rs_live r3 = rs_live r" "rs_shm r3 = rs_shm r1" "rs_locks r3 = rs_locks r + int k"
        using spec sh k(2) by auto
      from clear_copied [OF sc k(1) r3, of "cf_priv cfg"] show ?thesis using eq cs k(1) r3(1,4) by auto
    qed
  qed
qed

text \<open>
  C31: Copying the user's contexts, all with a handle. If the copy fails (no context, no segment, no memory or a lock that cannot
  be initialised), the configuration keeps its contexts and the array, the segment and every lock are given back. If it
  succeeds, the internal contexts are the user's in their order, each with a lock, and clearing the configuration gives back
  the array, every lock, the segment and the list of contexts. The segment can be attached, the configuration has the name of
  the algorithm, and there is memory for the nodes of the list of contexts.
\<close>

theorem ctx_config_copy:
  assumes run: "wd_init_ctx_config ev cin cfg r = Some (ret, cin', r')" and cs: "cf_ctxs cfg = Some cs"
    and handles: "list_all (\<lambda>c. wc_ctx c \<noteq> 0) cs" and attach: "ce_shmat ev" and nodes: "cc_alg_name cin \<noteq> None" "\<And>i. ce_node_ok ev i"
  shows "if ret \<noteq> 0 then
      rs_heap r' = rs_heap r \<and> rs_locks r' = rs_locks r \<and> rs_shm r' = rs_shm r \<and> rs_live r' = rs_live r \<and>
      cc_ctxs cin' = cc_ctxs cin \<and> cc_ctx_num cin' = cc_ctx_num cin
    else cc_ctxs cin' = Some (map (\<lambda>c. clone_ctx_to_internal c zero_ctx) (take (cf_ctx_num cfg) cs)) \<and>
      cc_ctx_num cin' = cf_ctx_num cfg \<and> cf_ctx_num cfg \<le> length cs \<and>
      rs_heap r' = rs_heap r + 1 \<and> rs_locks r' = rs_locks r + int (cf_ctx_num cfg) \<and>
      (\<exists>cin2 r2. wd_clear_ctx_config ev cin' r' = Some (cin2, r2) \<and> cc_ctxs cin2 = None \<and> cc_ctx_num cin2 = 0 \<and>
        rs_heap r2 = rs_heap r \<and> rs_locks r2 = rs_locks r \<and> rs_shm r2 = rs_shm r \<and> rs_live r2 = rs_live r \<and> rs_mem r2 = [])"
proof (cases "ret = 0")
  case False
  with ctx_config_outcome [OF run] attach nodes show ?thesis by (auto simp: config_failed_def)
next
  case True
  with ctx_config_outcome [OF run] cs obtain k ctxs cin2 r2 where
    k: "config_copied cs (cf_ctx_num cfg) k ctxs" and out: "cc_ctxs cin' = Some ctxs" "cc_ctx_num cin' = cf_ctx_num cfg"
      "rs_heap r' = rs_heap r + 1" "rs_locks r' = rs_locks r + int k"
      "wd_clear_ctx_config ev cin' r' = Some (cin2, r2)" "cc_ctxs cin2 = None" "cc_ctx_num cin2 = 0"
      "rs_heap r2 = rs_heap r" "rs_shm r2 = rs_shm r" "rs_live r2 = rs_live r" "rs_mem r2 = []"
      "rs_locks r2 = rs_locks r - int (cf_ctx_num cfg - k)" by auto
  have "k = cf_ctx_num cfg" using k handles by (auto simp: config_copied_def list_all_length)
  then show ?thesis using k out True by (simp add: config_copied_def)
qed

definition demo_cfg_env :: cfg_env where
  "demo_cfg_env = \<lparr>ce_need_info = True, ce_shmget = 5, ce_shmat = True, ce_ctxs_ok = True, ce_spin = \<lambda>_. 0, ce_node_ok = \<lambda>_. True,
     ce_ctx = \<lambda>_. \<lparr>cx_fd = - 1, cx_dev_path = [], cx_dev_name = [], cx_drv_name = [], cx_qfrs_offs = [], cx_qfrs_base = [],
       cx_dev = None, cx_priv = 0\<rparr>\<rparr>"

definition no_res :: alg_res where
  "no_res = \<lparr>rs_heap = 0, rs_locks = 0, rs_shm = [], rs_mem = [], rs_live = []\<rparr>"

theorem ctx_config_copy_witness:
  "\<exists>cin' r' cin2 r2. wd_init_ctx_config demo_cfg_env (zero_config\<lparr>cc_alg_name := Some ''cipher''\<rparr>)
      \<lparr>cf_ctx_num = 2, cf_ctxs = Some [\<lparr>wc_ctx = 7, wc_op_type = 0, wc_ctx_mode = 1, wc_ctx_type = 0\<rparr>,
         \<lparr>wc_ctx = 9, wc_op_type = 0, wc_ctx_mode = 0, wc_ctx_type = 0\<rparr>], cf_priv = 0, cf_cap = None\<rparr> no_res = Some (0, cin', r') \<and>
    rs_locks r' = 2 \<and> wd_clear_ctx_config demo_cfg_env cin' r' = Some (cin2, r2) \<and> rs_heap r2 = 0 \<and> rs_locks r2 = 0 \<and> rs_shm r2 = []"
proof -
  let ?cs = "[\<lparr>wc_ctx = 7, wc_op_type = 0, wc_ctx_mode = 1, wc_ctx_type = 0\<rparr>, \<lparr>wc_ctx = 9, wc_op_type = 0, wc_ctx_mode = 0, wc_ctx_type = 0\<rparr>]"
  let ?cfg = "\<lparr>cf_ctx_num = 2, cf_ctxs = Some ?cs, cf_priv = 0, cf_cap = None\<rparr>"
  let ?cin = "zero_config\<lparr>cc_alg_name := Some ''cipher''\<rparr>"
  obtain cin' r' where run: "wd_init_ctx_config demo_cfg_env ?cin ?cfg no_res = Some (0, cin', r')"
    by (simp add: wd_init_ctx_config_def wd_shm_create_def demo_cfg_env_def no_res_def numeral_2_eq_2 wd_insert_ctx_list_def)
  have "cf_ctxs ?cfg = Some ?cs" "list_all (\<lambda>c. wc_ctx c \<noteq> 0) ?cs" "ce_shmat demo_cfg_env" "cc_alg_name ?cin \<noteq> None" "\<And>i. ce_node_ok demo_cfg_env i"
    by (simp_all add: demo_cfg_env_def)
  from ctx_config_copy [OF run this] run show ?thesis by (auto simp: no_res_def)
qed

end
