(* ===== verification/Alg_Init.thy ===== *)
theory Alg_Init
  imports Alg_Config Sched_Properties
begin

text \<open>
  The two-phase initialisation of an algorithm in \<^verbatim>\<open>wd_util.c\<close>: discovery of drivers, allocation of contexts from them, creation of a
  scheduler over the contexts, binding of drivers to the internal contexts, and initialisation of the drivers.

  Drivers are the records of the registry; the fields that change (\<^verbatim>\<open>init_state\<close>, \<^verbatim>\<open>fallback\<close>, \<^verbatim>\<open>drv_data\<close>) are kept per driver pointer. The calls
  made to drivers are collected in a list, newest first (\<open>Fb_Init\<close> and \<open>Fb_Exit\<close> are the calls to a driver as the fallback of another). What the drivers' functions answer, and whether allocations
  succeed, are records of the environment.
\<close>

subsection \<open>Drivers and their state\<close>

record drv_state =
  dv_priv_size :: int
  dv_init_state :: bool
  dv_fallback :: "wd_alg_driver option"
  dv_drv_data :: bool

datatype drv_call = Drv_Init nat | Drv_Exit nat | Fb_Init nat | Fb_Exit nat

record drv_world =
  dw_reg :: wd_alg_registry
  dw_drv :: "nat \<Rightarrow> drv_state"
  dw_calls :: "drv_call list"

record drv_env =
  de_priv_ok :: "nat \<Rightarrow> bool"
  de_init :: "nat \<Rightarrow> int"

definition set_drv :: "wd_alg_driver \<Rightarrow> (drv_state \<Rightarrow> drv_state) \<Rightarrow> drv_world \<Rightarrow> drv_world" where
  "set_drv d f w = w\<lparr>dw_drv := (dw_drv w)(dr_ptr d := f (dw_drv w (dr_ptr d)))\<rparr>"

definition call_drv :: "drv_call \<Rightarrow> drv_world \<Rightarrow> drv_world" where
  "call_drv c w = w\<lparr>dw_calls := c # dw_calls w\<rparr>"

subsection \<open>Binding drivers to contexts\<close>

definition ctx_type_of :: "wd_alg_driver \<Rightarrow> nat" where
  "ctx_type_of d = nat (dr_calc_type d mod 256)"

text \<open>The body of the loop; a hardware driver without a fallback gets one.\<close>

definition bind_ctx ::
  "string option \<Rightarrow> wd_alg_driver option list \<Rightarrow> nat \<Rightarrow> nat \<Rightarrow> wd_ctx_internal list \<times> drv_world
    \<Rightarrow> (wd_ctx_internal list \<times> drv_world) option" where
  "bind_ctx alg_name drv_array drv_count i = (\<lambda>(ctxs, w).
    case (rd drv_array (if drv_count = 1 then 0 else i mod drv_count), rd ctxs i) of
      (Some (Some d), Some c) \<Rightarrow>
        (let ctxs = ctxs[i := c\<lparr>ci_drv := Some d, ci_ctx_type := ctx_type_of d\<rparr>] in
         if int (ctx_type_of d) = UADK_ALG_HW \<and> dv_fallback (dw_drv w (dr_ptr d)) = None then
           (let (fb, rg) = wd_request_drv (dw_reg w) alg_name ALG_DRV_SOFT in
            Some (ctxs, set_drv d (\<lambda>s. s\<lparr>dv_fallback := fb\<rparr>) (w\<lparr>dw_reg := rg\<rparr>)))
         else Some (ctxs, w))
    | _ \<Rightarrow> None)"

definition wd_ctx_bind_drivers ::
  "wd_ctx_config_internal option \<Rightarrow> wd_alg_driver option list option \<Rightarrow> nat \<Rightarrow> drv_world
    \<Rightarrow> (int \<times> wd_ctx_config_internal option \<times> drv_world) option" where
  "wd_ctx_bind_drivers config drv_array drv_count w =
    (case (config, drv_array) of
       (Some cfg, Some arr) \<Rightarrow>
         if drv_count = 0 then Some (err WD_EINVAL, config, w)
         else
           (case opt_fold (bind_ctx (cc_alg_name cfg) arr drv_count) [0 ..< cc_ctx_num cfg]
                   (case cc_ctxs cfg of None \<Rightarrow> [] | Some ctxs \<Rightarrow> ctxs, w) of
              None \<Rightarrow> None
            | Some (ctxs, w) \<Rightarrow>
                Some (0, Some (cfg\<lparr>cc_ctxs := map_option (\<lambda>_. ctxs) (cc_ctxs cfg), cc_drv_array := drv_array, cc_drv_count := drv_count\<rparr>),
                      w\<lparr>dw_reg := wd_alg_drv_ref_inc (take drv_count arr) (dw_reg w)\<rparr>))
     | _ \<Rightarrow> Some (err WD_EINVAL, config, w))"

definition wd_ctx_unbind_drivers :: "wd_ctx_config_internal option \<Rightarrow> drv_world \<Rightarrow> (wd_ctx_config_internal option \<times> drv_world) option" where
  "wd_ctx_unbind_drivers config w =
    (case config of
       None \<Rightarrow> Some (config, w)
     | Some cfg \<Rightarrow>
         (case cc_drv_array cfg of
            None \<Rightarrow> Some (config, w)
          | Some arr \<Rightarrow>
              (let ctxs = (case cc_ctxs cfg of None \<Rightarrow> [] | Some ctxs \<Rightarrow> ctxs) in
               if cc_ctx_num cfg > length ctxs then None
               else
                 Some (Some (cfg\<lparr>cc_ctxs := map_option (\<lambda>ctxs. map (\<lambda>c. c\<lparr>ci_drv := None\<rparr>) (take (cc_ctx_num cfg) ctxs) @
                                    drop (cc_ctx_num cfg) ctxs) (cc_ctxs cfg)\<rparr>),
                       w\<lparr>dw_reg := wd_alg_drv_ref_dec (take (cc_drv_count cfg) arr) (dw_reg w)\<rparr>))))"

subsection \<open>Initialising the drivers\<close>

definition wd_alg_init_fallback :: "wd_alg_driver \<Rightarrow> drv_world \<Rightarrow> int \<times> drv_world" where
  "wd_alg_init_fallback fb w = (if \<not> dr_init fb then (err WD_EINVAL, w) else (0, call_drv (Fb_Init (dr_ptr fb)) w))"

definition wd_alg_uninit_fallback :: "wd_alg_driver \<Rightarrow> drv_world \<Rightarrow> drv_world" where
  "wd_alg_uninit_fallback fb w = (if \<not> dr_exit fb then w else call_drv (Fb_Exit (dr_ptr fb)) w)"

text \<open>
  The private memory is stored in the driver only; the field \<^verbatim>\<open>drv_priv\<close> of the context is not set when the initialisation succeeds,
  and \<^verbatim>\<open>init_state\<close> stays set when it fails.
\<close>

definition wd_ctx_init_driver ::
  "drv_env \<Rightarrow> wd_ctx_internal \<Rightarrow> drv_world \<Rightarrow> alg_res \<Rightarrow> int \<times> wd_ctx_internal \<times> drv_world \<times> alg_res" where
  "wd_ctx_init_driver ev c w r =
    (case ci_drv c of
       None \<Rightarrow> (0, c, w, r)
     | Some d \<Rightarrow>
         (let s = dw_drv w (dr_ptr d) in
          if dv_init_state s then (0, c, w, r)
          else if dv_priv_size s = 0 then (err WD_EINVAL, c, w, r)
          else if \<not> de_priv_ok ev (dr_ptr d) then (err WD_ENOMEM, c, w, r)
          else if \<not> dr_init d then
            (err WD_EINVAL, c\<lparr>ci_drv_priv := None\<rparr>, set_drv d (\<lambda>s. s\<lparr>dv_fallback := None\<rparr>) w, r)
          else
            (let w = call_drv (Drv_Init (dr_ptr d)) (set_drv d (\<lambda>s. s\<lparr>dv_init_state := True\<rparr>) w);
                 ret = de_init ev (dr_ptr d) in
             if ret < 0 then (ret, c\<lparr>ci_drv_priv := None\<rparr>, w, r)
             else
               (let w = set_drv d (\<lambda>s. s\<lparr>dv_drv_data := True\<rparr>) w; r = add_heap 1 r in
                case dv_fallback s of
                  None \<Rightarrow> (0, c, w, r)
                | Some fb \<Rightarrow>
                    (let (ret, w) = wd_alg_init_fallback fb w in
                     (0, c, if ret \<noteq> 0 then set_drv d (\<lambda>s. s\<lparr>dv_fallback := None\<rparr>) w else w, r))))))"

text \<open>
  Undoing the initialisation of the driver of context \<open>i\<close>. It clears the whole configuration, so that the last assignment, to the
  context itself, would be to memory that was freed; this has no outcome.
\<close>

definition wd_ctx_uninit_driver ::
  "cfg_env \<Rightarrow> wd_ctx_config_internal \<Rightarrow> nat \<Rightarrow> drv_world \<Rightarrow> alg_res \<Rightarrow> (wd_ctx_config_internal \<times> drv_world \<times> alg_res) option" where
  "wd_ctx_uninit_driver cev cfg i w r =
    (case rd (case cc_ctxs cfg of None \<Rightarrow> [] | Some ctxs \<Rightarrow> ctxs) i of
       None \<Rightarrow> None
     | Some c \<Rightarrow>
         (case (ci_drv c, ci_drv_priv c) of
            (Some d, Some priv) \<Rightarrow>
              if \<not> dv_init_state (dw_drv w (dr_ptr d)) then Some (cfg, w, r)
              else if \<not> dr_exit d then None
              else
                (let w = set_drv d (\<lambda>s. s\<lparr>dv_init_state := False\<rparr>) (call_drv (Drv_Exit (dr_ptr d)) w) in
                 case wd_clear_ctx_config cev cfg r of
                   None \<Rightarrow> None
                 | Some (cfg, r) \<Rightarrow>
                     (let w = (case dv_fallback (dw_drv w (dr_ptr d)) of None \<Rightarrow> w | Some fb \<Rightarrow> wd_alg_uninit_fallback fb w);
                          w = set_drv d (\<lambda>s. s\<lparr>dv_drv_data := False\<rparr>) w; r = add_heap (- 1) r in
                      case cc_ctxs cfg of
                        None \<Rightarrow> None
                      | Some ctxs \<Rightarrow>
                          (case wr ctxs i (c\<lparr>ci_drv_priv := None\<rparr>) of
                             None \<Rightarrow> None
                           | Some ctxs \<Rightarrow> Some (cfg\<lparr>cc_ctxs := Some ctxs\<rparr>, w, r))))
          | _ \<Rightarrow> Some (cfg, w, r)))"

text \<open>The loop bound is read again before each iteration, as clearing the configuration sets it to 0.\<close>

fun uninit_drivers ::
  "cfg_env \<Rightarrow> nat list \<Rightarrow> bool \<Rightarrow> wd_ctx_config_internal \<Rightarrow> drv_world \<Rightarrow> alg_res
    \<Rightarrow> (wd_ctx_config_internal \<times> drv_world \<times> alg_res) option" where
  "uninit_drivers cev [] bounded cfg w r = Some (cfg, w, r)"
| "uninit_drivers cev (i # is) bounded cfg w r =
    (if bounded \<and> i \<ge> cc_ctx_num cfg then Some (cfg, w, r)
     else
       (case wd_ctx_uninit_driver cev cfg i w r of
          None \<Rightarrow> None
        | Some (cfg, w, r) \<Rightarrow> uninit_drivers cev is bounded cfg w r))"

definition wd_alg_uninit_driver ::
  "cfg_env \<Rightarrow> wd_ctx_config_internal \<Rightarrow> drv_world \<Rightarrow> alg_res \<Rightarrow> (wd_ctx_config_internal \<times> drv_world \<times> alg_res) option" where
  "wd_alg_uninit_driver cev cfg w r = uninit_drivers cev [0 ..< cc_ctx_num cfg] True cfg w r"

text \<open>The error carries the position of the context that failed.\<close>

fun init_drivers ::
  "drv_env \<Rightarrow> nat \<Rightarrow> nat \<Rightarrow> wd_ctx_internal list \<Rightarrow> drv_world \<Rightarrow> alg_res
    \<Rightarrow> ((nat \<times> int) option \<times> wd_ctx_internal list \<times> drv_world \<times> alg_res) option" where
  "init_drivers ev 0 i ctxs w r = Some (None, ctxs, w, r)"
| "init_drivers ev (Suc n) i ctxs w r =
    (case rd ctxs i of
       None \<Rightarrow> None
     | Some c \<Rightarrow>
         if ci_ctx c = 0 then init_drivers ev n (Suc i) ctxs w r
         else
           (case wd_ctx_init_driver ev c w r of
              (ret, c, w, r) \<Rightarrow>
                if ret \<noteq> 0 then Some (Some (i, ret), ctxs[i := c], w, r)
                else init_drivers ev n (Suc i) (ctxs[i := c]) w r))"

definition wd_alg_init_driver ::
  "cfg_env \<Rightarrow> drv_env \<Rightarrow> wd_ctx_config_internal \<Rightarrow> drv_world \<Rightarrow> alg_res
    \<Rightarrow> (int \<times> wd_ctx_config_internal \<times> drv_world \<times> alg_res) option" where
  "wd_alg_init_driver cev ev cfg w r =
    (case init_drivers ev (cc_ctx_num cfg) 0 (case cc_ctxs cfg of None \<Rightarrow> [] | Some ctxs \<Rightarrow> ctxs) w r of
       None \<Rightarrow> None
     | Some (None, ctxs, w, r) \<Rightarrow> Some (0, cfg\<lparr>cc_ctxs := map_option (\<lambda>_. ctxs) (cc_ctxs cfg)\<rparr>, w, r)
     | Some (Some (i, ret), ctxs, w, r) \<Rightarrow>
         (case uninit_drivers cev [0 ..< i] False (cfg\<lparr>cc_ctxs := map_option (\<lambda>_. ctxs) (cc_ctxs cfg)\<rparr>) w r of
            None \<Rightarrow> None
          | Some (cfg, w, r) \<Rightarrow> Some (ret, cfg, w, r)))"

subsection \<open>Binding and unbinding\<close>

lemma request_none: "fst (wd_request_drv rg alg ty) = None \<Longrightarrow> wd_request_drv rg alg ty = (None, rg)"
  by (auto simp: wd_request_drv_def Let_def split: if_splits option.splits)

lemma set_drv_same: "f (dw_drv w (dr_ptr d)) = dw_drv w (dr_ptr d) \<Longrightarrow> set_drv d f w = w"
  by (simp add: set_drv_def fun_upd_idem)

definition bound :: "wd_alg_driver list \<Rightarrow> nat \<Rightarrow> wd_ctx_internal \<Rightarrow> wd_ctx_internal" where
  "bound ds i c = c\<lparr>ci_drv := Some (ds ! (i mod length ds)), ci_ctx_type := ctx_type_of (ds ! (i mod length ds))\<rparr>"

text \<open>A hardware driver for which the loop would look for a fallback and find one.\<close>

definition gets_fallback :: "string option \<Rightarrow> drv_world \<Rightarrow> wd_alg_driver \<Rightarrow> bool" where
  "gets_fallback alg w d \<longleftrightarrow> ctx_type_of d = 0 \<and> dv_fallback (dw_drv w (dr_ptr d)) = None \<and>
    fst (wd_request_drv (dw_reg w) alg ALG_DRV_SOFT) \<noteq> None"

lemma bind_ctx_step:
  assumes "i < length ctxs" and "ds \<noteq> []" and "list_all (\<lambda>d. \<not> gets_fallback alg w d) ds"
  shows "bind_ctx alg (map Some ds) (length ds) i (ctxs, w) = Some (ctxs[i := bound ds i (ctxs ! i)], w)"
proof -
  let ?d = "ds ! (i mod length ds)"
  have j: "i mod length ds < length ds" using assms(2) by simp
  have idx: "(if length ds = 1 then 0 else i mod length ds) = i mod length ds" by simp
  have d: "rd (map Some ds) (if length ds = 1 then 0 else i mod length ds) = Some (Some ?d)"
    unfolding idx using j by (simp del: rd_Some_iff)
  have ng: "\<not> gets_fallback alg w ?d" using assms(3) j by (simp add: list_all_length)
  show ?thesis
  proof (cases "ctx_type_of ?d = 0 \<and> dv_fallback (dw_drv w (dr_ptr ?d)) = None")
    case True
    then have "wd_request_drv (dw_reg w) alg ALG_DRV_SOFT = (None, dw_reg w)" using ng by (intro request_none) (simp add: gets_fallback_def)
    moreover have "(dw_drv w (dr_ptr ?d))\<lparr>dv_fallback := None\<rparr> = dw_drv w (dr_ptr ?d)" using True by simp
    then have "set_drv ?d (\<lambda>s. s\<lparr>dv_fallback := None\<rparr>) (w\<lparr>dw_reg := dw_reg w\<rparr>) = w" by (simp add: set_drv_same)
    ultimately show ?thesis using True assms(1)
      by (simp only: bind_ctx_def d prod.case option.case rd_in Let_def UADK_ALG_HW_def) (simp add: bound_def)
  next
    case False
    then show ?thesis using assms(1)
      by (simp only: bind_ctx_def d prod.case option.case rd_in Let_def UADK_ALG_HW_def) (auto simp: bound_def)
  qed
qed

lemma bind_loop:
  assumes "n \<le> length ctxs" and "ds \<noteq> []" and "list_all (\<lambda>d. \<not> gets_fallback alg w d) ds"
  shows "opt_fold (bind_ctx alg (map Some ds) (length ds)) [0 ..< n] (ctxs, w) =
    Some (map (\<lambda>i. bound ds i (ctxs ! i)) [0 ..< n] @ drop n ctxs, w)"
  using assms(1)
proof (induction n)
  case (Suc n)
  let ?c = "map (\<lambda>i. bound ds i (ctxs ! i)) [0 ..< n] @ drop n ctxs"
  have dr: "drop n ctxs = ctxs ! n # drop (Suc n) ctxs" using Suc.prems by (simp add: Cons_nth_drop_Suc)
  have "opt_fold (bind_ctx alg (map Some ds) (length ds)) [0 ..< Suc n] (ctxs, w) =
      bind_ctx alg (map Some ds) (length ds) n (?c, w)"
    using Suc by (simp add: opt_fold_append split: option.split)
  also have "\<dots> = Some (?c[n := bound ds n (?c ! n)], w)" using Suc.prems by (intro bind_ctx_step [OF _ assms(2,3)]) simp
  also have "?c[n := bound ds n (?c ! n)] = map (\<lambda>i. bound ds i (ctxs ! i)) [0 ..< Suc n] @ drop (Suc n) ctxs"
    unfolding dr by (simp add: list_update_append nth_append)
  finally show ?case .
qed simp

lemma ptr_count_distinct: "distinct (map dr_ptr ds) \<Longrightarrow> ptr_count (map Some ds) p = (if p \<in> dr_ptr ` set ds then 1 else 0)"
  by (induction ds) (auto simp: ptr_count_def)

text \<open>
  C21: Binding assigns the drivers to the contexts in turn, each context taking the type of its driver, keeps handle, mode and
  operation type of every context, and takes one reference on each of the drivers and on no other; unbinding removes the drivers
  from the contexts again and gives these references back. The drivers of the array are distinct, and none of them is a hardware
  driver that gets a new fallback driver by the way, whose reference unbinding would not give back.
\<close>

theorem bind_unbind:
  assumes "cc_ctxs cfg = Some ctxs" and "length ctxs = cc_ctx_num cfg" and "ds \<noteq> []" and "distinct (map dr_ptr ds)"
    and "distinct (map (\<lambda>n. dr_ptr (dn_drv n)) (rg_nodes (dw_reg w)))"
    and "list_all (\<lambda>d. \<not> gets_fallback (cc_alg_name cfg) w d) ds"
  shows "\<exists>cfg' w' ctxs' cfg2. wd_ctx_bind_drivers (Some cfg) (Some (map Some ds)) (length ds) w = Some (0, Some cfg', w') \<and>
    cc_ctxs cfg' = Some ctxs' \<and> length ctxs' = length ctxs \<and>
    (\<forall>i < length ctxs. ctxs' ! i = (ctxs ! i)\<lparr>ci_drv := Some (ds ! (i mod length ds)),
                                              ci_ctx_type := ctx_type_of (ds ! (i mod length ds))\<rparr>) \<and>
    rg_nodes (dw_reg w') = map (\<lambda>n. n\<lparr>dn_refcnt := dn_refcnt n + (if dr_ptr (dn_drv n) \<in> dr_ptr ` set ds then 1 else 0)\<rparr>) (rg_nodes (dw_reg w)) \<and>
    wd_ctx_unbind_drivers (Some cfg') w' = Some (Some cfg2, w) \<and> cc_ctxs cfg2 = Some (map (\<lambda>c. c\<lparr>ci_drv := None\<rparr>) ctxs')"
proof -
  let ?ctxs = "map (\<lambda>i. bound ds i (ctxs ! i)) [0 ..< cc_ctx_num cfg]"
  let ?w = "w\<lparr>dw_reg := wd_alg_drv_ref_inc (map Some ds) (dw_reg w)\<rparr>"
  let ?cfg = "cfg\<lparr>cc_ctxs := Some ?ctxs, cc_drv_array := Some (map Some ds), cc_drv_count := length ds\<rparr>"
  have "wd_ctx_bind_drivers (Some cfg) (Some (map Some ds)) (length ds) w = Some (0, Some ?cfg, ?w)"
    using bind_loop [of "cc_ctx_num cfg" ctxs ds "cc_alg_name cfg" w] assms by (simp add: wd_ctx_bind_drivers_def)
  moreover have "wd_ctx_unbind_drivers (Some ?cfg) ?w = Some (Some (?cfg\<lparr>cc_ctxs := Some (map (\<lambda>c. c\<lparr>ci_drv := None\<rparr>) ?ctxs)\<rparr>), w)"
    using ref_inc_dec [OF assms(5), of "map Some ds"] by (simp add: wd_ctx_unbind_drivers_def Let_def)
  moreover have "\<forall>i < length ctxs. ?ctxs ! i = (ctxs ! i)\<lparr>ci_drv := Some (ds ! (i mod length ds)),
      ci_ctx_type := ctx_type_of (ds ! (i mod length ds))\<rparr>" using assms(2) by (simp add: bound_def)
  moreover have "rg_nodes (dw_reg ?w) =
      map (\<lambda>n. n\<lparr>dn_refcnt := dn_refcnt n + (if dr_ptr (dn_drv n) \<in> dr_ptr ` set ds then 1 else 0)\<rparr>) (rg_nodes (dw_reg w))"
    using ref_inc_map [of "dw_reg w" "map Some ds"] assms(5) ptr_count_distinct [OF assms(4)] by (simp add: ptrs_def)
  ultimately show ?thesis using assms(2) by (intro exI conjI) (assumption | simp)+
qed

text \<open>
  The name that a front end puts into its configuration is that of a class of algorithms (\<open>''cipher''\<close>), while drivers are requested by
  the name of an algorithm. No driver can register the name of that class, so that no fallback driver is ever found for it.
\<close>

definition algs_named :: "wd_alg_registry \<Rightarrow> bool" where
  "algs_named rg \<longleftrightarrow> list_all (\<lambda>n. list_all (\<lambda>a. \<exists>ty. wd_get_alg_type (ae_alg_name a) = Inr ty) (dn_algs n)) (rg_nodes rg)"

lemma cipher_is_no_alg: "wd_get_alg_type ''cipher'' = Inl WD_EINVAL"
  by (simp add: wd_get_alg_type_def alg_options_def)

lemma list_all_update_first:
  "list_all P xs \<Longrightarrow> (\<And>x. x \<in> set xs \<Longrightarrow> Q x \<Longrightarrow> P (f x)) \<Longrightarrow> list_all P (update_first Q f xs)"
  by (induction xs) auto

lemma register_algs_named:
  assumes "algs_named rg"
  shows "algs_named (snd (wd_alg_driver_register env oks (Some drv) rg))"
proof (cases "wd_get_alg_type (dr_alg_name drv)")
  case (Inl e)
  then show ?thesis using assms by (auto simp: wd_alg_driver_register_def)
next
  case (Inr ty)
  have tk: "take (ALG_NAME_SIZE - Suc 0) (dr_alg_name drv) = dr_alg_name drv"
    using get_alg_type_short [OF Inr] by (simp add: ALG_NAME_SIZE_def)
  have upd: "list_all (\<lambda>n. list_all (\<lambda>a. \<exists>ty. wd_get_alg_type (ae_alg_name a) = Inr ty) (dn_algs n))
      (update_first (same_node (dr_drv_name drv) ty) (\<lambda>n. n\<lparr>dn_algs := dn_algs n @
        [\<lparr>ae_alg_name = dr_alg_name drv, ae_available = True\<rparr>]\<rparr>) (rg_nodes rg))"
    by (rule list_all_update_first) (use assms Inr in \<open>auto simp: algs_named_def list_all_iff\<close>)
  show ?thesis using assms Inr upd
    by (auto simp: wd_alg_driver_register_def tk algs_named_def Let_def split: option.splits prod.splits)
qed

lemma class_without_fallback:
  assumes "algs_named rg"
  shows "fst (wd_request_drv rg (Some ''cipher'') ty) = None"
proof -
  have off: "\<not> alg_offered ''cipher'' n" if "n \<in> set (rg_nodes rg)" for n
  proof
    assume "alg_offered ''cipher'' n"
    then obtain a where "a \<in> set (dn_algs n)" "ae_alg_name a = ''cipher''" by (auto simp: alg_offered_def list_ex_iff)
    then show False using assms that cipher_is_no_alg by (fastforce simp: algs_named_def list_all_iff)
  qed
  have "request_scan ''cipher'' ty nodes d p = d" if "\<forall>n \<in> set nodes. \<not> alg_offered ''cipher'' n" for nodes d p
    using that by (induction nodes arbitrary: d p) auto
  then show ?thesis using off by (simp add: wd_request_drv_def)
qed

definition demo_drv_state :: drv_state where
  "demo_drv_state = \<lparr>dv_priv_size = 64, dv_init_state = False, dv_fallback = None, dv_drv_data = False\<rparr>"

definition demo_world :: drv_world where
  "demo_world = \<lparr>dw_reg = rg_both, dw_drv = \<lambda>_. demo_drv_state, dw_calls = []\<rparr>"

definition demo_config :: wd_ctx_config_internal where
  "demo_config = zero_config\<lparr>cc_ctx_num := 3, cc_ctxs := Some (replicate 3 (zero_ctx\<lparr>ci_ctx := 7\<rparr>)), cc_alg_name := Some ''cipher''\<rparr>"

lemma demo_no_fallback: "list_all (\<lambda>d. \<not> gets_fallback (Some ''cipher'') demo_world d) ds"
proof -
  have "algs_named rg_both" by (simp add: algs_named_def rg_both_def drv_sec_def drv_sve_def cbc_aes_type)
  from class_without_fallback [OF this] show ?thesis by (simp add: list_all_iff gets_fallback_def demo_world_def)
qed

theorem bind_unbind_witness:
  "\<exists>cfg' w' ctxs' cfg2. wd_ctx_bind_drivers (Some demo_config) (Some [Some drv_sec, Some drv_sve]) 2 demo_world = Some (0, Some cfg', w') \<and>
    cc_ctxs cfg' = Some ctxs' \<and> map ci_drv ctxs' = [Some drv_sec, Some drv_sve, Some drv_sec] \<and>
    wd_ctx_unbind_drivers (Some cfg') w' = Some (Some cfg2, demo_world)"
proof -
  have a: "cc_ctxs demo_config = Some (replicate 3 (zero_ctx\<lparr>ci_ctx := 7\<rparr>))" "cc_alg_name demo_config = Some ''cipher''"
    "length (replicate 3 (zero_ctx\<lparr>ci_ctx := 7\<rparr>)) = cc_ctx_num demo_config" by (simp_all add: demo_config_def)
  have d: "distinct (map (\<lambda>n. dr_ptr (dn_drv n)) (rg_nodes (dw_reg demo_world)))"
    by (simp add: demo_world_def rg_both_def drv_sec_def drv_sve_def)
  have ne: "[drv_sec, drv_sve] \<noteq> []" "distinct (map dr_ptr [drv_sec, drv_sve])" by (simp_all add: drv_sec_def drv_sve_def)
  from bind_unbind [OF a(1,3) ne d demo_no_fallback [of "[drv_sec, drv_sve]", folded a(2)]]
  obtain cfg' w' ctxs' cfg2 where
    b: "wd_ctx_bind_drivers (Some demo_config) (Some (map Some [drv_sec, drv_sve])) (length [drv_sec, drv_sve]) demo_world = Some (0, Some cfg', w')"
    "cc_ctxs cfg' = Some ctxs'" "length ctxs' = length (replicate 3 (zero_ctx\<lparr>ci_ctx := 7\<rparr>))"
    "\<forall>i < length (replicate 3 (zero_ctx\<lparr>ci_ctx := 7\<rparr>)). ctxs' ! i = (replicate 3 (zero_ctx\<lparr>ci_ctx := 7\<rparr>) ! i)\<lparr>
       ci_drv := Some ([drv_sec, drv_sve] ! (i mod length [drv_sec, drv_sve])),
       ci_ctx_type := ctx_type_of ([drv_sec, drv_sve] ! (i mod length [drv_sec, drv_sve]))\<rparr>"
    "wd_ctx_unbind_drivers (Some cfg') w' = Some (Some cfg2, demo_world)" by blast
  have "ci_drv (ctxs' ! i) = [Some drv_sec, Some drv_sve, Some drv_sec] ! i" if "i < 3" for i
  proof -
    have "ci_drv (ctxs' ! i) = Some ([drv_sec, drv_sve] ! (i mod 2))" using b(4) that by (simp add: numeral_2_eq_2)
    moreover have "i = 0 \<or> i = 1 \<or> i = 2" using that by linarith
    ultimately show ?thesis by auto
  qed
  then have m: "map ci_drv ctxs' = [Some drv_sec, Some drv_sve, Some drv_sec]"
    using b(3) by (intro nth_equalityI) simp_all
  have b1: "wd_ctx_bind_drivers (Some demo_config) (Some [Some drv_sec, Some drv_sve]) 2 demo_world = Some (0, Some cfg', w')"
    using b(1) by (simp add: numeral_2_eq_2)
  show ?thesis by (intro exI conjI) (rule b1, rule b(2), rule m, rule b(5))
qed

subsection \<open>Drivers are initialised once\<close>

fun inits :: "drv_call list \<Rightarrow> nat list" where
  "inits [] = []"
| "inits (Drv_Init p # cs) = p # inits cs"
| "inits (c # cs) = inits cs"

lemma inits_append [simp]: "inits (xs @ ys) = inits xs @ inits ys"
  by (induction xs rule: inits.induct) auto

abbreviation started :: "drv_world \<Rightarrow> nat \<Rightarrow> bool" where
  "started w p \<equiv> dv_init_state (dw_drv w p)"

lemma set_drv_simps [simp]:
  "dw_calls (set_drv d f w) = dw_calls w" "dw_reg (set_drv d f w) = dw_reg w"
  "dw_drv (set_drv d f w) p = (if p = dr_ptr d then f (dw_drv w p) else dw_drv w p)"
  "dw_calls (call_drv c w) = c # dw_calls w" "dw_reg (call_drv c w) = dw_reg w" "dw_drv (call_drv c w) = dw_drv w"
  by (auto simp: set_drv_def call_drv_def)

text \<open>
  What one initialisation changes: which calls were made (\<open>new\<close>), which drivers are started, how much memory is kept. The
  contexts themselves do not change.
\<close>

definition drv_step :: "drv_world \<Rightarrow> alg_res \<Rightarrow> bool \<Rightarrow> drv_call list \<Rightarrow> drv_world \<Rightarrow> alg_res \<Rightarrow> bool" where
  "drv_step w r ok new w' r' \<longleftrightarrow> dw_calls w' = new @ dw_calls w \<and> distinct (inits new) \<and>
    (\<forall>p. started w' p \<longleftrightarrow> started w p \<or> p \<in> set (inits new)) \<and> (\<forall>p \<in> set (inits new). \<not> started w p) \<and>
    rs_heap r \<le> rs_heap r' \<and> rs_heap r' \<le> rs_heap r + int (length (inits new)) \<and>
    (ok \<longrightarrow> rs_heap r' = rs_heap r + int (length (inits new))) \<and> rs_locks r' = rs_locks r \<and> rs_live r' = rs_live r \<and> rs_shm r' = rs_shm r"

lemma drv_step_refl: "drv_step w r ok [] w r"
  by (simp add: drv_step_def)

lemma drv_step_trans:
  assumes "drv_step w r True n1 w1 r1" and "drv_step w1 r1 ok n2 w2 r2"
  shows "drv_step w r ok (n2 @ n1) w2 r2"
proof -
  have "set (inits n1) \<inter> set (inits n2) = {}" using assms by (auto simp: drv_step_def)
  then show ?thesis using assms by (auto simp: drv_step_def)
qed

lemma init_driver_step:
  assumes "wd_ctx_init_driver ev c w r = (ret, c', w', r')" and "ci_drv_priv c = None"
  shows "c' = c \<and> (\<exists>new. drv_step w r (ret = 0) new w' r') \<and>
    (ret = 0 \<longrightarrow> (\<forall>d. ci_drv c = Some d \<longrightarrow> started w' (dr_ptr d)))"
proof (cases "ci_drv c")
  case None
  then show ?thesis using assms drv_step_refl by (auto simp: wd_ctx_init_driver_def)
next
  case (Some d)
  have c: "c\<lparr>ci_drv_priv := None\<rparr> = c" using assms(2) by simp
  show ?thesis
  proof (cases "\<not> started w (dr_ptr d) \<and> dv_priv_size (dw_drv w (dr_ptr d)) \<noteq> 0 \<and> de_priv_ok ev (dr_ptr d) \<and> dr_init d")
    case False
    then show ?thesis using assms(1) Some drv_step_refl [of w r] c errno_pos
      by (auto simp: wd_ctx_init_driver_def Let_def drv_step_def split: if_splits intro!: exI [of _ "[]"])
  next
    case True
    let ?w1 = "call_drv (Drv_Init (dr_ptr d)) (set_drv d (\<lambda>s. s\<lparr>dv_init_state := True\<rparr>) w)"
    show ?thesis
    proof (cases "de_init ev (dr_ptr d) < 0")
      case neg: True
      then have "ret \<noteq> 0" "c' = c" "w' = ?w1" "r' = r" using assms(1) Some True c
        by (auto simp: wd_ctx_init_driver_def Let_def)
      then show ?thesis using True by (auto simp: drv_step_def intro!: exI [of _ "[Drv_Init (dr_ptr d)]"])
    next
      case pos: False
      let ?w2 = "set_drv d (\<lambda>s. s\<lparr>dv_drv_data := True\<rparr>) ?w1"
      have base: "ret = 0" "c' = c" "r' = add_heap 1 r" using assms(1) Some True pos
        by (auto simp: wd_ctx_init_driver_def Let_def split: option.splits prod.splits)
      have "\<exists>fs. dw_calls w' = fs @ dw_calls ?w2 \<and> inits fs = [] \<and> (\<forall>p. started w' p = started ?w2 p)"
      proof (cases "dv_fallback (dw_drv w (dr_ptr d))")
        case None
        then have "w' = ?w2" using assms(1) Some True pos by (auto simp: wd_ctx_init_driver_def Let_def)
        then show ?thesis by (intro exI [of _ "[]"]) simp
      next
        case (Some fb)
        have "w' = (if dr_init fb then call_drv (Fb_Init (dr_ptr fb)) ?w2 else set_drv d (\<lambda>s. s\<lparr>dv_fallback := None\<rparr>) ?w2)"
          using assms(1) \<open>ci_drv c = Some d\<close> True pos Some
          by (auto simp: wd_ctx_init_driver_def wd_alg_init_fallback_def Let_def split: if_splits)
        then show ?thesis by (intro exI [of _ "if dr_init fb then [Fb_Init (dr_ptr fb)] else []"]) simp
      qed
      then obtain fs where fs: "dw_calls w' = fs @ dw_calls ?w2" "inits fs = []" "\<forall>p. started w' p = started ?w2 p" by blast
      then have "drv_step w r True (fs @ [Drv_Init (dr_ptr d)]) w' r'" using True base by (auto simp: drv_step_def)
      then show ?thesis using base fs(3) Some by (auto simp: exI)
    qed
  qed
qed

lemma init_drivers_step:
  assumes "init_drivers ev n i ctxs w r = Some (e, ctxs', w', r')" and "\<forall>c \<in> set ctxs. ci_drv_priv c = None"
  shows "ctxs' = ctxs \<and> (\<exists>new. drv_step w r (e = None) new w' r') \<and>
    (e = None \<longrightarrow> (\<forall>j d. i \<le> j \<longrightarrow> j < i + n \<longrightarrow> ci_ctx (ctxs ! j) \<noteq> 0 \<longrightarrow> ci_drv (ctxs ! j) = Some d \<longrightarrow> started w' (dr_ptr d)))"
  using assms
proof (induction ev n i ctxs w r rule: init_drivers.induct)
  case (1 ev i ctxs w r)
  then show ?case using drv_step_refl [of w r True] by auto
next
  case (2 ev n i ctxs w r)
  from "2.prems"(1) have i: "i < length ctxs" by (cases "rd ctxs i") auto
  then have rd: "rd ctxs i = Some (ctxs ! i)" by simp
  have cp: "ci_drv_priv (ctxs ! i) = None" using "2.prems"(2) i by simp
  have split: "i \<le> j \<and> j < i + Suc n \<longleftrightarrow> j = i \<or> Suc i \<le> j \<and> j < Suc i + n" for j by auto
  show ?case
  proof (cases "ci_ctx (ctxs ! i) = 0")
    case True
    then have run: "init_drivers ev n (Suc i) ctxs w r = Some (e, ctxs', w', r')" using "2.prems"(1) rd by simp
    show ?thesis using "2.IH"(1) [OF rd True run "2.prems"(2)] True split by metis
  next
    case False
    obtain ret c1 w1 r1 where one: "wd_ctx_init_driver ev (ctxs ! i) w r = (ret, c1, w1, r1)" by (metis prod_cases4)
    note st = init_driver_step [OF one cp]
    have same: "ctxs[i := c1] = ctxs" using st by simp
    show ?thesis
    proof (cases "ret = 0")
      case ok: True
      have run: "init_drivers ev n (Suc i) (ctxs[i := c1]) w1 r1 = Some (e, ctxs', w', r')" using "2.prems"(1) rd False one ok by simp
      have "\<forall>c \<in> set (ctxs[i := c1]). ci_drv_priv c = None" using "2.prems"(2) same by simp
      from "2.IH"(2) [OF rd False one [symmetric] refl refl _ run this] ok
      have IH: "ctxs' = ctxs" "\<exists>new. drv_step w1 r1 (e = None) new w' r'"
        "e = None \<longrightarrow> (\<forall>j d. Suc i \<le> j \<longrightarrow> j < Suc i + n \<longrightarrow> ci_ctx (ctxs ! j) \<noteq> 0 \<longrightarrow> ci_drv (ctxs ! j) = Some d \<longrightarrow> started w' (dr_ptr d))"
        unfolding same by auto
      obtain n1 n2 where steps: "drv_step w r True n1 w1 r1" "drv_step w1 r1 (e = None) n2 w' r'" using st IH(2) ok by auto
      then have mono: "started w1 p \<Longrightarrow> started w' p" for p by (auto simp: drv_step_def)
      have "\<forall>d. ci_drv (ctxs ! i) = Some d \<longrightarrow> started w' (dr_ptr d)" using st ok mono by blast
      then show ?thesis using IH(1,3) drv_step_trans [OF steps] split by metis
    next
      case fail: False
      then have "e = Some (i, ret)" "ctxs' = ctxs[i := c1]" "w' = w1" "r' = r1" using "2.prems"(1) rd False one by auto
      then show ?thesis using st same fail by auto
    qed
  qed
qed


lemma init_drivers_error:
  assumes "init_drivers ev n i ctxs w r = Some (Some (j, ret), ctxs', w', r')" and "i + n \<le> length ctxs"
  shows "j < length ctxs \<and> ret \<noteq> 0"
  using assms
proof (induction ev n i ctxs w r rule: init_drivers.induct)
  case (2 ev n i ctxs w r)
  obtain e1 c1 w1 r1 where one: "wd_ctx_init_driver ev (ctxs ! i) w r = (e1, c1, w1, r1)" by (metis prod_cases4)
  show ?case
  proof (cases "ci_ctx (ctxs ! i) = 0")
    case True
    then show ?thesis using "2.IH"(1) [of "ctxs ! i"] "2.prems" by simp
  next
    case False
    then show ?thesis using "2.IH"(2) [of "ctxs ! i" e1 "(c1, w1, r1)" c1 "(w1, r1)" w1 r1] "2.prems" one
      by (cases "e1 = 0") auto
  qed
qed simp

lemma init_drivers_total:
  assumes "i + n \<le> length ctxs"
  shows "init_drivers ev n i ctxs w r \<noteq> None"
  using assms
proof (induction n arbitrary: i ctxs w r)
  case (Suc n)
  obtain ret c1 w1 r1 where one: "wd_ctx_init_driver ev (ctxs ! i) w r = (ret, c1, w1, r1)" by (metis prod_cases4)
  show ?case using one Suc.prems Suc.IH [of "Suc i" ctxs w r] Suc.IH [of "Suc i" "ctxs[i := c1]" w1 r1] by simp
qed simp

text \<open>Without a value in \<^verbatim>\<open>drv_priv\<close>, undoing the initialisation of drivers does nothing.\<close>

lemma uninit_drivers_noop:
  assumes "cc_ctxs cfg = Some ctxs" and "list_all (\<lambda>c. ci_drv_priv c = None) ctxs" and "\<forall>i \<in> set is. i < length ctxs"
  shows "uninit_drivers cev is b cfg w r = Some (cfg, w, r)"
  using assms(3)
proof (induction "is")
  case (Cons i "is")
  have "wd_ctx_uninit_driver cev cfg i w r = Some (cfg, w, r)"
    using assms(1,2) Cons.prems by (simp add: wd_ctx_uninit_driver_def list_all_length split: option.split)
  then show ?case using Cons by simp
qed simp

lemma init_driver_outcome:
  assumes "cc_ctxs cfg = Some ctxs" and "cc_ctx_num cfg = length ctxs" and "list_all (\<lambda>c. ci_drv_priv c = None) ctxs"
  shows "\<exists>ret w' r' new. wd_alg_init_driver cev ev cfg w r = Some (ret, cfg, w', r') \<and> drv_step w r (ret = 0) new w' r' \<and>
    (ret = 0 \<longrightarrow> list_all (\<lambda>c. ci_ctx c \<noteq> 0 \<longrightarrow> (case ci_drv c of None \<Rightarrow> True | Some d \<Rightarrow> started w' (dr_ptr d))) ctxs) \<and>
    wd_alg_uninit_driver cev cfg w' r' = Some (cfg, w', r')"
proof -
  obtain e ctxs' w' r' where run: "init_drivers ev (length ctxs) 0 ctxs w r = Some (e, ctxs', w', r')"
    using init_drivers_total [of 0 "length ctxs" ctxs ev w r] by (metis add_0 le_refl option.exhaust prod_cases4)
  have "\<forall>c \<in> set ctxs. ci_drv_priv c = None" using assms(3) by (simp add: list_all_iff)
  note st = init_drivers_step [OF run this]
  then have same: "ctxs' = ctxs" by blast
  have cfg: "cfg\<lparr>cc_ctxs := Some ctxs\<rparr> = cfg" using assms(1) by simp
  have un: "wd_alg_uninit_driver cev cfg w r = Some (cfg, w, r)" for w r
    unfolding wd_alg_uninit_driver_def using assms(2) by (intro uninit_drivers_noop [OF assms(1,3)]) simp
  show ?thesis
  proof (cases e)
    case None
    have "list_all (\<lambda>c. ci_ctx c \<noteq> 0 \<longrightarrow> (case ci_drv c of None \<Rightarrow> True | Some d \<Rightarrow> started w' (dr_ptr d))) ctxs"
      using st None by (auto simp: list_all_length split: option.split)
    moreover have "wd_alg_init_driver cev ev cfg w r = Some (0, cfg, w', r')"
      using run None assms same by (simp add: wd_alg_init_driver_def cfg)
    ultimately show ?thesis using st None un by auto
  next
    case (Some ie)
    obtain i ret where ie: "ie = (i, ret)" by fastforce
    have "i < length ctxs \<and> ret \<noteq> 0" by (rule init_drivers_error [OF run [unfolded Some ie]]) simp
    then have "wd_alg_init_driver cev ev cfg w r = Some (ret, cfg, w', r')"
      using run Some ie assms same uninit_drivers_noop [OF assms(1,3), of "[0 ..< i]"] by (simp add: wd_alg_init_driver_def cfg)
    then show ?thesis using st Some un \<open>i < length ctxs \<and> ret \<noteq> 0\<close> by auto
  qed
qed

lemma init_driver_success:
  assumes "cc_ctxs cfg = Some ctxs" and "cc_ctx_num cfg = length ctxs" and "list_all (\<lambda>c. ci_drv_priv c = None) ctxs"
    and "wd_alg_init_driver cev ev cfg w r = Some (0, cfg', w', r')"
  shows "init_drivers ev (length ctxs) 0 ctxs w r = Some (None, ctxs, w', r')"
proof -
  obtain e ctxs1 w1 r1 where run: "init_drivers ev (length ctxs) 0 ctxs w r = Some (e, ctxs1, w1, r1)"
    using init_drivers_total [of 0 "length ctxs" ctxs ev w r] by (metis add_0 le_refl option.exhaust prod_cases4)
  have "\<forall>c \<in> set ctxs. ci_drv_priv c = None" using assms(3) by (simp add: list_all_iff)
  note same = init_drivers_step [OF run this, THEN conjunct1]
  show ?thesis
  proof (cases e)
    case None
    then show ?thesis using run same assms(1,2,4) by (auto simp: wd_alg_init_driver_def)
  next
    case (Some ie)
    obtain i ret where ie: "ie = (i, ret)" by fastforce
    have "ret \<noteq> 0" using init_drivers_error [OF run [unfolded Some ie]] by simp
    then show ?thesis using run Some ie assms(1,2,4) by (auto simp: wd_alg_init_driver_def split: option.splits)
  qed
qed

text \<open>
  Undoing the initialisation afterwards changes nothing, as no context has a value in \<^verbatim>\<open>drv_priv\<close>: no driver is stopped and its
  memory is kept.
\<close>

lemma drivers_never_stopped:
  assumes "cc_ctxs cfg = Some ctxs" and "cc_ctx_num cfg = length ctxs" and "list_all (\<lambda>c. ci_drv_priv c = None) ctxs"
    and "wd_alg_init_driver cev ev cfg w r = Some (ret, cfg', w', r')"
  shows "wd_alg_uninit_driver cev cfg' w' r' = Some (cfg', w', r')"
  using init_driver_outcome [OF assms(1-3), of cev ev w r] assms(4) by auto

lemma count_list_distinct: "distinct xs \<Longrightarrow> count_list xs x = (if x \<in> set xs then 1 else 0)"
  by (induction xs) auto

text \<open>Only drivers of contexts with a handle are started.\<close>

definition serves :: "wd_ctx_internal list \<Rightarrow> nat \<Rightarrow> bool" where
  "serves ctxs p \<longleftrightarrow> list_ex (\<lambda>c. ci_ctx c \<noteq> 0 \<and> (case ci_drv c of None \<Rightarrow> False | Some d \<Rightarrow> dr_ptr d = p)) ctxs"

lemma init_driver_started:
  assumes "wd_ctx_init_driver ev c w r = (ret, c', w', r')" and "started w' p"
  shows "started w p \<or> (case ci_drv c of None \<Rightarrow> False | Some d \<Rightarrow> dr_ptr d = p)"
  using assms by (auto simp: wd_ctx_init_driver_def wd_alg_init_fallback_def Let_def split: option.splits if_splits)

lemma init_drivers_started:
  assumes "init_drivers ev n i ctxs w r = Some (e, ctxs', w', r')" and "\<forall>c \<in> set ctxs. ci_drv_priv c = None" and "started w' p"
  shows "started w p \<or> serves ctxs p"
  using assms
proof (induction ev n i ctxs w r rule: init_drivers.induct)
  case (2 ev n i ctxs w r)
  from "2.prems"(1) have i: "i < length ctxs" by (cases "rd ctxs i") auto
  then have rd: "rd ctxs i = Some (ctxs ! i)" by simp
  have cp: "ci_drv_priv (ctxs ! i) = None" using "2.prems"(2) i by simp
  show ?case
  proof (cases "ci_ctx (ctxs ! i) = 0")
    case True
    then have run: "init_drivers ev n (Suc i) ctxs w r = Some (e, ctxs', w', r')" using "2.prems"(1) rd by simp
    show ?thesis by (rule "2.IH"(1) [OF rd True run "2.prems"(2,3)])
  next
    case False
    obtain ret c1 w1 r1 where one: "wd_ctx_init_driver ev (ctxs ! i) w r = (ret, c1, w1, r1)" by (metis prod_cases4)
    have same: "ctxs[i := c1] = ctxs" using init_driver_step [OF one cp] by simp
    have first: "started w p \<or> serves ctxs p" if "started w1 p"
      using init_driver_started [OF one that] False i by (auto simp: serves_def list_ex_length)
    show ?thesis
    proof (cases "ret = 0")
      case ok: True
      have run: "init_drivers ev n (Suc i) (ctxs[i := c1]) w1 r1 = Some (e, ctxs', w', r')" using "2.prems"(1) rd False one ok by simp
      have "\<forall>c \<in> set (ctxs[i := c1]). ci_drv_priv c = None" using "2.prems"(2) same by simp
      from "2.IH"(2) [OF rd False one [symmetric] refl refl _ run this "2.prems"(3)] ok first show ?thesis unfolding same by auto
    next
      case fail: False
      then have "w' = w1" using "2.prems"(1) rd False one by auto
      then show ?thesis using first "2.prems"(3) by simp
    qed
  qed
qed auto


definition demo_drv_env :: drv_env where
  "demo_drv_env = \<lparr>de_priv_ok = \<lambda>_. True, de_init = \<lambda>_. 0\<rparr>"

lemma demo_init_run:
  "\<exists>w' r'. wd_alg_init_driver demo_cfg_env demo_drv_env (demo_config\<lparr>cc_ctxs := Some (replicate 3 (zero_ctx\<lparr>ci_ctx := 7, ci_drv := Some drv_sec\<rparr>))\<rparr>)
      demo_world no_res = Some (0, demo_config\<lparr>cc_ctxs := Some (replicate 3 (zero_ctx\<lparr>ci_ctx := 7, ci_drv := Some drv_sec\<rparr>))\<rparr>, w', r')"
  by (simp add: wd_alg_init_driver_def demo_config_def numeral_3_eq_3 wd_ctx_init_driver_def demo_world_def demo_drv_state_def
      demo_drv_env_def drv_sec_def no_res_def)


end
