(* ===== verification/Alg_Attrs.thy ===== *)
theory Alg_Attrs
  imports Alg_Init
begin

text \<open>
  The automatic set-up of an algorithm in \<^verbatim>\<open>wd_util.c\<close> (lines 2310--2927): phase 1 finds the drivers and allocates the internal
  configuration, phase 2 takes contexts from the drivers, creates a scheduler, registers the contexts in it and calls the
  initialisation of the algorithm. Each phase has its reverse.

  The initialisation of the algorithm is a parameter that changes the front end's own state \<open>'s\<close> and the resources. A scheduler with
  all that it allocates counts as one object.
\<close>

record wd_ctx_nums =
  nu_sync_ctx_num :: nat
  nu_async_ctx_num :: nat
  nu_ctx_prop :: nat

record wd_ctx_params =
  pa_op_type_num :: nat
  pa_ctx_set_num :: "wd_ctx_nums list"
  pa_bmp :: "nat set"
  pa_cap :: "nat option"

record wd_init_attrs =
  at_sched_type :: nat
  at_task_type :: alg_task_type
  at_alg :: string
  at_sched :: "wd_sched option"
  at_ctx_params :: "wd_ctx_params option"
  at_ctx_config :: "wd_ctx_config option"
  at_internal :: "wd_ctx_config_internal option"

text \<open>\<open>en_alloc_ctx d\<close> is \<open>None\<close> if the driver has no such function; otherwise it answers for a mode, an operation type and an index.\<close>

record attrs_env =
  en_drv_oks :: "bool list"
  en_config_ok :: bool
  en_ctxs_ok :: bool
  en_alloc_ctx :: "wd_alg_driver \<Rightarrow> (nat \<Rightarrow> nat \<Rightarrow> nat \<Rightarrow> int \<times> nat) option"
  en_free_ctx :: "wd_alg_driver \<Rightarrow> bool"
  en_numa_max :: int
  en_sched_oks :: "bool list"
  en_sched_lock :: bool
  en_inst_oks :: "nat \<Rightarrow> bool list"
  en_inst_lock :: "nat \<Rightarrow> bool"
  en_chain :: "nat \<Rightarrow> nat"
  en_conf_ok :: bool
  en_conf_ctxs_ok :: bool

definition DEVICE_REGION_MAX :: nat where "DEVICE_REGION_MAX = 16"

subsection \<open>Phase 1\<close>

definition wd_put_drv_array :: "wd_alg_driver option list option \<Rightarrow> nat \<Rightarrow> alg_res \<Rightarrow> alg_res option" where
  "wd_put_drv_array drv_array drv_count r =
    (case drv_array of
       None \<Rightarrow> if drv_count = 0 then Some r else None
     | Some arr \<Rightarrow> if drv_count \<le> length arr then Some (add_heap (- 1) r) else None)"

text \<open>The sums of the counts, in 32 bits; no outcome if there are fewer entries than operation types.\<close>

definition ctx_sum :: "(wd_ctx_nums \<Rightarrow> nat) \<Rightarrow> wd_ctx_params \<Rightarrow> nat option" where
  "ctx_sum sel ps =
    (if pa_op_type_num ps \<le> length (pa_ctx_set_num ps) then Some (u32 (sum_list (map sel (take (pa_op_type_num ps) (pa_ctx_set_num ps)))))
     else None)"

definition total_ctx_num :: "wd_ctx_params \<Rightarrow> nat option" where
  "total_ctx_num ps =
    (case (ctx_sum nu_sync_ctx_num ps, ctx_sum nu_async_ctx_num ps) of
       (Some s, Some a) \<Rightarrow> Some (u32 (s + a))
     | _ \<Rightarrow> None)"

definition wd_ctx_config_uninit :: "wd_init_attrs option \<Rightarrow> alg_res \<Rightarrow> (wd_init_attrs option \<times> alg_res) option" where
  "wd_ctx_config_uninit attrs r =
    (case attrs of
       None \<Rightarrow> Some (attrs, r)
     | Some at \<Rightarrow>
         (case at_internal at of
            None \<Rightarrow> Some (attrs, r)
          | Some cfg \<Rightarrow>
              (case (if cc_drv_array cfg = None then Some r else wd_put_drv_array (cc_drv_array cfg) (cc_drv_count cfg) r) of
                 None \<Rightarrow> None
               | Some r \<Rightarrow>
                   (let r = (if cc_ctxs cfg = None then r else add_heap (- 1) r) in
                    Some (Some (at\<lparr>at_internal := None\<rparr>), add_heap (- 1) r)))))"

definition wd_ctx_config_init ::
  "attrs_env \<Rightarrow> wd_alg_registry \<Rightarrow> wd_init_attrs option \<Rightarrow> alg_res \<Rightarrow> (int \<times> wd_init_attrs option \<times> alg_res) option" where
  "wd_ctx_config_init ev rg attrs r =
    (case attrs of
       None \<Rightarrow> Some (err WD_EINVAL, attrs, r)
     | Some at \<Rightarrow>
         (case at_ctx_params at of
            None \<Rightarrow> Some (err WD_EINVAL, attrs, r)
          | Some ps \<Rightarrow>
              if at_alg at = [] then Some (err WD_EINVAL, attrs, r)
              else
                (case total_ctx_num ps of
                   None \<Rightarrow> None
                 | Some ctx_num \<Rightarrow>
                     if ctx_num = 0 then Some (err WD_EINVAL, attrs, r)
                     else
                       (case wd_get_alg_type (at_alg at) of
                          Inl _ \<Rightarrow> Some (err WD_EINVAL, attrs, r)
                        | Inr alg_type \<Rightarrow>
                            if alg_type = [] then Some (err WD_EINVAL, attrs, r)
                            else
                              (case wd_get_drv_array (en_drv_oks ev) rg alg_type (at_task_type at) None of
                                 None \<Rightarrow> None
                               | Some (Inl _) \<Rightarrow> Some (err WD_EINVAL, attrs, r)
                               | Some (Inr ds) \<Rightarrow>
                                   (let arr = Some (map Some ds); r = add_heap 1 r in
                                    if \<not> en_config_ok ev then map_option (\<lambda>r. (err WD_ENOMEM, attrs, r)) (wd_put_drv_array arr (length ds) r)
                                    else
                                      (let r = add_heap 1 r in
                                       if \<not> en_ctxs_ok ev then
                                         map_option (\<lambda>r. (err WD_ENOMEM, attrs, r)) (wd_put_drv_array arr (length ds) (add_heap (- 1) r))
                                       else
                                         Some (0, Some (at\<lparr>at_internal := Some (zero_config\<lparr>cc_ctxs := Some (replicate ctx_num zero_ctx),
                                                  cc_drv_array := arr, cc_drv_count := length ds, cc_ctx_num := ctx_num\<rparr>)\<rparr>),
                                               add_heap 1 r))))))))"

subsection \<open>Contexts from the drivers\<close>

text \<open>The pairs of operation type and number over which the two nested loops run.\<close>

definition ctx_jobs :: "nat \<Rightarrow> wd_ctx_params \<Rightarrow> (nat \<times> nat) list" where
  "ctx_jobs mode ps =
    concat (map (\<lambda>op. map (Pair op) [0 ..< (if mode = CTX_MODE_SYNC then nu_sync_ctx_num (pa_ctx_set_num ps ! op)
                                             else nu_async_ctx_num (pa_ctx_set_num ps ! op))]) [0 ..< pa_op_type_num ps])"

fun alloc_ctxs ::
  "attrs_env \<Rightarrow> nat \<Rightarrow> wd_alg_driver option list \<Rightarrow> nat \<Rightarrow> (nat \<times> nat) list \<Rightarrow> wd_ctx_internal list \<Rightarrow> nat \<Rightarrow> alg_res
    \<Rightarrow> (unit result \<times> wd_ctx_internal list \<times> nat \<times> alg_res) option" where
  "alloc_ctxs ev mode arr drv_count [] ctxs idx r = Some (Inr (), ctxs, idx, r)"
| "alloc_ctxs ev mode arr drv_count ((op, i) # jobs) ctxs idx r =
    (case rd arr (i mod drv_count) of
       None \<Rightarrow> None
     | Some drv \<Rightarrow>
         (case drv of
            None \<Rightarrow> alloc_ctxs ev mode arr drv_count jobs ctxs idx r
          | Some d \<Rightarrow>
              (case en_alloc_ctx ev d of
                 None \<Rightarrow> alloc_ctxs ev mode arr drv_count jobs ctxs idx r
               | Some alloc \<Rightarrow>
                   (let (ret, ctx) = alloc mode op idx in
                    if ctx = 0 \<or> ret \<noteq> 0 then Some (Inl WD_ENOMEM, ctxs, idx, r)
                    else
                      (case rd ctxs idx of
                         None \<Rightarrow> None
                       | Some c \<Rightarrow>
                           alloc_ctxs ev mode arr drv_count jobs
                             (ctxs[idx := c\<lparr>ci_ctx := ctx, ci_op_type := u8 op, ci_ctx_mode := mode,
                                            ci_ctx_type := ctx_type_of d, ci_drv := Some d\<rparr>])
                             (idx + 1) (r\<lparr>rs_live := ctx # rs_live r\<rparr>))))))"

definition wd_alloc_ctxs_by_mode ::
  "attrs_env \<Rightarrow> wd_ctx_config_internal \<Rightarrow> wd_ctx_params \<Rightarrow> nat \<Rightarrow> nat \<Rightarrow> alg_res
    \<Rightarrow> (unit result \<times> wd_ctx_config_internal \<times> nat \<times> alg_res) option" where
  "wd_alloc_ctxs_by_mode ev cfg ps mode idx r =
    (case (cc_drv_array cfg, cc_ctxs cfg) of
       (Some arr, Some ctxs) \<Rightarrow>
         (case alloc_ctxs ev mode arr (cc_drv_count cfg) (ctx_jobs mode ps) ctxs idx r of
            None \<Rightarrow> None
          | Some (res, ctxs, idx, r) \<Rightarrow> Some (res, cfg\<lparr>cc_ctxs := Some ctxs\<rparr>, idx, r))
     | _ \<Rightarrow> None)"

definition wd_alloc_ctxs_batch ::
  "attrs_env \<Rightarrow> wd_ctx_config_internal \<Rightarrow> wd_ctx_params \<Rightarrow> alg_res \<Rightarrow> (unit result \<times> wd_ctx_config_internal \<times> alg_res) option" where
  "wd_alloc_ctxs_batch ev cfg ps r =
    (case wd_alloc_ctxs_by_mode ev cfg ps CTX_MODE_SYNC 0 r of
       None \<Rightarrow> None
     | Some (Inl e, cfg, idx, r) \<Rightarrow> Some (Inl e, cfg, r)
     | Some (Inr _, cfg, idx, r) \<Rightarrow>
         (case wd_alloc_ctxs_by_mode ev cfg ps CTX_MODE_ASYNC idx r of
            None \<Rightarrow> None
          | Some (res, cfg, idx, r) \<Rightarrow> Some (res, cfg, r)))"

definition free_one :: "attrs_env \<Rightarrow> wd_ctx_internal \<Rightarrow> wd_ctx_internal" where
  "free_one ev c =
    (if ci_ctx c = 0 then c
     else case ci_drv c of None \<Rightarrow> c | Some d \<Rightarrow> if en_free_ctx ev d then c\<lparr>ci_ctx := 0\<rparr> else c)"

definition freed :: "attrs_env \<Rightarrow> wd_ctx_internal list \<Rightarrow> nat list" where
  "freed ev ctxs = map ci_ctx (filter (\<lambda>c. free_one ev c \<noteq> c) ctxs)"

definition wd_free_ctxs_batch :: "attrs_env \<Rightarrow> wd_ctx_config_internal option \<Rightarrow> alg_res \<Rightarrow> (wd_ctx_config_internal option \<times> alg_res) option" where
  "wd_free_ctxs_batch ev config r =
    (case config of
       None \<Rightarrow> Some (config, r)
     | Some cfg \<Rightarrow>
         (case cc_ctxs cfg of
            None \<Rightarrow> Some (config, r)
          | Some ctxs \<Rightarrow>
              if cc_ctx_num cfg > length ctxs then None
              else
                (let now = take (cc_ctx_num cfg) ctxs in
                 Some (Some (cfg\<lparr>cc_ctxs := Some (map (free_one ev) now @ drop (cc_ctx_num cfg) ctxs)\<rparr>),
                       r\<lparr>rs_live := fold remove1 (freed ev now) (rs_live r)\<rparr>))))"

subsection \<open>The scheduler\<close>

definition ctx_kind :: "wd_ctx_internal \<Rightarrow> nat \<times> nat \<times> nat" where
  "ctx_kind c = (ci_ctx_mode c, ci_op_type c, ci_ctx_type c)"

text \<open>The parameters of the segment that starts at \<open>i\<close>; the inner loop counts how far the contexts are of one kind.\<close>

definition segment_params :: "wd_ctx_internal list \<Rightarrow> nat \<Rightarrow> nat \<Rightarrow> sched_params" where
  "segment_params ctxs i n =
    \<lparr>sp_numa_id = 0, sp_type = ci_op_type (ctxs ! i), sp_mode = ci_ctx_mode (ctxs ! i), sp_begin = i, sp_end = i + n - 1,
     sp_dev_id = 0, sp_ctx_prop = int (ci_ctx_type (ctxs ! i))\<rparr>"

definition run_length :: "wd_ctx_internal list \<Rightarrow> nat \<Rightarrow> nat" where
  "run_length ctxs i = length (takeWhile (\<lambda>c. ctx_kind c = ctx_kind (ctxs ! i)) (drop i ctxs))"

lemma run_length_pos: "i < length ctxs \<Longrightarrow> 0 < run_length ctxs i"
  by (cases "drop i ctxs") (auto simp: run_length_def hd_drop_conv_nth [symmetric])

function instance_loop ::
  "attrs_env \<Rightarrow> wd_ctx_internal list \<Rightarrow> nat \<Rightarrow> wd_sched_ctx option \<Rightarrow> (unit result \<times> wd_sched_ctx option) option" where
  "instance_loop ev ctxs i c =
    (if i < length ctxs then
       (case wd_sched_rr_instance (en_inst_oks ev i) (en_inst_lock ev i) (en_chain ev i) c
               (Some (segment_params ctxs i (run_length ctxs i))) of
          None \<Rightarrow> None
        | Some (Inl e, c) \<Rightarrow> Some (Inl e, c)
        | Some (Inr _, c) \<Rightarrow> instance_loop ev ctxs (i + run_length ctxs i) c)
     else Some (Inr (), c))"
  by pat_completeness auto
termination
proof (relation "measure (\<lambda>(ev, ctxs, i, c). length ctxs - i)")
  fix ev :: attrs_env and ctxs :: "wd_ctx_internal list" and i :: nat and c b :: "wd_sched_ctx option"
  assume "i < length ctxs"
  then show "((ev, ctxs, i + run_length ctxs i, b), ev, ctxs, i, c) \<in> measure (\<lambda>(ev, ctxs, i, c). length ctxs - i)"
    using run_length_pos [of i ctxs] by auto
qed simp

declare instance_loop.simps [simp del]

definition wd_alg_sched_instance ::
  "attrs_env \<Rightarrow> wd_ctx_config_internal option \<Rightarrow> wd_sched_ctx option \<Rightarrow> (unit result \<times> wd_sched_ctx option) option" where
  "wd_alg_sched_instance ev config c =
    (case (config, c) of
       (Some cfg, Some _) \<Rightarrow>
         (case cc_ctxs cfg of
            None \<Rightarrow> Some (Inl WD_EINVAL, c)
          | Some ctxs \<Rightarrow> if cc_ctx_num cfg > length ctxs then None else instance_loop ev (take (cc_ctx_num cfg) ctxs) 0 c)
     | _ \<Rightarrow> Some (Inl WD_EINVAL, c))"


subsection \<open>Phase 2\<close>

text \<open>What \<^verbatim>\<open>wd_sched_rr_alloc\<close> puts into the structure of the scheduler.\<close>

definition sched_of :: "nat \<Rightarrow> wd_sched" where
  "sched_of policy = \<lparr>sd_name = Some (fst (sched_table ! policy)), sd_sched_policy = policy, sd_sched_init = Some policy,
     sd_sched_uninit = True, sd_set_param = Some policy, sd_pick_next_ctx = Some policy, sd_poll_policy = Some policy,
     sd_h_sched_ctx = True\<rparr>"

definition user_ctx :: "wd_ctx_internal \<Rightarrow> wd_ctx" where
  "user_ctx c = \<lparr>wc_ctx = ci_ctx c, wc_op_type = ci_op_type c, wc_ctx_mode = ci_ctx_mode c, wc_ctx_type = 0\<rparr>"

text \<open>The state that the two phases change: attributes, the context of the scheduler, the front end, the resources.\<close>

type_synonym 's attrs_state = "wd_init_attrs \<times> sched_state option \<times> 's \<times> alg_res"

text \<open>The common end of the error paths: the scheduler is released, then the contexts.\<close>

definition drop_sched :: "'s attrs_state \<Rightarrow> 's attrs_state" where
  "drop_sched = (\<lambda>(at, st, s, r). (at\<lparr>at_sched := None\<rparr>, None, s, add_heap (- 1) r))"

definition cleanup_alloc :: "attrs_env \<Rightarrow> int \<Rightarrow> 's attrs_state \<Rightarrow> (int \<times> 's attrs_state) option" where
  "cleanup_alloc ev ret = (\<lambda>(at, st, s, r).
    case wd_free_ctxs_batch ev (at_internal at) r of
      None \<Rightarrow> None
    | Some (cfg, r) \<Rightarrow> Some (ret, at\<lparr>at_internal := cfg\<rparr>, st, s, r))"

text \<open>The last steps: the user-visible configuration and the algorithm's own initialisation.\<close>

definition ctx_init_alg ::
  "attrs_env \<Rightarrow> (wd_ctx_config \<Rightarrow> wd_sched \<Rightarrow> 's \<Rightarrow> alg_res \<Rightarrow> (int \<times> 's \<times> alg_res) option) \<Rightarrow> wd_ctx_params \<Rightarrow> nat \<Rightarrow>
    wd_ctx_internal list \<Rightarrow> wd_sched \<Rightarrow> 's attrs_state \<Rightarrow> (int \<times> 's attrs_state) option" where
  "ctx_init_alg ev alg_init ps ctx_num ctxs sched = (\<lambda>(at, st, s, r).
    if \<not> en_conf_ok ev then cleanup_alloc ev (err WD_ENOMEM) (drop_sched (at, st, s, r))
    else if \<not> en_conf_ctxs_ok ev then cleanup_alloc ev (err WD_ENOMEM) (drop_sched (at, st, s, r))
    else if ctx_num > length ctxs then None
    else
      (let uc = \<lparr>cf_ctx_num = ctx_num, cf_ctxs = Some (map user_ctx (take ctx_num ctxs)), cf_priv = 0, cf_cap = pa_cap ps\<rparr>;
           at = at\<lparr>at_ctx_config := Some uc\<rparr> in
       case alg_init uc sched s (add_heap 2 r) of
         None \<Rightarrow> None
       | Some (ret, s, r) \<Rightarrow>
           if ret = 0 then Some (0, at, st, s, r)
           else cleanup_alloc ev ret (drop_sched (at\<lparr>at_ctx_config := None\<rparr>, st, s, add_heap (- 2) r))))"

text \<open>The steps after the contexts were allocated: the scheduler, and the registration of the contexts in it.\<close>

definition ctx_init_sched ::
  "attrs_env \<Rightarrow> (wd_ctx_config \<Rightarrow> wd_sched \<Rightarrow> 's \<Rightarrow> alg_res \<Rightarrow> (int \<times> 's \<times> alg_res) option) \<Rightarrow> wd_ctx_params \<Rightarrow> nat \<Rightarrow>
    wd_ctx_config_internal \<Rightarrow> 's attrs_state \<Rightarrow> (int \<times> 's attrs_state) option" where
  "ctx_init_sched ev alg_init ps ctx_num cfg = (\<lambda>(at, st, s, r).
    let region_num = (if at_sched_type at = SCHED_POLICY_DEV then DEVICE_REGION_MAX else nat ((en_numa_max ev + 1) mod 2 ^ 16)) in
    case wd_sched_rr_alloc (en_sched_oks ev) (en_sched_lock ev) (en_numa_max ev) (u8 (at_sched_type at))
           (u8 (pa_op_type_num ps)) region_num of
      None \<Rightarrow> None
    | Some None \<Rightarrow> cleanup_alloc ev (err WD_ENOMEM) (at\<lparr>at_sched := None\<rparr>, st, s, r)
    | Some (Some c) \<Rightarrow>
        (let sched = sched_of (u8 (at_sched_type at)); at = at\<lparr>at_sched := Some sched\<rparr>; r = add_heap 1 r in
         case wd_alg_sched_instance ev (Some cfg) (Some c) of
           None \<Rightarrow> None
         | Some (_, None) \<Rightarrow> None
         | Some (Inl e, Some c) \<Rightarrow> cleanup_alloc ev (err e) (drop_sched (at, Some \<lparr>ss_ctx = c, ss_keys = Map.empty\<rparr>, s, r))
         | Some (Inr _, Some c) \<Rightarrow>
             (case cc_ctxs cfg of
                None \<Rightarrow> None
              | Some ctxs \<Rightarrow>
                  ctx_init_alg ev alg_init ps ctx_num ctxs sched (at, Some \<lparr>ss_ctx = c, ss_keys = Map.empty\<rparr>, s, r))))"

definition wd_alg_ctx_init ::
  "attrs_env \<Rightarrow> (wd_ctx_config \<Rightarrow> wd_sched \<Rightarrow> 's \<Rightarrow> alg_res \<Rightarrow> (int \<times> 's \<times> alg_res) option) \<Rightarrow> 's attrs_state
    \<Rightarrow> (int \<times> 's attrs_state) option" where
  "wd_alg_ctx_init ev alg_init = (\<lambda>(at, st, s, r).
    case (at_ctx_params at, at_internal at) of
      (Some ps, Some cfg) \<Rightarrow>
        if cc_drv_array cfg = None \<or> cc_drv_count cfg = 0 then Some (err WD_EINVAL, at, st, s, r)
        else
          (case total_ctx_num ps of
             None \<Rightarrow> None
           | Some ctx_num \<Rightarrow>
               if ctx_num = 0 then Some (err WD_EINVAL, at, st, s, r)
               else
                 (case wd_alloc_ctxs_batch ev cfg ps r of
                    None \<Rightarrow> None
                  | Some (Inl e, cfg, r) \<Rightarrow> Some (err e, at\<lparr>at_internal := Some cfg\<rparr>, st, s, r)
                  | Some (Inr _, cfg, r) \<Rightarrow> ctx_init_sched ev alg_init ps ctx_num cfg (at\<lparr>at_internal := Some cfg\<rparr>, st, s, r)))
    | _ \<Rightarrow> Some (err WD_EINVAL, at, st, s, r))"

definition wd_alg_ctx_uninit :: "attrs_env \<Rightarrow> 's attrs_state \<Rightarrow> 's attrs_state option" where
  "wd_alg_ctx_uninit ev = (\<lambda>(at, st, s, r).
    let (at, r) = (case at_ctx_config at of None \<Rightarrow> (at, r) | Some _ \<Rightarrow> (at\<lparr>at_ctx_config := None\<rparr>, add_heap (- 2) r)) in
    case (case at_internal at of
            None \<Rightarrow> Some (at, r)
          | Some cfg \<Rightarrow>
              (case (if cc_drv_array cfg \<noteq> None \<and> cc_drv_count cfg > 0 then wd_free_ctxs_batch ev (Some cfg) r else Some (Some cfg, r)) of
                 None \<Rightarrow> None
               | Some (None, r) \<Rightarrow> None
               | Some (Some cfg, r) \<Rightarrow>
                   Some (at\<lparr>at_internal := Some (cfg\<lparr>cc_ctxs := None\<rparr>)\<rparr>, if cc_ctxs cfg = None then r else add_heap (- 1) r))) of
      None \<Rightarrow> None
    | Some (at, r) \<Rightarrow> if at_sched at = None then Some (at, st, s, r) else Some (drop_sched (at, st, s, r)))"

subsection \<open>Both phases\<close>

definition wd_alg_attrs_sched_check :: "wd_init_attrs \<Rightarrow> nat \<Rightarrow> int" where
  "wd_alg_attrs_sched_check at drv_count =
    (if at_task_type at = TASK_HW \<and> at_sched_type at = SCHED_POLICY_INSTR then err WD_EINVAL
     else if at_task_type at = TASK_INSTR \<and> at_sched_type at = SCHED_POLICY_DEV then err WD_EINVAL
     else if at_sched_type at = SCHED_POLICY_NONE \<and> drv_count > 1 then err WD_EINVAL
     else 0)"

definition out_config_uninit :: "int \<Rightarrow> 's attrs_state \<Rightarrow> (int \<times> 's attrs_state) option" where
  "out_config_uninit ret = (\<lambda>(at, st, s, r).
    case wd_ctx_config_uninit (Some at) r of
      Some (Some at, r) \<Rightarrow> Some (ret, at, st, s, r)
    | _ \<Rightarrow> None)"

definition wd_alg_attrs_init ::
  "attrs_env \<Rightarrow> wd_alg_registry \<Rightarrow> (wd_ctx_config \<Rightarrow> wd_sched \<Rightarrow> 's \<Rightarrow> alg_res \<Rightarrow> (int \<times> 's \<times> alg_res) option) \<Rightarrow> 's attrs_state
    \<Rightarrow> (int \<times> 's attrs_state) option" where
  "wd_alg_attrs_init ev rg alg_init = (\<lambda>(at, st, s, r).
    if at_ctx_params at = None then Some (err WD_EINVAL, at, st, s, r)
    else
      (case wd_ctx_config_init ev rg (Some at) r of
         Some (ret, Some at, r) \<Rightarrow>
           if ret \<noteq> 0 then Some (ret, at, st, s, r)
           else
             (case at_internal at of
                None \<Rightarrow> None
              | Some cfg \<Rightarrow>
                  (let ret = wd_alg_attrs_sched_check at (cc_drv_count cfg) in
                   if ret \<noteq> 0 then out_config_uninit ret (at, st, s, r)
                   else
                     (case wd_alg_ctx_init ev alg_init (at, st, s, r) of
                        None \<Rightarrow> None
                      | Some (ret, state) \<Rightarrow> if ret \<noteq> 0 then out_config_uninit ret state else Some (0, state))))
       | _ \<Rightarrow> None))"

definition wd_alg_attrs_uninit :: "attrs_env \<Rightarrow> 's attrs_state \<Rightarrow> 's attrs_state option" where
  "wd_alg_attrs_uninit ev state =
    (case wd_alg_ctx_uninit ev state of
       None \<Rightarrow> None
     | Some (at, st, s, r) \<Rightarrow>
         (case wd_ctx_config_uninit (Some at) r of
            Some (Some at, r) \<Rightarrow> Some (at, st, s, r)
          | _ \<Rightarrow> None))"

subsection \<open>Contexts that were allocated\<close>

definition fresh_ctx :: "nat \<Rightarrow> wd_ctx_params \<Rightarrow> wd_ctx_internal \<Rightarrow> bool" where
  "fresh_ctx mode ps c \<longleftrightarrow> ci_ctx c \<noteq> 0 \<and> ci_drv c \<noteq> None \<and> ci_ctx_mode c = mode \<and> (\<exists>op < pa_op_type_num ps. ci_op_type c = u8 op) \<and>
    ci_drv_priv c = None"

lemma ctx_jobs_ops: "(op, i) \<in> set (ctx_jobs mode ps) \<Longrightarrow> op < pa_op_type_num ps"
  by (auto simp: ctx_jobs_def)

text \<open>The loops fill consecutive positions and record every context among those that are live.\<close>

lemma alloc_ctxs_spec:
  assumes "alloc_ctxs ev mode arr n jobs (pre @ replicate m zero_ctx) (length pre) r = Some (res, ctxs', idx', r')"
    and "set jobs \<subseteq> set (ctx_jobs mode ps)"
  shows "\<exists>news. ctxs' = pre @ news @ replicate (m - length news) zero_ctx \<and> length news \<le> m \<and> idx' = length pre + length news \<and>
    list_all (fresh_ctx mode ps) news \<and> rs_live r' = rev (map ci_ctx news) @ rs_live r \<and> rs_heap r' = rs_heap r"
  using assms
proof (induction jobs arbitrary: pre m r)
  case Nil
  then show ?case by (intro exI [of _ "[]"]) auto
next
  case (Cons j jobs)
  obtain op i where j: "j = (op, i)" by fastforce
  have sub: "set jobs \<subseteq> set (ctx_jobs mode ps)" and op: "op < pa_op_type_num ps" using Cons.prems(2) j ctx_jobs_ops by auto
  show ?case
  proof (cases "\<exists>d alloc. rd arr (i mod n) = Some (Some d) \<and> en_alloc_ctx ev d = Some alloc")
    case False
    then show ?thesis using Cons.IH [OF _ sub] Cons.prems(1) j by (auto split: option.splits)
  next
    case True
    then obtain d alloc where d: "rd arr (i mod n) = Some (Some d)" "en_alloc_ctx ev d = Some alloc" by blast
    obtain ret ctx where al: "alloc mode op (length pre) = (ret, ctx)" by fastforce
    show ?thesis
    proof (cases "ctx = 0 \<or> ret \<noteq> 0")
      case True
      then show ?thesis using Cons.prems(1) j d al by (intro exI [of _ "[]"]) auto
    next
      case False
      from Cons.prems(1) j d al False have m: "0 < m" by (cases "rd (pre @ replicate m zero_ctx) (length pre)") auto
      then obtain m' where m': "m = Suc m'" by (cases m) auto
      let ?c = "zero_ctx\<lparr>ci_ctx := ctx, ci_op_type := u8 op, ci_ctx_mode := mode, ci_ctx_type := ctx_type_of d, ci_drv := Some d\<rparr>"
      let ?r = "r\<lparr>rs_live := ctx # rs_live r\<rparr>"
      have run: "alloc_ctxs ev mode arr n jobs ((pre @ [?c]) @ replicate m' zero_ctx) (length (pre @ [?c])) ?r = Some (res, ctxs', idx', r')"
        using Cons.prems(1) j d al False by (simp add: m' list_update_append nth_append rd_def)
      from Cons.IH [OF run sub] obtain news where news: "ctxs' = (pre @ [?c]) @ news @ replicate (m' - length news) zero_ctx" "length news \<le> m'"
        "idx' = length (pre @ [?c]) + length news" "list_all (fresh_ctx mode ps) news" "rs_live r' = rev (map ci_ctx news) @ rs_live ?r"
        "rs_heap r' = rs_heap ?r" by blast
      have "fresh_ctx mode ps ?c" using False op by (auto simp: fresh_ctx_def zero_ctx_def)
      then show ?thesis using news by (intro exI [of _ "?c # news"]) (simp add: m')
    qed
  qed
qed

definition batch_ctxs :: "wd_ctx_params \<Rightarrow> wd_ctx_internal list \<Rightarrow> wd_ctx_internal list \<Rightarrow> bool" where
  "batch_ctxs ps ctxs news \<longleftrightarrow> (\<exists>syncs asyncs. news = syncs @ asyncs \<and> list_all (fresh_ctx CTX_MODE_SYNC ps) syncs \<and>
    list_all (fresh_ctx CTX_MODE_ASYNC ps) asyncs \<and> ctxs = news @ replicate (length ctxs - length news) zero_ctx)"

lemma alloc_batch_spec:
  assumes "wd_alloc_ctxs_batch ev cfg ps r = Some (res, cfg', r')" and "cc_ctxs cfg = Some (replicate n zero_ctx)"
  shows "\<exists>ctxs news. cfg' = cfg\<lparr>cc_ctxs := Some ctxs\<rparr> \<and> length ctxs = n \<and> batch_ctxs ps ctxs news \<and>
    rs_live r' = rev (map ci_ctx news) @ rs_live r \<and> rs_heap r' = rs_heap r"
proof -
  obtain arr where arr: "cc_drv_array cfg = Some arr"
    using assms by (auto simp: wd_alloc_ctxs_batch_def wd_alloc_ctxs_by_mode_def split: option.splits)
  obtain r1 x1 i1 res1 where one: "alloc_ctxs ev CTX_MODE_SYNC arr (cc_drv_count cfg) (ctx_jobs CTX_MODE_SYNC ps) (replicate n zero_ctx) 0 r =
      Some (res1, x1, i1, r1)"
    using assms arr by (auto simp: wd_alloc_ctxs_batch_def wd_alloc_ctxs_by_mode_def split: option.splits)
  from alloc_ctxs_spec [of ev CTX_MODE_SYNC arr _ _ "[]" n r, simplified, OF one subset_refl] obtain sy where
    sy: "x1 = sy @ replicate (n - length sy) zero_ctx" "length sy \<le> n" "i1 = length sy" "list_all (fresh_ctx CTX_MODE_SYNC ps) sy"
    "rs_live r1 = rev (map ci_ctx sy) @ rs_live r" "rs_heap r1 = rs_heap r" by blast
  show ?thesis
  proof (cases res1)
    case (Inl e)
    then have eq: "cfg' = cfg\<lparr>cc_ctxs := Some x1\<rparr>" "r' = r1" using assms arr one
      by (auto simp: wd_alloc_ctxs_batch_def wd_alloc_ctxs_by_mode_def)
    have "batch_ctxs ps x1 sy" using sy unfolding batch_ctxs_def by (intro exI [of _ sy] exI [of _ "[]"]) simp
    then show ?thesis using eq sy by auto
  next
    case (Inr u)
    obtain x2 i2 where two: "alloc_ctxs ev CTX_MODE_ASYNC arr (cc_drv_count cfg) (ctx_jobs CTX_MODE_ASYNC ps) x1 i1 r1 = Some (res, x2, i2, r')"
      "cfg' = cfg\<lparr>cc_ctxs := Some x2\<rparr>"
      using assms arr one Inr by (auto simp: wd_alloc_ctxs_batch_def wd_alloc_ctxs_by_mode_def split: option.splits)
    from alloc_ctxs_spec [OF two(1) [unfolded sy(1,3)] subset_refl] obtain as where
      as: "x2 = sy @ as @ replicate (n - length sy - length as) zero_ctx" "length as \<le> n - length sy" "list_all (fresh_ctx CTX_MODE_ASYNC ps) as"
      "rs_live r' = rev (map ci_ctx as) @ rs_live r1" "rs_heap r' = rs_heap r1" by blast
    have "batch_ctxs ps x2 (sy @ as)" using sy as unfolding batch_ctxs_def by (intro exI [of _ sy] exI [of _ as]) simp
    then show ?thesis using two(2) sy as by (intro exI [of _ x2] exI [of _ "sy @ as"]) simp
  qed
qed

text \<open>Some driver refuses a context that it is asked for.\<close>

definition ctx_refused :: "attrs_env \<Rightarrow> bool" where
  "ctx_refused ev \<longleftrightarrow> (\<exists>d alloc mode op idx. en_alloc_ctx ev d = Some alloc \<and> (snd (alloc mode op idx) = 0 \<or> fst (alloc mode op idx) \<noteq> 0))"

lemma alloc_batch_error:
  assumes "wd_alloc_ctxs_batch ev cfg ps r = Some (Inl e, cfg', r')"
  shows "e = WD_ENOMEM" "ctx_refused ev"
proof -
  have "alloc_ctxs ev mode arr n jobs ctxs idx r = Some (Inl e, x) \<Longrightarrow> e = WD_ENOMEM" for mode arr n jobs ctxs idx r x
    by (induction jobs arbitrary: ctxs idx r) (auto split: option.splits if_splits prod.splits)
  then show "e = WD_ENOMEM"
    using assms by (auto simp: wd_alloc_ctxs_batch_def wd_alloc_ctxs_by_mode_def split: option.splits sum.splits)
  have "alloc_ctxs ev mode arr n jobs ctxs idx r = Some (Inl e, x) \<Longrightarrow> ctx_refused ev" for mode arr n jobs ctxs idx r x
  proof (induction jobs arbitrary: ctxs idx r)
    case (Cons j jobs)
    obtain op i where j: "j = (op, i)" by fastforce
    show ?case
    proof (rule ccontr)
      assume "\<not> ctx_refused ev"
      then have served: "snd (alloc mode op idx) \<noteq> 0 \<and> fst (alloc mode op idx) = 0" if "en_alloc_ctx ev d = Some alloc" for d alloc
        using that unfolding ctx_refused_def by metis
      then show False
        using Cons.prems Cons.IH \<open>\<not> ctx_refused ev\<close> unfolding j
        by (auto simp: Let_def case_prod_beta split: option.splits if_splits dest: served)
    qed
  qed simp
  note jobs = this
  have "wd_alloc_ctxs_by_mode ev cfg ps mode idx r = Some (Inl e, x) \<Longrightarrow> ctx_refused ev" for mode cfg idx r x
    using jobs by (auto simp: wd_alloc_ctxs_by_mode_def split: option.splits)
  then show "ctx_refused ev" using assms by (auto simp: wd_alloc_ctxs_batch_def split: option.splits sum.splits)
qed

text \<open>The contexts taken before a refusal stay open: the error is returned before anything is released.\<close>

lemma refused_keeps_ctxs:
  assumes "wd_alloc_ctxs_batch ev cfg ps r = Some (Inl e, cfg', r1)" and "at_ctx_params at = Some ps" "at_internal at = Some cfg"
    and "cc_drv_array cfg \<noteq> None" "cc_drv_count cfg \<noteq> 0" "total_ctx_num ps = Some n" "n \<noteq> 0"
  shows "wd_alg_ctx_init ev alg_init (at, st, s, r) = Some (err e, at\<lparr>at_internal := Some cfg'\<rparr>, st, s, r1)"
  using assms by (auto simp: wd_alg_ctx_init_def)

subsection \<open>Giving them back\<close>

lemma remove1_all:
  assumes "mset hs = mset xs"
  shows "fold remove1 hs (xs @ ys) = ys"
  using assms
proof (induction hs arbitrary: xs)
  case (Cons h hs)
  have "h \<in> set xs" using Cons.prems by (metis list.set_intros(1) mset_eq_setD)
  then have "remove1 h (xs @ ys) = remove1 h xs @ ys" by (simp add: remove1_append)
  moreover have "mset hs = mset (remove1 h xs)" using Cons.prems by (metis add_mset_remove_trivial mset.simps(2) mset_remove1)
  ultimately show ?case using Cons.IH by simp
qed simp

lemma free_batch_spec:
  assumes "batch_ctxs ps ctxs news" and "cc_ctxs cfg = Some ctxs" and "cc_ctx_num cfg = length ctxs" and "\<And>d. en_free_ctx ev d"
    and "rs_live r = rev (map ci_ctx news) @ live"
  shows "wd_free_ctxs_batch ev (Some cfg) r = Some (Some (cfg\<lparr>cc_ctxs := Some (map (free_one ev) ctxs)\<rparr>), r\<lparr>rs_live := live\<rparr>)"
proof -
  obtain k where ctxs: "ctxs = news @ replicate k zero_ctx" and fr: "\<forall>c \<in> set news. ci_ctx c \<noteq> 0 \<and> ci_drv c \<noteq> None"
    using assms(1) by (fastforce simp: batch_ctxs_def list_all_iff fresh_ctx_def)
  have "free_one ev c \<noteq> c" if "c \<in> set news" for c
  proof -
    have "ci_drv c \<noteq> None" using fr that by blast
    then obtain d where d: "ci_drv c = Some d" by blast
    have "ci_ctx (free_one ev c) = 0" using fr that d assms(4) by (simp add: free_one_def)
    then show ?thesis using fr that by metis
  qed
  moreover have "free_one ev zero_ctx = zero_ctx" by (simp add: free_one_def zero_ctx_def)
  ultimately have "filter (\<lambda>c. free_one ev c \<noteq> c) ctxs = news" unfolding ctxs by simp
  then have "freed ev ctxs = map ci_ctx news" by (simp add: freed_def)
  moreover have "fold remove1 (map ci_ctx news) (rs_live r) = live" unfolding assms(5) by (rule remove1_all) simp
  ultimately show ?thesis using assms(2,3) by (simp add: wd_free_ctxs_batch_def)
qed

subsection \<open>The two phases\<close>

definition phase1_config :: "wd_alg_driver list \<Rightarrow> nat \<Rightarrow> wd_ctx_config_internal" where
  "phase1_config ds n = zero_config\<lparr>cc_ctxs := Some (replicate n zero_ctx), cc_drv_array := Some (map Some ds),
     cc_drv_count := length ds, cc_ctx_num := n\<rparr>"

lemma config_init_cases:
  assumes "wd_ctx_config_init ev rg (Some at) r = Some (ret, at', r')"
  obtains "ret \<noteq> 0" "at' = Some at" "r' = r"
  | ps ds n where "ret = 0" "at_ctx_params at = Some ps" "total_ctx_num ps = Some n" "0 < n" "ds \<noteq> []"
      "at' = Some (at\<lparr>at_internal := Some (phase1_config ds n)\<rparr>)" "r' = add_heap 3 r"
proof (cases "ret = 0")
  case True
  then obtain ps ds n where "at_ctx_params at = Some ps" "total_ctx_num ps = Some n" "n \<noteq> 0" "ds \<noteq> []"
      "at' = Some (at\<lparr>at_internal := Some (phase1_config ds n)\<rparr>)" "r' = add_heap 3 r"
    using assms by (auto simp: wd_ctx_config_init_def phase1_config_def wd_get_drv_array_def Let_def add.assoc
        split: option.splits if_splits sum.splits)
  then show ?thesis using True that(2) by blast
next
  case False
  then have "at' = Some at \<and> r' = r"
    using assms by (auto simp: wd_ctx_config_init_def wd_put_drv_array_def Let_def split: option.splits if_splits sum.splits)
  then show ?thesis using False that(1) by blast
qed

lemma config_uninit_phase1:
  assumes "at_internal at = Some ((phase1_config ds n)\<lparr>cc_ctxs := x\<rparr>)"
  shows "wd_ctx_config_uninit (Some at) r = Some (Some (at\<lparr>at_internal := None\<rparr>), add_heap (if x = None then - 2 else - 3) r)"
  using assms by (simp add: wd_ctx_config_uninit_def wd_put_drv_array_def phase1_config_def)

lemma cleanup_alloc_spec:
  assumes "batch_ctxs ps ctxs news" and "length ctxs = n" and "\<And>d. en_free_ctx ev d"
    and "at_internal at = Some ((phase1_config ds n)\<lparr>cc_ctxs := Some ctxs\<rparr>)" and "rs_live r = rev (map ci_ctx news) @ live"
  shows "cleanup_alloc ev ret (at, st, s, r) =
    Some (ret, at\<lparr>at_internal := Some ((phase1_config ds n)\<lparr>cc_ctxs := Some (map (free_one ev) ctxs)\<rparr>)\<rparr>, st, s, r\<lparr>rs_live := live\<rparr>)"
proof -
  let ?cfg = "(phase1_config ds n)\<lparr>cc_ctxs := Some ctxs\<rparr>"
  have "cc_ctxs ?cfg = Some ctxs" "cc_ctx_num ?cfg = length ctxs" using assms(2) by (simp_all add: phase1_config_def)
  from free_batch_spec [OF assms(1) this assms(3,5)] show ?thesis using assms(4) by (simp add: cleanup_alloc_def)
qed

text \<open>What the front end's initialisation may do to the resources: it keeps \<open>keep\<close> objects when it succeeds and none when it fails.\<close>

definition init_contract :: "(wd_ctx_config \<Rightarrow> wd_sched \<Rightarrow> 's \<Rightarrow> alg_res \<Rightarrow> (int \<times> 's \<times> alg_res) option) \<Rightarrow> int \<Rightarrow> bool" where
  "init_contract f keep \<longleftrightarrow> (\<forall>uc sched s r ret s' r'. f uc sched s r = Some (ret, s', r') \<longrightarrow>
    rs_live r' = rs_live r \<and> rs_heap r' = rs_heap r + (if ret = 0 then keep else 0))"

definition ctx_failed :: "attrs_env \<Rightarrow> alg_res \<Rightarrow> wd_ctx_config_internal \<Rightarrow> int \<Rightarrow> wd_init_attrs \<Rightarrow> alg_res \<Rightarrow> bool" where
  "ctx_failed ev r cfg ret at' r' \<longleftrightarrow> (\<exists>x. at_internal at' = Some (cfg\<lparr>cc_ctxs := Some x\<rparr>)) \<and> at_sched at' = None \<and>
    at_ctx_config at' = None \<and> rs_heap r' = rs_heap r \<and>
    (rs_live r' = rs_live r \<or> ctx_refused ev)"

definition ctx_ready ::
  "attrs_env \<Rightarrow> wd_ctx_params \<Rightarrow> wd_ctx_internal list \<Rightarrow> wd_init_attrs \<Rightarrow> alg_res \<Rightarrow> int \<Rightarrow> wd_init_attrs \<Rightarrow> sched_state option \<Rightarrow> alg_res \<Rightarrow> bool" where
  "ctx_ready ev ps ctxs at r keep at' st' r' \<longleftrightarrow> (\<exists>c0 c uc rn.
     wd_sched_rr_alloc (en_sched_oks ev) (en_sched_lock ev) (en_numa_max ev) (u8 (at_sched_type at)) (u8 (pa_op_type_num ps)) rn = Some (Some c0) \<and>
     instance_loop ev ctxs 0 (Some c0) = Some (Inr (), Some c) \<and> st' = Some \<lparr>ss_ctx = c, ss_keys = Map.empty\<rparr> \<and>
     at' = at\<lparr>at_sched := Some (sched_of (u8 (at_sched_type at))), at_ctx_config := Some uc\<rparr> \<and> cf_ctxs uc = Some (map user_ctx ctxs) \<and>
     rs_heap r' = rs_heap r + 3 + keep \<and> rs_live r' = rs_live r)"

text \<open>The error paths, for a batch of contexts that was allocated before.\<close>

lemma drop_cleanup:
  assumes batch: "batch_ctxs ps ctxs news" "length ctxs = n" and free: "\<And>d. en_free_ctx ev d"
    and at: "at_internal at = Some ((phase1_config ds n)\<lparr>cc_ctxs := Some ctxs\<rparr>)" and live: "rs_live r = rev (map ci_ctx news) @ live"
  shows "cleanup_alloc ev e (drop_sched (at, st, s, r)) =
    Some (e, at\<lparr>at_sched := None, at_internal := Some ((phase1_config ds n)\<lparr>cc_ctxs := Some (map (free_one ev) ctxs)\<rparr>)\<rparr>, None, s,
          (add_heap (- 1) r)\<lparr>rs_live := live\<rparr>)"
proof -
  have "at_internal (at\<lparr>at_sched := None\<rparr>) = Some ((phase1_config ds n)\<lparr>cc_ctxs := Some ctxs\<rparr>)"
    "rs_live (add_heap (- 1) r) = rev (map ci_ctx news) @ live" using at live by simp_all
  from cleanup_alloc_spec [OF batch free this] show ?thesis by (simp add: drop_sched_def)
qed

lemma ctx_init_alg_cases:
  assumes run: "ctx_init_alg ev alg_init ps n ctxs sched (at, st, s, r) = Some (ret, at', st', s', r')"
    and batch: "batch_ctxs ps ctxs news" "length ctxs = n"
    and at: "at_internal at = Some ((phase1_config ds n)\<lparr>cc_ctxs := Some ctxs\<rparr>)" "at_ctx_config at = None"
    and live: "rs_live r = rev (map ci_ctx news) @ live" and free: "\<And>d. en_free_ctx ev d" and contract: "init_contract alg_init keep"
  shows "(ret \<noteq> 0 \<and> st' = None \<and> at_sched at' = None \<and> at_ctx_config at' = None \<and>
      at_internal at' = Some ((phase1_config ds n)\<lparr>cc_ctxs := Some (map (free_one ev) ctxs)\<rparr>) \<and> rs_heap r' = rs_heap r - 1 \<and> rs_live r' = live) \<or>
    (ret = 0 \<and> st' = st \<and> (\<exists>uc. at' = at\<lparr>at_ctx_config := Some uc\<rparr> \<and> cf_ctxs uc = Some (map user_ctx ctxs)) \<and>
      rs_heap r' = rs_heap r + 2 + keep \<and> rs_live r' = rs_live r)"
proof (cases "en_conf_ok ev \<and> en_conf_ctxs_ok ev")
  case False
  have "cleanup_alloc ev (err WD_ENOMEM) (drop_sched (at, st, s, r)) = Some (ret, at', st', s', r')"
    using run False by (auto simp: ctx_init_alg_def split: if_splits)
  then show ?thesis unfolding drop_cleanup [OF batch free at(1) live] using at(2) by auto
next
  case True
  let ?uc = "\<lparr>cf_ctx_num = n, cf_ctxs = Some (map user_ctx ctxs), cf_priv = 0, cf_cap = pa_cap ps\<rparr>"
  obtain e q r2 where ai: "alg_init ?uc sched s (add_heap 2 r) = Some (e, q, r2)"
    using run True batch(2) by (auto simp: ctx_init_alg_def Let_def split: option.splits)
  have r2: "rs_live r2 = rs_live r" "rs_heap r2 = rs_heap r + 2 + (if e = 0 then keep else 0)"
    using contract ai unfolding init_contract_def by fastforce+
  show ?thesis
  proof (cases "e = 0")
    case True
    then show ?thesis using run \<open>en_conf_ok ev \<and> en_conf_ctxs_ok ev\<close> batch(2) ai r2 by (auto simp: ctx_init_alg_def Let_def)
  next
    case False
    have l2: "rs_live (add_heap (- 2) r2) = rev (map ci_ctx news) @ live"
      and at2: "at_internal (at\<lparr>at_ctx_config := None\<rparr>) = Some ((phase1_config ds n)\<lparr>cc_ctxs := Some ctxs\<rparr>)" using r2 live at by simp_all
    have "cleanup_alloc ev e (drop_sched (at\<lparr>at_ctx_config := None\<rparr>, st, q, add_heap (- 2) r2)) = Some (ret, at', st', s', r')"
      using run True batch(2) ai False by (simp add: ctx_init_alg_def Let_def)
    then show ?thesis unfolding drop_cleanup [OF batch free at2 l2] using False r2 by auto
  qed
qed

lemma ctx_init_sched_cases:
  assumes run: "ctx_init_sched ev alg_init ps n cfg1 (at, None, s, r) = Some (ret, at', st', s', r')"
    and cfg1: "cfg1 = (phase1_config ds n)\<lparr>cc_ctxs := Some ctxs\<rparr>" and batch: "batch_ctxs ps ctxs news" "length ctxs = n"
    and at: "at_internal at = Some cfg1" "at_ctx_config at = None" and live: "rs_live r = rev (map ci_ctx news) @ live"
    and free: "\<And>d. en_free_ctx ev d" and contract: "init_contract alg_init keep"
  shows "(ret \<noteq> 0 \<and> st' = None \<and> ctx_failed ev (r\<lparr>rs_live := live\<rparr>) (phase1_config ds n) ret at' r') \<or>
    (ret = 0 \<and> ctx_ready ev ps ctxs at r keep at' st' r')"
proof -
  define rn where "rn = (if at_sched_type at = SCHED_POLICY_DEV then DEVICE_REGION_MAX else nat ((en_numa_max ev + 1) mod 2 ^ 16))"
  let ?sa = "wd_sched_rr_alloc (en_sched_oks ev) (en_sched_lock ev) (en_numa_max ev) (u8 (at_sched_type at)) (u8 (pa_op_type_num ps)) rn"
  note run1 = run [unfolded ctx_init_sched_def prod.case Let_def, folded rn_def]
  obtain oc where oc: "?sa = Some oc" using run1 by (cases ?sa) simp_all
  show ?thesis
  proof (cases oc)
    case None
    have at2: "at_internal (at\<lparr>at_sched := None\<rparr>) = Some ((phase1_config ds n)\<lparr>cc_ctxs := Some ctxs\<rparr>)" using at cfg1 by simp
    have "cleanup_alloc ev (err WD_ENOMEM) (at\<lparr>at_sched := None\<rparr>, None, s, r) = Some (ret, at', st', s', r')" using run1 oc None by simp
    then show ?thesis unfolding cleanup_alloc_spec [OF batch free at2 live] using at(2) by (auto simp: ctx_failed_def)
  next
    case (Some c0)
    let ?at = "at\<lparr>at_sched := Some (sched_of (u8 (at_sched_type at)))\<rparr>"
    have at2: "at_internal ?at = Some ((phase1_config ds n)\<lparr>cc_ctxs := Some ctxs\<rparr>)" "at_ctx_config ?at = None" using at cfg1 by simp_all
    have l2: "rs_live (add_heap 1 r) = rev (map ci_ctx news) @ live" using live by simp
    have si: "wd_alg_sched_instance ev (Some cfg1) (Some c0) = instance_loop ev ctxs 0 (Some c0)"
      using batch(2) by (simp add: wd_alg_sched_instance_def cfg1 phase1_config_def)
    have cc: "cc_ctxs cfg1 = Some ctxs" by (simp add: cfg1)
    from run1 oc Some si obtain res c where il: "instance_loop ev ctxs 0 (Some c0) = Some (res, Some c)"
      by (auto split: option.splits sum.splits)
    show ?thesis
    proof (cases res)
      case (Inl e)
      have "cleanup_alloc ev (err e) (drop_sched (?at, Some \<lparr>ss_ctx = c, ss_keys = Map.empty\<rparr>, s, add_heap 1 r)) = Some (ret, at', st', s', r')"
        using run1 oc Some si il Inl by simp
      then show ?thesis unfolding drop_cleanup [OF batch free at2(1) l2] using at2(2) errno_pos [of e] by (auto simp: ctx_failed_def)
    next
      case (Inr u)
      have "ctx_init_alg ev alg_init ps n ctxs (sched_of (u8 (at_sched_type at))) (?at, Some \<lparr>ss_ctx = c, ss_keys = Map.empty\<rparr>, s, add_heap 1 r) =
          Some (ret, at', st', s', r')" using run1 oc Some si il Inr cc by simp
      from ctx_init_alg_cases [OF this batch at2 l2 free contract] show ?thesis
      proof
        assume "ret = 0 \<and> st' = Some \<lparr>ss_ctx = c, ss_keys = Map.empty\<rparr> \<and>
          (\<exists>uc. at' = ?at\<lparr>at_ctx_config := Some uc\<rparr> \<and> cf_ctxs uc = Some (map user_ctx ctxs)) \<and>
          rs_heap r' = rs_heap (add_heap 1 r) + 2 + keep \<and> rs_live r' = rs_live (add_heap 1 r)"
        then have "ret = 0 \<and> ctx_ready ev ps ctxs at r keep at' st' r'" using oc Some il Inr unfolding ctx_ready_def by auto
        then show ?thesis ..
      qed (auto simp: ctx_failed_def)
    qed
  qed
qed


lemma ctx_init_cases:
  assumes run: "wd_alg_ctx_init ev alg_init (at, None, s, r) = Some (ret, at', st', s', r')"
    and at: "at_ctx_params at = Some ps" "total_ctx_num ps = Some n" "at_internal at = Some (phase1_config ds n)" "0 < n" "ds \<noteq> []"
      "at_sched at = None" "at_ctx_config at = None"
    and free: "\<And>d. en_free_ctx ev d" and contract: "init_contract alg_init keep"
  shows "(ret \<noteq> 0 \<and> st' = None \<and> ctx_failed ev r (phase1_config ds n) ret at' r') \<or>
    (ret = 0 \<and> (\<exists>ctxs news r1. length ctxs = n \<and> batch_ctxs ps ctxs news \<and> rs_heap r1 = rs_heap r \<and>
       rs_live r1 = rev (map ci_ctx news) @ rs_live r \<and>
       ctx_ready ev ps ctxs (at\<lparr>at_internal := Some ((phase1_config ds n)\<lparr>cc_ctxs := Some ctxs\<rparr>)\<rparr>) r1 keep at' st' r'))"
proof -
  let ?cfg = "phase1_config ds n"
  have p: "cc_drv_array ?cfg \<noteq> None" "cc_drv_count ?cfg \<noteq> 0" "cc_ctxs ?cfg = Some (replicate n zero_ctx)" "cc_ctx_num ?cfg = n"
    using at(5) by (simp_all add: phase1_config_def)
  obtain res cfg1 r1 where batch: "wd_alloc_ctxs_batch ev ?cfg ps r = Some (res, cfg1, r1)"
    using run at p by (auto simp: wd_alg_ctx_init_def split: option.splits)
  from alloc_batch_spec [OF batch p(3)] obtain ctxs news where
    ctxs: "cfg1 = ?cfg\<lparr>cc_ctxs := Some ctxs\<rparr>" "length ctxs = n" "batch_ctxs ps ctxs news"
    "rs_live r1 = rev (map ci_ctx news) @ rs_live r" "rs_heap r1 = rs_heap r" by blast
  show ?thesis
  proof (cases res)
    case (Inl e)
    have "ret = err e" "at' = at\<lparr>at_internal := Some cfg1\<rparr>" "st' = None" "r' = r1"
      using run at p batch Inl by (auto simp: wd_alg_ctx_init_def)
    then show ?thesis using ctxs at alloc_batch_error [OF batch [unfolded Inl]] by (auto simp: ctx_failed_def)
  next
    case (Inr u)
    have run2: "ctx_init_sched ev alg_init ps n cfg1 (at\<lparr>at_internal := Some cfg1\<rparr>, None, s, r1) = Some (ret, at', st', s', r')"
      using run at p batch Inr by (auto simp: wd_alg_ctx_init_def)
    have at2: "at_internal (at\<lparr>at_internal := Some cfg1\<rparr>) = Some cfg1" "at_ctx_config (at\<lparr>at_internal := Some cfg1\<rparr>) = None"
      using at by simp_all
    from ctx_init_sched_cases [OF run2 ctxs(1,3,2) at2 ctxs(4) free contract] show ?thesis
    proof
      assume "ret \<noteq> 0 \<and> st' = None \<and> ctx_failed ev (r1\<lparr>rs_live := rs_live r\<rparr>) (phase1_config ds n) ret at' r'"
      then show ?thesis using ctxs(5) by (auto simp: ctx_failed_def)
    next
      assume "ret = 0 \<and> ctx_ready ev ps ctxs (at\<lparr>at_internal := Some cfg1\<rparr>) r1 keep at' st' r'"
      then show ?thesis using ctxs by blast
    qed
  qed
qed

lemma attrs_uninit_ready:
  assumes ready: "ctx_ready ev ps ctxs at1 r1 keep at' st' r'" and at1: "at1 = at\<lparr>at_internal := Some ((phase1_config ds n)\<lparr>cc_ctxs := Some ctxs\<rparr>)\<rparr>"
    and batch: "batch_ctxs ps ctxs news" "length ctxs = n" and live: "rs_live r1 = rev (map ci_ctx news) @ live"
    and ds: "ds \<noteq> []" and free: "\<And>d. en_free_ctx ev d"
  shows "\<exists>at2 r2. wd_alg_attrs_uninit ev (at', st', s, r') = Some (at2, None, s, r2) \<and> at_internal at2 = None \<and> at_sched at2 = None \<and>
    at_ctx_config at2 = None \<and> rs_heap r2 = rs_heap r1 - 3 + keep \<and> rs_live r2 = live"
proof -
  let ?cfg = "(phase1_config ds n)\<lparr>cc_ctxs := Some ctxs\<rparr>"
  from ready obtain uc sc where at': "at' = at1\<lparr>at_sched := Some sc, at_ctx_config := Some uc\<rparr>"
    and r': "rs_heap r' = rs_heap r1 + 3 + keep" "rs_live r' = rs_live r1" by (auto simp: ctx_ready_def)
  have c: "cc_ctxs ?cfg = Some ctxs" "cc_ctx_num ?cfg = length ctxs" using batch(2) by (simp_all add: phase1_config_def)
  have l: "rs_live (add_heap (- 2) r') = rev (map ci_ctx news) @ live" using live r' by simp
  note fb = free_batch_spec [OF batch(1) c free l]
  let ?at = "at'\<lparr>at_ctx_config := None, at_internal := Some ((phase1_config ds n)\<lparr>cc_ctxs := None\<rparr>), at_sched := None\<rparr>"
  let ?r = "(add_heap (- 4) r')\<lparr>rs_live := live\<rparr>"
  have cfg2: "?cfg\<lparr>cc_ctxs := Some x, cc_ctxs := None\<rparr> = (phase1_config ds n)\<lparr>cc_ctxs := None\<rparr>" for x by simp
  have d: "cc_drv_array ?cfg \<noteq> None \<and> 0 < cc_drv_count ?cfg" using ds by (simp add: phase1_config_def)
  have "wd_alg_ctx_uninit ev (at', st', s, r') = Some (?at, None, s, ?r)"
    unfolding wd_alg_ctx_uninit_def using fb d by (simp add: at' at1 drop_sched_def cfg2 Let_def)
  moreover have "wd_ctx_config_uninit (Some ?at) ?r = Some (Some (?at\<lparr>at_internal := None\<rparr>), add_heap (- 2) ?r)"
    using config_uninit_phase1 [of ?at None ds n ?r] by simp
  ultimately have un: "wd_alg_attrs_uninit ev (at', st', s, r') = Some (?at\<lparr>at_internal := None\<rparr>, None, s, add_heap (- 2) ?r)"
    by (simp add: wd_alg_attrs_uninit_def)
  show ?thesis by (intro exI conjI, rule un) (simp_all add: r')
qed

lemma config_uninit_out:
  assumes "at_internal at = Some ((phase1_config ds n)\<lparr>cc_ctxs := Some x\<rparr>)"
  shows "out_config_uninit e (at, t, s, r) = Some (e, at\<lparr>at_internal := None\<rparr>, t, s, add_heap (- 3) r)"
  using config_uninit_phase1 [OF assms, of r] by (simp add: out_config_uninit_def)

text \<open>Phase 2 followed by the end of the set-up, when phase 1 was run before.\<close>

lemma phase2_lifecycle:
  assumes cx: "wd_alg_ctx_init ev alg_init (at1, None, s, r1) = Some (e, at2, t2, s2, r2)"
    and rest: "(if e \<noteq> 0 then out_config_uninit e (at2, t2, s2, r2) else Some (0, at2, t2, s2, r2)) = Some (ret, at', st', s', r')"
    and at: "at_ctx_params at1 = Some ps" "total_ctx_num ps = Some n" "at_internal at1 = Some (phase1_config ds n)" "0 < n" "ds \<noteq> []"
      "at_sched at1 = None" "at_ctx_config at1 = None"
    and free: "\<And>d. en_free_ctx ev d" and contract: "init_contract alg_init keep"
  shows "if ret \<noteq> 0 then at_internal at' = None \<and> at_sched at' = None \<and> at_ctx_config at' = None \<and> st' = None \<and> rs_heap r' = rs_heap r1 - 3 \<and>
      (rs_live r' = rs_live r1 \<or> ctx_refused ev)
    else \<exists>at2 r2. wd_alg_attrs_uninit ev (at', st', s', r') = Some (at2, None, s', r2) \<and> at_internal at2 = None \<and> at_sched at2 = None \<and>
      at_ctx_config at2 = None \<and> rs_heap r2 = rs_heap r1 - 3 + keep \<and> rs_live r2 = rs_live r1"
  using ctx_init_cases [OF cx at free contract]
proof
  assume fail: "e \<noteq> 0 \<and> t2 = None \<and> ctx_failed ev r1 (phase1_config ds n) e at2 r2"
  then obtain x where "at_internal at2 = Some ((phase1_config ds n)\<lparr>cc_ctxs := Some x\<rparr>)" by (auto simp: ctx_failed_def)
  with rest fail have "ret = e \<and> at' = at2\<lparr>at_internal := None\<rparr> \<and> st' = None \<and> r' = add_heap (- 3) r2" by (simp add: config_uninit_out)
  then show ?thesis using fail by (auto simp: ctx_failed_def)
next
  assume "e = 0 \<and> (\<exists>ctxs news r4. length ctxs = n \<and> batch_ctxs ps ctxs news \<and> rs_heap r4 = rs_heap r1 \<and>
    rs_live r4 = rev (map ci_ctx news) @ rs_live r1 \<and>
    ctx_ready ev ps ctxs (at1\<lparr>at_internal := Some ((phase1_config ds n)\<lparr>cc_ctxs := Some ctxs\<rparr>)\<rparr>) r4 keep at2 t2 r2)"
  then obtain ctxs news r4 where ok: "e = 0" "length ctxs = n" "batch_ctxs ps ctxs news" "rs_heap r4 = rs_heap r1"
    "rs_live r4 = rev (map ci_ctx news) @ rs_live r1"
    "ctx_ready ev ps ctxs (at1\<lparr>at_internal := Some ((phase1_config ds n)\<lparr>cc_ctxs := Some ctxs\<rparr>)\<rparr>) r4 keep at2 t2 r2" by blast
  from attrs_uninit_ready [OF ok(6) refl ok(3,2,5) at(5) free, of s2] show ?thesis using rest ok by auto
qed


subsection \<open>Every context is scheduled in the domain of its kind\<close>

text \<open>The domain in which the code files a context, and the one of its mode, operation type and property.\<close>

definition ctx_key :: "wd_ctx_internal \<Rightarrow> domain_key" where
  "ctx_key c = (0, ci_ctx_mode c, ci_op_type c, ci_ctx_type c)"

definition filed_ctx_key :: "wd_ctx_internal \<Rightarrow> domain_key" where
  "filed_ctx_key c = (0, ci_ctx_mode c, ci_op_type c, if int (ci_ctx_type c) > UADK_ALG_SOFT then 0 else ci_ctx_type c)"

lemma segment_key: "filed_key (segment_params ctxs i n) = filed_ctx_key (ctxs ! i)"
  by (simp add: filed_key_def segment_params_def filed_ctx_key_def UADK_ALG_HW_def)

lemma run_length_bound: "i \<le> length ctxs \<Longrightarrow> i + run_length ctxs i \<le> length ctxs"
  using length_takeWhile_le [of _ "drop i ctxs"] unfolding run_length_def by (metis add.commute le_diff_conv2 length_drop)

lemma run_length_kind:
  assumes "i \<le> j" and "j < i + run_length ctxs i" and "i \<le> length ctxs"
  shows "filed_ctx_key (ctxs ! j) = filed_ctx_key (ctxs ! i)"
proof -
  let ?t = "takeWhile (\<lambda>c. ctx_kind c = ctx_kind (ctxs ! i)) (drop i ctxs)"
  have j: "j - i < length ?t" using assms by (simp add: run_length_def)
  then have "?t ! (j - i) \<in> set ?t" by (rule nth_mem)
  moreover have "?t ! (j - i) = ctxs ! j" using j assms by (simp add: takeWhile_nth)
  ultimately have "ctx_kind (ctxs ! j) = ctx_kind (ctxs ! i)" using set_takeWhileD by metis
  then show ?thesis by (simp add: ctx_kind_def filed_ctx_key_def)
qed

lemma filter_run:
  assumes "i < length ctxs"
  shows "filter (\<lambda>j. filed_ctx_key (ctxs ! j) = k) [i ..< length ctxs] =
    (if k = filed_ctx_key (ctxs ! i) then [i ..< i + run_length ctxs i] else []) @
    filter (\<lambda>j. filed_ctx_key (ctxs ! j) = k) [i + run_length ctxs i ..< length ctxs]"
proof -
  let ?n = "run_length ctxs i"
  have "i + ?n \<le> length ctxs" using assms by (intro run_length_bound) simp
  then have split: "[i ..< length ctxs] = [i ..< i + ?n] @ [i + ?n ..< length ctxs]"
    using upt_add_eq_append [of i "i + ?n" "length ctxs - (i + ?n)"] by simp
  have all: "filed_ctx_key (ctxs ! j) = filed_ctx_key (ctxs ! i)" if "j \<in> set [i ..< i + ?n]" for j
    using run_length_kind [of i j ctxs] that assms by simp
  have "filter (\<lambda>j. filed_ctx_key (ctxs ! j) = k) [i ..< i + ?n] = (if k = filed_ctx_key (ctxs ! i) then [i ..< i + ?n] else [])"
  proof (cases "k = filed_ctx_key (ctxs ! i)")
    case True
    have "filter (\<lambda>j. filed_ctx_key (ctxs ! j) = k) [i ..< i + ?n] = [i ..< i + ?n]"
      by (rule filter_True) (use all True in blast)
    then show ?thesis using True by (simp only: if_True simp_thms)
  next
    case False
    have "filter (\<lambda>j. filed_ctx_key (ctxs ! j) = k) [i ..< i + ?n] = []"
      by (rule filter_False) (use all False in metis)
    then show ?thesis using False by (simp only: if_False)
  qed
  then show ?thesis unfolding split filter_append by simp
qed

definition schedulable :: "wd_sched_ctx \<Rightarrow> wd_ctx_internal list \<Rightarrow> bool" where
  "schedulable c ctxs \<longleftrightarrow> 0 < sc_region_num c \<and> length ctxs \<le> INVALID_POS \<and>
    list_all (\<lambda>x. ci_ctx_mode x < SCHED_MODE_BUTT \<and> ci_op_type x < sc_type_num c) ctxs"

lemma instance_loop_spec:
  assumes "sc_tbl_inv c" and "all_valid c" and "sc_domain_hash_table c = Some t" and "schedulable c ctxs" and "i \<le> length ctxs"
    and "\<And>i. en_inst_oks ev i = [] \<and> en_inst_lock ev i" and "\<forall>k. length (sc_ctxs c k) \<le> i"
  shows "\<exists>c'. instance_loop ev ctxs i (Some c) = Some (Inr (), Some c') \<and> sc_tbl_inv c' \<and>
    (\<exists>h. c' = c\<lparr>sc_domain_hash_table := h\<rparr>) \<and>
    (\<forall>k. sc_ctxs c' k = sc_ctxs c k @ filter (\<lambda>j. filed_ctx_key (ctxs ! j) = k) [i ..< length ctxs])"
  using assms(1-5,7)
proof (induction "length ctxs - i" arbitrary: i c t rule: less_induct)
  case less
  show ?case
  proof (cases "i < length ctxs")
    case False
    then have "instance_loop ev ctxs i (Some c) = Some (Inr (), Some c)" by (simp add: instance_loop.simps [of ev ctxs i])
    moreover have "\<exists>h. c = c\<lparr>sc_domain_hash_table := h\<rparr>" by (rule exI [of _ "sc_domain_hash_table c"]) simp
    ultimately show ?thesis using less.prems(1) False by (intro exI [of _ c]) simp
  next
    case True
    let ?n = "run_length ctxs i"
    let ?p = "segment_params ctxs i ?n"
    have n: "0 < ?n" "i + ?n \<le> length ctxs" using run_length_pos [OF True] run_length_bound [of i ctxs] True by simp_all
    have "ci_ctx_mode (ctxs ! i) < SCHED_MODE_BUTT \<and> ci_op_type (ctxs ! i) < sc_type_num c"
      using less.prems(4) True by (simp add: schedulable_def list_all_length)
    then have ok: "inst_ok c ?p" using less.prems(4) n unfolding inst_ok_def segment_params_def schedulable_def by (simp, linarith)
    have len: "length (sc_ctxs c k) + (sp_end ?p - sp_begin ?p + 1) \<le> i + ?n" for k
      using less.prems(6) [rule_format, of k] n by (simp add: segment_params_def)
    have "INVALID_POS < 2 ^ 32" by (simp add: INVALID_POS_def)
    then have "length (sc_ctxs c (filed_key ?p)) + (sp_end ?p - sp_begin ?p + 1) < 2 ^ 32"
      using len [of "filed_key ?p"] n less.prems(4) unfolding schedulable_def by linarith
    from instance_step [OF less.prems(1-3) ok this, of "en_chain ev i"] obtain c1 t1 where
      c1: "wd_sched_rr_instance [] True (en_chain ev i) (Some c) (Some ?p) = Some (Inr (), Some c1)"
      "c1 = c\<lparr>sc_domain_hash_table := Some t1\<rparr>" "sc_tbl_inv c1" "all_valid c1"
      "\<forall>k. sc_ctxs c1 k = sc_ctxs c k @ (if k = filed_key ?p then [sp_begin ?p ..< Suc (sp_end ?p)] else [])" by blast
    have seg: "[sp_begin ?p ..< Suc (sp_end ?p)] = [i ..< i + ?n]" using n(1) by (simp add: segment_params_def del: upt_Suc)
    have ctxs1: "sc_ctxs c1 k = sc_ctxs c k @ (if k = filed_ctx_key (ctxs ! i) then [i ..< i + ?n] else [])" for k
      using c1(5) [rule_format, of k] unfolding seg segment_key .
    have t1: "sc_domain_hash_table c1 = Some t1" and sch: "schedulable c1 ctxs" using less.prems(4) by (simp_all add: c1(2) schedulable_def)
    have "\<forall>k. length (sc_ctxs c1 k) \<le> i + ?n" using spec [OF less.prems(6)] by (simp add: ctxs1 trans_le_add1)
    note lens = this
    have "length ctxs - (i + ?n) < length ctxs - i" using n True by simp
    from less.hyps [OF this c1(3,4) t1 sch n(2) lens] obtain c' where
      c': "instance_loop ev ctxs (i + ?n) (Some c1) = Some (Inr (), Some c')" "sc_tbl_inv c'" "\<exists>h. c' = c1\<lparr>sc_domain_hash_table := h\<rparr>"
      "\<forall>k. sc_ctxs c' k = sc_ctxs c1 k @ filter (\<lambda>j. filed_ctx_key (ctxs ! j) = k) [i + ?n ..< length ctxs]" by blast
    have "instance_loop ev ctxs i (Some c) = Some (Inr (), Some c')"
      using c1(1) c'(1) assms(6) True by (simp add: instance_loop.simps [of ev ctxs i])
    moreover have "\<exists>h. c' = c\<lparr>sc_domain_hash_table := h\<rparr>" using c'(3) c1(2) by auto
    ultimately show ?thesis using c'(2,4) by (auto simp: ctxs1 filter_run [OF True])
  qed
qed

text \<open>Without a hash table, as under the two simplest policies, no context can be registered.\<close>

lemma instance_without_table:
  assumes "sc_domain_hash_table c = None" and "ctxs \<noteq> []"
  shows "instance_loop ev ctxs 0 (Some c) \<noteq> Some (Inr (), c')"
  using assms by (auto simp: instance_loop.simps [of ev ctxs 0] wd_sched_rr_instance_def wd_sched_hash_table_insert_def Let_def
      split: option.splits if_splits prod.splits)

text \<open>
  C10: When a scheduler of a policy with domains was created and its memory lasts, the automatic set-up registers every context of
  the configuration in it: afterwards the contexts of a domain are exactly the positions of the configuration whose contexts have
  the mode, the operation type and the property of the domain, in their order. Each context has a mode and an operation type that the
  scheduler knows and one of the hardware, instruction and software properties.
\<close>

theorem sched_instance_domains:
  assumes "wd_sched_rr_alloc oks lock_ok nmax ty tn rn = Some (Some c)" and "ty \<noteq> SCHED_POLICY_NONE" "ty \<noteq> SCHED_POLICY_SINGLE"
    and "cc_ctxs cfg = Some ctxs" "length ctxs = cc_ctx_num cfg" "schedulable c ctxs"
    and "list_all (\<lambda>x. int (ci_ctx_type x) \<le> UADK_ALG_SOFT) ctxs"
    and "\<And>i. en_inst_oks ev i = [] \<and> en_inst_lock ev i"
  shows "\<exists>c'. wd_alg_sched_instance ev (Some cfg) (Some c) = Some (Inr (), Some c') \<and> sc_tbl_inv c' \<and>
    (\<forall>k. sc_ctxs c' k = filter (\<lambda>j. ctx_key (ctxs ! j) = k) [0 ..< length ctxs])"
proof -
  note al = rr_alloc_spec [OF assms(1)]
  then obtain t where t: "sc_domain_hash_table c = Some t" using assms(2,3) by blast
  have inv: "sc_tbl_inv c" "all_valid c" "\<forall>k. length (sc_ctxs c k) \<le> 0" using al by simp_all
  from instance_loop_spec [OF inv(1,2) t assms(6) le0 assms(8) inv(3)] obtain c' where
    c': "instance_loop ev ctxs 0 (Some c) = Some (Inr (), Some c')" "sc_tbl_inv c'"
    "\<forall>k. sc_ctxs c' k = sc_ctxs c k @ filter (\<lambda>j. filed_ctx_key (ctxs ! j) = k) [0 ..< length ctxs]" by blast
  have "wd_alg_sched_instance ev (Some cfg) (Some c) = Some (Inr (), Some c')"
    using assms(4,5) c'(1) by (simp add: wd_alg_sched_instance_def)
  moreover have "filter (\<lambda>j. filed_ctx_key (ctxs ! j) = k) [0 ..< length ctxs] = filter (\<lambda>j. ctx_key (ctxs ! j) = k) [0 ..< length ctxs]" for k
    using assms(7) by (intro filter_cong) (auto simp: list_all_length filed_ctx_key_def ctx_key_def)
  ultimately show ?thesis using c'(2,3) al by (intro exI [of _ c']) simp
qed

definition demo_attrs_env :: attrs_env where
  "demo_attrs_env = \<lparr>en_drv_oks = [], en_config_ok = True, en_ctxs_ok = True, en_alloc_ctx = \<lambda>_. Some (\<lambda>mode op idx. (0, 100 + idx)),
     en_free_ctx = \<lambda>_. True, en_numa_max = 0, en_sched_oks = [], en_sched_lock = True, en_inst_oks = \<lambda>_. [], en_inst_lock = \<lambda>_. True,
     en_chain = \<lambda>_. 0, en_conf_ok = True, en_conf_ctxs_ok = True\<rparr>"

definition demo_attrs :: wd_init_attrs where
  "demo_attrs = \<lparr>at_sched_type = SCHED_POLICY_RR, at_task_type = TASK_HW, at_alg = ''cbc(aes)'', at_sched = None,
     at_ctx_params = Some \<lparr>pa_op_type_num = 1, pa_ctx_set_num = [\<lparr>nu_sync_ctx_num = 2, nu_async_ctx_num = 1, nu_ctx_prop = 0\<rparr>], pa_bmp = {}, pa_cap = None\<rparr>,
     at_ctx_config = None, at_internal = None\<rparr>"

definition demo_ctxs :: "wd_ctx_internal list" where
  "demo_ctxs = map (\<lambda>(h, m). zero_ctx\<lparr>ci_ctx := h, ci_ctx_mode := m, ci_ctx_type := ctx_type_of drv_sec, ci_drv := Some drv_sec\<rparr>)
     [(100, 0), (101, 0), (102, 1)]"

theorem sched_instance_domains_witness:
  "\<exists>c'. wd_alg_sched_instance demo_attrs_env (Some ((phase1_config [drv_sec] 3)\<lparr>cc_ctxs := Some demo_ctxs\<rparr>)) (Some (demo_ctx SCHED_POLICY_RR)) =
     Some (Inr (), Some c') \<and> sc_ctxs c' (0, 0, 0, 0) = [0, 1] \<and> sc_ctxs c' (0, 1, 0, 0) = [2] \<and> sc_ctxs c' (0, 1, 1, 0) = []"
proof -
  let ?cfg = "(phase1_config [drv_sec] 3)\<lparr>cc_ctxs := Some demo_ctxs\<rparr>"
  have a: "cc_ctxs ?cfg = Some demo_ctxs" "length demo_ctxs = cc_ctx_num ?cfg" by (simp_all add: phase1_config_def demo_ctxs_def)
  have s: "schedulable (demo_ctx SCHED_POLICY_RR) demo_ctxs"
    by (simp add: schedulable_def demo_ctx_def demo_ctxs_def INVALID_POS_def SCHED_MODE_BUTT_def zero_ctx_def)
  have u: "list_all (\<lambda>x. int (ci_ctx_type x) \<le> UADK_ALG_SOFT) demo_ctxs" by (simp add: demo_ctxs_def ctx_type_of_def drv_sec_def UADK_ALG_SOFT_def)
  have e: "en_inst_oks demo_attrs_env i = [] \<and> en_inst_lock demo_attrs_env i" for i by (simp add: demo_attrs_env_def)
  have pol: "SCHED_POLICY_RR \<noteq> SCHED_POLICY_NONE" "SCHED_POLICY_RR \<noteq> SCHED_POLICY_SINGLE" by (simp_all add: sched_policy_defs)
  from sched_instance_domains [OF demo_alloc [OF disjI1 [OF refl]] pol a s u e] obtain c' where
    c': "wd_alg_sched_instance demo_attrs_env (Some ?cfg) (Some (demo_ctx SCHED_POLICY_RR)) = Some (Inr (), Some c')"
    "\<forall>k. sc_ctxs c' k = filter (\<lambda>j. ctx_key (demo_ctxs ! j) = k) [0 ..< length demo_ctxs]" by blast
  show ?thesis
    by (intro exI conjI, rule c'(1)) (simp_all add: c'(2) demo_ctxs_def ctx_key_def zero_ctx_def upt_rec ctx_type_of_def drv_sec_def uadk_alg_consts)
qed

lemma demo_phase1:
  "wd_ctx_config_init demo_attrs_env rg_both (Some demo_attrs) no_res =
    Some (0, Some (demo_attrs\<lparr>at_internal := Some (phase1_config [drv_sec] 3)\<rparr>), add_heap 3 no_res)"
  by (simp add: wd_ctx_config_init_def demo_attrs_def demo_attrs_env_def total_ctx_num_def ctx_sum_def u32_def wd_get_alg_type_def alg_options_def
      wd_get_drv_array_def rg_both_def drv_sec_def drv_sve_def phase1_config_def no_res_def uadk_alg_consts)

lemma demo_batch:
  "wd_alloc_ctxs_batch demo_attrs_env (phase1_config [drv_sec] 3)
     \<lparr>pa_op_type_num = 1, pa_ctx_set_num = [\<lparr>nu_sync_ctx_num = 2, nu_async_ctx_num = 1, nu_ctx_prop = 0\<rparr>], pa_bmp = {}, pa_cap = None\<rparr> r =
    Some (Inr (), (phase1_config [drv_sec] 3)\<lparr>cc_ctxs := Some demo_ctxs\<rparr>, r\<lparr>rs_live := [102, 101, 100] @ rs_live r\<rparr>)"
  by (simp add: wd_alloc_ctxs_batch_def wd_alloc_ctxs_by_mode_def ctx_jobs_def phase1_config_def demo_attrs_env_def demo_ctxs_def upt_rec
      numeral_3_eq_3 rd_def CTX_MODE_SYNC_def CTX_MODE_ASYNC_def u8_def zero_ctx_def)

lemma demo_instance: "\<exists>c. instance_loop demo_attrs_env demo_ctxs 0 (Some (demo_ctx SCHED_POLICY_RR)) = Some (Inr (), Some c)"
proof -
  note al = rr_alloc_spec [OF demo_alloc [OF disjI1 [OF refl]]]
  have s: "schedulable (demo_ctx SCHED_POLICY_RR) demo_ctxs"
    by (simp add: schedulable_def demo_ctx_def demo_ctxs_def INVALID_POS_def SCHED_MODE_BUTT_def zero_ctx_def)
  have e: "en_inst_oks demo_attrs_env i = [] \<and> en_inst_lock demo_attrs_env i" for i by (simp add: demo_attrs_env_def)
  obtain t where t: "sc_domain_hash_table (demo_ctx SCHED_POLICY_RR) = Some t" by (simp add: demo_ctx_def)
  have inv: "sc_tbl_inv (demo_ctx SCHED_POLICY_RR)" "all_valid (demo_ctx SCHED_POLICY_RR)"
    "\<forall>k. length (sc_ctxs (demo_ctx SCHED_POLICY_RR) k) \<le> 0" using al by simp_all
  from instance_loop_spec [OF inv(1,2) t s le0 e inv(3)] show ?thesis by blast
qed


end
