(* ===== verification/Msg_Pool.thy ===== *)
theory Msg_Pool
  imports Uadk_Interfaces
begin

text \<open>
  The message pools of \<^verbatim>\<open>wd_util.c\<close> (lines 335--488): one array of messages per asynchronous context, with a flag per
  message, from which the algorithm front ends take a message for a request and give it back after the response.

  Taking a message uses no lock: a thread reads \<^verbatim>\<open>tail\<close>, tries the flags one after the other with an atomic test-and-set,
  and writes \<^verbatim>\<open>tail\<close> at the end. The operations are given as functions for a thread that runs alone, and as the step relation
  \<open>msg_step\<close> whose steps are the single memory accesses of any number of threads.
\<close>

definition WD_POOL_MAX_ENTRIES :: nat where "WD_POOL_MAX_ENTRIES = 1024"

text \<open>\<open>mg_msgs\<close> and \<open>mg_used\<close> are \<open>None\<close> for \<^verbatim>\<open>NULL\<close>; messages are addressed by their offset from \<^verbatim>\<open>msgs\<close>.\<close>

record msg_pool =
  mg_msgs :: "nat option"
  mg_used :: "bool list option"
  mg_msg_num :: nat
  mg_msg_size :: nat
  mg_tail :: nat

record wd_async_msg_pool =
  wp_pools :: "msg_pool list option"
  wp_pool_num :: nat

definition zero_pool :: msg_pool where
  "zero_pool = \<lparr>mg_msgs = None, mg_used = None, mg_msg_num = 0, mg_msg_size = 0, mg_tail = 0\<rparr>"

definition get_ctx_msg_num :: "nat option \<Rightarrow> nat \<Rightarrow> nat" where
  "get_ctx_msg_num cap msg_num =
    (case cap of
       None \<Rightarrow> msg_num
     | Some n \<Rightarrow> if n = 0 then msg_num else if n > WD_POOL_MAX_ENTRIES then msg_num else n)"

text \<open>\<open>base\<close> is the address of the message array when it is allocated; its size is computed with 32 bits.\<close>

definition init_msg_pool :: "nat \<Rightarrow> bool list \<Rightarrow> nat \<Rightarrow> nat \<Rightarrow> msg_pool \<Rightarrow> unit result \<times> msg_pool \<times> bool list" where
  "init_msg_pool base oks msg_num msg_size pool =
    (let (ok, oks) = calloc_ok oks in
     if \<not> ok then (Inl WD_ENOMEM, pool\<lparr>mg_msgs := None\<rparr>, oks)
     else
       (let (ok, oks) = calloc_ok oks in
        if \<not> ok then (Inl WD_ENOMEM, pool\<lparr>mg_msgs := None, mg_used := None\<rparr>, oks)
        else (Inr (), \<lparr>mg_msgs = Some base, mg_used = Some (replicate msg_num False), mg_msg_num = msg_num,
                       mg_msg_size = msg_size, mg_tail = 0\<rparr>, oks)))"

definition uninit_msg_pool :: "msg_pool \<Rightarrow> msg_pool" where
  "uninit_msg_pool pool = (if mg_msg_num pool = 0 then pool else zero_pool)"

text \<open>The loop over the contexts; \<open>sync i\<close> tells whether context \<open>i\<close> is synchronous, \<open>base i\<close> where its messages would be.\<close>

fun init_pools ::
  "(nat \<Rightarrow> nat) \<Rightarrow> nat \<Rightarrow> nat \<Rightarrow> bool list \<Rightarrow> nat \<Rightarrow> bool list \<Rightarrow> msg_pool list \<Rightarrow> unit result \<times> msg_pool list" where
  "init_pools base msg_num msg_size [] i oks pools = (Inr (), pools)"
| "init_pools base msg_num msg_size (sync # syncs) i oks pools =
    (if sync then init_pools base msg_num msg_size syncs (Suc i) oks pools
     else
       (case init_msg_pool (base i) oks msg_num msg_size (pools ! i) of
          (Inl e, p, oks) \<Rightarrow> (Inl e, map uninit_msg_pool (take i pools) @ drop i (pools[i := p]))
        | (Inr _, p, oks) \<Rightarrow> init_pools base msg_num msg_size syncs (Suc i) oks (pools[i := p])))"

definition wd_init_async_request_pool ::
  "(nat \<Rightarrow> nat) \<Rightarrow> bool list \<Rightarrow> nat option \<Rightarrow> bool list \<Rightarrow> nat \<Rightarrow> nat \<Rightarrow> wd_async_msg_pool \<Rightarrow> unit result \<times> wd_async_msg_pool" where
  "wd_init_async_request_pool base syncs cap oks msg_num msg_size pool =
    (let pool = pool\<lparr>wp_pool_num := length syncs\<rparr>; (ok, oks) = calloc_ok oks in
     if \<not> ok then (Inl WD_ENOMEM, pool\<lparr>wp_pools := None\<rparr>)
     else
       (case init_pools base (get_ctx_msg_num cap msg_num) msg_size syncs 0 oks (replicate (length syncs) zero_pool) of
          (Inr _, ps) \<Rightarrow> (Inr (), pool\<lparr>wp_pools := Some ps\<rparr>)
        | (Inl e, ps) \<Rightarrow> (Inl e, pool\<lparr>wp_pools := None\<rparr>)))"

text \<open>No outcome when the pools were not allocated but their number is not 0.\<close>

definition wd_uninit_async_request_pool :: "wd_async_msg_pool \<Rightarrow> wd_async_msg_pool option" where
  "wd_uninit_async_request_pool pool =
    (case wp_pools pool of
       None \<Rightarrow> if wp_pool_num pool = 0 then Some pool else None
     | Some ps \<Rightarrow> if wp_pool_num pool \<le> length ps then Some \<lparr>wp_pools = None, wp_pool_num = 0\<rparr> else None)"

text \<open>The pool of a context: reading outside of the array has no outcome.\<close>

definition pool_at :: "wd_async_msg_pool \<Rightarrow> int \<Rightarrow> msg_pool option" where
  "pool_at pool ctx_idx =
    (case wp_pools pool of None \<Rightarrow> None | Some ps \<Rightarrow> if ctx_idx < 0 then None else rd ps (nat ctx_idx))"

text \<open>\<open>Some None\<close> is \<^verbatim>\<open>NULL\<close>, \<open>Some (Some a)\<close> the address of the message.\<close>

definition wd_find_msg_in_pool :: "wd_async_msg_pool \<Rightarrow> int \<Rightarrow> nat \<Rightarrow> nat option option" where
  "wd_find_msg_in_pool pool ctx_idx tag =
    (if u32_of_int ctx_idx > wp_pool_num pool then Some None
     else
       (case pool_at pool ctx_idx of
          None \<Rightarrow> None
        | Some p \<Rightarrow>
            if tag = 0 \<or> tag > mg_msg_num p then Some None
            else map_option (\<lambda>m. Some (m + u32 (mg_msg_size p * (tag - 1)))) (mg_msgs p)))"

text \<open>
  The loop over the flags from \<open>idx\<close> on: the index that was set and the new flags, or busy. The counter starts at 0 and grows
  by one, so that \<open>\<ge>\<close> is the test for equality of the code.
\<close>

function msg_probe :: "bool list \<Rightarrow> nat \<Rightarrow> nat \<Rightarrow> nat \<Rightarrow> (nat result \<times> bool list) option" where
  "msg_probe used msg_num idx cnt =
    (case rd used idx of
       None \<Rightarrow> None
     | Some False \<Rightarrow> Some (Inr idx, used[idx := True])
     | Some True \<Rightarrow>
         if cnt + 1 \<ge> msg_num then Some (Inl WD_EBUSY, used)
         else msg_probe used msg_num ((idx + 1) mod msg_num) (cnt + 1))"
  by pat_completeness auto
termination by (relation "measure (\<lambda>(used, msg_num, idx, cnt). msg_num - cnt)") auto

declare msg_probe.simps [simp del]

text \<open>The tag, the address of the message and the pool.\<close>

definition wd_get_msg_from_pool ::
  "wd_async_msg_pool \<Rightarrow> int \<Rightarrow> ((nat \<times> nat) result \<times> wd_async_msg_pool) option" where
  "wd_get_msg_from_pool pool ctx_idx =
    (case pool_at pool ctx_idx of
       None \<Rightarrow> None
     | Some p \<Rightarrow>
         if mg_msg_num p = 0 then Some (Inl WD_EINVAL, pool)
         else
           (case (mg_used p, mg_msgs p, wp_pools pool) of
              (Some used, Some m, Some ps) \<Rightarrow>
                (case msg_probe used (mg_msg_num p) (mg_tail p) 0 of
                   None \<Rightarrow> None
                 | Some (Inl e, used) \<Rightarrow>
                     Some (Inl e, pool\<lparr>wp_pools := Some (ps[nat ctx_idx := p\<lparr>mg_used := Some used\<rparr>])\<rparr>)
                 | Some (Inr idx, used) \<Rightarrow>
                     Some (Inr (idx + 1, m + u32 (mg_msg_size p * idx)),
                           pool\<lparr>wp_pools := Some (ps[nat ctx_idx := p\<lparr>mg_used := Some used, mg_tail := (idx + 1) mod mg_msg_num p\<rparr>])\<rparr>))
            | _ \<Rightarrow> None))"

definition wd_put_msg_to_pool :: "wd_async_msg_pool \<Rightarrow> int \<Rightarrow> nat \<Rightarrow> wd_async_msg_pool option" where
  "wd_put_msg_to_pool pool ctx_idx tag =
    (case pool_at pool ctx_idx of
       None \<Rightarrow> None
     | Some p \<Rightarrow>
         if tag = 0 \<or> tag > mg_msg_num p then Some pool
         else
           (case (mg_used p, wp_pools pool) of
              (Some used, Some ps) \<Rightarrow>
                map_option (\<lambda>used. pool\<lparr>wp_pools := Some (ps[nat ctx_idx := p\<lparr>mg_used := Some used\<rparr>])\<rparr>) (wr used (tag - 1) False)
            | _ \<Rightarrow> None))"

subsection \<open>A thread that runs alone\<close>

text \<open>The first free position from \<open>idx\<close> on, counted around the array.\<close>

lemma msg_probe_spec:
  assumes "length used = n" and "idx < n" and "cnt < n" and "\<And>j. j < cnt \<Longrightarrow> used ! ((idx + n - cnt + j) mod n)"
  shows "(if \<forall>i < n. used ! i then msg_probe used n idx cnt = Some (Inl WD_EBUSY, used)
    else \<exists>k. cnt + k < n \<and> \<not> used ! ((idx + k) mod n) \<and> (\<forall>j < k. used ! ((idx + j) mod n)) \<and>
      msg_probe used n idx cnt = Some (Inr ((idx + k) mod n), used[(idx + k) mod n := True]))"
  using assms
proof (induction used n idx cnt rule: msg_probe.induct)
  case (1 used n idx cnt)
  have rd: "rd used idx = Some (used ! idx)" using "1.prems" by simp
  show ?case
  proof (cases "used ! idx")
    case False
    have "\<not> (\<forall>i < n. used ! i)" using False "1.prems"(2) by blast
    moreover have "msg_probe used n idx cnt = Some (Inr idx, used[idx := True])" using rd False by (simp add: msg_probe.simps [of used])
    ultimately show ?thesis using False "1.prems" by (auto intro!: exI [of _ 0])
  next
    case True
    show ?thesis
    proof (cases "cnt + 1 \<ge> n")
      case last: True
      have "used ! i" if "i < n" for i
      proof (cases "i = idx")
        case False
        define j where "j = (if idx < i then i - idx - 1 else i + n - idx - 1)"
        have j: "j < cnt" "(idx + n - cnt + j) mod n = i"
          using that False last "1.prems"(2,3) unfolding j_def by (auto simp: mod_if)
        then show ?thesis using "1.prems"(4) [of j] by simp
      qed (use True in simp)
      then show ?thesis using rd True last by (simp add: msg_probe.simps [of used])
    next
      case False
      let ?i = "(idx + 1) mod n"
      have step: "msg_probe used n idx cnt = msg_probe used n ?i (cnt + 1)" using rd True False by (simp add: msg_probe.simps [of used n idx])
      have sh: "(?i + k) mod n = (idx + Suc k) mod n" for k by (simp add: mod_add_left_eq)
      have prev: "used ! ((?i + n - (cnt + 1) + j) mod n)" if "j < cnt + 1" for j
      proof -
        have e1: "?i + n - (cnt + 1) + j = ?i + (n - (cnt + 1) + j)" "idx + Suc (n - (cnt + 1) + j) = idx + n - cnt + j"
          using False that "1.prems"(3) by linarith+
        have e: "(?i + n - (cnt + 1) + j) mod n = (idx + n - cnt + j) mod n" unfolding e1(1) sh e1(2) ..
        show ?thesis
        proof (cases "j = cnt")
          case j: True
          have "idx + n - cnt + j = idx + n" using j "1.prems"(3) by simp
          then show ?thesis using e True "1.prems"(2) by simp
        next
          case False
          then show ?thesis using e that "1.prems"(4) [of j] by simp
        qed
      qed
      have n0: "?i < n" "cnt + 1 < n" using False "1.prems"(2) by auto
      have tr: "(used ! idx) = True" using True by simp
      note IH = "1.IH" [OF rd tr False "1.prems"(1) n0 prev]
      show ?thesis
      proof (cases "\<forall>i < n. used ! i")
        case all: True
        then show ?thesis using IH step by simp
      next
        case nall: False
        with IH obtain k where k: "cnt + 1 + k < n" "\<not> used ! ((?i + k) mod n)" "\<forall>j < k. used ! ((?i + j) mod n)"
          "msg_probe used n ?i (cnt + 1) = Some (Inr ((?i + k) mod n), used[(?i + k) mod n := True])" by auto
        have "used ! ((idx + j) mod n)" if "j < Suc k" for j
        proof (cases j)
          case 0
          then show ?thesis using True "1.prems"(2) by simp
        next
          case (Suc j')
          then have "used ! ((?i + j') mod n)" using k(3) that by simp
          then show ?thesis unfolding sh Suc .
        qed
        then have "cnt + Suc k < n \<and> \<not> used ! ((idx + Suc k) mod n) \<and> (\<forall>j < Suc k. used ! ((idx + j) mod n)) \<and>
          msg_probe used n idx cnt = Some (Inr ((idx + Suc k) mod n), used[(idx + Suc k) mod n := True])"
          using k(1,2,4) step unfolding sh by simp
        then show ?thesis using nall by (subst if_not_P; blast)
      qed
    qed
  qed
qed

definition pool_wf :: "msg_pool \<Rightarrow> bool" where
  "pool_wf p \<longleftrightarrow> 0 < mg_msg_num p \<and> mg_tail p < mg_msg_num p \<and> mg_msgs p \<noteq> None \<and>
     (\<exists>used. mg_used p = Some used \<and> length used = mg_msg_num p) \<and> mg_msg_num p * mg_msg_size p < 2 ^ 32"

text \<open>The tags whose messages are in use.\<close>

definition used_tags :: "msg_pool \<Rightarrow> nat set" where
  "used_tags p = {tag. 1 \<le> tag \<and> tag \<le> mg_msg_num p \<and> (case mg_used p of None \<Rightarrow> False | Some used \<Rightarrow> used ! (tag - 1))}"

lemma used_tags_upd:
  assumes "mg_used p = Some used" and "length used = mg_msg_num p" and "i < mg_msg_num p"
  shows "used_tags (p\<lparr>mg_used := Some (used[i := True])\<rparr>) = insert (i + 1) (used_tags p)"
    "used_tags (p\<lparr>mg_used := Some (used[i := False])\<rparr>) = used_tags p - {i + 1}"
  using assms by (auto simp: used_tags_def nth_list_update split: if_splits)

lemma get_msg_cases:
  assumes "wp_pools pool = Some ps" and "c < length ps" and "pool_wf (ps ! c)"
  obtains (busy) "wd_get_msg_from_pool pool (int c) = Some (Inl WD_EBUSY, pool\<lparr>wp_pools := Some (ps[c := ps ! c])\<rparr>)"
      "used_tags (ps ! c) = {1..mg_msg_num (ps ! c)}"
    | (found) i used m p' where "i < mg_msg_num (ps ! c)" "\<not> used ! i" "mg_used (ps ! c) = Some used" "length used = mg_msg_num (ps ! c)"
      "mg_msgs (ps ! c) = Some m" "p' = (ps ! c)\<lparr>mg_used := Some (used[i := True]), mg_tail := (i + 1) mod mg_msg_num (ps ! c)\<rparr>"
      "wd_get_msg_from_pool pool (int c) = Some (Inr (i + 1, m + u32 (mg_msg_size (ps ! c) * i)), pool\<lparr>wp_pools := Some (ps[c := p'])\<rparr>)"
proof -
  let ?p = "ps ! c" let ?n = "mg_msg_num ?p"
  from assms(3) obtain used m where p: "mg_used ?p = Some used" "length used = ?n" "mg_msgs ?p = Some m" "0 < ?n" "mg_tail ?p < ?n"
    by (auto simp: pool_wf_def)
  have at: "pool_at pool (int c) = Some ?p" using assms(1,2) by (simp add: pool_at_def)
  have same: "?p\<lparr>mg_used := Some used\<rparr> = ?p" by (simp flip: p(1))
  from msg_probe_spec [OF p(2,5,4)] p(4) consider (all) "\<forall>i < ?n. used ! i" "msg_probe used ?n (mg_tail ?p) 0 = Some (Inl WD_EBUSY, used)"
    | (one) i where "i < ?n" "\<not> used ! i" "msg_probe used ?n (mg_tail ?p) 0 = Some (Inr i, used[i := True])"
    by (auto split: if_splits)
  then show thesis
  proof cases
    case all
    then have "wd_get_msg_from_pool pool (int c) = Some (Inl WD_EBUSY, pool\<lparr>wp_pools := Some (ps[c := ?p])\<rparr>)"
      using at p assms(1) by (simp add: wd_get_msg_from_pool_def same)
    moreover have "used_tags ?p = {1..?n}" using all(1) p(1) by (auto simp: used_tags_def)
    ultimately show thesis by (rule busy)
  next
    case one
    have "wd_get_msg_from_pool pool (int c) = Some (Inr (i + 1, m + u32 (mg_msg_size ?p * i)),
        pool\<lparr>wp_pools := Some (ps[c := ?p\<lparr>mg_used := Some (used[i := True]), mg_tail := (i + 1) mod ?n\<rparr>])\<rparr>)"
      using at p assms(1) one(3) by (simp add: wd_get_msg_from_pool_def)
    from found [OF one(1,2) p(1-3) refl this] show thesis .
  qed
qed

text \<open>
  C33: Taking a message. For a well-formed pool of an asynchronous context the call has an outcome. If every message is in use it
  reports busy and changes nothing; otherwise it returns a tag that was free, with the address at which the tag is found
  again, the tag is marked as used and no other tag changes. Giving the tag back restores the used tags.
\<close>

theorem get_msg_outcome:
  assumes "wp_pools pool = Some ps" and "c < length ps" and "pool_wf (ps ! c)" and "length ps = wp_pool_num pool" and "wp_pool_num pool < 2 ^ 31"
  shows "\<exists>r p'. wd_get_msg_from_pool pool (int c) = Some (r, pool\<lparr>wp_pools := Some (ps[c := p'])\<rparr>) \<and>
    (case r of
       Inl e \<Rightarrow> e = WD_EBUSY \<and> used_tags (ps ! c) = {1..mg_msg_num (ps ! c)} \<and> p' = ps ! c
     | Inr (tag, a) \<Rightarrow> pool_wf p' \<and> tag \<notin> used_tags (ps ! c) \<and> used_tags p' = insert tag (used_tags (ps ! c)) \<and>
         wd_find_msg_in_pool (pool\<lparr>wp_pools := Some (ps[c := p'])\<rparr>) (int c) tag = Some (Some a) \<and>
         (\<exists>q. wd_put_msg_to_pool (pool\<lparr>wp_pools := Some (ps[c := p'])\<rparr>) (int c) tag = Some (pool\<lparr>wp_pools := Some (ps[c := q])\<rparr>) \<and>
            used_tags q = used_tags (ps ! c)))"
  using assms(1-3)
proof (cases rule: get_msg_cases)
  case busy
  then show ?thesis by (intro exI [of _ "Inl WD_EBUSY"] exI [of _ "ps ! c"]) simp
next
  case (found i used m p')
  let ?p = "ps ! c" let ?q = "p'\<lparr>mg_used := Some (used[i := True, i := False])\<rparr>"
  have at: "pool_at (pool\<lparr>wp_pools := Some (ps[c := p'])\<rparr>) (int c) = Some p'" using assms(1,2) by (simp add: pool_at_def)
  have wf: "pool_wf p'" using assms(3) found(1-6) by (auto simp: pool_wf_def)
  have tags: "used_tags p' = insert (i + 1) (used_tags ?p)" "used_tags ?q = used_tags ?p" "i + 1 \<notin> used_tags ?p"
    using found(1-4) by (auto simp: used_tags_def found(6) nth_list_update split: if_splits)
  have ctx: "\<not> u32_of_int (int c) > wp_pool_num pool" using assms(2,4,5) by (simp add: u32_of_int_def)
  have find: "wd_find_msg_in_pool (pool\<lparr>wp_pools := Some (ps[c := p'])\<rparr>) (int c) (i + 1) = Some (Some (m + u32 (mg_msg_size ?p * i)))"
    using ctx at found(1,5) by (simp add: wd_find_msg_in_pool_def found(6))
  have "wd_put_msg_to_pool (pool\<lparr>wp_pools := Some (ps[c := p'])\<rparr>) (int c) (i + 1) = Some (pool\<lparr>wp_pools := Some (ps[c := ?q])\<rparr>)"
    using at found(1,4) by (simp add: wd_put_msg_to_pool_def found(6))
  then have put: "\<exists>q. wd_put_msg_to_pool (pool\<lparr>wp_pools := Some (ps[c := p'])\<rparr>) (int c) (i + 1) = Some (pool\<lparr>wp_pools := Some (ps[c := q])\<rparr>) \<and>
    used_tags q = used_tags ?p" using tags(2) by blast
  show ?thesis
    by (rule exI [of _ "Inr (i + 1, m + u32 (mg_msg_size ?p * i))"], rule exI [of _ p'], simp only: found(7) sum.case prod.case)
      (use wf tags(1,3) find put in blast)
qed

definition demo_msgs :: wd_async_msg_pool where
  "demo_msgs = \<lparr>wp_pools = Some [zero_pool, \<lparr>mg_msgs = Some 4096, mg_used = Some [True, False], mg_msg_num = 2, mg_msg_size = 64, mg_tail = 0\<rparr>],
     wp_pool_num = 2\<rparr>"

theorem get_msg_outcome_witness:
  "\<exists>r p'. wd_get_msg_from_pool demo_msgs (int 1) = Some (r, demo_msgs\<lparr>wp_pools := Some ([zero_pool,
      \<lparr>mg_msgs = Some 4096, mg_used = Some [True, False], mg_msg_num = 2, mg_msg_size = 64, mg_tail = 0\<rparr>][1 := p'])\<rparr>)"
proof -
  have "pool_wf \<lparr>mg_msgs = Some 4096, mg_used = Some [True, False], mg_msg_num = 2, mg_msg_size = 64, mg_tail = 0\<rparr>" by (simp add: pool_wf_def)
  then show ?thesis
    using get_msg_outcome [of demo_msgs _ 1] by (fastforce simp: demo_msgs_def)
qed

subsection \<open>Threads\<close>

text \<open>
  Where a thread is in \<^verbatim>\<open>wd_get_msg_from_pool\<close>: outside of it, before the test-and-set of a flag (with the counter), or
  after a successful one and before the write of \<^verbatim>\<open>tail\<close>. Other threads may run between any two steps. \<open>ms_held\<close> are the tags
  that a thread was given and has not returned.
\<close>

datatype msg_pc = Idle | Probing nat nat | Taken nat

record msg_sys =
  ms_used :: "bool list"
  ms_num :: nat
  ms_tail :: nat
  ms_pc :: "nat \<Rightarrow> msg_pc"
  ms_held :: "nat \<Rightarrow> nat set"

inductive msg_step :: "msg_sys \<Rightarrow> msg_sys \<Rightarrow> bool" where
  start: "ms_pc s t = Idle \<Longrightarrow> msg_step s (s\<lparr>ms_pc := (ms_pc s)(t := Probing (ms_tail s) 0)\<rparr>)"
| tas_free: "ms_pc s t = Probing i c \<Longrightarrow> \<not> ms_used s ! i \<Longrightarrow>
    msg_step s (s\<lparr>ms_used := (ms_used s)[i := True], ms_pc := (ms_pc s)(t := Taken i)\<rparr>)"
| tas_used: "ms_pc s t = Probing i c \<Longrightarrow> ms_used s ! i \<Longrightarrow> c + 1 < ms_num s \<Longrightarrow>
    msg_step s (s\<lparr>ms_pc := (ms_pc s)(t := Probing ((i + 1) mod ms_num s) (c + 1))\<rparr>)"
| busy: "ms_pc s t = Probing i c \<Longrightarrow> ms_used s ! i \<Longrightarrow> c + 1 \<ge> ms_num s \<Longrightarrow> msg_step s (s\<lparr>ms_pc := (ms_pc s)(t := Idle)\<rparr>)"
| finish: "ms_pc s t = Taken i \<Longrightarrow>
    msg_step s (s\<lparr>ms_tail := (i + 1) mod ms_num s, ms_pc := (ms_pc s)(t := Idle), ms_held := (ms_held s)(t := insert (i + 1) (ms_held s t))\<rparr>)"
| give_back: "ms_pc s t = Idle \<Longrightarrow> tag \<in> ms_held s t \<Longrightarrow>
    msg_step s (s\<lparr>ms_used := (ms_used s)[tag - 1 := False], ms_held := (ms_held s)(t := ms_held s t - {tag})\<rparr>)"

inductive_cases msg_stepE: "msg_step s s'"

definition owns :: "msg_sys \<Rightarrow> nat \<Rightarrow> nat set" where
  "owns s t = ms_held s t \<union> {i + 1 |i. ms_pc s t = Taken i}"

definition msg_inv :: "msg_sys \<Rightarrow> bool" where
  "msg_inv s \<longleftrightarrow> 0 < ms_num s \<and> length (ms_used s) = ms_num s \<and> ms_tail s < ms_num s \<and>
     (\<forall>t i c. ms_pc s t = Probing i c \<longrightarrow> i < ms_num s) \<and> (\<forall>t. owns s t \<subseteq> {1..ms_num s}) \<and>
     (\<forall>t u. t \<noteq> u \<longrightarrow> owns s t \<inter> owns s u = {}) \<and> (\<forall>i < ms_num s. ms_used s ! i \<longleftrightarrow> (\<exists>t. i + 1 \<in> owns s t))"

lemma msg_invD:
  assumes "msg_inv s"
  shows "0 < ms_num s" "length (ms_used s) = ms_num s" "ms_tail s < ms_num s"
    "\<And>t i c. ms_pc s t = Probing i c \<Longrightarrow> i < ms_num s" "\<And>t. owns s t \<subseteq> {1..ms_num s}"
    "\<And>t u. t \<noteq> u \<Longrightarrow> owns s t \<inter> owns s u = {}" "\<And>i. i < ms_num s \<Longrightarrow> ms_used s ! i \<longleftrightarrow> (\<exists>t. i + 1 \<in> owns s t)"
  using assms unfolding msg_inv_def by blast+

text \<open>A step that leaves the flags and what every thread owns as they are keeps the invariant.\<close>

lemma msg_inv_frame:
  assumes "msg_inv s" and "ms_num s' = ms_num s" and "ms_used s' = ms_used s" and "ms_tail s' < ms_num s"
    and "\<And>t i c. ms_pc s' t = Probing i c \<Longrightarrow> i < ms_num s" and "\<And>t. owns s' t = owns s t"
  shows "msg_inv s'"
  using assms unfolding msg_inv_def by auto

lemma tas_free_inv:
  assumes inv: "msg_inv s" and tas_free: "s' = s\<lparr>ms_used := (ms_used s)[i := True], ms_pc := (ms_pc s)(t := Taken i)\<rparr>"
    "ms_pc s t = Probing i c" "\<not> ms_used s ! i"
  shows "msg_inv s'"
proof -
  note D = msg_invD [OF inv]
  have i: "i < ms_num s" using D(4) tas_free(2) .
  have no: "i + 1 \<notin> owns s u" for u using D(7) [OF i] tas_free(3) by auto
  have own: "owns s' u = (if u = t then insert (i + 1) (owns s t) else owns s u)" for u
    using tas_free(2) by (auto simp: tas_free(1) owns_def)
  have flag: "ms_used s' ! j \<longleftrightarrow> j = i \<or> ms_used s ! j" if "j < ms_num s" for j
    using that D(2) i by (auto simp: tas_free(1) nth_list_update)
  have "(\<exists>u. j + 1 \<in> owns s' u) \<longleftrightarrow> j = i \<or> (\<exists>u. j + 1 \<in> owns s u)" for j by (auto simp: own split: if_splits)
  then have flags: "\<forall>j < ms_num s. ms_used s' ! j \<longleftrightarrow> (\<exists>u. j + 1 \<in> owns s' u)" using flag D(7) by simp
  have sub: "owns s' u \<subseteq> {1..ms_num s}" for u using own [of u] D(5) [of u] D(5) [of t] i by auto
  have disj: "owns s' u \<inter> owns s' v = {}" if "u \<noteq> v" for u v using own [of u] own [of v] no [of u] no [of v] D(6) [OF that] that by auto
  have pcs: "j < ms_num s" if "ms_pc s' u = Probing j d" for u j d using that D(4) by (auto simp: tas_free(1) split: if_splits)
  have fields: "ms_num s' = ms_num s" "length (ms_used s') = ms_num s" "ms_tail s' < ms_num s" using D(2,3) by (simp_all add: tas_free(1))
  show ?thesis unfolding msg_inv_def fields(1) using fields(2,3) D(1) sub disj flags pcs by blast
qed

lemma give_back_inv:
  assumes inv: "msg_inv s"
    and give_back: "s' = s\<lparr>ms_used := (ms_used s)[tag - 1 := False], ms_held := (ms_held s)(t := ms_held s t - {tag})\<rparr>"
    "ms_pc s t = Idle" "tag \<in> ms_held s t"
  shows "msg_inv s'"
proof -
  note D = msg_invD [OF inv]
  have own: "owns s' u = (if u = t then owns s t - {tag} else owns s u)" for u
    using give_back(2,3) by (auto simp: give_back(1) owns_def)
  have mine: "tag \<in> owns s t" using give_back(3) by (simp add: owns_def)
  then have tag: "1 \<le> tag" "tag \<le> ms_num s" using D(5) [of t] by auto
  have other: "tag \<notin> owns s u" if "u \<noteq> t" for u using D(6) [OF that] mine by auto
  have iff: "x \<in> owns s' u \<longleftrightarrow> x \<noteq> tag \<and> x \<in> owns s u" for x u using own [of u] other [of u] by auto
  have flag: "ms_used s' ! j \<longleftrightarrow> j + 1 \<noteq> tag \<and> ms_used s ! j" if "j < ms_num s" for j
    using that D(2) tag by (auto simp: give_back(1) nth_list_update)
  have "(\<exists>u. j + 1 \<in> owns s' u) \<longleftrightarrow> j + 1 \<noteq> tag \<and> (\<exists>u. j + 1 \<in> owns s u)" for j using iff by simp
  then have flags: "\<forall>j < ms_num s. ms_used s' ! j \<longleftrightarrow> (\<exists>u. j + 1 \<in> owns s' u)" using flag D(7) by simp
  have sub: "owns s' u \<subseteq> {1..ms_num s}" for u using own [of u] D(5) [of u] D(5) [of t] by auto
  have disj: "owns s' u \<inter> owns s' v = {}" if "u \<noteq> v" for u v using own [of u] own [of v] D(6) [OF that] D(6) [of u v] that by auto
  have pcs: "j < ms_num s" if "ms_pc s' u = Probing j d" for u j d using that D(4) by (auto simp: give_back(1))
  have fields: "ms_num s' = ms_num s" "length (ms_used s') = ms_num s" "ms_tail s' < ms_num s" using D(2,3) by (simp_all add: give_back(1))
  show ?thesis unfolding msg_inv_def fields(1) using fields(2,3) D(1) sub disj flags pcs by blast
qed

lemma msg_step_inv:
  assumes "msg_step s s'" and "msg_inv s"
  shows "msg_inv s'"
  using assms(1)
proof (cases rule: msg_step.cases)
  case (start t)
  note D = msg_invD [OF assms(2)]
  show ?thesis unfolding start(1)
    by (rule msg_inv_frame [OF assms(2)]) (use D(3,4) start in \<open>auto simp: owns_def split: if_splits\<close>)
next
  case (tas_used t i c)
  note D = msg_invD [OF assms(2)]
  show ?thesis unfolding tas_used(1)
    by (rule msg_inv_frame [OF assms(2)]) (use D(1,3,4) tas_used in \<open>auto simp: owns_def split: if_splits\<close>)
next
  case (busy t i c)
  note D = msg_invD [OF assms(2)]
  show ?thesis unfolding busy(1)
    by (rule msg_inv_frame [OF assms(2)]) (use D(3,4) busy in \<open>auto simp: owns_def split: if_splits\<close>)
next
  case (finish t i)
  note D = msg_invD [OF assms(2)]
  show ?thesis unfolding finish(1)
    by (rule msg_inv_frame [OF assms(2)]) (use D(1,4) finish in \<open>auto simp: owns_def split: if_splits\<close>)
next
  case (tas_free t i c)
  then show ?thesis by (rule tas_free_inv [OF assms(2)])
next
  case (give_back t tag)
  then show ?thesis by (rule give_back_inv [OF assms(2)])
qed

definition msg_start :: "nat \<Rightarrow> msg_sys" where
  "msg_start n = \<lparr>ms_used = replicate n False, ms_num = n, ms_tail = 0, ms_pc = (\<lambda>_. Idle), ms_held = (\<lambda>_. {})\<rparr>"

lemma msg_start_inv: "0 < n \<Longrightarrow> msg_inv (msg_start n)"
  by (simp add: msg_inv_def msg_start_def owns_def)

lemma msg_steps_inv: "msg_step\<^sup>*\<^sup>* s s' \<Longrightarrow> msg_inv s \<Longrightarrow> msg_inv s' \<and> ms_num s' = ms_num s"
proof (induction rule: rtranclp_induct)
  case (step s' s'')
  then show ?case using msg_step_inv by (auto elim: msg_stepE)
qed simp

text \<open>
  C3: Messages are exclusive. Let any number of threads take and give back messages of a pool, in any interleaving of their
  memory accesses, from a state in which no message is in use. Then at every moment the tags that different threads hold
  are different, every held tag is a tag of the pool whose flag is set, and messages of different threads do not
  overlap in the array.
\<close>

theorem msg_tags_exclusive:
  assumes "0 < n" and "msg_step\<^sup>*\<^sup>* (msg_start n) s" and "t \<noteq> u" and "a \<in> ms_held s t" and "b \<in> ms_held s u"
  shows "a \<noteq> b \<and> a \<in> {1..n} \<and> ms_used s ! (a - 1) \<and> (msg_size * (a - 1) + msg_size \<le> msg_size * (b - 1) \<or> msg_size * (b - 1) + msg_size \<le> msg_size * (a - 1))"
proof -
  have inv: "msg_inv s" "ms_num s = n" using msg_steps_inv [OF assms(2) msg_start_inv [OF assms(1)]] by (simp_all add: msg_start_def)
  note D = msg_invD [OF inv(1)]
  have own: "a \<in> owns s t" "b \<in> owns s u" using assms(4,5) by (simp_all add: owns_def)
  then have ne: "a \<noteq> b" using D(6) [OF assms(3)] by auto
  have rng: "a \<in> {1..n}" "b \<in> {1..n}" using own D(5) inv(2) by blast+
  then have "a - 1 < n" "a - 1 + 1 = a" by auto
  then have flag: "ms_used s ! (a - 1)" using D(7) [of "a - 1"] own(1) inv(2) by auto
  from ne rng consider "a - 1 + 1 \<le> b - 1" | "b - 1 + 1 \<le> a - 1" by fastforce
  then have "msg_size * (a - 1 + 1) \<le> msg_size * (b - 1) \<or> msg_size * (b - 1 + 1) \<le> msg_size * (a - 1)" by cases (meson mult_le_mono2)+
  then show ?thesis using ne rng(1) flag by (simp add: add.commute)
qed

lemma demo_msg_run:
  "\<exists>s. msg_step\<^sup>*\<^sup>* (msg_start 2) s \<and> 1 \<in> ms_held s 0 \<and> 2 \<in> ms_held s 1"
proof -
  let ?s0 = "msg_start 2"
  let ?s1 = "?s0\<lparr>ms_pc := (ms_pc ?s0)(0 := Probing (ms_tail ?s0) 0)\<rparr>"
  let ?s2 = "?s1\<lparr>ms_pc := (ms_pc ?s1)(1 := Probing (ms_tail ?s1) 0)\<rparr>"
  let ?s3 = "?s2\<lparr>ms_used := (ms_used ?s2)[0 := True], ms_pc := (ms_pc ?s2)(0 := Taken 0)\<rparr>"
  let ?s4 = "?s3\<lparr>ms_pc := (ms_pc ?s3)(1 := Probing ((0 + 1) mod ms_num ?s3) (0 + 1))\<rparr>"
  let ?s5 = "?s4\<lparr>ms_used := (ms_used ?s4)[1 := True], ms_pc := (ms_pc ?s4)(1 := Taken 1)\<rparr>"
  let ?s6 = "?s5\<lparr>ms_tail := (0 + 1) mod ms_num ?s5, ms_pc := (ms_pc ?s5)(0 := Idle), ms_held := (ms_held ?s5)(0 := insert (0 + 1) (ms_held ?s5 0))\<rparr>"
  let ?s7 = "?s6\<lparr>ms_tail := (1 + 1) mod ms_num ?s6, ms_pc := (ms_pc ?s6)(1 := Idle), ms_held := (ms_held ?s6)(1 := insert (1 + 1) (ms_held ?s6 1))\<rparr>"
  have "msg_step ?s0 ?s1" "msg_step ?s1 ?s2" by (rule msg_step.start; simp add: msg_start_def)+
  moreover have "msg_step ?s2 ?s3" by (rule msg_step.tas_free) (simp_all add: msg_start_def)
  moreover have "msg_step ?s3 ?s4" by (rule msg_step.tas_used) (simp_all add: msg_start_def)
  moreover have "msg_step ?s4 ?s5" by (rule msg_step.tas_free) (simp_all add: msg_start_def numeral_2_eq_2)
  moreover have "msg_step ?s5 ?s6" "msg_step ?s6 ?s7" by (rule msg_step.finish; simp add: msg_start_def)+
  ultimately have "msg_step\<^sup>*\<^sup>* ?s0 ?s7" by (meson rtranclp.rtrancl_into_rtrancl rtranclp.rtrancl_refl)
  then show ?thesis by (rule exI [of _ ?s7, OF conjI]) (simp add: numeral_2_eq_2)
qed

theorem msg_tags_exclusive_witness: "\<exists>s. msg_step\<^sup>*\<^sup>* (msg_start 2) s \<and> ms_used s ! 0 \<and> 1 \<in> ms_held s 0 \<and> 2 \<in> ms_held s 1"
  using demo_msg_run msg_tags_exclusive [of 2 _ 0 1 1 2 64] by fastforce

text \<open>The function of the code, run by one thread without interruption, is a sequence of these steps.\<close>

lemma probe_steps:
  "msg_probe used n idx cnt = Some (r, used') \<Longrightarrow> ms_used s = used \<Longrightarrow> ms_num s = n \<Longrightarrow> ms_pc s t = Probing idx cnt \<Longrightarrow>
   msg_step\<^sup>*\<^sup>* s (case r of Inr i \<Rightarrow> s\<lparr>ms_used := used', ms_pc := (ms_pc s)(t := Taken i)\<rparr> | Inl _ \<Rightarrow> s\<lparr>ms_pc := (ms_pc s)(t := Idle)\<rparr>)"
proof (induction used n idx cnt arbitrary: s rule: msg_probe.induct)
  case (1 used n idx cnt)
  from "1.prems"(1) obtain b where b: "rd used idx = Some b" by (auto simp: msg_probe.simps [of used] split: option.splits)
  then have nth: "used ! idx = b" by (simp add: rd_Some_iff)
  consider (free) "\<not> b" | (stop) "b" "cnt + 1 \<ge> n" | (on) "b" "\<not> cnt + 1 \<ge> n" by blast
  then show ?case
  proof cases
    case free
    then have "r = Inr idx" "used' = used[idx := True]" using "1.prems"(1) b by (auto simp: msg_probe.simps [of used])
    then show ?thesis using msg_step.tas_free [OF "1.prems"(4)] free nth "1.prems"(2) by auto
  next
    case stop
    then obtain e where "r = Inl e" using "1.prems"(1) b by (auto simp: msg_probe.simps [of used])
    then show ?thesis using msg_step.busy [OF "1.prems"(4)] stop nth "1.prems"(2,3) by auto
  next
    case on
    let ?s = "s\<lparr>ms_pc := (ms_pc s)(t := Probing ((idx + 1) mod ms_num s) (cnt + 1))\<rparr>"
    have "msg_step s ?s" using msg_step.tas_used [OF "1.prems"(4)] on nth "1.prems"(2,3) by auto
    moreover have "msg_probe used n ((idx + 1) mod n) (cnt + 1) = Some (r, used')" using "1.prems"(1) b on by (simp add: msg_probe.simps [of used n idx])
    from "1.IH" [OF b _ on(2) this, of ?s] on(1) "1.prems"(2,3)
    have "msg_step\<^sup>*\<^sup>* ?s (case r of Inr i \<Rightarrow> s\<lparr>ms_used := used', ms_pc := (ms_pc s)(t := Taken i)\<rparr> | Inl _ \<Rightarrow> s\<lparr>ms_pc := (ms_pc s)(t := Idle)\<rparr>)"
      by (simp split: sum.splits)
    ultimately show ?thesis by (rule converse_rtranclp_into_rtranclp)
  qed
qed

end
