(* ===== verification/Cipher.thy ===== *)
theory Cipher
  imports Alg_Attrs Msg_Pool
begin

text \<open>
  The cipher front end \<^verbatim>\<open>wd_cipher.c\<close>: keys and sessions, checks of requests, synchronous and asynchronous requests, polling,
  initialisation of the algorithm and its reverse. It composes the scheduler, the message pools and the set-up of algorithms.

  Sessions and the contexts of the scheduler are kept behind their handles, messages behind their addresses. The functions of the
  driver are a parameter over a state \<open>'d\<close>; what the allocator and the loader answer are records of the environment. Calls of the
  user's callbacks are recorded.
\<close>

subsection \<open>Data\<close>

datatype wd_cipher_op_type = WD_CIPHER_ENCRYPTION | WD_CIPHER_DECRYPTION

datatype wd_cipher_alg = WD_CIPHER_SM4 | WD_CIPHER_AES | WD_CIPHER_DES | WD_CIPHER_3DES | WD_CIPHER_ALG_TYPE_MAX

datatype wd_cipher_mode = WD_CIPHER_ECB | WD_CIPHER_CBC | WD_CIPHER_CTR | WD_CIPHER_XTS | WD_CIPHER_OFB | WD_CIPHER_CFB
  | WD_CIPHER_CBC_CS1 | WD_CIPHER_CBC_CS2 | WD_CIPHER_CBC_CS3 | WD_CIPHER_CCM | WD_CIPHER_GCM | WD_CIPHER_XTS_GB
  | WD_CIPHER_MODE_TYPE_MAX

definition MAX_CIPHER_KEY_SIZE :: nat where "MAX_CIPHER_KEY_SIZE = 64"
definition AES_KEYSIZE_128 :: nat where "AES_KEYSIZE_128 = 16"
definition AES_KEYSIZE_192 :: nat where "AES_KEYSIZE_192 = 24"
definition AES_KEYSIZE_256 :: nat where "AES_KEYSIZE_256 = 32"
definition SM4_KEY_SIZE :: nat where "SM4_KEY_SIZE = 16"
definition DES_KEY_SIZE :: nat where "DES_KEY_SIZE = 8"
definition DES3_2KEY_SIZE :: nat where "DES3_2KEY_SIZE = 2 * DES_KEY_SIZE"
definition DES3_3KEY_SIZE :: nat where "DES3_3KEY_SIZE = 3 * DES_KEY_SIZE"
definition AES_BLOCK_SIZE :: nat where "AES_BLOCK_SIZE = 16"
definition DES3_BLOCK_SIZE :: nat where "DES3_BLOCK_SIZE = 8"
definition WD_SGL_BUF :: nat where "WD_SGL_BUF = 1"

lemmas cipher_consts = MAX_CIPHER_KEY_SIZE_def AES_KEYSIZE_128_def AES_KEYSIZE_192_def AES_KEYSIZE_256_def SM4_KEY_SIZE_def
  DES_KEY_SIZE_def DES3_2KEY_SIZE_def DES3_3KEY_SIZE_def AES_BLOCK_SIZE_def DES3_BLOCK_SIZE_def WD_SGL_BUF_def

definition des_weak_keys :: "nat list list" where
  "des_weak_keys =
    [[0x01, 0x01, 0x01, 0x01, 0x01, 0x01, 0x01, 0x01],
     [0xFE, 0xFE, 0xFE, 0xFE, 0xFE, 0xFE, 0xFE, 0xFE],
     [0x1F, 0x1F, 0x1F, 0x1F, 0x0E, 0x0E, 0x0E, 0x0E],
     [0xE0, 0xE0, 0xE0, 0xE0, 0xF1, 0xF1, 0xF1, 0xF1],
     [0x01, 0xFE, 0x01, 0xFE, 0x01, 0xFE, 0x01, 0xFE],
     [0xFE, 0x01, 0xFE, 0x01, 0xFE, 0x01, 0xFE, 0x01],
     [0x1F, 0xE0, 0x1F, 0xE0, 0x0E, 0xF1, 0x0E, 0xF1],
     [0xE0, 0x1F, 0xE0, 0x1F, 0xF1, 0x0E, 0xF1, 0x0E],
     [0x01, 0xE0, 0x01, 0xE0, 0x01, 0xF1, 0x01, 0xF1],
     [0xE0, 0x01, 0xE0, 0x01, 0xF1, 0x01, 0xF1, 0x01],
     [0x1F, 0xFE, 0x1F, 0xFE, 0x0E, 0xFE, 0x0E, 0xFE],
     [0xFE, 0x1F, 0xFE, 0x1F, 0xFE, 0x0E, 0xFE, 0x0E],
     [0x01, 0x1F, 0x01, 0x1F, 0x01, 0x0E, 0x01, 0x0E],
     [0x1F, 0x01, 0x1F, 0x01, 0x0E, 0x01, 0x0E, 0x01],
     [0xE0, 0xFE, 0xE0, 0xFE, 0xF1, 0xFE, 0xF1, 0xFE],
     [0xFE, 0xE0, 0xFE, 0xE0, 0xFE, 0xF1, 0xFE, 0xF1]]"

text \<open>The table of names; \<open>None\<close> is an entry that the initialiser leaves out.\<close>

definition alg_mode_name :: "wd_cipher_alg \<Rightarrow> wd_cipher_mode \<Rightarrow> string option" where
  "alg_mode_name alg mode =
    (case alg of
       WD_CIPHER_SM4 \<Rightarrow>
         (case mode of
            WD_CIPHER_ECB \<Rightarrow> Some ''ecb(sm4)'' | WD_CIPHER_CBC \<Rightarrow> Some ''cbc(sm4)'' | WD_CIPHER_CTR \<Rightarrow> Some ''ctr(sm4)''
          | WD_CIPHER_XTS \<Rightarrow> Some ''xts(sm4)'' | WD_CIPHER_OFB \<Rightarrow> Some ''ofb(sm4)'' | WD_CIPHER_CFB \<Rightarrow> Some ''cfb(sm4)''
          | WD_CIPHER_CBC_CS1 \<Rightarrow> Some ''cbc-cs1(sm4)'' | WD_CIPHER_CBC_CS2 \<Rightarrow> Some ''cbc-cs2(sm4)'' | WD_CIPHER_CBC_CS3 \<Rightarrow> Some ''cbc-cs3(sm4)''
          | WD_CIPHER_CCM \<Rightarrow> Some [] | WD_CIPHER_GCM \<Rightarrow> Some [] | WD_CIPHER_XTS_GB \<Rightarrow> Some ''xts(sm4)'' | WD_CIPHER_MODE_TYPE_MAX \<Rightarrow> None)
     | WD_CIPHER_AES \<Rightarrow>
         (case mode of
            WD_CIPHER_ECB \<Rightarrow> Some ''ecb(aes)'' | WD_CIPHER_CBC \<Rightarrow> Some ''cbc(aes)'' | WD_CIPHER_CTR \<Rightarrow> Some ''ctr(aes)''
          | WD_CIPHER_XTS \<Rightarrow> Some ''xts(aes)'' | WD_CIPHER_OFB \<Rightarrow> Some ''ofb(aes)'' | WD_CIPHER_CFB \<Rightarrow> Some ''cfb(aes)''
          | WD_CIPHER_CBC_CS1 \<Rightarrow> Some ''cbc-cs1(aes)'' | WD_CIPHER_CBC_CS2 \<Rightarrow> Some ''cbc-cs2(aes)'' | WD_CIPHER_CBC_CS3 \<Rightarrow> Some ''cbc-cs3(aes)''
          | _ \<Rightarrow> None)
     | WD_CIPHER_DES \<Rightarrow> (case mode of WD_CIPHER_ECB \<Rightarrow> Some ''ecb(des)'' | WD_CIPHER_CBC \<Rightarrow> Some ''cbc(des)'' | _ \<Rightarrow> None)
     | WD_CIPHER_3DES \<Rightarrow> (case mode of WD_CIPHER_ECB \<Rightarrow> Some ''ecb(des3_ede)'' | WD_CIPHER_CBC \<Rightarrow> Some ''cbc(des3_ede)'' | _ \<Rightarrow> None)
     | WD_CIPHER_ALG_TYPE_MAX \<Rightarrow> None)"

text \<open>\<open>se_key\<close> is the buffer of the key, \<open>se_sched_key\<close> the handle of the session in the scheduler.\<close>

record wd_cipher_sess =
  se_alg_name :: "string option"
  se_alg :: wd_cipher_alg
  se_mode :: wd_cipher_mode
  se_key :: "nat list option"
  se_key_bytes :: nat
  se_sched_key :: "nat option"
  se_mm_ops :: "mem_ops option"
  se_mm_type :: wd_mem_type

text \<open>The pointer in the request is an address or a list of buffers (address and length).\<close>

datatype cipher_buf = Flat nat | Datalist "(nat \<times> nat) list"

record wd_cipher_req =
  rq_op_type :: wd_cipher_op_type
  rq_src :: cipher_buf
  rq_dst :: cipher_buf
  rq_iv :: nat
  rq_in_bytes :: nat
  rq_iv_bytes :: nat
  rq_out_buf_bytes :: nat
  rq_out_bytes :: nat
  rq_state :: nat
  rq_type :: nat
  rq_data_fmt :: nat
  rq_cb :: nat
  rq_cb_param :: nat

text \<open>The key and the memory functions are pointers into the session whose handle \<open>cm_key\<close> and \<open>cm_mm_ops\<close> hold.\<close>

record wd_cipher_msg =
  cm_req :: wd_cipher_req
  cm_tag :: nat
  cm_alg :: wd_cipher_alg
  cm_op_type :: wd_cipher_op_type
  cm_mode :: wd_cipher_mode
  cm_data_fmt :: nat
  cm_result :: nat
  cm_key_bytes :: nat
  cm_iv_bytes :: nat
  cm_in_bytes :: nat
  cm_out_bytes :: nat
  cm_key :: nat
  cm_iv :: nat
  cm_in :: cipher_buf
  cm_out :: cipher_buf
  cm_mm_ops :: nat
  cm_mm_type :: wd_mem_type

text \<open>What \<^verbatim>\<open>memset\<close> to zero leaves.\<close>

definition zero_req :: wd_cipher_req where
  "zero_req = \<lparr>rq_op_type = WD_CIPHER_ENCRYPTION, rq_src = Flat 0, rq_dst = Flat 0, rq_iv = 0, rq_in_bytes = 0, rq_iv_bytes = 0,
     rq_out_buf_bytes = 0, rq_out_bytes = 0, rq_state = 0, rq_type = 0, rq_data_fmt = 0, rq_cb = 0, rq_cb_param = 0\<rparr>"

definition zero_msg :: wd_cipher_msg where
  "zero_msg = \<lparr>cm_req = zero_req, cm_tag = 0, cm_alg = WD_CIPHER_SM4, cm_op_type = WD_CIPHER_ENCRYPTION, cm_mode = WD_CIPHER_ECB,
     cm_data_fmt = 0, cm_result = 0, cm_key_bytes = 0, cm_iv_bytes = 0, cm_in_bytes = 0, cm_out_bytes = 0, cm_key = 0, cm_iv = 0,
     cm_in = Flat 0, cm_out = Flat 0, cm_mm_ops = 0, cm_mm_type = UADK_MEM_AUTO\<rparr>"

definition SIZEOF_CIPHER_MSG :: nat where "SIZEOF_CIPHER_MSG = 144"

record wd_cipher_setting =
  cs_status :: wd_status
  cs_config :: wd_ctx_config_internal
  cs_sched :: wd_sched
  cs_pool :: wd_async_msg_pool
  cs_priv :: bool
  cs_dlhandle :: bool

text \<open>
  The state of the front end: its global variable, what the handle of the scheduler points at, the sessions, the messages in the
  pools, the state of the drivers and the requests for which callbacks were made, the latest first.
\<close>

record 'd cipher_world =
  cw_setting :: wd_cipher_setting
  cw_sched :: "sched_state option"
  cw_sess :: "nat \<rightharpoonup> wd_cipher_sess"
  cw_msgs :: "nat \<Rightarrow> wd_cipher_msg"
  cw_dev :: 'd
  cw_called :: "wd_cipher_req list"

record 'd cipher_drv =
  dx_send :: "wd_alg_driver \<Rightarrow> nat \<Rightarrow> wd_cipher_msg \<Rightarrow> 'd \<Rightarrow> int \<times> wd_cipher_msg \<times> 'd"
  dx_recv :: "wd_alg_driver \<Rightarrow> nat \<Rightarrow> wd_cipher_msg \<Rightarrow> 'd \<Rightarrow> int \<times> wd_cipher_msg \<times> 'd"
  dx_wait :: "nat \<Rightarrow> 'd \<Rightarrow> 'd"

subsection \<open>Keys\<close>

text \<open>No outcome if the key is shorter than the comparison reads.\<close>

definition is_des_weak_key :: "nat list \<Rightarrow> bool option" where
  "is_des_weak_key key = (if length key < DES_KEY_SIZE then None else Some (list_ex (\<lambda>w. w = take DES_KEY_SIZE key) des_weak_keys))"

definition aes_key_len_check :: "nat \<Rightarrow> int" where
  "aes_key_len_check n = (if n = AES_KEYSIZE_128 \<or> n = AES_KEYSIZE_192 \<or> n = AES_KEYSIZE_256 then 0 else err WD_EINVAL)"

definition cipher_key_len_check :: "wd_cipher_sess \<Rightarrow> nat \<Rightarrow> int" where
  "cipher_key_len_check sess n =
    (let xts = (se_mode sess = WD_CIPHER_XTS \<or> se_mode sess = WD_CIPHER_XTS_GB);
         key_len = (if xts then n div 2 else n) in
     if xts \<and> n mod 2 = 1 then err WD_EINVAL
     else if xts \<and> key_len = AES_KEYSIZE_192 then err WD_EINVAL
     else
       (case se_alg sess of
          WD_CIPHER_SM4 \<Rightarrow> if key_len \<noteq> SM4_KEY_SIZE then err WD_EINVAL else 0
        | WD_CIPHER_AES \<Rightarrow> aes_key_len_check key_len
        | WD_CIPHER_DES \<Rightarrow> if key_len \<noteq> DES_KEY_SIZE then err WD_EINVAL else 0
        | WD_CIPHER_3DES \<Rightarrow> if key_len \<noteq> DES3_2KEY_SIZE \<and> key_len \<noteq> DES3_3KEY_SIZE then err WD_EINVAL else 0
        | WD_CIPHER_ALG_TYPE_MAX \<Rightarrow> err WD_EINVAL))"

definition wd_cipher_alg_check :: "string \<Rightarrow> bool" where
  "wd_cipher_alg_check alg_name =
    list_ex (\<lambda>alg. list_ex (\<lambda>mode. case alg_mode_name alg mode of None \<Rightarrow> False | Some s \<Rightarrow> s \<noteq> [] \<and> alg_name = s)
        [WD_CIPHER_ECB, WD_CIPHER_CBC, WD_CIPHER_CTR, WD_CIPHER_XTS, WD_CIPHER_OFB, WD_CIPHER_CFB, WD_CIPHER_CBC_CS1, WD_CIPHER_CBC_CS2,
         WD_CIPHER_CBC_CS3, WD_CIPHER_CCM, WD_CIPHER_GCM, WD_CIPHER_XTS_GB])
      [WD_CIPHER_SM4, WD_CIPHER_AES, WD_CIPHER_DES, WD_CIPHER_3DES]"

text \<open>No outcome if a buffer is read or written beyond its end.\<close>

definition wd_cipher_set_key :: "wd_cipher_sess option \<Rightarrow> nat list option \<Rightarrow> nat \<Rightarrow> (int \<times> wd_cipher_sess option) option" where
  "wd_cipher_set_key h_sess key key_len =
    (case (key, h_sess) of
       (Some key, Some sess) \<Rightarrow>
         if cipher_key_len_check sess key_len \<noteq> 0 then Some (err WD_EINVAL, Some sess)
         else
           (case (if se_alg sess = WD_CIPHER_DES then is_des_weak_key key else Some False) of
              None \<Rightarrow> None
            | Some True \<Rightarrow> Some (err WD_EINVAL, Some sess)
            | Some False \<Rightarrow>
                (case se_key sess of
                   None \<Rightarrow> None
                 | Some buf \<Rightarrow>
                     if key_len > length key \<or> key_len > length buf then None
                     else Some (0, Some (sess\<lparr>se_key_bytes := key_len, se_key := Some (take key_len key @ drop key_len buf)\<rparr>))))
     | _ \<Rightarrow> Some (err WD_EINVAL, h_sess))"

subsection \<open>Sessions\<close>

record wd_cipher_sess_setup =
  su_alg :: wd_cipher_alg
  su_mode :: wd_cipher_mode
  su_sched_param :: "sched_params option"
  su_mm_ops :: mem_ops
  su_mm_type :: wd_mem_type

text \<open>The handle that a new session gets, the structure behind the handle of a context, the memory for the key, and the scheduler's part.\<close>

record sess_env =
  sv_malloc :: "nat option"
  sv_ctx :: "nat \<Rightarrow> wd_ctx_h option"
  sv_key_ok :: bool
  sv_cpu :: "wd_error + nat"
  sv_skey :: "nat option"
  sv_locks :: "bool list"

definition cipher_setup_memory_and_buffers ::
  "sess_env \<Rightarrow> wd_ctx_config_internal \<Rightarrow> wd_cipher_sess \<Rightarrow> wd_cipher_sess_setup \<Rightarrow> (int \<times> wd_cipher_sess) option" where
  "cipher_setup_memory_and_buffers ev config sess setup =
    (case cc_ctxs config of
       None \<Rightarrow> None
     | Some ctxs \<Rightarrow>
         (case rd ctxs 0 of
            None \<Rightarrow> None
          | Some ctx \<Rightarrow>
              (let (ret, ops) = wd_mem_ops_init (sv_ctx ev (ci_ctx ctx)) (su_mm_ops setup) (su_mm_type setup) in
               if ret \<noteq> 0 then Some (ret, sess)
               else
                 (let sess = sess\<lparr>se_mm_ops := Some ops, se_mm_type := su_mm_type setup\<rparr> in
                  if \<not> sv_key_ok ev then Some (err WD_ENOMEM, sess)
                  else Some (0, sess\<lparr>se_key := Some (replicate MAX_CIPHER_KEY_SIZE 0)\<rparr>)))))"

definition zero_sess :: wd_cipher_sess where
  "zero_sess = \<lparr>se_alg_name = None, se_alg = WD_CIPHER_SM4, se_mode = WD_CIPHER_ECB, se_key = None, se_key_bytes = 0, se_sched_key = None,
     se_mm_ops = None, se_mm_type = UADK_MEM_AUTO\<rparr>"

text \<open>The result is the handle of the session, \<open>None\<close> for 0. A missing callback of the scheduler has no outcome.\<close>

definition wd_cipher_alloc_sess ::
  "sess_env \<Rightarrow> wd_alg_registry \<Rightarrow> wd_cipher_sess_setup option \<Rightarrow> 'd cipher_world \<Rightarrow> (nat option \<times> 'd cipher_world) option" where
  "wd_cipher_alloc_sess ev rg setup w =
    (case (setup, sv_malloc ev) of
       (Some su, Some h) \<Rightarrow>
         (let config = cs_config (cw_setting w); sched = cs_sched (cw_setting w) in
          if su_alg su = WD_CIPHER_ALG_TYPE_MAX \<or> su_mode su = WD_CIPHER_MODE_TYPE_MAX then Some (None, w)
          else
            (case alg_mode_name (su_alg su) (su_mode su) of
               None \<Rightarrow> Some (None, w)
             | Some name \<Rightarrow>
                 (case (if cc_ctx_num config = 0 then Some [] else map_option (take (cc_ctx_num config)) (cc_ctxs config)) of
                    None \<Rightarrow> None
                  | Some ctxs \<Rightarrow>
                      if length ctxs < cc_ctx_num config then None
                      else if \<not> wd_drv_alg_support rg name (map ci_drv ctxs) then Some (None, w)
                      else
                        (case cipher_setup_memory_and_buffers ev config
                                (zero_sess\<lparr>se_alg_name := Some name, se_alg := su_alg su, se_mode := su_mode su\<rparr>) su of
                           None \<Rightarrow> None
                         | Some (ret, sess) \<Rightarrow>
                             if ret \<noteq> 0 then Some (None, w)
                             else
                               (case (sd_sched_init sched, cw_sched w) of
                                  (Some policy, Some st) \<Rightarrow>
                                    (case sched_init policy (sv_cpu ev) (sv_skey ev) (sv_locks ev) st (su_sched_param su) of
                                       None \<Rightarrow> None
                                     | Some (Inl e, st) \<Rightarrow> Some (None, w\<lparr>cw_sched := Some st\<rparr>)
                                     | Some (Inr None, st) \<Rightarrow> None
                                     | Some (Inr (Some a), st) \<Rightarrow>
                                         (case sd_set_param sched of
                                            None \<Rightarrow> None
                                          | Some _ \<Rightarrow>
                                              (case wd_sched_set_param rg st a \<lparr>wp_pkt_size = 0, wp_data_mode = 0, wp_prio_mode = 0,
                                                      wp_alg_name = Some name, wp_ctxs = cc_ctxs config\<rparr> of
                                                 None \<Rightarrow> None
                                               | Some st \<Rightarrow>
                                                   Some (Some h, w\<lparr>cw_sched := Some st,
                                                     cw_sess := (cw_sess w)(h \<mapsto> sess\<lparr>se_sched_key := Some a\<rparr>)\<rparr>))))
                                | _ \<Rightarrow> None)))))
     | _ \<Rightarrow> Some (None, w))"

definition wd_cipher_free_sess :: "nat option \<Rightarrow> 'd cipher_world \<Rightarrow> 'd cipher_world option" where
  "wd_cipher_free_sess h_sess w =
    (case h_sess of
       None \<Rightarrow> Some w
     | Some h \<Rightarrow>
         (case cw_sess w h of
            None \<Rightarrow> None
          | Some sess \<Rightarrow>
              (case (wd_memset_zero (se_key sess) (se_key_bytes sess), se_sched_key sess) of
                 (None, _) \<Rightarrow> None
               | (Some _, None) \<Rightarrow> Some (w\<lparr>cw_sess := (cw_sess w)(h := None)\<rparr>)
               | (Some _, Some a) \<Rightarrow>
                   (case cw_sched w of
                      None \<Rightarrow> None
                    | Some st \<Rightarrow>
                        if sd_sched_uninit (cs_sched (cw_setting w)) then
                          map_option (\<lambda>st. w\<lparr>cw_sched := Some st, cw_sess := (cw_sess w)(h := None)\<rparr>) (sched_session_uninit st (Some a))
                        else Some (w\<lparr>cw_sched := Some (st\<lparr>ss_keys := (ss_keys st)(a := None)\<rparr>), cw_sess := (cw_sess w)(h := None)\<rparr>)))))"

subsection \<open>Requests\<close>

definition fill_request_msg :: "wd_cipher_msg \<Rightarrow> wd_cipher_req \<Rightarrow> nat \<Rightarrow> wd_cipher_sess \<Rightarrow> wd_cipher_msg" where
  "fill_request_msg msg req h sess =
    msg\<lparr>cm_req := req, cm_alg := se_alg sess, cm_mode := se_mode sess, cm_op_type := rq_op_type req, cm_in := rq_src req,
        cm_in_bytes := rq_in_bytes req, cm_out := rq_dst req, cm_out_bytes := rq_out_bytes req, cm_key := h,
        cm_key_bytes := u16 (se_key_bytes sess), cm_iv := rq_iv req, cm_iv_bytes := u16 (rq_iv_bytes req), cm_data_fmt := rq_data_fmt req,
        cm_mm_ops := h, cm_mm_type := se_mm_type sess, cm_result := 0\<rparr>"

definition cipher_iv_len_check :: "wd_cipher_req \<Rightarrow> wd_cipher_sess \<Rightarrow> int" where
  "cipher_iv_len_check req sess =
    (if se_mode sess = WD_CIPHER_ECB then 0
     else if rq_iv req = 0 then err WD_EINVAL
     else
       (case se_alg sess of
          WD_CIPHER_AES \<Rightarrow> if rq_iv_bytes req \<noteq> AES_BLOCK_SIZE then err WD_EINVAL else 0
        | WD_CIPHER_SM4 \<Rightarrow> if rq_iv_bytes req \<noteq> AES_BLOCK_SIZE then err WD_EINVAL else 0
        | WD_CIPHER_3DES \<Rightarrow> if rq_iv_bytes req \<noteq> DES3_BLOCK_SIZE then err WD_EINVAL else 0
        | WD_CIPHER_DES \<Rightarrow> if rq_iv_bytes req \<noteq> DES3_BLOCK_SIZE then err WD_EINVAL else 0
        | WD_CIPHER_ALG_TYPE_MAX \<Rightarrow> err WD_EINVAL))"

definition cipher_in_len_check :: "wd_cipher_sess \<Rightarrow> wd_cipher_req \<Rightarrow> int" where
  "cipher_in_len_check sess req =
    (if rq_in_bytes req = 0 then err WD_EINVAL
     else if se_alg sess \<noteq> WD_CIPHER_AES \<and> se_alg sess \<noteq> WD_CIPHER_SM4 then 0
     else
       (case se_mode sess of
          WD_CIPHER_ECB \<Rightarrow> if rq_in_bytes req mod AES_BLOCK_SIZE \<noteq> 0 then err WD_EINVAL else 0
        | WD_CIPHER_CBC \<Rightarrow> if rq_in_bytes req mod AES_BLOCK_SIZE \<noteq> 0 then err WD_EINVAL else 0
        | WD_CIPHER_CBC_CS1 \<Rightarrow> if rq_in_bytes req < AES_BLOCK_SIZE then err WD_EINVAL else 0
        | WD_CIPHER_CBC_CS2 \<Rightarrow> if rq_in_bytes req < AES_BLOCK_SIZE then err WD_EINVAL else 0
        | WD_CIPHER_CBC_CS3 \<Rightarrow> if rq_in_bytes req < AES_BLOCK_SIZE then err WD_EINVAL else 0
        | _ \<Rightarrow> 0))"

text \<open>The two readings of the pointer; an address that is no list is not read as one.\<close>

definition buf_list :: "cipher_buf \<Rightarrow> (nat \<times> nat) list option" where
  "buf_list b = (case b of Datalist bs \<Rightarrow> Some bs | Flat a \<Rightarrow> if a = 0 then Some [] else None)"

definition buf_addr :: "cipher_buf \<Rightarrow> nat" where
  "buf_addr b = (case b of Flat a \<Rightarrow> a | Datalist bs \<Rightarrow> if bs = [] then 0 else 1)"

definition wd_cipher_check_params :: "wd_cipher_sess option \<Rightarrow> wd_cipher_req option \<Rightarrow> nat \<Rightarrow> int option" where
  "wd_cipher_check_params h_sess req mode =
    (case (h_sess, req) of
       (Some sess, Some req) \<Rightarrow>
         if mode = CTX_MODE_ASYNC \<and> rq_cb req = 0 then Some (err WD_EINVAL)
         else if rq_out_buf_bytes req < rq_in_bytes req then Some (err WD_EINVAL)
         else if cipher_in_len_check sess req \<noteq> 0 then Some (cipher_in_len_check sess req)
         else if rq_data_fmt req = WD_SGL_BUF then
           (case buf_list (rq_src req) of
              None \<Rightarrow> None
            | Some src \<Rightarrow>
                if wd_check_datalist src (rq_in_bytes req) \<noteq> 0 then Some (err WD_EINVAL)
                else
                  (case buf_list (rq_dst req) of
                     None \<Rightarrow> None
                   | Some dst \<Rightarrow>
                       if wd_check_datalist dst (rq_in_bytes req) \<noteq> 0 then Some (err WD_EINVAL) else Some (cipher_iv_len_check req sess)))
         else if wd_check_src_dst (buf_addr (rq_src req)) (rq_in_bytes req) (buf_addr (rq_dst req)) (rq_out_bytes req) \<noteq> 0
         then Some (err WD_EINVAL)
         else Some (cipher_iv_len_check req sess)
     | _ \<Rightarrow> Some (err WD_EINVAL))"

text \<open>The context at an index and its driver; no outcome if one of them is missing.\<close>

definition ctx_at :: "wd_ctx_config_internal \<Rightarrow> nat \<Rightarrow> (wd_ctx_internal \<times> wd_alg_driver) option" where
  "ctx_at config idx =
    (case cc_ctxs config of
       None \<Rightarrow> None
     | Some ctxs \<Rightarrow>
         (case rd ctxs idx of
            None \<Rightarrow> None
          | Some ctx \<Rightarrow> (case ci_drv ctx of None \<Rightarrow> None | Some drv \<Rightarrow> Some (ctx, drv))))"

definition send_recv_sync ::
  "'d cipher_drv \<Rightarrow> bool \<Rightarrow> wd_ctx_internal \<times> wd_alg_driver \<Rightarrow> wd_cipher_msg \<Rightarrow> 'd \<Rightarrow> int \<times> wd_cipher_msg \<times> 'd" where
  "send_recv_sync dx epoll_en = (\<lambda>(ctx, drv) msg d.
    case wd_handle_msg_sync (dx_send dx drv (ci_ctx ctx)) (dx_recv dx drv (ci_ctx ctx)) (dx_wait dx (ci_ctx ctx)) msg None epoll_en d of
      (ret, _, msg, d) \<Rightarrow> (ret, msg, d))"

text \<open>The scheduler's choice for a session, with the effect on the scheduler.\<close>

definition pick_ctx :: "nat \<Rightarrow> wd_cipher_sess \<Rightarrow> 'd cipher_world \<Rightarrow> (nat \<times> 'd cipher_world) option" where
  "pick_ctx mode sess w =
    (case sd_pick_next_ctx (cs_sched (cw_setting w)) of
       None \<Rightarrow> None
     | Some policy \<Rightarrow>
         map_option (\<lambda>(idx, st). (idx, w\<lparr>cw_sched := st\<rparr>)) (pick_next_ctx policy (cw_sched w) (se_sched_key sess) mode))"

definition set_config :: "wd_ctx_config_internal \<Rightarrow> 'd cipher_world \<Rightarrow> 'd cipher_world" where
  "set_config config w = w\<lparr>cw_setting := (cw_setting w)\<lparr>cs_config := config\<rparr>\<rparr>"

definition set_pool :: "wd_async_msg_pool \<Rightarrow> 'd cipher_world \<Rightarrow> 'd cipher_world" where
  "set_pool pool w = w\<lparr>cw_setting := (cw_setting w)\<lparr>cs_pool := pool\<rparr>\<rparr>"

text \<open>
  Both kinds of requests return the code, the request of the caller (a synchronous one gets its state from the response) and the
  state. A handle that is no session has no outcome.
\<close>

definition wd_do_cipher_sync ::
  "bool \<Rightarrow> 'd cipher_drv \<Rightarrow> nat option \<Rightarrow> wd_cipher_req option \<Rightarrow> 'd cipher_world \<Rightarrow> (int \<times> wd_cipher_req option \<times> 'd cipher_world) option" where
  "wd_do_cipher_sync need_info dx h_sess req w =
    (let sess = (case h_sess of None \<Rightarrow> None | Some h \<Rightarrow> cw_sess w h) in
     if h_sess \<noteq> None \<and> sess = None then None
     else
       (case wd_cipher_check_params sess req CTX_MODE_SYNC of
          None \<Rightarrow> None
        | Some ret \<Rightarrow>
            if ret \<noteq> 0 then Some (ret, req, w)
            else
              (case (h_sess, sess, req) of
                 (Some h, Some se, Some rq) \<Rightarrow>
                   (let msg = fill_request_msg zero_msg rq h se; rq = rq\<lparr>rq_state := 0\<rparr> in
                    case pick_ctx CTX_MODE_SYNC se w of
                      None \<Rightarrow> None
                    | Some (idx, w) \<Rightarrow>
                        (case wd_check_ctx (cs_config (cw_setting w)) CTX_MODE_SYNC idx of
                           None \<Rightarrow> None
                         | Some ret \<Rightarrow>
                             if ret \<noteq> 0 then Some (ret, Some rq, w)
                             else
                               (case wd_dfx_msg_cnt need_info (cs_config (cw_setting w)) WD_CTX_CNT_NUM idx of
                                  None \<Rightarrow> None
                                | Some config \<Rightarrow>
                                    (case ctx_at config idx of
                                       None \<Rightarrow> None
                                     | Some ctx \<Rightarrow>
                                         (let (ret, msg, d) = send_recv_sync dx (cc_epoll_en config) ctx msg (cw_dev w) in
                                          Some (ret, Some (rq\<lparr>rq_state := cm_result msg\<rparr>), (set_config config w)\<lparr>cw_dev := d\<rparr>))))))
               | _ \<Rightarrow> None)))"

text \<open>The part of an asynchronous request behind the choice of the context.\<close>

definition async_send ::
  "bool \<Rightarrow> 'd cipher_drv \<Rightarrow> nat \<Rightarrow> wd_cipher_sess \<Rightarrow> wd_cipher_req \<Rightarrow> nat \<Rightarrow> 'd cipher_world \<Rightarrow> (int \<times> 'd cipher_world) option" where
  "async_send need_info dx h se rq idx w =
    (let config = cs_config (cw_setting w) in
     case wd_get_msg_from_pool (cs_pool (cw_setting w)) (int idx) of
       None \<Rightarrow> None
     | Some (Inl _, pool) \<Rightarrow> Some (err WD_EBUSY, set_pool pool w)
     | Some (Inr (msg_id, a), pool) \<Rightarrow>
         (let msg = (fill_request_msg (cw_msgs w a) rq h se)\<lparr>cm_tag := msg_id\<rparr>;
              w = (set_pool pool w)\<lparr>cw_msgs := (cw_msgs w)(a := msg)\<rparr> in
          case ctx_at config idx of
            None \<Rightarrow> None
          | Some (ctx, drv) \<Rightarrow>
              (case dx_send dx drv (ci_ctx ctx) msg (cw_dev w) of
                 (ret, msg, d) \<Rightarrow>
                   (let w = w\<lparr>cw_msgs := (cw_msgs w)(a := msg), cw_dev := d\<rparr> in
                    if ret < 0 then
                      map_option (\<lambda>pool. (ret, set_pool pool w)) (wd_put_msg_to_pool pool (int idx) (cm_tag msg))
                    else
                      map_option (\<lambda>config. (0, set_config config w)) (wd_dfx_msg_cnt need_info config WD_CTX_CNT_NUM idx)))))"

definition wd_do_cipher_async ::
  "bool \<Rightarrow> 'd cipher_drv \<Rightarrow> nat option \<Rightarrow> wd_cipher_req option \<Rightarrow> 'd cipher_world \<Rightarrow> (int \<times> 'd cipher_world) option" where
  "wd_do_cipher_async need_info dx h_sess req w =
    (let sess = (case h_sess of None \<Rightarrow> None | Some h \<Rightarrow> cw_sess w h) in
     if h_sess \<noteq> None \<and> sess = None then None
     else
       (case wd_cipher_check_params sess req CTX_MODE_ASYNC of
          None \<Rightarrow> None
        | Some ret \<Rightarrow>
            if ret \<noteq> 0 then Some (ret, w)
            else
              (case (h_sess, sess, req) of
                 (Some h, Some se, Some rq) \<Rightarrow>
                   (case pick_ctx CTX_MODE_ASYNC se w of
                      None \<Rightarrow> None
                    | Some (idx, w) \<Rightarrow>
                        (case wd_check_ctx (cs_config (cw_setting w)) CTX_MODE_ASYNC idx of
                           None \<Rightarrow> None
                         | Some ret \<Rightarrow> if ret \<noteq> 0 then Some (ret, w) else async_send need_info dx h se rq idx w))
               | _ \<Rightarrow> None)))"

definition wd_cipher_get_msg :: "nat \<Rightarrow> nat \<Rightarrow> 'd cipher_world \<Rightarrow> nat option option" where
  "wd_cipher_get_msg idx tag w = wd_find_msg_in_pool (cs_pool (cw_setting w)) (int idx) tag"

subsection \<open>Polling\<close>

text \<open>
  One response: the code of the driver, whether a response was delivered, the buffer for responses, and the state. Then the loop;
  \<open>n\<close> is the number of rounds left, \<open>cnt\<close> the value of \<^verbatim>\<open>*count\<close>.
\<close>

definition poll_one ::
  "'d cipher_drv \<Rightarrow> nat \<Rightarrow> wd_ctx_internal \<times> wd_alg_driver \<Rightarrow> wd_cipher_msg \<Rightarrow> 'd cipher_world
    \<Rightarrow> (int \<times> bool \<times> wd_cipher_msg \<times> 'd cipher_world) option" where
  "poll_one dx idx = (\<lambda>(ctx, drv) resp w.
    case dx_recv dx drv (ci_ctx ctx) resp (cw_dev w) of
      (ret, resp, d) \<Rightarrow>
        (let w = w\<lparr>cw_dev := d\<rparr> in
         if ret < 0 then Some (ret, False, resp, w)
         else
           (case wd_find_msg_in_pool (cs_pool (cw_setting w)) (int idx) (cm_tag resp) of
              None \<Rightarrow> None
            | Some None \<Rightarrow> Some (err WD_EINVAL, False, resp, w)
            | Some (Some a) \<Rightarrow>
                (let msg = cw_msgs w a; req = (cm_req msg)\<lparr>rq_state := cm_result resp\<rparr>;
                     w = w\<lparr>cw_msgs := (cw_msgs w)(a := msg\<lparr>cm_tag := cm_tag resp, cm_req := req\<rparr>), cw_called := req # cw_called w\<rparr> in
                 map_option (\<lambda>pool. (ret, True, resp, set_pool pool w)) (wd_put_msg_to_pool (cs_pool (cw_setting w)) (int idx) (cm_tag resp))))))"

fun poll_loop ::
  "'d cipher_drv \<Rightarrow> nat \<Rightarrow> wd_ctx_internal \<times> wd_alg_driver \<Rightarrow> nat \<Rightarrow> int \<Rightarrow> nat \<Rightarrow> wd_cipher_msg \<Rightarrow> 'd cipher_world
    \<Rightarrow> (int \<times> nat \<times> 'd cipher_world) option" where
  "poll_loop dx idx ctx 0 ret cnt resp w = Some (ret, cnt, w)"
| "poll_loop dx idx ctx (Suc n) ret cnt resp w =
    (case poll_one dx idx ctx resp w of
       None \<Rightarrow> None
     | Some (ret, True, resp, w) \<Rightarrow> poll_loop dx idx ctx n ret (cnt + 1) resp w
     | Some (ret, False, resp, w) \<Rightarrow> Some (ret, cnt, w))"

text \<open>\<open>count\<close> is the value that the caller's variable has, \<open>None\<close> for \<^verbatim>\<open>NULL\<close>.\<close>

definition wd_cipher_poll_ctx ::
  "'d cipher_drv \<Rightarrow> nat \<Rightarrow> nat \<Rightarrow> nat option \<Rightarrow> 'd cipher_world \<Rightarrow> (int \<times> nat option \<times> 'd cipher_world) option" where
  "wd_cipher_poll_ctx dx idx expt cnt w =
    (if cnt = None \<or> expt = 0 then Some (err WD_EINVAL, cnt, w)
     else
       (case wd_check_ctx (cs_config (cw_setting w)) CTX_MODE_ASYNC idx of
          None \<Rightarrow> None
        | Some ret \<Rightarrow>
            if ret \<noteq> 0 then Some (ret, Some 0, w)
            else
              (case ctx_at (cs_config (cw_setting w)) idx of
                 None \<Rightarrow> None
               | Some ctx \<Rightarrow> map_option (\<lambda>(ret, n, w). (ret, Some n, w)) (poll_loop dx idx ctx expt 0 0 zero_msg w))))"

text \<open>The same as the poll function of a scheduler; a state without outcome stays one.\<close>

definition cipher_poll_func :: "'d cipher_drv \<Rightarrow> ('d cipher_world option) poll_func" where
  "cipher_poll_func dx = (\<lambda>idx expt cnt w.
    case w of
      None \<Rightarrow> (0, cnt, None)
    | Some w \<Rightarrow>
        (case wd_cipher_poll_ctx dx idx expt (Some cnt) w of
           Some (ret, Some cnt, w) \<Rightarrow> (ret, cnt, Some w)
         | _ \<Rightarrow> (0, cnt, None)))"

definition poll_policy ::
  "nat \<Rightarrow> 'w poll_func option \<Rightarrow> nat \<times> nat \<Rightarrow> sched_state \<Rightarrow> nat \<Rightarrow> nat \<Rightarrow> 'w \<Rightarrow> (int \<times> nat \<times> (nat \<times> nat) \<times> sched_state \<times> 'w) option" where
  "poll_policy policy poll_func tls st expect cnt w =
    (let rr = map_option (\<lambda>(res, tls, st, w). case res of
                Inl e \<Rightarrow> (e, cnt, tls, st, w)
              | Inr None \<Rightarrow> (0, cnt, tls, st, w)
              | Inr (Some n) \<Rightarrow> (0, n, tls, st, w));
         simple = (\<lambda>(res, cnt, w). Some (case res of Inl e \<Rightarrow> (e, cnt, tls, st, w) | Inr n \<Rightarrow> (0, n, tls, st, w))) in
     if policy = SCHED_POLICY_NONE then simple (sched_none_poll_policy poll_func expect cnt w)
     else if policy = SCHED_POLICY_SINGLE then simple (sched_single_poll_policy poll_func expect cnt w)
     else if policy = SCHED_POLICY_RR \<or> policy = SCHED_POLICY_DEV then rr (round_robin_poll_policy poll_func tls st expect w)
     else if policy = SCHED_POLICY_LOOP then rr (loop_sched_poll_policy poll_func tls st expect w)
     else if policy = SCHED_POLICY_HUNGRY then rr (skey_sched_poll_policy poll_func tls st expect w)
     else map_option (\<lambda>(res, tls, w). case res of Inl e \<Rightarrow> (e, cnt, tls, st, w) | Inr n \<Rightarrow> (0, n, tls, st, w))
            (instr_sched_poll_policy poll_func tls st expect cnt w))"

text \<open>The scheduler's context is changed by the policy while the poll function changes the rest of the state.\<close>

definition wd_cipher_poll ::
  "'d cipher_drv \<Rightarrow> nat \<times> nat \<Rightarrow> nat \<Rightarrow> nat option \<Rightarrow> 'd cipher_world \<Rightarrow> (int \<times> nat option \<times> (nat \<times> nat) \<times> 'd cipher_world) option" where
  "wd_cipher_poll dx tls expt cnt w =
    (case cnt of
       None \<Rightarrow> Some (err WD_EINVAL, cnt, tls, w)
     | Some n \<Rightarrow>
         (case (sd_poll_policy (cs_sched (cw_setting w)), cw_sched w) of
            (Some policy, Some st) \<Rightarrow>
              (case poll_policy policy (Some (cipher_poll_func dx)) tls st expt n (Some w) of
                 Some (ret, n, tls, st, Some w) \<Rightarrow> Some (ret, Some n, tls, w\<lparr>cw_sched := Some st\<rparr>)
               | _ \<Rightarrow> None)
          | _ \<Rightarrow> None))"

end
