(* ===== verification/Cipher_Async.thy ===== *)
theory Cipher_Async
  imports Cipher
begin

text \<open>
  The cipher front end while it is in use: keys of a session, and the invariant that ties the messages in the pools to the messages the
  drivers have not answered yet, kept by every operation and every polling policy.
\<close>

subsection \<open>Keys fit\<close>

text \<open>The lengths of keys that a session accepts; XTS takes two keys of equal length, but never two of 24 bytes.\<close>

definition key_lengths :: "wd_cipher_alg \<Rightarrow> wd_cipher_mode \<Rightarrow> nat set" where
  "key_lengths alg mode =
    (let xts = (mode = WD_CIPHER_XTS \<or> mode = WD_CIPHER_XTS_GB) in
     case alg of
       WD_CIPHER_SM4 \<Rightarrow> if xts then {32} else {16}
     | WD_CIPHER_AES \<Rightarrow> if xts then {32, 64} else {16, 24, 32}
     | WD_CIPHER_DES \<Rightarrow> if xts then {16} else {8}
     | WD_CIPHER_3DES \<Rightarrow> if xts then {32} else {16, 24}
     | WD_CIPHER_ALG_TYPE_MAX \<Rightarrow> {})"

lemma key_len_check_iff: "cipher_key_len_check sess n = 0 \<longleftrightarrow> n \<in> key_lengths (se_alg sess) (se_mode sess)"
proof -
  have half: "even n \<Longrightarrow> n div 2 = m \<longleftrightarrow> n = 2 * m" for m by auto
  have odd: "odd n \<Longrightarrow> n \<noteq> 2 * m" for m by auto
  show ?thesis
  proof (cases "se_mode sess = WD_CIPHER_XTS \<or> se_mode sess = WD_CIPHER_XTS_GB")
    case True
    show ?thesis
    proof (cases "even n")
      case even: True
      then have "n mod 2 \<noteq> 1" by presburger
      then show ?thesis using True by (cases "se_alg sess")
          (simp_all add: cipher_key_len_check_def key_lengths_def aes_key_len_check_def cipher_consts half [OF even] Let_def)
    next
      case False
      then have "n mod 2 = 1" by presburger
      then show ?thesis using True odd [OF False, of 8] odd [OF False, of 16] odd [OF False, of 32]
        by (cases "se_alg sess") (simp_all add: cipher_key_len_check_def key_lengths_def Let_def)
    qed
  next
    case False
    then show ?thesis
      by (cases "se_alg sess") (auto simp: cipher_key_len_check_def key_lengths_def aes_key_len_check_def cipher_consts)
  qed
qed

lemma key_lengths_le: "n \<in> key_lengths alg mode \<Longrightarrow> n \<le> 64"
  by (cases alg) (auto simp: key_lengths_def split: if_splits)

text \<open>The type of a session: its buffer holds the longest key, and its key is empty or one of its algorithm.\<close>

definition sess_ok :: "wd_cipher_sess \<Rightarrow> bool" where
  "sess_ok sess \<longleftrightarrow> (\<exists>buf. se_key sess = Some buf \<and> length buf = MAX_CIPHER_KEY_SIZE) \<and>
     (se_key_bytes sess = 0 \<or> se_key_bytes sess \<in> key_lengths (se_alg sess) (se_mode sess)) \<and>
     se_alg sess \<noteq> WD_CIPHER_ALG_TYPE_MAX \<and> se_mode sess \<noteq> WD_CIPHER_MODE_TYPE_MAX \<and>
     se_alg_name sess = alg_mode_name (se_alg sess) (se_mode sess) \<and> se_alg_name sess \<noteq> None"

text \<open>
  C11: Setting a key keeps the type of a session and never writes beyond its buffer. The key is accepted exactly if its length is
  one of the algorithm and mode and it is no weak or semi-weak key of DES; it is then the key of the session. Otherwise
  the session keeps its key.
\<close>

theorem set_key_typed:
  assumes "sess_ok sess" and "key_len \<le> length key"
  shows "\<exists>ret sess'. wd_cipher_set_key (Some sess) (Some key) key_len = Some (ret, Some sess') \<and> sess_ok sess' \<and>
    (ret = 0 \<longleftrightarrow> key_len \<in> key_lengths (se_alg sess) (se_mode sess) \<and> (se_alg sess = WD_CIPHER_DES \<longrightarrow> take 8 key \<notin> set des_weak_keys)) \<and>
    (if ret = 0 then se_key_bytes sess' = key_len \<and> take key_len (the (se_key sess')) = take key_len key else ret = err WD_EINVAL \<and> sess' = sess)"
proof -
  obtain buf where buf: "se_key sess = Some buf" "length buf = 64" using assms(1) by (auto simp: sess_ok_def cipher_consts)
  let ?L = "key_lengths (se_alg sess) (se_mode sess)"
  show ?thesis
  proof (cases "key_len \<in> ?L")
    case False
    then have "cipher_key_len_check sess key_len \<noteq> 0" by (simp add: key_len_check_iff)
    then show ?thesis using False assms(1) by (simp add: wd_cipher_set_key_def)
  next
    case True
    have c: "cipher_key_len_check sess key_len = 0" using True by (simp add: key_len_check_iff)
    have fit: "key_len \<le> 64" "key_len \<le> length buf" using key_lengths_le [OF True] buf(2) by simp_all
    have des: "se_alg sess = WD_CIPHER_DES \<Longrightarrow> 8 \<le> length key"
      using True assms(2) by (auto simp: key_lengths_def Let_def split: if_splits)
    have weak: "is_des_weak_key key = Some (take 8 key \<in> set des_weak_keys)" if "se_alg sess = WD_CIPHER_DES"
      using des [OF that] by (auto simp: is_des_weak_key_def cipher_consts list_ex_iff)
    show ?thesis
    proof (cases "se_alg sess = WD_CIPHER_DES \<and> take 8 key \<in> set des_weak_keys")
      case bad: True
      then show ?thesis using c weak assms(1) by (simp add: wd_cipher_set_key_def)
    next
      case good: False
      let ?s = "sess\<lparr>se_key_bytes := key_len, se_key := Some (take key_len key @ drop key_len buf)\<rparr>"
      have "wd_cipher_set_key (Some sess) (Some key) key_len = Some (0, Some ?s)"
        using c weak good fit assms(2) buf by (auto simp: wd_cipher_set_key_def)
      moreover have "sess_ok ?s" using assms(1,2) True buf fit by (simp add: sess_ok_def cipher_consts, metis)
      moreover have "take key_len (the (se_key ?s)) = take key_len key" using assms(2) by simp
      ultimately show ?thesis using True good by (intro exI [of _ 0] exI [of _ ?s] conjI) auto
    qed
  qed
qed

definition demo_sess :: wd_cipher_sess where
  "demo_sess = zero_sess\<lparr>se_alg_name := Some ''cbc(aes)'', se_alg := WD_CIPHER_AES, se_mode := WD_CIPHER_CBC, se_key := Some (replicate 64 0),
     se_sched_key := Some 7\<rparr>"

lemma demo_sess_ok: "sess_ok demo_sess"
  by (simp add: sess_ok_def demo_sess_def zero_sess_def cipher_consts alg_mode_name_def)

theorem set_key_typed_witness:
  "\<exists>sess'. wd_cipher_set_key (Some demo_sess) (Some (replicate 24 5)) 24 = Some (0, Some sess') \<and> sess_ok sess' \<and> se_key_bytes sess' = 24"
proof -
  have "24 \<le> length (replicate 24 (5 :: nat))" by simp
  from set_key_typed [OF demo_sess_ok this] obtain ret s where
    s: "wd_cipher_set_key (Some demo_sess) (Some (replicate 24 5)) 24 = Some (ret, Some s)" "sess_ok s"
    "ret = 0 \<longleftrightarrow> 24 \<in> key_lengths (se_alg demo_sess) (se_mode demo_sess) \<and> (se_alg demo_sess = WD_CIPHER_DES \<longrightarrow> take 8 (replicate 24 5) \<notin> set des_weak_keys)"
    "ret = 0 \<Longrightarrow> se_key_bytes s = 24" by (metis (full_types))
  have "ret = 0" unfolding s(3) by (simp add: demo_sess_def key_lengths_def)
  then show ?thesis using s(1,2,4) by blast
qed

subsection \<open>Asynchronous requests\<close>

text \<open>
  The contract of a driver: \<open>pend d h\<close> are the tags of the messages that queue \<open>h\<close> has accepted and not yet answered. A message that
  is accepted is added, a response that is received carries the tag of one of them and removes it, errors change nothing. Sending may
  change the message, but neither the request in it nor a tag that the front end has given; the front end gives no tag (0) in
  synchronous messages.
\<close>

definition drv_queue :: "'d cipher_drv \<Rightarrow> ('d \<Rightarrow> nat \<Rightarrow> nat multiset) \<Rightarrow> bool" where
  "drv_queue dx pend \<longleftrightarrow>
    (\<forall>drv h m d ret m' d'. dx_send dx drv h m d = (ret, m', d') \<longrightarrow>
       cm_req m' = cm_req m \<and> (cm_tag m = 0 \<or> cm_tag m' = cm_tag m) \<and>
       pend d' = (if ret < 0 then pend d else (pend d)(h := add_mset (cm_tag m') (pend d h)))) \<and>
    (\<forall>drv h m d ret m' d'. dx_recv dx drv h m d = (ret, m', d') \<longrightarrow>
       (if ret < 0 then pend d' = pend d else cm_tag m' \<in># pend d h \<and> pend d' = (pend d)(h := pend d h - {#cm_tag m'#})))"

definition slot_addr :: "msg_pool list \<Rightarrow> nat \<times> nat \<Rightarrow> nat" where
  "slot_addr ps = (\<lambda>(c, t). the (mg_msgs (ps ! c)) + u32 (mg_msg_size (ps ! c) * (t - 1)))"

definition all_slots :: "msg_pool list \<Rightarrow> (nat \<times> nat) set" where
  "all_slots ps = {(c, t). c < length ps \<and> 1 \<le> t \<and> t \<le> mg_msg_num (ps ! c)}"

definition used_slots :: "msg_pool list \<Rightarrow> (nat \<times> nat) set" where
  "used_slots ps = {(c, t). c < length ps \<and> t \<in> used_tags (ps ! c)}"

definition pools_of :: "'d cipher_world \<Rightarrow> msg_pool list" where
  "pools_of w = the (wp_pools (cs_pool (cw_setting w)))"

text \<open>The requests whose messages are in use.\<close>

definition outstanding :: "'d cipher_world \<Rightarrow> wd_cipher_req multiset" where
  "outstanding w = image_mset (\<lambda>s. cm_req (cw_msgs w (slot_addr (pools_of w) s))) (mset_set (used_slots (pools_of w)))"

text \<open>
  The invariant: one pool per context, pools well-formed or empty, messages at different addresses, contexts on different
  queues, and for each pool the used tags are those that the queue has not answered.
\<close>

definition pools_inv :: "wd_ctx_config_internal \<Rightarrow> wd_async_msg_pool \<Rightarrow> bool" where
  "pools_inv cc pool \<longleftrightarrow> (\<exists>ps ctxs. wp_pools pool = Some ps \<and> wp_pool_num pool = length ps \<and> length ps < 2 ^ 31 \<and>
     cc_ctx_num cc = length ps \<and> cc_ctxs cc = Some ctxs \<and> length ctxs = length ps \<and> distinct (map ci_ctx ctxs) \<and>
     (\<forall>c < length ps. mg_msg_num (ps ! c) = 0 \<or> pool_wf (ps ! c)) \<and> inj_on (slot_addr ps) (all_slots ps))"

definition pend_inv :: "(nat \<Rightarrow> nat multiset) \<Rightarrow> wd_ctx_config_internal \<Rightarrow> wd_async_msg_pool \<Rightarrow> bool" where
  "pend_inv q cc pool \<longleftrightarrow> (\<forall>c < cc_ctx_num cc. mg_msg_num (the (wp_pools pool) ! c) \<noteq> 0 \<longrightarrow>
     q (ci_ctx (the (cc_ctxs cc) ! c)) = mset_set (used_tags (the (wp_pools pool) ! c)))"

definition async_inv :: "('d \<Rightarrow> nat \<Rightarrow> nat multiset) \<Rightarrow> 'd cipher_world \<Rightarrow> bool" where
  "async_inv pend w \<longleftrightarrow> pools_inv (cs_config (cw_setting w)) (cs_pool (cw_setting w)) \<and>
     pend_inv (pend (cw_dev w)) (cs_config (cw_setting w)) (cs_pool (cw_setting w))"

lemma used_all: "used_slots ps \<subseteq> all_slots ps"
  by (auto simp: used_slots_def all_slots_def used_tags_def)

lemma finite_used_tags [simp]: "finite (used_tags p)"
  by (rule finite_subset [of _ "{1..mg_msg_num p}"]) (auto simp: used_tags_def)

lemma finite_used_slots [simp]: "finite (used_slots ps)"
proof -
  have "used_slots ps \<subseteq> (\<Union>c < length ps. Pair c ` used_tags (ps ! c))" by (auto simp: used_slots_def)
  then show ?thesis by (rule finite_subset) simp
qed

text \<open>Changes of flags and of \<^verbatim>\<open>tail\<close> keep the addresses of messages.\<close>

definition same_layout :: "msg_pool \<Rightarrow> msg_pool \<Rightarrow> bool" where
  "same_layout p q \<longleftrightarrow> mg_msgs q = mg_msgs p \<and> mg_msg_num q = mg_msg_num p \<and> mg_msg_size q = mg_msg_size p"

lemma nth_upd_if: "xs[c := x] ! a = (if a = c \<and> c < length xs then x else xs ! a)"
  by (cases "c < length xs") (auto simp: nth_list_update list_update_beyond)

lemma layout_upd:
  assumes "same_layout (ps ! c) p"
  shows "slot_addr (ps[c := p]) = slot_addr ps" "all_slots (ps[c := p]) = all_slots ps"
  using assms by (auto simp: slot_addr_def all_slots_def same_layout_def nth_upd_if fun_eq_iff split: if_splits)

lemma pools_inv_upd:
  assumes "pools_inv cc pool" and "wp_pools pool = Some ps" and "same_layout (ps ! c) p" and "pool_wf (ps ! c) \<Longrightarrow> pool_wf p"
    and "cc_ctxs cc' = cc_ctxs cc" "cc_ctx_num cc' = cc_ctx_num cc"
  shows "pools_inv cc' (pool\<lparr>wp_pools := Some (ps[c := p])\<rparr>)"
proof -
  have num: "mg_msg_num (ps[c := p] ! a) = mg_msg_num (ps ! a)" for a using assms(3) by (simp add: nth_upd_if same_layout_def)
  have wf: "pool_wf (ps ! a) \<Longrightarrow> pool_wf (ps[c := p] ! a)" for a using assms(4) by (auto simp: nth_upd_if)
  show ?thesis using assms(1,2,5,6) num wf unfolding pools_inv_def by (auto simp: layout_upd [OF assms(3)] num)
qed

lemma used_slots_upd:
  assumes "c < length ps"
  shows "used_slots (ps[c := p]) = {s \<in> used_slots ps. fst s \<noteq> c} \<union> Pair c ` used_tags p"
  using assms by (auto simp: used_slots_def nth_list_update split: if_splits)

lemma pools_invE:
  assumes "pools_inv cc pool"
  obtains ps ctxs where "wp_pools pool = Some ps" "wp_pool_num pool = length ps" "length ps < 2 ^ 31" "cc_ctx_num cc = length ps"
    "cc_ctxs cc = Some ctxs" "length ctxs = length ps" "distinct (map ci_ctx ctxs)"
    "\<And>c. c < length ps \<Longrightarrow> mg_msg_num (ps ! c) \<noteq> 0 \<Longrightarrow> pool_wf (ps ! c)" "inj_on (slot_addr ps) (all_slots ps)"
proof -
  from assms [unfolded pools_inv_def] obtain ps ctxs where
    i: "wp_pools pool = Some ps \<and> wp_pool_num pool = length ps \<and> length ps < 2 ^ 31 \<and> cc_ctx_num cc = length ps \<and>
     cc_ctxs cc = Some ctxs \<and> length ctxs = length ps \<and> distinct (map ci_ctx ctxs) \<and>
     (\<forall>c < length ps. mg_msg_num (ps ! c) = 0 \<or> pool_wf (ps ! c)) \<and> inj_on (slot_addr ps) (all_slots ps)" by (elim exE)
  show thesis by (rule that [of ps ctxs]) (use i in auto)
qed

text \<open>Replacing the pool of one context, together with the tags that its queue has not answered.\<close>

lemma pend_inv_upd:
  assumes pi: "pools_inv cc pool" and pe: "pend_inv q cc pool" and ps: "wp_pools pool = Some ps" and ctxs: "cc_ctxs cc = Some ctxs"
    and c: "c < length ps" and lay: "same_layout (ps ! c) p"
    and q': "q' = q(ci_ctx (ctxs ! c) := mset_set (used_tags p))" and cc': "cc_ctxs cc' = cc_ctxs cc" "cc_ctx_num cc' = cc_ctx_num cc"
  shows "pend_inv q' cc' (pool\<lparr>wp_pools := Some (ps[c := p])\<rparr>)"
proof -
  from pi ps ctxs have len: "cc_ctx_num cc = length ps" "length ctxs = length ps" "distinct (map ci_ctx ctxs)" by (auto simp: pools_inv_def)
  have ne: "ci_ctx (ctxs ! a) \<noteq> ci_ctx (ctxs ! c)" if "a < length ps" "a \<noteq> c" for a
    using len c that nth_eq_iff_index_eq [OF len(3), of a c] by simp
  show ?thesis using pe ne lay c unfolding pend_inv_def q' cc' by (auto simp: ps ctxs len nth_upd_if same_layout_def)
qed

lemma pend_at:
  assumes "pools_inv cc pool" and "pend_inv q cc pool" and "wp_pools pool = Some ps" and "cc_ctxs cc = Some ctxs" and "c < length ps"
    and "mg_msg_num (ps ! c) \<noteq> 0"
  shows "q (ci_ctx (ctxs ! c)) = mset_set (used_tags (ps ! c))"
  using assms by (auto simp: pools_inv_def pend_inv_def)

text \<open>The requests outstanding after a slot was filled or emptied.\<close>

lemma slot_addr_ne:
  assumes "inj_on (slot_addr ps) (all_slots ps)" and "s \<in> all_slots ps" and "s' \<in> used_slots ps" and "s' \<noteq> s"
  shows "slot_addr ps s' \<noteq> slot_addr ps s"
  using assms used_all [of ps] unfolding inj_on_def by blast

lemma outstanding_add:
  assumes "inj_on (slot_addr ps) (all_slots ps)" and "s \<in> all_slots ps" and "s \<notin> used_slots ps"
  shows "image_mset (\<lambda>x. cm_req ((f(slot_addr ps s := m)) (slot_addr ps x))) (mset_set (insert s (used_slots ps))) =
    add_mset (cm_req m) (image_mset (\<lambda>x. cm_req (f (slot_addr ps x))) (mset_set (used_slots ps)))"
proof -
  have "image_mset (\<lambda>x. cm_req ((f(slot_addr ps s := m)) (slot_addr ps x))) (mset_set (used_slots ps)) =
      image_mset (\<lambda>x. cm_req (f (slot_addr ps x))) (mset_set (used_slots ps))"
    using slot_addr_ne [OF assms(1,2)] assms(3) by (intro image_mset_cong) auto
  then show ?thesis using assms(3) by simp
qed

lemma outstanding_same:
  assumes "inj_on (slot_addr ps) (all_slots ps)" and "s \<in> all_slots ps" and "s \<notin> used_slots ps"
  shows "image_mset (\<lambda>x. cm_req ((f(slot_addr ps s := m)) (slot_addr ps x))) (mset_set (used_slots ps)) =
    image_mset (\<lambda>x. cm_req (f (slot_addr ps x))) (mset_set (used_slots ps))"
  using slot_addr_ne [OF assms(1,2)] assms(3) by (intro image_mset_cong) auto

lemma outstanding_remove:
  assumes "inj_on (slot_addr ps) (all_slots ps)" and "s \<in> used_slots ps"
  shows "image_mset (\<lambda>x. cm_req ((f(slot_addr ps s := m)) (slot_addr ps x))) (mset_set (used_slots ps - {s})) =
    image_mset (\<lambda>x. cm_req (f (slot_addr ps x))) (mset_set (used_slots ps)) - {#cm_req (f (slot_addr ps s))#}"
proof -
  have s: "s \<in> all_slots ps" using assms(2) used_all by blast
  have "image_mset (\<lambda>x. cm_req ((f(slot_addr ps s := m)) (slot_addr ps x))) (mset_set (used_slots ps - {s})) =
      image_mset (\<lambda>x. cm_req (f (slot_addr ps x))) (mset_set (used_slots ps - {s}))"
    using slot_addr_ne [OF assms(1) s] by (intro image_mset_cong) auto
  also have "\<dots> = image_mset (\<lambda>x. cm_req (f (slot_addr ps x))) (mset_set (used_slots ps)) - {#cm_req (f (slot_addr ps s))#}"
    using assms(2) by (simp add: mset_set_Diff image_mset_Diff)
  finally show ?thesis .
qed

lemma get_msg_slot:
  assumes "wp_pools pool = Some ps" and "c < length ps" and "pool_wf (ps ! c)"
  obtains (busy) "wd_get_msg_from_pool pool (int c) = Some (Inl WD_EBUSY, pool)"
  | (found) t p where "wd_get_msg_from_pool pool (int c) = Some (Inr (t, slot_addr ps (c, t)), pool\<lparr>wp_pools := Some (ps[c := p])\<rparr>)"
      "same_layout (ps ! c) p" "pool_wf p" "used_tags p = insert t (used_tags (ps ! c))" "t \<notin> used_tags (ps ! c)" "1 \<le> t" "t \<le> mg_msg_num (ps ! c)"
  using assms
proof (cases rule: get_msg_cases)
  case busy
  have "pool\<lparr>wp_pools := Some (ps[c := ps ! c])\<rparr> = pool" using assms(1) by simp
  then show thesis using busy that(1) by simp
next
  case (found i used m p')
  have wf: "pool_wf p'" using assms(3) found(1-6) by (auto simp: pool_wf_def)
  have tags: "used_tags p' = insert (i + 1) (used_tags (ps ! c))" "i + 1 \<notin> used_tags (ps ! c)"
    using found(1-4) by (auto simp: used_tags_def found(6) nth_list_update split: if_splits)
  have "slot_addr ps (c, i + 1) = m + u32 (mg_msg_size (ps ! c) * i)" using found(5) by (simp add: slot_addr_def)
  with found(7) have "wd_get_msg_from_pool pool (int c) = Some (Inr (i + 1, slot_addr ps (c, i + 1)), pool\<lparr>wp_pools := Some (ps[c := p'])\<rparr>)" by simp
  then show thesis using wf tags found(1) by (intro that(2) [of "i + 1" p']) (simp_all add: same_layout_def found(6))
qed

lemma put_msg_slot:
  assumes "wp_pools pool = Some ps" and "c < length ps" and "pool_wf (ps ! c)" and "1 \<le> t" "t \<le> mg_msg_num (ps ! c)"
  obtains q where "wd_put_msg_to_pool pool (int c) t = Some (pool\<lparr>wp_pools := Some (ps[c := q])\<rparr>)" "same_layout (ps ! c) q" "pool_wf q"
    "used_tags q = used_tags (ps ! c) - {t}"
proof -
  from assms(3) obtain used where u: "mg_used (ps ! c) = Some used" "length used = mg_msg_num (ps ! c)" by (auto simp: pool_wf_def)
  let ?q = "(ps ! c)\<lparr>mg_used := Some (used[t - 1 := False])\<rparr>"
  have "pool_at pool (int c) = Some (ps ! c)" using assms(1,2) by (simp add: pool_at_def)
  then have "wd_put_msg_to_pool pool (int c) t = Some (pool\<lparr>wp_pools := Some (ps[c := ?q])\<rparr>)"
    using u assms by (simp add: wd_put_msg_to_pool_def)
  moreover have "used_tags ?q = used_tags (ps ! c) - {t}" using used_tags_upd(2) [OF u, of "t - 1"] assms(4,5) by simp
  ultimately show thesis using assms(3) u by (intro that [of ?q]) (auto simp: same_layout_def pool_wf_def)
qed

lemma find_msg_slot:
  assumes "wp_pools pool = Some ps" and "c < length ps" and "pool_wf (ps ! c)" and "1 \<le> t" "t \<le> mg_msg_num (ps ! c)"
    and "wp_pool_num pool = length ps" "length ps < 2 ^ 31"
  shows "wd_find_msg_in_pool pool (int c) t = Some (Some (slot_addr ps (c, t)))"
proof -
  have "pool_at pool (int c) = Some (ps ! c)" using assms(1,2) by (simp add: pool_at_def)
  moreover have "\<not> u32_of_int (int c) > wp_pool_num pool" using assms(2,6,7) by (simp add: u32_of_int_def)
  ultimately show ?thesis using assms(3-5) by (auto simp: wd_find_msg_in_pool_def pool_wf_def slot_addr_def)
qed

text \<open>What a request may do to the state, by the point at which it ends.\<close>

lemma async_cases:
  assumes "wd_do_cipher_async ni dx (Some h) (Some req) w = Some (ret, w')"
  obtains (early) st where "ret \<noteq> 0" "w' = w\<lparr>cw_sched := st\<rparr>"
  | (sent) st c se where "wd_check_ctx (cs_config (cw_setting w)) CTX_MODE_ASYNC c = Some 0"
      "async_send ni dx h se req c (w\<lparr>cw_sched := st\<rparr>) = Some (ret, w')"
proof (cases "cw_sess w h")
  case None
  then show thesis using assms by (simp add: wd_do_cipher_async_def)
next
  case (Some se)
  note run = assms [unfolded wd_do_cipher_async_def Let_def option.case Some prod.case option.simps simp_thms if_False]
  obtain e1 where e1: "wd_cipher_check_params (Some se) (Some req) CTX_MODE_ASYNC = Some e1"
    using run by (cases "wd_cipher_check_params (Some se) (Some req) CTX_MODE_ASYNC") simp_all
  show thesis
  proof (cases "e1 = 0")
    case False
    then have "ret = e1" "w' = w\<lparr>cw_sched := cw_sched w\<rparr>" using run e1 by simp_all
    then show thesis using False by (intro early [of "cw_sched w"]) simp_all
  next
    case True
    obtain c w1 where pk: "pick_ctx CTX_MODE_ASYNC se w = Some (c, w1)" using run e1 True by (cases "pick_ctx CTX_MODE_ASYNC se w") auto
    then obtain st where w1: "w1 = w\<lparr>cw_sched := st\<rparr>" by (auto simp: pick_ctx_def split: option.splits)
    have st: "cs_config (cw_setting w1) = cs_config (cw_setting w)" by (simp add: w1)
    obtain e2 where e2: "wd_check_ctx (cs_config (cw_setting w)) CTX_MODE_ASYNC c = Some e2"
      using run e1 True pk st by (cases "wd_check_ctx (cs_config (cw_setting w)) CTX_MODE_ASYNC c") simp_all
    show thesis
    proof (cases "e2 = 0")
      case False
      then show thesis using run e1 True pk st w1 e2 by (intro early [of st]) simp_all
    next
      case ok: True
      then show thesis using run e1 True pk st w1 e2 by (intro sent [of c se st]) simp_all
    qed
  qed
qed

lemma async_send_cases:
  assumes "async_send ni dx h se req c w = Some (ret, w')"
  obtains (full) e pool where "ret = err WD_EBUSY" "wd_get_msg_from_pool (cs_pool (cw_setting w)) (int c) = Some (Inl e, pool)" "w' = set_pool pool w"
  | (refused) t a pool m ctx drv m' d pool' where "wd_get_msg_from_pool (cs_pool (cw_setting w)) (int c) = Some (Inr (t, a), pool)"
      "cm_req m = req" "cm_tag m = t"
      "ctx_at (cs_config (cw_setting w)) c = Some (ctx, drv)" "dx_send dx drv (ci_ctx ctx) m (cw_dev w) = (ret, m', d)" "ret < 0"
      "wd_put_msg_to_pool pool (int c) (cm_tag m') = Some pool'" "w' = set_pool pool' (w\<lparr>cw_msgs := (cw_msgs w)(a := m'), cw_dev := d\<rparr>)"
  | (accepted) t a pool m ctx drv r m' d cc where "ret = 0"
      "wd_get_msg_from_pool (cs_pool (cw_setting w)) (int c) = Some (Inr (t, a), pool)" "cm_req m = req" "cm_tag m = t"
      "ctx_at (cs_config (cw_setting w)) c = Some (ctx, drv)" "dx_send dx drv (ci_ctx ctx) m (cw_dev w) = (r, m', d)" "0 \<le> r"
      "wd_dfx_msg_cnt ni (cs_config (cw_setting w)) WD_CTX_CNT_NUM c = Some cc"
      "w' = set_config cc (set_pool pool (w\<lparr>cw_msgs := (cw_msgs w)(a := m'), cw_dev := d\<rparr>))"
proof -
  note run = assms [unfolded async_send_def Let_def]
  obtain res pool where get: "wd_get_msg_from_pool (cs_pool (cw_setting w)) (int c) = Some (res, pool)"
    using run by (cases "wd_get_msg_from_pool (cs_pool (cw_setting w)) (int c)") auto
  show thesis
  proof (cases res)
    case (Inl e)
    then show thesis using run get by (intro full [of e pool]) simp_all
  next
    case (Inr ta)
    obtain t a where ta: "ta = (t, a)" by fastforce
    let ?m = "(fill_request_msg (cw_msgs w a) req h se)\<lparr>cm_tag := t\<rparr>"
    obtain cd where at: "ctx_at (cs_config (cw_setting w)) c = Some cd" using run get Inr ta by (cases "ctx_at (cs_config (cw_setting w)) c") simp_all
    obtain ctx drv where cd: "cd = (ctx, drv)" by fastforce
    obtain r m' d where sd: "dx_send dx drv (ci_ctx ctx) ?m (cw_dev w) = (r, m', d)" by (rule prod_cases3)
    have m: "cm_req ?m = req" "cm_tag ?m = t" by (simp_all add: fill_request_msg_def)
    have dev: "cw_dev ((set_pool pool w)\<lparr>cw_msgs := x\<rparr>) = cw_dev w" for x by (simp add: set_pool_def)
    show thesis
    proof (cases "r < 0")
      case True
      then obtain pool' where put: "wd_put_msg_to_pool pool (int c) (cm_tag m') = Some pool'"
        using run get at cd sd Inr ta m dev by auto
      then show thesis using run get at cd sd Inr ta m dev True
        by (intro refused [of t a pool ?m ctx drv m' d pool']) (auto simp: set_pool_def)
    next
      case False
      then obtain cc where cc: "wd_dfx_msg_cnt ni (cs_config (cw_setting w)) WD_CTX_CNT_NUM c = Some cc"
        using run get at cd sd Inr ta m dev by auto
      then show thesis using run get at cd sd Inr ta m dev False
        by (intro accepted [of t a pool ?m ctx drv r m' d cc]) (auto simp: set_pool_def set_config_def)
    qed
  qed
qed

lemma check_ctx_range: "wd_check_ctx cc m c = Some 0 \<Longrightarrow> c < cc_ctx_num cc"
  using errno_pos by (auto simp: wd_check_ctx_def split: if_splits)

lemma dfx_frame: "wd_dfx_msg_cnt ni cc n c = Some cc' \<Longrightarrow> cc_ctxs cc' = cc_ctxs cc \<and> cc_ctx_num cc' = cc_ctx_num cc"
  by (auto simp: wd_dfx_msg_cnt_def split: if_splits option.splits)

lemma ctx_at_handle: "ctx_at cc c = Some (ctx, drv) \<Longrightarrow> cc_ctxs cc = Some ctxs \<Longrightarrow> ctx = ctxs ! c"
  by (auto simp: ctx_at_def split: option.splits)

lemma drv_queue_send: "drv_queue dx pend \<Longrightarrow> dx_send dx drv h m d = (ret, m', d') \<Longrightarrow>
    cm_req m' = cm_req m \<and> (cm_tag m = 0 \<or> cm_tag m' = cm_tag m) \<and>
    pend d' = (if ret < 0 then pend d else (pend d)(h := add_mset (cm_tag m') (pend d h)))"
  unfolding drv_queue_def by blast

lemma drv_queue_recv: "drv_queue dx pend \<Longrightarrow> dx_recv dx drv h m d = (ret, m', d') \<Longrightarrow>
    (if ret < 0 then pend d' = pend d else cm_tag m' \<in># pend d h \<and> pend d' = (pend d)(h := pend d h - {#cm_tag m'#}))"
  unfolding drv_queue_def by blast

lemma async_inv_frame:
  assumes "async_inv pend w" and "cw_setting w' = cw_setting w" and "pend (cw_dev w') = pend (cw_dev w)"
  shows "async_inv pend w'"
  using assms by (simp add: async_inv_def)

lemma async_send_inv:
  assumes drv: "drv_queue dx pend" and inv: "async_inv pend w" and c: "c < cc_ctx_num (cs_config (cw_setting w))"
    and run: "async_send ni dx h se req c w = Some (ret, w')"
  shows "async_inv pend w' \<and> cw_called w' = cw_called w \<and>
    outstanding w' = (if ret = 0 then add_mset req (outstanding w) else outstanding w)"
proof -
  let ?cc = "cs_config (cw_setting w)" and ?pool = "cs_pool (cw_setting w)"
  have pi: "pools_inv ?cc ?pool" and pe: "pend_inv (pend (cw_dev w)) ?cc ?pool" using inv by (simp_all add: async_inv_def)
  from pools_invE [OF pi] obtain ps ctxs where ps: "wp_pools ?pool = Some ps" "wp_pool_num ?pool = length ps" "cc_ctx_num ?cc = length ps"
    and ctxs: "cc_ctxs ?cc = Some ctxs" "length ctxs = length ps"
    and wf: "\<And>c. c < length ps \<Longrightarrow> mg_msg_num (ps ! c) \<noteq> 0 \<Longrightarrow> pool_wf (ps ! c)" and inj: "inj_on (slot_addr ps) (all_slots ps)" by metis
  have c: "c < length ps" using c ps(3) by simp
  have pools: "pools_of w = ps" by (simp add: pools_of_def ps(1))
  show ?thesis
  proof (cases "mg_msg_num (ps ! c) = 0")
    case True
    have "pool_at ?pool (int c) = Some (ps ! c)" using ps(1) c by (simp add: pool_at_def)
    then have get: "wd_get_msg_from_pool ?pool (int c) = Some (Inl WD_EINVAL, ?pool)" using True by (simp add: wd_get_msg_from_pool_def)
    from run show ?thesis
    proof (cases rule: async_send_cases)
      case (full e pool)
      then have "w' = w" using get by (simp add: set_pool_def)
      then show ?thesis using inv full(1) errno_pos [of WD_EBUSY] by simp
    qed (use get in simp_all)
  next
    case False
    note wfc = wf [OF c False]
    note at = pend_at [OF pi pe ps(1) ctxs(1) c False]
    from ps(1) c wfc show ?thesis
    proof (cases rule: get_msg_slot)
      case busy
      from run show ?thesis
      proof (cases rule: async_send_cases)
        case (full e pool)
        then have "w' = w" using busy by (simp add: set_pool_def)
        then show ?thesis using inv full(1) errno_pos [of WD_EBUSY] by simp
      qed (use busy in simp_all)
    next
      case (found t p)
      let ?s = "(c, t)" and ?pool1 = "?pool\<lparr>wp_pools := Some (ps[c := p])\<rparr>"
      have s: "?s \<in> all_slots ps" "?s \<notin> used_slots ps" using found(5-7) c by (simp_all add: all_slots_def used_slots_def)
      have us: "used_slots (ps[c := p]) = insert ?s (used_slots ps)"
        using found(4) by (auto simp: used_slots_def nth_upd_if c split: if_splits)
      from run show ?thesis
      proof (cases rule: async_send_cases)
        case (full e pool)
        then show ?thesis using found(1) by simp
      next
        case (refused t' a pool m ctx drv m' d pool')
        have eq: "t' = t" "a = slot_addr ps ?s" "pool = ?pool1" using refused(1) found(1) by auto
        have p1: "wp_pools ?pool1 = Some (ps[c := p])" "c < length (ps[c := p])" "pool_wf (ps[c := p] ! c)" "1 \<le> t" "t \<le> mg_msg_num (ps[c := p] ! c)"
          using found c by (simp_all add: same_layout_def)
        have mt: "cm_tag m' = t" using drv_queue_send [OF drv refused(5)] refused(3) eq(1) p1(4) by simp
        from put_msg_slot [OF p1] obtain q where q: "wd_put_msg_to_pool ?pool1 (int c) t = Some (?pool1\<lparr>wp_pools := Some (ps[c := p, c := q])\<rparr>)"
          "same_layout (ps[c := p] ! c) q" "pool_wf q" "used_tags q = used_tags (ps[c := p] ! c) - {t}" by metis
        have tags: "used_tags q = used_tags (ps ! c)" using q(4) found(4,5) c by simp
        have lay: "same_layout (ps ! c) q" using q(2) found(2) c by (simp add: same_layout_def)
        have pool': "pool' = ?pool\<lparr>wp_pools := Some (ps[c := q])\<rparr>" using refused(7) q(1) eq mt by simp
        have usq: "used_slots (ps[c := q]) = used_slots ps" using tags by (auto simp: used_slots_def nth_upd_if c split: if_splits)
        have pd: "pend d = pend (cw_dev w)" using drv_queue_send [OF drv refused(5)] refused(6) by simp
        have "pend_inv (pend (cw_dev w)) ?cc pool'"
          unfolding pool' using at by (intro pend_inv_upd [OF pi pe ps(1) ctxs(1) c lay]) (simp_all add: tags fun_upd_idem)
        moreover have "pools_inv ?cc pool'" unfolding pool' by (rule pools_inv_upd [OF pi ps(1) lay]) (simp_all add: q(3))
        ultimately have "async_inv pend w'" by (simp add: async_inv_def refused(8) set_pool_def pd)
        moreover have "outstanding w' = outstanding w"
          using outstanding_same [OF inj s, of "cw_msgs w" m']
          by (simp add: outstanding_def ps(1) refused(8) set_pool_def pools_of_def pool' layout_upd(1) [OF lay] usq eq(2))
        ultimately show ?thesis using refused(6,8) by (simp add: set_pool_def)
      next
        case (accepted t' a pool m ctx drv r m' d cc)
        have eq: "t' = t" "a = slot_addr ps ?s" "pool = ?pool1" using accepted(2) found(1) by auto
        have h: "ci_ctx ctx = ci_ctx (ctxs ! c)" using ctx_at_handle [OF accepted(5) ctxs(1)] by simp
        have pd: "pend d = (pend (cw_dev w))(ci_ctx (ctxs ! c) := mset_set (used_tags p))"
          using drv_queue_send [OF drv accepted(6)] accepted(4,7) at found(4-7) by (simp add: h eq(1))
        have "pend_inv (pend d) cc ?pool1" using dfx_frame [OF accepted(8)]
          by (intro pend_inv_upd [OF pi pe ps(1) ctxs(1) c found(2) pd]) simp_all
        moreover have "pools_inv cc ?pool1" using dfx_frame [OF accepted(8)] by (intro pools_inv_upd [OF pi ps(1) found(2)]) (simp_all add: found(3))
        ultimately have "async_inv pend w'" by (simp add: async_inv_def accepted(9) set_pool_def set_config_def eq(3))
        moreover have "outstanding w' = add_mset req (outstanding w)"
          using outstanding_add [OF inj s, of "cw_msgs w" m'] drv_queue_send [OF drv accepted(6)]
          by (simp add: outstanding_def ps(1) accepted(9) set_pool_def set_config_def pools_of_def eq layout_upd(1) [OF found(2)] us accepted(3))
        ultimately show ?thesis using accepted(1,9) by (simp add: set_pool_def set_config_def)
      qed
    qed
  qed
qed

text \<open>Receiving a response calls back for a request that was outstanding and frees its message.\<close>

abbreviation strip :: "wd_cipher_req \<Rightarrow> wd_cipher_req" where "strip req \<equiv> req\<lparr>rq_state := 0\<rparr>"

lemma used_slots_remove:
  assumes "c < length ps" and "used_tags q = used_tags (ps ! c) - {t}"
  shows "used_slots (ps[c := q]) = used_slots ps - {(c, t)}"
proof (rule set_eqI)
  fix x :: "nat \<times> nat"
  obtain a b where x: "x = (a, b)" by fastforce
  show "x \<in> used_slots (ps[c := q]) \<longleftrightarrow> x \<in> used_slots ps - {(c, t)}"
    using assms by (cases "a = c") (auto simp: x used_slots_def)
qed

lemma poll_one_found:
  assumes "dx_recv dx d0 (ci_ctx ctx) resp (cw_dev w) = (r1, m1, d1)" and "\<not> r1 < 0"
    and "wd_find_msg_in_pool (cs_pool (cw_setting w)) (int c) (cm_tag m1) = Some (Some a)"
    and "wd_put_msg_to_pool (cs_pool (cw_setting w)) (int c) (cm_tag m1) = Some pool"
  shows "poll_one dx c (ctx, d0) resp w = Some (r1, True, m1,
    set_pool pool (w\<lparr>cw_dev := d1,
      cw_msgs := (cw_msgs w)(a := (cw_msgs w a)\<lparr>cm_tag := cm_tag m1, cm_req := (cm_req (cw_msgs w a))\<lparr>rq_state := cm_result m1\<rparr>\<rparr>),
      cw_called := (cm_req (cw_msgs w a))\<lparr>rq_state := cm_result m1\<rparr> # cw_called w\<rparr>))"
  using assms(2) by (simp add: poll_one_def assms(1,3,4) Let_def)

lemma poll_one_inv:
  assumes drv: "drv_queue dx pend" and inv: "async_inv pend w" and c: "c < cc_ctx_num (cs_config (cw_setting w))"
    and ctx: "ctx_at (cs_config (cw_setting w)) c = Some (ctx, d0)"
    and run: "poll_one dx c (ctx, d0) resp w = Some (ret, b, resp', w')"
  shows "async_inv pend w' \<and> cs_config (cw_setting w') = cs_config (cw_setting w) \<and>
    (if b then \<exists>q r. q \<in># outstanding w \<and> r = q\<lparr>rq_state := cm_result resp'\<rparr> \<and> cw_called w' = r # cw_called w \<and> outstanding w' = outstanding w - {#q#}
     else cw_called w' = cw_called w \<and> outstanding w' = outstanding w \<and> ret < 0)"
proof -
  let ?cc = "cs_config (cw_setting w)" and ?pool = "cs_pool (cw_setting w)"
  have pi: "pools_inv ?cc ?pool" and pe: "pend_inv (pend (cw_dev w)) ?cc ?pool" using inv by (simp_all add: async_inv_def)
  from pools_invE [OF pi] obtain ps ctxs where ps: "wp_pools ?pool = Some ps" "wp_pool_num ?pool = length ps" "cc_ctx_num ?cc = length ps" "length ps < 2 ^ 31"
    and ctxs: "cc_ctxs ?cc = Some ctxs" "length ctxs = length ps" "distinct (map ci_ctx ctxs)"
    and wf: "\<And>c. c < length ps \<Longrightarrow> mg_msg_num (ps ! c) \<noteq> 0 \<Longrightarrow> pool_wf (ps ! c)" and inj: "inj_on (slot_addr ps) (all_slots ps)" by metis
  have c: "c < length ps" using c ps(3) by simp
  have pools: "pools_of w = ps" by (simp add: pools_of_def ps(1))
  have h: "ci_ctx ctx = ci_ctx (ctxs ! c)" using ctx_at_handle [OF ctx ctxs(1)] by simp
  obtain r1 m1 d1 where rc: "dx_recv dx d0 (ci_ctx ctx) resp (cw_dev w) = (r1, m1, d1)" by (rule prod_cases3)
  note dq = drv_queue_recv [OF drv rc]
  note run1 = run [unfolded poll_one_def prod.case rc Let_def]
  show ?thesis
  proof (cases "r1 < 0")
    case True
    then have "w' = w\<lparr>cw_dev := d1\<rparr>" "b = False" "ret = r1" using run1 by simp_all
    then show ?thesis using inv dq True by (simp add: async_inv_def outstanding_def pools_of_def)
  next
    case False
    let ?t = "cm_tag m1"
    show ?thesis
    proof (cases "mg_msg_num (ps ! c) = 0")
      case True
      have "pool_at ?pool (int c) = Some (ps ! c)" using ps(1) c by (simp add: pool_at_def)
      moreover have "\<not> u32_of_int (int c) > wp_pool_num ?pool" using c ps(2,4) by (simp add: u32_of_int_def)
      ultimately have "wd_find_msg_in_pool ?pool (int c) ?t = Some None" using True by (auto simp: wd_find_msg_in_pool_def)
      then have w': "w' = w\<lparr>cw_dev := d1\<rparr>" "b = False" "ret = err WD_EINVAL" using run1 False by simp_all
      have "pend_inv (pend d1) ?cc ?pool"
        unfolding pend_inv_def
      proof (intro allI impI)
        fix a assume a: "a < cc_ctx_num ?cc" "mg_msg_num (the (wp_pools ?pool) ! a) \<noteq> 0"
        then have "a \<noteq> c" "a < length ps" using True ps by auto
        then have "ci_ctx (ctxs ! a) \<noteq> ci_ctx (ctxs ! c)" using ctxs(2) c nth_eq_iff_index_eq [OF ctxs(3), of a c] by simp
        then show "pend d1 (ci_ctx (the (cc_ctxs ?cc) ! a)) = mset_set (used_tags (the (wp_pools ?pool) ! a))"
          using dq False pe a by (simp add: pend_inv_def ctxs(1) h)
      qed
      then show ?thesis using pi w' errno_pos [of WD_EINVAL] by (simp add: async_inv_def outstanding_def pools_of_def)
    next
      case num: False
      note wfc = wf [OF c num]
      note at = pend_at [OF pi pe ps(1) ctxs(1) c num]
      have t: "?t \<in> used_tags (ps ! c)" using dq False by (simp add: h at)
      then have tr: "1 \<le> ?t" "?t \<le> mg_msg_num (ps ! c)" by (simp_all add: used_tags_def)
      let ?s = "(c, ?t)"
      have s: "?s \<in> used_slots ps" using t c by (simp add: used_slots_def)
      note find = find_msg_slot [OF ps(1) c wfc tr ps(2,4)]
      from put_msg_slot [OF ps(1) c wfc tr] obtain q where q: "wd_put_msg_to_pool ?pool (int c) ?t = Some (?pool\<lparr>wp_pools := Some (ps[c := q])\<rparr>)"
        "same_layout (ps ! c) q" "pool_wf q" "used_tags q = used_tags (ps ! c) - {?t}" by metis
      let ?pool1 = "?pool\<lparr>wp_pools := Some (ps[c := q])\<rparr>" and ?m = "cw_msgs w (slot_addr ps ?s)"
      let ?r = "(cm_req ?m)\<lparr>rq_state := cm_result m1\<rparr>"
      let ?w = "set_pool ?pool1 (w\<lparr>cw_dev := d1, cw_msgs := (cw_msgs w)(slot_addr ps ?s := ?m\<lparr>cm_tag := ?t, cm_req := ?r\<rparr>),
          cw_called := ?r # cw_called w\<rparr>)"
      note eq = poll_one_found [OF rc False find q(1), unfolded run option.inject prod.inject]
      have res: "b = True" by (rule eq [THEN conjunct2, THEN conjunct1])
      have resp: "resp' = m1" by (rule eq [THEN conjunct2, THEN conjunct2, THEN conjunct1])
      have w': "w' = ?w" by (rule eq [THEN conjunct2, THEN conjunct2, THEN conjunct2])
      have us: "used_slots (ps[c := q]) = used_slots ps - {?s}" by (rule used_slots_remove [OF c q(4)])
      have pd: "pend d1 = (pend (cw_dev w))(ci_ctx (ctxs ! c) := mset_set (used_tags q))"
        using dq False at t q(4) by (simp add: h mset_set_Diff)
      have "pend_inv (pend d1) ?cc ?pool1" by (intro pend_inv_upd [OF pi pe ps(1) ctxs(1) c q(2) pd]) simp_all
      moreover have "pools_inv ?cc ?pool1" by (rule pools_inv_upd [OF pi ps(1) q(2)]) (simp_all add: q(3))
      ultimately have 1: "async_inv pend w'" by (simp add: async_inv_def w' set_pool_def)
      have 2: "outstanding w' = outstanding w - {#cm_req ?m#}"
        using outstanding_remove [OF inj s, of "cw_msgs w" "?m\<lparr>cm_tag := ?t, cm_req := ?r\<rparr>"]
        by (simp add: outstanding_def ps(1) w' set_pool_def pools_of_def layout_upd(1) [OF q(2)] us)
      have 3: "cm_req ?m \<in># outstanding w" using s by (auto simp: outstanding_def pools)
      have 4: "cw_called w' = ?r # cw_called w" "cs_config (cw_setting w') = cs_config (cw_setting w)" by (simp_all add: w' set_pool_def)
      show ?thesis unfolding res if_True by (intro conjI 1 4(2) exI [of _ "cm_req ?m"] exI [of _ ?r] 2 3 4(1)) (simp add: resp)
    qed
  qed
qed

text \<open>What every call of the poll function keeps is kept by every polling policy.\<close>

definition poll_keeps :: "('w \<Rightarrow> bool) \<Rightarrow> 'w poll_func \<Rightarrow> bool" where
  "poll_keeps P poll \<longleftrightarrow> (\<forall>i e n w r n' w'. P w \<longrightarrow> poll i e n w = (r, n', w') \<longrightarrow> P w')"

lemma poll_keepsD: "poll_keeps P poll \<Longrightarrow> P w \<Longrightarrow> poll i e n w = (r, n', w') \<Longrightarrow> P w'"
  unfolding poll_keeps_def by blast

lemma poll_slots_keeps:
  assumes "poll_keeps P poll" and "P w" and "poll_slots poll expect is d s w = Some (r, d', w')"
  shows "P w'"
  using assms(2,3)
proof (induction "is" arbitrary: d s w)
  case (Cons i "is")
  obtain r1 n1 w1 where p: "poll (dc_idx_list (kd_idx_cache d) ! i) expect 0 w = (r1, n1, w1)" by (rule prod_cases3)
  have w1: "P w1" using poll_keepsD [OF assms(1) Cons.prems(1) p] .
  show ?case
    using Cons.prems(2) Cons.IH [OF Cons.prems(1)] Cons.IH [OF w1] w1 p
    by (auto simp: Let_def split: option.splits if_splits prod.splits)
qed simp

lemma poll_sessions_keeps:
  assumes "poll_keeps P poll" and "P w" and "poll_sessions poll expect ts st s w = Some (r, st', w')"
  shows "P w'"
  using assms(2,3)
proof (induction ts arbitrary: st s w)
  case (Cons t ts)
  have sk: "P w2" if "wd_sched_poll_skey poll k expect w = Some (x, k2, w2)" for k x k2 w2
    using that by (auto simp: wd_sched_poll_skey_def dest: poll_slots_keeps [OF assms(1) Cons.prems(1)] split: option.splits)
  show ?case
    using Cons.prems(2) Cons.IH [OF Cons.prems(1)] Cons.IH [OF sk] sk
    by (auto simp: Let_def split: option.splits if_splits prod.splits sum.splits)
qed simp

lemma simple_poll_keeps:
  assumes "poll_keeps P poll" and "P w" and "simple_poll_loop poll pos n e k c w = (r, c', w')"
  shows "P w'"
  using assms(2,3)
proof (induction n arbitrary: k c w)
  case (Suc n)
  obtain r1 n1 w1 where p: "poll pos 1 k w = (r1, n1, w1)" by (rule prod_cases3)
  have w1: "P w1" using poll_keepsD [OF assms(1) Suc.prems(1) p] .
  show ?case using Suc.prems(2) Suc.IH [OF w1] w1 p by (auto simp: Let_def split: if_splits)
qed simp

lemma poll_policy_keeps:
  assumes "poll_keeps P poll" and "P w"
    and "poll_policy policy (Some poll) tls st expect cnt w = Some (r, n, tls', st', w')"
  shows "P w'"
proof -
  note ps = poll_sessions_keeps [OF assms(1,2)] and sp = simple_poll_keeps [OF assms(1,2)]
  have rr: "P w2" if "round_robin_poll_policy (Some poll) tls st expect w = Some (x, t2, s2, w2)" for x t2 s2 w2
    using that assms(2) by (auto simp: round_robin_poll_policy_def Let_def dest: ps split: if_splits prod.splits option.splits sum.splits)
  have sk: "P w2" if "skey_sched_poll_policy (Some poll) tls st expect w = Some (x, t2, s2, w2)" for x t2 s2 w2
    using that assms(2) by (auto simp: skey_sched_poll_policy_def Let_def dest: ps split: if_splits prod.splits option.splits sum.splits)
  have ins: "P w2" if "instr_sched_poll_policy (Some poll) tls st expect cnt w = Some (x, t2, w2)" for x t2 w2
    using that assms(2)
    by (auto simp: instr_sched_poll_policy_def instr_poll_policy_rr_def Let_def dest: poll_keepsD [OF assms(1,2)] split: if_splits prod.splits option.splits)
  have l1: "\<exists>x. y = Some (x, tls', st', w')"
    if "map_option (\<lambda>(res, tls, st, w). case res of Inl e \<Rightarrow> (e, cnt, tls, st, w) | Inr None \<Rightarrow> (0, cnt, tls, st, w)
      | Inr (Some n) \<Rightarrow> (0, n, tls, st, w)) y = Some (r, n, tls', st', w')" for y
    using that by (cases y) (auto split: sum.splits option.splits)
  have l2: "\<exists>x. y = Some (x, tls', w')"
    if "map_option (\<lambda>(res, tls, w). case res of Inl e \<Rightarrow> (e, cnt, tls, st, w) | Inr n \<Rightarrow> (0, n, tls, st, w)) y = Some (r, n, tls', st', w')" for y
    using that by (cases y) (auto split: sum.splits)
  have l3: "\<exists>x c. y = (x, c, w')"
    if "(\<lambda>(res, cnt, w). Some (case res of Inl e \<Rightarrow> (e, cnt, tls, st, w) | Inr n \<Rightarrow> (0, n, tls, st, w))) y = Some (r, n, tls', st', w')" for y
    using that by (cases y) (auto split: sum.splits)
  note run = assms(3) [unfolded poll_policy_def Let_def loop_sched_poll_policy_def]
  have none: "P w'" if "policy = SCHED_POLICY_NONE"
    using l3 [OF run [unfolded if_P [OF that]]] sp by (auto simp: sched_none_poll_policy_def)
  have single: "P w'" if "policy = SCHED_POLICY_SINGLE" "policy \<noteq> SCHED_POLICY_NONE"
    using l3 [OF run [unfolded if_not_P [OF that(2)] if_P [OF that(1)]]] sp by (auto simp: sched_single_poll_policy_def)
  have other: "P w'" if "policy \<noteq> SCHED_POLICY_NONE" "policy \<noteq> SCHED_POLICY_SINGLE"
    using run [unfolded if_not_P [OF that(1)] if_not_P [OF that(2)]]
    by (auto dest!: l1 l2 rr sk ins split: if_splits simp del: map_option_eq_Some)
  show ?thesis using none single other by blast
qed

text \<open>Callbacks made and requests outstanding, without the state that the response sets.\<close>

definition balance :: "'d cipher_world \<Rightarrow> wd_cipher_req multiset" where
  "balance w = image_mset strip (mset (cw_called w)) + image_mset strip (outstanding w)"

lemma async_step_inv:
  assumes drv: "drv_queue dx pend" and inv: "async_inv pend w" and run: "wd_do_cipher_async ni dx (Some h) (Some req) w = Some (ret, w')"
  shows "async_inv pend w' \<and> balance w' = (if ret = 0 then add_mset (strip req) (balance w) else balance w)"
  using run
proof (cases rule: async_cases)
  case (early st)
  have "async_inv pend w'" by (rule async_inv_frame [OF inv]) (simp_all add: early(2))
  moreover have "balance w' = balance w" by (simp add: balance_def outstanding_def pools_of_def early(2))
  ultimately show ?thesis using early(1) by simp
next
  case (sent st c se)
  let ?w = "w\<lparr>cw_sched := st\<rparr>"
  have i: "async_inv pend ?w" by (rule async_inv_frame [OF inv]) simp_all
  have c: "c < cc_ctx_num (cs_config (cw_setting ?w))" using check_ctx_range [OF sent(1)] by simp
  have o: "outstanding ?w = outstanding w" "cw_called ?w = cw_called w" by (simp_all add: outstanding_def pools_of_def)
  note r = async_send_inv [OF drv i c sent(2), unfolded o]
  show ?thesis
  proof (cases "ret = 0")
    case True
    then show ?thesis using r by (simp add: balance_def)
  next
    case False
    then show ?thesis using r by (simp add: balance_def)
  qed
qed

lemma poll_one_balance:
  assumes "drv_queue dx pend" and "async_inv pend w" and "c < cc_ctx_num (cs_config (cw_setting w))"
    and "ctx_at (cs_config (cw_setting w)) c = Some (ctx, d0)" and "poll_one dx c (ctx, d0) resp w = Some (ret, b, resp', w')"
  shows "async_inv pend w' \<and> cs_config (cw_setting w') = cs_config (cw_setting w) \<and> balance w' = balance w \<and>
    length (cw_called w') = length (cw_called w) + (if b then 1 else 0)"
proof (cases b)
  case False
  then show ?thesis using poll_one_inv [OF assms] by (simp add: balance_def)
next
  case True
  from poll_one_inv [OF assms] True obtain q r where
    q: "async_inv pend w'" "cs_config (cw_setting w') = cs_config (cw_setting w)" "q \<in># outstanding w" "r = q\<lparr>rq_state := cm_result resp'\<rparr>"
    "cw_called w' = r # cw_called w" "outstanding w' = outstanding w - {#q#}" by auto
  have "outstanding w = add_mset q (outstanding w')" using q(3,6) by simp
  then have "balance w' = balance w" by (simp add: balance_def q(4,5))
  then show ?thesis using q True by simp
qed

lemma poll_loop_inv:
  assumes "drv_queue dx pend" and "async_inv pend w" and "c < cc_ctx_num (cs_config (cw_setting w))"
    and "ctx_at (cs_config (cw_setting w)) c = Some (ctx, d0)" and "poll_loop dx c (ctx, d0) n ret0 k resp w = Some (ret, k', w')"
  shows "async_inv pend w' \<and> balance w' = balance w \<and> length (cw_called w') + k = length (cw_called w) + k'"
  using assms(2-)
proof (induction n arbitrary: ret0 k resp w)
  case (Suc n)
  obtain r1 b m1 w1 where one: "poll_one dx c (ctx, d0) resp w = Some (r1, b, m1, w1)"
    using Suc.prems(4) by (cases "poll_one dx c (ctx, d0) resp w") auto
  note p = poll_one_balance [OF assms(1) Suc.prems(1-3) one]
  show ?case
  proof (cases b)
    case False
    then show ?thesis using Suc.prems(4) one p by simp
  next
    case True
    then have "poll_loop dx c (ctx, d0) n r1 (k + 1) m1 w1 = Some (ret, k', w')" using Suc.prems(4) one by simp
    from Suc.IH [OF _ _ _ this] p True Suc.prems(2,3) show ?thesis by simp
  qed
qed simp

lemma poll_ctx_inv:
  assumes drv: "drv_queue dx pend" and inv: "async_inv pend w" and run: "wd_cipher_poll_ctx dx c expt (Some n) w = Some (ret, n', w')"
  shows "async_inv pend w' \<and> balance w' = balance w \<and> length (cw_called w') = length (cw_called w) + (if expt = 0 then 0 else the n')"
proof (cases "expt = 0")
  case True
  then show ?thesis using run inv by (simp add: wd_cipher_poll_ctx_def)
next
  case False
  note run1 = run [unfolded wd_cipher_poll_ctx_def]
  obtain e where e: "wd_check_ctx (cs_config (cw_setting w)) CTX_MODE_ASYNC c = Some e"
    using run1 False by (cases "wd_check_ctx (cs_config (cw_setting w)) CTX_MODE_ASYNC c") simp_all
  show ?thesis
  proof (cases "e = 0")
    case False
    then show ?thesis using run1 \<open>expt \<noteq> 0\<close> e inv by auto
  next
    case True
    obtain cd where at: "ctx_at (cs_config (cw_setting w)) c = Some cd"
      using run1 False e True by (cases "ctx_at (cs_config (cw_setting w)) c") simp_all
    obtain ctx d0 where cd: "cd = (ctx, d0)" by fastforce
    obtain r k w1 where lp: "poll_loop dx c (ctx, d0) expt 0 0 zero_msg w = Some (r, k, w1)" "n' = Some k" "w1 = w'"
      using run1 False e True at cd by auto
    have c: "c < cc_ctx_num (cs_config (cw_setting w))" using check_ctx_range [of "cs_config (cw_setting w)"] e True by simp
    from poll_loop_inv [OF drv inv c at [unfolded cd] lp(1)] show ?thesis using lp(2,3) False by simp
  qed
qed

text \<open>Every polling policy of the scheduler.\<close>

lemma poll_inv:
  assumes drv: "drv_queue dx pend" and inv: "async_inv pend w" and run: "wd_cipher_poll dx tls expt cnt w = Some (ret, cnt', tls', w')"
  shows "async_inv pend w' \<and> balance w' = balance w"
proof (cases cnt)
  case None
  then show ?thesis using run inv by (simp add: wd_cipher_poll_def)
next
  case (Some n)
  let ?P = "\<lambda>x. case x of None \<Rightarrow> True | Some v \<Rightarrow> async_inv pend v \<and> balance v = balance w"
  have keeps: "poll_keeps ?P (cipher_poll_func dx)"
    unfolding poll_keeps_def cipher_poll_func_def
    by (auto dest: poll_ctx_inv [OF drv] split: option.splits)
  obtain policy st where po: "sd_poll_policy (cs_sched (cw_setting w)) = Some policy" "cw_sched w = Some st"
    using run Some by (auto simp: wd_cipher_poll_def split: option.splits)
  obtain r n2 t2 st2 w2 where pp: "poll_policy policy (Some (cipher_poll_func dx)) tls st expt n (Some w) = Some (r, n2, t2, st2, Some w2)"
    and w': "w' = w2\<lparr>cw_sched := Some st2\<rparr>"
    using run Some po by (auto simp: wd_cipher_poll_def split: option.splits)
  have w: "?P (Some w)" using inv by simp
  from poll_policy_keeps [OF keeps w pp] have "async_inv pend w2" "balance w2 = balance w" by simp_all
  moreover have "async_inv pend w'" by (rule async_inv_frame [OF \<open>async_inv pend w2\<close>]) (simp_all add: w')
  ultimately show ?thesis by (simp add: w' balance_def outstanding_def pools_of_def)
qed

end
