(* ===== verification/Cipher_Properties.thy ===== *)
theory Cipher_Properties
  imports Cipher_Async
begin

text \<open>
  Properties of the cipher front end: each accepted asynchronous request is answered exactly once, polling delivers all answers, outcomes
  of synchronous requests, sessions.
\<close>

text \<open>
  An application that opens and closes sessions, sets keys, submits asynchronous requests and polls, by context or through the
  scheduler. The second component of the state collects the requests that were accepted.
\<close>

inductive cipher_step ::
  "'d cipher_drv \<Rightarrow> 'd cipher_world \<times> wd_cipher_req list \<Rightarrow> 'd cipher_world \<times> wd_cipher_req list \<Rightarrow> bool" for dx :: "'d cipher_drv" where
  submit: "wd_do_cipher_async ni dx (Some h) (Some req) w = Some (ret, w') \<Longrightarrow>
    cipher_step dx (w, acc) (w', if ret = 0 then req # acc else acc)"
| poll_ctx: "wd_cipher_poll_ctx dx c expt (Some n) w = Some (ret, n', w') \<Longrightarrow> cipher_step dx (w, acc) (w', acc)"
| poll: "wd_cipher_poll dx tls expt cnt w = Some (ret, cnt', tls', w') \<Longrightarrow> cipher_step dx (w, acc) (w', acc)"
| open_sess: "wd_cipher_alloc_sess ev rg setup w = Some (h, w') \<Longrightarrow> cipher_step dx (w, acc) (w', acc)"
| close_sess: "wd_cipher_free_sess h w = Some w' \<Longrightarrow> cipher_step dx (w, acc) (w', acc)"
| set_key: "cw_sess w h = Some se \<Longrightarrow> wd_cipher_set_key (Some se) key n = Some (ret, Some se') \<Longrightarrow>
    cipher_step dx (w, acc) (w\<lparr>cw_sess := (cw_sess w)(h \<mapsto> se')\<rparr>, acc)"

lemma alloc_sess_frame:
  assumes "wd_cipher_alloc_sess ev rg setup w = Some (h, w')"
  shows "\<exists>st m. w' = w\<lparr>cw_sched := st, cw_sess := m\<rparr>"
proof -
  have id: "w = w\<lparr>cw_sched := cw_sched w, cw_sess := cw_sess w\<rparr>" by simp
  have one: "w\<lparr>cw_sched := x\<rparr> = w\<lparr>cw_sched := x, cw_sess := cw_sess w\<rparr>" for x by simp
  have "w' = w \<or> (\<exists>x. w' = w\<lparr>cw_sched := x\<rparr>) \<or> (\<exists>x m. w' = w\<lparr>cw_sched := x, cw_sess := m\<rparr>)"
    using assms by (auto simp: wd_cipher_alloc_sess_def Let_def split: option.splits if_splits prod.splits sum.splits)
  then show ?thesis using id one by metis
qed

lemma free_sess_frame:
  assumes "wd_cipher_free_sess h w = Some w'"
  shows "\<exists>st m. w' = w\<lparr>cw_sched := st, cw_sess := m\<rparr>"
proof -
  have id: "w = w\<lparr>cw_sched := cw_sched w, cw_sess := cw_sess w\<rparr>" by simp
  have one: "w\<lparr>cw_sess := m\<rparr> = w\<lparr>cw_sched := cw_sched w, cw_sess := m\<rparr>" for m by simp
  have "w' = w \<or> (\<exists>m. w' = w\<lparr>cw_sess := m\<rparr>) \<or> (\<exists>x m. w' = w\<lparr>cw_sched := x, cw_sess := m\<rparr>)"
    using assms by (auto simp: wd_cipher_free_sess_def split: option.splits if_splits prod.splits)
  then show ?thesis using id one by metis
qed

lemma sess_frame_inv:
  assumes "async_inv pend w" and "\<exists>st m. w' = w\<lparr>cw_sched := st, cw_sess := m\<rparr>"
  shows "async_inv pend w' \<and> balance w' = balance w"
  using assms by (auto simp: async_inv_def balance_def outstanding_def pools_of_def)

lemma cipher_step_inv:
  assumes drv: "drv_queue dx pend"
  shows "cipher_step dx s s' \<Longrightarrow> async_inv pend (fst s) \<and> balance (fst s) = image_mset strip (mset (snd s)) \<Longrightarrow>
    async_inv pend (fst s') \<and> balance (fst s') = image_mset strip (mset (snd s'))"
proof (induction rule: cipher_step.induct)
  case (submit ni h req w ret w' acc)
  then show ?case using async_step_inv [OF drv _ submit(1)] by simp
next
  case (poll_ctx c expt n w ret n' w' acc)
  then show ?case using poll_ctx_inv [OF drv _ poll_ctx(1)] by simp
next
  case (poll tls expt cnt w ret cnt' tls' w' acc)
  then show ?case using poll_inv [OF drv _ poll(1)] by simp
next
  case (open_sess ev rg su w h w' acc)
  then show ?case using sess_frame_inv [OF _ alloc_sess_frame [OF open_sess(1)], of pend] by simp
next
  case (close_sess h w w' acc)
  then show ?case using sess_frame_inv [OF _ free_sess_frame [OF close_sess(1)], of pend] by simp
next
  case (set_key w h se key n ret se' acc)
  have "\<exists>st m. w\<lparr>cw_sess := (cw_sess w)(h \<mapsto> se')\<rparr> = w\<lparr>cw_sched := st, cw_sess := m\<rparr>" by (intro exI [of _ "cw_sched w"] exI) simp
  then show ?case using set_key(3) sess_frame_inv [of pend w "w\<lparr>cw_sess := (cw_sess w)(h \<mapsto> se')\<rparr>"] by simp
qed

text \<open>
  C1: Asynchronous requests are answered exactly once. With any driver that queues messages, whatever sequence of opening and
  closing sessions, setting keys, submitting and polling an application makes, the requests that were accepted are those for which
  callbacks were made and those that are still outstanding, each as often as it was submitted; only the state differs. The tags
  in use of each pool are those that the queue of its context has not answered.
\<close>

theorem async_exactly_once:
  assumes "drv_queue dx pend" and "async_inv pend w0" and "cw_called w0 = []" and "outstanding w0 = {#}"
    and "(cipher_step dx)\<^sup>*\<^sup>* (w0, []) (w, acc)"
  shows "image_mset strip (mset acc) = image_mset strip (mset (cw_called w)) + image_mset strip (outstanding w) \<and> async_inv pend w"
proof -
  have "async_inv pend (fst s) \<and> balance (fst s) = image_mset strip (mset (snd s))" if "(cipher_step dx)\<^sup>*\<^sup>* (w0, []) s" for s
    using that
  proof (induction rule: rtranclp_induct)
    case base
    then show ?case using assms(2-4) by (simp add: balance_def)
  next
    case (step y z)
    then show ?case using cipher_step_inv [OF assms(1) step(2)] by blast
  qed
  from this [OF assms(5)] show ?thesis by (simp add: balance_def)
qed

text \<open>A driver with one queue per handle that answers in order, and a front end with a synchronous and an asynchronous context.\<close>

definition fifo_drv :: "(nat \<Rightarrow> nat list) cipher_drv" where
  "fifo_drv = \<lparr>dx_send = \<lambda>drv h m d. (0, m, d(h := d h @ [cm_tag m])),
     dx_recv = \<lambda>drv h m d. (case d h of [] \<Rightarrow> (err WD_EAGAIN, m, d) | t # ts \<Rightarrow> (0, m\<lparr>cm_tag := t, cm_result := 0\<rparr>, d(h := ts))),
     dx_wait = \<lambda>h d. d\<rparr>"

abbreviation fifo_pend :: "(nat \<Rightarrow> nat list) \<Rightarrow> nat \<Rightarrow> nat multiset" where
  "fifo_pend d h \<equiv> mset (d h)"

lemma fifo_queue: "drv_queue fifo_drv fifo_pend"
  using errno_pos [of WD_EAGAIN] by (auto simp: drv_queue_def fifo_drv_def split: list.splits intro!: ext)

definition demo_pool :: msg_pool where
  "demo_pool = \<lparr>mg_msgs = Some 4096, mg_used = Some [False, False], mg_msg_num = 2, mg_msg_size = 144, mg_tail = 0\<rparr>"

definition demo_setting :: wd_cipher_setting where
  "demo_setting = \<lparr>cs_status = WD_INIT,
     cs_config = zero_config\<lparr>cc_ctx_num := 2, cc_ctxs := Some [zero_ctx\<lparr>ci_ctx := 11, ci_drv := Some drv_sec\<rparr>,
       zero_ctx\<lparr>ci_ctx := 12, ci_ctx_mode := 1, ci_drv := Some drv_sec\<rparr>]\<rparr>,
     cs_sched = sched_of SCHED_POLICY_SINGLE, cs_pool = \<lparr>wp_pools = Some [zero_pool, demo_pool], wp_pool_num = 2\<rparr>, cs_priv = True,
     cs_dlhandle = True\<rparr>"

definition demo_cw :: "(nat \<Rightarrow> nat list) cipher_world" where
  "demo_cw = \<lparr>cw_setting = demo_setting, cw_sched = None, cw_sess = [5 \<mapsto> demo_sess], cw_msgs = \<lambda>_. zero_msg, cw_dev = \<lambda>_. [], cw_called = []\<rparr>"

definition demo_req :: wd_cipher_req where
  "demo_req = zero_req\<lparr>rq_src := Flat 64, rq_dst := Flat 128, rq_iv := 32, rq_in_bytes := 16, rq_iv_bytes := 16, rq_out_buf_bytes := 16,
     rq_out_bytes := 16, rq_cb := 1, rq_cb_param := 99\<rparr>"

lemma demo_inv: "async_inv fifo_pend demo_cw"
proof -
  have "all_slots [zero_pool, demo_pool] = {(1, 1), (1, 2)}"
    by (auto simp: all_slots_def zero_pool_def demo_pool_def less_Suc_eq nth_Cons split: nat.splits)
  then have "inj_on (slot_addr [zero_pool, demo_pool]) (all_slots [zero_pool, demo_pool])"
    by (simp add: inj_on_def slot_addr_def demo_pool_def u32_def)
  moreover have "pool_wf demo_pool" "mg_msg_num zero_pool = 0" "used_tags demo_pool = {}"
    by (auto simp: pool_wf_def demo_pool_def zero_pool_def used_tags_def nth_Cons split: nat.splits)
  ultimately show ?thesis
    by (auto simp: async_inv_def pools_inv_def pend_inv_def demo_cw_def demo_setting_def zero_config_def zero_ctx_def less_Suc_eq nth_Cons split: nat.splits)
qed

lemma demo_outstanding: "outstanding demo_cw = {#}"
proof -
  have "used_slots [zero_pool, demo_pool] = {}"
    by (auto simp: used_slots_def used_tags_def zero_pool_def demo_pool_def less_Suc_eq nth_Cons split: nat.splits)
  then show ?thesis by (simp add: outstanding_def pools_of_def demo_cw_def demo_setting_def)
qed

lemma demo_check: "wd_cipher_check_params (Some demo_sess) (Some demo_req) CTX_MODE_ASYNC = Some 0"
  by (simp add: wd_cipher_check_params_def demo_sess_def demo_req_def zero_sess_def zero_req_def cipher_in_len_check_def cipher_iv_len_check_def
      cipher_consts wd_check_src_dst_def buf_addr_def)

lemma demo_pick: "pick_ctx CTX_MODE_ASYNC demo_sess demo_cw = Some (1, demo_cw)"
  by (simp add: pick_ctx_def demo_cw_def demo_setting_def sched_of_def pick_next_ctx_def sched_single_pick_next_ctx_def sched_policy_defs CTX_MODE_ASYNC_def)

lemma demo_ctx_ok: "wd_check_ctx (cs_config demo_setting) CTX_MODE_ASYNC 1 = Some 0"
  by (simp add: wd_check_ctx_def demo_setting_def zero_config_def zero_ctx_def QUEUE_FULL_POS_def CTX_MODE_ASYNC_def rd_def)

lemma demo_get_msg: "wd_get_msg_from_pool (cs_pool demo_setting) (int 1) = Some (Inr (1, 4096),
    \<lparr>wp_pools = Some [zero_pool, demo_pool\<lparr>mg_used := Some [True, False], mg_tail := 1\<rparr>], wp_pool_num = 2\<rparr>)"
  by (simp add: wd_get_msg_from_pool_def pool_at_def demo_setting_def demo_pool_def msg_probe.simps rd_def u32_def)

lemma demo_at: "ctx_at (cs_config demo_setting) 1 = Some (zero_ctx\<lparr>ci_ctx := 12, ci_ctx_mode := 1, ci_drv := Some drv_sec\<rparr>, drv_sec)"
  by (simp add: ctx_at_def demo_setting_def zero_config_def rd_def)

definition demo_sent :: "(nat \<Rightarrow> nat list) cipher_world" where
  "demo_sent = demo_cw\<lparr>cw_setting := demo_setting\<lparr>cs_pool := \<lparr>wp_pools = Some [zero_pool, demo_pool\<lparr>mg_used := Some [True, False], mg_tail := 1\<rparr>],
       wp_pool_num = 2\<rparr>\<rparr>, cw_msgs := (\<lambda>_. zero_msg)(4096 := (fill_request_msg zero_msg demo_req 5 demo_sess)\<lparr>cm_tag := 1\<rparr>),
     cw_dev := (\<lambda>_. [])(12 := [1])\<rparr>"

lemma demo_submit: "wd_do_cipher_async False fifo_drv (Some 5) (Some demo_req) demo_cw = Some (0, demo_sent)"
proof -
  have w: "cw_sess demo_cw 5 = Some demo_sess" "cw_setting demo_cw = demo_setting" "cw_msgs demo_cw = (\<lambda>_. zero_msg)" "cw_dev demo_cw = (\<lambda>_. [])"
    by (simp_all add: demo_cw_def)
  have "async_send False fifo_drv 5 demo_sess demo_req 1 demo_cw = Some (0, demo_sent)"
    unfolding async_send_def w demo_get_msg demo_at Let_def prod.case option.case sum.case
    by (simp add: fifo_drv_def wd_dfx_msg_cnt_def set_pool_def set_config_def w demo_sent_def fun_upd_def cong: if_cong)
  then show ?thesis
    unfolding wd_do_cipher_async_def Let_def option.case w demo_check prod.case
    by (simp add: demo_pick w demo_ctx_ok del: One_nat_def)
qed

lemma demo_poll: "\<exists>w. wd_cipher_poll_ctx fifo_drv 1 1 (Some 0) demo_sent = Some (0, Some 1, w) \<and> cw_called w = [demo_req]"
proof -
  have c: "cs_config (cw_setting demo_sent) = cs_config demo_setting" "cw_dev demo_sent 12 = [1]" by (simp_all add: demo_sent_def)
  let ?ctx = "zero_ctx\<lparr>ci_ctx := 12, ci_ctx_mode := 1, ci_drv := Some drv_sec\<rparr>"
  have p: "cs_pool (cw_setting demo_sent) = \<lparr>wp_pools = Some [zero_pool, demo_pool\<lparr>mg_used := Some [True, False], mg_tail := 1\<rparr>], wp_pool_num = 2\<rparr>"
    by (simp add: demo_sent_def)
  have rc: "dx_recv fifo_drv drv_sec (ci_ctx ?ctx) zero_msg (cw_dev demo_sent) = (0, zero_msg\<lparr>cm_tag := 1, cm_result := 0\<rparr>, (cw_dev demo_sent)(12 := []))"
    by (simp add: fifo_drv_def c(2))
  have find: "wd_find_msg_in_pool (cs_pool (cw_setting demo_sent)) (int 1) (cm_tag (zero_msg\<lparr>cm_tag := 1, cm_result := 0\<rparr>)) = Some (Some 4096)"
    by (simp add: p wd_find_msg_in_pool_def u32_of_int_def pool_at_def demo_pool_def rd_def u32_def)
  obtain pool where put: "wd_put_msg_to_pool (cs_pool (cw_setting demo_sent)) (int 1) (cm_tag (zero_msg\<lparr>cm_tag := 1, cm_result := 0\<rparr>)) = Some pool"
    by (simp add: p wd_put_msg_to_pool_def pool_at_def demo_pool_def rd_def wr_def)
  have m: "cm_req (cw_msgs demo_sent 4096) = demo_req" "cw_called demo_sent = []" by (simp_all add: demo_sent_def demo_cw_def fill_request_msg_def)
  have r: "demo_req\<lparr>rq_state := 0\<rparr> = demo_req" by (simp add: demo_req_def zero_req_def)
  have nn: "\<not> (0 :: int) < 0" by simp
  obtain w where one: "poll_one fifo_drv 1 (?ctx, drv_sec) zero_msg demo_sent = Some (0, True, zero_msg\<lparr>cm_tag := 1, cm_result := 0\<rparr>, w)"
    and w: "cw_called w = [demo_req]"
    using poll_one_found [OF rc nn find put] by (simp add: m r set_pool_def)
  have lp: "poll_loop fifo_drv 1 (?ctx, drv_sec) 1 0 0 zero_msg demo_sent = Some (0, 1, w)"
    using one by simp
  have "wd_cipher_poll_ctx fifo_drv 1 1 (Some 0) demo_sent = Some (0, Some 1, w)"
    unfolding wd_cipher_poll_ctx_def c demo_ctx_ok demo_at by (simp add: lp del: One_nat_def)
  then show ?thesis using w by blast
qed

theorem async_exactly_once_witness:
  "\<exists>w. wd_do_cipher_async False fifo_drv (Some 5) (Some demo_req) demo_cw = Some (0, demo_sent) \<and>
    wd_cipher_poll_ctx fifo_drv 1 1 (Some 0) demo_sent = Some (0, Some 1, w) \<and> cw_called w = [demo_req] \<and> image_mset strip (outstanding w) = {#}"
proof -
  from demo_poll obtain w where w: "wd_cipher_poll_ctx fifo_drv 1 1 (Some 0) demo_sent = Some (0, Some 1, w)" "cw_called w = [demo_req]" by blast
  have "cipher_step fifo_drv (demo_cw, []) (demo_sent, [demo_req])" using cipher_step.submit [OF demo_submit, of "[]"] by simp
  moreover have "cipher_step fifo_drv (demo_sent, [demo_req]) (w, [demo_req])" by (rule cipher_step.poll_ctx [OF w(1)])
  ultimately have "(cipher_step fifo_drv)\<^sup>*\<^sup>* (demo_cw, []) (w, [demo_req])" by (meson r_into_rtranclp rtranclp_trans)
  from async_exactly_once [OF fifo_queue demo_inv _ demo_outstanding this] w(2) have "image_mset strip (outstanding w) = {#}"
    by (simp add: demo_cw_def)
  then show ?thesis using demo_submit w by blast
qed

subsection \<open>Polling delivers\<close>

text \<open>
  A device finishes messages at its own pace. \<open>fin\<close> are the messages of a queue that it has finished and that were not delivered: a
  driver delivers as long as there are any, says \<^verbatim>\<open>-WD_EAGAIN\<close> only when there are none, and what is finished stays so until it is delivered.
\<close>

definition drv_delivers :: "'d cipher_drv \<Rightarrow> ('d \<Rightarrow> nat \<Rightarrow> nat multiset) \<Rightarrow> ('d \<Rightarrow> nat \<Rightarrow> nat multiset) \<Rightarrow> bool" where
  "drv_delivers dx pend fin \<longleftrightarrow> (\<forall>d h. fin d h \<subseteq># pend d h) \<and>
     (\<forall>drv h m d ret m' d'. dx_recv dx drv h m d = (ret, m', d') \<longrightarrow>
        (if ret < 0 then fin d h = {#} \<and> ret = err WD_EAGAIN else fin d h - {#cm_tag m'#} \<subseteq># fin d' h))"

lemma drv_deliversD:
  assumes "drv_delivers dx pend fin"
  shows "fin d h \<subseteq># pend d h"
    and "dx_recv dx drv h m d = (ret, m', d') \<Longrightarrow> ret < 0 \<Longrightarrow> fin d h = {#} \<and> ret = err WD_EAGAIN"
    and "dx_recv dx drv h m d = (ret, m', d') \<Longrightarrow> 0 \<le> ret \<Longrightarrow> fin d h - {#cm_tag m'#} \<subseteq># fin d' h"
  using assms unfolding drv_delivers_def by (simp, metis (no_types, lifting), metis (no_types, lifting) not_less)

lemma undelivered_step:
  fixes P F F' Q :: "'a multiset"
  assumes "Q \<subseteq># P - {#t#} - F'" and "F - {#t#} \<subseteq># F'"
  shows "Q \<subseteq># P - F"
  unfolding subseteq_mset_def
proof
  fix x
  have "count Q x \<le> count (P - {#t#} - F') x" "count (F - {#t#}) x \<le> count F' x" using assms by (simp_all add: subseteq_mset_def)
  then show "count Q x \<le> count (P - F) x" by (cases "x = t") auto
qed

lemma poll_one_delivers:
  assumes drv: "drv_queue dx pend" and inv: "async_inv pend w" and c: "c < cc_ctx_num (cs_config (cw_setting w))"
    and ctx: "ctx_at (cs_config (cw_setting w)) c = Some (ctx, d0)" and num: "mg_msg_num (pools_of w ! c) \<noteq> 0"
    and rc: "dx_recv dx d0 (ci_ctx ctx) resp (cw_dev w) = (r1, m1, d1)" and ok: "0 \<le> r1"
  shows "\<exists>w'. poll_one dx c (ctx, d0) resp w = Some (r1, True, m1, w') \<and> cw_dev w' = d1 \<and> mg_msg_num (pools_of w' ! c) \<noteq> 0"
proof -
  let ?cc = "cs_config (cw_setting w)" and ?pool = "cs_pool (cw_setting w)"
  have pi: "pools_inv ?cc ?pool" and pe: "pend_inv (pend (cw_dev w)) ?cc ?pool" using inv by (simp_all add: async_inv_def)
  from pools_invE [OF pi] obtain ps ctxs where ps: "wp_pools ?pool = Some ps" "wp_pool_num ?pool = length ps" "cc_ctx_num ?cc = length ps" "length ps < 2 ^ 31"
    and ctxs: "cc_ctxs ?cc = Some ctxs" and wf: "\<And>c. c < length ps \<Longrightarrow> mg_msg_num (ps ! c) \<noteq> 0 \<Longrightarrow> pool_wf (ps ! c)" by metis
  have c: "c < length ps" and num: "mg_msg_num (ps ! c) \<noteq> 0" using c ps(1,3) num by (simp_all add: pools_of_def)
  have "cm_tag m1 \<in># pend (cw_dev w) (ci_ctx ctx)" using drv_queue_recv [OF drv rc] ok by simp
  then have "cm_tag m1 \<in> used_tags (ps ! c)"
    using pend_at [OF pi pe ps(1) ctxs c num] ctx_at_handle [OF ctx ctxs] by simp
  then have t: "1 \<le> cm_tag m1" "cm_tag m1 \<le> mg_msg_num (ps ! c)" by (simp_all add: used_tags_def)
  note find = find_msg_slot [OF ps(1) c wf [OF c num] t ps(2,4)]
  from put_msg_slot [OF ps(1) c wf [OF c num] t] obtain q where
    put: "wd_put_msg_to_pool ?pool (int c) (cm_tag m1) = Some (?pool\<lparr>wp_pools := Some (ps[c := q])\<rparr>)" and lay: "same_layout (ps ! c) q" by metis
  have nn: "\<not> r1 < 0" using ok by simp
  show ?thesis
    by (intro exI conjI, rule poll_one_found [OF rc nn find put])
      (use lay num c in \<open>simp_all add: set_pool_def pools_of_def same_layout_def\<close>)
qed

lemma poll_one_empty:
  assumes "dx_recv dx d0 (ci_ctx ctx) resp (cw_dev w) = (r1, m1, d1)" and "r1 < 0"
  shows "poll_one dx c (ctx, d0) resp w = Some (r1, False, m1, w\<lparr>cw_dev := d1\<rparr>)"
  using assms by (simp add: poll_one_def Let_def)

text \<open>What the loop leaves in the queue of the context after \<open>j\<close> deliveries, given more rounds than there are messages.\<close>

lemma poll_loop_drains:
  assumes drv: "drv_queue dx pend" "drv_delivers dx pend fin" and "async_inv pend w" and "c < cc_ctx_num (cs_config (cw_setting w))"
    and "ctx_at (cs_config (cw_setting w)) c = Some (ctx, d0)" and "mg_msg_num (pools_of w ! c) \<noteq> 0"
    and "size (pend (cw_dev w) (ci_ctx ctx)) < n"
  shows "\<exists>w' j. poll_loop dx c (ctx, d0) n ret0 k resp w = Some (err WD_EAGAIN, k + j, w') \<and>
    size (pend (cw_dev w) (ci_ctx ctx)) = j + size (pend (cw_dev w') (ci_ctx ctx)) \<and>
    pend (cw_dev w') (ci_ctx ctx) \<subseteq># pend (cw_dev w) (ci_ctx ctx) - fin (cw_dev w) (ci_ctx ctx) \<and>
    cs_config (cw_setting w') = cs_config (cw_setting w) \<and> mg_msg_num (pools_of w' ! c) \<noteq> 0"
  using assms(3-)
proof (induction n arbitrary: ret0 k resp w)
  case (Suc n)
  let ?h = "ci_ctx ctx"
  obtain r1 m1 d1 where rc: "dx_recv dx d0 ?h resp (cw_dev w) = (r1, m1, d1)" by (rule prod_cases3)
  note dq = drv_queue_recv [OF drv(1) rc]
  show ?case
  proof (cases "r1 < 0")
    case True
    have f: "fin (cw_dev w) ?h = {#}" "r1 = err WD_EAGAIN" using drv_deliversD(2) [OF drv(2) rc True] by simp_all
    let ?w = "w\<lparr>cw_dev := d1\<rparr>"
    have "poll_loop dx c (ctx, d0) (Suc n) ret0 k resp w = Some (err WD_EAGAIN, k + 0, ?w)" using poll_one_empty [OF rc True] f(2) by simp
    moreover have "pend d1 = pend (cw_dev w)" using dq True by simp
    ultimately show ?thesis using f(1) Suc.prems(4) by (intro exI [of _ ?w] exI [of _ 0]) (simp add: pools_of_def)
  next
    case False
    then have ok: "0 \<le> r1" by simp
    from poll_one_delivers [OF drv(1) Suc.prems(1-4) rc ok] obtain w1 where
      one: "poll_one dx c (ctx, d0) resp w = Some (r1, True, m1, w1)" "cw_dev w1 = d1" "mg_msg_num (pools_of w1 ! c) \<noteq> 0" by blast
    note p = poll_one_balance [OF drv(1) Suc.prems(1-3) one(1)]
    have tag: "cm_tag m1 \<in># pend (cw_dev w) ?h" "pend d1 ?h = pend (cw_dev w) ?h - {#cm_tag m1#}" using dq ok by simp_all
    have sz: "size (pend (cw_dev w) ?h) = Suc (size (pend d1 ?h))" using tag by (simp add: size_Suc_Diff1)
    have "\<exists>w' j. poll_loop dx c (ctx, d0) n r1 (k + 1) m1 w1 = Some (err WD_EAGAIN, k + 1 + j, w') \<and>
        size (pend (cw_dev w1) ?h) = j + size (pend (cw_dev w') ?h) \<and> pend (cw_dev w') ?h \<subseteq># pend (cw_dev w1) ?h - fin (cw_dev w1) ?h \<and>
        cs_config (cw_setting w') = cs_config (cw_setting w1) \<and> mg_msg_num (pools_of w' ! c) \<noteq> 0"
      by (rule Suc.IH) (use p Suc.prems one sz in simp_all)
    then obtain w' j where lp: "poll_loop dx c (ctx, d0) n r1 (k + 1) m1 w1 = Some (err WD_EAGAIN, k + 1 + j, w')"
      "size (pend d1 ?h) = j + size (pend (cw_dev w') ?h)" "pend (cw_dev w') ?h \<subseteq># pend (cw_dev w) ?h - {#cm_tag m1#} - fin d1 ?h"
      "cs_config (cw_setting w') = cs_config (cw_setting w)" "mg_msg_num (pools_of w' ! c) \<noteq> 0"
      using one(2) tag(2) p by auto
    have "poll_loop dx c (ctx, d0) (Suc n) ret0 k resp w = Some (err WD_EAGAIN, k + Suc j, w')" using one(1) lp(1) by simp
    then show ?thesis using sz lp(2,4,5) undelivered_step [OF lp(3) drv_deliversD(3) [OF drv(2) rc ok]] by (intro exI [of _ w'] exI [of _ "Suc j"]) simp
  qed
qed simp

text \<open>
  C17: Polling an asynchronous context for more responses than it has requests outstanding delivers all that is finished. With any driver that
  queues messages, delivers as long as finished ones are there and says \<^verbatim>\<open>-WD_EAGAIN\<close> when there are none, the call ends with
  \<^verbatim>\<open>-WD_EAGAIN\<close>; its count is the number of callbacks made and of messages that are free again, and none of the messages that
  were finished when it was called is still in use. The requests called back are those that are no longer outstanding.
\<close>

theorem poll_drains:
  assumes "drv_queue dx pend" "drv_delivers dx pend fin" and "async_inv pend w"
    and "wd_check_ctx (cs_config (cw_setting w)) CTX_MODE_ASYNC c = Some 0" and "ctx_at (cs_config (cw_setting w)) c = Some (ctx, drv)"
    and "mg_msg_num (pools_of w ! c) \<noteq> 0" and "card (used_tags (pools_of w ! c)) < expt"
  shows "\<exists>k w'. wd_cipher_poll_ctx dx c expt (Some n) w = Some (err WD_EAGAIN, Some k, w') \<and>
    length (cw_called w') = length (cw_called w) + k \<and> card (used_tags (pools_of w ! c)) = k + card (used_tags (pools_of w' ! c)) \<and>
    used_tags (pools_of w' ! c) \<subseteq> used_tags (pools_of w ! c) - set_mset (fin (cw_dev w) (ci_ctx ctx)) \<and>
    image_mset strip (mset (cw_called w')) + image_mset strip (outstanding w') = image_mset strip (mset (cw_called w)) + image_mset strip (outstanding w) \<and>
    async_inv pend w'"
proof -
  let ?h = "ci_ctx ctx"
  have c: "c < cc_ctx_num (cs_config (cw_setting w))" by (rule check_ctx_range [OF assms(4)])
  have pend: "pend (cw_dev v) ?h = mset_set (used_tags (pools_of v ! c))"
    if "async_inv pend v" "cs_config (cw_setting v) = cs_config (cw_setting w)" "mg_msg_num (pools_of v ! c) \<noteq> 0" for v
    using that assms(5) c by (auto simp: async_inv_def pend_inv_def pools_of_def ctx_at_def split: option.splits)
  have sz: "size (pend (cw_dev w) ?h) = card (used_tags (pools_of w ! c))" by (simp add: pend [OF assms(3) refl assms(6)])
  have "size (pend (cw_dev w) ?h) < expt" using assms(7) sz by simp
  from poll_loop_drains [OF assms(1-3) c assms(5,6) this, of 0 0 zero_msg, unfolded sz add_0] obtain w' k where
    lp: "poll_loop dx c (ctx, drv) expt 0 0 zero_msg w = Some (err WD_EAGAIN, k, w')"
    "card (used_tags (pools_of w ! c)) = k + size (pend (cw_dev w') ?h)" "pend (cw_dev w') ?h \<subseteq># pend (cw_dev w) ?h - fin (cw_dev w) ?h"
    "cs_config (cw_setting w') = cs_config (cw_setting w)" "mg_msg_num (pools_of w' ! c) \<noteq> 0" by blast
  have e: "expt \<noteq> 0" using assms(7) by simp
  then have run: "wd_cipher_poll_ctx dx c expt (Some n) w = Some (err WD_EAGAIN, Some k, w')"
    using assms(4,5) lp(1) by (simp add: wd_cipher_poll_ctx_def)
  note inv = poll_ctx_inv [OF assms(1,3) run]
  have pw: "pend (cw_dev w') ?h = mset_set (used_tags (pools_of w' ! c))" using pend [of w'] inv lp(4,5) by blast
  have "t \<in> used_tags (pools_of w ! c) - set_mset (fin (cw_dev w) ?h)" if "t \<in> used_tags (pools_of w' ! c)" for t
  proof -
    have "finite (used_tags q)" for q by (rule finite_subset [of _ "{..mg_msg_num q}"]) (auto simp: used_tags_def)
    then have f: "finite (used_tags (pools_of w' ! c))" "finite (used_tags (pools_of w ! c))" by blast+
    have "count (mset_set (used_tags (pools_of w' ! c))) t \<le> count (mset_set (used_tags (pools_of w ! c)) - fin (cw_dev w) ?h) t"
      using lp(3) by (simp add: pw pend [OF assms(3) refl assms(6)] subseteq_mset_def)
    then have "1 \<le> count (mset_set (used_tags (pools_of w ! c))) t - count (fin (cw_dev w) ?h) t" using that f by simp
    then show ?thesis using f by (cases "t \<in> used_tags (pools_of w ! c)") (auto simp: not_in_iff count_mset_set' split: if_splits)
  qed
  then show ?thesis using run inv e lp(2) pw by (intro exI [of _ k] exI [of _ w']) (auto simp: balance_def)
qed

lemma fifo_delivers: "drv_delivers fifo_drv fifo_pend fifo_pend"
  by (auto simp: drv_delivers_def fifo_drv_def errno_pos split: list.splits)

lemma demo_sent_inv: "async_inv fifo_pend demo_sent"
  using async_step_inv [OF fifo_queue demo_inv demo_submit] by blast

theorem poll_drains_witness:
  "\<exists>w'. wd_cipher_poll_ctx fifo_drv 1 2 (Some 0) demo_sent = Some (err WD_EAGAIN, Some 1, w') \<and> length (cw_called w') = 1"
proof -
  have ps: "pools_of demo_sent ! 1 = demo_pool\<lparr>mg_used := Some [True, False], mg_tail := 1\<rparr>" "cw_called demo_sent = []"
    "cs_config (cw_setting demo_sent) = cs_config demo_setting" by (simp_all add: pools_of_def demo_sent_def demo_cw_def)
  have u: "used_tags (pools_of demo_sent ! 1) = {1}" unfolding ps by (auto simp: used_tags_def demo_pool_def nth_Cons' split: if_splits)
  have n: "mg_msg_num (pools_of demo_sent ! 1) \<noteq> 0" unfolding ps by (simp add: demo_pool_def)
  have c: "card (used_tags (pools_of demo_sent ! 1)) < 2" unfolding u by simp
  from poll_drains [OF fifo_queue fifo_delivers demo_sent_inv _ _ n c, unfolded ps(3), OF demo_ctx_ok demo_at, of 0] obtain k w' where
    r: "wd_cipher_poll_ctx fifo_drv 1 2 (Some 0) demo_sent = Some (err WD_EAGAIN, Some k, w')" "length (cw_called w') = length (cw_called demo_sent) + k"
    "card (used_tags (pools_of demo_sent ! 1)) = k + card (used_tags (pools_of w' ! 1))"
    "used_tags (pools_of w' ! 1) \<subseteq> used_tags (pools_of demo_sent ! 1) - set_mset (fifo_pend (cw_dev demo_sent) 12)" by auto
  have "used_tags (pools_of w' ! 1) = {}" using r(4) unfolding u by (auto simp: demo_sent_def)
  then have "k = 1" using r(3) unfolding u by simp
  then show ?thesis using r(1,2) ps(2) by auto
qed

subsection \<open>Sessions\<close>

text \<open>A new session is well-typed and has no key yet.\<close>

lemma alloc_sess_typed:
  assumes "wd_cipher_alloc_sess ev rg setup w = Some (Some h, w')"
  shows "\<exists>sess. cw_sess w' h = Some sess \<and> sess_ok sess \<and> se_key_bytes sess = 0 \<and> se_sched_key sess \<noteq> None"
proof -
  have buf: "sess' = sess\<lparr>se_mm_ops := se_mm_ops sess', se_mm_type := se_mm_type sess', se_key := Some (replicate MAX_CIPHER_KEY_SIZE 0)\<rparr>"
    if "cipher_setup_memory_and_buffers ev cc sess su = Some (0, sess')" for cc sess su sess'
    using that errno_pos by (auto simp: cipher_setup_memory_and_buffers_def Let_def split: option.splits if_splits prod.splits)
  obtain su name sess a where s: "su_alg su \<noteq> WD_CIPHER_ALG_TYPE_MAX" "su_mode su \<noteq> WD_CIPHER_MODE_TYPE_MAX" "alg_mode_name (su_alg su) (su_mode su) = Some name"
    "cipher_setup_memory_and_buffers ev (cs_config (cw_setting w)) (zero_sess\<lparr>se_alg_name := Some name, se_alg := su_alg su, se_mode := su_mode su\<rparr>) su = Some (0, sess)"
    "cw_sess w' h = Some (sess\<lparr>se_sched_key := Some a\<rparr>)"
    using assms by (auto simp: wd_cipher_alloc_sess_def Let_def split: option.splits if_splits prod.splits sum.splits)
  have "sess_ok (sess\<lparr>se_sched_key := Some a\<rparr>) \<and> se_key_bytes (sess\<lparr>se_sched_key := Some a\<rparr>) = 0"
    by (subst (1 2) buf [OF s(4)]) (use s(1-3) in \<open>simp add: sess_ok_def zero_sess_def\<close>)
  then show ?thesis using s(5) by simp
qed

text \<open>
  The front end copies a scheduler without its function for closing sessions, so that a session that is closed stays in its slot
  of the scheduler although its key is freed; the next poll that comes to the slot reads freed memory.
\<close>

lemma init_sched_no_uninit: "wd_init_sched dup sin from r = (ret, sd, r') \<Longrightarrow> sd_sched_uninit sd = sd_sched_uninit sin"
  by (auto simp: wd_init_sched_def split: if_splits)

lemma free_sess_dangling:
  assumes "cw_sess w h = Some sess" "se_sched_key sess = Some a" "cw_sched w = Some st" "rd (sc_skey (ss_ctx st)) i = Some (Some a)"
    and "\<not> sd_sched_uninit (cs_sched (cw_setting w))" and "wd_cipher_free_sess (Some h) w = Some w'"
  shows "\<exists>st'. cw_sched w' = Some st' \<and> rd (sc_skey (ss_ctx st')) i = Some (Some a) \<and> ss_keys st' a = None \<and>
    poll_sessions poll expect (i # ts) st' s x = None"
proof -
  let ?st = "st\<lparr>ss_keys := (ss_keys st)(a := None)\<rparr>"
  obtain y where "wd_memset_zero (se_key sess) (se_key_bytes sess) = Some y"
    using assms(1,6) by (cases "wd_memset_zero (se_key sess) (se_key_bytes sess)") (simp_all add: wd_cipher_free_sess_def)
  then have "cw_sched w' = Some ?st" using assms(1-3,5,6) by (auto simp: wd_cipher_free_sess_def)
  moreover have "rd (sc_skey (ss_ctx ?st)) i = Some (Some a)" "ss_keys ?st a = None" using assms(4) by simp_all
  ultimately show ?thesis by (intro exI [of _ ?st]) (simp del: rd_Some_iff)
qed

text \<open>Under the two simplest policies a session has no key in the scheduler; setting its parameters follows a null pointer.\<close>

lemma alloc_sess_simple_policy:
  assumes "sd_sched_init (cs_sched (cw_setting w)) = Some p" and "p = SCHED_POLICY_NONE \<or> p = SCHED_POLICY_SINGLE"
  shows "wd_cipher_alloc_sess ev rg setup w \<noteq> Some (Some h, w')"
  using assms by (auto simp: wd_cipher_alloc_sess_def Let_def sched_init_def split: option.splits if_splits prod.splits sum.splits)

subsection \<open>Synchronous requests\<close>

lemma handle_sync_none: "wd_handle_msg_sync send recv wait msg None ep d = (ret, b, msg', d') \<Longrightarrow> b = None"
  by (auto simp: wd_handle_msg_sync_def Let_def split: prod.splits if_splits)

text \<open>
  C18: A synchronous request is refused without a call of the driver, or the driver of the context that the scheduler chose gets
  one message with the session's algorithm, mode and key and the request's data, on a context that is synchronous if it is a
  hardware queue; the caller gets the code and the state of the response.
\<close>

theorem sync_request_outcome:
  assumes "wd_do_cipher_sync ni dx (Some h) (Some req) w = Some (ret, req', w')" and "cw_sess w h = Some sess"
  shows "ret \<noteq> 0 \<and> cw_dev w' = cw_dev w \<and> (req' = Some req \<or> req' = Some (strip req)) \<or>
    (\<exists>c st ctx drv m m' b. pick_ctx CTX_MODE_SYNC sess w = Some (c, w\<lparr>cw_sched := st\<rparr>) \<and> ctx_at (cs_config (cw_setting w)) c = Some (ctx, drv) \<and>
       (int (ci_ctx_type ctx) = UADK_ALG_HW \<longrightarrow> ci_ctx_mode ctx = CTX_MODE_SYNC) \<and>
       cm_alg m = se_alg sess \<and> cm_mode m = se_mode sess \<and> cm_key m = h \<and> cm_key_bytes m = u16 (se_key_bytes sess) \<and> cm_op_type m = rq_op_type req \<and>
       cm_in m = rq_src req \<and> cm_in_bytes m = rq_in_bytes req \<and> cm_out m = rq_dst req \<and> cm_iv m = rq_iv req \<and>
       wd_handle_msg_sync (dx_send dx drv (ci_ctx ctx)) (dx_recv dx drv (ci_ctx ctx)) (dx_wait dx (ci_ctx ctx)) m None
         (cc_epoll_en (cs_config (cw_setting w))) (cw_dev w) = (ret, b, m', cw_dev w') \<and> req' = Some (req\<lparr>rq_state := cm_result m'\<rparr>))"
proof -
  note run = assms(1) [unfolded wd_do_cipher_sync_def Let_def option.case assms(2) prod.case option.simps simp_thms if_False]
  obtain e1 where e1: "wd_cipher_check_params (Some sess) (Some req) CTX_MODE_SYNC = Some e1"
    using run by (cases "wd_cipher_check_params (Some sess) (Some req) CTX_MODE_SYNC") simp_all
  show ?thesis
  proof (cases "e1 = 0")
    case False
    then show ?thesis using run e1 by auto
  next
    case True
    obtain c w1 where pk: "pick_ctx CTX_MODE_SYNC sess w = Some (c, w1)" using run e1 True by (cases "pick_ctx CTX_MODE_SYNC sess w") auto
    then obtain st where w1: "w1 = w\<lparr>cw_sched := st\<rparr>" by (auto simp: pick_ctx_def split: option.splits)
    have cc: "cs_config (cw_setting w1) = cs_config (cw_setting w)" "cw_dev w1 = cw_dev w" by (simp_all add: w1)
    obtain e2 where e2: "wd_check_ctx (cs_config (cw_setting w)) CTX_MODE_SYNC c = Some e2"
      using run e1 True pk cc by (cases "wd_check_ctx (cs_config (cw_setting w)) CTX_MODE_SYNC c") simp_all
    show ?thesis
    proof (cases "e2 = 0")
      case False
      then show ?thesis using run e1 True pk cc e2 by auto
    next
      case ok: True
      obtain config where cf: "wd_dfx_msg_cnt ni (cs_config (cw_setting w)) WD_CTX_CNT_NUM c = Some config"
        using run e1 True pk cc e2 ok by (cases "wd_dfx_msg_cnt ni (cs_config (cw_setting w)) WD_CTX_CNT_NUM c") simp_all
      have same: "ctx_at config c = ctx_at (cs_config (cw_setting w)) c" "cc_epoll_en config = cc_epoll_en (cs_config (cw_setting w))"
        using cf by (auto simp: wd_dfx_msg_cnt_def ctx_at_def split: if_splits option.splits)
      obtain cd where at: "ctx_at (cs_config (cw_setting w)) c = Some cd"
        using run e1 True pk cc e2 ok cf same by (cases "ctx_at (cs_config (cw_setting w)) c") simp_all
      obtain ctx drv where cd: "cd = (ctx, drv)" by fastforce
      let ?m = "fill_request_msg zero_msg req h sess"
      obtain r b m' d where hs: "wd_handle_msg_sync (dx_send dx drv (ci_ctx ctx)) (dx_recv dx drv (ci_ctx ctx)) (dx_wait dx (ci_ctx ctx)) ?m None
         (cc_epoll_en (cs_config (cw_setting w))) (cw_dev w) = (r, b, m', d)" by (rule prod_cases4)
      have res: "ret = r" "req' = Some (req\<lparr>rq_state := cm_result m'\<rparr>)" "cw_dev w' = d"
        using run e1 True pk cc e2 ok cf same at cd hs by (auto simp: send_recv_sync_def)
      have mode: "int (ci_ctx_type ctx) = UADK_ALG_HW \<longrightarrow> ci_ctx_mode ctx = CTX_MODE_SYNC"
        using e2 ok at cd errno_pos by (auto simp: wd_check_ctx_def ctx_at_def split: if_splits option.splits)
      show ?thesis
        by (rule disjI2, rule exI [of _ c], rule exI [of _ st], rule exI [of _ ctx], rule exI [of _ drv], rule exI [of _ ?m], rule exI [of _ m'],
            rule exI [of _ b]) (use pk w1 at cd mode hs res in \<open>simp add: fill_request_msg_def\<close>)
    qed
  qed
qed

lemma demo_sync: "\<exists>w. wd_do_cipher_sync False fifo_drv (Some 5) (Some demo_req) demo_cw = Some (0, Some demo_req, w)"
proof -
  have w: "cw_sess demo_cw 5 = Some demo_sess" "cw_setting demo_cw = demo_setting" "cw_dev demo_cw = (\<lambda>_. [])" by (simp_all add: demo_cw_def)
  have chk: "wd_cipher_check_params (Some demo_sess) (Some demo_req) CTX_MODE_SYNC = Some 0"
    by (simp add: wd_cipher_check_params_def demo_sess_def demo_req_def zero_sess_def zero_req_def cipher_in_len_check_def cipher_iv_len_check_def
        cipher_consts wd_check_src_dst_def buf_addr_def CTX_MODE_SYNC_def CTX_MODE_ASYNC_def)
  have pick: "pick_ctx CTX_MODE_SYNC demo_sess demo_cw = Some (0, demo_cw)"
    by (simp add: pick_ctx_def demo_cw_def demo_setting_def sched_of_def pick_next_ctx_def sched_single_pick_next_ctx_def sched_policy_defs CTX_MODE_SYNC_def)
  have ok: "wd_check_ctx (cs_config demo_setting) CTX_MODE_SYNC 0 = Some 0"
    by (simp add: wd_check_ctx_def demo_setting_def zero_config_def zero_ctx_def QUEUE_FULL_POS_def CTX_MODE_SYNC_def rd_def)
  have at: "ctx_at (cs_config demo_setting) 0 = Some (zero_ctx\<lparr>ci_ctx := 11, ci_drv := Some drv_sec\<rparr>, drv_sec)"
    by (simp add: ctx_at_def demo_setting_def zero_config_def rd_def)
  have r: "demo_req\<lparr>rq_state := 0\<rparr> = demo_req" by (simp add: demo_req_def zero_req_def)
  show ?thesis
    unfolding wd_do_cipher_sync_def Let_def option.case w chk prod.case
    by (simp add: pick w ok wd_dfx_msg_cnt_def at send_recv_sync_def wd_handle_msg_sync_def fifo_drv_def sync_recv.simps r)
qed

theorem sync_request_outcome_witness:
  "\<exists>w' c ctx drv. wd_do_cipher_sync False fifo_drv (Some 5) (Some demo_req) demo_cw = Some (0, Some demo_req, w') \<and>
    ctx_at (cs_config demo_setting) c = Some (ctx, drv)"
proof -
  from demo_sync obtain w' where run: "wd_do_cipher_sync False fifo_drv (Some 5) (Some demo_req) demo_cw = Some (0, Some demo_req, w')" by blast
  have w: "cw_sess demo_cw 5 = Some demo_sess" "cw_setting demo_cw = demo_setting" by (simp_all add: demo_cw_def)
  from sync_request_outcome [OF run w(1)] run show ?thesis unfolding w(2) by blast
qed

end
