(* ===== verification/Alg_Params.thy ===== *)
theory Alg_Params
  imports Alg_Attrs
begin

text \<open>
  How many contexts an algorithm gets, \<^verbatim>\<open>wd_util.c\<close> lines 740--770 and 1714--1871: from an environment variable, from the caller, or
  by default. The variable lists sections such as \<^verbatim>\<open>sync:2@0\<close>, separated by commas.
\<close>

definition comp_ctx_type :: "nat \<Rightarrow> nat \<Rightarrow> string" where
  "comp_ctx_type i j =
    (if i = 0 then (if j = 0 then ''sync-comp:'' else ''sync-decomp:'') else (if j = 0 then ''async-comp:'' else ''async-decomp:''))"

definition ctx_type :: "nat \<Rightarrow> string" where
  "ctx_type i = (if i = 0 then ''sync:'' else ''async:'')"

text \<open>\<^verbatim>\<open>strsep\<close>: the part up to the first separator and the rest behind it, \<open>None\<close> if there is none.\<close>

definition strsep :: "string \<Rightarrow> char \<Rightarrow> string \<times> string option" where
  "strsep s c =
    (case dropWhile (\<lambda>x. x \<noteq> c) s of [] \<Rightarrow> (takeWhile (\<lambda>x. x \<noteq> c) s, None) | _ # rest \<Rightarrow> (takeWhile (\<lambda>x. x \<noteq> c) s, Some rest))"

text \<open>\<open>dup\<close>: \<^verbatim>\<open>strdup\<close> gets memory. The values are those of an \<^verbatim>\<open>int\<close>.\<close>

definition parse_num_on_numa :: "bool \<Rightarrow> string \<Rightarrow> int + int \<times> int" where
  "parse_num_on_numa dup s =
    (if s = [] then Inl (err WD_EINVAL)
     else if \<not> dup then Inl (err WD_ENOMEM)
     else
       (case strsep s CHR ''@'' of
          (sep, Some left) \<Rightarrow>
            if is_number sep \<and> is_number left then Inr (i32 (fst (strtol sep)), i32 (fst (strtol left))) else Inl (err WD_EINVAL)
        | _ \<Rightarrow> Inl (err WD_EINVAL)))"

text \<open>
  What the system answers: the variable, memory for the mask of nodes and for copies of strings, the devices, the number of
  nodes a mask holds and the nodes of the machine.
\<close>

record params_env =
  pe_mask_ok :: bool
  pe_var :: "string option"
  pe_dup :: bool
  pe_dup_sec :: bool
  pe_sysfs :: sysfs
  pe_erange :: bool
  pe_dev_oks :: "bool list"
  pe_mask_size :: nat
  pe_nodes :: "nat set"

definition set_bit :: "params_env \<Rightarrow> int \<Rightarrow> nat set \<Rightarrow> nat set" where
  "set_bit ev node bmp = (if 0 \<le> node \<and> nat node < pe_mask_size ev then insert (nat node) bmp else bmp)"

definition set_nums :: "nat \<Rightarrow> int \<Rightarrow> wd_ctx_nums \<Rightarrow> wd_ctx_nums" where
  "set_nums i ctx_num n =
    (let c = u32_of_int ctx_num in
     if i = 0 then n\<lparr>nu_sync_ctx_num := max (nu_sync_ctx_num n) c\<rparr> else n\<lparr>nu_async_ctx_num := max (nu_async_ctx_num n) c\<rparr>)"

text \<open>The first pair of mode and operation type whose name the section starts with. No outcome beyond the array.\<close>

definition wd_set_ctx_nums ::
  "params_env \<Rightarrow> wd_ctx_params \<Rightarrow> uacce_dev list \<Rightarrow> string \<Rightarrow> nat \<Rightarrow> bool \<Rightarrow> (int \<times> wd_ctx_params) option" where
  "wd_set_ctx_nums ev ps devs section op_type_num is_comp =
    (case strsep section CHR '':'' of
       (_, None) \<Rightarrow> Some (err WD_EINVAL, ps)
     | (_, Some ctx_section) \<Rightarrow>
         (case parse_num_on_numa (pe_dup_sec ev) ctx_section of
            Inl e \<Rightarrow> Some (e, ps)
          | Inr (ctx_num, node) \<Rightarrow>
              if ctx_num = 0 then Some (0, ps)
              else
                (case wd_find_dev_by_numa (pe_sysfs ev) (pe_erange ev) (map Some devs) node of
                   Inl _ \<Rightarrow> Some (err WD_ENODEV, ps)
                 | Inr _ \<Rightarrow>
                     (case List.find (\<lambda>(i, j). str_prefix (if is_comp then comp_ctx_type i j else ctx_type i) section)
                             (List.product [0 ..< CTX_MODE_MAX] [0 ..< op_type_num]) of
                        None \<Rightarrow> Some (err WD_EINVAL, ps)
                      | Some (i, j) \<Rightarrow>
                          (case rd (pa_ctx_set_num ps) j of
                             None \<Rightarrow> None
                           | Some n \<Rightarrow>
                               Some (0, ps\<lparr>pa_ctx_set_num := (pa_ctx_set_num ps)[j := set_nums i ctx_num n],
                                           pa_bmp := set_bit ev node (pa_bmp ps)\<rparr>))))))"

text \<open>The loop over the sections.\<close>

fun ctx_sections :: "params_env \<Rightarrow> uacce_dev list \<Rightarrow> nat \<Rightarrow> bool \<Rightarrow> string list \<Rightarrow> int \<Rightarrow> wd_ctx_params \<Rightarrow> (int \<times> wd_ctx_params) option" where
  "ctx_sections ev devs op_type_num is_comp [] ret ps = Some (ret, ps)"
| "ctx_sections ev devs op_type_num is_comp (s # ss) ret ps =
    (case wd_set_ctx_nums ev ps devs s op_type_num is_comp of
       None \<Rightarrow> None
     | Some (ret, ps) \<Rightarrow> if ret < 0 then Some (ret, ps) else ctx_sections ev devs op_type_num is_comp ss ret ps)"

function sections :: "string \<Rightarrow> string list" where
  "sections s = (case strsep s CHR '','' of (x, None) \<Rightarrow> [x] | (x, Some rest) \<Rightarrow> x # sections rest)"
  by pat_completeness auto
termination
proof (relation "measure length")
  fix s p :: string and x :: string and y and rest :: string
  assume "(x, y) = strsep s CHR '',''" "y = Some rest"
  then have "dropWhile (\<lambda>x. x \<noteq> CHR '','') s = CHR '','' # rest"
    by (auto simp: strsep_def split: list.splits dest: dropWhile_eq_Cons_conv [THEN iffD1])
  then have "length rest < length (dropWhile (\<lambda>x. x \<noteq> CHR '','') s)" by simp
  also have "\<dots> \<le> length s" by (rule length_dropWhile_le)
  finally show "(rest, s) \<in> measure length" by simp
qed simp

declare sections.simps [simp del]

definition wd_env_set_ctx_nums ::
  "params_env \<Rightarrow> string \<Rightarrow> string \<Rightarrow> string \<Rightarrow> wd_ctx_params \<Rightarrow> nat \<Rightarrow> (int \<times> wd_ctx_params) option" where
  "wd_env_set_ctx_nums ev alg_name name var_s ps op_type_num =
    (let is_comp = str_prefix name ''WD_COMP_CTX_NUM'' in
     if is_comp \<and> op_type_num > 2 then Some (err WD_EINVAL, ps)
     else if \<not> pe_dup ev then Some (err WD_ENOMEM, ps)
     else
       (case wd_get_alg_type alg_name of
          Inl e \<Rightarrow> Some (err e, ps)
        | Inr alg_type \<Rightarrow>
            (let devs = wd_get_accel_list (pe_sysfs ev) (pe_erange ev) (Some alg_type) (pe_dev_oks ev) in
             if devs = [] then Some (err WD_ENODEV, ps)
             else ctx_sections ev devs op_type_num is_comp (sections var_s) 0 ps)))"

definition default_nums :: "alg_task_type \<Rightarrow> nat \<Rightarrow> wd_ctx_nums" where
  "default_nums task_type m = \<lparr>nu_sync_ctx_num = m, nu_async_ctx_num = m, nu_ctx_prop = (if task_type = TASK_INSTR then 1 else 0)\<rparr>"

text \<open>\<open>user\<close> is what the caller passes; \<open>ps\<close> holds the array that is filled. The last component: a mask of nodes was kept.\<close>

definition wd_ctx_param_init ::
  "params_env \<Rightarrow> wd_ctx_params \<Rightarrow> wd_ctx_params option \<Rightarrow> string \<Rightarrow> alg_task_type \<Rightarrow> string \<Rightarrow> nat \<Rightarrow> (int \<times> wd_ctx_params \<times> bool) option" where
  "wd_ctx_param_init ev ps user alg task_type env_name max_op_type =
    (if \<not> pe_mask_ok ev then Some (err WD_ENOMEM, ps, False)
     else
       (let ps = ps\<lparr>pa_bmp := {}\<rparr>;
            defaults = (\<lambda>ps. if max_op_type > length (pa_ctx_set_num ps) then None
              else Some (0, ps\<lparr>pa_bmp := pe_nodes ev, pa_op_type_num := max_op_type,
                       pa_ctx_set_num := replicate max_op_type (default_nums task_type max_op_type) @ drop max_op_type (pa_ctx_set_num ps)\<rparr>, True)) in
        case (if task_type = TASK_MAX_TYPE then None else pe_var ev) of
          Some (v # vs) \<Rightarrow>
            (case wd_env_set_ctx_nums ev alg env_name (v # vs) ps max_op_type of
               None \<Rightarrow> None
             | Some (ret, ps) \<Rightarrow> if ret \<noteq> 0 then Some (ret, ps, False) else defaults ps)
        | _ \<Rightarrow>
            (case user of
               None \<Rightarrow> defaults ps
             | Some u \<Rightarrow>
                 if pa_op_type_num u > max_op_type then Some (err WD_EINVAL, ps\<lparr>pa_bmp := pa_bmp u\<rparr>, False)
                 else Some (0, ps\<lparr>pa_bmp := pa_bmp u, pa_cap := pa_cap u, pa_ctx_set_num := pa_ctx_set_num u,
                                  pa_op_type_num := pa_op_type_num u\<rparr>, True))))"

text \<open>
  A variable that is accepted has no effect: whenever it does not make the call fail, the numbers and nodes are the defaults, as
  if neither the variable nor the caller's numbers had been given.
\<close>

lemma find_product_bound:
  assumes "List.find P (List.product xs [0 ..< n]) = Some (i, j)"
  shows "j < n"
proof -
  from assms obtain k where "k < length (List.product xs [0 ..< n])" "(i, j) = List.product xs [0 ..< n] ! k"
    unfolding find_Some_iff by blast
  then have "(i, j) \<in> set (List.product xs [0 ..< n])" using nth_mem by metis
  then show ?thesis by simp
qed

lemma set_ctx_nums_frame:
  assumes "wd_set_ctx_nums ev ps devs s n c = Some (ret, ps')"
  shows "length (pa_ctx_set_num ps') = length (pa_ctx_set_num ps) \<and> pa_cap ps' = pa_cap ps \<and>
    drop n (pa_ctx_set_num ps') = drop n (pa_ctx_set_num ps)"
  using assms
  by (auto simp: wd_set_ctx_nums_def dest: find_product_bound split: prod.splits option.splits sum.splits if_splits)

lemma ctx_sections_frame:
  assumes "ctx_sections ev devs n c ss ret ps = Some (ret', ps')"
  shows "length (pa_ctx_set_num ps') = length (pa_ctx_set_num ps) \<and> pa_cap ps' = pa_cap ps \<and>
    drop n (pa_ctx_set_num ps') = drop n (pa_ctx_set_num ps)"
  using assms
proof (induction ss arbitrary: ret ps)
  case (Cons s ss)
  then obtain r1 p1 where one: "wd_set_ctx_nums ev ps devs s n c = Some (r1, p1)" by (auto split: option.splits)
  show ?case
  proof (cases "r1 < 0")
    case True
    then show ?thesis using Cons.prems one set_ctx_nums_frame [OF one] by simp
  next
    case False
    then have "ctx_sections ev devs n c ss r1 p1 = Some (ret', ps')" using Cons.prems one by simp
    from Cons.IH [OF this] set_ctx_nums_frame [OF one] show ?thesis by simp
  qed
qed simp

lemma env_nums_ignored:
  assumes "wd_ctx_param_init ev ps user alg task_type name n = Some (0, ps', kept)" and "pe_var ev = Some (v # vs)" "task_type \<noteq> TASK_MAX_TYPE"
  shows "wd_ctx_param_init (ev\<lparr>pe_var := None\<rparr>) ps None alg task_type name n = Some (0, ps', kept)"
proof -
  have m: "pe_mask_ok ev" using assms(1) by (auto simp: wd_ctx_param_init_def split: if_splits)
  obtain p1 where p1: "wd_env_set_ctx_nums ev alg name (v # vs) (ps\<lparr>pa_bmp := {}\<rparr>) n = Some (0, p1)"
    using assms m by (auto simp: wd_ctx_param_init_def Let_def split: option.splits if_splits)
  then have f: "length (pa_ctx_set_num p1) = length (pa_ctx_set_num ps)" "pa_cap p1 = pa_cap ps" "drop n (pa_ctx_set_num p1) = drop n (pa_ctx_set_num ps)"
    by (auto simp: wd_env_set_ctx_nums_def Let_def dest!: ctx_sections_frame split: if_splits sum.splits)
  have "p1\<lparr>pa_bmp := pe_nodes ev, pa_op_type_num := n, pa_ctx_set_num := x\<rparr> = ps\<lparr>pa_bmp := pe_nodes ev, pa_op_type_num := n, pa_ctx_set_num := x\<rparr>" for x
    using f(2) by (cases p1; cases ps) simp
  then show ?thesis using assms m p1 f by (auto simp: wd_ctx_param_init_def Let_def split: if_splits)
qed

end
