(* ===== verification/Cipher_Init.thy ===== *)
theory Cipher_Init
  imports Cipher Alg_Params
begin

text \<open>
  Initialisation of the cipher front end and its reverse (\<^verbatim>\<open>wd_cipher.c\<close>): from contexts and a scheduler of the caller, or from the name of
  an algorithm through the automatic set-up.
\<close>

subsection \<open>Initialisation\<close>

text \<open>
  What the system answers during an initialisation: the variable for polling with \<^verbatim>\<open>epoll\<close>, the environments of the copy of the
  contexts and of the drivers, memory for the name of the scheduler, the message pools, the search for drivers, and the loader.
\<close>

record cipher_env =
  ie_epoll :: "string option"
  ie_cfg :: cfg_env
  ie_dup :: bool
  ie_base :: "nat \<Rightarrow> nat"
  ie_pool_oks :: "bool list"
  ie_drv_oks :: "bool list"
  ie_drv :: drv_env
  ie_lib_path :: int
  ie_dlopen :: bool
  ie_tries :: "bool list"

text \<open>The attempts of a thread that is alone; \<open>None\<close> if it has not ended after the given ones.\<close>

fun try_alone :: "bool list \<Rightarrow> wd_status \<Rightarrow> nat \<Rightarrow> ((wd_error + unit) \<times> wd_status) option" where
  "try_alone [] status n = None"
| "try_alone (spurious # rest) status n =
    (case try_once spurious status n of
       (status, Trying m) \<Rightarrow> try_alone rest status m
     | (status, Failed e) \<Rightarrow> Some (Inl e, status)
     | (status, _) \<Rightarrow> Some (Inr (), status))"

definition wd_cipher_open_driver :: "cipher_env \<Rightarrow> wd_cipher_setting \<Rightarrow> int \<times> wd_cipher_setting" where
  "wd_cipher_open_driver ev cs =
    (if ie_lib_path ev \<noteq> 0 then (ie_lib_path ev, cs)
     else if \<not> ie_dlopen ev then (err WD_EINVAL, cs\<lparr>cs_dlhandle := False\<rparr>)
     else (0, cs\<lparr>cs_dlhandle := True\<rparr>))"

definition wd_cipher_close_driver :: "wd_cipher_setting \<Rightarrow> wd_cipher_setting" where
  "wd_cipher_close_driver cs = cs\<lparr>cs_dlhandle := False\<rparr>"

definition wd_cipher_clear_status :: "wd_cipher_setting \<Rightarrow> wd_cipher_setting" where
  "wd_cipher_clear_status cs = cs\<lparr>cs_status := wd_alg_clear_init (cs_status cs)\<rparr>"

definition wd_cipher_common_init ::
  "cipher_env \<Rightarrow> wd_ctx_config \<Rightarrow> wd_sched \<Rightarrow> wd_cipher_setting \<Rightarrow> alg_res \<Rightarrow> (int \<times> wd_cipher_setting \<times> alg_res) option" where
  "wd_cipher_common_init ev config sched cs r =
    (let (ret, ep) = wd_set_epoll_en (ie_epoll ev) (cc_epoll_en (cs_config cs));
         cs = cs\<lparr>cs_config := (cs_config cs)\<lparr>cc_epoll_en := ep\<rparr>\<rparr> in
     if ret < 0 then Some (ret, cs, r)
     else
       (let cs = cs\<lparr>cs_config := (cs_config cs)\<lparr>cc_alg_name := Some ''cipher''\<rparr>\<rparr> in
        case wd_init_ctx_config (ie_cfg ev) (cs_config cs) config r of
          None \<Rightarrow> None
        | Some (ret, cc, r) \<Rightarrow>
            (let cs = cs\<lparr>cs_config := cc\<rparr> in
             if ret < 0 then Some (ret, cs, r)
             else
               (case wd_init_sched (ie_dup ev) (cs_sched cs) sched r of
                  (ret, sd, r) \<Rightarrow>
                    (let cs = cs\<lparr>cs_sched := sd\<rparr> in
                     if ret < 0 then
                       map_option (\<lambda>(cc, r). (ret, cs\<lparr>cs_config := cc\<rparr>, r)) (wd_clear_ctx_config (ie_cfg ev) (cs_config cs) r)
                     else
                       (case cf_ctxs config of
                          None \<Rightarrow> None
                        | Some ctxs \<Rightarrow>
                            if cf_ctx_num config > length ctxs then None
                            else
                              (case wd_init_async_request_pool (ie_base ev) (map (\<lambda>c. wc_ctx_mode c = CTX_MODE_SYNC) (take (cf_ctx_num config) ctxs))
                                      (cf_cap config) (ie_pool_oks ev) WD_POOL_MAX_ENTRIES SIZEOF_CIPHER_MSG (cs_pool cs) of
                                 (Inl e, pool) \<Rightarrow>
                                   (let cs = cs\<lparr>cs_pool := pool\<rparr>; (sd, r) = wd_clear_sched (cs_sched cs) r in
                                    map_option (\<lambda>(cc, r). (err e, cs\<lparr>cs_sched := sd, cs_config := cc\<rparr>, r))
                                      (wd_clear_ctx_config (ie_cfg ev) (cs_config cs) r))
                               | (Inr _, pool) \<Rightarrow> Some (0, cs\<lparr>cs_pool := pool, cs_priv := True\<rparr>, r))))))))"

definition wd_cipher_common_uninit :: "wd_cipher_setting \<Rightarrow> alg_res \<Rightarrow> (int \<times> wd_cipher_setting \<times> alg_res) option" where
  "wd_cipher_common_uninit cs r =
    (if \<not> cs_priv cs then Some (err WD_EINVAL, cs, r)
     else
       (case wd_uninit_async_request_pool (cs_pool cs) of
          None \<Rightarrow> None
        | Some pool \<Rightarrow> (let (sd, r) = wd_clear_sched (cs_sched cs) r in Some (0, cs\<lparr>cs_pool := pool, cs_sched := sd, cs_priv := False\<rparr>, r))))"

text \<open>The ends of the error paths, in the order of the labels from the last one up.\<close>

type_synonym init_out = "(int \<times> wd_cipher_setting \<times> drv_world \<times> alg_res) option"

definition out_clear_init :: "int \<Rightarrow> wd_cipher_setting \<Rightarrow> drv_world \<Rightarrow> alg_res \<Rightarrow> init_out" where
  "out_clear_init ret cs dw r = Some (ret, wd_cipher_clear_status cs, dw, r)"

definition out_close_driver :: "int \<Rightarrow> wd_cipher_setting \<Rightarrow> drv_world \<Rightarrow> alg_res \<Rightarrow> init_out" where
  "out_close_driver ret cs dw r = out_clear_init ret (wd_cipher_close_driver cs) dw r"

definition out_free_drv_array :: "nat \<Rightarrow> int \<Rightarrow> wd_cipher_setting \<Rightarrow> drv_world \<Rightarrow> alg_res \<Rightarrow> init_out" where
  "out_free_drv_array drv_count ret cs dw r =
    (case wd_put_drv_array (cc_drv_array (cs_config cs)) drv_count r of
       None \<Rightarrow> None
     | Some r \<Rightarrow> out_close_driver ret (cs\<lparr>cs_config := (cs_config cs)\<lparr>cc_drv_array := None\<rparr>\<rparr>) dw r)"

definition out_common_uninit :: "nat \<Rightarrow> int \<Rightarrow> wd_cipher_setting \<Rightarrow> drv_world \<Rightarrow> alg_res \<Rightarrow> init_out" where
  "out_common_uninit drv_count ret cs dw r =
    (case wd_cipher_common_uninit cs r of
       None \<Rightarrow> None
     | Some (_, cs, r) \<Rightarrow> out_free_drv_array drv_count ret cs dw r)"

definition out_unbind_drivers :: "nat \<Rightarrow> int \<Rightarrow> wd_cipher_setting \<Rightarrow> drv_world \<Rightarrow> alg_res \<Rightarrow> init_out" where
  "out_unbind_drivers drv_count ret cs dw r =
    (case wd_ctx_unbind_drivers (Some (cs_config cs)) dw of
       Some (Some cc, dw) \<Rightarrow> out_common_uninit drv_count ret (cs\<lparr>cs_config := cc\<rparr>) dw r
     | _ \<Rightarrow> None)"

text \<open>The drivers of the copied contexts: discovery, binding and initialisation.\<close>

definition cipher_init_drivers :: "cipher_env \<Rightarrow> wd_cipher_setting \<Rightarrow> drv_world \<Rightarrow> alg_res \<Rightarrow> init_out" where
  "cipher_init_drivers ev cs dw r =
    (case wd_get_drv_array (ie_drv_oks ev) (dw_reg dw) ''cipher'' TASK_HW (Some ''hisi_sec2'') of
       None \<Rightarrow> None
     | Some (Inl e) \<Rightarrow> out_free_drv_array 0 (err e) cs dw r
     | Some (Inr ds) \<Rightarrow>
         (let arr = Some (map Some ds); n = length ds; cs = cs\<lparr>cs_config := (cs_config cs)\<lparr>cc_drv_array := arr\<rparr>\<rparr>; r = add_heap 1 r in
          case wd_ctx_bind_drivers (Some (cs_config cs)) arr n dw of
            Some (ret, Some cc, dw) \<Rightarrow>
              (let cs = cs\<lparr>cs_config := cc\<rparr> in
               if ret \<noteq> 0 then out_common_uninit n ret cs dw r
               else
                 (case wd_alg_init_driver (ie_cfg ev) (ie_drv ev) (cs_config cs) dw r of
                    None \<Rightarrow> None
                  | Some (ret, cc, dw, r) \<Rightarrow>
                      (let cs = cs\<lparr>cs_config := cc\<rparr> in
                       if ret \<noteq> 0 then out_unbind_drivers n ret cs dw r
                       else Some (0, cs\<lparr>cs_status := wd_alg_set_init (cs_status cs)\<rparr>, dw, r))))
          | _ \<Rightarrow> None))"

definition wd_cipher_init ::
  "cipher_env \<Rightarrow> wd_ctx_config option \<Rightarrow> wd_sched option \<Rightarrow> wd_cipher_setting \<Rightarrow> drv_world \<Rightarrow> alg_res \<Rightarrow> init_out" where
  "wd_cipher_init ev config sched cs dw r =
    (case try_alone (ie_tries ev) (cs_status cs) 0 of
       None \<Rightarrow> None
     | Some (Inl e, status) \<Rightarrow> Some (err e, cs\<lparr>cs_status := status\<rparr>, dw, r)
     | Some (Inr _, status) \<Rightarrow>
         (let cs = cs\<lparr>cs_status := status\<rparr> in
          case wd_init_param_check config sched of
            None \<Rightarrow> None
          | Some ret \<Rightarrow>
              if ret \<noteq> 0 then out_clear_init ret cs dw r
              else
                (case wd_cipher_open_driver ev cs of
                   (ret, cs) \<Rightarrow>
                     if ret \<noteq> 0 then out_clear_init ret cs dw r
                     else
                       (case (config, sched) of
                          (Some cf, Some sd) \<Rightarrow>
                            (case wd_cipher_common_init ev cf sd cs r of
                               None \<Rightarrow> None
                             | Some (ret, cs, r) \<Rightarrow> if ret \<noteq> 0 then out_close_driver ret cs dw r else cipher_init_drivers ev cs dw r)
                        | _ \<Rightarrow> None))))"

definition wd_cipher_uninit :: "cipher_env \<Rightarrow> wd_cipher_setting \<Rightarrow> drv_world \<Rightarrow> alg_res \<Rightarrow> (wd_cipher_setting \<times> drv_world \<times> alg_res) option" where
  "wd_cipher_uninit ev cs dw r =
    (case wd_alg_uninit_driver (ie_cfg ev) (cs_config cs) dw r of
       None \<Rightarrow> None
     | Some (cc, dw, r) \<Rightarrow>
         (case wd_ctx_unbind_drivers (Some cc) dw of
            Some (Some cc, dw) \<Rightarrow>
              (case wd_cipher_common_uninit (cs\<lparr>cs_config := cc\<rparr>) r of
                 None \<Rightarrow> None
               | Some (ret, cs, r) \<Rightarrow>
                   if ret \<noteq> 0 then Some (cs, dw, r)
                   else
                     (case wd_put_drv_array (cc_drv_array (cs_config cs)) (cc_drv_count (cs_config cs)) r of
                        None \<Rightarrow> None
                      | Some r \<Rightarrow>
                          Some (wd_cipher_clear_status (wd_cipher_close_driver
                                  (cs\<lparr>cs_config := (cs_config cs)\<lparr>cc_drv_array := None\<rparr>\<rparr>)), dw, r)))
          | _ \<Rightarrow> None))"

subsection \<open>Initialisation from an algorithm's name\<close>

text \<open>
  The state of the second kind of initialisation: the attributes, the scheduler that the set-up creates, the global variable of the
  front end, drivers and resources, and whether the list of loaded libraries is open. Each round of the loop has its own answers of
  the system; after the given ones the loop has not ended.
\<close>

record init2_env =
  i2_params :: params_env
  i2_attrs :: attrs_env
  i2_cipher :: cipher_env

record init2_state =
  st_attrs :: wd_init_attrs
  st_sched :: "sched_state option"
  st_setting :: wd_cipher_setting
  st_drvs :: drv_world
  st_res :: alg_res
  st_libs :: bool

definition alg_setup :: "init2_env \<Rightarrow> init2_state \<Rightarrow> (int \<times> init2_state) option" where
  "alg_setup ev s =
    map_option (\<lambda>(ret, at, st, cs, r). (ret, s\<lparr>st_attrs := at, st_sched := st, st_setting := cs, st_res := r\<rparr>))
      (wd_alg_attrs_init (i2_attrs ev) (dw_reg (st_drvs s)) (wd_cipher_common_init (i2_cipher ev))
        (st_attrs s, st_sched s, st_setting s, st_res s))"

text \<open>The loop; its result has the code with which it ends and whether the mask of nodes is still held.\<close>

fun init2_loop ::
  "init2_env list \<Rightarrow> string \<Rightarrow> nat \<Rightarrow> alg_task_type \<Rightarrow> wd_ctx_params option \<Rightarrow> wd_ctx_params \<Rightarrow> init2_state
    \<Rightarrow> (int \<times> bool \<times> init2_env \<times> init2_state) option" where
  "init2_loop [] alg sched_type task_type user ps s = None"
| "init2_loop (ev # evs) alg sched_type task_type user ps s =
    (let s = s\<lparr>st_setting := (st_setting s)\<lparr>cs_config := zero_config\<rparr>\<rparr> in
     case wd_ctx_param_init (i2_params ev) ps user alg task_type ''WD_CIPHER_CTX_NUM'' 2 of
       None \<Rightarrow> None
     | Some (ret, ps, _) \<Rightarrow>
         if ret \<noteq> 0 then
           (if ret = err WD_EAGAIN then init2_loop evs alg sched_type task_type user ps s else Some (ret, False, ev, s))
         else
           (case alg_setup ev (s\<lparr>st_attrs := (st_attrs s)\<lparr>at_alg := alg, at_sched_type := sched_type, at_task_type := task_type,
                                                      at_ctx_params := Some ps\<rparr>\<rparr>) of
              None \<Rightarrow> None
            | Some (ret, s) \<Rightarrow>
                if ret = 0 then Some (0, True, ev, s)
                else if ret = err WD_ENODEV then init2_loop evs alg sched_type task_type user ps s
                else Some (ret, True, ev, s)))"

text \<open>The ends of the error paths; releasing the mask of nodes changes nothing in this state.\<close>

definition out_uninit2 :: "int \<Rightarrow> init2_state \<Rightarrow> (int \<times> init2_state) option" where
  "out_uninit2 ret s = Some (ret, s\<lparr>st_setting := wd_cipher_clear_status (st_setting s)\<rparr>)"

definition out_dlclose2 :: "int \<Rightarrow> init2_state \<Rightarrow> (int \<times> init2_state) option" where
  "out_dlclose2 ret s = out_uninit2 ret (s\<lparr>st_libs := False\<rparr>)"

definition attrs_uninit2 :: "init2_env \<Rightarrow> init2_state \<Rightarrow> init2_state option" where
  "attrs_uninit2 ev s =
    map_option (\<lambda>(at, st, cs, r). s\<lparr>st_attrs := at, st_sched := st, st_setting := cs, st_res := r\<rparr>)
      (wd_alg_attrs_uninit (i2_attrs ev) (st_attrs s, st_sched s, st_setting s, st_res s))"

definition out_common_uninit2 :: "init2_env \<Rightarrow> int \<Rightarrow> init2_state \<Rightarrow> (int \<times> init2_state) option" where
  "out_common_uninit2 ev ret s =
    (case wd_cipher_common_uninit (st_setting s) (st_res s) of
       None \<Rightarrow> None
     | Some (_, cs, r) \<Rightarrow>
         (case attrs_uninit2 ev (s\<lparr>st_setting := cs, st_res := r\<rparr>) of None \<Rightarrow> None | Some s \<Rightarrow> out_dlclose2 ret s))"

definition init2_drivers :: "init2_env \<Rightarrow> init2_state \<Rightarrow> (int \<times> init2_state) option" where
  "init2_drivers ev s =
    (case at_internal (st_attrs s) of
       None \<Rightarrow> None
     | Some ic \<Rightarrow>
         (case wd_ctx_bind_drivers (Some (cs_config (st_setting s))) (cc_drv_array ic) (cc_drv_count ic) (st_drvs s) of
            Some (ret, Some cc, dw) \<Rightarrow>
              (let s = s\<lparr>st_setting := (st_setting s)\<lparr>cs_config := cc\<rparr>, st_drvs := dw\<rparr> in
               if ret \<noteq> 0 then out_common_uninit2 ev ret s
               else
                 (case wd_alg_init_driver (ie_cfg (i2_cipher ev)) (ie_drv (i2_cipher ev)) cc dw (st_res s) of
                    None \<Rightarrow> None
                  | Some (ret, cc, dw, r) \<Rightarrow>
                      if ret \<noteq> 0 then
                        (case wd_ctx_unbind_drivers (Some cc) dw of
                           Some (Some cc, dw) \<Rightarrow>
                             out_common_uninit2 ev ret (s\<lparr>st_setting := (st_setting s)\<lparr>cs_config := cc\<rparr>, st_drvs := dw, st_res := r\<rparr>)
                         | _ \<Rightarrow> None)
                      else
                        (let cs = (st_setting s)\<lparr>cs_config := cc\<rparr> in
                         Some (0, s\<lparr>st_setting := cs\<lparr>cs_status := wd_alg_set_init (cs_status cs)\<rparr>, st_drvs := dw, st_res := r\<rparr>))))
          | _ \<Rightarrow> None))"

text \<open>\<open>tries\<close> are the attempts to get the permission, \<open>libs\<close> tells whether the libraries of the drivers can be opened.\<close>

definition wd_cipher_init2 ::
  "bool list \<Rightarrow> bool \<Rightarrow> init2_env list \<Rightarrow> string option \<Rightarrow> nat \<Rightarrow> alg_task_type \<Rightarrow> wd_ctx_params option \<Rightarrow> init2_state
    \<Rightarrow> (int \<times> init2_state) option" where
  "wd_cipher_init2 tries libs evs alg sched_type task_type user s =
    (case try_alone tries (cs_status (st_setting s)) 0 of
       None \<Rightarrow> None
     | Some (Inl e, status) \<Rightarrow> Some (err e, s\<lparr>st_setting := (st_setting s)\<lparr>cs_status := status\<rparr>\<rparr>)
     | Some (Inr _, status) \<Rightarrow>
         (let s = s\<lparr>st_setting := (st_setting s)\<lparr>cs_status := status\<rparr>\<rparr> in
          case alg of
            None \<Rightarrow> out_uninit2 (err WD_EINVAL) s
          | Some name \<Rightarrow>
              if sched_type \<ge> SCHED_POLICY_BUTT \<or> task_type = TASK_MAX_TYPE \<or> \<not> wd_cipher_alg_check name
              then out_uninit2 (err WD_EINVAL) s
              else if \<not> libs then out_uninit2 (err WD_EINVAL) (s\<lparr>st_libs := False\<rparr>)
              else
                (let ps = \<lparr>pa_op_type_num = 0, pa_ctx_set_num = replicate 2 \<lparr>nu_sync_ctx_num = 0, nu_async_ctx_num = 0, nu_ctx_prop = 0\<rparr>,
                           pa_bmp = {}, pa_cap = None\<rparr> in
                 case init2_loop evs name sched_type task_type user ps (s\<lparr>st_libs := True\<rparr>) of
                   None \<Rightarrow> None
                 | Some (ret, _, ev, s) \<Rightarrow> if ret \<noteq> 0 then out_dlclose2 ret s else init2_drivers ev s)))"

definition wd_cipher_uninit2 :: "init2_env \<Rightarrow> init2_state \<Rightarrow> init2_state option" where
  "wd_cipher_uninit2 ev s =
    (case wd_alg_uninit_driver (ie_cfg (i2_cipher ev)) (cs_config (st_setting s)) (st_drvs s) (st_res s) of
       None \<Rightarrow> None
     | Some (cc, dw, r) \<Rightarrow>
         (case wd_ctx_unbind_drivers (Some cc) dw of
            Some (Some cc, dw) \<Rightarrow>
              (case wd_cipher_common_uninit ((st_setting s)\<lparr>cs_config := cc\<rparr>) r of
                 None \<Rightarrow> None
               | Some (ret, cs, r) \<Rightarrow>
                   (let s = s\<lparr>st_setting := cs, st_drvs := dw, st_res := r\<rparr> in
                    if ret \<noteq> 0 then Some s
                    else
                      map_option (\<lambda>s. s\<lparr>st_setting := wd_cipher_clear_status (st_setting s), st_libs := False\<rparr>) (attrs_uninit2 ev s)))
          | _ \<Rightarrow> None))"

end
