(* ===== verification/Cipher_Lifecycle.thy ===== *)
theory Cipher_Lifecycle
  imports Cipher_Init
begin

text \<open>
  Initialising and uninitialising the cipher front end with contexts and a scheduler of the caller: what each outcome leaves behind.
\<close>

subsection \<open>Initialising and uninitialising\<close>

text \<open>Alone, a thread owns the status, finds it taken, or gives up; it may give up while it owns it.\<close>

lemma try_alone_result:
  assumes "try_alone tries st n = Some (res, st')"
  shows "case res of Inr _ \<Rightarrow> st = WD_UNINIT \<and> st' = WD_INITING
    | Inl e \<Rightarrow> e = WD_EEXIST \<and> st = WD_INIT \<and> st' = st \<or> e = WD_ETIMEDOUT \<and> st \<noteq> WD_INIT \<and> (st' = st \<or> st = WD_UNINIT \<and> st' = WD_INITING)"
  using assms
proof (induction tries st n rule: try_alone.induct)
  case (2 s rest st n)
  then show ?case by (auto simp: try_once_def Let_def split: if_splits)
qed simp

text \<open>The contexts after the copy: no private memory of drivers, and as many as their number says.\<close>

definition ctxs_fresh :: "wd_ctx_config_internal \<Rightarrow> wd_ctx_internal list \<Rightarrow> bool" where
  "ctxs_fresh cc ctxs \<longleftrightarrow> cc_ctxs cc = Some ctxs \<and> cc_ctx_num cc = length ctxs \<and> list_all (\<lambda>c. ci_drv_priv c = None) ctxs"

lemma init_ctxs_neg:
  assumes "init_ctxs ev alg n cs i ctxs r = Some (Inl (j, e), r')" and "\<And>i. ce_spin ev i = 0"
  shows "e < 0"
  using assms
proof (induction ev alg n cs i ctxs r rule: init_ctxs.induct)
  case (3 ev alg n c cs i ctxs r)
  then show ?case by (auto simp: errno_pos split: if_splits option.splits prod.splits sum.splits)
qed auto

lemma init_config_fresh:
  assumes run: "wd_init_ctx_config ev cin cfg r = Some (ret, cc, r')" and spin: "\<And>i. ce_spin ev i = 0"
  shows "if ret = 0 then \<exists>ctxs. ctxs_fresh cc ctxs \<and> cc_alg_name cc = cc_alg_name cin \<and> rs_heap r' = rs_heap r + 1 \<and> rs_live r' = rs_live r
    else ret < 0"
proof (cases "cf_ctx_num cfg = 0")
  case True
  then show ?thesis using run by (auto simp: wd_init_ctx_config_def errno_pos split: if_splits)
next
  case False
  obtain e1 c1 r1 where s: "wd_shm_create ev cin r = (e1, c1, r1)" by (cases "wd_shm_create ev cin r") auto
  consider "e1 \<noteq> 0" | "e1 = 0" "\<not> ce_ctxs_ok ev" | "e1 = 0" "ce_ctxs_ok ev" by blast
  then show ?thesis
  proof cases
    case 1
    then show ?thesis using run False s by (auto simp: wd_init_ctx_config_def wd_shm_create_def errno_pos split: if_splits)
  next
    case 2
    then show ?thesis using run False s by (auto simp: wd_init_ctx_config_def errno_pos split: prod.splits)
  next
    case 3
    note sd = shm_create_delete [OF s [unfolded 3]]
    obtain cs res r2 where i: "cf_ctxs cfg = Some cs"
      "init_ctxs ev (cc_alg_name c1) (cf_ctx_num cfg) cs 0 (replicate (cf_ctx_num cfg) zero_ctx) (add_heap 1 r1) = Some (res, r2)"
      using run False s 3 by (auto simp: wd_init_ctx_config_def split: option.splits)
    note sp = init_ctxs_spec [OF i(2)]
    show ?thesis
    proof (cases res)
      case (Inl je)
      obtain j e where je: "je = (j, e)" by fastforce
      have "e < 0" using init_ctxs_neg [OF i(2) [unfolded Inl je]] spin by simp
      then show ?thesis using run False s 3 i Inl je by (auto simp: wd_init_ctx_config_def split: prod.splits)
    next
      case (Inr ctxs)
      then obtain k where "k \<le> cf_ctx_num cfg" "k \<le> length cs" "ctxs = map (\<lambda>c. clone_ctx_to_internal c zero_ctx) (take k cs) @ replicate (cf_ctx_num cfg - k) zero_ctx"
        using sp by auto
      then have "length ctxs = cf_ctx_num cfg \<and> list_all (\<lambda>c. ci_drv_priv c = None) ctxs"
        by (auto simp: clone_ctx_to_internal_def zero_ctx_def list_all_iff)
      then show ?thesis using run False s 3 i Inr sd sp by (auto simp: wd_init_ctx_config_def ctxs_fresh_def)
    qed
  qed
qed

lemma init_pools_length: "init_pools base n sz syncs i oks pools = (res, ps) \<Longrightarrow> length ps = length pools"
  by (induction syncs arbitrary: i oks pools) (auto split: if_splits prod.splits sum.splits)

lemma request_pool_ok:
  assumes "wd_init_async_request_pool base syncs cap oks n sz pool = (Inr u, pool')"
  shows "wd_uninit_async_request_pool pool' = Some \<lparr>wp_pools = None, wp_pool_num = 0\<rparr>"
  using assms init_pools_length [of base _ sz syncs 0 _ "replicate (length syncs) zero_pool"]
  by (auto simp: wd_init_async_request_pool_def wd_uninit_async_request_pool_def Let_def split: if_splits prod.splits sum.splits)

text \<open>What \<^verbatim>\<open>wd_cipher_common_init\<close> leaves: with success, everything that \<^verbatim>\<open>wd_cipher_common_uninit\<close> takes back but the array of contexts.\<close>

lemma common_uninit_ok:
  assumes "cs_priv cs" and "wd_uninit_async_request_pool (cs_pool cs) = Some pool"
  shows "wd_cipher_common_uninit cs r = Some (0, cs\<lparr>cs_pool := pool, cs_sched := fst (wd_clear_sched (cs_sched cs) r), cs_priv := False\<rparr>,
    snd (wd_clear_sched (cs_sched cs) r))"
  using assms by (simp add: wd_cipher_common_uninit_def Let_def case_prod_beta)

definition common_ready :: "wd_cipher_setting \<Rightarrow> alg_res \<Rightarrow> wd_cipher_setting \<Rightarrow> alg_res \<Rightarrow> bool" where
  "common_ready cs r cs' r' \<longleftrightarrow> cs_priv cs' \<and> (\<exists>ctxs. ctxs_fresh (cs_config cs') ctxs) \<and> cc_alg_name (cs_config cs') = Some ''cipher'' \<and>
    wd_uninit_async_request_pool (cs_pool cs') = Some \<lparr>wp_pools = None, wp_pool_num = 0\<rparr> \<and> rs_live r' = rs_live r \<and>
    rs_heap r' = rs_heap r + 1 + (if sd_name (cs_sched cs') = None then 0 else 1)"

lemma errno_nz: "errno_of e \<noteq> 0"
  using errno_pos [of e] by simp

lemma common_init_result:
  assumes run: "wd_cipher_common_init ev cf sd cs r = Some (ret, cs', r')" and spin: "\<And>i. ce_spin (ie_cfg ev) i = 0"
  shows "cs_status cs' = cs_status cs \<and> cs_dlhandle cs' = cs_dlhandle cs \<and> (ret = 0 \<longrightarrow> common_ready cs r cs' r')"
proof -
  obtain e0 ep where ep: "wd_set_epoll_en (ie_epoll ev) (cc_epoll_en (cs_config cs)) = (e0, ep)" by fastforce
  show ?thesis
  proof (cases "e0 < 0")
    case True
    then show ?thesis using run ep by (auto simp: wd_cipher_common_init_def)
  next
    case False
    let ?cc = "(cs_config cs)\<lparr>cc_epoll_en := ep, cc_alg_name := Some ''cipher''\<rparr>"
    obtain e1 cc r1 where i: "wd_init_ctx_config (ie_cfg ev) ?cc cf r = Some (e1, cc, r1)"
      using run ep False by (auto simp: wd_cipher_common_init_def Let_def split: option.splits)
    note fr = init_config_fresh [OF i spin]
    obtain e2 sd' r2 where sc: "wd_init_sched (ie_dup ev) (cs_sched cs) sd r1 = (e2, sd', r2)" by (metis prod_cases3)
    have same: "rs_live r2 = rs_live r1" "rs_heap r2 = rs_heap r1 + (if sd_name sd' = None then 0 else 1)" if "e2 = 0"
      using sc that errno_pos [of WD_EINVAL] by (auto simp: wd_init_sched_def split: if_splits)
    have sg: "e2 = 0 \<or> e2 < 0" using sc by (auto simp: wd_init_sched_def split: if_splits)
    show ?thesis
      using run ep False i sc sg fr same request_pool_ok
      by (auto simp: wd_cipher_common_init_def Let_def common_ready_def errno_nz split: option.splits if_splits prod.splits sum.splits)
  qed
qed

lemma init_driver_reg: "wd_ctx_init_driver ev c w r = (ret, c', w', r') \<Longrightarrow> dw_reg w' = dw_reg w"
  by (auto simp: wd_ctx_init_driver_def Let_def set_drv_def call_drv_def wd_alg_init_fallback_def split: option.splits if_splits prod.splits)

lemma init_drivers_reg: "init_drivers ev n i ctxs w r = Some (e, ctxs', w', r') \<Longrightarrow> dw_reg w' = dw_reg w"
  by (induction n arbitrary: i ctxs w r) (force split: option.splits if_splits prod.splits dest: init_driver_reg)+

lemma alg_init_driver_reg:
  assumes "ctxs_fresh cfg ctxs" and "wd_alg_init_driver cev ev cfg w r = Some (ret, cfg', w', r')"
  shows "dw_reg w' = dw_reg w \<and> cfg' = cfg"
proof -
  from assms obtain e c1 w1 r1 where run: "init_drivers ev (length ctxs) 0 ctxs w r = Some (e, c1, w1, r1)"
    by (auto simp: ctxs_fresh_def wd_alg_init_driver_def split: option.splits)
  have fr: "cc_ctxs cfg = Some ctxs" "cc_ctx_num cfg = length ctxs" "list_all (\<lambda>c. ci_drv_priv c = None) ctxs"
    using assms(1) by (auto simp: ctxs_fresh_def)
  have same: "c1 = ctxs" using init_drivers_step [OF run] fr(3) by (auto simp: list_all_iff)
  have cfg: "cfg\<lparr>cc_ctxs := Some ctxs\<rparr> = cfg" using fr(1) by simp
  have "\<exists>x. wd_alg_init_driver cev ev cfg w r = Some (x, cfg, w1, r1)"
  proof (cases e)
    case None
    then show ?thesis using run same by (simp add: wd_alg_init_driver_def fr cfg)
  next
    case (Some ie)
    obtain i x where ie: "ie = (i, x)" by fastforce
    have "i < length ctxs" using init_drivers_error [OF run [unfolded Some ie]] by simp
    then have "uninit_drivers cev [0 ..< i] False cfg w1 r1 = Some (cfg, w1, r1)" by (intro uninit_drivers_noop [OF fr(1,3)]) simp
    then show ?thesis using run same Some ie by (simp add: wd_alg_init_driver_def fr cfg)
  qed
  then show ?thesis using init_drivers_reg [OF run] assms(2) by auto
qed

text \<open>The configuration with its contexts bound to the drivers in turn.\<close>

definition bound_config :: "wd_alg_driver list \<Rightarrow> wd_ctx_config_internal \<Rightarrow> wd_ctx_internal list \<Rightarrow> wd_ctx_config_internal" where
  "bound_config ds cc ctxs = cc\<lparr>cc_ctxs := Some (map (\<lambda>i. bound ds i (ctxs ! i)) [0 ..< length ctxs]),
     cc_drv_array := Some (map Some ds), cc_drv_count := length ds\<rparr>"

lemma bound_fresh: "ctxs_fresh cc ctxs \<Longrightarrow> ctxs_fresh (bound_config ds cc ctxs) (map (\<lambda>i. bound ds i (ctxs ! i)) [0 ..< length ctxs])"
  by (auto simp: ctxs_fresh_def bound_config_def bound_def list_all_length)

lemma bind_config:
  assumes "ctxs_fresh cc ctxs" and "ds \<noteq> []" and "fst (wd_request_drv (dw_reg w) (cc_alg_name cc) ALG_DRV_SOFT) = None"
  shows "wd_ctx_bind_drivers (Some cc) (Some (map Some ds)) (length ds) w =
    Some (0, Some (bound_config ds cc ctxs), w\<lparr>dw_reg := wd_alg_drv_ref_inc (map Some ds) (dw_reg w)\<rparr>)"
proof -
  have "list_all (\<lambda>d. \<not> gets_fallback (cc_alg_name cc) w d) ds" using assms(3) by (simp add: gets_fallback_def list_all_iff)
  from bind_loop [of "cc_ctx_num cc" ctxs ds "cc_alg_name cc" w, OF _ assms(2) this] assms
  show ?thesis by (simp add: wd_ctx_bind_drivers_def bound_config_def ctxs_fresh_def)
qed

lemma unbind_config:
  assumes "ctxs_fresh cc ctxs" and "dw_reg w = wd_alg_drv_ref_inc (map Some ds) rg"
    and "distinct (map (\<lambda>n. dr_ptr (dn_drv n)) (rg_nodes rg))"
  shows "\<exists>cs. wd_ctx_unbind_drivers (Some (bound_config ds cc ctxs)) w =
    Some (Some ((bound_config ds cc ctxs)\<lparr>cc_ctxs := Some cs\<rparr>), w\<lparr>dw_reg := rg\<rparr>)"
  using assms ref_inc_dec [OF assms(3), of "map Some ds"]
  by (auto simp: wd_ctx_unbind_drivers_def bound_config_def Let_def ctxs_fresh_def)

text \<open>A failed initialisation: the status is free again, the registry of drivers is as before and the library is closed.\<close>

definition init_failed :: "drv_world \<Rightarrow> wd_cipher_setting \<Rightarrow> drv_world \<Rightarrow> bool" where
  "init_failed dw cs' dw' \<longleftrightarrow> cs_status cs' = WD_UNINIT \<and> \<not> cs_dlhandle cs' \<and> dw_reg dw' = dw_reg dw"

text \<open>
  A successful one: each driver of a context was started once. Uninitialising frees the status, closes the library, releases the pools of
  messages, clears the scheduler and gives back the references to drivers; what it keeps is counted in \<open>init_done\<close>.
\<close>

definition uninit_clean :: "drv_world \<Rightarrow> wd_cipher_setting \<Rightarrow> drv_world \<Rightarrow> bool" where
  "uninit_clean dw cs' dw' \<longleftrightarrow> cs_status cs' = WD_UNINIT \<and> \<not> cs_dlhandle cs' \<and> \<not> cs_priv cs' \<and> cs_pool cs' = \<lparr>wp_pools = None, wp_pool_num = 0\<rparr> \<and>
     sd_name (cs_sched cs') = None \<and> sd_pick_next_ctx (cs_sched cs') = None \<and> \<not> sd_h_sched_ctx (cs_sched cs') \<and>
     cc_drv_array (cs_config cs') = None \<and> dw_reg dw' = dw_reg dw"

definition init_done :: "cipher_env \<Rightarrow> drv_world \<Rightarrow> alg_res \<Rightarrow> wd_cipher_setting \<Rightarrow> drv_world \<Rightarrow> alg_res \<Rightarrow> bool" where
  "init_done ev dw r cs' dw' r' \<longleftrightarrow> cs_status cs' = WD_INIT \<and>
    (\<exists>new ctxs cs2 r2. dw_calls dw' = new @ dw_calls dw \<and> distinct (inits new) \<and> cc_ctxs (cs_config cs') = Some ctxs \<and>
       list_all (\<lambda>c. ci_ctx c \<noteq> 0 \<longrightarrow> (\<exists>d. ci_drv c = Some d \<and> started dw' (dr_ptr d))) ctxs \<and>
       wd_cipher_uninit ev cs' dw' r' = Some (cs2, dw'\<lparr>dw_reg := dw_reg dw\<rparr>, r2) \<and> uninit_clean dw cs2 dw \<and>
       rs_heap r2 = rs_heap r + 1 + int (length (inits new)) \<and> rs_live r2 = rs_live r)"

lemma out_free_failed: "out_free_drv_array n e cs dw r = Some (ret, cs', dw', r') \<Longrightarrow> ret = e \<and> dw' = dw \<and> init_failed dw cs' dw'"
  by (auto simp: out_free_drv_array_def out_close_driver_def out_clear_init_def wd_cipher_clear_status_def wd_cipher_close_driver_def
    wd_alg_clear_init_def init_failed_def split: option.splits)

lemma out_common_failed: "out_common_uninit n e cs dw r = Some (ret, cs', dw', r') \<Longrightarrow> ret = e \<and> dw' = dw \<and> init_failed dw cs' dw'"
  by (auto simp: out_common_uninit_def dest: out_free_failed split: option.splits)

lemma clear_sched_heap: "rs_heap (snd (wd_clear_sched sd r)) = rs_heap r - (if sd_name sd = None then 0 else 1)"
  "rs_live (snd (wd_clear_sched sd r)) = rs_live r"
  by (auto simp: wd_clear_sched_def)

lemma cipher_uninit_ok:
  assumes "wd_alg_uninit_driver (ie_cfg ev) (cs_config cs) w r = Some (cs_config cs, w, r)"
    and "wd_ctx_unbind_drivers (Some (cs_config cs)) w = Some (Some cc, w2)"
    and "cs_priv cs" and "wd_uninit_async_request_pool (cs_pool cs) = Some pool"
    and "cc_drv_array cc = Some arr" and "cc_drv_count cc \<le> length arr"
  shows "\<exists>cs2. wd_cipher_uninit ev cs w r = Some (cs2, w2, add_heap (- 1) (snd (wd_clear_sched (cs_sched cs) r))) \<and>
    cs_status cs2 = WD_UNINIT \<and> \<not> cs_dlhandle cs2 \<and> \<not> cs_priv cs2 \<and> cs_pool cs2 = pool \<and>
    cs_sched cs2 = fst (wd_clear_sched (cs_sched cs) r) \<and> cc_drv_array (cs_config cs2) = None"
  using assms common_uninit_ok [of "cs\<lparr>cs_config := cc\<rparr>" pool r]
  by (simp add: wd_cipher_uninit_def wd_put_drv_array_def wd_cipher_clear_status_def wd_cipher_close_driver_def wd_alg_clear_init_def)

text \<open>The end of a successful initialisation, from what each step before it gave.\<close>

lemma bound_init_done:
  assumes rdy: "common_ready cs0 r0 cs r" and arr: "cc_drv_array cc = Some arr" "cc_drv_count cc \<le> length arr" and bs: "cc_ctxs cc = Some bs"
    and st: "drv_step (dw\<lparr>dw_reg := rg\<rparr>) (add_heap 1 r) True new w' r2"
    and on: "list_all (\<lambda>c. ci_ctx c \<noteq> 0 \<longrightarrow> (\<exists>d. ci_drv c = Some d \<and> started w' (dr_ptr d))) bs"
    and un: "wd_alg_uninit_driver (ie_cfg ev) cc w' r2 = Some (cc, w', r2)"
    and ub: "wd_ctx_unbind_drivers (Some cc) w' = Some (Some (cc\<lparr>cc_ctxs := cs3\<rparr>), w'\<lparr>dw_reg := dw_reg dw\<rparr>)"
  shows "init_done ev dw r0 (cs\<lparr>cs_config := cc, cs_status := WD_INIT\<rparr>) w' r2"
proof -
  let ?c = "cs\<lparr>cs_config := cc, cs_status := WD_INIT\<rparr>" and ?r = "add_heap (- 1) (snd (wd_clear_sched (cs_sched cs) r2))"
  have pr: "cs_priv ?c" "wd_uninit_async_request_pool (cs_pool ?c) = Some \<lparr>wp_pools = None, wp_pool_num = 0\<rparr>"
    using rdy by (auto simp: common_ready_def)
  have ar: "cc_drv_array (cc\<lparr>cc_ctxs := cs3\<rparr>) = Some arr" "cc_drv_count (cc\<lparr>cc_ctxs := cs3\<rparr>) \<le> length arr" using arr by simp_all
  obtain c4 where u: "wd_cipher_uninit ev ?c w' r2 = Some (c4, w'\<lparr>dw_reg := dw_reg dw\<rparr>, ?r)"
    and c4: "cs_status c4 = WD_UNINIT" "\<not> cs_dlhandle c4" "\<not> cs_priv c4" "cs_pool c4 = \<lparr>wp_pools = None, wp_pool_num = 0\<rparr>"
      "cs_sched c4 = fst (wd_clear_sched (cs_sched ?c) r2)" "cc_drv_array (cs_config c4) = None"
    using cipher_uninit_ok [of ev ?c w' r2, OF _ _ pr ar] un ub by auto
  have heap: "rs_heap r2 = rs_heap r + 1 + int (length (inits new))" "rs_live r2 = rs_live r" "dw_calls w' = new @ dw_calls dw" "distinct (inits new)"
    using st by (auto simp: drv_step_def)
  have "uninit_clean dw c4 dw" using c4 by (simp add: uninit_clean_def wd_clear_sched_def)
  moreover have "rs_heap ?r = rs_heap r0 + 1 + int (length (inits new))" "rs_live ?r = rs_live r0"
    using heap rdy by (simp_all add: clear_sched_heap common_ready_def)
  ultimately show ?thesis
    unfolding init_done_def using u c4 heap on bs by (intro conjI exI [of _ new] exI [of _ bs] exI [of _ c4] exI [of _ ?r]) simp_all
qed

lemma init_drivers_result:
  assumes run: "cipher_init_drivers ev cs dw r = Some (ret, cs', dw', r')" and rdy: "common_ready cs0 r0 cs r"
    and dist: "distinct (map (\<lambda>n. dr_ptr (dn_drv n)) (rg_nodes (dw_reg dw)))"
    and nofb: "fst (wd_request_drv (dw_reg dw) (Some ''cipher'') ALG_DRV_SOFT) = None"
  shows "if ret = 0 then init_done ev dw r0 cs' dw' r' else init_failed dw cs' dw'"
proof -
  obtain ctxs where fr: "ctxs_fresh (cs_config cs) ctxs" using rdy by (auto simp: common_ready_def)
  obtain res where res: "wd_get_drv_array (ie_drv_oks ev) (dw_reg dw) ''cipher'' TASK_HW (Some ''hisi_sec2'') = Some res"
    using run by (auto simp: cipher_init_drivers_def split: option.splits)
  show ?thesis
  proof (cases res)
    case (Inl e)
    then show ?thesis using run res out_free_failed errno_nz by (fastforce simp: cipher_init_drivers_def)
  next
    case (Inr ds)
    let ?cs = "cs\<lparr>cs_config := (cs_config cs)\<lparr>cc_drv_array := Some (map Some ds)\<rparr>\<rparr>"
    show ?thesis
    proof (cases "ds = []")
      case True
      then show ?thesis using run res Inr out_common_failed errno_nz by (fastforce simp: cipher_init_drivers_def wd_ctx_bind_drivers_def)
    next
      case False
      let ?bc = "bound_config ds (cs_config cs) ctxs" and ?bs = "map (\<lambda>i. bound ds i (ctxs ! i)) [0 ..< length ctxs]"
      let ?w = "dw\<lparr>dw_reg := wd_alg_drv_ref_inc (map Some ds) (dw_reg dw)\<rparr>"
      have fr': "ctxs_fresh (cs_config ?cs) ctxs" using fr by (simp add: ctxs_fresh_def)
      have alg: "cc_alg_name (cs_config ?cs) = Some ''cipher''" using rdy by (simp add: common_ready_def)
      have bc: "bound_config ds (cs_config ?cs) ctxs = ?bc" by (simp add: bound_config_def)
      note bind = bind_config [OF fr' False, of dw, unfolded alg bc, OF nofb]
      note bf = bound_fresh [OF fr, of ds]
      then have bf': "cc_ctxs ?bc = Some ?bs" "cc_ctx_num ?bc = length ?bs" "list_all (\<lambda>c. ci_drv_priv c = None) ?bs" by (auto simp: ctxs_fresh_def)
      obtain e w' r2 new where ini: "wd_alg_init_driver (ie_cfg ev) (ie_drv ev) ?bc ?w (add_heap 1 r) = Some (e, ?bc, w', r2)"
        and st: "drv_step ?w (add_heap 1 r) (e = 0) new w' r2"
        and on: "e = 0 \<longrightarrow> list_all (\<lambda>c. ci_ctx c \<noteq> 0 \<longrightarrow> (case ci_drv c of None \<Rightarrow> True | Some d \<Rightarrow> started w' (dr_ptr d))) ?bs"
        and un: "wd_alg_uninit_driver (ie_cfg ev) ?bc w' r2 = Some (?bc, w', r2)"
        using init_driver_outcome [OF bf', of "ie_cfg ev" "ie_drv ev" ?w "add_heap 1 r"] by blast
      have reg: "dw_reg w' = wd_alg_drv_ref_inc (map Some ds) (dw_reg dw)" using alg_init_driver_reg [OF bf ini] by simp
      obtain cs3 where ub: "wd_ctx_unbind_drivers (Some ?bc) w' = Some (Some (?bc\<lparr>cc_ctxs := Some cs3\<rparr>), w'\<lparr>dw_reg := dw_reg dw\<rparr>)"
        using unbind_config [OF fr reg dist] by blast
      show ?thesis
      proof (cases "e = 0")
        case False
        then have "out_unbind_drivers (length ds) e (cs\<lparr>cs_config := ?bc\<rparr>) w' r2 = Some (ret, cs', dw', r')"
          using run res Inr bind ini by (simp add: cipher_init_drivers_def Let_def)
        then show ?thesis using ub False by (auto simp: out_unbind_drivers_def init_failed_def dest!: out_common_failed)
      next
        case True
        have eq: "ret = 0" "cs' = cs\<lparr>cs_config := ?bc, cs_status := WD_INIT\<rparr>" "dw' = w'" "r' = r2"
          using run res Inr bind ini True by (auto simp: cipher_init_drivers_def Let_def wd_alg_set_init_def)
        have al: "list_all (\<lambda>c. ci_ctx c \<noteq> 0 \<longrightarrow> (\<exists>d. ci_drv c = Some d \<and> started w' (dr_ptr d))) ?bs"
          using on True by (auto simp: list_all_iff bound_def)
        have ar: "cc_drv_array ?bc = Some (map Some ds)" "cc_drv_count ?bc \<le> length (map Some ds)" by (simp_all add: bound_config_def)
        have "init_done ev dw r0 (cs\<lparr>cs_config := ?bc, cs_status := WD_INIT\<rparr>) w' r2"
          using bound_init_done [OF rdy ar bf'(1) _ al un ub] st True by simp
        then show ?thesis using eq by simp
      qed
    qed
  qed
qed

lemma cipher_init_result:
  assumes run: "wd_cipher_init ev config sched cs dw r = Some (ret, cs', dw', r')"
    and idle: "cs_status cs = WD_UNINIT" "\<not> cs_dlhandle cs"
    and spin: "\<And>i. ce_spin (ie_cfg ev) i = 0"
    and reg: "distinct (map (\<lambda>n. dr_ptr (dn_drv n)) (rg_nodes (dw_reg dw)))" "algs_named (dw_reg dw)"
  shows "if ret = 0 then init_done ev dw r cs' dw' r'
    else init_failed dw cs' dw' \<or> ret = err WD_ETIMEDOUT \<and> cs' = cs\<lparr>cs_status := WD_INITING\<rparr> \<and> dw' = dw \<and> r' = r"
proof -
  obtain res st where t: "try_alone (ie_tries ev) (cs_status cs) 0 = Some (res, st)" using run by (auto simp: wd_cipher_init_def split: option.splits)
  note tr = try_alone_result [OF t]
  show ?thesis
  proof (cases res)
    case (Inl e)
    then show ?thesis using run t tr idle errno_nz [of e] by (auto simp: wd_cipher_init_def init_failed_def)
  next
    case (Inr u)
    let ?cs = "cs\<lparr>cs_status := st\<rparr>"
    obtain p where p: "wd_init_param_check config sched = Some p" using run t Inr by (auto simp: wd_cipher_init_def Let_def split: option.splits)
    obtain o1 c1 where od: "wd_cipher_open_driver ev ?cs = (o1, c1)" by fastforce
    show ?thesis
    proof (cases "p = 0 \<and> o1 = 0")
      case False
      then show ?thesis using run t Inr p od idle errno_nz
        by (auto simp: wd_cipher_init_def Let_def out_clear_init_def wd_cipher_clear_status_def wd_alg_clear_init_def wd_cipher_open_driver_def
            init_failed_def split: if_splits)
    next
      case True
      then obtain cf sd e2 c2 r2 where ci: "config = Some cf" "sched = Some sd" "wd_cipher_common_init ev cf sd c1 r = Some (e2, c2, r2)"
        and rest: "(if e2 \<noteq> 0 then out_close_driver e2 c2 dw r2 else cipher_init_drivers ev c2 dw r2) = Some (ret, cs', dw', r')"
        using run t Inr p od by (auto simp: wd_cipher_init_def Let_def split: option.splits prod.splits)
      show ?thesis
      proof (cases "e2 = 0")
        case True
        then show ?thesis using rest common_init_result [OF ci(3) spin] init_drivers_result [OF _ _ reg(1) class_without_fallback [OF reg(2)]] by auto
      next
        case False
        then show ?thesis using rest
          by (auto simp: out_close_driver_def out_clear_init_def wd_cipher_clear_status_def wd_alg_clear_init_def wd_cipher_close_driver_def init_failed_def)
      qed
    qed
  qed
qed

text \<open>
  What stays after the reverse of a successful initialisation: the array of contexts and the private memory of each driver that was
  started, as nothing clears the configuration and no driver is stopped.
\<close>

lemma uninit_keeps_memory:
  assumes run: "wd_cipher_init ev config sched cs dw r = Some (ret, cs', dw', r')"
    and idle: "cs_status cs = WD_UNINIT" "\<not> cs_dlhandle cs"
    and spin: "\<And>i. ce_spin (ie_cfg ev) i = 0"
    and reg: "distinct (map (\<lambda>n. dr_ptr (dn_drv n)) (rg_nodes (dw_reg dw)))" "algs_named (dw_reg dw)"
    and ok: "ret = 0"
  shows "\<exists>new cs2 dw2 r2. dw_calls dw' = new @ dw_calls dw \<and> wd_cipher_uninit ev cs' dw' r' = Some (cs2, dw2, r2) \<and>
    rs_heap r2 = rs_heap r + 1 + int (length (inits new))"
  using cipher_init_result [OF run idle spin reg] ok by (auto simp: init_done_def)

text \<open>
  C22: An initialisation of the cipher front end that fails, other than by giving up on the status, leaves the status free and the library
  closed and gives back the references to drivers. After a successful one the status is taken and every context with a handle has a driver that is
  started; \<^verbatim>\<open>wd_cipher_uninit\<close> then has an outcome, frees the status, closes the library, releases the pools of messages and the array of
  drivers, clears the scheduler and gives the references to drivers back. No lock fails, and drivers are registered for algorithms that exist.
\<close>

theorem cipher_init_uninit:
  assumes run: "wd_cipher_init ev config sched cs dw r = Some (ret, cs', dw', r')"
    and idle: "cs_status cs = WD_UNINIT" "\<not> cs_dlhandle cs"
    and spin: "\<And>i. ce_spin (ie_cfg ev) i = 0"
    and reg: "distinct (map (\<lambda>n. dr_ptr (dn_drv n)) (rg_nodes (dw_reg dw)))" "algs_named (dw_reg dw)"
    and intime: "ret \<noteq> err WD_ETIMEDOUT"
  shows "if ret \<noteq> 0 then cs_status cs' = WD_UNINIT \<and> \<not> cs_dlhandle cs' \<and> dw_reg dw' = dw_reg dw
    else cs_status cs' = WD_INIT \<and>
      (\<exists>ctxs cs2 dw2 r2. cc_ctxs (cs_config cs') = Some ctxs \<and>
         list_all (\<lambda>c. ci_ctx c \<noteq> 0 \<longrightarrow> (\<exists>d. ci_drv c = Some d \<and> started dw' (dr_ptr d))) ctxs \<and>
         wd_cipher_uninit ev cs' dw' r' = Some (cs2, dw2, r2) \<and> uninit_clean dw cs2 dw2)"
proof (cases "ret = 0")
  case False
  then show ?thesis using cipher_init_result [OF run idle spin reg] intime by (auto simp: init_failed_def)
next
  case True
  with cipher_init_result [OF run idle spin reg] obtain ctxs cs2 r2 where
    "cs_status cs' = WD_INIT" "cc_ctxs (cs_config cs') = Some ctxs"
    "list_all (\<lambda>c. ci_ctx c \<noteq> 0 \<longrightarrow> (\<exists>d. ci_drv c = Some d \<and> started dw' (dr_ptr d))) ctxs"
    "wd_cipher_uninit ev cs' dw' r' = Some (cs2, dw'\<lparr>dw_reg := dw_reg dw\<rparr>, r2)" "uninit_clean dw cs2 dw" by (auto simp: init_done_def)
  then show ?thesis using True by (auto simp: uninit_clean_def)
qed

definition demo_cipher_env :: cipher_env where
  "demo_cipher_env = \<lparr>ie_epoll = None, ie_cfg = demo_cfg_env\<lparr>ce_need_info := False\<rparr>, ie_dup = True, ie_base = \<lambda>_. 4096, ie_pool_oks = [], ie_drv_oks = [],
     ie_drv = demo_drv_env, ie_lib_path = 0, ie_dlopen = True, ie_tries = [False]\<rparr>"

definition idle_setting :: wd_cipher_setting where
  "idle_setting = \<lparr>cs_status = WD_UNINIT, cs_config = zero_config, cs_sched = fst (wd_clear_sched (sched_of SCHED_POLICY_RR) no_res),
     cs_pool = \<lparr>wp_pools = None, wp_pool_num = 0\<rparr>, cs_priv = False, cs_dlhandle = False\<rparr>"

definition sec_world :: drv_world where
  "sec_world = \<lparr>dw_reg = rg_sec, dw_drv = \<lambda>_. demo_drv_state, dw_calls = []\<rparr>"

definition one_ctx :: wd_ctx_config where
  "one_ctx = \<lparr>cf_ctx_num = 1, cf_ctxs = Some [\<lparr>wc_ctx = 7, wc_op_type = 0, wc_ctx_mode = 0, wc_ctx_type = 0\<rparr>], cf_priv = 0, cf_cap = None\<rparr>"

definition sec_config :: wd_ctx_config_internal where
  "sec_config = zero_config\<lparr>cc_ctx_num := 1, cc_ctxs := Some [zero_ctx\<lparr>ci_ctx := 7\<rparr>], cc_alg_name := Some ''cipher'', cc_epoll_en := False\<rparr>"

definition ready_setting :: wd_cipher_setting where
  "ready_setting = \<lparr>cs_status = WD_INITING, cs_config = sec_config, cs_sched = sched_of SCHED_POLICY_RR\<lparr>sd_sched_policy := sd_sched_policy (cs_sched idle_setting), sd_sched_uninit := sd_sched_uninit (cs_sched idle_setting)\<rparr>,
     cs_pool = \<lparr>wp_pools = Some [zero_pool], wp_pool_num = 1\<rparr>, cs_priv = True, cs_dlhandle = True\<rparr>"

lemma demo_try: "try_alone (ie_tries demo_cipher_env) (cs_status idle_setting) 0 = Some (Inr (), WD_INITING)"
  by (simp add: demo_cipher_env_def idle_setting_def try_once_def try_timeout_def WD_INIT_SLEEP_UTIME_def US2S_def WD_INIT_RETRY_TIMEOUT_def u32_def)

lemma demo_copy:
  "\<exists>r. wd_init_ctx_config (ie_cfg demo_cipher_env) (zero_config\<lparr>cc_epoll_en := False, cc_alg_name := Some ''cipher''\<rparr>) one_ctx no_res = Some (0, sec_config, r)"
  by (simp add: wd_init_ctx_config_def one_ctx_def wd_shm_create_def demo_cipher_env_def demo_cfg_env_def no_res_def wd_insert_ctx_list_def
     sec_config_def clone_ctx_to_internal_def zero_ctx_def zero_config_def)

lemma demo_common_init:
  "\<exists>r. wd_cipher_common_init demo_cipher_env one_ctx (sched_of SCHED_POLICY_RR) (idle_setting\<lparr>cs_status := WD_INITING, cs_dlhandle := True\<rparr>) no_res =
     Some (0, ready_setting, r)"
proof -
  obtain r where "wd_init_ctx_config (ie_cfg demo_cipher_env) (zero_config\<lparr>cc_epoll_en := False, cc_alg_name := Some ''cipher''\<rparr>) one_ctx no_res = Some (0, sec_config, r)"
    using demo_copy by blast
  moreover have "ie_epoll demo_cipher_env = None" "ie_dup demo_cipher_env" "ie_pool_oks demo_cipher_env = []" by (simp_all add: demo_cipher_env_def)
  ultimately show ?thesis
    apply (simp add: wd_cipher_common_init_def wd_set_epoll_en_def Let_def)
    apply (simp add: idle_setting_def wd_init_sched_def sched_of_def one_ctx_def wd_init_async_request_pool_def CTX_MODE_SYNC_def ready_setting_def wd_clear_sched_def)
    done
qed

lemma sec_named: "algs_named rg_sec"
  by (simp add: algs_named_def rg_sec_def drv_sec_def cbc_aes_type)

lemma sec_distinct: "distinct (map (\<lambda>n. dr_ptr (dn_drv n)) (rg_nodes rg_sec))"
  by (simp add: rg_sec_def)

lemma demo_drv_array: "wd_get_drv_array (ie_drv_oks demo_cipher_env) rg_sec ''cipher'' TASK_HW (Some ''hisi_sec2'') = Some (Inr [drv_sec])"
  by (simp add: wd_get_drv_array_def demo_cipher_env_def rg_sec_def drv_sec_def uadk_alg_consts)

lemma demo_drivers: "\<exists>cs' dw' r'. cipher_init_drivers demo_cipher_env ready_setting sec_world r = Some (0, cs', dw', r') \<and> dw_calls dw' = [Drv_Init 1]"
proof -
  let ?cc = "sec_config\<lparr>cc_drv_array := Some [Some drv_sec]\<rparr>"
  have fr: "ctxs_fresh ?cc [zero_ctx\<lparr>ci_ctx := 7\<rparr>]" by (simp add: ctxs_fresh_def sec_config_def zero_ctx_def)
  have nofb: "fst (wd_request_drv (dw_reg sec_world) (cc_alg_name ?cc) ALG_DRV_SOFT) = None"
    using class_without_fallback [OF sec_named] by (simp add: sec_world_def sec_config_def)
  note b = bind_config [OF fr _ nofb, of "[drv_sec]", simplified]
  show ?thesis using b demo_drv_array
    apply (simp add: cipher_init_drivers_def ready_setting_def Let_def)
    apply (simp add: sec_world_def)
    apply (simp add: bound_config_def bound_def sec_config_def wd_alg_init_driver_def wd_ctx_init_driver_def Let_def
      demo_drv_state_def demo_cipher_env_def demo_drv_env_def drv_sec_def set_drv_def call_drv_def zero_ctx_def)
    done
qed

theorem cipher_init_uninit_witness:
  "\<exists>cs' dw' r' cs2 dw2 r2. wd_cipher_init demo_cipher_env (Some one_ctx) (Some (sched_of SCHED_POLICY_RR)) idle_setting sec_world no_res = Some (0, cs', dw', r') \<and>
    cs_status cs' = WD_INIT \<and> wd_cipher_uninit demo_cipher_env cs' dw' r' = Some (cs2, dw2, r2) \<and> cs_status cs2 = WD_UNINIT \<and> dw_reg dw2 = rg_sec"
proof -
  obtain r1 where c: "wd_cipher_common_init demo_cipher_env one_ctx (sched_of SCHED_POLICY_RR) (idle_setting\<lparr>cs_status := WD_INITING, cs_dlhandle := True\<rparr>) no_res =
     Some (0, ready_setting, r1)" using demo_common_init by blast
  obtain cs' dw' r' where d: "cipher_init_drivers demo_cipher_env ready_setting sec_world r1 = Some (0, cs', dw', r')" "dw_calls dw' = [Drv_Init 1]"
    using demo_drivers by blast
  have p: "wd_init_param_check (Some one_ctx) (Some (sched_of SCHED_POLICY_RR)) = Some 0" by (simp add: wd_init_param_check_def one_ctx_def)
  have o: "wd_cipher_open_driver demo_cipher_env (idle_setting\<lparr>cs_status := WD_INITING\<rparr>) = (0, idle_setting\<lparr>cs_status := WD_INITING, cs_dlhandle := True\<rparr>)"
    by (simp add: wd_cipher_open_driver_def demo_cipher_env_def)
  have run: "wd_cipher_init demo_cipher_env (Some one_ctx) (Some (sched_of SCHED_POLICY_RR)) idle_setting sec_world no_res = Some (0, cs', dw', r')"
    using demo_try c d p o by (simp add: wd_cipher_init_def)
  have "cs_status idle_setting = WD_UNINIT" "\<not> cs_dlhandle idle_setting" "\<And>i. ce_spin (ie_cfg demo_cipher_env) i = 0"
    "distinct (map (\<lambda>n. dr_ptr (dn_drv n)) (rg_nodes (dw_reg sec_world)))" "algs_named (dw_reg sec_world)"
    using sec_named sec_distinct by (simp_all add: idle_setting_def sec_world_def demo_cipher_env_def demo_cfg_env_def)
  from cipher_init_uninit [OF run this] run show ?thesis by (auto simp: uninit_clean_def sec_world_def)
qed

end
