(* ===== verification/Spec2Isabelle.thy ===== *)
theory Spec2Isabelle
  imports Bmm_Pool Sched_Properties Qm_Setup Cipher_Properties Cipher_Lifecycle
begin

text \<open>
  \<^bold>\<open>UADK, the user-space accelerator development kit.\<close>

  UADK gives applications access to hardware accelerators (compression, ciphers, public-key algorithms, ...) through the
  character devices that the kernel framework \<^verbatim>\<open>uacce\<close> creates. An application initialises an algorithm class with a set of
  contexts (queues of devices) and a scheduler; it opens sessions; each request is put into a message, the scheduler picks a
  context, and the driver of the device writes the request into the queue of that context and later collects the response.

  \<^bold>\<open>The parts and their theories.\<close>

  \<^item> \<open>Uadk_Prelude\<close>: error codes (\<^verbatim>\<open>include/wd.h\<close>), fixed-width integers with the wrap-around written out, array access with a
    checked index, allocation outcomes, loops.
  \<^item> \<open>Uadk_Interfaces\<close>: the contracts between the parts as locales (a store of bits, a stack of free objects, a keyed table,
    a pool of buffers); each
    is interpreted on the definitions of the part that provides it.
  \<^item> \<open>Mempool_Bitmap\<close>, \<open>Mempool\<close>, \<open>Mempool_Blocks\<close>: the memory pool of \<^verbatim>\<open>wd_mempool.c\<close> (lines 18--609): the bitmap of blocks, block
    pools carved out of it, memory zones, reference counts. Shown: created block pools have disjoint blocks, inside of the pool
    for blocks no larger than the pool's own or a pool whose blocks fill the words of its map (a counterexample is in \<open>Mempool_Blocks\<close>), no
    block is handed out twice, failures and destruction restore the pool, creation succeeds when there is room.
  \<^item> \<open>Mempool_Huge\<close>: the rest of \<^verbatim>\<open>wd_mempool.c\<close>: huge pages of a NUMA node, creation, destruction and statistics of a memory pool. Shown:
    creation has an outcome, leaks no mapping, and yields an empty well-formed pool on the smallest huge pages that fit.
  \<^item> \<open>Bmm\<close>, \<open>Bmm_Pool\<close>: the block memory manager \<^verbatim>\<open>wd_bmm.c\<close>: memory reserved in slices, pools of blocks with a bitmap, buffers of several
    contiguous blocks. Shown: buffers in use are disjoint over any sequence of requests, a request succeeds when there is room,
    returning a buffer restores the pool, creation and destruction of pools over reserved memory balance.
  \<^item> \<open>Msg_Pool\<close>: the pools of messages of \<^verbatim>\<open>wd_util.c\<close>, also as a step relation over the memory accesses of several threads. Shown: no two
    threads hold the same message.
  \<^item> \<open>Alg_Registry\<close>: the driver registry of \<^verbatim>\<open>wd_alg.c\<close>. Shown: a well-formedness invariant, requests return an available driver of
    the highest priority, registration and references can be undone, what a selection of drivers returns.
  \<^item> \<open>Sched_Hash\<close>, \<open>Sched_Cache\<close>, \<open>Sched_Session\<close>, \<open>Sched_Policy\<close>, \<open>Sched_System\<close>, \<open>Sched_Properties\<close>: the scheduler of \<^verbatim>\<open>wd_sched.c\<close>: domains
    of contexts in a hash table, the contexts that a session caches, sessions and their slots, the seven policies, and the step
    relation of a running scheduler. Shown: the table refines a map (registrations one after another, properties up
    to the software one) and the cache a list, picks return registered contexts, are
    fair or least loaded according to the policy, sessions keep their invariant in every reachable state, polling accounts
    for responses.
  \<^item> \<open>Wd_Device\<close>, \<open>Wd_Context\<close>: devices and contexts of \<^verbatim>\<open>wd.c\<close>: attributes in sysfs, names, lists of devices, the choice of a device,
    capabilities, usage; opening and releasing a context, mapped regions, commands. Shown: of the devices that are listed the
    chosen one is the nearest with the most free contexts; opening and releasing a context balance.
  \<^item> \<open>Qm_Queue\<close>, \<open>Qm_Sgl\<close>, \<open>Qm_Setup\<close>: the queue manager of the HiSilicon drivers, \<^verbatim>\<open>drv/hisi_qm_udrv.c\<close>: doorbells and the two rings of a
    queue, hardware scatter-gather lists, allocation and release of a queue pair. Shown: over every interleaving of sends,
    completions by the device and receives without an error status of the device, responses arrive in order and no entry in use is overwritten; chains hold
    exactly the data of the user and go back to the pool; copies out of a chain are the requested range; a queue pair that
    cannot be allocated leaves nothing behind, neither regions and locks nor blocks and arrays of the list pool.

  \<^item> \<open>Alg_Config\<close>, \<open>Alg_Init\<close>, \<open>Alg_Attrs\<close>, \<open>Alg_Params\<close>: the set-up that \<^verbatim>\<open>wd_util.c\<close> gives all algorithms: the internal copy of contexts and
    scheduler, the loop that sends a request and waits for its answer, the status word as a step relation over threads,
    drivers bound to contexts and their initialisation, contexts and scheduler made from attributes, numbers of contexts from an
    environment variable. Shown: at most one thread initialises (an algorithm is ended only while it is initialised); the copy of the contexts, the
    references to drivers and the contexts made from attributes are given back on every path, under the conditions that the properties name,
    and lemmas beside them show what stays otherwise; each driver of a context is initialised exactly once; the scheduler holds exactly the contexts that were made.
  \<^item> \<open>Cipher\<close>, \<open>Cipher_Init\<close>, \<open>Cipher_Async\<close>, \<open>Cipher_Properties\<close>, \<open>Cipher_Lifecycle\<close>: the cipher front end \<^verbatim>\<open>wd_cipher.c\<close>, which composes the scheduler, the message pools
    and the set-up: keys, sessions, synchronous and asynchronous requests, polling by context and by every policy of the
    scheduler, both kinds of initialisation. Shown: keys fit the buffer and the algorithm; every accepted asynchronous request is
    called back exactly once and polling delivers every request that the device has finished; what a synchronous request returns;
    what initialisation and its reverse leave. The driver is a parameter: it may change the message it is given, and its contracts are
    \<open>drv_queue\<close> and \<open>drv_delivers\<close>.

  \<^bold>\<open>How the code is modelled.\<close> A structure is a record with the fields of the C structure, an operation is a function that takes
  and returns the state it changes; \<^verbatim>\<open>NULL\<close> is \<open>None\<close> or address 0 as the text of the theory says. Negative return codes are the
  left side of a sum. A function into an option has no outcome (\<open>None\<close>) where the C code would leave an array or follow an
  invalid pointer; theorems that a call behaves well therefore also say that it has an outcome. Operations that take a
  lock are one step, as the lock makes them (an insertion into the table of domains takes its lock twice, see \<open>Sched_Hash\<close>); interleavings are sequences of such steps (\<open>sched_step\<close>, \<open>qm_step\<close>). What the C library,
  the kernel, the device, the user's callbacks and the allocator answer are arguments of the definitions; each theorem that
  restricts them has a witness with concrete values.

  \<^bold>\<open>Bounds.\<close> Loops are structural recursions over the list or the counter they run on, or have a termination proof. Some loops
  take a bound: following a chain of lists when copying (\<open>Qm_Sgl\<close>; the theorem asks for at least the number of lists of the chain)
  and the unbounded loop of \<^verbatim>\<open>wd_get_drv_array\<close>, which is a partial function and shown not to end in one case. The rounds of \<^verbatim>\<open>wd_cipher_init2_\<close> and the attempts of
  \<^verbatim>\<open>wd_alg_try_init\<close> of a single caller run over the list of the system's answers.

  \<^bold>\<open>Not modelled.\<close> The other algorithm front ends (\<^verbatim>\<open>wd_digest.c\<close>, \<^verbatim>\<open>wd_aead.c\<close>, \<^verbatim>\<open>wd_comp.c\<close>, \<^verbatim>\<open>wd_rsa.c\<close>, \<^verbatim>\<open>wd_dh.c\<close>, \<^verbatim>\<open>wd_ecc.c\<close>, \<^verbatim>\<open>wd_agg.c\<close>,
  \<^verbatim>\<open>wd_join_gather.c\<close>, \<^verbatim>\<open>wd_udma.c\<close>); of \<^verbatim>\<open>wd_util.c\<close> the tables of contexts per node that environment variables configure and the loading of driver
  libraries; the drivers of the single accelerators under \<^verbatim>\<open>drv/\<close>; the first version of the library under \<^verbatim>\<open>v1/\<close>; the
  command-line tool, samples and tests. Log output is left out everywhere.
\<close>

end
